(* ===== verification/Prelude.thy ===== *)
theory Prelude
  imports Main "HOL-Library.Signed_Division"
begin

text \<open>
  The vocabulary every theory of the development shares: the result type in which the C++
  code's failures are values, the checked 64-bit signed arithmetic of \<open>int64_t\<close>, vector
  reads and writes by index, the loop combinator for range-for loops with an accumulator,
  and the list lemmas the components need.
\<close>

section \<open>Results\<close>

text \<open>
  A call either returns or fails. \<open>RuntimeError\<close> is a thrown \<open>std::runtime_error\<close> with
  its message, \<open>AllocationFailure\<close> the subclass of it that
  \<open>src/zuku/tiled_array.h\<close> declares, \<open>LengthError\<close> a \<open>std::length_error\<close> of the standard library,
  \<open>BadAccess\<close> an exception of a wrong \<open>std::get\<close> or \<open>optional::value\<close>,
  \<open>AssertFailed\<close> an \<open>assert\<close> that fails, \<open>Aborted\<close> a call of \<open>abort\<close>, and
  \<open>Undefined\<close> undefined behaviour: what C++ leaves without a meaning is never given one here.
\<close>

datatype ub = SignedOverflow | DivideByZero | OutOfRange | EmptyOptional | NullPointer | Uninitialized

datatype err =
  RuntimeError string | AllocationFailure string | LengthError | BadAccess | AssertFailed | Aborted |
  Undefined ub

type_synonym 'a res = "err + 'a"

abbreviation ret :: "'a \<Rightarrow> 'a res" where "ret \<equiv> Inr"
abbreviation fail :: "err \<Rightarrow> 'a res" where "fail \<equiv> Inl"

named_theorems res_simps \<open>evaluation of checked operations inside their range\<close>

fun andThen :: "'a res \<Rightarrow> ('a \<Rightarrow> 'b res) \<Rightarrow> 'b res" where
  "andThen (Inl e) f = Inl e"
| "andThen (Inr x) f = f x"

lemma andThen_ret: "andThen m ret = m"
  by (cases m) auto

lemma andThen_assoc: "andThen (andThen m f) g = andThen m (\<lambda>x. andThen (f x) g)"
  by (cases m) auto

lemma andThen_eq_ret: "andThen m f = Inr y \<longleftrightarrow> (\<exists>x. m = Inr x \<and> f x = Inr y)"
  by (cases m) auto

lemma andThen_cong [fundef_cong]:
  "m = m' \<Longrightarrow> (\<And>x. m' = Inr x \<Longrightarrow> f x = f' x) \<Longrightarrow> andThen m f = andThen m' f'"
  by (cases m') auto

definition require :: "bool \<Rightarrow> err \<Rightarrow> unit res" where
  "require b e = (if b then Inr () else Inl e)"

lemma require_True [simp]: "require True e = Inr ()" and
  require_False [simp]: "require False e = Inl e"
  by (simp_all add: require_def)

text \<open>A range-for loop over a vector that updates an accumulator and may fail.\<close>

fun foldR :: "('s \<Rightarrow> 'a \<Rightarrow> 's res) \<Rightarrow> 's \<Rightarrow> 'a list \<Rightarrow> 's res" where
  "foldR f s [] = Inr s"
| "foldR f s (x # xs) = andThen (f s x) (\<lambda>s'. foldR f s' xs)"

lemma foldR_append: "foldR f s (xs @ ys) = andThen (foldR f s xs) (\<lambda>s'. foldR f s' ys)"
  by (induction xs arbitrary: s) (auto simp: andThen_assoc)

lemma foldR_map: "foldR f s (map g xs) = foldR (\<lambda>s x. f s (g x)) s xs"
  by (induction xs arbitrary: s) auto

lemma foldR_pure:
  "(\<And>s x. x \<in> set xs \<Longrightarrow> f s x = Inr (g s x)) \<Longrightarrow> foldR f s xs = Inr (foldl g s xs)"
  by (induction xs arbitrary: s) auto

text \<open>A loop that appends one computed element per iteration (\<open>push_back\<close>).\<close>

fun mapR :: "('a \<Rightarrow> 'b res) \<Rightarrow> 'a list \<Rightarrow> 'b list res" where
  "mapR f [] = Inr []"
| "mapR f (x # xs) = andThen (f x) (\<lambda>y. andThen (mapR f xs) (\<lambda>ys. Inr (y # ys)))"

lemma mapR_pure: "(\<And>x. x \<in> set xs \<Longrightarrow> f x = Inr (g x)) \<Longrightarrow> mapR f xs = Inr (map g xs)"
  by (induction xs) auto

lemma mapR_length: "mapR f xs = Inr ys \<Longrightarrow> length ys = length xs"
  by (induction xs arbitrary: ys) (auto simp: andThen_eq_ret)

lemma mapR_nth: "mapR f xs = Inr ys \<Longrightarrow> i < length xs \<Longrightarrow> f (xs ! i) = Inr (ys ! i)"
  by (induction xs arbitrary: ys i) (auto simp: andThen_eq_ret less_Suc_eq_0_disj)

section \<open>Signed 64-bit arithmetic\<close>

text \<open>
  An \<open>int64_t\<close> value is an \<open>int\<close>; an operation whose mathematical result leaves the type's
  range is signed overflow, which C++ leaves undefined. Division and remainder truncate towards
  zero (\<open>sdiv\<close>, \<open>smod\<close>).
\<close>

definition int64_min :: int where "int64_min = - (2 ^ 63)"
definition int64_max :: int where "int64_max = 2 ^ 63 - 1"

definition int64_ok :: "int \<Rightarrow> bool" where
  "int64_ok x \<longleftrightarrow> int64_min \<le> x \<and> x \<le> int64_max"

definition chk :: "int \<Rightarrow> int res" where
  "chk x = (if int64_ok x then Inr x else Inl (Undefined SignedOverflow))"

definition add64 :: "int \<Rightarrow> int \<Rightarrow> int res" where "add64 a b = chk (a + b)"
definition sub64 :: "int \<Rightarrow> int \<Rightarrow> int res" where "sub64 a b = chk (a - b)"
definition mul64 :: "int \<Rightarrow> int \<Rightarrow> int res" where "mul64 a b = chk (a * b)"

definition div64 :: "int \<Rightarrow> int \<Rightarrow> int res" where
  "div64 a b = (if b = 0 then Inl (Undefined DivideByZero) else chk (a sdiv b))"

definition mod64 :: "int \<Rightarrow> int \<Rightarrow> int res" where
  "mod64 a b =
     (if b = 0 then Inl (Undefined DivideByZero)
      else andThen (chk (a sdiv b)) (\<lambda>_. Inr (a smod b)))"

lemmas arith64_defs = add64_def sub64_def mul64_def div64_def mod64_def

lemma int64_okI: "0 \<le> x \<Longrightarrow> x \<le> int64_max \<Longrightarrow> int64_ok x"
  by (simp add: int64_ok_def int64_min_def)

lemma int64_ok_le: "0 \<le> x \<Longrightarrow> x \<le> y \<Longrightarrow> int64_ok y \<Longrightarrow> int64_ok x"
  by (simp add: int64_ok_def int64_min_def)

lemma int64_ok_zero [simp]: "int64_ok 0" and int64_ok_one [simp]: "int64_ok 1"
  by (simp_all add: int64_ok_def int64_min_def int64_max_def)

lemma sdiv_nonneg: "0 \<le> a \<Longrightarrow> 0 < b \<Longrightarrow> a sdiv b = (a div b :: int)"
  by (simp add: signed_divide_int_def sgn_if)

lemma smod_nonneg: "0 \<le> a \<Longrightarrow> 0 < b \<Longrightarrow> a smod b = (a mod b :: int)"
  by (cases "a = 0") (simp_all add: signed_modulo_int_def sgn_if)

lemma div_le_dividend: "0 \<le> a \<Longrightarrow> 0 < b \<Longrightarrow> a div b \<le> (a :: int)"
  by (metis div_by_1 int_one_le_iff_zero_less zdiv_mono2 zero_less_one)

lemma div_less_of_less_mult: "0 < b \<Longrightarrow> a < c * b \<Longrightarrow> a div b < (c :: int)"
proof (rule ccontr)
  assume b: "0 < b" and a: "a < c * b" and "\<not> a div b < c"
  then have "c * b \<le> a div b * b" by (intro mult_right_mono) auto
  also have "\<dots> \<le> a" using b by (simp add: pos_mod_sign minus_mod_eq_div_mult[symmetric])
  finally show False using a by simp
qed

lemma add64_ok [res_simps]: "int64_ok (a + b) \<Longrightarrow> add64 a b = Inr (a + b)"
  by (simp add: add64_def chk_def)

lemma sub64_ok [res_simps]: "int64_ok (a - b) \<Longrightarrow> sub64 a b = Inr (a - b)"
  by (simp add: sub64_def chk_def)

lemma mul64_ok [res_simps]: "int64_ok (a * b) \<Longrightarrow> mul64 a b = Inr (a * b)"
  by (simp add: mul64_def chk_def)

lemma div64_ok [res_simps]:
  "0 \<le> a \<Longrightarrow> int64_ok a \<Longrightarrow> 0 < b \<Longrightarrow> div64 a b = Inr (a div b)"
  using div_le_dividend[of a b]
  by (auto simp: div64_def chk_def sdiv_nonneg pos_imp_zdiv_nonneg_iff intro: int64_ok_le)

lemma mod64_ok [res_simps]:
  "0 \<le> a \<Longrightarrow> int64_ok a \<Longrightarrow> 0 < b \<Longrightarrow> mod64 a b = Inr (a mod b)"
  using div_le_dividend[of a b]
  by (auto simp: mod64_def chk_def sdiv_nonneg smod_nonneg pos_imp_zdiv_nonneg_iff
      intro: int64_ok_le)

lemma div64_zero: "div64 a 0 = Inl (Undefined DivideByZero)"
  by (simp add: div64_def)

section \<open>Vectors\<close>

definition vec_at :: "'a list \<Rightarrow> int \<Rightarrow> 'a res" where
  "vec_at xs i = (if 0 \<le> i \<and> i < int (length xs) then Inr (xs ! nat i)
                  else Inl (Undefined OutOfRange))"

definition vec_set :: "'a list \<Rightarrow> int \<Rightarrow> 'a \<Rightarrow> 'a list res" where
  "vec_set xs i x = (if 0 \<le> i \<and> i < int (length xs) then Inr (xs[nat i := x])
                     else Inl (Undefined OutOfRange))"

definition size_of :: "'a list \<Rightarrow> int" where "size_of xs = int (length xs)"

definition opt_get :: "'a option \<Rightarrow> 'a res" where
  \<comment> \<open>\<open>*opt\<close>, undefined on an empty optional\<close>
  "opt_get v = (case v of None \<Rightarrow> Inl (Undefined EmptyOptional) | Some x \<Rightarrow> Inr x)"

lemma vec_at_nth [res_simps]: "i < length xs \<Longrightarrow> vec_at xs (int i) = Inr (xs ! i)"
  by (simp add: vec_at_def)

lemma vec_set_nth [res_simps]: "i < length xs \<Longrightarrow> vec_set xs (int i) x = Inr (xs[i := x])"
  by (simp add: vec_set_def)

lemma vec_at_eq_ret: "vec_at xs i = Inr x \<longleftrightarrow> 0 \<le> i \<and> nat i < length xs \<and> x = xs ! nat i"
  by (auto simp: vec_at_def)

lemma vec_set_eq_ret:
  "vec_set xs i x = Inr ys \<longleftrightarrow> 0 \<le> i \<and> nat i < length xs \<and> ys = xs[nat i := x]"
  by (auto simp: vec_set_def)

lemma opt_get_simps [simp]:
  "opt_get None = Inl (Undefined EmptyOptional)" "opt_get (Some x) = Inr x"
  by (simp_all add: opt_get_def)

text \<open>
  The index loop \<open>for (int64_t i = 0; i < n; ++i)\<close> visits the integers below \<open>n\<close>; a
  non-positive bound visits none.
\<close>

definition upto64 :: "int \<Rightarrow> int list" where "upto64 n = map int [0..<nat n]"

lemma set_upto64 [simp]: "set (upto64 n) = {0..<n}"
proof
  show "{0..<n} \<subseteq> set (upto64 n)"
  proof
    fix x assume "x \<in> {0..<n}"
    then have "x = int (nat x)" and "nat x \<in> {0..<nat n}" by auto
    then show "x \<in> set (upto64 n)" unfolding upto64_def by (metis imageI set_map set_upt)
  qed
qed (auto simp: upto64_def)

lemma length_upto64 [simp]: "length (upto64 n) = nat n"
  by (simp add: upto64_def)

lemma nth_upto64 [simp]: "i < nat n \<Longrightarrow> upto64 n ! i = int i"
  by (simp add: upto64_def)

lemma distinct_upto64 [simp]: "distinct (upto64 n)"
  by (simp add: upto64_def distinct_map)

lemma upto64_Suc: "upto64 (int (Suc n)) = upto64 (int n) @ [int n]"
  by (simp add: upto64_def del: of_nat_Suc)

text \<open>An index loop: an invariant that each iteration keeps, without failing, holds at the end.\<close>

lemma foldR_upt:
  assumes "I a s0" and "a \<le> n"
    and "\<And>i s. a \<le> i \<Longrightarrow> i < n \<Longrightarrow> I i s \<Longrightarrow> \<exists>s'. f s (int i) = Inr s' \<and> I (Suc i) s'"
  shows "\<exists>s. foldR f s0 (map int [a..<n]) = Inr s \<and> I n s"
  using assms(2,3)
proof (induction n)
  case 0
  then show ?case using assms(1) by simp
next
  case (Suc n)
  show ?case
  proof (cases "a \<le> n")
    case True
    then obtain s where s: "foldR f s0 (map int [a..<n]) = Inr s" "I n s"
      using Suc by force
    then obtain s' where "f s (int n) = Inr s'" "I (Suc n) s'" using Suc.prems True by force
    with s(1) True show ?thesis by (simp add: foldR_append)
  next
    case False
    then show ?thesis using assms(1) Suc.prems by (simp add: le_Suc_eq)
  qed
qed

lemma foldR_upto64:
  assumes "I 0 s0"
    and "\<And>i s. i < n \<Longrightarrow> I i s \<Longrightarrow> \<exists>s'. f s (int i) = Inr s' \<and> I (Suc i) s'"
  shows "\<exists>s. foldR f s0 (upto64 (int n)) = Inr s \<and> I n s"
  using foldR_upt[of I 0 s0 n f] assms by (simp add: upto64_def)

section \<open>Decimal printing\<close>

text \<open>What \<open>std::to_string\<close> and \<open>operator<<\<close> print for an integer.\<close>

definition digit_char :: "nat \<Rightarrow> char" where
  "digit_char d = ''0123456789'' ! d"

fun show_nat :: "nat \<Rightarrow> string" where
  "show_nat n = (if n < 10 then [digit_char n] else show_nat (n div 10) @ [digit_char (n mod 10)])"

declare show_nat.simps [simp del]

definition show_int :: "int \<Rightarrow> string" where
  "show_int i = (if i < 0 then ''-'' @ show_nat (nat (- i)) else show_nat (nat i))"

section \<open>Products\<close>

lemma le_mult_ge1: "0 \<le> a \<Longrightarrow> 1 \<le> p \<Longrightarrow> a \<le> a * (p :: int)"
  using mult_left_mono[of 1 p a] by simp

lemma ge1_mult: "1 \<le> a \<Longrightarrow> 1 \<le> b \<Longrightarrow> 1 \<le> a * (b :: int)"
  using mult_mono[of 1 a 1 b] by simp

lemma mul64_ge1: "1 \<le> a \<Longrightarrow> 1 \<le> b \<Longrightarrow> a * b \<le> int64_max \<Longrightarrow> mul64 a b = Inr (a * b)"
  using ge1_mult[of a b] by (intro mul64_ok int64_okI) auto

lemma prod_list_ge1: "(\<And>x. x \<in> set xs \<Longrightarrow> 1 \<le> f x) \<Longrightarrow> 1 \<le> prod_list (map f xs :: int list)"
proof (induction xs)
  case (Cons x xs)
  then have "1 \<le> f x" and "1 \<le> prod_list (map f xs)" by auto
  then have "1 * 1 \<le> f x * prod_list (map f xs)" by (intro mult_mono) auto
  then show ?case by simp
qed simp

lemma prod_list_member_le:
  "x \<in> set xs \<Longrightarrow> (\<And>y. y \<in> set xs \<Longrightarrow> 1 \<le> f y) \<Longrightarrow> f x \<le> (prod_list (map f xs) :: int)"
proof (induction xs)
  case (Cons y ys)
  have P: "1 \<le> prod_list (map f ys)" and y: "1 \<le> f y"
    using Cons.prems(2) by (auto intro: prod_list_ge1)
  show ?case
  proof (cases "x = y")
    case True
    then show ?thesis using P y le_mult_ge1[of "f y" "prod_list (map f ys)"] by simp
  next
    case False
    then have "f x \<le> prod_list (map f ys)" using Cons by simp
    also have "\<dots> \<le> prod_list (map f ys) * f y" using P y by (intro le_mult_ge1) auto
    finally show ?thesis by (simp add: mult.commute)
  qed
qed simp

lemma prod_list_mono:
  "(\<And>x. x \<in> set xs \<Longrightarrow> 0 \<le> f x \<and> f x \<le> (g x :: int)) \<Longrightarrow>
   0 \<le> prod_list (map f xs) \<and> prod_list (map f xs) \<le> prod_list (map g xs)"
proof (induction xs)
  case (Cons x xs)
  then have "0 \<le> prod_list (map f xs) \<and> prod_list (map f xs) \<le> prod_list (map g xs)"
    and "0 \<le> f x \<and> f x \<le> g x" by auto
  then show ?case by (auto intro: mult_mono)
qed simp

lemma prod_list_filter_split:
  "prod_list (map f xs) =
   prod_list (map f (filter P xs)) * prod_list (map f (filter (\<lambda>x. \<not> P x) xs))"
  for f :: "'a \<Rightarrow> int"
  by (induction xs) (auto simp: mult_ac)

lemma prod_list_mult:
  "prod_list (map (\<lambda>x. f x * g x) xs) = prod_list (map f xs) * prod_list (map g xs)"
  for f g :: "'a \<Rightarrow> int"
  by (induction xs) (auto simp: mult_ac)

lemma prod_list_if:
  "prod_list (map (\<lambda>x. if P x then f x else 1) xs) = prod_list (map f (filter P xs))"
  for f :: "'a \<Rightarrow> int"
  by (induction xs) auto

text \<open>
  The product loops: a step that multiplies the accumulator by \<open>f x\<close> as long as a bound
  \<open>g x\<close> on the factor keeps the product in range never leaves the range when the product of the
  bounds does not.
\<close>

lemma foldR_product:
  assumes "\<And>acc x. x \<in> set xs \<Longrightarrow> 1 \<le> acc \<Longrightarrow> acc * g x \<le> int64_max \<Longrightarrow>
             step acc x = Inr (acc * f x)"
    and "\<And>x. x \<in> set xs \<Longrightarrow> 1 \<le> f x \<and> f x \<le> g x"
    and "1 \<le> a" and "a * prod_list (map g xs) \<le> int64_max"
  shows "foldR step a xs = Inr (a * prod_list (map f xs))"
  using assms
proof (induction xs arbitrary: a)
  case (Cons x xs)
  have gx: "1 \<le> f x" "f x \<le> g x" using Cons.prems(2)[of x] by auto
  have P: "1 \<le> prod_list (map g xs)" using Cons.prems(2) by (intro prod_list_ge1) force
  have "a * g x \<le> a * g x * prod_list (map g xs)"
    using P gx Cons.prems(3) by (intro le_mult_ge1) auto
  also have "\<dots> \<le> int64_max" using Cons.prems(4) by (simp add: mult.assoc)
  finally have "step a x = Inr (a * f x)"
    using Cons.prems(1)[of x a] Cons.prems(3) by simp
  moreover have "a * f x * prod_list (map g xs) \<le> a * g x * prod_list (map g xs)"
    using gx P Cons.prems(3) by (intro mult_right_mono mult_left_mono) auto
  then have "a * f x * prod_list (map g xs) \<le> int64_max"
    using Cons.prems(4) by (simp add: mult.assoc)
  then have "foldR step (a * f x) xs = Inr (a * f x * prod_list (map f xs))"
    using Cons.prems(1,2) ge1_mult[OF Cons.prems(3) gx(1)] by (intro Cons.IH) simp_all
  ultimately show ?case by (simp add: mult_ac)
qed simp

end
