(* ===== verification/Mesh.thy ===== *)
theory Mesh
  imports Prelude
begin

text \<open>
  \<open>src/zuku/mesh.h\<close>: a \<open>DeviceList\<close> is a contiguous range of global device ids, given by its
  first id and its number of devices. What allocates or loops (\<open>vector\<close>, \<open>end\<close>, the iterator) checks
  every step, as the code computes it in \<open>int64_t\<close>. The accessors \<open>stop\<close>, \<open>operator[]\<close>, \<open>slice\<close> and
  \<open>ShardId\<close> are one addition or subtraction and are on \<open>int\<close>: \<open>device_list_in_range\<close> and
  \<open>device_list_stop\<close> show that on a list with \<open>device_list_ok\<close>, which the well-formed shardings of the
  other theories have, they are what \<open>int64_t\<close> gives.
\<close>

record device_list =
  dl_start :: int
  dl_num :: int

definition dl_empty_ctor :: device_list where
  "dl_empty_ctor = \<lparr>dl_start = 0, dl_num = 0\<rparr>"

definition dl_ctor :: "int \<Rightarrow> int \<Rightarrow> device_list" where
  "dl_ctor start num_devices = \<lparr>dl_start = start, dl_num = num_devices\<rparr>"

definition dl_stop :: "device_list \<Rightarrow> int" where
  "dl_stop d = dl_start d + dl_num d"

definition dl_size :: "device_list \<Rightarrow> int" where
  "dl_size d = dl_num d"

definition dl_is_empty :: "device_list \<Rightarrow> bool" where
  "dl_is_empty d \<longleftrightarrow> dl_num d = 0"

definition dl_index :: "device_list \<Rightarrow> int \<Rightarrow> int" where
  "dl_index d idx = dl_start d + idx"

definition dl_contains :: "device_list \<Rightarrow> int \<Rightarrow> bool" where
  "dl_contains d device_id \<longleftrightarrow> device_id \<ge> dl_start d \<and> device_id < dl_stop d"

definition dl_contains_list :: "device_list \<Rightarrow> device_list \<Rightarrow> bool" where
  "dl_contains_list d other \<longleftrightarrow> dl_start d \<le> dl_start other \<and> dl_stop d \<ge> dl_stop other"

definition dl_slice :: "device_list \<Rightarrow> int \<Rightarrow> int \<Rightarrow> device_list" where
  "dl_slice d offset num_devices = dl_ctor (dl_start d + offset) num_devices"

definition dl_eq :: "device_list \<Rightarrow> device_list \<Rightarrow> bool" where
  "dl_eq d other \<longleftrightarrow> dl_start d = dl_start other \<and> dl_num d = dl_num other"

definition dl_shard_id :: "device_list \<Rightarrow> int \<Rightarrow> int option" where
  "dl_shard_id d device_id =
     (if dl_contains d device_id then Some (device_id - dl_start d) else None)"

text \<open>
  Space for a number of elements of a vector: \<open>std::length_error\<close> when it is negative (it converts to a
  huge \<open>size_t\<close>) or more than \<open>max_size()\<close>. There is always memory for what is allowed.
  \<open>vector()\<close> allocates \<open>num_devices_\<close> elements and fills them with \<open>std::iota\<close>, which increments the
  value after every element.
\<close>

definition reserve :: "int \<Rightarrow> int \<Rightarrow> unit res" where
  "reserve element_bytes count =
     (if 0 \<le> count \<and> count \<le> int64_max div element_bytes then ret () else fail LengthError)"

fun iota :: "nat \<Rightarrow> int \<Rightarrow> int list res" where
  "iota 0 v = ret []"
| "iota (Suc k) v =
     andThen (add64 v 1) (\<lambda>v'. andThen (iota k v') (\<lambda>rest. ret (v # rest)))"

definition dl_vector :: "device_list \<Rightarrow> int list res" where
  "dl_vector d = andThen (reserve 8 (dl_num d)) (\<lambda>_. iota (nat (dl_num d)) (dl_start d))"

text \<open>
  The range-for loop over a \<open>DeviceList\<close> runs \<open>Iterator\<close> from \<open>begin()\<close> until it equals
  \<open>end()\<close>: the visited sequence is the value of a partial function.
\<close>

definition dl_begin :: "device_list \<Rightarrow> int" where "dl_begin d = dl_start d"
definition dl_end :: "device_list \<Rightarrow> int res" where "dl_end d = add64 (dl_start d) (dl_num d)"

partial_function (option) dl_visit_from :: "int \<Rightarrow> int \<Rightarrow> int list res option" where
  "dl_visit_from it stop =
     (if it \<noteq> stop
      then if int64_ok (it + 1)
        then Option.bind (dl_visit_from (it + 1) stop)
               (\<lambda>rest. Some (andThen rest (\<lambda>xs. ret (it # xs))))
        else Some (fail (Undefined SignedOverflow))
      else Some (ret []))"

definition dl_visit :: "device_list \<Rightarrow> int list res option" where
  "dl_visit d = (case dl_end d of
     Inl e \<Rightarrow> Some (fail e)
   | Inr stop \<Rightarrow> dl_visit_from (dl_begin d) stop)"

definition show_device_list :: "device_list \<Rightarrow> string" where
  "show_device_list d = ''devices['' @ show_int (dl_start d) @ ''...'' @ show_int (dl_stop d) @ '')''"

definition device_list_ok :: "device_list \<Rightarrow> bool" where
  "device_list_ok d \<longleftrightarrow> 0 \<le> dl_start d \<and> 0 \<le> dl_num d \<and> dl_start d + dl_num d \<le> int64_max"

lemmas dl_defs = dl_stop_def dl_size_def dl_index_def dl_contains_def dl_shard_id_def
  dl_slice_def dl_ctor_def dl_is_empty_def dl_contains_list_def

lemma dl_eq_iff [simp]: "dl_eq d e \<longleftrightarrow> d = e"
  by (cases d, cases e) (auto simp: dl_eq_def)

lemma dl_ctor_simps [simp]:
  "dl_start (dl_ctor s n) = s" "dl_num (dl_ctor s n) = n" "dl_size (dl_ctor s n) = n"
  by (simp_all add: dl_defs)

text \<open>Inside \<open>device_list_ok\<close> no offset the code forms leaves the range of \<open>int64_t\<close>.\<close>

lemma device_list_in_range:
  assumes "device_list_ok d"
  shows "int64_ok (dl_stop d)" and "0 \<le> i \<Longrightarrow> i \<le> dl_size d \<Longrightarrow> int64_ok (dl_index d i)"
    and "dl_contains d x \<Longrightarrow> int64_ok (x - dl_start d)"
    and "0 \<le> i \<Longrightarrow> i \<le> dl_size d \<Longrightarrow> int64_ok (dl_start (dl_slice d i n))"
  using assms by (auto simp: device_list_ok_def dl_defs int64_ok_def int64_min_def)

lemma device_list_stop: "device_list_ok d \<Longrightarrow> dl_end d = ret (dl_stop d)"
  by (simp add: dl_end_def add64_def chk_def device_list_in_range(1)[unfolded dl_stop_def] dl_stop_def)

text \<open>
  A device belongs to the list exactly when it has a shard number, and shard number and
  \<open>operator[]\<close> are inverse to each other: shard numbers are the integers from 0 below
  \<open>size()\<close>, device \<open>d[i]\<close> has shard number \<open>i\<close>, and the device with shard number \<open>i\<close>
  is \<open>d[i]\<close>.
\<close>

theorem dl_shard_id_iff:
  "dl_shard_id d x = Some i \<longleftrightarrow> 0 \<le> i \<and> i < dl_size d \<and> x = dl_index d i"
  by (auto simp: dl_defs)

lemma dl_shard_id_Some:
  "dl_contains d x \<longleftrightarrow> (\<exists>i. dl_shard_id d x = Some i)"
  by (auto simp: dl_shard_id_def)

lemma dl_shard_id_inj:
  "dl_shard_id d x = Some i \<Longrightarrow> dl_shard_id d y = Some i \<Longrightarrow> x = y"
  by (auto simp: dl_defs split: if_splits)

lemma dl_slice_contains:
  "0 \<le> off \<Longrightarrow> off + n \<le> dl_size d \<Longrightarrow> dl_contains_list d (dl_slice d off n)"
  by (simp add: dl_defs)

lemma dl_contains_list_subset:
  "dl_contains_list d e \<Longrightarrow> dl_contains e x \<Longrightarrow> dl_contains d x"
  by (simp add: dl_defs)

lemma iota_upto:
  "0 \<le> v \<Longrightarrow> v + int k \<le> int64_max \<Longrightarrow> iota k v = ret (map (\<lambda>i. v + int i) [0..<k])"
proof (induction k arbitrary: v)
  case (Suc k)
  have "map (\<lambda>i. v + int i) [0..<Suc k] = v # map (\<lambda>i. v + 1 + int i) [0..<k]"
    by (simp add: map_upt_Suc ac_simps del: upt_Suc)
  moreover have "add64 v 1 = ret (v + 1)"
    using Suc.prems by (simp add: add64_def chk_def int64_ok_def int64_min_def)
  ultimately show ?case using Suc.IH[of "v + 1"] Suc.prems by (simp del: upt_Suc)
qed simp

lemma dl_visit_from_upto:
  "k = nat (stop - it) \<Longrightarrow> 0 \<le> it \<Longrightarrow> it \<le> stop \<Longrightarrow> stop \<le> int64_max \<Longrightarrow>
   dl_visit_from it stop = Some (ret (map (\<lambda>i. it + int i) [0..<k]))"
proof (induction k arbitrary: it)
  case 0
  then show ?case by (subst dl_visit_from.simps) simp
next
  case (Suc k)
  then have lt: "it < stop" and k: "k = nat (stop - (it + 1))" by auto
  have m: "map (\<lambda>i. it + int i) [0..<Suc k] = it # map (\<lambda>i. it + 1 + int i) [0..<k]"
    by (simp add: map_upt_Suc ac_simps del: upt_Suc)
  have "int64_ok (it + 1)" using lt Suc.prems by (simp add: int64_ok_def int64_min_def)
  moreover have "dl_visit_from (it + 1) stop = Some (ret (map (\<lambda>i. it + 1 + int i) [0..<k]))"
    using Suc.IH[of "it + 1"] lt k Suc.prems by simp
  ultimately show ?case using lt unfolding m by (subst dl_visit_from.simps) simp
qed

text \<open>
  C16. Iterating over a device list that lies in the range of \<open>int64_t\<close>, with a count that a vector can
  hold, ends without overflow, and visits in increasing order exactly the elements of \<open>vector()\<close>: each
  contained device once and no other.
\<close>

theorem dl_iteration_complete:
  assumes "device_list_ok d" and "dl_num d \<le> int64_max div 8"
  shows "\<exists>xs. dl_visit d = Some (ret xs) \<and> dl_vector d = ret xs \<and> distinct xs \<and> sorted xs \<and>
           {x. dl_contains d x} = set xs"
proof -
  let ?xs = "map (\<lambda>i. dl_start d + int i) [0..<nat (dl_num d)]"
  have d: "0 \<le> dl_start d" "0 \<le> dl_num d" "dl_start d + dl_num d \<le> int64_max"
    using assms(1) by (simp_all add: device_list_ok_def)
  have v: "dl_visit d = Some (ret ?xs)"
    using d by (simp add: dl_visit_def dl_begin_def device_list_stop[OF assms(1)] dl_stop_def
        dl_visit_from_upto)
  have w: "dl_vector d = ret ?xs"
    using d assms(2) by (simp add: dl_vector_def reserve_def iota_upto)
  have "sorted ?xs" by (auto simp: sorted_iff_nth_mono)
  moreover have "distinct ?xs" by (auto simp: distinct_map inj_on_def)
  moreover have "set ?xs = (\<lambda>i. dl_start d + i) ` set (upto64 (dl_num d))"
    by (auto simp: upto64_def image_image)
  then have "{x. dl_contains d x} = set ?xs"
    by (auto simp: dl_defs image_iff intro!: bexI[where x = "_ - dl_start d"])
  ultimately show ?thesis using v w by blast
qed

theorem dl_iteration_complete_witness:
  "\<exists>xs. dl_visit (dl_ctor 4 3) = Some (ret xs) \<and> dl_vector (dl_ctor 4 3) = ret xs \<and> distinct xs \<and>
     sorted xs \<and> {x. dl_contains (dl_ctor 4 3) x} = set xs"
  by (rule dl_iteration_complete) (simp_all add: device_list_ok_def int64_max_def)

end
