(* ===== verification/Shape.thy ===== *)
theory Shape
  imports Mesh "HOL-Library.Word"
begin

text \<open>
  \<open>src/zuku/shape.h\<close>: element types, the dimensions of a sharded array (extent, number of
  pieces, position of the dimension in the device order), and the sizes derived from them.
  A dimension with extent 1 and more than one piece is no dimension of the array: it
  replicates every tile that many times.
\<close>

section \<open>Element types\<close>

datatype supported_type =
  PRED | F16 | BF16 | F32 | F64 | S8 | S16 | S32 | S64 | U8 | U16 | U32 | U64 | C64 | C128

fun SupportedTypeSizeOf :: "supported_type \<Rightarrow> int" where
  "SupportedTypeSizeOf PRED = 1" | "SupportedTypeSizeOf S8 = 1" | "SupportedTypeSizeOf U8 = 1"
| "SupportedTypeSizeOf F16 = 2" | "SupportedTypeSizeOf BF16 = 2"
| "SupportedTypeSizeOf S16 = 2" | "SupportedTypeSizeOf U16 = 2"
| "SupportedTypeSizeOf F32 = 4" | "SupportedTypeSizeOf S32 = 4" | "SupportedTypeSizeOf U32 = 4"
| "SupportedTypeSizeOf F64 = 8" | "SupportedTypeSizeOf S64 = 8" | "SupportedTypeSizeOf U64 = 8"
| "SupportedTypeSizeOf C64 = 8"
| "SupportedTypeSizeOf C128 = 16"

fun type_to_string :: "supported_type \<Rightarrow> string" where
  "type_to_string PRED = ''PRED''" | "type_to_string F16 = ''F16''"
| "type_to_string BF16 = ''BF16''" | "type_to_string F32 = ''F32''"
| "type_to_string F64 = ''F64''" | "type_to_string S8 = ''S8''"
| "type_to_string S16 = ''S16''" | "type_to_string S32 = ''S32''"
| "type_to_string S64 = ''S64''" | "type_to_string U8 = ''U8''"
| "type_to_string U16 = ''U16''" | "type_to_string U32 = ''U32''"
| "type_to_string U64 = ''U64''" | "type_to_string C64 = ''C64''"
| "type_to_string C128 = ''C128''"

section \<open>Shardings\<close>

record sharding_dim =
  dim_size :: int
  dim_sharding :: int
  dim_permutation :: int

definition dim_eq :: "sharding_dim \<Rightarrow> sharding_dim \<Rightarrow> bool" where
  "dim_eq lhs rhs \<longleftrightarrow> dim_size lhs = dim_size rhs \<and> dim_sharding lhs = dim_sharding rhs \<and>
     dim_permutation lhs = dim_permutation rhs"

record sharding =
  sh_dims :: "sharding_dim list"
  sh_devices :: device_list

definition sharding_eq :: "sharding \<Rightarrow> sharding \<Rightarrow> bool" where
  "sharding_eq lhs rhs \<longleftrightarrow>
     list_all2 dim_eq (sh_dims lhs) (sh_dims rhs) \<and> dl_eq (sh_devices lhs) (sh_devices rhs)"

record sharded_shape =
  shp_type :: supported_type
  shp_sharding :: sharding

definition sharded_shape_eq :: "sharded_shape \<Rightarrow> sharded_shape \<Rightarrow> bool" where
  "sharded_shape_eq lhs rhs \<longleftrightarrow>
     shp_type lhs = shp_type rhs \<and> sharding_eq (shp_sharding lhs) (shp_sharding rhs)"

section \<open>Printing\<close>

fun supported_type_int :: "supported_type \<Rightarrow> int" where
  "supported_type_int PRED = 0" | "supported_type_int F16 = 1" | "supported_type_int BF16 = 2"
| "supported_type_int F32 = 3" | "supported_type_int F64 = 4" | "supported_type_int S8 = 5"
| "supported_type_int S16 = 6" | "supported_type_int S32 = 7" | "supported_type_int S64 = 8"
| "supported_type_int U8 = 9" | "supported_type_int U16 = 10" | "supported_type_int U32 = 11"
| "supported_type_int U64 = 12" | "supported_type_int C64 = 13" | "supported_type_int C128 = 14"

definition show_dim :: "sharding_dim \<Rightarrow> string" where
  "show_dim d = ''ShardingDim(size='' @ show_int (dim_size d) @ '',shard='' @
     show_int (dim_sharding d) @ '',perm='' @ show_int (dim_permutation d) @ '')''"

definition show_sharding :: "sharding \<Rightarrow> string" where
  "show_sharding s = ''Sharding('' @ show_device_list (sh_devices s) @ '',dims={'' @
     concat (map (\<lambda>d. show_dim d @ '','') (sh_dims s)) @ ''})''"

definition show_sharded_shape :: "sharded_shape \<Rightarrow> string" where
  "show_sharded_shape s = ''ShardedShape(type='' @ show_int (supported_type_int (shp_type s)) @
     '','' @ show_sharding (shp_sharding s) @ '')''"

definition ShortString :: "sharded_shape \<Rightarrow> string" where
  "ShortString s = ''TYPE='' @ type_to_string (shp_type s) @ '' [ '' @
     concat (map (\<lambda>d. show_int (dim_size d) @ '' '') (sh_dims (shp_sharding s))) @ ''] % [ '' @
     concat (map (\<lambda>d. show_int (dim_sharding d) @ '' '') (sh_dims (shp_sharding s))) @ '']''"

section \<open>Classification and sizes\<close>

definition TotalSharding :: "sharding \<Rightarrow> int res" where
  "TotalSharding s =
     foldR (\<lambda>acc dim. if dim_size dim > 1 then mul64 acc (dim_sharding dim) else ret acc)
       1 (sh_dims s)"

definition NumRealDims :: "sharding \<Rightarrow> int" where
  "NumRealDims s =
     (if list_ex (\<lambda>dim. dim_size dim < dim_sharding dim) (sh_dims s)
      then size_of (sh_dims s) - 1 else size_of (sh_dims s))"

definition NumLocalElements :: "sharding \<Rightarrow> int res" where
  "NumLocalElements s =
     foldR (\<lambda>acc dim. if dim_size dim > 1
              then andThen (div64 (dim_size dim) (dim_sharding dim)) (\<lambda>q. mul64 acc q)
              else ret acc)
       1 (sh_dims s)"

definition IsPartiallyReplicated :: "sharding \<Rightarrow> bool res" where
  "IsPartiallyReplicated s =
     andThen (TotalSharding s) (\<lambda>t. ret (t > 1 \<and> t < dl_size (sh_devices s)))"

definition FullySharded :: "sharding \<Rightarrow> bool res" where
  "FullySharded s = andThen (TotalSharding s) (\<lambda>t. ret (t = dl_size (sh_devices s)))"

definition IsReplicated :: "sharding \<Rightarrow> bool res" where
  "IsReplicated s = andThen (TotalSharding s) (\<lambda>t. ret (t = 1))"

definition ShardElements :: "sharding \<Rightarrow> int res" where
  "ShardElements s =
     foldR (\<lambda>acc dim. if dim_size dim > 1
              then andThen (mul64 acc (dim_size dim)) (\<lambda>p. div64 p (dim_sharding dim))
              else ret acc)
       1 (sh_dims s)"

text \<open>
  \<open>ShardSize\<close> multiplies a \<open>size_t\<close> by an \<open>int64_t\<close>: the product is unsigned 64-bit and is
  read back as \<open>int64_t\<close>.
\<close>

definition ShardSize :: "sharded_shape \<Rightarrow> int res" where
  "ShardSize shape =
     andThen (ShardElements (shp_sharding shape)) (\<lambda>n.
       ret (sint (word_of_int (SupportedTypeSizeOf (shp_type shape)) * word_of_int n :: 64 word)))"

definition FullDimensionProduct :: "sharded_shape \<Rightarrow> int res" where
  "FullDimensionProduct shape =
     foldR (\<lambda>acc dim. mul64 acc (dim_size dim)) 1 (sh_dims (shp_sharding shape))"

section \<open>Well-formed shardings\<close>

definition is_repl_dim :: "sharding_dim \<Rightarrow> bool" where
  "is_repl_dim dim \<longleftrightarrow> dim_size dim = 1 \<and> dim_sharding dim > 1"

definition dim_ok :: "sharding_dim \<Rightarrow> bool" where
  "dim_ok dim \<longleftrightarrow> 1 \<le> dim_size dim \<and> 1 \<le> dim_sharding dim \<and>
     (is_repl_dim dim \<or> dim_sharding dim dvd dim_size dim)"

abbreviation real_dims :: "sharding_dim list \<Rightarrow> sharding_dim list" where
  "real_dims ds \<equiv> filter (\<lambda>d. \<not> is_repl_dim d) ds"

definition replication :: "sharding \<Rightarrow> int" where
  "replication s = prod_list (map dim_sharding (filter is_repl_dim (sh_dims s)))"

definition tiles :: "sharding \<Rightarrow> int" where
  "tiles s = prod_list (map dim_sharding (real_dims (sh_dims s)))"

definition elements :: "sharding \<Rightarrow> int" where
  "elements s = prod_list (map dim_size (sh_dims s))"

definition tile_elements :: "sharding \<Rightarrow> int" where
  "tile_elements s = prod_list (map (\<lambda>d. dim_size d div dim_sharding d) (real_dims (sh_dims s)))"

text \<open>
  What \<open>ShardedArray::Create\<close> checks (the product of the pieces is the number of devices), and
  what it relies on: positive extents, pieces of equal size, at most one replicating
  dimension, and positions in the device order that are a permutation.
\<close>

definition sharding_ok :: "sharding \<Rightarrow> bool" where
  "sharding_ok s \<longleftrightarrow> list_all dim_ok (sh_dims s) \<and>
     length (filter is_repl_dim (sh_dims s)) \<le> 1 \<and>
     distinct (map dim_permutation (sh_dims s)) \<and>
     list_all (\<lambda>d. 0 \<le> dim_permutation d \<and> dim_permutation d < size_of (sh_dims s)) (sh_dims s) \<and>
     prod_list (map dim_sharding (sh_dims s)) = dl_size (sh_devices s) \<and>
     elements s \<le> int64_max \<and> device_list_ok (sh_devices s)"


lemma sharding_okD:
  assumes ok: "sharding_ok s"
  shows sharding_ok_dim: "\<And>d. d \<in> set (sh_dims s) \<Longrightarrow> dim_ok d"
    and sharding_ok_repl: "length (filter is_repl_dim (sh_dims s)) \<le> 1"
    and sharding_ok_distinct: "distinct (map dim_permutation (sh_dims s))"
    and sharding_ok_perm: "\<And>d. d \<in> set (sh_dims s) \<Longrightarrow>
           0 \<le> dim_permutation d \<and> dim_permutation d < int (length (sh_dims s))"
    and sharding_ok_devices: "prod_list (map dim_sharding (sh_dims s)) = dl_size (sh_devices s)"
    and sharding_ok_elements: "elements s \<le> int64_max"
    and sharding_ok_dl: "device_list_ok (sh_devices s)"
  using ok unfolding sharding_ok_def list_all_iff size_of_def by simp_all

lemma dim_ok_ge1: "dim_ok d \<Longrightarrow> 1 \<le> dim_size d \<and> 1 \<le> dim_sharding d"
  by (simp add: dim_ok_def)

lemma real_dim_dvd: "dim_ok d \<Longrightarrow> \<not> is_repl_dim d \<Longrightarrow> dim_sharding d dvd dim_size d"
  by (simp add: dim_ok_def)

lemma real_dim_le: "dim_ok d \<Longrightarrow> \<not> is_repl_dim d \<Longrightarrow> dim_sharding d \<le> dim_size d"
  using real_dim_dvd[of d] by (auto simp: dim_ok_def intro: zdvd_imp_le)

lemma real_dim_tile_ge1:
  assumes "dim_ok d" and "\<not> is_repl_dim d"
  shows "1 \<le> dim_size d div dim_sharding d"
proof -
  have "0 < dim_sharding d" and "dim_sharding d \<le> dim_size d"
    using real_dim_le[OF assms] dim_ok_ge1[OF assms(1)] by auto
  then have "0 < dim_size d div dim_sharding d" by (simp only: pos_imp_zdiv_pos_iff)
  then show ?thesis by simp
qed

lemma real_dim_mult:
  "dim_ok d \<Longrightarrow> \<not> is_repl_dim d \<Longrightarrow> dim_sharding d * (dim_size d div dim_sharding d) = dim_size d"
  using real_dim_dvd[of d] by simp

text \<open>
  The loops of \<open>Sharding\<close> skip the dimensions of extent 1, the specifications the replicating
  ones: a real dimension of extent 1 has one piece, so both give the same product.
\<close>

lemma size1_real: "dim_ok d \<Longrightarrow> \<not> is_repl_dim d \<Longrightarrow> \<not> dim_size d > 1 \<Longrightarrow> dim_sharding d = 1"
  using real_dim_dvd[of d] by (auto simp: dim_ok_def is_repl_dim_def)

lemma sharding_factor_eq:
  "dim_ok d \<Longrightarrow> (if dim_size d > 1 then dim_sharding d else 1) =
                (if \<not> is_repl_dim d then dim_sharding d else 1)"
  using size1_real[of d] by (auto simp: is_repl_dim_def)

lemma tile_factor_eq:
  "dim_ok d \<Longrightarrow> (if dim_size d > 1 then dim_size d div dim_sharding d else 1) =
                (if \<not> is_repl_dim d then dim_size d div dim_sharding d else 1)"
proof (cases "dim_size d > 1")
  case False
  assume "dim_ok d"
  with False have "dim_size d = 1" by (simp add: dim_ok_def)
  with False \<open>dim_ok d\<close> size1_real[of d] show ?thesis by simp
qed (simp add: is_repl_dim_def)

lemma map_sharding_factor:
  "(\<And>d. d \<in> set ds \<Longrightarrow> dim_ok d) \<Longrightarrow>
   prod_list (map (\<lambda>d. if dim_size d > 1 then dim_sharding d else 1) ds) =
   prod_list (map dim_sharding (real_dims ds))"
  by (simp add: prod_list_if[symmetric] sharding_factor_eq cong: map_cong)

lemma map_tile_factor:
  "(\<And>d. d \<in> set ds \<Longrightarrow> dim_ok d) \<Longrightarrow>
   prod_list (map (\<lambda>d. if dim_size d > 1 then dim_size d div dim_sharding d else 1) ds) =
   prod_list (map (\<lambda>d. dim_size d div dim_sharding d) (real_dims ds))"
  by (simp add: prod_list_if[symmetric] tile_factor_eq cong: map_cong)

lemma tiles_times_replication:
  "sharding_ok s \<Longrightarrow> tiles s * replication s = dl_size (sh_devices s)"
  unfolding tiles_def replication_def
  using prod_list_filter_split[of dim_sharding "sh_dims s" is_repl_dim] sharding_okD(5)[of s]
  by (simp add: mult.commute)

lemma tiles_ge1: "sharding_ok s \<Longrightarrow> 1 \<le> tiles s"
  unfolding tiles_def by (rule prod_list_ge1) (auto dest: sharding_okD(1) dim_ok_ge1)

lemma replication_ge1: "sharding_ok s \<Longrightarrow> 1 \<le> replication s"
  unfolding replication_def by (rule prod_list_ge1) (auto dest: sharding_okD(1) dim_ok_ge1)

lemma tile_elements_ge1: "sharding_ok s \<Longrightarrow> 1 \<le> tile_elements s"
  unfolding tile_elements_def
  by (rule prod_list_ge1) (auto dest: sharding_okD(1) real_dim_tile_ge1)

lemma devices_ok: "sharding_ok s \<Longrightarrow> dl_size (sh_devices s) \<le> int64_max"
  using sharding_okD(7)[of s] by (simp add: device_list_ok_def dl_size_def)

lemma tiles_le_devices: "sharding_ok s \<Longrightarrow> tiles s \<le> dl_size (sh_devices s)"
  using le_mult_ge1[of "tiles s" "replication s"] tiles_ge1[of s] replication_ge1[of s]
    tiles_times_replication[of s] by simp

text \<open>Together the tiles hold every element of the array once.\<close>

lemma tiles_times_elements:
  assumes "sharding_ok s"
  shows "tiles s * tile_elements s = elements s"
proof -
  have "prod_list (map dim_size (filter is_repl_dim ds)) = 1" for ds
    by (induction ds) (auto simp: is_repl_dim_def)
  then have "elements s = prod_list (map dim_size (real_dims (sh_dims s)))"
    using prod_list_filter_split[of dim_size "sh_dims s" is_repl_dim] by (simp add: elements_def)
  moreover have "map dim_size (real_dims (sh_dims s)) =
      map (\<lambda>d. dim_sharding d * (dim_size d div dim_sharding d)) (real_dims (sh_dims s))"
    using assms by (simp add: real_dim_mult sharding_ok_dim)
  ultimately show ?thesis by (simp add: tiles_def tile_elements_def prod_list_mult)
qed

lemma TotalSharding_ok:
  assumes "sharding_ok s"
  shows "TotalSharding s = ret (tiles s)"
proof -
  let ?f = "\<lambda>d. if dim_size d > 1 then dim_sharding d else 1"
  have P: "prod_list (map ?f (sh_dims s)) = tiles s"
    using assms by (simp add: map_sharding_factor tiles_def sharding_okD)
  have ge1: "1 \<le> ?f d" if "d \<in> set (sh_dims s)" for d
    using that assms by (auto dest: sharding_ok_dim dim_ok_ge1)
  have "TotalSharding s = ret (1 * prod_list (map ?f (sh_dims s)))"
    unfolding TotalSharding_def
  proof (rule foldR_product[where g = ?f])
    fix acc d assume "d \<in> set (sh_dims s)" "1 \<le> acc" "acc * ?f d \<le> int64_max"
    then show "(if dim_size d > 1 then mul64 acc (dim_sharding d) else ret acc) = ret (acc * ?f d)"
      using ge1[of d] by (auto simp: mul64_ge1)
  qed (use ge1 P devices_ok[OF assms] tiles_le_devices[OF assms] in auto)
  then show ?thesis by (simp add: P)
qed


lemma local_element_loops:
  assumes "sharding_ok s"
  shows NumLocalElements_ok: "NumLocalElements s = ret (tile_elements s)"
    and ShardElements_ok: "ShardElements s = ret (tile_elements s)"
proof -
  let ?f = "\<lambda>d. if dim_size d > 1 then dim_size d div dim_sharding d else 1"
  have P: "prod_list (map ?f (sh_dims s)) = tile_elements s"
    using assms by (simp add: map_tile_factor tile_elements_def sharding_ok_dim)
  have size1: "1 \<le> dim_size d" "1 \<le> dim_sharding d" if "d \<in> set (sh_dims s)" for d
    using that assms by (auto dest: sharding_ok_dim dim_ok_ge1)
  have ge1: "1 \<le> ?f d" "?f d \<le> dim_size d" if "d \<in> set (sh_dims s)" for d
    using that assms size1[OF that] sharding_ok_dim[OF assms that] real_dim_tile_ge1[of d]
    by (auto simp: is_repl_dim_def div_le_dividend)
  have max: "1 * prod_list (map dim_size (sh_dims s)) \<le> int64_max"
    using sharding_ok_elements[OF assms] by (simp add: elements_def)
  have size_ok: "int64_ok (dim_size d)" if "d \<in> set (sh_dims s)" for d
  proof -
    have "dim_size d \<le> prod_list (map dim_size (sh_dims s))"
      using that size1 by (intro prod_list_member_le)
    then show ?thesis using max size1[OF that] by (intro int64_okI) auto
  qed
  have "foldR (\<lambda>acc d. if dim_size d > 1
              then andThen (div64 (dim_size d) (dim_sharding d)) (\<lambda>q. mul64 acc q)
              else ret acc) 1 (sh_dims s) = ret (1 * prod_list (map ?f (sh_dims s)))"
  proof (rule foldR_product[where g = dim_size])
    fix acc d assume d: "d \<in> set (sh_dims s)" "1 \<le> acc" "acc * dim_size d \<le> int64_max"
    have "acc * ?f d \<le> acc * dim_size d" using ge1[OF d(1)] d(2) by (intro mult_left_mono) auto
    then have "acc * ?f d \<le> int64_max" using d(3) by linarith
    then show "(if dim_size d > 1
              then andThen (div64 (dim_size d) (dim_sharding d)) (\<lambda>q. mul64 acc q)
              else ret acc) = ret (acc * ?f d)"
      using d ge1(1)[OF d(1)] size1[OF d(1)] size_ok[OF d(1)]
      by (auto simp: div64_ok mul64_ge1)
  qed (use ge1 max in auto)
  then show "NumLocalElements s = ret (tile_elements s)"
    unfolding NumLocalElements_def by (simp add: P)
  have "foldR (\<lambda>acc d. if dim_size d > 1
              then andThen (mul64 acc (dim_size d)) (\<lambda>p. div64 p (dim_sharding d))
              else ret acc) 1 (sh_dims s) = ret (1 * prod_list (map ?f (sh_dims s)))"
  proof (rule foldR_product[where g = dim_size])
    fix acc d assume d: "d \<in> set (sh_dims s)" "1 \<le> acc" "acc * dim_size d \<le> int64_max"
    show "(if dim_size d > 1
              then andThen (mul64 acc (dim_size d)) (\<lambda>p. div64 p (dim_sharding d))
              else ret acc) = ret (acc * ?f d)"
    proof (cases "dim_size d > 1")
      case True
      then have "dim_sharding d dvd dim_size d"
        using real_dim_dvd[of d] sharding_ok_dim[OF assms d(1)] by (simp add: is_repl_dim_def)
      moreover have "int64_ok (acc * dim_size d)"
        using d size1[OF d(1)] by (intro int64_okI) auto
      ultimately show ?thesis
        using True d size1[OF d(1)] by (simp add: mul64_ge1 div64_ok div_mult_swap)
    qed simp
  qed (use ge1 max in auto)
  then show "ShardElements s = ret (tile_elements s)"
    unfolding ShardElements_def by (simp add: P)
qed


lemma FullDimensionProduct_ok:
  assumes "sharding_ok (shp_sharding shape)"
  shows "FullDimensionProduct shape = ret (elements (shp_sharding shape))"
proof -
  let ?ds = "sh_dims (shp_sharding shape)"
  have ge1: "1 \<le> dim_size d" if "d \<in> set ?ds" for d
    using that assms by (auto dest: sharding_ok_dim dim_ok_ge1)
  have "FullDimensionProduct shape = ret (1 * prod_list (map dim_size ?ds))"
    unfolding FullDimensionProduct_def
  proof (rule foldR_product[where g = dim_size])
    fix acc d assume "d \<in> set ?ds" "1 \<le> acc" "acc * dim_size d \<le> int64_max"
    then show "mul64 acc (dim_size d) = ret (acc * dim_size d)" using ge1 by (intro mul64_ge1)
  qed (use ge1 sharding_ok_elements[OF assms] in \<open>auto simp: elements_def\<close>)
  then show ?thesis by (simp add: elements_def)
qed

lemma NumRealDims_ok:
  assumes "sharding_ok s"
  shows "NumRealDims s = int (length (real_dims (sh_dims s)))"
proof -
  have L: "length (sh_dims s) =
      length (filter is_repl_dim (sh_dims s)) + length (real_dims (sh_dims s))"
    by (simp add: sum_length_filter_compl)
  have lt: "dim_size d < dim_sharding d \<longleftrightarrow> is_repl_dim d" if "d \<in> set (sh_dims s)" for d
    using sharding_ok_dim[OF assms that] real_dim_le[of d]
    by (cases "is_repl_dim d") (auto simp: is_repl_dim_def)
  show ?thesis
  proof (cases "list_ex is_repl_dim (sh_dims s)")
    case True
    then have "filter is_repl_dim (sh_dims s) \<noteq> []" by (auto simp: list_ex_iff filter_empty_conv)
    then have "length (filter is_repl_dim (sh_dims s)) = 1"
      using sharding_ok_repl[OF assms] by (cases "filter is_repl_dim (sh_dims s)") auto
    with True lt L show ?thesis by (auto simp: NumRealDims_def size_of_def list_ex_iff)
  next
    case False
    then have "filter is_repl_dim (sh_dims s) = []" by (auto simp: list_ex_iff filter_empty_conv)
    with False lt L show ?thesis by (auto simp: NumRealDims_def size_of_def list_ex_iff)
  qed
qed

lemma sharding_class_ok:
  assumes "sharding_ok s"
  shows IsReplicated_ok: "IsReplicated s = ret (tiles s = 1)"
    and FullySharded_ok: "FullySharded s = ret (tiles s = dl_size (sh_devices s))"
    and IsPartiallyReplicated_ok:
      "IsPartiallyReplicated s = ret (1 < tiles s \<and> tiles s < dl_size (sh_devices s))"
  using assms by (simp_all add: IsReplicated_def FullySharded_def IsPartiallyReplicated_def
      TotalSharding_ok)

text \<open>
  Classification: for a well-formed sharding the number \<open>t\<close> of distinct tiles divides the
  number of devices, \<open>IsReplicated\<close> holds iff there is one tile, \<open>FullySharded\<close> iff every
  device has its own tile, \<open>IsPartiallyReplicated\<close> iff neither does, so that with more than one
  device exactly one of the three holds.
\<close>

theorem sharding_classification:
  assumes "sharding_ok s"
  shows "\<exists>t. TotalSharding s = ret t \<and> 1 \<le> t \<and> t * replication s = dl_size (sh_devices s) \<and>
    IsReplicated s = ret (t = 1) \<and> FullySharded s = ret (replication s = 1) \<and>
    IsPartiallyReplicated s = ret (t \<noteq> 1 \<and> replication s \<noteq> 1)"
proof -
  have t: "1 \<le> tiles s" and r: "1 \<le> replication s"
    and p: "tiles s * replication s = dl_size (sh_devices s)"
    using assms by (simp_all add: tiles_ge1 replication_ge1 tiles_times_replication)
  have "tiles s = dl_size (sh_devices s) \<longleftrightarrow> replication s = 1"
    using p t by (auto simp flip: p)
  then show ?thesis
    using t r p tiles_le_devices[OF assms]
    by (intro exI[of _ "tiles s"]) (auto simp: assms TotalSharding_ok sharding_class_ok)
qed

definition example_sharding :: sharding where
  "example_sharding = \<lparr>sh_dims =
     [\<lparr>dim_size = 8, dim_sharding = 2, dim_permutation = 2\<rparr>,
      \<lparr>dim_size = 1, dim_sharding = 4, dim_permutation = 0\<rparr>,
      \<lparr>dim_size = 9, dim_sharding = 3, dim_permutation = 1\<rparr>],
     sh_devices = dl_ctor 0 24\<rparr>"

lemma example_sharding_ok: "sharding_ok example_sharding"
  by (simp add: sharding_ok_def example_sharding_def dim_ok_def is_repl_dim_def size_of_def
      elements_def device_list_ok_def dl_defs int64_max_def)

theorem sharding_classification_witness:
  "\<exists>t. TotalSharding example_sharding = ret t \<and> 1 \<le> t \<and>
    t * replication example_sharding = dl_size (sh_devices example_sharding) \<and>
    IsReplicated example_sharding = ret (t = 1) \<and>
    FullySharded example_sharding = ret (replication example_sharding = 1) \<and>
    IsPartiallyReplicated example_sharding = ret (t \<noteq> 1 \<and> replication example_sharding \<noteq> 1)"
  by (rule sharding_classification) (rule example_sharding_ok)

text \<open>
  The two element counts of the code agree: \<open>NumLocalElements\<close>, which divides before it
  multiplies, and \<open>ShardElements\<close>, which multiplies first, return the same number for a
  well-formed sharding, without overflow, and that number times the number of tiles is the
  product of the array's extents.
\<close>

theorem local_elements_agree:
  assumes "sharding_ok (shp_sharding shape)"
  shows "\<exists>n t. NumLocalElements (shp_sharding shape) = ret n \<and>
    ShardElements (shp_sharding shape) = ret n \<and> TotalSharding (shp_sharding shape) = ret t \<and>
    FullDimensionProduct shape = ret (t * n)"
  using assms
  by (simp add: local_element_loops TotalSharding_ok FullDimensionProduct_ok tiles_times_elements)

theorem local_elements_agree_witness:
  "\<exists>n t. NumLocalElements example_sharding = ret n \<and> ShardElements example_sharding = ret n \<and>
    TotalSharding example_sharding = ret t \<and>
    FullDimensionProduct \<lparr>shp_type = S32, shp_sharding = example_sharding\<rparr> = ret (t * n)"
  using local_elements_agree[of "\<lparr>shp_type = S32, shp_sharding = example_sharding\<rparr>"]
  by (simp add: example_sharding_ok)

text \<open>
  Where a piece count does not divide its extent the two loops part: seven by seven in two by
  two pieces has nine elements per shard by one and ten by the other.
\<close>

lemma local_elements_uneven:
  "let s = \<lparr>sh_dims = [\<lparr>dim_size = 7, dim_sharding = 2, dim_permutation = 0\<rparr>,
                      \<lparr>dim_size = 7, dim_sharding = 2, dim_permutation = 1\<rparr>],
             sh_devices = dl_ctor 0 4\<rparr>
   in NumLocalElements s = ret 9 \<and> ShardElements s = ret 10"
  by (simp add: NumLocalElements_def ShardElements_def arith64_defs chk_def int64_ok_def
      int64_min_def int64_max_def signed_divide_int_def)

lemma SupportedTypeSizeOf_range: "1 \<le> SupportedTypeSizeOf t \<and> SupportedTypeSizeOf t \<le> 16"
  by (cases t) auto

lemma sint_of_int_small: "0 \<le> x \<Longrightarrow> x \<le> int64_max \<Longrightarrow> sint (word_of_int x :: 64 word) = x"
  by (simp add: int64_max_def sint_uint signed_take_bit_int_eq_self take_bit_int_eq_self
      unsigned_of_int)

text \<open>
  The byte size of a shard is the element size times the element count as long as that fits
  an \<open>int64_t\<close>.
\<close>

theorem ShardSize_exact:
  assumes "sharding_ok (shp_sharding shape)"
    and "SupportedTypeSizeOf (shp_type shape) * tile_elements (shp_sharding shape) \<le> int64_max"
  shows "ShardSize shape =
    ret (SupportedTypeSizeOf (shp_type shape) * tile_elements (shp_sharding shape))"
  using assms tile_elements_ge1[OF assms(1)] SupportedTypeSizeOf_range[of "shp_type shape"]
  by (simp add: ShardSize_def ShardElements_ok sint_of_int_small flip: of_int_mult)


theorem ShardSize_exact_witness:
  "ShardSize \<lparr>shp_type = S32, shp_sharding = example_sharding\<rparr> = ret (4 * 12)"
proof -
  have "tile_elements example_sharding = 12"
    by (simp add: tile_elements_def example_sharding_def is_repl_dim_def)
  then show ?thesis
    using ShardSize_exact[of "\<lparr>shp_type = S32, shp_sharding = example_sharding\<rparr>"]
    by (simp add: example_sharding_ok int64_max_def)
qed

text \<open>Past that range the unsigned product wraps: a shard of 2^61 doubles has byte size 0.\<close>

lemma ShardSize_wraps:
  "ShardSize \<lparr>shp_type = F64, shp_sharding =
     \<lparr>sh_dims = [\<lparr>dim_size = 2 ^ 61, dim_sharding = 1, dim_permutation = 0\<rparr>],
      sh_devices = dl_ctor 0 1\<rparr>\<rparr> = ret 0"
  by (simp add: ShardSize_def ShardElements_def arith64_defs chk_def int64_ok_def int64_min_def
      int64_max_def signed_divide_int_def)

end
