(* ===== verification/Mixed_Radix.thy ===== *)
theory Mixed_Radix
  imports Prelude
begin

text \<open>
  Mixed-radix numbers: the arithmetic behind numbering the tiles of an array row by row. A list
  of radices \<open>es\<close> gives \<open>prod_list es\<close> numbers, the first digit being the most significant.
\<close>

fun radix_digits :: "int list \<Rightarrow> int \<Rightarrow> int list" where
  "radix_digits [] r = []"
| "radix_digits (e # es) r = (r div prod_list es) # radix_digits es (r mod prod_list es)"

fun radix_value :: "int list \<Rightarrow> int list \<Rightarrow> int" where
  "radix_value (e # es) (d # ds) = d * prod_list es + radix_value es ds"
| "radix_value _ _ = 0"

definition in_radix :: "int list \<Rightarrow> int list \<Rightarrow> bool" where
  "in_radix es ds \<longleftrightarrow> list_all2 (\<lambda>e d. 0 \<le> d \<and> d < e) es ds"

definition pos_radix :: "int list \<Rightarrow> bool" where
  "pos_radix es \<longleftrightarrow> (\<forall>e \<in> set es. 1 \<le> e)"

lemma pos_radix_simps [simp]:
  "pos_radix []" "pos_radix (e # es) \<longleftrightarrow> 1 \<le> e \<and> pos_radix es"
  by (auto simp: pos_radix_def)

lemma in_radix_simps [simp]:
  "in_radix [] ds \<longleftrightarrow> ds = []"
  "in_radix (e # es) ds \<longleftrightarrow> (\<exists>d ds'. ds = d # ds' \<and> 0 \<le> d \<and> d < e \<and> in_radix es ds')"
  by (auto simp: in_radix_def list_all2_Cons1)

lemma in_radix_length: "in_radix es ds \<Longrightarrow> length ds = length es"
  by (simp add: in_radix_def list_all2_lengthD)

lemma in_radix_nth: "in_radix es ds \<longleftrightarrow> length ds = length es \<and>
    (\<forall>i < length es. 0 \<le> ds ! i \<and> ds ! i < es ! i)"
  by (auto simp: in_radix_def list_all2_conv_all_nth)

lemma pos_radix_prod: "pos_radix es \<Longrightarrow> 1 \<le> prod_list es"
  using prod_list_ge1[of es "\<lambda>x. x"] by (simp add: pos_radix_def)

lemma pos_radix_drop: "pos_radix es \<Longrightarrow> pos_radix (drop k es)"
  and pos_radix_take: "pos_radix es \<Longrightarrow> pos_radix (take k es)"
  by (auto simp: pos_radix_def dest: in_set_dropD in_set_takeD)

lemma length_radix_digits [simp]: "length (radix_digits es r) = length es"
  by (induction es r rule: radix_digits.induct) auto

lemma radix_value_range:
  "in_radix es ds \<Longrightarrow> 0 \<le> radix_value es ds \<and> radix_value es ds < prod_list es"
proof (induction es arbitrary: ds)
  case (Cons e es)
  then obtain d ds' where ds: "ds = d # ds'" "0 \<le> d" "d < e" "in_radix es ds'" by auto
  then have v: "0 \<le> radix_value es ds'" "radix_value es ds' < prod_list es"
    using Cons.IH by auto
  have "(d + 1) * prod_list es \<le> e * prod_list es"
    using ds v by (intro mult_right_mono) auto
  then show ?case using ds v by (simp add: algebra_simps)
qed simp

lemma radix_digits_value: "in_radix es ds \<Longrightarrow> radix_digits es (radix_value es ds) = ds"
proof (induction es arbitrary: ds)
  case (Cons e es)
  then obtain d ds' where ds: "ds = d # ds'" "in_radix es ds'" by auto
  then show ?case using Cons.IH[of ds'] radix_value_range[of es ds'] by (auto simp: ac_simps)
qed simp

lemma in_radix_digits:
  "pos_radix es \<Longrightarrow> 0 \<le> r \<Longrightarrow> r < prod_list es \<Longrightarrow> in_radix es (radix_digits es r)"
proof (induction es arbitrary: r)
  case (Cons e es)
  then have P: "0 < prod_list es" using pos_radix_prod[of es] by auto
  have "r div prod_list es < e"
    using Cons.prems P by (intro div_less_of_less_mult) auto
  then show ?case
    using Cons P by (auto simp: pos_imp_zdiv_nonneg_iff)
qed simp

lemma radix_value_digits:
  "pos_radix es \<Longrightarrow> 0 \<le> r \<Longrightarrow> r < prod_list es \<Longrightarrow> radix_value es (radix_digits es r) = r"
proof (induction es arbitrary: r)
  case (Cons e es)
  then have P: "0 < prod_list es" using pos_radix_prod[of es] by auto
  then show ?case using Cons by (simp add: ac_simps)
qed simp

lemma radix_digits_inj:
  "pos_radix es \<Longrightarrow> 0 \<le> r \<Longrightarrow> r < prod_list es \<Longrightarrow> 0 \<le> r' \<Longrightarrow> r' < prod_list es \<Longrightarrow>
   radix_digits es r = radix_digits es r' \<Longrightarrow> r = r'"
  by (metis radix_value_digits)

lemma prod_list_drop_dvd: "prod_list (drop k es) dvd (prod_list es :: int)"
  using prod_list.append[of "take k es" "drop k es"] by simp

lemma drop_radix_digits:
  "pos_radix es \<Longrightarrow> k \<le> length es \<Longrightarrow> 0 \<le> r \<Longrightarrow> r < prod_list es \<Longrightarrow>
   drop k (radix_digits es r) = radix_digits (drop k es) (r mod prod_list (drop k es))"
proof (induction es arbitrary: r k)
  case (Cons e es)
  show ?case
  proof (cases k)
    case 0
    then show ?thesis using Cons.prems by simp
  next
    case (Suc j)
    have "prod_list es > 0" using Cons.prems pos_radix_prod[of es] by auto
    then have "drop j (radix_digits es (r mod prod_list es)) =
        radix_digits (drop j es) (r mod prod_list es mod prod_list (drop j es))"
      using Cons.prems Suc by (intro Cons.IH) auto
    then show ?thesis using Suc prod_list_drop_dvd[of j es] by (simp add: mod_mod_cancel)
  qed
qed simp

text \<open>Appending a least significant digit: the step of a row-major accumulation.\<close>

lemma radix_value_snoc:
  "length ds = length es \<Longrightarrow>
   radix_value (es @ [e]) (ds @ [d]) = radix_value es ds * e + d"
  by (induction es ds rule: list_induct2') (auto simp: algebra_simps)

lemma in_radix_take: "in_radix es ds \<Longrightarrow> in_radix (take k es) (take k ds)"
  by (auto simp: in_radix_nth)

end
