(* ===== verification/Tiles.thy ===== *)
theory Tiles
  imports Shape Mixed_Radix
begin

text \<open>
  The tile arithmetic of \<open>src/zuku/tiled_array.cc\<close> and the rectangle type of
  \<open>src/zuku/realm_variants.h\<close>: which tile a shard number stands for
  (\<open>ComputeTileIndex\<close>), which shard number a tile has (\<open>ComputeTileShard\<close>), and which box of the
  array the tile covers (\<open>ComputeTileBounds\<close>).
\<close>

section \<open>Rectangles\<close>

text \<open>
  \<open>RealmShape\<close> is a variant of \<open>Realm::Rect\<open>\<close>N\<open>\<close>\<close> for the dimensions Realm is built with;
  \<open>rect_rank\<close> is the alternative. A rectangle is filled coordinate by coordinate; a coordinate
  that was never written is absent, a write past the last coordinate is out of range.
\<close>

record rect =
  rect_rank :: nat
  rect_lo :: "int list"
  rect_hi :: "int list"

definition new_rect :: "nat \<Rightarrow> rect" where
  "new_rect n = \<lparr>rect_rank = n, rect_lo = [], rect_hi = []\<rparr>"

definition rect_push :: "rect \<Rightarrow> int \<Rightarrow> int \<Rightarrow> rect res" where
  "rect_push r l h =
     (if length (rect_lo r) < rect_rank r
      then ret (r\<lparr>rect_lo := rect_lo r @ [l], rect_hi := rect_hi r @ [h]\<rparr>)
      else fail (Undefined OutOfRange))"

definition rect_complete :: "rect \<Rightarrow> bool" where
  "rect_complete r \<longleftrightarrow> length (rect_lo r) = rect_rank r \<and> length (rect_hi r) = rect_rank r"

text \<open>\<open>ComputeRealmShapeSize\<close>: the number of points of a rectangle.\<close>

definition ComputeRealmShapeSize :: "rect \<Rightarrow> int res" where
  "ComputeRealmShapeSize r =
     foldR (\<lambda>size i.
       andThen (vec_at (rect_hi r) i) (\<lambda>h.
       andThen (vec_at (rect_lo r) i) (\<lambda>l.
       andThen (sub64 h l) (\<lambda>d.
       andThen (add64 d 1) (\<lambda>extent. mul64 size extent)))))
       1 (upto64 (int (rect_rank r)))"

section \<open>Tile numbering\<close>

text \<open>
  The first loop of \<open>ComputeTileIndex\<close>: the extents in device order, and which dimension stands
  at each position of that order. Both vectors start value-initialised to 0.
\<close>

definition unpermute_dims :: "sharding_dim list \<Rightarrow> (int list \<times> int list) res" where
  "unpermute_dims ds =
     andThen
       (foldR (\<lambda>(shard_extents, permutation, p_dim) dim.
          andThen (vec_set shard_extents (dim_permutation dim) (dim_sharding dim)) (\<lambda>shard_extents'.
          andThen (vec_set permutation (dim_permutation dim) p_dim) (\<lambda>permutation'.
          ret (shard_extents', permutation', p_dim + 1))))
        (replicate (length ds) 0, replicate (length ds) 0, 0) ds)
       (\<lambda>(shard_extents, permutation, _). ret (shard_extents, permutation))"

text \<open>One iteration of its last loop.\<close>

definition tile_index_step ::
  "int list \<Rightarrow> int list \<Rightarrow> int list \<times> int \<times> int \<Rightarrow> int \<Rightarrow> (int list \<times> int \<times> int) res" where
  "tile_index_step shard_extents permutation = (\<lambda>(indices, remainder, dim_stride) dim.
     andThen (vec_at shard_extents dim) (\<lambda>extent.
     andThen (div64 dim_stride extent) (\<lambda>dim_stride'.
     andThen (div64 remainder dim_stride') (\<lambda>dim_index.
     andThen (vec_at permutation dim) (\<lambda>target.
     andThen (vec_set indices target dim_index) (\<lambda>indices'.
     andThen (mul64 dim_index dim_stride') (\<lambda>used.
     andThen (sub64 remainder used) (\<lambda>remainder'.
     ret (indices', remainder', dim_stride')))))))))"

definition ComputeTileIndex :: "int \<Rightarrow> sharding \<Rightarrow> int list res" where
  "ComputeTileIndex index s =
     andThen (unpermute_dims (sh_dims s)) (\<lambda>(shard_extents, permutation).
     andThen (foldR mul64 1 shard_extents) (\<lambda>dim_stride.
     andThen (foldR (tile_index_step shard_extents permutation)
                (replicate (length (sh_dims s)) 0, index, dim_stride)
                (upto64 (size_of shard_extents))) (\<lambda>(indices, _, _).
     ret indices)))"

definition ComputeTileShard :: "int list \<Rightarrow> sharding \<Rightarrow> int res" where
  "ComputeTileShard indices s =
     (if indices = [] then ret 0
      else
        andThen (vec_at indices 0) (\<lambda>first.
        foldR (\<lambda>index dim.
            andThen (vec_at (sh_dims s) dim) (\<lambda>d.
            andThen (mul64 index (dim_sharding d)) (\<lambda>scaled.
            andThen (vec_at indices dim) (\<lambda>i. add64 scaled i))))
          first (map int [1..<length indices])))"

section \<open>Tile bounds\<close>

text \<open>
  The template \<open>ComputeTileBounds\<open>\<close>N\<open>\<close>\<close>. A scalar array, and a one-dimensional one of a single
  element, is the one-point rectangle. The quotient \<open>shard / replication\<close> is computed but not
  used; it divides by zero when the pieces outnumber the devices.
\<close>

definition ComputeTileBoundsN :: "nat \<Rightarrow> int \<Rightarrow> sharding \<Rightarrow> rect res" where
  "ComputeTileBoundsN n shard s =
     (if sh_dims s = [] \<or> (length (sh_dims s) = 1 \<and> dim_size (hd (sh_dims s)) = 1)
      then rect_push (new_rect n) 0 0
      else
        andThen (foldR mul64 1 (map dim_sharding (sh_dims s))) (\<lambda>dim_stride.
        andThen (ComputeTileIndex shard s) (\<lambda>index.
        andThen (div64 (dl_size (sh_devices s)) dim_stride) (\<lambda>replication.
        andThen (div64 shard replication) (\<lambda>_.
        foldR (\<lambda>rect dim.
            andThen (vec_at (sh_dims s) dim) (\<lambda>d.
            if dim_size d = 1 \<and> dim_sharding d > 1 then ret rect
            else
              andThen (div64 (dim_size d) (dim_sharding d)) (\<lambda>tile_extent.
              andThen (vec_at index dim) (\<lambda>i.
              andThen (mul64 tile_extent i) (\<lambda>start.
              andThen (add64 start tile_extent) (\<lambda>past.
              andThen (sub64 past 1) (\<lambda>stop.
              rect_push rect start stop)))))))
          (new_rect n) (upto64 (size_of (sh_dims s))))))))"

text \<open>
  \<open>max_dim\<close> is Realm's compile-time constant \<open>REALM_MAX_DIM\<close>: the alternative for five dimensions
  exists only when it is at least 5.
\<close>

definition ComputeTileBounds :: "int \<Rightarrow> int \<Rightarrow> sharding \<Rightarrow> rect res" where
  "ComputeTileBounds max_dim shard s =
     (let n = NumRealDims s in
      if n = 0 then ComputeTileBoundsN 1 shard s
      else if n = 1 then ComputeTileBoundsN 1 shard s
      else if n = 2 then ComputeTileBoundsN 2 shard s
      else if n = 3 then ComputeTileBoundsN 3 shard s
      else if n = 4 then ComputeTileBoundsN 4 shard s
      else if max_dim \<ge> 5 \<and> n = 5 then ComputeTileBoundsN 5 shard s
      else fail (RuntimeError (''do not support arrays with '' @ show_int n @ '' dimensions'')))"

section \<open>Specification\<close>

text \<open>
  \<open>device_order\<close> lists the piece counts in device order; the tile index of a shard is the list of
  mixed-radix digits of its number in that order, read back per dimension.
\<close>

definition device_order :: "sharding_dim list \<Rightarrow> int list" where
  "device_order ds =
     foldl (\<lambda>xs d. xs[nat (dim_permutation d) := dim_sharding d]) (replicate (length ds) 0) ds"

definition tile_index :: "int \<Rightarrow> sharding \<Rightarrow> int list" where
  "tile_index shard s =
     map (\<lambda>d. radix_digits (device_order (sh_dims s)) shard ! nat (dim_permutation d)) (sh_dims s)"

definition tile_span :: "sharding_dim \<Rightarrow> int \<Rightarrow> int \<times> int" where
  "tile_span d i = (let e = dim_size d div dim_sharding d in (e * i, e * i + e - 1))"

definition tile_spans :: "sharding_dim list \<Rightarrow> int list \<Rightarrow> (int \<times> int) list" where
  "tile_spans ds idx =
     map (\<lambda>(d, i). tile_span d i) (filter (\<lambda>(d, i). \<not> is_repl_dim d) (zip ds idx))"

definition box_of :: "(int \<times> int) list \<Rightarrow> rect" where
  "box_of xs = (if xs = [] then \<lparr>rect_rank = 1, rect_lo = [0], rect_hi = [0]\<rparr>
     else \<lparr>rect_rank = length xs, rect_lo = map fst xs, rect_hi = map snd xs\<rparr>)"

definition tile_box :: "int \<Rightarrow> sharding \<Rightarrow> rect" where
  "tile_box shard s = box_of (tile_spans (sh_dims s) (tile_index shard s))"


section \<open>The device order\<close>

fun set_positions :: "int list \<Rightarrow> int \<Rightarrow> sharding_dim list \<Rightarrow> int list" where
  "set_positions ps c [] = ps"
| "set_positions ps c (d # ds) = set_positions (ps[nat (dim_permutation d) := c]) (c + 1) ds"

definition positions :: "sharding_dim list \<Rightarrow> int list" where
  "positions ds = set_positions (replicate (length ds) 0) 0 ds"

lemma length_set_positions [simp]: "length (set_positions ps c ds) = length ps"
  by (induction ps c ds rule: set_positions.induct) auto

lemma length_positions [simp]: "length (positions ds) = length ds"
  by (simp add: positions_def)

lemma set_positions_other:
  "k \<notin> (nat \<circ> dim_permutation) ` set ds \<Longrightarrow> set_positions ps c ds ! k = ps ! k"
  by (induction ps c ds rule: set_positions.induct) auto

lemma set_positions_nth:
  "distinct (map (nat \<circ> dim_permutation) ds) \<Longrightarrow> j < length ds \<Longrightarrow>
   (\<And>d. d \<in> set ds \<Longrightarrow> nat (dim_permutation d) < length ps) \<Longrightarrow>
   set_positions ps c ds ! nat (dim_permutation (ds ! j)) = c + int j"
proof (induction ps c ds arbitrary: j rule: set_positions.induct)
  case (2 ps c d ds)
  show ?case
  proof (cases j)
    case 0
    then show ?thesis using 2 by (subst set_positions.simps, subst set_positions_other) auto
  next
    case (Suc i)
    then show ?thesis using 2 by simp
  qed
qed simp

lemma foldl_update_length [simp]:
  "length (foldl (\<lambda>xs d. xs[key d := v d]) xs ds) = length xs"
  by (induction ds arbitrary: xs) auto

lemma foldl_update_other:
  "k \<notin> key ` set ds \<Longrightarrow> foldl (\<lambda>xs d. xs[key d := v d]) xs ds ! k = xs ! k"
  by (induction ds arbitrary: xs) auto

lemma foldl_update_nth:
  "distinct (map key ds) \<Longrightarrow> d \<in> set ds \<Longrightarrow> (\<And>d. d \<in> set ds \<Longrightarrow> key d < length xs) \<Longrightarrow>
   foldl (\<lambda>xs d. xs[key d := v d]) xs ds ! key d = v d"
proof (induction ds arbitrary: xs)
  case (Cons e ds)
  then show ?case
    by (cases "d \<in> set ds") (auto simp: foldl_update_other)
qed simp

lemma length_device_order [simp]: "length (device_order ds) = length ds"
  by (simp add: device_order_def)

text \<open>The order positions of a well-formed sharding: distinct, in range, and each taken.\<close>

definition order_ok :: "sharding_dim list \<Rightarrow> bool" where
  "order_ok ds \<longleftrightarrow> distinct (map (nat \<circ> dim_permutation) ds) \<and>
     (\<forall>d \<in> set ds. 0 \<le> dim_permutation d \<and> nat (dim_permutation d) < length ds)"

lemma sharding_ok_order: "sharding_ok s \<Longrightarrow> order_ok (sh_dims s)"
proof -
  assume s: "sharding_ok s"
  then have "inj_on nat (set (map dim_permutation (sh_dims s)))"
    by (auto simp: inj_on_def) (metis eq_nat_nat_iff sharding_ok_perm)
  with sharding_ok_distinct[OF s] have "distinct (map nat (map dim_permutation (sh_dims s)))"
    by (subst distinct_map) simp
  with s show ?thesis
    unfolding order_ok_def map_map by (auto dest!: sharding_ok_perm[OF s])
qed

lemma order_ok_nth:
  "order_ok ds \<Longrightarrow> j < length ds \<Longrightarrow>
   0 \<le> dim_permutation (ds ! j) \<and> nat (dim_permutation (ds ! j)) < length ds"
  by (simp add: order_ok_def)

lemma order_bij:
  assumes "order_ok ds"
  shows "bij_betw (\<lambda>j. nat (dim_permutation (ds ! j))) {..<length ds} {..<length ds}"
proof -
  let ?p = "\<lambda>j. nat (dim_permutation (ds ! j))"
  have "inj_on ?p {..<length ds}"
    using assms by (auto simp: order_ok_def inj_on_def distinct_conv_nth)
  moreover have "?p ` {..<length ds} \<subseteq> {..<length ds}"
    using assms by (auto dest: order_ok_nth)
  ultimately show ?thesis by (simp add: bij_betw_def endo_inj_surj)
qed

lemma order_onto:
  assumes "order_ok ds" and "k < length ds"
  obtains j where "j < length ds" and "nat (dim_permutation (ds ! j)) = k"
proof -
  have "k \<in> (\<lambda>j. nat (dim_permutation (ds ! j))) ` {..<length ds}"
    using bij_betw_imp_surj_on[OF order_bij[OF assms(1)]] assms(2) by simp
  then show thesis using that by blast
qed

lemma order_inj:
  "order_ok ds \<Longrightarrow> i < length ds \<Longrightarrow> j < length ds \<Longrightarrow>
   nat (dim_permutation (ds ! i)) = nat (dim_permutation (ds ! j)) \<Longrightarrow> i = j"
  using bij_betw_imp_inj_on[OF order_bij] by (auto simp: inj_on_def)

lemma device_order_nth:
  "order_ok ds \<Longrightarrow> j < length ds \<Longrightarrow>
   device_order ds ! nat (dim_permutation (ds ! j)) = dim_sharding (ds ! j)"
  unfolding device_order_def
  by (rule foldl_update_nth[where key = "\<lambda>d. nat (dim_permutation d)"])
     (auto simp: order_ok_def comp_def)

lemma positions_nth:
  "order_ok ds \<Longrightarrow> j < length ds \<Longrightarrow>
   positions ds ! nat (dim_permutation (ds ! j)) = int j"
  unfolding positions_def by (subst set_positions_nth) (auto simp: order_ok_def)

lemma prod_device_order:
  assumes "order_ok ds"
  shows "prod_list (device_order ds) = prod_list (map dim_sharding ds)"
proof -
  have "prod_list (device_order ds) = (\<Prod>k < length ds. device_order ds ! k)"
    by (simp add: prod.list_conv_set_nth atLeast0LessThan)
  also have "\<dots> = (\<Prod>j < length ds. device_order ds ! nat (dim_permutation (ds ! j)))"
    by (rule prod.reindex_bij_betw[OF order_bij[OF assms], symmetric])
  also have "\<dots> = (\<Prod>j < length ds. dim_sharding (ds ! j))"
    using assms by (intro prod.cong) (auto simp: device_order_nth)
  also have "\<dots> = prod_list (map dim_sharding ds)"
    by (simp add: prod.list_conv_set_nth atLeast0LessThan)
  finally show ?thesis .
qed

lemma pos_radix_device_order:
  assumes "sharding_ok s"
  shows "pos_radix (device_order (sh_dims s))"
  unfolding pos_radix_def
proof
  let ?ds = "sh_dims s"
  fix e assume "e \<in> set (device_order ?ds)"
  then obtain k where k: "k < length ?ds" "e = device_order ?ds ! k"
    by (auto simp: in_set_conv_nth)
  then obtain j where "j < length ?ds" "k = nat (dim_permutation (?ds ! j))"
    using order_onto[OF sharding_ok_order[OF assms]] by metis
  then show "1 \<le> e"
    using k device_order_nth[OF sharding_ok_order[OF assms]] sharding_ok_dim[OF assms] dim_ok_ge1
    by force
qed

lemma prod_device_order_devices:
  "sharding_ok s \<Longrightarrow> prod_list (device_order (sh_dims s)) = dl_size (sh_devices s)"
  by (simp add: prod_device_order sharding_ok_order sharding_ok_devices)

lemma unpermute_dims_ok:
  assumes "order_ok ds"
  shows "unpermute_dims ds = ret (device_order ds, positions ds)"
proof -
  have "foldR (\<lambda>(shard_extents, permutation, p_dim) dim.
          andThen (vec_set shard_extents (dim_permutation dim) (dim_sharding dim)) (\<lambda>shard_extents'.
          andThen (vec_set permutation (dim_permutation dim) p_dim) (\<lambda>permutation'.
          ret (shard_extents', permutation', p_dim + 1)))) (xs, ps, c) es =
        ret (foldl (\<lambda>xs d. xs[nat (dim_permutation d) := dim_sharding d]) xs es,
             set_positions ps c es, c + int (length es))"
    if "\<And>d. d \<in> set es \<Longrightarrow> 0 \<le> dim_permutation d \<and> nat (dim_permutation d) < length ds"
      "length xs = length ds" "length ps = length ds" for xs ps c es
    using that
  proof (induction es arbitrary: xs ps c)
    case (Cons e es)
    have "0 \<le> dim_permutation e" "dim_permutation e < int (length ds)"
      using Cons.prems(1)[of e] by auto
    then show ?case using Cons by (simp add: vec_set_def)
  qed simp
  from this[of ds "replicate (length ds) 0" "replicate (length ds) 0" 0] assms show ?thesis
    by (simp add: unpermute_dims_def device_order_def positions_def order_ok_def)
qed


section \<open>The tile index\<close>

lemma stride_loop_ok:
  assumes "pos_radix es" and "prod_list es \<le> int64_max"
  shows "foldR mul64 1 es = ret (prod_list es)"
proof -
  have "foldR mul64 1 es = ret (1 * prod_list (map (\<lambda>x. x) es))"
    using assms by (intro foldR_product[where g = "\<lambda>x. x"]) (auto simp: pos_radix_def mul64_ge1)
  then show ?thesis by simp
qed

lemma length_tile_index [simp]: "length (tile_index r s) = length (sh_dims s)"
  by (simp add: tile_index_def)

lemma tile_index_nth:
  "j < length (sh_dims s) \<Longrightarrow> tile_index r s ! j =
     radix_digits (device_order (sh_dims s)) r ! nat (dim_permutation (sh_dims s ! j))"
  by (simp add: tile_index_def)

definition index_inv :: "sharding_dim list \<Rightarrow> int \<Rightarrow> nat \<Rightarrow> int list \<times> int \<times> int \<Rightarrow> bool" where
  "index_inv ds r k = (\<lambda>(indices, remainder, stride).
     stride = prod_list (drop k (device_order ds)) \<and>
     remainder = r mod prod_list (drop k (device_order ds)) \<and> length indices = length ds \<and>
     (\<forall>j < length ds. nat (dim_permutation (ds ! j)) < k \<longrightarrow>
        indices ! j = radix_digits (device_order ds) r ! nat (dim_permutation (ds ! j))))"

lemma tile_index_step_ok:
  assumes ord: "order_ok ds" and pos: "pos_radix (device_order ds)"
    and max: "prod_list (device_order ds) \<le> int64_max"
    and r: "0 \<le> r" "r < prod_list (device_order ds)"
    and k: "k < length ds" and inv: "index_inv ds r k st"
  shows "\<exists>st'. tile_index_step (device_order ds) (positions ds) st (int k) = ret st' \<and>
    index_inv ds r (Suc k) st'"
proof -
  let ?es = "device_order ds"
  let ?P = "prod_list (drop (Suc k) ?es)"
  obtain j where j: "j < length ds" "nat (dim_permutation (ds ! j)) = k"
    using order_onto[OF ord k] by blast
  have drop: "drop k ?es = ?es ! k # drop (Suc k) ?es"
    using k by (simp add: Cons_nth_drop_Suc)
  obtain indices rem stride where st: "st = (indices, rem, stride)" by (cases st)
  have inv': "stride = ?es ! k * ?P" "rem = r mod (?es ! k * ?P)" "length indices = length ds"
    using inv by (simp_all add: st index_inv_def drop)
  have e: "1 \<le> ?es ! k" and P: "1 \<le> ?P"
    using pos k by (auto simp: pos_radix_def) (simp add: pos_radix_drop pos_radix_prod pos)
  have le: "stride \<le> int64_max"
  proof -
    have "prod_list (take k ?es) * stride = prod_list ?es"
      by (metis append_take_drop_id drop inv'(1) prod_list.append prod_list.Cons)
    moreover have "1 \<le> prod_list (take k ?es)"
      using pos by (intro pos_radix_prod pos_radix_take)
    ultimately show ?thesis
      using le_mult_ge1[of stride "prod_list (take k ?es)"] max ge1_mult[OF e P]
      by (simp add: inv'(1) mult.commute)
  qed
  have st0: "1 \<le> stride" using ge1_mult[OF e P] inv'(1) by simp
  have rem: "0 \<le> rem" "rem < stride" using inv'(1,2) st0 by simp_all
  have stride_div: "div64 stride (?es ! k) = ret ?P"
    using e st0 le by (subst div64_ok) (auto simp: inv'(1) intro: int64_okI)
  have rem_div: "div64 rem ?P = ret (rem div ?P)"
    using rem le P by (intro div64_ok int64_okI) auto
  have q: "rem div ?P = radix_digits ?es r ! k"
  proof -
    have "drop k (radix_digits ?es r) = radix_digits (drop k ?es) (r mod prod_list (drop k ?es))"
      using pos r k by (intro drop_radix_digits) auto
    then have "hd (drop k (radix_digits ?es r)) = rem div ?P" by (simp add: drop inv'(2))
    then show ?thesis using k by (simp add: hd_drop_conv_nth)
  qed
  have "rem div ?P * ?P \<le> rem" using P by (simp add: minus_mod_eq_div_mult[symmetric])
  then have used: "mul64 (rem div ?P) ?P = ret (rem div ?P * ?P)"
    using rem le P by (intro mul64_ok int64_okI) (auto simp: pos_imp_zdiv_nonneg_iff)
  have mod_eq: "rem - rem div ?P * ?P = r mod ?P"
    by (simp add: minus_div_mult_eq_mod inv'(2) mod_mod_cancel)
  have "0 \<le> rem - rem div ?P * ?P" "rem - rem div ?P * ?P \<le> rem"
    using rem P by (simp_all add: minus_div_mult_eq_mod zmod_le_nonneg_dividend)
  then have "int64_ok (rem - rem div ?P * ?P)"
    using rem le by (intro int64_okI) linarith+
  then have left: "sub64 rem (rem div ?P * ?P) = ret (r mod ?P)"
    by (simp only: sub64_ok mod_eq)
  have step: "tile_index_step ?es (positions ds) st (int k) =
      ret (indices[j := radix_digits ?es r ! k], r mod ?P, ?P)"
    using k j inv'(3) positions_nth[OF ord j(1)] stride_div rem_div used left
    by (simp add: tile_index_step_def st vec_at_nth vec_set_nth q)
  have "indices[j := radix_digits ?es r ! k] ! i =
      radix_digits ?es r ! nat (dim_permutation (ds ! i))"
    if i: "i < length ds" "nat (dim_permutation (ds ! i)) < Suc k" for i
  proof (cases "i = j")
    case True
    then show ?thesis using j inv'(3) by simp
  next
    case False
    then have "nat (dim_permutation (ds ! i)) < k"
      using order_inj[OF ord i(1) j(1)] j(2) i(2) by (auto simp: less_Suc_eq)
    then show ?thesis using False inv i(1) by (simp add: index_inv_def st)
  qed
  then have "index_inv ds r (Suc k) (indices[j := radix_digits ?es r ! k], r mod ?P, ?P)"
    using inv'(3) by (simp add: index_inv_def)
  with step show ?thesis by blast
qed

text \<open>The code's loops compute the specification.\<close>

lemma ComputeTileIndex_ok:
  assumes s: "sharding_ok s" and r: "0 \<le> r" "r < dl_size (sh_devices s)"
  shows "ComputeTileIndex r s = ret (tile_index r s)"
proof -
  let ?ds = "sh_dims s"
  let ?es = "device_order ?ds"
  have ord: "order_ok ?ds" by (rule sharding_ok_order[OF s])
  have pos: "pos_radix ?es" by (rule pos_radix_device_order[OF s])
  have prod: "prod_list ?es = dl_size (sh_devices s)" by (rule prod_device_order_devices[OF s])
  have max: "prod_list ?es \<le> int64_max" using devices_ok[OF s] prod by simp
  have "index_inv ?ds r 0 (replicate (length ?ds) 0, r, prod_list ?es)"
    using r prod by (simp add: index_inv_def)
  then have "\<exists>st. foldR (tile_index_step ?es (positions ?ds))
      (replicate (length ?ds) 0, r, prod_list ?es) (upto64 (int (length ?ds))) = ret st \<and>
      index_inv ?ds r (length ?ds) st"
    using tile_index_step_ok[OF ord pos max r(1)] r prod
    by (intro foldR_upto64) auto
  then obtain indices rem stride where
    loop: "foldR (tile_index_step ?es (positions ?ds))
      (replicate (length ?ds) 0, r, prod_list ?es) (upto64 (int (length ?ds))) =
      ret (indices, rem, stride)"
    and inv: "index_inv ?ds r (length ?ds) (indices, rem, stride)"
    by (metis prod_cases3)
  have "indices = tile_index r s"
    using inv order_ok_nth[OF ord]
    by (intro nth_equalityI) (auto simp: index_inv_def tile_index_nth)
  then show ?thesis
    using loop by (simp add: ComputeTileIndex_def unpermute_dims_ok[OF ord]
        stride_loop_ok[OF pos max] size_of_def)
qed


section \<open>Tile index and shard number\<close>

definition index_in_range :: "sharding \<Rightarrow> int list \<Rightarrow> bool" where
  "index_in_range s idx \<longleftrightarrow> in_radix (map dim_sharding (sh_dims s)) idx"

definition row_major :: "sharding \<Rightarrow> bool" where
  "row_major s \<longleftrightarrow> (\<forall>j < length (sh_dims s). dim_permutation (sh_dims s ! j) = int j)"

lemma tile_index_in_range:
  assumes "sharding_ok s" and "0 \<le> r" and "r < dl_size (sh_devices s)"
  shows "index_in_range s (tile_index r s)"
proof -
  let ?ds = "sh_dims s"
  have "in_radix (device_order ?ds) (radix_digits (device_order ?ds) r)"
    using assms by (intro in_radix_digits) (simp_all add: pos_radix_device_order prod_device_order_devices)
  then have digit: "0 \<le> radix_digits (device_order ?ds) r ! k \<and>
      radix_digits (device_order ?ds) r ! k < device_order ?ds ! k" if "k < length ?ds" for k
    using that by (simp add: in_radix_nth)
  show ?thesis
    unfolding index_in_range_def in_radix_nth
  proof (intro conjI allI impI)
    fix j assume "j < length (map dim_sharding ?ds)"
    then have j: "j < length ?ds" by simp
    note ord = sharding_ok_order[OF assms(1)]
    show "0 \<le> tile_index r s ! j" "tile_index r s ! j < map dim_sharding ?ds ! j"
      using digit[OF conjunct2[OF order_ok_nth[OF ord j]]] device_order_nth[OF ord j] j
      by (simp_all add: tile_index_nth)
  qed simp
qed

lemma tile_index_inj:
  assumes s: "sharding_ok s" and r: "0 \<le> r" "r < dl_size (sh_devices s)"
    and r': "0 \<le> r'" "r' < dl_size (sh_devices s)" and eq: "tile_index r s = tile_index r' s"
  shows "r = r'"
proof -
  let ?ds = "sh_dims s"
  have "radix_digits (device_order ?ds) r = radix_digits (device_order ?ds) r'"
  proof (rule nth_equalityI)
    fix k assume "k < length (radix_digits (device_order ?ds) r)"
    then obtain j where j: "j < length ?ds" "nat (dim_permutation (?ds ! j)) = k"
      using order_onto[OF sharding_ok_order[OF s], of k] by auto
    then show "radix_digits (device_order ?ds) r ! k = radix_digits (device_order ?ds) r' ! k"
      using eq tile_index_nth[of j s r] tile_index_nth[of j s r'] by simp
  qed simp
  then show ?thesis
    using s r r' by (intro radix_digits_inj[of "device_order ?ds"])
      (simp_all add: pos_radix_device_order prod_device_order_devices)
qed

text \<open>The shard with a given tile index: the number whose digits in device order are the index.\<close>

definition shard_with_index :: "sharding \<Rightarrow> int list \<Rightarrow> int" where
  "shard_with_index s idx = radix_value (device_order (sh_dims s))
     (foldl (\<lambda>xs (d, i). xs[nat (dim_permutation d) := i]) (replicate (length idx) 0)
        (zip (sh_dims s) idx))"

lemma shard_with_index:
  assumes s: "sharding_ok s" and idx: "index_in_range s idx"
  shows "0 \<le> shard_with_index s idx" and "shard_with_index s idx < dl_size (sh_devices s)"
    and "tile_index (shard_with_index s idx) s = idx"
proof -
  let ?ds = "sh_dims s"
  let ?xs = "foldl (\<lambda>xs (d, i). xs[nat (dim_permutation d) := i]) (replicate (length idx) 0)
        (zip ?ds idx)"
  have ord: "order_ok ?ds" by (rule sharding_ok_order[OF s])
  have len: "length idx = length ?ds" using in_radix_length idx by (fastforce simp: index_in_range_def)
  have upd: "?xs = foldl (\<lambda>xs p. xs[nat (dim_permutation (fst p)) := snd p])
      (replicate (length idx) 0) (zip ?ds idx)"
    by (simp only: case_prod_unfold)
  have lx: "length ?xs = length ?ds" unfolding upd using len by simp
  have nth: "?xs ! nat (dim_permutation (?ds ! j)) = idx ! j" if j: "j < length ?ds" for j
  proof -
    have "map (\<lambda>p. nat (dim_permutation (fst p))) (zip ?ds idx) = map (nat \<circ> dim_permutation) ?ds"
      using len by (intro nth_equalityI) auto
    then have "distinct (map (\<lambda>p. nat (dim_permutation (fst p))) (zip ?ds idx))"
      using ord by (simp add: order_ok_def)
    moreover have "(?ds ! j, idx ! j) \<in> set (zip ?ds idx)"
      using j len by (auto simp: set_zip)
    moreover have "nat (dim_permutation (fst p)) < length (replicate (length idx) (0 :: int))"
      if "p \<in> set (zip ?ds idx)" for p
      using set_zip_leftD[of "fst p" "snd p" ?ds idx] that len ord by (simp add: order_ok_def)
    ultimately show ?thesis
      using foldl_update_nth[where v = snd and d = "(?ds ! j, idx ! j)"
          and key = "\<lambda>p. nat (dim_permutation (fst p))"]
      unfolding upd by fastforce
  qed
  have "in_radix (device_order ?ds) ?xs"
    unfolding in_radix_nth
  proof (intro conjI allI impI)
    fix k assume "k < length (device_order ?ds)"
    then obtain j where j: "j < length ?ds" "nat (dim_permutation (?ds ! j)) = k"
      using order_onto[OF ord, of k] by auto
    then show "0 \<le> ?xs ! k" "?xs ! k < device_order ?ds ! k"
      using nth[OF j(1)] device_order_nth[OF ord j(1)] idx
      by (auto simp: index_in_range_def in_radix_nth)
  qed (simp add: lx)
  from radix_value_range[OF this] radix_digits_value[OF this] nth len
  show "0 \<le> shard_with_index s idx" "shard_with_index s idx < dl_size (sh_devices s)"
    "tile_index (shard_with_index s idx) s = idx"
    using prod_device_order_devices[OF s]
    by (auto simp: shard_with_index_def tile_index_nth intro: nth_equalityI)
qed

text \<open>
  C13. For a well-formed sharding \<open>ComputeTileIndex\<close> never fails on the number of a device of the
  mesh, and it numbers the tiles: the index it returns is in range in every dimension, and every
  index in range is the index of exactly one shard.
\<close>

theorem tile_index_bijective:
  assumes "sharding_ok s"
  shows "(\<forall>r. 0 \<le> r \<and> r < dl_size (sh_devices s) \<longrightarrow>
            (\<exists>idx. ComputeTileIndex r s = ret idx \<and> index_in_range s idx)) \<and>
         (\<forall>idx. index_in_range s idx \<longrightarrow>
            (\<exists>!r. 0 \<le> r \<and> r < dl_size (sh_devices s) \<and> ComputeTileIndex r s = ret idx))"
proof (intro conjI allI impI)
  fix r assume "0 \<le> r \<and> r < dl_size (sh_devices s)"
  then show "\<exists>idx. ComputeTileIndex r s = ret idx \<and> index_in_range s idx"
    using assms by (simp add: ComputeTileIndex_ok tile_index_in_range)
next
  fix idx assume "index_in_range s idx"
  note sh = shard_with_index[OF assms this]
  show "\<exists>!r. 0 \<le> r \<and> r < dl_size (sh_devices s) \<and> ComputeTileIndex r s = ret idx"
  proof (rule ex1I[of _ "shard_with_index s idx"])
    fix r assume "0 \<le> r \<and> r < dl_size (sh_devices s) \<and> ComputeTileIndex r s = ret idx"
    then show "r = shard_with_index s idx"
      using sh assms by (intro tile_index_inj[OF assms]) (auto simp: ComputeTileIndex_ok)
  qed (use sh assms in \<open>simp add: ComputeTileIndex_ok\<close>)
qed

theorem tile_index_bijective_witness:
  "sharding_ok example_sharding \<and>
   (\<exists>idx. ComputeTileIndex 17 example_sharding = ret idx \<and> index_in_range example_sharding idx)"
proof -
  have "(0 :: int) \<le> 17 \<and> 17 < dl_size (sh_devices example_sharding)"
    by (simp add: example_sharding_def dl_defs)
  then show ?thesis
    using tile_index_bijective[OF example_sharding_ok] example_sharding_ok by blast
qed

end
