(* ===== verification/Processor.thy ===== *)
theory Processor
  imports Mesh
begin

text \<open>
  \<open>src/zuku/processor.h\<close> and \<open>src/zuku/processor.cc\<close>: the numbering of the machine's processors
  that every process computes at start-up (\<open>Init\<close>), and the lookups that rest on it. The file's
  three static tables are the record \<open>proc_tables\<close>.
\<close>

section \<open>Kinds and handles\<close>

datatype proc_type = UTIL | CPU | GPU | TEST | NUM_TYPES

fun proc_type_int :: "proc_type \<Rightarrow> int" where
  "proc_type_int UTIL = 0" | "proc_type_int CPU = 1" | "proc_type_int GPU = 2"
| "proc_type_int TEST = 3" | "proc_type_int NUM_TYPES = 4"

text \<open>Realm's processor kinds; a Realm processor and memory is a handle, ordered like its id.\<close>

datatype realm_kind = LOC_PROC | TOC_PROC | UTIL_PROC | NO_KIND

datatype memory_kind = GPU_FB_MEM | SYSTEM_MEM

type_synonym realm_proc = nat

text \<open>\<open>Realm::Processor::NO_PROC\<close> has the id 0.\<close>

definition NO_PROC :: realm_proc where "NO_PROC = 0"

fun ToRealmKind :: "proc_type \<Rightarrow> realm_kind" where
  "ToRealmKind CPU = LOC_PROC" | "ToRealmKind GPU = TOC_PROC" | "ToRealmKind UTIL = UTIL_PROC"
| "ToRealmKind NUM_TYPES = NO_KIND" | "ToRealmKind TEST = NO_KIND"

record processor =
  pr_type :: proc_type
  pr_proc :: realm_proc
  local_id :: int
  global_id :: int

definition processor_eq :: "processor \<Rightarrow> processor \<Rightarrow> bool" where
  "processor_eq lhs rhs \<longleftrightarrow> pr_type lhs = pr_type rhs \<and> global_id lhs = global_id rhs"

definition show_processor :: "processor \<Rightarrow> string" where
  "show_processor p = ''Processor(type='' @ show_int (proc_type_int (pr_type p)) @
     '',global_id='' @ show_int (global_id p) @ '')''"

definition DefaultMemoryKind :: "processor \<Rightarrow> memory_kind" where
  "DefaultMemoryKind p = (case pr_type p of GPU \<Rightarrow> GPU_FB_MEM | _ \<Rightarrow> SYSTEM_MEM)"

record device_id =
  did_local :: "int option"
  did_global :: "int option"

record device_ids =
  dids_local :: "device_list option"
  dids_global :: "device_list option"

record remote_processors =
  global_device_id_start :: int
  global_device_id_stop :: int
  processors :: "realm_proc list"

definition empty_remote :: remote_processors where
  "empty_remote = \<lparr>global_device_id_start = 0, global_device_id_stop = 0, processors = []\<rparr>"

record proc_tables =
  default_proc_type :: proc_type
  local_procs :: "proc_type \<Rightarrow> processor list"
  all_procs :: "proc_type \<Rightarrow> realm_proc list"
  by_space :: "proc_type \<Rightarrow> remote_processors list"

definition no_tables :: proc_tables where
  "no_tables = \<lparr>default_proc_type = CPU, local_procs = (\<lambda>_. []), all_procs = (\<lambda>_. []),
     by_space = (\<lambda>_. [])\<rparr>"

text \<open>
  What the code asks Realm's machine model: the number of address spaces, the processors in the
  order the query enumerates them, the kind and address space of each, and the processors of a
  kind in this process (a \<open>std::set\<close>, so in increasing order).
\<close>

record machine =
  address_space_count :: nat
  procs_query :: "realm_proc list"
  kind_of :: "realm_proc \<Rightarrow> realm_kind"
  space_of :: "realm_proc \<Rightarrow> nat"
  local_by_kind :: "realm_kind \<Rightarrow> realm_proc list"

section \<open>Init\<close>

definition resize_spaces :: "nat \<Rightarrow> remote_processors list \<Rightarrow> remote_processors list" where
  "resize_spaces n xs = take n xs @ replicate (n - length xs) empty_remote"

text \<open>The query loop: each processor of the kind is appended in its address space.\<close>

definition enumerate_procs ::
  "machine \<Rightarrow> realm_kind \<Rightarrow> remote_processors list \<Rightarrow> remote_processors list res" where
  "enumerate_procs m kind spaces =
     foldR (\<lambda>spaces p.
         andThen (vec_at spaces (int (space_of m p))) (\<lambda>space.
         vec_set spaces (int (space_of m p)) (space\<lparr>processors := processors space @ [p]\<rparr>)))
       spaces (filter (\<lambda>p. kind_of m p = kind) (procs_query m))"

text \<open>The loop that sorts within the address spaces and numbers the processors globally.\<close>

fun number_spaces ::
  "int \<Rightarrow> realm_proc list \<Rightarrow> remote_processors list \<Rightarrow> realm_proc list \<times> remote_processors list"
where
  "number_spaces global_offset all [] = (all, [])"
| "number_spaces global_offset all (space # spaces) =
     (let sorted_procs = sort (processors space);
          global_offset' = global_offset + size_of sorted_procs;
          (all', spaces') = number_spaces global_offset' (all @ sorted_procs) spaces
      in (all', \<lparr>global_device_id_start = global_offset, global_device_id_stop = global_offset',
                 processors = sorted_procs\<rparr> # spaces'))"

text \<open>The loop over this process's processors, with the two counters it increments.\<close>

fun number_local :: "proc_type \<Rightarrow> int \<Rightarrow> int \<Rightarrow> realm_proc list \<Rightarrow> processor list" where
  "number_local type lid gid [] = []"
| "number_local type lid gid (p # ps) =
     \<lparr>pr_type = type, pr_proc = p, local_id = lid, global_id = gid\<rparr> #
     number_local type (lid + 1) (gid + 1) ps"

definition init_type :: "machine \<Rightarrow> proc_tables \<Rightarrow> proc_type \<Rightarrow> proc_tables res" where
  "init_type m t type =
     (let kind = ToRealmKind type in
      andThen (enumerate_procs m kind (resize_spaces (address_space_count m) (by_space t type)))
        (\<lambda>spaces.
      let (all, spaces') = number_spaces 0 (all_procs t type) spaces;
          realm_procs = local_by_kind m kind
      in
      andThen
        (if realm_procs = [] then ret (local_procs t type)
         else andThen (vec_at spaces' (int (space_of m (hd realm_procs)))) (\<lambda>space.
              ret (local_procs t type @
                   number_local type 0 (global_device_id_start space) realm_procs)))
        (\<lambda>locals.
      ret (t\<lparr>default_proc_type := (if locals \<noteq> [] then type else default_proc_type t),
             local_procs := (local_procs t)(type := locals),
             all_procs := (all_procs t)(type := all),
             by_space := (by_space t)(type := spaces')\<rparr>))))"

definition proc_Init :: "machine \<Rightarrow> proc_tables \<Rightarrow> proc_tables res" where
  "proc_Init m t = foldR (init_type m) t [UTIL, CPU, GPU]"

section \<open>Lookups\<close>

definition DefaultType :: "proc_tables \<Rightarrow> proc_type" where
  "DefaultType t = default_proc_type t"

definition value_or :: "'a option \<Rightarrow> 'a \<Rightarrow> 'a" where
  "value_or v d = (case v of Some x \<Rightarrow> x | None \<Rightarrow> d)"

definition RemoteProc :: "proc_tables \<Rightarrow> int \<Rightarrow> proc_type option \<Rightarrow> realm_proc res" where
  "RemoteProc t global_device_id type =
     vec_at (all_procs t (value_or type (DefaultType t))) global_device_id"

definition GetAttachedHost ::
  "machine \<Rightarrow> proc_tables \<Rightarrow> int \<Rightarrow> proc_type option \<Rightarrow> realm_proc res" where
  "GetAttachedHost m t global_device_id type =
     andThen (RemoteProc t global_device_id type) (\<lambda>device_proc.
     if kind_of m device_proc = LOC_PROC then ret device_proc
     else
       andThen (vec_at (by_space t CPU) (int (space_of m device_proc))) (\<lambda>hosts.
       if global_device_id \<ge> global_device_id_start hosts \<and>
          global_device_id < global_device_id_stop hosts
       then vec_at (processors hosts) (global_device_id - global_device_id_start hosts)
       else vec_at (processors hosts) 0))"

text \<open>
  \<open>local_id >= procs.size()\<close> compares a signed with an unsigned number: a negative id is larger
  than every size. A global id is used as it is where the code leaves a TODO.
\<close>

definition GetProc :: "proc_tables \<Rightarrow> device_id \<Rightarrow> proc_type \<Rightarrow> processor res" where
  "GetProc t did type =
     (let procs = local_procs t type in
      andThen (case did_local did of Some l \<Rightarrow> ret l | None \<Rightarrow> opt_get (did_global did)) (\<lambda>lid.
      if lid < 0 \<or> lid \<ge> size_of procs
      then fail (RuntimeError ''local_id is greater than number of local procs'')
      else vec_at procs lid))"

definition NumForType :: "proc_tables \<Rightarrow> proc_type \<Rightarrow> int" where
  "NumForType t type = size_of (local_procs t type)"

definition DefaultProcs :: "proc_tables \<Rightarrow> processor list" where
  "DefaultProcs t = local_procs t (default_proc_type t)"

definition Processor_Create ::
  "proc_tables \<Rightarrow> device_id \<Rightarrow> proc_type option \<Rightarrow> processor res" where
  "Processor_Create t did type =
     (if type = Some TEST
      then andThen (opt_get (did_local did)) (\<lambda>l.
           andThen (opt_get (did_global did)) (\<lambda>g.
           ret \<lparr>pr_type = TEST, pr_proc = NO_PROC, local_id = l, global_id = g\<rparr>))
      else GetProc t did (value_or type (DefaultType t)))"

definition Default_proc :: "proc_tables \<Rightarrow> processor res" where
  "Default_proc t = Processor_Create t \<lparr>did_local = Some 0, did_global = None\<rparr> None"

definition Util_proc :: "proc_tables \<Rightarrow> processor res" where
  "Util_proc t = Processor_Create t \<lparr>did_local = Some 0, did_global = None\<rparr> (Some UTIL)"

definition NumLocalInDeviceList :: "proc_tables \<Rightarrow> device_list \<Rightarrow> proc_type \<Rightarrow> int" where
  "NumLocalInDeviceList t devices type =
     foldl (\<lambda>n proc. if dl_contains devices (global_id proc) then n + 1 else n) 0
       (local_procs t type)"

definition ProcessorGroup_Local :: "proc_tables \<Rightarrow> proc_type option \<Rightarrow> processor list" where
  "ProcessorGroup_Local t type = local_procs t (value_or type (DefaultType t))"

text \<open>
  \<open>reserve\<close> throws \<open>std::length_error\<close> for a negative or too large size before the loop starts (a
  \<open>Processor\<close> has 32 bytes). For the sizes it allows, the loop visits what \<open>iota\<close> lists, or overflows
  as it does.
\<close>

definition ProcessorGroup_Create ::
  "proc_tables \<Rightarrow> device_ids \<Rightarrow> proc_type option \<Rightarrow> processor list res" where
  "ProcessorGroup_Create t ids type =
     (case dids_local ids of
        Some devices \<Rightarrow>
          andThen (andThen (reserve 32 (dl_size devices)) (\<lambda>_. dl_vector devices))
            (mapR (\<lambda>i. Processor_Create t \<lparr>did_local = Some i, did_global = None\<rparr> type))
      | None \<Rightarrow>
          (case dids_global ids of
             Some devices \<Rightarrow>
               andThen (andThen (reserve 32 (dl_size devices)) (\<lambda>_. dl_vector devices))
                 (mapR (\<lambda>i. Processor_Create t \<lparr>did_local = None, did_global = Some i\<rparr> type))
           | None \<Rightarrow> fail (RuntimeError ''must specifiy local or global IDs'')))"

section \<open>The numbering\<close>

text \<open>
  The machine as every process sees it, and the view of the process in address space \<open>a\<close>, which
  differs only in what is local.
\<close>

definition procs_in :: "machine \<Rightarrow> realm_kind \<Rightarrow> nat \<Rightarrow> realm_proc list" where
  "procs_in m k a = filter (\<lambda>p. kind_of m p = k \<and> space_of m p = a) (procs_query m)"

definition at_space :: "machine \<Rightarrow> nat \<Rightarrow> machine" where
  "at_space m a = m\<lparr>local_by_kind := (\<lambda>k. sort (procs_in m k a))\<rparr>"

definition machine_ok :: "machine \<Rightarrow> bool" where
  "machine_ok m \<longleftrightarrow> list_all (\<lambda>p. space_of m p < address_space_count m) (procs_query m)"

definition space_start :: "machine \<Rightarrow> realm_kind \<Rightarrow> nat \<Rightarrow> nat" where
  "space_start m k a = length (concat (map (\<lambda>b. procs_in m k b) [0..<a]))"

definition space_entry :: "machine \<Rightarrow> realm_kind \<Rightarrow> nat \<Rightarrow> remote_processors" where
  "space_entry m k a =
     \<lparr>global_device_id_start = int (space_start m k a),
      global_device_id_stop = int (space_start m k a + length (procs_in m k a)),
      processors = sort (procs_in m k a)\<rparr>"

lemma at_space_simps [simp]:
  "address_space_count (at_space m a) = address_space_count m"
  "procs_query (at_space m a) = procs_query m" "kind_of (at_space m a) = kind_of m"
  "space_of (at_space m a) = space_of m"
  "local_by_kind (at_space m a) k = sort (procs_in m k a)"
  by (simp_all add: at_space_def)

lemma enumerate_ok:
  assumes "\<And>p. p \<in> set ps \<Longrightarrow> sp p < n" and "length spaces = n"
  shows "foldR (\<lambda>spaces p.
         andThen (vec_at spaces (int (sp p))) (\<lambda>space.
         vec_set spaces (int (sp p)) (space\<lparr>processors := processors space @ [p]\<rparr>)))
       spaces ps =
    ret (map (\<lambda>a. (spaces ! a)\<lparr>processors := processors (spaces ! a) @
           filter (\<lambda>p. sp p = a) ps\<rparr>) [0..<n])"
  using assms
proof (induction ps arbitrary: spaces)
  case Nil
  then show ?case by (auto intro: nth_equalityI)
next
  case (Cons p ps)
  let ?s = "spaces[sp p := (spaces ! sp p)\<lparr>processors := processors (spaces ! sp p) @ [p]\<rparr>]"
  have "map (\<lambda>a. (?s ! a)\<lparr>processors := processors (?s ! a) @ filter (\<lambda>p. sp p = a) ps\<rparr>) [0..<n] =
      map (\<lambda>a. (spaces ! a)\<lparr>processors := processors (spaces ! a) @
           filter (\<lambda>p. sp p = a) (p # ps)\<rparr>) [0..<n]"
    using Cons.prems by (auto simp: nth_list_update)
  then show ?case
    using Cons.IH[of ?s] Cons.prems by (simp add: vec_at_nth vec_set_nth)
qed

lemma enumerate_procs_ok:
  assumes "machine_ok m"
  shows "enumerate_procs (at_space m a) k (resize_spaces (address_space_count m) []) =
    ret (map (\<lambda>b. empty_remote\<lparr>processors := procs_in m k b\<rparr>) [0..<address_space_count m])"
proof -
  have f: "filter (\<lambda>p. space_of m p = b) (filter (\<lambda>p. kind_of m p = k) (procs_query m)) =
      procs_in m k b" for b
    by (simp add: procs_in_def conj_commute)
  have "enumerate_procs (at_space m a) k (resize_spaces (address_space_count m) []) =
    ret (map (\<lambda>b. (replicate (address_space_count m) empty_remote ! b)\<lparr>processors :=
        processors (replicate (address_space_count m) empty_remote ! b) @
        filter (\<lambda>p. space_of m p = b) (filter (\<lambda>p. kind_of m p = k) (procs_query m))\<rparr>)
        [0..<address_space_count m])"
    unfolding enumerate_procs_def at_space_simps resize_spaces_def
    using assms by (subst enumerate_ok) (auto simp: machine_ok_def list_all_iff)
  then show ?thesis unfolding f by (simp add: empty_remote_def)
qed

lemma number_spaces_all:
  "fst (number_spaces off all spaces) = all @ concat (map (sort \<circ> processors) spaces)"
  by (induction off all spaces rule: number_spaces.induct) (auto simp: Let_def split: prod.splits)

lemma length_number_spaces [simp]: "length (snd (number_spaces off all spaces)) = length spaces"
  by (induction off all spaces rule: number_spaces.induct) (auto simp: Let_def split: prod.splits)

lemma number_spaces_nth:
  "i < length spaces \<Longrightarrow> snd (number_spaces off all spaces) ! i =
     \<lparr>global_device_id_start = off + int (length (concat (map processors (take i spaces)))),
      global_device_id_stop = off + int (length (concat (map processors (take i spaces)))) +
        int (length (processors (spaces ! i))),
      processors = sort (processors (spaces ! i))\<rparr>"
proof (induction off all spaces arbitrary: i rule: number_spaces.induct)
  case (2 off all space spaces)
  then show ?case
    by (cases i) (auto simp: Let_def size_of_def split: prod.splits)
qed simp

lemma number_local_nth:
  "i < length ps \<Longrightarrow> number_local type l g ps ! i =
     \<lparr>pr_type = type, pr_proc = ps ! i, local_id = l + int i, global_id = g + int i\<rparr>"
  by (induction type l g ps arbitrary: i rule: number_local.induct) (auto simp: nth_Cons')

lemma length_number_local [simp]: "length (number_local type l g ps) = length ps"
  by (induction type l g ps rule: number_local.induct) auto

definition typed_procs :: "machine \<Rightarrow> nat \<Rightarrow> proc_type \<Rightarrow> processor list" where
  "typed_procs m a type = number_local type 0 (int (space_start m (ToRealmKind type) a))
     (sort (procs_in m (ToRealmKind type) a))"

definition numbered_procs :: "machine \<Rightarrow> realm_kind \<Rightarrow> realm_proc list" where
  "numbered_procs m k = concat (map (\<lambda>b. sort (procs_in m k b)) [0..<address_space_count m])"

lemma number_spaces_ok:
  "number_spaces 0 [] (map (\<lambda>b. empty_remote\<lparr>processors := procs_in m k b\<rparr>) [0..<n]) =
     (concat (map (\<lambda>b. sort (procs_in m k b)) [0..<n]), map (space_entry m k) [0..<n])"
proof -
  let ?sp = "map (\<lambda>b. empty_remote\<lparr>processors := procs_in m k b\<rparr>) [0..<n]"
  have "snd (number_spaces 0 [] ?sp) = map (space_entry m k) [0..<n]"
  proof (rule nth_equalityI)
    fix i assume "i < length (snd (number_spaces 0 [] ?sp))"
    then have i: "i < n" by simp
    then have "map processors (take i ?sp) = map (\<lambda>b. procs_in m k b) [0..<i]"
      by (simp add: take_map)
    with i show "snd (number_spaces 0 [] ?sp) ! i = map (space_entry m k) [0..<n] ! i"
      by (simp add: number_spaces_nth space_entry_def space_start_def)
  qed simp
  moreover have "fst (number_spaces 0 [] ?sp) = concat (map (\<lambda>b. sort (procs_in m k b)) [0..<n])"
    by (simp add: number_spaces_all comp_def)
  ultimately show ?thesis by (metis prod.collapse)
qed

lemma init_type_ok:
  assumes m: "machine_ok m" and a: "a < address_space_count m"
    and fresh: "by_space t type = []" "all_procs t type = []" "local_procs t type = []"
  shows "init_type (at_space m a) t type = ret (t\<lparr>
     default_proc_type := (if typed_procs m a type \<noteq> [] then type else default_proc_type t),
     local_procs := (local_procs t)(type := typed_procs m a type),
     all_procs := (all_procs t)(type := numbered_procs m (ToRealmKind type)),
     by_space := (by_space t)(type :=
        map (space_entry m (ToRealmKind type)) [0..<address_space_count m])\<rparr>)"
proof (cases "sort (procs_in m (ToRealmKind type) a) = []")
  case True
  then show ?thesis
    using fresh
    by (simp add: init_type_def enumerate_procs_ok[OF m] number_spaces_ok typed_procs_def
        numbered_procs_def Let_def)
next
  case False
  then have "hd (sort (procs_in m (ToRealmKind type) a)) \<in> set (procs_in m (ToRealmKind type) a)"
    using hd_in_set[OF False] by simp
  then have "space_of m (hd (sort (procs_in m (ToRealmKind type) a))) = a"
    by (simp add: procs_in_def)
  then show ?thesis
    using fresh a False
    by (simp add: init_type_def enumerate_procs_ok[OF m] number_spaces_ok typed_procs_def
        numbered_procs_def vec_at_nth space_entry_def Let_def)
qed

text \<open>The tables after \<open>Init\<close>, for the three types the code enumerates.\<close>

definition real_type :: "proc_type \<Rightarrow> bool" where
  "real_type type \<longleftrightarrow> type = UTIL \<or> type = CPU \<or> type = GPU"

lemma proc_Init_ok:
  assumes "machine_ok m" and "a < address_space_count m"
  obtains t where "proc_Init (at_space m a) no_tables = ret t"
    and "\<And>type. real_type type \<Longrightarrow> local_procs t type = typed_procs m a type"
    and "\<And>type. real_type type \<Longrightarrow> all_procs t type = numbered_procs m (ToRealmKind type)"
    and "\<And>type. real_type type \<Longrightarrow> by_space t type =
           map (space_entry m (ToRealmKind type)) [0..<address_space_count m]"
    and "real_type (default_proc_type t)"
proof (rule that)
  let ?t = "\<lparr>default_proc_type =
      (if typed_procs m a GPU \<noteq> [] then GPU else if typed_procs m a CPU \<noteq> [] then CPU
       else if typed_procs m a UTIL \<noteq> [] then UTIL else CPU),
    local_procs = (\<lambda>_. [])(UTIL := typed_procs m a UTIL, CPU := typed_procs m a CPU,
      GPU := typed_procs m a GPU),
    all_procs = (\<lambda>_. [])(UTIL := numbered_procs m UTIL_PROC, CPU := numbered_procs m LOC_PROC,
      GPU := numbered_procs m TOC_PROC),
    by_space = (\<lambda>_. [])(UTIL := map (space_entry m UTIL_PROC) [0..<address_space_count m],
      CPU := map (space_entry m LOC_PROC) [0..<address_space_count m],
      GPU := map (space_entry m TOC_PROC) [0..<address_space_count m])\<rparr>"
  show "proc_Init (at_space m a) no_tables = ret ?t"
    using assms by (simp add: proc_Init_def init_type_ok no_tables_def)
qed (auto simp: real_type_def)

lemma numbered_procs_nth:
  assumes "a < address_space_count m" and "i < length (procs_in m k a)"
  shows "space_start m k a + i < length (numbered_procs m k)"
    and "numbered_procs m k ! (space_start m k a + i) = sort (procs_in m k a) ! i"
proof -
  let ?n = "address_space_count m"
  have "[0..<?n] = [0..<a] @ a # [Suc a..<?n]"
    using assms(1) by (metis upt_add_eq_append upt_conv_Cons le_add_diff_inverse less_imp_le
        zero_le)
  then have split: "numbered_procs m k =
      concat (map (\<lambda>b. sort (procs_in m k b)) [0..<a]) @ sort (procs_in m k a) @
      concat (map (\<lambda>b. sort (procs_in m k b)) [Suc a..<?n])"
    by (simp add: numbered_procs_def)
  have len: "length (concat (map (\<lambda>b. sort (procs_in m k b)) [0..<a])) = space_start m k a"
    by (simp add: space_start_def length_concat comp_def)
  show "space_start m k a + i < length (numbered_procs m k)"
    using assms(2) len by (simp add: split)
  show "numbered_procs m k ! (space_start m k a + i) = sort (procs_in m k a) ! i"
    using assms(2) len by (simp add: split nth_append)
qed

text \<open>
  C9. Every process of a machine computes the same global numbering: after \<open>Init\<close> in the processes of
  two address spaces, the global id of a processor that is local to the first resolves in the
  second (and, with the same space twice, in itself) to that very Realm processor, and within its own
  process the processor is found under its local id.
\<close>

theorem global_ids_agree:
  assumes "machine_ok m" and "a < address_space_count m" and "b < address_space_count m"
  shows "\<exists>ta tb. proc_Init (at_space m a) no_tables = ret ta \<and>
    proc_Init (at_space m b) no_tables = ret tb \<and>
    (\<forall>type P. real_type type \<and> P \<in> set (local_procs ta type) \<longrightarrow>
       RemoteProc tb (global_id P) (Some type) = ret (pr_proc P) \<and>
       Processor_Create ta \<lparr>did_local = Some (local_id P), did_global = None\<rparr> (Some type) = ret P)"
proof -
  obtain ta where ta: "proc_Init (at_space m a) no_tables = ret ta"
    "\<And>type. real_type type \<Longrightarrow> local_procs ta type = typed_procs m a type"
    using proc_Init_ok[OF assms(1,2)] by metis
  obtain tb where tb: "proc_Init (at_space m b) no_tables = ret tb"
    "\<And>type. real_type type \<Longrightarrow> all_procs tb type = numbered_procs m (ToRealmKind type)"
    using proc_Init_ok[OF assms(1,3)] by metis
  have "RemoteProc tb (global_id P) (Some type) = ret (pr_proc P) \<and>
       Processor_Create ta \<lparr>did_local = Some (local_id P), did_global = None\<rparr> (Some type) = ret P"
    if type: "real_type type" and P: "P \<in> set (local_procs ta type)" for type P
  proof -
    let ?k = "ToRealmKind type"
    obtain i where i: "i < length (procs_in m ?k a)" "P = typed_procs m a type ! i"
      using P by (auto simp: ta(2)[OF type] in_set_conv_nth typed_procs_def)
    then have rec: "P = \<lparr>pr_type = type, pr_proc = sort (procs_in m ?k a) ! i, local_id = int i,
        global_id = int (space_start m ?k a + i)\<rparr>"
      by (simp add: typed_procs_def number_local_nth)
    have "RemoteProc tb (global_id P) (Some type) = ret (pr_proc P)"
      using numbered_procs_nth[OF assms(2) i(1)] tb(2)[OF type]
      by (simp add: RemoteProc_def value_or_def rec vec_at_nth del: of_nat_add)
    moreover have "i < length (local_procs ta type)"
      using i(1) by (simp add: ta(2)[OF type] typed_procs_def)
    then have "GetProc ta \<lparr>did_local = Some (local_id P), did_global = None\<rparr> type =
        ret (local_procs ta type ! i)"
      by (simp add: GetProc_def rec size_of_def vec_at_nth)
    moreover have "type \<noteq> TEST" using type by (auto simp: real_type_def)
    ultimately show ?thesis
      using i(2) ta(2)[OF type] by (simp add: Processor_Create_def value_or_def)
  qed
  with ta(1) tb(1) show ?thesis by blast
qed

text \<open>Two address spaces, each with one CPU (1, 2) and two GPUs (3 to 6, odd ones in space 1).\<close>

definition example_machine :: machine where
  "example_machine = \<lparr>address_space_count = 2, procs_query = [6, 5, 4, 3, 2, 1],
     kind_of = (\<lambda>p. if p \<le> 2 then LOC_PROC else TOC_PROC), space_of = (\<lambda>p. p mod 2),
     local_by_kind = (\<lambda>_. [])\<rparr>"

lemma example_machine_ok: "machine_ok example_machine"
  by (simp add: machine_ok_def example_machine_def)

theorem global_ids_agree_witness:
  "machine_ok example_machine \<and>
   (\<exists>ta tb. proc_Init (at_space example_machine 1) no_tables = ret ta \<and>
      proc_Init (at_space example_machine 0) no_tables = ret tb \<and>
      RemoteProc tb 3 (Some GPU) = ret 5)"
proof -
  have lt: "(1 :: nat) < address_space_count example_machine" "0 < address_space_count example_machine"
    by (simp_all add: example_machine_def)
  obtain ta where ta: "proc_Init (at_space example_machine 1) no_tables = ret ta"
    "\<And>type. real_type type \<Longrightarrow> local_procs ta type = typed_procs example_machine 1 type"
    using proc_Init_ok[OF example_machine_ok lt(1)] by metis
  have "\<lparr>pr_type = GPU, pr_proc = 5, local_id = 1, global_id = 3\<rparr> \<in> set (local_procs ta GPU)"
    by (simp add: ta(2) real_type_def typed_procs_def example_machine_def procs_in_def
        space_start_def)
  moreover obtain ta' tb where th: "proc_Init (at_space example_machine 1) no_tables = ret ta'"
    "proc_Init (at_space example_machine 0) no_tables = ret tb"
    "\<And>type P. real_type type \<Longrightarrow> P \<in> set (local_procs ta' type) \<Longrightarrow>
       RemoteProc tb (global_id P) (Some type) = ret (pr_proc P)"
    using global_ids_agree[OF example_machine_ok lt] by blast
  moreover have "ta' = ta" using ta(1) th(1) by simp
  ultimately have "RemoteProc tb 3 (Some GPU) = ret 5"
    using th(3)[of GPU "\<lparr>pr_type = GPU, pr_proc = 5, local_id = 1, global_id = 3\<rparr>"]
    by (simp add: real_type_def)
  with th(1,2) example_machine_ok show ?thesis by blast
qed

lemma numbered_procs_mem:
  "p \<in> set (numbered_procs m k) \<Longrightarrow> kind_of m p = k \<and> space_of m p < address_space_count m"
  by (auto simp: numbered_procs_def procs_in_def)

text \<open>
  C39. \<open>GetAttachedHost\<close> stays in the device's process: for the device that has a global id, it
  returns a CPU of the device's own address space whenever that space has one, whether or not the
  numbering of the CPUs is aligned with the numbering of the devices.
\<close>

theorem attached_host_local:
  assumes m: "machine_ok m" and a: "a < address_space_count m" and type: "real_type type"
    and t: "proc_Init (at_space m a) no_tables = ret t"
    and d: "RemoteProc t g (Some type) = ret d"
    and cpu: "procs_in m LOC_PROC (space_of m d) \<noteq> []"
  shows "\<exists>h. GetAttachedHost m t g (Some type) = ret h \<and> kind_of m h = LOC_PROC \<and>
    space_of m h = space_of m d"
proof -
  let ?hosts = "sort (procs_in m LOC_PROC (space_of m d))"
  obtain t' where t': "proc_Init (at_space m a) no_tables = ret t'"
    "\<And>type. real_type type \<Longrightarrow> all_procs t' type = numbered_procs m (ToRealmKind type)"
    "\<And>type. real_type type \<Longrightarrow> by_space t' type =
       map (space_entry m (ToRealmKind type)) [0..<address_space_count m]"
    using proc_Init_ok[OF m a] by metis
  have "t' = t" using t t'(1) by simp
  then have all: "all_procs t type = numbered_procs m (ToRealmKind type)"
    and sp: "by_space t CPU = map (space_entry m LOC_PROC) [0..<address_space_count m]"
    using t'(2)[OF type] t'(3)[of CPU] by (simp_all add: real_type_def)
  have "d \<in> set (numbered_procs m (ToRealmKind type))"
    using d by (auto simp: RemoteProc_def value_or_def vec_at_eq_ret all)
  then have lt: "space_of m d < address_space_count m" using numbered_procs_mem by simp
  have host: "\<exists>h. vec_at ?hosts i = ret h \<and> kind_of m h = LOC_PROC \<and> space_of m h = space_of m d"
    if "0 \<le> i" "i < int (length ?hosts)" for i
  proof -
    have "?hosts ! nat i \<in> set (procs_in m LOC_PROC (space_of m d))"
      using that nth_mem[of "nat i" ?hosts] by (simp add: nat_less_iff)
    then show ?thesis using that by (auto simp: vec_at_def procs_in_def)
  qed
  have entry: "vec_at (by_space t CPU) (int (space_of m d)) =
      ret (space_entry m LOC_PROC (space_of m d))"
    using lt by (simp add: sp vec_at_nth)
  have ne: "0 < length ?hosts" using cpu by simp
  let ?i = "g - int (space_start m LOC_PROC (space_of m d))"
  show ?thesis
  proof (cases "kind_of m d = LOC_PROC")
    case True
    then show ?thesis using d by (simp add: GetAttachedHost_def)
  next
    case False
    have "GetAttachedHost m t g (Some type) = vec_at ?hosts ?i \<and> 0 \<le> ?i \<and> ?i < int (length ?hosts) \<or>
        GetAttachedHost m t g (Some type) = vec_at ?hosts 0"
      using d entry False by (simp add: GetAttachedHost_def space_entry_def)
    then show ?thesis using host[of ?i] host[of 0] ne by auto
  qed
qed

theorem attached_host_local_witness:
  "\<exists>t h. proc_Init (at_space example_machine 0) no_tables = ret t \<and>
     GetAttachedHost example_machine t 3 (Some GPU) = ret h \<and>
     kind_of example_machine h = LOC_PROC \<and> space_of example_machine h = 1"
proof -
  have a: "0 < address_space_count example_machine" by (simp add: example_machine_def)
  obtain t where t: "proc_Init (at_space example_machine 0) no_tables = ret t"
    "\<And>type. real_type type \<Longrightarrow> all_procs t type = numbered_procs example_machine (ToRealmKind type)"
    using proc_Init_ok[OF example_machine_ok a] by metis
  have "[0..<2] = [0, 1]" by (simp add: numeral_2_eq_2)
  then have "numbered_procs example_machine TOC_PROC = [4, 6, 3, 5]"
    by (simp add: numbered_procs_def procs_in_def example_machine_def)
  then have "RemoteProc t 3 (Some GPU) = ret 5"
    by (simp add: RemoteProc_def value_or_def t(2) real_type_def vec_at_def)
  moreover have "procs_in example_machine LOC_PROC (space_of example_machine 5) \<noteq> []"
    by (simp add: procs_in_def example_machine_def)
  moreover have "space_of example_machine 5 = 1" by (simp add: example_machine_def)
  ultimately show ?thesis
    using attached_host_local[OF example_machine_ok a _ t(1)] t(1) by (fastforce simp: real_type_def)
qed

text \<open>
  \<open>Create\<close> with a global id looks the id up among the local ones: in space 0 the global id 3 of
  a GPU is not found, and the global id 1 finds the GPU with local id 1.
\<close>

lemma Create_global_as_local:
  "local_procs t GPU = [p, q] \<Longrightarrow>
   Processor_Create t \<lparr>did_local = None, did_global = Some 3\<rparr> (Some GPU) =
     fail (RuntimeError ''local_id is greater than number of local procs'') \<and>
   Processor_Create t \<lparr>did_local = None, did_global = Some 1\<rparr> (Some GPU) = ret q"
  by (simp add: Processor_Create_def GetProc_def value_or_def size_of_def vec_at_def)

lemma NumLocalInDeviceList_ok:
  "NumLocalInDeviceList t devices type =
     int (length (filter (\<lambda>P. dl_contains devices (global_id P)) (local_procs t type)))"
proof -
  have "foldl (\<lambda>n proc. if dl_contains devices (global_id proc) then n + 1 else n) k ps =
      k + int (length (filter (\<lambda>P. dl_contains devices (global_id P)) ps))"
    for k :: int and ps :: "processor list"
    by (induction ps arbitrary: k) auto
  then show ?thesis by (simp add: NumLocalInDeviceList_def)
qed

end
