(* ===== verification/Realm_World.thy ===== *)
theory Realm_World
  imports Tiles Processor "HOL-Library.Word"
begin

text \<open>
  The Realm runtime as the code sees it: opaque handles and calls that return handles. Realm itself
  is not part of the repository, so what a call returns is a parameter: an oracle that sees the
  trace of calls made so far. The trace records which event was made out of which, and
  \<open>depends\<close> reads the waiting order off it: which events come after which.
  The names of arrays that travel in messages (\<open>UniqueId\<close> and \<open>ReshardKey\<close> of
  \<open>src/zuku/tiled_array.h\<close>) and the counter of pending operations of \<open>src/zuku/init.cc\<close> are here
  too, since every layer above uses them.
\<close>

section \<open>Array names\<close>

record unique_id =
  uid_id :: "64 word"
  uid_devices :: device_list

definition unique_id_eq :: "unique_id \<Rightarrow> unique_id \<Rightarrow> bool" where
  "unique_id_eq lhs rhs \<longleftrightarrow> uid_id lhs = uid_id rhs \<and> dl_eq (uid_devices lhs) (uid_devices rhs)"

record reshard_key =
  key_src_id :: unique_id
  key_dst_id :: unique_id
  key_src_shard :: int
  key_dst_shard :: int

definition reshard_key_eq :: "reshard_key \<Rightarrow> reshard_key \<Rightarrow> bool" where
  "reshard_key_eq lhs rhs \<longleftrightarrow> unique_id_eq (key_src_id lhs) (key_src_id rhs) \<and>
     unique_id_eq (key_dst_id lhs) (key_dst_id rhs) \<and> key_src_shard lhs = key_src_shard rhs \<and>
     key_dst_shard lhs = key_dst_shard rhs"

record scatter_gather_key =
  sgk_src_id :: unique_id
  sgk_dst_id :: unique_id

definition scatter_gather_key_eq :: "scatter_gather_key \<Rightarrow> scatter_gather_key \<Rightarrow> bool" where
  "scatter_gather_key_eq lhs rhs \<longleftrightarrow> unique_id_eq (sgk_src_id lhs) (sgk_src_id rhs) \<and>
     unique_id_eq (sgk_dst_id lhs) (sgk_dst_id rhs)"

text \<open>
  The comparison operators compare every field, so maps keyed by these types may use equality.
\<close>

lemma unique_id_eq_iff: "unique_id_eq a b \<longleftrightarrow> a = b"
  by (auto simp: unique_id_eq_def dl_eq_iff)

lemma reshard_key_eq_iff: "reshard_key_eq a b \<longleftrightarrow> a = b"
  by (auto simp: reshard_key_eq_def unique_id_eq_iff)

lemma scatter_gather_key_eq_iff: "scatter_gather_key_eq a b \<longleftrightarrow> a = b"
  by (auto simp: scatter_gather_key_eq_def unique_id_eq_iff)

section \<open>Calls and traces\<close>

text \<open>
  A handle is a number, 0 for \<open>NO_EVENT\<close>, \<open>NO_USER_EVENT\<close>, \<open>NO_BARRIER\<close> and
  \<open>NO_INST\<close>; \<open>exists()\<close> tests for the others. User events and barriers are events.
\<close>

type_synonym event = nat
type_synonym inst = nat

definition NO_EVENT :: event where "NO_EVENT = 0"
definition NO_INST :: inst where "NO_INST = 0"

text \<open>
  The calls, with the arguments the model keeps. \<open>SpawnNames\<close> is \<open>spawn\<close> of the name exchange
  task with its message, \<open>SpawnRelease\<close> of the task that drops a held pointer, \<open>SpawnTask\<close> of a
  task of the program, \<open>SpawnDelete\<close> of the task that frees it. \<open>CollectiveSpawn\<close> is
  the task all processes agree on, which starts after the event in each of them. \<open>create_instance\<close> gives three
  things, one call each: the instance, the event of its being ready, and, through a profiling
  response, whether the allocation succeeded (not 0 for yes).
\<close>

datatype realm_call =
    MergeEvents "event list"
  | CreateUserEvent
  | TriggerEvent event event
  | WaitEvent event
  | CreateBarrier nat
  | ArriveBarrier event nat event
  | AdvanceBarrier event
  | DestroyBarrier event
  | RectCopy rect int inst inst event
  | QueryMemory realm_proc "memory_kind option"
  | CreateInstance nat rect int
  | InstanceReady inst
  | AllocationSucceeded inst
  | DestroyInstance inst event
  | SpawnNames realm_proc reshard_key event inst
  | SpawnRelease realm_proc event
  | SpawnTask realm_proc event int
  | SpawnDelete realm_proc event
  | SpawnProfileStop realm_proc "64 word" event
  | RegisterTask int realm_kind
  | CollectiveSpawn event
  | ShutdownRealm event

type_synonym trace = "(realm_call \<times> nat) list"

type_synonym realm = "trace \<Rightarrow> realm_call \<Rightarrow> nat"

text \<open>The part of a process's state that every layer threads: the trace, and \<open>sPendingEvents\<close>.\<close>

record runtime =
  trace_of :: trace
  pending_ops :: "64 word"

definition invoke ::
  "realm \<Rightarrow> realm_call \<Rightarrow> 'z runtime_scheme \<Rightarrow> nat \<times> 'z runtime_scheme" where
  "invoke rl c w = (rl (trace_of w) c,
     w\<lparr>trace_of := trace_of w @ [(c, rl (trace_of w) c)]\<rparr>)"

definition command :: "realm \<Rightarrow> realm_call \<Rightarrow> 'z runtime_scheme \<Rightarrow> 'z runtime_scheme" where
  \<comment> \<open>a call whose result is not used\<close>
  "command rl c w = snd (invoke rl c w)"

definition IncPendingOp :: "'z runtime_scheme \<Rightarrow> 'z runtime_scheme" where
  "IncPendingOp w = w\<lparr>pending_ops := pending_ops w + 1\<rparr>"

definition DecPendingOp :: "'z runtime_scheme \<Rightarrow> 'z runtime_scheme" where
  "DecPendingOp w = w\<lparr>pending_ops := pending_ops w - 1\<rparr>"

lemma trace_invoke [simp]:
  "trace_of (snd (invoke rl c w)) = trace_of w @ [(c, fst (invoke rl c w))]"
  by (simp add: invoke_def)

lemma trace_command [simp]:
  "trace_of (command rl c w) = trace_of w @ [(c, rl (trace_of w) c)]"
  by (simp add: command_def invoke_def)

lemma trace_pending [simp]:
  "trace_of (IncPendingOp w) = trace_of w" "trace_of (DecPendingOp w) = trace_of w"
  by (simp_all add: IncPendingOp_def DecPendingOp_def)

lemma Dec_Inc [simp]: "DecPendingOp (IncPendingOp w) = w"
  by (simp add: IncPendingOp_def DecPendingOp_def)

section \<open>Which event waits for which\<close>

text \<open>
  What Realm documents of its calls: a merged event triggers after all its inputs, the completion
  of a copy or of a task after its precondition, a user event after the event it was triggered
  with, a barrier generation after the arrivals on it.
\<close>

fun waits_for :: "realm_call \<times> nat \<Rightarrow> (event \<times> event) list" where
  "waits_for (MergeEvents es, e) = map (Pair e) es"
| "waits_for (RectCopy _ _ _ _ pre, e) = [(e, pre)]"
| "waits_for (SpawnTask _ pre _, e) = [(e, pre)]"
| "waits_for (TriggerEvent u pre, _) = [(u, pre)]"
| "waits_for (ArriveBarrier b _ pre, _) = [(b, pre)]"
| "waits_for (CollectiveSpawn pre, e) = [(e, pre)]"
| "waits_for _ = []"

definition waits :: "trace \<Rightarrow> (event \<times> event) set" where
  "waits tr = set (concat (map waits_for tr))"

definition depends :: "trace \<Rightarrow> event \<Rightarrow> event \<Rightarrow> bool" where
  "depends tr e x \<longleftrightarrow> (e, x) \<in> (waits tr)\<^sup>*"

lemma waits_append [simp]: "waits (tr @ tr') = waits tr \<union> waits tr'"
  by (simp add: waits_def)

lemma waits_Nil [simp]: "waits [] = {}"
  by (simp add: waits_def)

lemma waits_Cons: "waits (x # tr) = set (waits_for x) \<union> waits tr"
  by (simp add: waits_def)

lemma depends_refl [simp, intro]: "depends tr e e"
  by (simp add: depends_def)

lemma depends_trans [trans]: "depends tr a b \<Longrightarrow> depends tr b c \<Longrightarrow> depends tr a c"
  by (simp add: depends_def)

lemma depends_edge: "(e, x) \<in> waits tr \<Longrightarrow> depends tr e x"
  by (auto simp: depends_def)

lemma depends_range: "depends tr e x \<Longrightarrow> e = x \<or> x \<in> snd ` waits tr"
proof -
  assume "depends tr e x"
  then show ?thesis
    unfolding depends_def
  proof (cases rule: rtranclE)
    case (step y)
    then have "snd (y, x) \<in> snd ` waits tr" by (intro imageI)
    then show ?thesis by simp
  qed simp
qed

text \<open>Later calls never take a dependency back.\<close>

definition extends :: "trace \<Rightarrow> trace \<Rightarrow> bool" where
  "extends tr' tr \<longleftrightarrow> (\<exists>tr1. tr' = tr @ tr1)"

lemma extends_refl [simp, intro]: "extends tr tr"
  by (simp add: extends_def)

lemma extends_trans [trans]: "extends c b \<Longrightarrow> extends b a \<Longrightarrow> extends c a"
  by (auto simp: extends_def)

lemma extends_snoc [simp, intro]: "extends (tr @ tr1) tr"
  by (simp add: extends_def)

lemma extends_set: "extends tr' tr \<Longrightarrow> x \<in> set tr \<Longrightarrow> x \<in> set tr'"
  by (auto simp: extends_def)

lemma depends_extends:
  assumes "extends tr' tr" and "depends tr e x" shows "depends tr' e x"
proof -
  have "waits tr \<subseteq> waits tr'" using assms(1) by (auto simp: extends_def)
  then show ?thesis using assms(2) rtrancl_mono unfolding depends_def by blast
qed

text \<open>
  The layers above use no more of the order than the laws of this interface, so what they show holds
  for every order of events that respects Realm's documentation; \<open>depends\<close> is the least one.
\<close>

locale event_order =
  fixes after :: "trace \<Rightarrow> event \<Rightarrow> event \<Rightarrow> bool"
  assumes after_refl: "after tr e e"
    and after_trans: "after tr a b \<Longrightarrow> after tr b c \<Longrightarrow> after tr a c"
    and after_extends: "extends tr' tr \<Longrightarrow> after tr e x \<Longrightarrow> after tr' e x"
    and after_call: "(call, r) \<in> set tr \<Longrightarrow> (e, x) \<in> set (waits_for (call, r)) \<Longrightarrow>
      after tr e x"
begin

lemma after_merge: "(MergeEvents es, e) \<in> set tr \<Longrightarrow> x \<in> set es \<Longrightarrow> after tr e x"
  by (rule after_call) auto

lemma after_copy: "(RectCopy b n s d pre, e) \<in> set tr \<Longrightarrow> after tr e pre"
  by (rule after_call) auto

lemma after_spawn: "(SpawnTask p pre n, e) \<in> set tr \<Longrightarrow> after tr e pre"
  by (rule after_call) auto

lemma after_trigger: "(TriggerEvent u pre, r) \<in> set tr \<Longrightarrow> after tr u pre"
  by (rule after_call) auto

lemma after_arrive: "(ArriveBarrier b n pre, r) \<in> set tr \<Longrightarrow> after tr b pre"
  by (rule after_call) auto

end

interpretation deps: event_order depends
proof
  fix c r tr e x assume "(c, r) \<in> set tr" "(e, x) \<in> set (waits_for (c, r))"
  then show "depends tr e x" by (intro depends_edge) (auto simp: waits_def)
qed (auto intro: depends_trans depends_extends)

section \<open>Event combinators\<close>

text \<open>
  \<open>merge_events\<close> of two events and of a \<open>std::set\<close> of events, which Realm sees in the order of
  the handles and without repetition.
\<close>

definition merge2 ::
  "realm \<Rightarrow> event \<Rightarrow> event \<Rightarrow> 'z runtime_scheme \<Rightarrow> event \<times> 'z runtime_scheme" where
  "merge2 rl a b w = invoke rl (MergeEvents [a, b]) w"

definition merge_set ::
  "realm \<Rightarrow> event set \<Rightarrow> 'z runtime_scheme \<Rightarrow> event \<times> 'z runtime_scheme" where
  "merge_set rl es w = invoke rl (MergeEvents (sorted_list_of_set es)) w"

lemma extends_invoke [simp]: "extends (trace_of (snd (invoke rl c w))) (trace_of w)"
  by simp

lemma merge2_extends: "merge2 rl a b w = (e, w') \<Longrightarrow> extends (trace_of w') (trace_of w)"
  by (auto simp: merge2_def invoke_def)

lemma merge_set_extends: "merge_set rl es w = (e, w') \<Longrightarrow> extends (trace_of w') (trace_of w)"
  by (auto simp: merge_set_def invoke_def)

context event_order
begin

lemma merge2_after:
  assumes "merge2 rl a b w = (e, w')"
  shows "after (trace_of w') e a" and "after (trace_of w') e b"
  using assms by (auto simp: merge2_def invoke_def intro!: after_merge[of "[a, b]"])

lemma merge_set_after:
  assumes "merge_set rl es w = (e, w')" and "finite es" and "x \<in> es"
  shows "after (trace_of w') e x"
  using assms by (auto simp: merge_set_def invoke_def intro!: after_merge[of "sorted_list_of_set es"])

end

text \<open>
  A Realm that never returns the same handle twice, nor 0: the number of the call. It is the
  instance the witnesses run on; every allocation succeeds, since a handle is not 0.
\<close>

definition fresh_realm :: realm where
  "fresh_realm tr c = Suc (length tr)"

end
