(* ===== verification/Store.thy ===== *)
theory Store
  imports Realm_World
begin

text \<open>
  \<open>src/zuku/store.h\<close> and the \<open>View\<close> of \<open>src/zuku/future.h\<close>: a value together with the events
  that say when it may be read (\<open>child_rw_event\<close>, the writes so far) and when it may be written
  (that and \<open>war_precondition\<close>, the reads since the last write). The value is a template
  parameter, here a type variable; \<open>None\<close> is the null pointer of a store that was moved from.
\<close>

section \<open>State\<close>

record event_precondition =
  ep_stream :: event
  ep_effects :: event

record 'v store =
  has_parent :: bool
  parent_notification :: "event option"
  child_rw :: "event_precondition option"
  war_pre :: "event_precondition option"
  store_value :: "'v option"

text \<open>
  A view's value is a variant of pointers: to a future that is not resolved yet, to an optional that a
  task fills in (the pointer is null after a move), or to the value of a store (\<open>None\<close> is the null
  pointer).
\<close>

datatype 'v view_value =
  UnresolvedFuture | OptionalValue "'v option" | NullOptional | SharedValue "'v option"

record 'v view =
  view_pre :: "event_precondition option"
  war_dependency :: "event option"
  sub_views :: "event list"
  view_content :: "'v view_value"

section \<open>Creation and moves\<close>

definition Store_Create :: "'v \<Rightarrow> 'v store" where
  "Store_Create v = \<lparr>has_parent = False, parent_notification = None, child_rw = None,
     war_pre = None, store_value = Some v\<rparr>"

definition Store_CreateEmpty :: "'v store" where
  "Store_CreateEmpty = \<lparr>has_parent = False, parent_notification = None, child_rw = None,
     war_pre = None, store_value = None\<rparr>"

definition Store_DeferredCreate :: "event \<Rightarrow> 'v \<Rightarrow> 'v store" where
  "Store_DeferredCreate ev v = \<lparr>has_parent = False, parent_notification = None,
     child_rw = Some \<lparr>ep_stream = ev, ep_effects = ev\<rparr>, war_pre = None, store_value = Some v\<rparr>"

text \<open>
  The move constructor gives the new store and what is left of the old one. The moved-from optional
  \<open>war_precondition_\<close> keeps its value: it is not reset, and moving an optional does not empty it.
\<close>

definition Store_move :: "'v store \<Rightarrow> 'v store \<times> 'v store" where
  "Store_move v = (v, v\<lparr>store_value := None, parent_notification := None, child_rw := None\<rparr>)"

definition Store_assign :: "'v store \<Rightarrow> 'v store \<Rightarrow> 'v store \<times> 'v store" where
  \<comment> \<open>\<open>operator=\<close>: what the target held is overwritten\<close>
  "Store_assign target v = Store_move v"

section \<open>Preconditions\<close>

definition store_HasWarPrecondition :: "'v store \<Rightarrow> bool" where
  "store_HasWarPrecondition st \<longleftrightarrow> war_pre st \<noteq> None"

definition store_HasPrecondition :: "'v store \<Rightarrow> bool" where
  "store_HasPrecondition st \<longleftrightarrow> war_pre st \<noteq> None \<or> child_rw st \<noteq> None"

definition store_HasPostcondition :: "'v store \<Rightarrow> bool" where
  "store_HasPostcondition st \<longleftrightarrow> parent_notification st \<noteq> None"

definition store_Precondition ::
  "realm \<Rightarrow> 'v store \<Rightarrow> 'z runtime_scheme \<Rightarrow> event \<times> 'z runtime_scheme" where
  "store_Precondition rl st w =
     (case war_pre st of
        Some war \<Rightarrow>
          (case child_rw st of
             Some rw \<Rightarrow> merge2 rl (ep_effects war) (ep_effects rw) w
           | None \<Rightarrow> (ep_effects war, w))
      | None \<Rightarrow>
          (case child_rw st of Some rw \<Rightarrow> (ep_effects rw, w) | None \<Rightarrow> (NO_EVENT, w)))"

definition store_StreamPrecondition ::
  "realm \<Rightarrow> 'v store \<Rightarrow> 'z runtime_scheme \<Rightarrow> event \<times> 'z runtime_scheme" where
  "store_StreamPrecondition rl st w =
     (case war_pre st of
        Some war \<Rightarrow>
          (case child_rw st of
             Some rw \<Rightarrow> merge2 rl (ep_stream war) (ep_stream rw) w
           | None \<Rightarrow> (ep_stream war, w))
      | None \<Rightarrow>
          (case child_rw st of Some rw \<Rightarrow> (ep_stream rw, w) | None \<Rightarrow> (NO_EVENT, w)))"

definition store_Postcondition :: "'v store \<Rightarrow> event" where
  "store_Postcondition st = (case parent_notification st of Some e \<Rightarrow> e | None \<Rightarrow> NO_EVENT)"

text \<open>\<open>Wait\<close> blocks on both events and forgets them.\<close>

definition store_Wait ::
  "realm \<Rightarrow> 'v store \<Rightarrow> 'z runtime_scheme \<Rightarrow> 'v store \<times> 'z runtime_scheme" where
  "store_Wait rl st w =
     (let w1 = (case child_rw st of Some rw \<Rightarrow> command rl (WaitEvent (ep_effects rw)) w | None \<Rightarrow> w);
          w2 = (case war_pre st of Some war \<Rightarrow> command rl (WaitEvent (ep_effects war)) w1 | None \<Rightarrow> w1)
      in (st\<lparr>child_rw := None, war_pre := None\<rparr>, w2))"

section \<open>Writers\<close>

definition store_ReadyAfter2 ::
  "realm \<Rightarrow> event \<Rightarrow> event \<Rightarrow> 'v store \<Rightarrow> 'z runtime_scheme \<Rightarrow> 'v store \<times> 'z runtime_scheme" where
  "store_ReadyAfter2 rl stream effects st w =
     (case child_rw st of
        Some rw \<Rightarrow>
          (let (e, w1) = merge2 rl effects (ep_effects rw) w;
               (s, w2) = merge2 rl stream (ep_stream rw) w1
           in (st\<lparr>child_rw := Some \<lparr>ep_stream = s, ep_effects = e\<rparr>, war_pre := None\<rparr>, w2))
      | None \<Rightarrow>
          (st\<lparr>child_rw := Some \<lparr>ep_stream = stream, ep_effects = effects\<rparr>, war_pre := None\<rparr>, w))"

definition store_ReadyAfter ::
  "realm \<Rightarrow> event \<Rightarrow> 'v store \<Rightarrow> 'z runtime_scheme \<Rightarrow> 'v store \<times> 'z runtime_scheme" where
  "store_ReadyAfter rl ev st w = store_ReadyAfter2 rl ev ev st w"

text \<open>
  A child holds what its parent held: moving the optional \<open>child_rw_event_\<close>, whose content is
  trivially copied, leaves it in the parent, where \<open>ReadyAfter\<close> merges the new event into it.
\<close>

definition store_child_on ::
  "realm \<Rightarrow> event \<Rightarrow> event \<Rightarrow> 'v store \<Rightarrow> 'z runtime_scheme \<Rightarrow>
   'v store \<times> 'v store \<times> 'z runtime_scheme" where
  "store_child_on rl stream effects st w =
     (let new_child = \<lparr>has_parent = True, parent_notification = None, child_rw = child_rw st,
            war_pre = war_pre st, store_value = store_value st\<rparr>;
          (st', w') = store_ReadyAfter2 rl stream effects st w
      in (new_child, st', w'))"

definition store_child ::
  "realm \<Rightarrow> 'v store \<Rightarrow> 'z runtime_scheme \<Rightarrow> 'v store \<times> 'v store \<times> 'z runtime_scheme" where
  "store_child rl st w =
     (let (u, w1) = invoke rl CreateUserEvent w;
          new_child = \<lparr>has_parent = True, parent_notification = Some u, child_rw = child_rw st,
            war_pre = war_pre st, store_value = store_value st\<rparr>;
          (st', w') = store_ReadyAfter rl u st w1
      in (new_child, st', w'))"

section \<open>Readers\<close>

definition store_unsafe_view :: "'v store \<Rightarrow> 'v view" where
  "store_unsafe_view st = \<lparr>view_pre = child_rw st, war_dependency = None, sub_views = [],
     view_content = SharedValue (store_value st)\<rparr>"

definition add_reader ::
  "realm \<Rightarrow> event \<Rightarrow> event \<Rightarrow> 'v store \<Rightarrow> 'z runtime_scheme \<Rightarrow> 'v store \<times> 'z runtime_scheme" where
  \<comment> \<open>the part the two \<open>view\<close> members share\<close>
  "add_reader rl stream effects st w =
     (case war_pre st of
        Some war \<Rightarrow>
          (let (e, w1) = merge2 rl (ep_effects war) effects w;
               (s, w2) = merge2 rl (ep_stream war) stream w1
           in (st\<lparr>war_pre := Some \<lparr>ep_stream = s, ep_effects = e\<rparr>\<rparr>, w2))
      | None \<Rightarrow> (st\<lparr>war_pre := Some \<lparr>ep_stream = stream, ep_effects = effects\<rparr>\<rparr>, w))"

definition store_view_on ::
  "realm \<Rightarrow> event \<Rightarrow> event \<Rightarrow> 'v store \<Rightarrow> 'z runtime_scheme \<Rightarrow>
   'v view \<times> 'v store \<times> 'z runtime_scheme" where
  "store_view_on rl stream effects st w =
     (let (st', w') = add_reader rl stream effects st w
      in (\<lparr>view_pre = child_rw st', war_dependency = None, sub_views = [],
           view_content = SharedValue (store_value st')\<rparr>, st', w'))"

definition store_view ::
  "realm \<Rightarrow> 'v store \<Rightarrow> 'z runtime_scheme \<Rightarrow> 'v view \<times> 'v store \<times> 'z runtime_scheme" where
  "store_view rl st w =
     (let (reader, w1) = invoke rl CreateUserEvent w;
          (st', w') = add_reader rl reader reader st w1
      in (\<lparr>view_pre = child_rw st', war_dependency = Some reader, sub_views = [],
           view_content = SharedValue (store_value st')\<rparr>, st', w'))"

definition view_HasPrecondition :: "'v view \<Rightarrow> bool" where
  "view_HasPrecondition v \<longleftrightarrow> view_pre v \<noteq> None"

definition view_Precondition :: "'v view \<Rightarrow> event" where
  "view_Precondition v = (case view_pre v of Some p \<Rightarrow> ep_effects p | None \<Rightarrow> NO_EVENT)"

definition view_StreamPrecondition :: "'v view \<Rightarrow> event" where
  "view_StreamPrecondition v = (case view_pre v of Some p \<Rightarrow> ep_stream p | None \<Rightarrow> NO_EVENT)"

definition view_get :: "'v view \<Rightarrow> 'v res" where
  "view_get v =
     (case view_content v of
        UnresolvedFuture \<Rightarrow>
          fail (RuntimeError ''cannot get value from View with unresolved Future'')
      | SharedValue p \<Rightarrow> (case p of Some x \<Rightarrow> ret x | None \<Rightarrow> fail (Undefined NullPointer))
      | OptionalValue p \<Rightarrow> (case p of Some x \<Rightarrow> ret x | None \<Rightarrow> fail BadAccess)
      | NullOptional \<Rightarrow> fail (Undefined NullPointer))"

definition store_get :: "'v store \<Rightarrow> 'v res" where
  "store_get st = (case store_value st of Some x \<Rightarrow> ret x | None \<Rightarrow> fail (Undefined NullPointer))"

text \<open>
  A move takes the events and the pointer but not the subviews: the new view has none, the old one
  keeps them. A moved-from variant keeps its alternative, with a null pointer in it.
\<close>

definition null_content :: "'v view_value \<Rightarrow> 'v view_value" where
  "null_content c = (case c of UnresolvedFuture \<Rightarrow> UnresolvedFuture
     | SharedValue p \<Rightarrow> SharedValue None | _ \<Rightarrow> NullOptional)"

definition view_move :: "'v view \<Rightarrow> 'v view \<times> 'v view" where
  "view_move v = (v\<lparr>sub_views := []\<rparr>,
     v\<lparr>war_dependency := None, view_content := null_content (view_content v)\<rparr>)"

definition view_view ::
  "realm \<Rightarrow> 'v view \<Rightarrow> 'z runtime_scheme \<Rightarrow> 'v view \<times> 'v view \<times> 'z runtime_scheme" where
  "view_view rl v w =
     (let (u, w') = invoke rl CreateUserEvent w
      in (v\<lparr>war_dependency := Some u, sub_views := []\<rparr>, v\<lparr>sub_views := sub_views v @ [u]\<rparr>, w'))"

definition view_view_on :: "event \<Rightarrow> 'v view \<Rightarrow> 'v view \<times> 'v view" where
  "view_view_on ev v =
     (v\<lparr>war_dependency := None, sub_views := []\<rparr>, v\<lparr>sub_views := sub_views v @ [ev]\<rparr>)"

definition view_DoneAfter :: "event \<Rightarrow> 'v view \<Rightarrow> 'v view" where
  "view_DoneAfter ev v = v\<lparr>sub_views := sub_views v @ [ev]\<rparr>"

section \<open>Release\<close>

text \<open>
  \<open>deferred_release\<close> counts a pending operation and has the utility processor drop the pointer
  after an event; the task that does so is \<open>deferred_release_shared_pointer\<close> of
  \<open>src/zuku/task.cc\<close>.
\<close>

definition deferred_release ::
  "realm \<Rightarrow> proc_tables \<Rightarrow> event \<Rightarrow> 'z runtime_scheme \<Rightarrow> 'z runtime_scheme res" where
  "deferred_release rl t wait_on w =
     (let w1 = IncPendingOp w in
      andThen (Util_proc t) (\<lambda>p. ret (command rl (SpawnRelease (pr_proc p) wait_on) w1)))"

definition deferred_release_shared_pointer :: "'z runtime_scheme \<Rightarrow> 'z runtime_scheme" where
  "deferred_release_shared_pointer w = DecPendingOp w"

text \<open>
  The destructors. \<open>delete_instances\<close> is the value type's \<open>DeferredDeleteInstances\<close>, \<open>None\<close>
  for a type without one.
\<close>

definition store_destroy ::
  "realm \<Rightarrow> proc_tables \<Rightarrow> ('v \<Rightarrow> event \<Rightarrow> 'z runtime_scheme \<Rightarrow> 'z runtime_scheme res) option \<Rightarrow>
   'v store \<Rightarrow> 'z runtime_scheme \<Rightarrow> 'z runtime_scheme res" where
  "store_destroy rl t delete_instances st w =
     (let w1 = (case parent_notification st of
                  Some u \<Rightarrow>
                    (let child_event = (case child_rw st of Some rw \<Rightarrow> ep_effects rw | None \<Rightarrow> NO_EVENT)
                     in command rl (TriggerEvent u child_event) w)
                | None \<Rightarrow> w)
      in andThen
           (case delete_instances of
              None \<Rightarrow> ret w1
            | Some delete \<Rightarrow>
                (case store_value st of
                   Some v \<Rightarrow>
                     if \<not> has_parent st \<and> store_HasPrecondition st
                     then (let (e, w2) = store_Precondition rl st w1 in delete v e w2)
                     else ret w1
                 | None \<Rightarrow> ret w1))
           (\<lambda>w3. case child_rw st of
              Some rw \<Rightarrow>
                if store_value st \<noteq> None then deferred_release rl t (ep_effects rw) w3 else ret w3
            | None \<Rightarrow> ret w3))"

definition view_destroy ::
  "realm \<Rightarrow> proc_tables \<Rightarrow> 'v view \<Rightarrow> 'z runtime_scheme \<Rightarrow> 'z runtime_scheme res" where
  "view_destroy rl t v w =
     (case war_dependency v of
        None \<Rightarrow> ret w
      | Some u \<Rightarrow>
          (let (e, w1) = (if sub_views v = [] then (NO_EVENT, w)
                          else invoke rl (MergeEvents (sub_views v)) w);
               w2 = command rl (TriggerEvent u e) w1
           in if sub_views v = [] then ret w2 else deferred_release rl t e w2))"

section \<open>What the preconditions cover\<close>

lemmas store_ops = store_ReadyAfter_def store_ReadyAfter2_def store_child_on_def store_child_def
  add_reader_def store_view_on_def store_view_def store_Precondition_def

lemma store_Precondition_extends:
  "store_Precondition rl st w = (e, w') \<Longrightarrow> extends (trace_of w') (trace_of w)"
  by (auto simp: store_Precondition_def merge2_def invoke_def split: option.splits)

lemma store_ReadyAfter2_extends:
  "store_ReadyAfter2 rl s e st w = (st', w') \<Longrightarrow> extends (trace_of w') (trace_of w)"
  by (auto simp: store_ReadyAfter2_def merge2_def invoke_def split: option.splits prod.splits)

lemma add_reader_extends:
  "add_reader rl s e st w = (st', w') \<Longrightarrow> extends (trace_of w') (trace_of w)"
  by (auto simp: add_reader_def merge2_def invoke_def split: option.splits prod.splits)

text \<open>
  An access's completion event is covered when whoever waits for the store's events comes after it:
  for writing, both events count, for reading only the earlier writes do.
\<close>

context event_order
begin

definition covered_write :: "trace \<Rightarrow> 'v store \<Rightarrow> event \<Rightarrow> bool" where
  "covered_write tr st d \<longleftrightarrow> (\<exists>rw. child_rw st = Some rw \<and> after tr (ep_effects rw) d)"

definition covered_read :: "trace \<Rightarrow> 'v store \<Rightarrow> event \<Rightarrow> bool" where
  "covered_read tr st d \<longleftrightarrow>
     covered_write tr st d \<or> (\<exists>war. war_pre st = Some war \<and> after tr (ep_effects war) d)"

lemma covered_extends:
  assumes "extends tr' tr"
  shows "covered_write tr st d \<Longrightarrow> covered_write tr' st d"
    and "covered_read tr st d \<Longrightarrow> covered_read tr' st d"
  using after_extends[OF assms] unfolding covered_write_def covered_read_def by blast+

lemma merge2_after_trans:
  assumes "merge2 rl a b w = (e, w')"
  shows "after (trace_of w) a d \<Longrightarrow> after (trace_of w') e d"
    and "after (trace_of w) b d \<Longrightarrow> after (trace_of w') e d"
  using merge2_after[OF assms] after_extends[OF merge2_extends[OF assms]] after_trans by blast+

lemma ReadyAfter2_covers:
  assumes "store_ReadyAfter2 rl stream effects st w = (st', w')"
  shows "covered_write (trace_of w') st' effects"
    and "covered_write (trace_of w) st d \<Longrightarrow> covered_write (trace_of w') st' d"
proof -
  show "covered_write (trace_of w') st' effects"
  proof (cases "child_rw st")
    case None
    then show ?thesis
      using assms after_refl by (auto simp: store_ReadyAfter2_def covered_write_def)
  next
    case (Some rw)
    then obtain e w1 s where m: "merge2 rl effects (ep_effects rw) w = (e, w1)"
      "merge2 rl stream (ep_stream rw) w1 = (s, w')"
      and st': "child_rw st' = Some \<lparr>ep_stream = s, ep_effects = e\<rparr>"
      using assms by (auto simp: store_ReadyAfter2_def split: prod.splits)
    have "after (trace_of w') e effects"
      using after_extends[OF merge2_extends[OF m(2)]] merge2_after(1)[OF m(1)] .
    then show ?thesis using st' by (simp add: covered_write_def)
  qed
  assume old: "covered_write (trace_of w) st d"
  then obtain rw where rw: "child_rw st = Some rw" "after (trace_of w) (ep_effects rw) d"
    by (auto simp: covered_write_def)
  then obtain e w1 s where m: "merge2 rl effects (ep_effects rw) w = (e, w1)"
    "merge2 rl stream (ep_stream rw) w1 = (s, w')"
    and st': "child_rw st' = Some \<lparr>ep_stream = s, ep_effects = e\<rparr>"
    using assms by (auto simp: store_ReadyAfter2_def split: prod.splits)
  have "after (trace_of w') e d"
    using after_extends[OF merge2_extends[OF m(2)]] merge2_after_trans(2)[OF m(1) rw(2)] .
  then show "covered_write (trace_of w') st' d" using st' by (simp add: covered_write_def)
qed

lemma add_reader_covers:
  assumes "add_reader rl stream effects st w = (st', w')"
  shows "covered_read (trace_of w') st' effects"
    and "covered_read (trace_of w) st d \<Longrightarrow> covered_read (trace_of w') st' d"
    and "covered_write (trace_of w) st d \<Longrightarrow> covered_write (trace_of w') st' d"
    and "child_rw st' = child_rw st"
proof -
  show rw: "child_rw st' = child_rw st"
    using assms by (auto simp: add_reader_def split: option.splits prod.splits)
  have ext: "extends (trace_of w') (trace_of w)" using assms by (rule add_reader_extends)
  show *: "covered_write (trace_of w') st' d" if "covered_write (trace_of w) st d" for d
    using covered_extends(1)[OF ext that] rw by (simp add: covered_write_def)
  show "covered_read (trace_of w') st' effects"
  proof (cases "war_pre st")
    case None
    then show ?thesis using assms after_refl by (auto simp: add_reader_def covered_read_def)
  next
    case (Some war)
    then obtain e w1 s where m: "merge2 rl (ep_effects war) effects w = (e, w1)"
      "merge2 rl (ep_stream war) stream w1 = (s, w')"
      and st': "war_pre st' = Some \<lparr>ep_stream = s, ep_effects = e\<rparr>"
      using assms by (auto simp: add_reader_def split: prod.splits)
    have "after (trace_of w') e effects"
      using after_extends[OF merge2_extends[OF m(2)]] merge2_after(2)[OF m(1)] .
    then show ?thesis using st' by (simp add: covered_read_def)
  qed
  assume "covered_read (trace_of w) st d"
  then consider "covered_write (trace_of w) st d"
    | war where "war_pre st = Some war" "after (trace_of w) (ep_effects war) d"
    by (auto simp: covered_read_def)
  then show "covered_read (trace_of w') st' d"
  proof cases
    case 1
    then show ?thesis using * by (simp add: covered_read_def)
  next
    case 2
    then obtain e w1 s where m: "merge2 rl (ep_effects war) effects w = (e, w1)"
      "merge2 rl (ep_stream war) stream w1 = (s, w')"
      and st': "war_pre st' = Some \<lparr>ep_stream = s, ep_effects = e\<rparr>"
      using assms by (auto simp: add_reader_def split: prod.splits)
    have "after (trace_of w') e d"
      using after_extends[OF merge2_extends[OF m(2)]] merge2_after_trans(1)[OF m(1) 2(2)] .
    then show ?thesis using st' by (simp add: covered_read_def)
  qed
qed

lemma Precondition_after:
  assumes "store_Precondition rl st w = (e, w')" and "covered_read (trace_of w) st d"
  shows "after (trace_of w') e d"
  using assms merge2_after_trans[of rl _ _ w]
  by (auto simp: store_Precondition_def covered_read_def covered_write_def
      split: option.splits prod.splits)

end

section \<open>Releasing a view\<close>

text \<open>A process with one utility processor, enough to run the deferred releases.\<close>

definition util_tables :: proc_tables where
  "util_tables = no_tables\<lparr>local_procs := (\<lambda>t. if t = UTIL
     then [\<lparr>pr_type = UTIL, pr_proc = 7, local_id = 0, global_id = 0\<rparr>] else [])\<rparr>"

lemma Util_proc_util_tables [simp]:
  "Util_proc util_tables = ret \<lparr>pr_type = UTIL, pr_proc = 7, local_id = 0, global_id = 0\<rparr>"
  by (simp add: Util_proc_def Processor_Create_def GetProc_def util_tables_def value_or_def
      size_of_def vec_at_def)

lemma deferred_release_ok:
  "deferred_release rl t e w = ret w' \<Longrightarrow> extends (trace_of w') (trace_of w)"
  by (auto simp: deferred_release_def andThen_eq_ret)

text \<open>
  What the owner of a view does with it: add an operation that reads it, lend it for good to a task
  that ends with an event, or lend it to somebody who gives it back by destroying the subview. The
  events are those after which the reads have ended.
\<close>

datatype view_use = AddOperation event | LendUntil event | Lend

fun use_view ::
  "realm \<Rightarrow> view_use list \<Rightarrow> 'v view \<Rightarrow> 'z runtime_scheme \<Rightarrow>
   event option list \<times> 'v view \<times> 'z runtime_scheme" where
  "use_view rl [] v w = ([], v, w)"
| "use_view rl (AddOperation ev # uses) v w =
     (let (es, v', w') = use_view rl uses (view_DoneAfter ev v) w in (Some ev # es, v', w'))"
| "use_view rl (LendUntil ev # uses) v w =
     (let (sub, v1) = view_view_on ev v; (es, v', w') = use_view rl uses v1 w
      in (Some ev # es, v', w'))"
| "use_view rl (Lend # uses) v w =
     (let (sub, v1, w1) = view_view rl v w; (es, v', w') = use_view rl uses v1 w1
      in (war_dependency sub # es, v', w'))"

lemma use_view_kept:
  "use_view rl uses v w = (es, v', w') \<Longrightarrow> war_dependency v' = war_dependency v \<and>
     set (sub_views v') = set (sub_views v) \<union> {e. Some e \<in> set es}"
proof (induction uses arbitrary: v w es)
  case (Cons a uses)
  obtain es' v1 w1 e where "use_view rl uses v1 w1 = (es', v', w')" and "es = e # es'"
    and "war_dependency v1 = war_dependency v" and "set (sub_views v1) = set (sub_views v) \<union> {x. e = Some x}"
    using Cons.prems
    by (cases a) (auto simp: view_DoneAfter_def view_view_on_def view_view_def split: prod.splits)
  with Cons.IH show ?case by auto
qed simp

text \<open>
  C26. Releasing a reader: when a view that owes its store a notification is destroyed after any uses,
  the event the store waits on comes after every operation that was added and every subview that
  was lent.
\<close>

theorem view_release_complete:
  assumes "use_view rl uses v w = (es, v', w1)" and "war_dependency v = Some u"
    and "view_destroy rl t v' w1 = ret w'" and "Some x \<in> set es"
  shows "depends (trace_of w') u x"
proof -
  have u: "war_dependency v' = Some u" and x: "x \<in> set (sub_views v')"
    using use_view_kept[OF assms(1)] assms(2,4) by auto
  let ?m = "invoke rl (MergeEvents (sub_views v')) w1"
  let ?w2 = "command rl (TriggerEvent u (fst ?m)) (snd ?m)"
  have "deferred_release rl t (fst ?m) ?w2 = ret w'"
    using u x assms(3) by (auto simp: view_destroy_def Let_def split: prod.splits if_splits)
  then have ext: "extends (trace_of w') (trace_of ?w2)" by (rule deferred_release_ok)
  have "depends (trace_of ?w2) u (fst ?m)" by (intro deps.after_trigger) auto
  also have "depends (trace_of ?w2) (fst ?m) x"
    using x by (intro deps.after_merge[of "sub_views v'"]) auto
  finally show ?thesis using ext depends_extends by blast
qed

theorem view_release_complete_witness:
  "\<exists>v' w'. use_view fresh_realm [AddOperation 50, LendUntil 60, AddOperation 70]
          \<lparr>view_pre = None, war_dependency = Some 40, sub_views = [],
           view_content = SharedValue (Some ())\<rparr> \<lparr>trace_of = [], pending_ops = 0\<rparr> =
        ([Some 50, Some 60, Some 70], v', \<lparr>trace_of = [], pending_ops = 0\<rparr>) \<and>
     view_destroy fresh_realm util_tables v' \<lparr>trace_of = [], pending_ops = 0\<rparr> = ret w' \<and>
     depends (trace_of w') 40 60"
proof -
  let ?w = "\<lparr>trace_of = [], pending_ops = 0\<rparr> :: runtime"
  let ?v = "\<lparr>view_pre = None, war_dependency = Some 40, sub_views = [],
    view_content = SharedValue (Some ())\<rparr>"
  let ?uses = "[AddOperation 50, LendUntil 60, AddOperation 70]"
  obtain v' where u: "use_view fresh_realm ?uses ?v ?w = ([Some 50, Some 60, Some 70], v', ?w)"
    and v': "war_dependency v' = Some 40" "sub_views v' = [50, 60, 70]"
    by (simp add: view_DoneAfter_def view_view_on_def)
  obtain w' :: runtime where w': "view_destroy fresh_realm util_tables v' ?w = ret w'"
    by (simp add: view_destroy_def v' deferred_release_def invoke_def Let_def split: prod.splits)
  have "depends (trace_of w') 40 60"
    using view_release_complete[OF u _ w', of 40 60] by simp
  then show ?thesis using u w' by blast
qed

text \<open>
  What the release does not cover. The move constructor of \<open>View\<close> leaves \<open>views_\<close> behind and
  clears the old notification, so a view that is moved forgets its subviews: the store's event is
  triggered with \<open>NO_EVENT\<close> although the subview with event 50 has not ended.
\<close>

lemma moved_view_forgets:
  "view_destroy fresh_realm util_tables
     (fst (view_move (view_DoneAfter 50 \<lparr>view_pre = None, war_dependency = Some 40,
        sub_views = [], view_content = SharedValue (Some ())\<rparr>)))
     \<lparr>trace_of = [], pending_ops = 0\<rparr> =
   ret \<lparr>trace_of = [(TriggerEvent 40 NO_EVENT, 1)], pending_ops = 0\<rparr>"
  by (simp add: view_destroy_def view_move_def view_DoneAfter_def command_def invoke_def
      fresh_realm_def)

text \<open>
  The destructor of a child store notifies its parent after the child's writes, not after its
  readers: a parent whose child was read with event 200 may be written before that read ends.
\<close>

lemma child_reader_unordered:
  "\<exists>c st c' v w1 w2 w3 e w4.
     store_child fresh_realm (Store_DeferredCreate 100 ()) \<lparr>trace_of = [], pending_ops = 0\<rparr> =
       (c, st, w1) \<and>
     store_view_on fresh_realm 200 200 c w1 = (v, c', w2) \<and>
     store_destroy fresh_realm util_tables None c' w2 = ret w3 \<and>
     store_Precondition fresh_realm st w3 = (e, w4) \<and> \<not> depends (trace_of w4) e 200"
proof -
  let ?w0 = "\<lparr>trace_of = [], pending_ops = 0\<rparr>"
  let ?tr = "[(CreateUserEvent, 1), (MergeEvents [1, 100], 2), (MergeEvents [1, 100], 3),
    (TriggerEvent 1 100, 4), (SpawnRelease 7 100, 5)] :: trace"
  have "waits ?tr = {(2, 1), (2, 100), (3, 1), (3, 100), (1, 100)}"
    by (auto simp: waits_Cons)
  then have "\<not> depends ?tr 2 200" using depends_range[of ?tr 2 200] by auto
  then show ?thesis
    by (simp add: store_ops store_destroy_def deferred_release_def merge2_def invoke_def
        fresh_realm_def command_def Store_DeferredCreate_def IncPendingOp_def
        numeral_2_eq_2 [symmetric])
qed

text \<open>
  \<open>Wait\<close> forgets the events, and without them the destructor does not delete the instances: a
  store that is waited for before it goes out of scope keeps its instance allocated.
\<close>

lemma waited_store_leaks:
  "parent_notification st = None \<Longrightarrow>
   store_destroy rl t (Some delete) (fst (store_Wait rl st w)) (snd (store_Wait rl st w)) =
   ret (snd (store_Wait rl st w))"
  by (auto simp: store_Wait_def store_destroy_def store_HasPrecondition_def Let_def
      split: option.splits)

end
