(* ===== verification/Future_Views.thy ===== *)
theory Future_Views
  imports Store
begin

text \<open>
  The events of a \<open>Future\<close> of \<open>src/zuku/future.h\<close> and the views lent of it. A future holds a shared
  pointer: to an optional that a task fills in, or, when the task itself returns a future, to a future
  that is resolved later. A pointer is an address, \<open>None\<close> the null pointer; \<open>Futures\<close> has the memory.
\<close>

section \<open>Futures\<close>

text \<open>
  The third alternative of \<open>Future::Value\<close>, \<open>std::shared_ptr<T>\<close>, is only used by the views of a
  store and never by a future.
\<close>

datatype future_value = FuturePtr "nat option" | OptionalPtr "nat option"

record future =
  fut_pre :: "event option"
  fut_war :: "event option"
  fut_value :: future_value

definition Future_of_optional :: "event \<Rightarrow> nat option \<Rightarrow> future" where
  "Future_of_optional ev c = \<lparr>fut_pre = Some ev, fut_war = None, fut_value = OptionalPtr c\<rparr>"

definition Future_of_future :: "event \<Rightarrow> nat option \<Rightarrow> future" where
  "Future_of_future ev a = \<lparr>fut_pre = Some ev, fut_war = None, fut_value = FuturePtr a\<rparr>"

definition Future_CreateEmpty :: future where
  \<comment> \<open>a variant starts with its first alternative, the null pointer to a future\<close>
  "Future_CreateEmpty = \<lparr>fut_pre = None, fut_war = None, fut_value = FuturePtr None\<rparr>"

fun null_of :: "future_value \<Rightarrow> future_value" where
  "null_of (FuturePtr a) = FuturePtr None"
| "null_of (OptionalPtr c) = OptionalPtr None"

definition Future_move :: "future \<Rightarrow> future \<times> future" where
  \<comment> \<open>the default: the events are copied, the pointer is taken\<close>
  "Future_move f = (f, f\<lparr>fut_value := null_of (fut_value f)\<rparr>)"

definition Future_HasPrecondition :: "future \<Rightarrow> bool" where
  "Future_HasPrecondition f \<longleftrightarrow> fut_pre f \<noteq> None \<or> fut_war f \<noteq> None"

definition Future_Precondition :: "future \<Rightarrow> event" where
  "Future_Precondition f = (case fut_war f of Some e \<Rightarrow> e
     | None \<Rightarrow> (case fut_pre f of Some e \<Rightarrow> e | None \<Rightarrow> NO_EVENT))"

definition Future_emplace :: "nat option \<Rightarrow> future \<Rightarrow> future" where
  "Future_emplace c f = f\<lparr>fut_value := OptionalPtr c\<rparr>"

definition HasDeferredValue :: "future \<Rightarrow> bool" where
  "HasDeferredValue f \<longleftrightarrow> (case fut_value f of FuturePtr a \<Rightarrow> True | OptionalPtr c \<Rightarrow> False)"

text \<open>
  A view of a future: the events as in \<open>Store\<close>, and the future's pointer, which it reads through when
  the task runs.
\<close>

record future_view =
  fv_events :: "unit view"
  fv_value :: future_value

definition both_events :: "event option \<Rightarrow> event_precondition option" where
  "both_events pre = map_option (\<lambda>e. \<lparr>ep_stream = e, ep_effects = e\<rparr>) pre"

definition Future_view_after ::
  "realm \<Rightarrow> event \<Rightarrow> event option \<Rightarrow> future \<Rightarrow> 'z runtime_scheme \<Rightarrow>
   future_view \<times> future \<times> 'z runtime_scheme" where
  \<comment> \<open>the part the two \<open>view\<close> members share\<close>
  "Future_view_after rl reader owed f w =
     (let (war, w') = (case fut_war f of Some e \<Rightarrow> merge2 rl e reader w | None \<Rightarrow> (reader, w))
      in (\<lparr>fv_events = \<lparr>view_pre = both_events (fut_pre f), war_dependency = owed, sub_views = [],
             view_content = SharedValue (Some ())\<rparr>, fv_value = fut_value f\<rparr>,
          f\<lparr>fut_war := Some war\<rparr>, w'))"

definition Future_view ::
  "realm \<Rightarrow> future \<Rightarrow> 'z runtime_scheme \<Rightarrow> future_view \<times> future \<times> 'z runtime_scheme" where
  "Future_view rl f w =
     (let (reader, w1) = invoke rl CreateUserEvent w in Future_view_after rl reader (Some reader) f w1)"

definition Future_view_on ::
  "realm \<Rightarrow> event \<Rightarrow> future \<Rightarrow> 'z runtime_scheme \<Rightarrow> future_view \<times> future \<times> 'z runtime_scheme" where
  "Future_view_on rl ev f w = Future_view_after rl ev None f w"

definition future_view_move :: "future_view \<Rightarrow> future_view \<times> future_view" where
  "future_view_move v =
     (let (ev, rest) = view_move (fv_events v)
      in (v\<lparr>fv_events := ev\<rparr>, v\<lparr>fv_events := rest, fv_value := null_of (fv_value v)\<rparr>))"

section \<open>Who waits for a future\<close>

text \<open>
  A future is covered by the end of a reader when whoever takes the future over waits for it. The move
  leaves the events behind, so that holds for the variable as well as for what was moved out of it.
\<close>

lemma Future_move_events [simp]:
  "fst (Future_move f) = f" "fut_pre (snd (Future_move f)) = fut_pre f" "fut_war (snd (Future_move f)) = fut_war f"
  by (simp_all add: Future_move_def)

context event_order
begin

definition covered_future :: "trace \<Rightarrow> future \<Rightarrow> event \<Rightarrow> bool" where
  "covered_future tr f d \<longleftrightarrow> (\<exists>e. fut_war f = Some e \<and> after tr e d)"

lemma covered_future_extends: "extends tr' tr \<Longrightarrow> covered_future tr f d \<Longrightarrow> covered_future tr' f d"
  using after_extends unfolding covered_future_def by blast

lemma covered_future_move [simp]: "covered_future tr (snd (Future_move f)) d = covered_future tr f d"
  by (simp add: covered_future_def)

lemma covered_future_precondition:
  "covered_future tr f d \<Longrightarrow> Future_HasPrecondition f \<and> after tr (Future_Precondition f) d"
  by (auto simp: covered_future_def Future_HasPrecondition_def Future_Precondition_def)

lemma Future_view_on_covers:
  assumes "Future_view_on rl ev f w = (v, f', w')"
  shows "extends (trace_of w') (trace_of w)" and "fut_pre f' = fut_pre f"
    and "view_pre (fv_events v) = both_events (fut_pre f)"
    and "covered_future (trace_of w') f' ev"
    and "covered_future (trace_of w) f d \<Longrightarrow> covered_future (trace_of w') f' d"
proof -
  obtain war where war: "(case fut_war f of Some e \<Rightarrow> merge2 rl e ev w | None \<Rightarrow> (ev, w)) = (war, w')"
    and f': "f' = f\<lparr>fut_war := Some war\<rparr>" and v: "view_pre (fv_events v) = both_events (fut_pre f)"
    using assms by (auto simp: Future_view_on_def Future_view_after_def split: prod.splits)
  show "fut_pre f' = fut_pre f" and "view_pre (fv_events v) = both_events (fut_pre f)" using f' v by simp_all
  show "extends (trace_of w') (trace_of w)" using war merge2_extends by (auto split: option.splits)
  show "covered_future (trace_of w') f' ev"
    using war f' merge2_after(2) after_refl by (auto simp: covered_future_def split: option.splits)
  assume "covered_future (trace_of w) f d"
  then obtain e where "fut_war f = Some e" "after (trace_of w) e d" by (auto simp: covered_future_def)
  then show "covered_future (trace_of w') f' d"
    using war f' merge2_after_trans(1) by (auto simp: covered_future_def)
qed

end

end
