(* ===== verification/Tasks.thy ===== *)
theory Tasks
  imports Future_Views
begin

text \<open>
  Launching tasks: \<open>src/zuku/defer.h\<close> (\<open>Context\<close>, \<open>_defer\<close>, \<open>defer\<close>), the construction of
  \<open>src/zuku/task.h\<close>'s \<open>Task\<close>, \<open>src/zuku/task_base.h\<close>, the argument conversions
  \<open>ToTaskArgument\<close> of \<open>src/zuku/store.h\<close> and \<open>src/zuku/future.h\<close>, and
  \<open>src/zuku/barrier.h\<close>. The theorems say which tasks wait for which.
\<close>

section \<open>Contexts\<close>

text \<open>
  A context is a list of fields, the latest in front; a field is found by its type. Keeping a field
  by reference, as \<open>drop\<close> on an lvalue does, changes its type to a reference type, and the search
  for the plain type no longer finds it: the flag.
\<close>

datatype field =
    FieldProcessor processor
  | FieldGroup "processor list"
  | FieldControl event
  | FieldStreamOrdered
  | FieldEvent event
  | FieldPriority int
  | FieldDevices device_list
  | FieldRegion string
  | FieldBarrier nat

type_synonym task_context = "(bool \<times> field) list"

fun as_processor :: "field \<Rightarrow> processor option" where
  "as_processor (FieldProcessor p) = Some p" | "as_processor _ = None"
fun as_group :: "field \<Rightarrow> processor list option" where
  "as_group (FieldGroup g) = Some g" | "as_group _ = None"
fun as_control :: "field \<Rightarrow> event option" where
  "as_control (FieldControl e) = Some e" | "as_control _ = None"
fun as_stream_ordered :: "field \<Rightarrow> unit option" where
  "as_stream_ordered FieldStreamOrdered = Some ()" | "as_stream_ordered _ = None"
fun as_event :: "field \<Rightarrow> event option" where
  "as_event (FieldEvent e) = Some e" | "as_event _ = None"
fun as_priority :: "field \<Rightarrow> int option" where
  "as_priority (FieldPriority n) = Some n" | "as_priority _ = None"
fun as_devices :: "field \<Rightarrow> device_list option" where
  "as_devices (FieldDevices d) = Some d" | "as_devices _ = None"
fun as_region :: "field \<Rightarrow> string option" where
  "as_region (FieldRegion s) = Some s" | "as_region _ = None"
fun as_barrier :: "field \<Rightarrow> nat option" where
  "as_barrier (FieldBarrier b) = Some b" | "as_barrier _ = None"

fun context_value :: "(field \<Rightarrow> 'a option) \<Rightarrow> task_context \<Rightarrow> 'a option" where
  "context_value as [] = None"
| "context_value as ((by_ref, f) # ctx) =
     (if by_ref then context_value as ctx
      else case as f of Some x \<Rightarrow> Some x | None \<Rightarrow> context_value as ctx)"

definition context_add :: "field \<Rightarrow> task_context \<Rightarrow> task_context" where
  "context_add f ctx = (False, f) # ctx"

definition ctx_on :: "processor \<Rightarrow> task_context \<Rightarrow> task_context" where
  "ctx_on p = context_add (FieldProcessor p)"
definition ctx_on_group :: "processor list \<Rightarrow> task_context \<Rightarrow> task_context" where
  "ctx_on_group g = context_add (FieldGroup g)"
definition ctx_after :: "event \<Rightarrow> task_context \<Rightarrow> task_context" where
  "ctx_after e = context_add (FieldEvent e)"
definition ctx_priority :: "int \<Rightarrow> task_context \<Rightarrow> task_context" where
  "ctx_priority n = context_add (FieldPriority n)"
definition ctx_across :: "device_list \<Rightarrow> task_context \<Rightarrow> task_context" where
  "ctx_across d = context_add (FieldDevices d)"
definition ctx_region :: "string \<Rightarrow> task_context \<Rightarrow> task_context" where
  "ctx_region s = context_add (FieldRegion s)"
definition ctx_sync_to :: "nat \<Rightarrow> task_context \<Rightarrow> task_context" where
  "ctx_sync_to b = context_add (FieldBarrier b)"

definition split_control_execution ::
  "realm \<Rightarrow> task_context \<Rightarrow> 'z runtime_scheme \<Rightarrow> task_context \<times> 'z runtime_scheme" where
  "split_control_execution rl ctx w =
     (let (u, w') = invoke rl CreateUserEvent w in (context_add (FieldControl u) ctx, w'))"

definition stream_ordered ::
  "realm \<Rightarrow> task_context \<Rightarrow> 'z runtime_scheme \<Rightarrow> task_context \<times> 'z runtime_scheme" where
  "stream_ordered rl ctx w = split_control_execution rl (context_add FieldStreamOrdered ctx) w"

definition ctx_drop_group :: "task_context \<Rightarrow> task_context" where
  \<comment> \<open>\<open>drop\<close> on an lvalue for the type \<open>ProcessorGroup\<close>: what is kept is kept by reference\<close>
  "ctx_drop_group ctx =
     map (\<lambda>(by_ref, f). (True, f)) (filter (\<lambda>(by_ref, f). by_ref \<or> as_group f = None) ctx)"

section \<open>Arguments\<close>

text \<open>
  What a task does with an argument: \<open>Write\<close> is a store passed for \<open>T&\<close>, \<open>Read\<close> a store passed
  for \<open>T\<close> or \<open>const T&\<close>, \<open>Child\<close> and \<open>Reader\<close> a store passed for a \<open>Store\<close> or
  \<open>View\<close>, \<open>SubReader\<close> a view passed for a \<open>View\<close>, \<open>ReadFuture\<close> a future passed for \<open>T\<close>.
  \<open>GiveStore\<close>, \<open>GiveView\<close> and \<open>GiveFuture\<close> are rvalues moved into the task; the flag says that the
  parameter is a \<open>Store\<close>, \<open>View\<close> or \<open>Future\<close> itself and not the value. \<open>Plain\<close> is everything else.
  The numbers are the program's variables. A vector argument is converted element by element, in order,
  so it is a run of arguments that carry the flag; the list is in the order in which the compiler
  evaluates the conversions.
\<close>

datatype access =
    Write nat | Read nat | Child nat | Reader nat | SubReader nat | ReadFuture nat
  | GiveStore nat bool | GiveView nat bool | GiveFuture nat bool | Plain

type_synonym task_args = "(bool \<times> access) list"

datatype 'v stored_arg =
    StoredStore "'v store" | StoredView "'v view" | StoredFutureView future_view | StoredFuture future
  | StoredPlain

record 'v frame =
  fr_stores :: "'v store list"
  fr_views :: "'v view list"
  fr_futures :: "future list"
  fr_barriers :: "event list list"

definition set_store :: "'v frame \<Rightarrow> nat \<Rightarrow> 'v store \<Rightarrow> 'v frame" where
  "set_store fr k st = fr\<lparr>fr_stores := (fr_stores fr)[k := st]\<rparr>"

definition set_view :: "'v frame \<Rightarrow> nat \<Rightarrow> 'v view \<Rightarrow> 'v frame" where
  "set_view fr k v = fr\<lparr>fr_views := (fr_views fr)[k := v]\<rparr>"

definition set_future :: "'v frame \<Rightarrow> nat \<Rightarrow> future \<Rightarrow> 'v frame" where
  "set_future fr k f = fr\<lparr>fr_futures := (fr_futures fr)[k := f]\<rparr>"

definition future_to_argument ::
  "realm \<Rightarrow> event \<Rightarrow> nat \<Rightarrow> 'v frame \<Rightarrow> 'z runtime_scheme \<Rightarrow>
   ('v stored_arg \<times> 'v frame \<times> 'z runtime_scheme) res" where
  [simp]: "future_to_argument rl effects k fr w =
     andThen (vec_at (fr_futures fr) (int k)) (\<lambda>f.
       let (v, f', w') = Future_view_on rl effects f w
       in ret (StoredFutureView v, set_future fr k f', w'))"

definition ToTaskArgument ::
  "realm \<Rightarrow> event \<Rightarrow> event \<Rightarrow> access \<Rightarrow> 'v frame \<Rightarrow> 'z runtime_scheme \<Rightarrow>
   ('v stored_arg \<times> 'v frame \<times> 'z runtime_scheme) res" where
  "ToTaskArgument rl stream effects a fr w =
     (case a of
        Write k \<Rightarrow> andThen (vec_at (fr_stores fr) (int k)) (\<lambda>st.
          let (c, st', w') = store_child_on rl stream effects st w
          in ret (StoredStore c, set_store fr k st', w'))
      | Read k \<Rightarrow> andThen (vec_at (fr_stores fr) (int k)) (\<lambda>st.
          let (v, st', w') = store_view_on rl stream effects st w
          in ret (StoredView v, set_store fr k st', w'))
      | Child k \<Rightarrow> andThen (vec_at (fr_stores fr) (int k)) (\<lambda>st.
          let (c, st', w') = store_child rl st w
          in ret (StoredStore c, set_store fr k st', w'))
      | Reader k \<Rightarrow> andThen (vec_at (fr_stores fr) (int k)) (\<lambda>st.
          let (v, st', w') = store_view rl st w
          in ret (StoredView v, set_store fr k st', w'))
      | SubReader k \<Rightarrow> andThen (vec_at (fr_views fr) (int k)) (\<lambda>v.
          let (sub, v', w') = view_view rl v w
          in ret (StoredView sub, set_view fr k v', w'))
      | ReadFuture k \<Rightarrow> future_to_argument rl effects k fr w
      | GiveStore k whole \<Rightarrow> andThen (vec_at (fr_stores fr) (int k)) (\<lambda>st.
          let (st1, st2) = Store_move st in ret (StoredStore st1, set_store fr k st2, w))
      | GiveView k whole \<Rightarrow> andThen (vec_at (fr_views fr) (int k)) (\<lambda>v.
          let (v1, v2) = view_move v in ret (StoredView v1, set_view fr k v2, w))
      | GiveFuture k whole \<Rightarrow> andThen (vec_at (fr_futures fr) (int k)) (\<lambda>f.
          let (f1, f2) = Future_move f in ret (StoredFuture f1, set_future fr k f2, w))
      | Plain \<Rightarrow> ret (StoredPlain, fr, w))"

fun StoreArgsAndSetPostcondition ::
  "realm \<Rightarrow> event \<Rightarrow> event \<Rightarrow> task_args \<Rightarrow> 'v frame \<Rightarrow> 'z runtime_scheme \<Rightarrow>
   ((bool \<times> 'v stored_arg) list \<times> 'v frame \<times> 'z runtime_scheme) res" where
  "StoreArgsAndSetPostcondition rl stream effects [] fr w = ret ([], fr, w)"
| "StoreArgsAndSetPostcondition rl stream effects ((in_vector, a) # args) fr w =
     andThen (ToTaskArgument rl stream effects a fr w) (\<lambda>(s, fr1, w1).
     andThen (StoreArgsAndSetPostcondition rl stream effects args fr1 w1) (\<lambda>(ss, fr2, w2).
     ret ((in_vector, s) # ss, fr2, w2)))"

section \<open>Preconditions of a task\<close>

record task_base =
  individual_preconditions :: "event set"
  merged_precondition :: "event option"

definition new_task_base :: task_base where
  "new_task_base = \<lparr>individual_preconditions = {}, merged_precondition = None\<rparr>"

definition AddPrecondition :: "event \<Rightarrow> task_base \<Rightarrow> task_base" where
  "AddPrecondition e b = b\<lparr>individual_preconditions := insert e (individual_preconditions b)\<rparr>"

definition MergePreconditions ::
  "realm \<Rightarrow> task_base \<Rightarrow> 'z runtime_scheme \<Rightarrow> (task_base \<times> 'z runtime_scheme) res" where
  "MergePreconditions rl b w =
     (if merged_precondition b \<noteq> None then fail (RuntimeError ''already merged preconditions'')
      else if individual_preconditions b = {} then ret (b, w)
      else if card (individual_preconditions b) = 1
      then ret (\<lparr>individual_preconditions = {},
                 merged_precondition = Some (the_elem (individual_preconditions b))\<rparr>, w)
      else (let (e, w') = merge_set rl (individual_preconditions b) w
            in ret (\<lparr>individual_preconditions = {}, merged_precondition = Some e\<rparr>, w')))"

definition AddDeferredPrecondition ::
  "realm \<Rightarrow> bool \<Rightarrow> 'v stored_arg \<Rightarrow> task_base \<Rightarrow> 'z runtime_scheme \<Rightarrow>
   task_base \<times> 'z runtime_scheme" where
  "AddDeferredPrecondition rl is_stream_ordered a b w =
     (case a of
        StoredStore st \<Rightarrow>
          if store_HasPrecondition st
          then (let (e, w') = (if is_stream_ordered then store_StreamPrecondition rl st w
                               else store_Precondition rl st w)
                in (AddPrecondition e b, w'))
          else (b, w)
      | StoredView v \<Rightarrow>
          if view_HasPrecondition v
          then (AddPrecondition (if is_stream_ordered then view_StreamPrecondition v
                                 else view_Precondition v) b, w)
          else (b, w)
      | StoredFutureView fv \<Rightarrow>
          if view_HasPrecondition (fv_events fv)
          then (AddPrecondition (if is_stream_ordered then view_StreamPrecondition (fv_events fv)
                                 else view_Precondition (fv_events fv)) b, w)
          else (b, w)
      | StoredFuture f \<Rightarrow>
          if Future_HasPrecondition f then (AddPrecondition (Future_Precondition f) b, w) else (b, w)
      | StoredPlain \<Rightarrow> (b, w))"

fun AddTaskDependencies ::
  "realm \<Rightarrow> bool \<Rightarrow> (bool \<times> 'v stored_arg) list \<Rightarrow> task_base \<Rightarrow> 'z runtime_scheme \<Rightarrow>
   task_base \<times> 'z runtime_scheme" where
  "AddTaskDependencies rl is_stream_ordered [] b w = (b, w)"
| "AddTaskDependencies rl is_stream_ordered ((in_vector, a) # ss) b w =
     (let (b1, w1) = AddDeferredPrecondition rl is_stream_ordered a b w
      in AddTaskDependencies rl is_stream_ordered ss b1 w1)"

text \<open>
  What a task returns decides its promises: a value is written by the task, a future or a token
  needs a user event that is triggered when it is resolved.
\<close>

datatype return_kind = ReturnsValue | ReturnsFuture

fun make_promises ::
  "realm \<Rightarrow> return_kind list \<Rightarrow> 'z runtime_scheme \<Rightarrow> event option list \<times> 'z runtime_scheme" where
  "make_promises rl [] w = ([], w)"
| "make_promises rl (ReturnsValue # rs) w =
     (let (ps, w') = make_promises rl rs w in (None # ps, w'))"
| "make_promises rl (ReturnsFuture # rs) w =
     (let (u, w1) = invoke rl CreateUserEvent w; (ps, w2) = make_promises rl rs w1
      in (Some u # ps, w2))"

definition make_futures :: "event option list \<Rightarrow> event \<Rightarrow> event list" where
  \<comment> \<open>the precondition of each future the launch returns; one for a task that returns nothing\<close>
  "make_futures promises ev =
     (if promises = [] then [ev] else map (\<lambda>p. case p of Some u \<Rightarrow> u | None \<Rightarrow> ev) promises)"

record 'v task =
  task_arguments :: "(bool \<times> 'v stored_arg) list"
  task_base_of :: task_base
  task_promises :: "event option list"
  completion_event :: event

definition GetStreamOrderedEvent :: "task_context \<Rightarrow> event \<Rightarrow> event res" where
  "GetStreamOrderedEvent ctx effects =
     (if context_value as_stream_ordered ctx \<noteq> None then opt_get (context_value as_control ctx)
      else ret effects)"

definition Task_construct ::
  "realm \<Rightarrow> task_context \<Rightarrow> event \<Rightarrow> return_kind list \<Rightarrow> task_args \<Rightarrow> 'v frame \<Rightarrow> 'z runtime_scheme \<Rightarrow>
   ('v task \<times> 'v frame \<times> 'z runtime_scheme) res" where
  "Task_construct rl ctx completion_ev rets args fr w =
     (let (promises, w1) = make_promises rl rets w in
      andThen (GetStreamOrderedEvent ctx completion_ev) (\<lambda>stream.
      andThen (StoreArgsAndSetPostcondition rl stream completion_ev args fr w1) (\<lambda>(ss, fr', w2).
      let (b, w3) = AddTaskDependencies rl (context_value as_stream_ordered ctx \<noteq> None) ss
                      new_task_base w2
      in andThen (MergePreconditions rl b w3) (\<lambda>(b', w4).
      ret (\<lparr>task_arguments = ss, task_base_of = b', task_promises = promises,
            completion_event = completion_ev\<rparr>, fr', w4)))))"

section \<open>Launch\<close>

record token =
  token_event :: event
  token_futures :: "event list"
  token_control :: "event option"

definition deferred_access :: "access \<Rightarrow> bool" where
  \<comment> \<open>the task's parameter is a \<open>Store\<close>, a \<open>View\<close> or a \<open>Future\<close>\<close>
  "deferred_access a = (case a of Child k \<Rightarrow> True | Reader k \<Rightarrow> True | SubReader k \<Rightarrow> True
     | GiveStore k whole \<Rightarrow> whole | GiveView k whole \<Rightarrow> whole | GiveFuture k whole \<Rightarrow> whole | _ \<Rightarrow> False)"

fun AddRealmEventPostconditions ::
  "realm \<Rightarrow> (bool \<times> 'v stored_arg) list \<Rightarrow> event set \<Rightarrow> 'z runtime_scheme \<Rightarrow>
   event set \<times> 'z runtime_scheme" where
  "AddRealmEventPostconditions rl [] es w = (es, w)"
| "AddRealmEventPostconditions rl ((in_vector, a) # ss) es w =
     (case a of
        StoredStore st \<Rightarrow>
          if \<not> in_vector \<and> store_HasPrecondition st
          then (let (e, w') = store_Precondition rl st w
                in AddRealmEventPostconditions rl ss (insert e es) w')
          else AddRealmEventPostconditions rl ss es w
      | _ \<Rightarrow> AddRealmEventPostconditions rl ss es w)"

definition all_effects ::
  "realm \<Rightarrow> return_kind list \<Rightarrow> task_args \<Rightarrow> 'v task \<Rightarrow> event list \<Rightarrow> 'z runtime_scheme \<Rightarrow>
   event \<times> 'z runtime_scheme" where
  "all_effects rl rets args task results w =
     (if rets = [] \<and> \<not> list_ex (\<lambda>(in_vector, a). \<not> in_vector \<and> deferred_access a) args
      then (completion_event task, w)
      else (let es = insert (completion_event task) (set results);
                (es', w') = AddRealmEventPostconditions rl (task_arguments task) es w
            in merge_set rl es' w'))"

definition launch_precondition ::
  "realm \<Rightarrow> task_context \<Rightarrow> 'v task \<Rightarrow> 'z runtime_scheme \<Rightarrow> event \<times> 'z runtime_scheme" where
  "launch_precondition rl ctx task w =
     (case context_value as_event ctx of
        Some e \<Rightarrow>
          (case merged_precondition (task_base_of task) of
             Some m \<Rightarrow> merge2 rl e m w | None \<Rightarrow> (e, w))
      | None \<Rightarrow>
          (case merged_precondition (task_base_of task) of
             Some m \<Rightarrow> (m, w) | None \<Rightarrow> (NO_EVENT, w)))"

definition sync_barrier :: "task_context \<Rightarrow> event \<Rightarrow> 'v frame \<Rightarrow> 'v frame res" where
  \<comment> \<open>\<open>Barrier::AddPrecondition\<close> on the barrier the context names\<close>
  "sync_barrier ctx all_done fr =
     (case context_value as_barrier ctx of
        Some b \<Rightarrow> andThen (vec_at (fr_barriers fr) (int b)) (\<lambda>es.
          ret (fr\<lparr>fr_barriers := (fr_barriers fr)[b := es @ [all_done]]\<rparr>))
      | None \<Rightarrow> ret fr)"

definition launch_finish ::
  "realm \<Rightarrow> proc_tables \<Rightarrow> task_context \<Rightarrow> return_kind list \<Rightarrow> task_args \<Rightarrow> processor \<Rightarrow> event \<Rightarrow>
   'v task \<Rightarrow> 'v frame \<Rightarrow> 'z runtime_scheme \<Rightarrow>
   (token \<times> 'v task option \<times> 'v frame \<times> 'z runtime_scheme) res" where
  \<comment> \<open>from the task's construction to the returned token\<close>
  "launch_finish rl t ctx rets args p wait_on_init task fr w =
     (let ev = completion_event task; (precondition, w1) = launch_precondition rl ctx task w
      in andThen
           (if pr_type p = GPU
            then andThen (Util_proc t) (\<lambda>u. ret (command rl (SpawnDelete (pr_proc u) ev) w1))
            else ret w1) (\<lambda>w2.
      let results = make_futures (task_promises task) ev;
          (all_done, w3) = all_effects rl rets args task results w2;
          w4 = command rl (TriggerEvent wait_on_init precondition) w3
      in andThen (sync_barrier ctx all_done fr) (\<lambda>fr'.
      ret (\<lparr>token_event = all_done, token_futures = results,
            token_control = context_value as_control ctx\<rparr>, Some task, fr', w4))))"

definition launch_on ::
  "realm \<Rightarrow> proc_tables \<Rightarrow> task_context \<Rightarrow> return_kind list \<Rightarrow> task_args \<Rightarrow> processor \<Rightarrow>
   'v frame \<Rightarrow> 'z runtime_scheme \<Rightarrow>
   (token \<times> 'v task option \<times> 'v frame \<times> 'z runtime_scheme) res" where
  "launch_on rl t ctx rets args p fr w =
     (let priority = (case context_value as_priority ctx of Some n \<Rightarrow> n | None \<Rightarrow> 0);
          (wait_on_init, w1) = invoke rl CreateUserEvent w;
          (ev, w2) = invoke rl (SpawnTask (pr_proc p) wait_on_init priority) w1
      in andThen (Task_construct rl ctx ev rets args fr w2) (\<lambda>(task, fr1, w3).
         launch_finish rl t ctx rets args p wait_on_init task fr1 w3))"

definition defer_task ::
  "realm \<Rightarrow> proc_tables \<Rightarrow> task_context \<Rightarrow> return_kind list \<Rightarrow> task_args \<Rightarrow> 'v frame \<Rightarrow>
   'z runtime_scheme \<Rightarrow> (token \<times> 'v task option \<times> 'v frame \<times> 'z runtime_scheme) res" where
  "defer_task rl t ctx rets args fr w =
     andThen (case context_value as_processor ctx of Some p \<Rightarrow> ret p | None \<Rightarrow> Util_proc t) (\<lambda>p.
     if (case context_value as_devices ctx of
           Some devices \<Rightarrow> \<not> dl_contains devices (global_id p) | None \<Rightarrow> False)
     then ret (\<lparr>token_event = NO_EVENT, token_futures = [NO_EVENT],
                token_control = map_option (\<lambda>_. NO_EVENT) (context_value as_control ctx)\<rparr>,
               None, fr, w)
     else launch_on rl t ctx rets args p fr w)"

fun defer_each ::
  "realm \<Rightarrow> proc_tables \<Rightarrow> task_context \<Rightarrow> processor list \<Rightarrow> 'v frame \<Rightarrow> 'z runtime_scheme \<Rightarrow>
   (event list \<times> 'v frame \<times> 'z runtime_scheme) res" where
  "defer_each rl t ctx [] fr w = ret ([], fr, w)"
| "defer_each rl t ctx (p # ps) fr w =
     andThen (defer_task rl t (ctx_on p (ctx_drop_group ctx)) [] [(False, Plain)] fr w)
       (\<lambda>(tok, task, fr1, w1).
     andThen (defer_each rl t ctx ps fr1 w1) (\<lambda>(es, fr2, w2).
     ret (token_event tok # es, fr2, w2)))"

definition Context_defer ::
  "realm \<Rightarrow> proc_tables \<Rightarrow> task_context \<Rightarrow> return_kind list \<Rightarrow> task_args \<Rightarrow> 'v frame \<Rightarrow>
   'z runtime_scheme \<Rightarrow> (token \<times> 'v task option \<times> 'v frame \<times> 'z runtime_scheme) res" where
  "Context_defer rl t ctx rets args fr w =
     (case context_value as_group ctx of
        Some procs \<Rightarrow>
          andThen (defer_each rl t ctx procs fr w) (\<lambda>(es, fr', w1).
          let (all_done, w2) = invoke rl (MergeEvents es) w1
          in ret (\<lparr>token_event = all_done, token_futures = [], token_control = None\<rparr>,
                  None, fr', w2))
      | None \<Rightarrow> defer_task rl t ctx rets args fr w)"

definition Barrier_Wait ::
  "realm \<Rightarrow> nat \<Rightarrow> 'v frame \<Rightarrow> 'z runtime_scheme \<Rightarrow> 'z runtime_scheme res" where
  "Barrier_Wait rl b fr w =
     andThen (vec_at (fr_barriers fr) (int b)) (\<lambda>es.
     let (e, w') = invoke rl (MergeEvents es) w in ret (command rl (WaitEvent e) w'))"

section \<open>What an argument waits for\<close>

definition ordered_access :: "access \<Rightarrow> bool" where
  \<comment> \<open>the argument's effects end with the task or with the view made for it\<close>
  "ordered_access a = (case a of Write k \<Rightarrow> True | Read k \<Rightarrow> True | Reader k \<Rightarrow> True
     | SubReader k \<Rightarrow> True | ReadFuture k \<Rightarrow> True | GiveFuture k whole \<Rightarrow> True | Plain \<Rightarrow> True | _ \<Rightarrow> False)"

fun conflicts :: "access \<Rightarrow> access \<Rightarrow> bool" where
  "conflicts (Write k) (Write l) = (k = l)"
| "conflicts (Write k) (Read l) = (k = l)"
| "conflicts (Write k) (Reader l) = (k = l)"
| "conflicts (Read k) (Write l) = (k = l)"
| "conflicts (ReadFuture k) (GiveFuture l whole) = (k = l)"
| "conflicts _ _ = False"

lemma fr_stores_set_store [simp]:
  "fr_stores (set_store fr k st) = (fr_stores fr)[k := st]"
  "fr_stores (set_view fr k v) = fr_stores fr" "fr_stores (set_future fr k f) = fr_stores fr"
  by (simp_all add: set_store_def set_view_def set_future_def)

lemma fr_futures_set [simp]:
  "fr_futures (set_store fr k st) = fr_futures fr" "fr_futures (set_view fr k v) = fr_futures fr"
  "fr_futures (set_future fr k f) = (fr_futures fr)[k := f]"
  by (simp_all add: set_store_def set_view_def set_future_def)

context event_order
begin

definition arg_covers :: "trace \<Rightarrow> 'v stored_arg \<Rightarrow> event \<Rightarrow> bool" where
  "arg_covers tr a d = (case a of
     StoredStore st \<Rightarrow> covered_read tr st d
   | StoredView v \<Rightarrow> (\<exists>p. view_pre v = Some p \<and> after tr (ep_effects p) d)
   | StoredFutureView v \<Rightarrow> (\<exists>p. view_pre (fv_events v) = Some p \<and> after tr (ep_effects p) d)
   | StoredFuture f \<Rightarrow> Future_HasPrecondition f \<and> after tr (Future_Precondition f) d
   | StoredPlain \<Rightarrow> False)"

lemma arg_covers_extends: "extends tr' tr \<Longrightarrow> arg_covers tr a d \<Longrightarrow> arg_covers tr' a d"
  using after_extends covered_extends(2) unfolding arg_covers_def
  by (cases a) auto

lemma covered_read_write: "covered_write tr st d \<Longrightarrow> covered_read tr st d"
  by (simp add: covered_read_def)

lemma child_on_covers:
  assumes "store_child_on rl stream ev st w = (c, st', w')"
  shows "extends (trace_of w') (trace_of w)" and "covered_write (trace_of w') st' ev"
    and "covered_write (trace_of w) st d \<Longrightarrow> covered_write (trace_of w') st' d"
    and "covered_read (trace_of w) st d \<Longrightarrow> arg_covers (trace_of w') (StoredStore c) d"
proof -
  have r: "store_ReadyAfter2 rl stream ev st w = (st', w')"
    and c: "child_rw c = child_rw st" "war_pre c = war_pre st"
    using assms by (auto simp: store_child_on_def split: prod.splits)
  show ext: "extends (trace_of w') (trace_of w)" using r by (rule store_ReadyAfter2_extends)
  show "covered_write (trace_of w') st' ev"
    and "covered_write (trace_of w) st d \<Longrightarrow> covered_write (trace_of w') st' d"
    using ReadyAfter2_covers[OF r] by blast+
  assume "covered_read (trace_of w) st d"
  then have "covered_read (trace_of w') st d" using covered_extends(2)[OF ext] by blast
  then show "arg_covers (trace_of w') (StoredStore c) d"
    using c by (simp add: arg_covers_def covered_read_def covered_write_def)
qed

lemma view_on_covers:
  assumes "store_view_on rl stream ev st w = (v, st', w')"
  shows "extends (trace_of w') (trace_of w)" and "covered_read (trace_of w') st' ev"
    and "covered_write (trace_of w) st d \<Longrightarrow> covered_write (trace_of w') st' d"
    and "covered_read (trace_of w) st d \<Longrightarrow> covered_read (trace_of w') st' d"
    and "covered_write (trace_of w) st d \<Longrightarrow> arg_covers (trace_of w') (StoredView v) d"
proof -
  have r: "add_reader rl stream ev st w = (st', w')" and v: "view_pre v = child_rw st'"
    using assms by (auto simp: store_view_on_def split: prod.splits)
  show "extends (trace_of w') (trace_of w)" using r by (rule add_reader_extends)
  show "covered_read (trace_of w') st' ev"
    and *: "covered_write (trace_of w) st d \<Longrightarrow> covered_write (trace_of w') st' d"
    and "covered_read (trace_of w) st d \<Longrightarrow> covered_read (trace_of w') st' d"
    using add_reader_covers[OF r] by blast+
  assume "covered_write (trace_of w) st d"
  then show "arg_covers (trace_of w') (StoredView v) d"
    using * v by (auto simp: arg_covers_def covered_write_def)
qed

lemma view_covers:
  assumes "store_view rl st w = (v, st', w')"
  shows "extends (trace_of w') (trace_of w)"
    and "covered_write (trace_of w) st d \<Longrightarrow> covered_write (trace_of w') st' d"
    and "covered_read (trace_of w) st d \<Longrightarrow> covered_read (trace_of w') st' d"
    and "covered_write (trace_of w) st d \<Longrightarrow> arg_covers (trace_of w') (StoredView v) d"
proof -
  let ?w1 = "snd (invoke rl CreateUserEvent w)"
  obtain u where r: "add_reader rl u u st ?w1 = (st', w')" and v: "view_pre v = child_rw st'"
    using assms by (auto simp: store_view_def split: prod.splits)
  have e: "extends (trace_of ?w1) (trace_of w)" by simp
  show "extends (trace_of w') (trace_of w)"
    using extends_trans[OF add_reader_extends[OF r] e] .
  show *: "covered_write (trace_of w) st d \<Longrightarrow> covered_write (trace_of w') st' d"
    and "covered_read (trace_of w) st d \<Longrightarrow> covered_read (trace_of w') st' d"
    using add_reader_covers[OF r] covered_extends[OF e] by blast+
  assume "covered_write (trace_of w) st d"
  then show "arg_covers (trace_of w') (StoredView v) d"
    using * v by (auto simp: arg_covers_def covered_write_def)
qed

lemma ToTaskArgument_covers:
  assumes "ToTaskArgument rl stream ev a fr w = ret (sa, fr', w')" and "ordered_access a"
  shows "extends (trace_of w') (trace_of w)"
    and "length (fr_stores fr') = length (fr_stores fr)"
    and "k < length (fr_stores fr) \<Longrightarrow> covered_write (trace_of w) (fr_stores fr ! k) d \<Longrightarrow>
         covered_write (trace_of w') (fr_stores fr' ! k) d"
    and "k < length (fr_stores fr) \<Longrightarrow> covered_read (trace_of w) (fr_stores fr ! k) d \<Longrightarrow>
         covered_read (trace_of w') (fr_stores fr' ! k) d \<or>
         a = Write k \<and> arg_covers (trace_of w') sa d"
    and "a = Write k \<Longrightarrow> k < length (fr_stores fr) \<and>
         covered_write (trace_of w') (fr_stores fr' ! k) ev"
    and "a = Read k \<Longrightarrow> k < length (fr_stores fr) \<and>
         covered_read (trace_of w') (fr_stores fr' ! k) ev"
    and "a = Write k \<Longrightarrow> covered_read (trace_of w) (fr_stores fr ! k) d \<Longrightarrow>
         arg_covers (trace_of w') sa d"
    and "a = Read k \<or> a = Reader k \<Longrightarrow> covered_write (trace_of w) (fr_stores fr ! k) d \<Longrightarrow>
         arg_covers (trace_of w') sa d"
proof -
  have "(extends (trace_of w') (trace_of w) \<and> length (fr_stores fr') = length (fr_stores fr)) \<and>
    (k < length (fr_stores fr) \<longrightarrow> covered_write (trace_of w) (fr_stores fr ! k) d \<longrightarrow>
         covered_write (trace_of w') (fr_stores fr' ! k) d) \<and>
    (k < length (fr_stores fr) \<longrightarrow> covered_read (trace_of w) (fr_stores fr ! k) d \<longrightarrow>
         covered_read (trace_of w') (fr_stores fr' ! k) d \<or>
         a = Write k \<and> arg_covers (trace_of w') sa d) \<and>
    (a = Write k \<longrightarrow> k < length (fr_stores fr) \<and>
         covered_write (trace_of w') (fr_stores fr' ! k) ev) \<and>
    (a = Read k \<longrightarrow> k < length (fr_stores fr) \<and>
         covered_read (trace_of w') (fr_stores fr' ! k) ev) \<and>
    (a = Write k \<longrightarrow> covered_read (trace_of w) (fr_stores fr ! k) d \<longrightarrow>
         arg_covers (trace_of w') sa d) \<and>
    (a = Read k \<or> a = Reader k \<longrightarrow> covered_write (trace_of w) (fr_stores fr ! k) d \<longrightarrow>
         arg_covers (trace_of w') sa d)"
  proof (cases a)
    case (Write l)
    then obtain c st' where l: "l < length (fr_stores fr)"
      and c: "store_child_on rl stream ev (fr_stores fr ! l) w = (c, st', w')"
      and s: "sa = StoredStore c" "fr' = set_store fr l st'"
      using assms(1) by (auto simp: ToTaskArgument_def andThen_eq_ret vec_at_eq_ret split: prod.splits)
    note cov = child_on_covers[OF c] covered_extends[OF child_on_covers(1)[OF c]]
    show ?thesis using cov s l Write by (cases "k = l") auto
  next
    case (Read l)
    then obtain v st' where l: "l < length (fr_stores fr)"
      and c: "store_view_on rl stream ev (fr_stores fr ! l) w = (v, st', w')"
      and s: "sa = StoredView v" "fr' = set_store fr l st'"
      using assms(1) by (auto simp: ToTaskArgument_def andThen_eq_ret vec_at_eq_ret split: prod.splits)
    note cov = view_on_covers[OF c] covered_extends[OF view_on_covers(1)[OF c]]
    show ?thesis using cov s l Read by (cases "k = l") auto
  next
    case (Reader l)
    then obtain v st' where l: "l < length (fr_stores fr)"
      and c: "store_view rl (fr_stores fr ! l) w = (v, st', w')"
      and s: "sa = StoredView v" "fr' = set_store fr l st'"
      using assms(1) by (auto simp: ToTaskArgument_def andThen_eq_ret vec_at_eq_ret split: prod.splits)
    note cov = view_covers[OF c] covered_extends[OF view_covers(1)[OF c]]
    show ?thesis using cov s l Reader by (cases "k = l") auto
  next
    case (SubReader l)
    then have "extends (trace_of w') (trace_of w) \<and> fr_stores fr' = fr_stores fr"
      using assms(1)
      by (auto simp: ToTaskArgument_def andThen_eq_ret view_view_def invoke_def split: prod.splits)
    then show ?thesis using SubReader covered_extends by (auto simp: covered_extends)
  next
    case (ReadFuture l)
    then obtain v f' where v: "Future_view_on rl ev (fr_futures fr ! l) w = (v, f', w')"
      and fr': "fr' = set_future fr l f'"
      using assms(1) by (auto simp: ToTaskArgument_def andThen_eq_ret vec_at_eq_ret split: prod.splits)
    have "extends (trace_of w') (trace_of w) \<and> fr_stores fr' = fr_stores fr"
      using Future_view_on_covers(1)[OF v] fr' by simp
    then show ?thesis using ReadFuture covered_extends by (auto simp: covered_extends)
  next
    case (GiveFuture l whole)
    then have "w' = w \<and> fr_stores fr' = fr_stores fr"
      using assms(1) by (auto simp: ToTaskArgument_def andThen_eq_ret vec_at_eq_ret split: prod.splits)
    then show ?thesis using GiveFuture by simp
  next
    case Plain
    then show ?thesis using assms(1) by (auto simp: ToTaskArgument_def)
  qed (use assms(2) in \<open>simp_all add: ordered_access_def\<close>)
  then show "extends (trace_of w') (trace_of w)"
    and "length (fr_stores fr') = length (fr_stores fr)"
    and "k < length (fr_stores fr) \<Longrightarrow> covered_write (trace_of w) (fr_stores fr ! k) d \<Longrightarrow>
         covered_write (trace_of w') (fr_stores fr' ! k) d"
    and "k < length (fr_stores fr) \<Longrightarrow> covered_read (trace_of w) (fr_stores fr ! k) d \<Longrightarrow>
         covered_read (trace_of w') (fr_stores fr' ! k) d \<or>
         a = Write k \<and> arg_covers (trace_of w') sa d"
    and "a = Write k \<Longrightarrow> k < length (fr_stores fr) \<and>
         covered_write (trace_of w') (fr_stores fr' ! k) ev"
    and "a = Read k \<Longrightarrow> k < length (fr_stores fr) \<and>
         covered_read (trace_of w') (fr_stores fr' ! k) ev"
    and "a = Write k \<Longrightarrow> covered_read (trace_of w) (fr_stores fr ! k) d \<Longrightarrow>
         arg_covers (trace_of w') sa d"
    and "a = Read k \<or> a = Reader k \<Longrightarrow> covered_write (trace_of w) (fr_stores fr ! k) d \<Longrightarrow>
         arg_covers (trace_of w') sa d"
    by blast+
qed

lemma ToTaskArgument_futures:
  assumes "ToTaskArgument rl stream ev a fr w = ret (sa, fr', w')" and "ordered_access a"
  shows "length (fr_futures fr') = length (fr_futures fr)"
    and "k < length (fr_futures fr) \<Longrightarrow> fut_pre (fr_futures fr' ! k) = fut_pre (fr_futures fr ! k)"
    and "k < length (fr_futures fr) \<Longrightarrow> covered_future (trace_of w) (fr_futures fr ! k) d \<Longrightarrow>
         covered_future (trace_of w') (fr_futures fr' ! k) d"
    and "a = ReadFuture k \<Longrightarrow> k < length (fr_futures fr) \<and>
         covered_future (trace_of w') (fr_futures fr' ! k) ev"
    and "a = ReadFuture k \<Longrightarrow> fut_pre (fr_futures fr ! k) = Some d \<Longrightarrow> arg_covers (trace_of w') sa d"
    and "a = GiveFuture k whole \<Longrightarrow> k < length (fr_futures fr) \<and>
         (covered_future (trace_of w) (fr_futures fr ! k) d \<longrightarrow> arg_covers (trace_of w') sa d)"
proof -
  note ext = ToTaskArgument_covers(1)[OF assms]
  have "length (fr_futures fr') = length (fr_futures fr) \<and>
    (k < length (fr_futures fr) \<longrightarrow> fut_pre (fr_futures fr' ! k) = fut_pre (fr_futures fr ! k)) \<and>
    (k < length (fr_futures fr) \<longrightarrow> covered_future (trace_of w) (fr_futures fr ! k) d \<longrightarrow>
         covered_future (trace_of w') (fr_futures fr' ! k) d) \<and>
    (a = ReadFuture k \<longrightarrow> k < length (fr_futures fr) \<and>
         covered_future (trace_of w') (fr_futures fr' ! k) ev \<and>
         (fut_pre (fr_futures fr ! k) = Some d \<longrightarrow> arg_covers (trace_of w') sa d)) \<and>
    (a = GiveFuture k whole \<longrightarrow> k < length (fr_futures fr) \<and>
         (covered_future (trace_of w) (fr_futures fr ! k) d \<longrightarrow> arg_covers (trace_of w') sa d))"
  proof (cases a)
    case (ReadFuture l)
    then obtain v f' where l: "l < length (fr_futures fr)"
      and v: "Future_view_on rl ev (fr_futures fr ! l) w = (v, f', w')"
      and s: "sa = StoredFutureView v" "fr' = set_future fr l f'"
      using assms(1) by (auto simp: ToTaskArgument_def andThen_eq_ret vec_at_eq_ret split: prod.splits)
    note cov = Future_view_on_covers[OF v] covered_future_extends[OF ext]
    show ?thesis using cov s l ReadFuture after_refl
      by (cases "k = l") (auto simp: arg_covers_def both_events_def)
  next
    case (GiveFuture l b)
    then obtain f1 f2 where l: "l < length (fr_futures fr)" and m: "Future_move (fr_futures fr ! l) = (f1, f2)"
      and s: "sa = StoredFuture f1" "fr' = set_future fr l f2" "w' = w"
      using assms(1) by (auto simp: ToTaskArgument_def andThen_eq_ret vec_at_eq_ret split: prod.splits)
    have "f1 = fr_futures fr ! l" "f2 = snd (Future_move (fr_futures fr ! l))"
      using m Future_move_events(1)[of "fr_futures fr ! l"] by simp_all
    then show ?thesis using s l GiveFuture covered_future_precondition[of "trace_of w" "fr_futures fr ! l" d]
      by (cases "k = l") (auto simp: arg_covers_def)
  qed (use assms covered_future_extends[OF ext] in
      \<open>auto simp: ToTaskArgument_def ordered_access_def andThen_eq_ret vec_at_eq_ret split: prod.splits\<close>)
  then show "length (fr_futures fr') = length (fr_futures fr)"
    and "k < length (fr_futures fr) \<Longrightarrow> fut_pre (fr_futures fr' ! k) = fut_pre (fr_futures fr ! k)"
    and "k < length (fr_futures fr) \<Longrightarrow> covered_future (trace_of w) (fr_futures fr ! k) d \<Longrightarrow>
         covered_future (trace_of w') (fr_futures fr' ! k) d"
    and "a = ReadFuture k \<Longrightarrow> k < length (fr_futures fr) \<and>
         covered_future (trace_of w') (fr_futures fr' ! k) ev"
    and "a = ReadFuture k \<Longrightarrow> fut_pre (fr_futures fr ! k) = Some d \<Longrightarrow> arg_covers (trace_of w') sa d"
    and "a = GiveFuture k whole \<Longrightarrow> k < length (fr_futures fr) \<and>
         (covered_future (trace_of w) (fr_futures fr ! k) d \<longrightarrow> arg_covers (trace_of w') sa d)"
    by blast+
qed

end
text \<open>The same for a whole argument list: nothing that was covered is lost.\<close>

context event_order
begin

definition args_cover :: "trace \<Rightarrow> (bool \<times> 'v stored_arg) list \<Rightarrow> event \<Rightarrow> bool" where
  "args_cover tr ss d \<longleftrightarrow> (\<exists>(b, s) \<in> set ss. arg_covers tr s d)"

lemma args_cover_extends: "extends tr' tr \<Longrightarrow> args_cover tr ss d \<Longrightarrow> args_cover tr' ss d"
  using arg_covers_extends unfolding args_cover_def by blast

lemma args_cover_simps [simp]:
  "\<not> args_cover tr [] d"
  "args_cover tr ((b, s) # ss) d \<longleftrightarrow> arg_covers tr s d \<or> args_cover tr ss d"
  by (auto simp: args_cover_def)

definition ordered_args :: "task_args \<Rightarrow> bool" where
  "ordered_args args \<longleftrightarrow> list_all (\<lambda>(b, a). ordered_access a) args"

lemma StoreArgs_cover:
  assumes "StoreArgsAndSetPostcondition rl stream ev args fr w = ret (ss, fr', w')"
    and "ordered_args args"
  shows "extends (trace_of w') (trace_of w) \<and> length (fr_stores fr') = length (fr_stores fr) \<and>
    (\<forall>k < length (fr_stores fr).
       (\<forall>d. covered_write (trace_of w) (fr_stores fr ! k) d \<longrightarrow>
            covered_write (trace_of w') (fr_stores fr' ! k) d) \<and>
       (\<forall>d. covered_read (trace_of w) (fr_stores fr ! k) d \<longrightarrow>
            covered_read (trace_of w') (fr_stores fr' ! k) d \<or>
            Write k \<in> snd ` set args \<and> args_cover (trace_of w') ss d) \<and>
       (covered_read (trace_of w) (fr_stores fr ! k) ev \<longrightarrow>
            covered_read (trace_of w') (fr_stores fr' ! k) ev))"
  using assms
proof (induction args arbitrary: fr w ss)
  case Nil
  then show ?case by simp
next
  case (Cons x args)
  obtain b a where x: "x = (b, a)" by (cases x)
  obtain s fr1 w1 ss1 where one: "ToTaskArgument rl stream ev a fr w = ret (s, fr1, w1)"
    and rest: "StoreArgsAndSetPostcondition rl stream ev args fr1 w1 = ret (ss1, fr', w')"
    and ss: "ss = (b, s) # ss1"
    using Cons.prems(1) x by (auto simp: andThen_eq_ret split: prod.splits)
  have ord: "ordered_access a" "ordered_args args"
    using Cons.prems(2) x by (simp_all add: ordered_args_def)
  note step = ToTaskArgument_covers[OF one ord(1)]
  note ih = Cons.IH[OF rest ord(2)]
  have ext: "extends (trace_of w') (trace_of w1)" using ih by blast
  show ?case
  proof (intro conjI allI impI)
    show "extends (trace_of w') (trace_of w)" using ext step(1) by (rule extends_trans)
    show "length (fr_stores fr') = length (fr_stores fr)" using ih step(2) by simp
  next
    fix k d assume k: "k < length (fr_stores fr)"
      and c: "covered_write (trace_of w) (fr_stores fr ! k) d"
    then show "covered_write (trace_of w') (fr_stores fr' ! k) d" using ih step(2) step(3) by simp
  next
    fix k d assume k: "k < length (fr_stores fr)"
      and c: "covered_read (trace_of w) (fr_stores fr ! k) d"
    from step(4)[OF k c] show "covered_read (trace_of w') (fr_stores fr' ! k) d \<or>
      Write k \<in> snd ` set (x # args) \<and> args_cover (trace_of w') ss d"
    proof
      assume "covered_read (trace_of w1) (fr_stores fr1 ! k) d"
      then show ?thesis using ih step(2) k ss by auto
    next
      assume "a = Write k \<and> arg_covers (trace_of w1) s d"
      then show ?thesis using arg_covers_extends[OF ext] ss x by auto
    qed
  next
    fix k assume k: "k < length (fr_stores fr)"
      and c: "covered_read (trace_of w) (fr_stores fr ! k) ev"
    from step(4)[OF k c] have "covered_read (trace_of w1) (fr_stores fr1 ! k) ev"
      using step(5) covered_read_write by blast
    then show "covered_read (trace_of w') (fr_stores fr' ! k) ev" using ih step(2) k by simp
  qed
qed

text \<open>The event with which a view made for an argument lets the store's next writer go.\<close>

lemma ToTaskArgument_reader:
  assumes "ToTaskArgument rl stream ev (Reader k) fr w = ret (s, fr', w')"
  obtains v d where "s = StoredView v" and "war_dependency v = Some d" and "k < length (fr_stores fr)"
    and "covered_read (trace_of w') (fr_stores fr' ! k) d"
proof -
  obtain v st' where k: "k < length (fr_stores fr)" and v: "store_view rl (fr_stores fr ! k) w = (v, st', w')"
    and s: "s = StoredView v" "fr' = set_store fr k st'"
    using assms by (auto simp: ToTaskArgument_def andThen_eq_ret vec_at_eq_ret split: prod.splits)
  obtain u where r: "add_reader rl u u (fr_stores fr ! k) (snd (invoke rl CreateUserEvent w)) = (st', w')"
    and d: "war_dependency v = Some u"
    using v by (auto simp: store_view_def split: prod.splits)
  show thesis using that[OF s(1) d k] add_reader_covers(1)[OF r] s(2) k by simp
qed

lemma StoreArgs_reader:
  assumes "StoreArgsAndSetPostcondition rl stream ev args fr w = ret (ss, fr', w')" and "ordered_args args"
    and "p < length args" and "snd (args ! p) = Reader k"
  shows "k < length (fr_stores fr) \<and> p < length ss \<and> (\<exists>v d. snd (ss ! p) = StoredView v \<and>
    war_dependency v = Some d \<and> (covered_read (trace_of w') (fr_stores fr' ! k) d \<or>
      Write k \<in> snd ` set args \<and> args_cover (trace_of w') ss d))"
  using assms
proof (induction args arbitrary: fr w ss p)
  case (Cons x args)
  obtain b a where x: "x = (b, a)" by (cases x)
  obtain s fr1 w1 ss1 where one: "ToTaskArgument rl stream ev a fr w = ret (s, fr1, w1)"
    and rest: "StoreArgsAndSetPostcondition rl stream ev args fr1 w1 = ret (ss1, fr', w')"
    and ss: "ss = (b, s) # ss1"
    using Cons.prems(1) x by (auto simp: andThen_eq_ret split: prod.splits)
  have ord: "ordered_access a" "ordered_args args"
    using Cons.prems(2) x by (simp_all add: ordered_args_def)
  note len = ToTaskArgument_covers(2)[OF one ord(1)]
  show ?case
  proof (cases p)
    case 0
    then have "a = Reader k" using Cons.prems(4) x by simp
    from ToTaskArgument_reader[OF one[unfolded this]] obtain v d where v: "s = StoredView v"
      "war_dependency v = Some d" "k < length (fr_stores fr)" "covered_read (trace_of w1) (fr_stores fr1 ! k) d"
      by blast
    then have "covered_read (trace_of w') (fr_stores fr' ! k) d \<or>
        Write k \<in> snd ` set args \<and> args_cover (trace_of w') ss1 d"
      using StoreArgs_cover[OF rest ord(2)] len by simp
    then show ?thesis using 0 v ss by auto
  next
    case (Suc q)
    then have "q < length args" "snd (args ! q) = Reader k" using Cons.prems(3,4) by simp_all
    from Cons.IH[OF rest ord(2) this] show ?thesis using Suc ss len by auto
  qed
qed simp

lemma StoreArgs_accesses:
  assumes "StoreArgsAndSetPostcondition rl stream ev args fr w = ret (ss, fr', w')"
    and "ordered_args args" and "(b, a) \<in> set args"
  shows "a = Write k \<Longrightarrow> k < length (fr_stores fr) \<and>
           covered_write (trace_of w') (fr_stores fr' ! k) ev"
    and "a = Read k \<Longrightarrow> k < length (fr_stores fr) \<and>
           covered_read (trace_of w') (fr_stores fr' ! k) ev"
    and "a = Write k \<Longrightarrow> covered_read (trace_of w) (fr_stores fr ! k) d \<Longrightarrow>
           args_cover (trace_of w') ss d"
    and "a = Read k \<or> a = Reader k \<Longrightarrow> k < length (fr_stores fr) \<Longrightarrow>
           covered_write (trace_of w) (fr_stores fr ! k) d \<Longrightarrow> args_cover (trace_of w') ss d"
proof -
  have "(a = Write k \<longrightarrow> k < length (fr_stores fr) \<and>
           covered_write (trace_of w') (fr_stores fr' ! k) ev) \<and>
    (a = Read k \<longrightarrow> k < length (fr_stores fr) \<and>
           covered_read (trace_of w') (fr_stores fr' ! k) ev) \<and>
    (a = Write k \<longrightarrow> covered_read (trace_of w) (fr_stores fr ! k) d \<longrightarrow>
           args_cover (trace_of w') ss d) \<and>
    (a = Read k \<or> a = Reader k \<longrightarrow> k < length (fr_stores fr) \<longrightarrow>
           covered_write (trace_of w) (fr_stores fr ! k) d \<longrightarrow> args_cover (trace_of w') ss d)"
    using assms
  proof (induction args arbitrary: fr w ss)
    case Nil
    then show ?case by simp
  next
    case (Cons x args)
    obtain b0 a0 where x: "x = (b0, a0)" by (cases x)
    obtain s fr1 w1 ss1 where one: "ToTaskArgument rl stream ev a0 fr w = ret (s, fr1, w1)"
      and rest: "StoreArgsAndSetPostcondition rl stream ev args fr1 w1 = ret (ss1, fr', w')"
      and ss: "ss = (b0, s) # ss1"
      using Cons.prems(1) x by (auto simp: andThen_eq_ret split: prod.splits)
    have ord: "ordered_access a0" "ordered_args args"
      using Cons.prems(2) x by (simp_all add: ordered_args_def)
    note step = ToTaskArgument_covers[OF one ord(1)]
    note all = StoreArgs_cover[OF rest ord(2)]
    have ext: "extends (trace_of w') (trace_of w1)" using all by blast
    show ?case
    proof (cases "(b, a) = x")
      case True
      then have a: "a0 = a" using x by simp
      have "a = Write k \<longrightarrow> k < length (fr_stores fr) \<and>
          covered_write (trace_of w') (fr_stores fr' ! k) ev"
        using step(2) step(5)[of k] all a by auto
      moreover have "a = Read k \<longrightarrow> k < length (fr_stores fr) \<and>
          covered_read (trace_of w') (fr_stores fr' ! k) ev"
        using step(2) step(6)[of k] all a by auto
      moreover have "a = Write k \<longrightarrow> covered_read (trace_of w) (fr_stores fr ! k) d \<longrightarrow>
          args_cover (trace_of w') ss d"
        using step(7)[of k d] arg_covers_extends[OF ext] a ss by auto
      moreover have "a = Read k \<or> a = Reader k \<longrightarrow> k < length (fr_stores fr) \<longrightarrow>
          covered_write (trace_of w) (fr_stores fr ! k) d \<longrightarrow> args_cover (trace_of w') ss d"
        using step(8)[of k d] arg_covers_extends[OF ext] a ss by auto
      ultimately show ?thesis by blast
    next
      case False
      then have "(b, a) \<in> set args" using Cons.prems(3) by auto
      note ih = Cons.IH[OF rest ord(2) this]
      have "a = Write k \<longrightarrow> covered_read (trace_of w) (fr_stores fr ! k) d \<longrightarrow>
          args_cover (trace_of w') ss d"
        using step(2) step(4)[of k d] ih arg_covers_extends[OF ext] ss by auto
      moreover have "a = Read k \<or> a = Reader k \<longrightarrow> k < length (fr_stores fr) \<longrightarrow>
          covered_write (trace_of w) (fr_stores fr ! k) d \<longrightarrow> args_cover (trace_of w') ss d"
        using step(2) step(3)[of k d] ih ss by auto
      ultimately show ?thesis using ih step(2) by simp
    qed
  qed
  then show "a = Write k \<Longrightarrow> k < length (fr_stores fr) \<and>
           covered_write (trace_of w') (fr_stores fr' ! k) ev"
    and "a = Read k \<Longrightarrow> k < length (fr_stores fr) \<and>
           covered_read (trace_of w') (fr_stores fr' ! k) ev"
    and "a = Write k \<Longrightarrow> covered_read (trace_of w) (fr_stores fr ! k) d \<Longrightarrow>
           args_cover (trace_of w') ss d"
    and "a = Read k \<or> a = Reader k \<Longrightarrow> k < length (fr_stores fr) \<Longrightarrow>
           covered_write (trace_of w) (fr_stores fr ! k) d \<Longrightarrow> args_cover (trace_of w') ss d"
    by blast+
qed

lemma StoreArgs_futures:
  assumes "StoreArgsAndSetPostcondition rl stream ev args fr w = ret (ss, fr', w')"
    and "ordered_args args"
  shows "length (fr_futures fr') = length (fr_futures fr) \<and>
    (\<forall>k < length (fr_futures fr). fut_pre (fr_futures fr' ! k) = fut_pre (fr_futures fr ! k) \<and>
       (\<forall>d. covered_future (trace_of w) (fr_futures fr ! k) d \<longrightarrow>
            covered_future (trace_of w') (fr_futures fr' ! k) d)) \<and>
    (\<forall>k. ReadFuture k \<in> snd ` set args \<longrightarrow> k < length (fr_futures fr) \<and>
       covered_future (trace_of w') (fr_futures fr' ! k) ev \<and>
       (\<forall>d. fut_pre (fr_futures fr ! k) = Some d \<longrightarrow> args_cover (trace_of w') ss d)) \<and>
    (\<forall>k whole d. GiveFuture k whole \<in> snd ` set args \<longrightarrow> k < length (fr_futures fr) \<and>
       (covered_future (trace_of w) (fr_futures fr ! k) d \<longrightarrow> args_cover (trace_of w') ss d))"
  using assms
proof (induction args arbitrary: fr w ss)
  case Nil
  then show ?case by simp
next
  case (Cons x args)
  obtain b a where x: "x = (b, a)" by (cases x)
  obtain s fr1 w1 ss1 where one: "ToTaskArgument rl stream ev a fr w = ret (s, fr1, w1)"
    and rest: "StoreArgsAndSetPostcondition rl stream ev args fr1 w1 = ret (ss1, fr', w')"
    and ss: "ss = (b, s) # ss1"
    using Cons.prems(1) x by (auto simp: andThen_eq_ret split: prod.splits)
  have ord: "ordered_access a" "ordered_args args"
    using Cons.prems(2) x by (simp_all add: ordered_args_def)
  note step = ToTaskArgument_futures[OF one ord(1)]
  note ih = Cons.IH[OF rest ord(2)]
  have ext: "extends (trace_of w') (trace_of w1)" using StoreArgs_cover[OF rest ord(2)] by blast
  show ?case
  proof (intro conjI allI impI)
    show "length (fr_futures fr') = length (fr_futures fr)" using ih step(1) by simp
  next
    fix k assume "k < length (fr_futures fr)"
    then show "fut_pre (fr_futures fr' ! k) = fut_pre (fr_futures fr ! k)" using ih step(1,2) by simp
  next
    fix k d assume "k < length (fr_futures fr)" "covered_future (trace_of w) (fr_futures fr ! k) d"
    then show "covered_future (trace_of w') (fr_futures fr' ! k) d" using ih step(1,3) by simp
  next
    fix k assume "ReadFuture k \<in> snd ` set (x # args)"
    then consider "a = ReadFuture k" | "ReadFuture k \<in> snd ` set args" using x by auto
    then show "k < length (fr_futures fr)" using ih step(1,4) by cases auto
  next
    fix k assume "ReadFuture k \<in> snd ` set (x # args)"
    then consider "a = ReadFuture k" | "ReadFuture k \<in> snd ` set args" using x by auto
    then show "covered_future (trace_of w') (fr_futures fr' ! k) ev" using ih step(1,4) by cases auto
  next
    fix k d assume d: "fut_pre (fr_futures fr ! k) = Some d" and "ReadFuture k \<in> snd ` set (x # args)"
    then consider "a = ReadFuture k" | "ReadFuture k \<in> snd ` set args" using x by auto
    then show "args_cover (trace_of w') ss d"
    proof cases
      case 1
      then show ?thesis using arg_covers_extends[OF ext step(5)[OF _ d]] ss by simp
    next
      case 2
      then have "fut_pre (fr_futures fr1 ! k) = Some d" using ih step(1,2) d by simp
      then show ?thesis using 2 ih ss by simp
    qed
  next
    fix k whole assume "GiveFuture k whole \<in> snd ` set (x # args)"
    then consider "a = GiveFuture k whole" | "GiveFuture k whole \<in> snd ` set args" using x by auto
    then show "k < length (fr_futures fr)"
    proof cases
      case 1
      then show ?thesis using step(6) by blast
    next
      case 2
      then show ?thesis using ih step(1) by metis
    qed
  next
    fix k whole d assume c: "covered_future (trace_of w) (fr_futures fr ! k) d"
      and "GiveFuture k whole \<in> snd ` set (x # args)"
    then consider "a = GiveFuture k whole" | "GiveFuture k whole \<in> snd ` set args" using x by auto
    then show "args_cover (trace_of w') ss d"
    proof cases
      case 1
      then have "arg_covers (trace_of w1) s d" using step(6) c by blast
      then show ?thesis using arg_covers_extends[OF ext, of s d] ss by simp
    next
      case 2
      then have "k < length (fr_futures fr)" using ih step(1) by metis
      then have "covered_future (trace_of w1) (fr_futures fr1 ! k) d" using step(3) c by blast
      then have "args_cover (trace_of w') ss1 d" using 2 ih by blast
      then show ?thesis using ss by simp
    qed
  qed
qed

lemma ToTaskArgument_other_futures:
  assumes "ToTaskArgument rl stream ev a fr w = ret (sa, fr', w')"
    and "a \<noteq> ReadFuture k" and "\<forall>whole. a \<noteq> GiveFuture k whole"
  shows "fr_futures fr' ! k = fr_futures fr ! k"
  using assms by (cases a) (auto simp: ToTaskArgument_def andThen_eq_ret case_prod_unfold Let_def nth_list_update)

lemma StoreArgs_result:
  assumes "StoreArgsAndSetPostcondition rl stream ev args fr w = ret (ss, fr', w')" and "ordered_args args"
    and "fut_pre (fr_futures fr ! k) = Some d" and "fut_war (fr_futures fr ! k) = None"
    and "GiveFuture k whole \<in> snd ` set args"
  shows "args_cover (trace_of w') ss d"
  using assms
proof (induction args arbitrary: fr w ss)
  case (Cons x args)
  obtain b a where x: "x = (b, a)" by (cases x)
  obtain s fr1 w1 ss1 where one: "ToTaskArgument rl stream ev a fr w = ret (s, fr1, w1)"
    and rest: "StoreArgsAndSetPostcondition rl stream ev args fr1 w1 = ret (ss1, fr', w')"
    and ss: "ss = (b, s) # ss1"
    using Cons.prems(1) x by (auto simp: andThen_eq_ret split: prod.splits)
  have ord: "ordered_access a" "ordered_args args"
    using Cons.prems(2) x by (simp_all add: ordered_args_def)
  have ext: "extends (trace_of w') (trace_of w1)" using StoreArgs_cover[OF rest ord(2)] by blast
  consider "a = ReadFuture k" | b where "a = GiveFuture k b"
    | "a \<noteq> ReadFuture k" "\<forall>whole. a \<noteq> GiveFuture k whole" by blast
  then show ?case
  proof cases
    case 1
    then show ?thesis using arg_covers_extends[OF ext ToTaskArgument_futures(5)[OF one ord(1) _ Cons.prems(3)]] ss by simp
  next
    case 2
    then have "s = StoredFuture (fr_futures fr ! k)" using one
      by (auto simp: ToTaskArgument_def andThen_eq_ret vec_at_eq_ret Future_move_def)
    then have "arg_covers (trace_of w1) s d" using Cons.prems(3,4) after_refl
      by (simp add: arg_covers_def Future_HasPrecondition_def Future_Precondition_def)
    then show ?thesis using arg_covers_extends[OF ext, of s d] ss by simp
  next
    case 3
    then have "GiveFuture k whole \<in> snd ` set args" using Cons.prems(5) x by auto
    then have "args_cover (trace_of w') ss1 d"
      using Cons.IH[OF rest ord(2)] ToTaskArgument_other_futures[OF one 3] Cons.prems(3,4) by simp
    then show ?thesis using ss by simp
  qed
qed simp

end

text \<open>The preconditions a task collects from its arguments.\<close>

context event_order
begin

lemma AddTaskDependencies_after:
  assumes "AddTaskDependencies rl False ss b w = (b', w')"
  shows "extends (trace_of w') (trace_of w)"
    and "individual_preconditions b \<subseteq> individual_preconditions b'"
    and "finite (individual_preconditions b) \<Longrightarrow> finite (individual_preconditions b')"
    and "merged_precondition b' = merged_precondition b"
    and "args_cover (trace_of w) ss d \<Longrightarrow>
         \<exists>e \<in> individual_preconditions b'. after (trace_of w') e d"
proof -
  have "extends (trace_of w') (trace_of w) \<and>
    individual_preconditions b \<subseteq> individual_preconditions b' \<and>
    (finite (individual_preconditions b) \<longrightarrow> finite (individual_preconditions b')) \<and>
    merged_precondition b' = merged_precondition b \<and>
    (args_cover (trace_of w) ss d \<longrightarrow>
         (\<exists>e \<in> individual_preconditions b'. after (trace_of w') e d))"
    using assms
  proof (induction ss arbitrary: b w)
    case Nil
    then show ?case by simp
  next
    case (Cons x ss)
    obtain i a where x: "x = (i, a)" by (cases x)
    obtain b1 w1 where one: "AddDeferredPrecondition rl False a b w = (b1, w1)"
      and rest: "AddTaskDependencies rl False ss b1 w1 = (b', w')"
      using Cons.prems x by (auto split: prod.splits)
    have step: "extends (trace_of w1) (trace_of w) \<and>
      individual_preconditions b \<subseteq> individual_preconditions b1 \<and>
      (finite (individual_preconditions b) \<longrightarrow> finite (individual_preconditions b1)) \<and>
      merged_precondition b1 = merged_precondition b \<and>
      (arg_covers (trace_of w) a d \<longrightarrow>
        (\<exists>e \<in> individual_preconditions b1. after (trace_of w1) e d))"
    proof (cases a)
      case (StoredStore st)
      show ?thesis
      proof (cases "store_HasPrecondition st")
        case True
        then obtain e where p: "store_Precondition rl st w = (e, w1)"
          and b1: "b1 = AddPrecondition e b"
          using one StoredStore by (auto simp: AddDeferredPrecondition_def split: prod.splits)
        show ?thesis
          using store_Precondition_extends[OF p] Precondition_after[OF p, of d] StoredStore b1
          by (auto simp: AddPrecondition_def arg_covers_def)
      next
        case False
        then show ?thesis using one StoredStore
          by (auto simp: AddDeferredPrecondition_def arg_covers_def store_HasPrecondition_def
              covered_read_def covered_write_def)
      qed
    next
      case (StoredView v)
      then show ?thesis using one
        by (auto simp: AddDeferredPrecondition_def AddPrecondition_def arg_covers_def
            view_HasPrecondition_def view_Precondition_def split: if_splits)
    next
      case (StoredFutureView v)
      then show ?thesis using one
        by (auto simp: AddDeferredPrecondition_def AddPrecondition_def arg_covers_def
            view_HasPrecondition_def view_Precondition_def split: if_splits)
    next
      case (StoredFuture f)
      then show ?thesis using one
        by (auto simp: AddDeferredPrecondition_def AddPrecondition_def arg_covers_def split: if_splits)
    next
      case StoredPlain
      then show ?thesis using one by (simp add: AddDeferredPrecondition_def arg_covers_def)
    qed
    note ih = Cons.IH[OF rest]
    have ext: "extends (trace_of w') (trace_of w1)" using ih by blast
    have "\<exists>e \<in> individual_preconditions b'. after (trace_of w') e d"
      if "args_cover (trace_of w) (x # ss) d"
    proof (cases "arg_covers (trace_of w) a d")
      case True
      then show ?thesis using step ih after_extends[OF ext] by blast
    next
      case False
      then have "args_cover (trace_of w) ss d" using that x by simp
      then show ?thesis using ih args_cover_extends[of "trace_of w1" "trace_of w"] step by blast
    qed
    moreover have "extends (trace_of w') (trace_of w)" using extends_trans[OF ext] step by blast
    moreover have "individual_preconditions b \<subseteq> individual_preconditions b'"
      using step ih by (meson subset_trans)
    ultimately show ?case using step ih by simp
  qed
  then show "extends (trace_of w') (trace_of w)"
    and "individual_preconditions b \<subseteq> individual_preconditions b'"
    and "finite (individual_preconditions b) \<Longrightarrow> finite (individual_preconditions b')"
    and "merged_precondition b' = merged_precondition b"
    and "args_cover (trace_of w) ss d \<Longrightarrow>
         \<exists>e \<in> individual_preconditions b'. after (trace_of w') e d"
    by blast+
qed

lemma MergePreconditions_after:
  assumes "MergePreconditions rl b w = ret (b', w')" and "finite (individual_preconditions b)"
  shows "extends (trace_of w') (trace_of w)"
    and "e \<in> individual_preconditions b \<Longrightarrow>
         \<exists>m. merged_precondition b' = Some m \<and> after (trace_of w') m e"
proof -
  have "extends (trace_of w') (trace_of w) \<and> (e \<in> individual_preconditions b \<longrightarrow>
      (\<exists>m. merged_precondition b' = Some m \<and> after (trace_of w') m e))"
  proof (cases "card (individual_preconditions b) = 1")
    case True
    then obtain x where "individual_preconditions b = {x}" by (auto simp: card_1_singleton_iff)
    then show ?thesis using assms(1) after_refl by (auto simp: MergePreconditions_def split: if_splits)
  next
    case False
    then show ?thesis
      using assms merge_set_after[of rl "individual_preconditions b" w _ w'] merge_set_extends[of rl _ w _ w']
      by (auto simp: MergePreconditions_def split: if_splits prod.splits)
  qed
  then show "extends (trace_of w') (trace_of w)"
    and "e \<in> individual_preconditions b \<Longrightarrow>
         \<exists>m. merged_precondition b' = Some m \<and> after (trace_of w') m e" by blast+
qed

lemma make_promises_extends: "make_promises rl rets w = (ps, w') \<Longrightarrow> extends (trace_of w') (trace_of w)"
proof (induction rets arbitrary: w ps)
  case Nil
  then show ?case by simp
next
  case (Cons r rets)
  show ?case
  proof (cases r)
    case ReturnsValue
    then show ?thesis using Cons by (auto split: prod.splits)
  next
    case ReturnsFuture
    then obtain ps1 where "make_promises rl rets (snd (invoke rl CreateUserEvent w)) = (ps1, w')"
      using Cons.prems by (auto split: prod.splits)
    then show ?thesis using extends_trans[OF Cons.IH extends_invoke] by blast
  qed
qed

end
section \<open>What a launch waits for\<close>

lemma AddRealmEventPostconditions_extends:
  fixes ss :: "(bool \<times> 'v stored_arg) list"
  shows "AddRealmEventPostconditions rl ss es w = (es', w') \<Longrightarrow> extends (trace_of w') (trace_of w)"
proof (induction ss arbitrary: es w)
  case Nil
  then show ?case by simp
next
  case (Cons x ss)
  obtain b a where x: "x = (b, a)" by (cases x)
  consider "AddRealmEventPostconditions rl ss es w = (es', w')"
    | st :: "'v store" where "AddRealmEventPostconditions rl ss (insert (fst (store_Precondition rl st w)) es)
        (snd (store_Precondition rl st w)) = (es', w')"
    using Cons.prems x
    by (cases a) (auto simp: case_prod_unfold Let_def split: if_splits)
  then show ?case
  proof cases
    case 1
    then show ?thesis by (rule Cons.IH)
  next
    case 2
    show ?thesis
      using Cons.IH[OF 2] store_Precondition_extends[OF prod.collapse[symmetric]]
      by (rule extends_trans)
  qed
qed

lemma all_effects_extends:
  assumes "all_effects rl rets args task results w = (e, w')"
  shows "extends (trace_of w') (trace_of w)"
proof -
  consider "w' = w"
    | es w1 where "AddRealmEventPostconditions rl (task_arguments task)
          (insert (completion_event task) (set results)) w = (es, w1)" "merge_set rl es w1 = (e, w')"
    using assms by (auto simp: all_effects_def Let_def split: if_splits prod.splits)
  then show ?thesis
  proof cases
    case 2
    show ?thesis
      using merge_set_extends[OF 2(2)] AddRealmEventPostconditions_extends[OF 2(1)]
      by (rule extends_trans)
  qed simp
qed

definition launch_ok :: "task_context \<Rightarrow> task_args \<Rightarrow> bool" where
  "launch_ok ctx args \<longleftrightarrow> context_value as_stream_ordered ctx = None \<and>
     context_value as_group ctx = None \<and> list_all (\<lambda>(b, a). ordered_access a) args"

context event_order
begin

lemma covered_trans:
  assumes "after tr e d"
  shows "covered_write tr st e \<Longrightarrow> covered_write tr st d"
    and "covered_read tr st e \<Longrightarrow> covered_read tr st d"
  using assms after_trans unfolding covered_read_def covered_write_def by blast+

lemma Task_construct_after:
  fixes w w' :: "'z runtime_scheme"
  assumes "Task_construct rl ctx ev rets args fr w = ret (task, fr', w')"
    and "launch_ok ctx args"
  shows "\<exists>(w1 :: 'z runtime_scheme) w2. extends (trace_of w1) (trace_of w) \<and>
    StoreArgsAndSetPostcondition rl ev ev args fr w1 = ret (task_arguments task, fr', w2) \<and>
    extends (trace_of w') (trace_of w2) \<and> completion_event task = ev \<and>
    (\<forall>d. args_cover (trace_of w2) (task_arguments task) d \<longrightarrow>
       (\<exists>m. merged_precondition (task_base_of task) = Some m \<and> after (trace_of w') m d))"
proof -
  have ctx: "context_value as_stream_ordered ctx = None" "ordered_args args"
    using assms(2) by (simp_all add: launch_ok_def ordered_args_def)
  let ?ps = "make_promises rl rets w"
  obtain ss w2 b' where s: "StoreArgsAndSetPostcondition rl ev ev args fr (snd ?ps) = ret (ss, fr', w2)"
    and m': "MergePreconditions rl (fst (AddTaskDependencies rl False ss new_task_base w2))
       (snd (AddTaskDependencies rl False ss new_task_base w2)) = ret (b', w')"
    and task: "task = \<lparr>task_arguments = ss, task_base_of = b', task_promises = fst ?ps,
      completion_event = ev\<rparr>"
    using assms(1) ctx(1)
    by (auto simp: Task_construct_def GetStreamOrderedEvent_def andThen_eq_ret case_prod_unfold Let_def)
  obtain b w3 where a: "AddTaskDependencies rl False ss new_task_base w2 = (b, w3)" by fastforce
  with m' have m: "MergePreconditions rl b w3 = ret (b', w')" by simp
  have p: "make_promises rl rets w = (fst ?ps, snd ?ps)" by simp
  have fin: "finite (individual_preconditions b)"
    using AddTaskDependencies_after(3)[OF a] by (simp add: new_task_base_def)
  have e32: "extends (trace_of w3) (trace_of w2)" by (rule AddTaskDependencies_after(1)[OF a])
  have ext: "extends (trace_of w') (trace_of w3)" by (rule MergePreconditions_after(1)[OF m fin])
  have "\<exists>x. merged_precondition b' = Some x \<and> after (trace_of w') x d"
    if "args_cover (trace_of w2) ss d" for d
  proof -
    obtain e where e: "e \<in> individual_preconditions b" "after (trace_of w3) e d"
      using AddTaskDependencies_after(5)[OF a \<open>args_cover (trace_of w2) ss d\<close>] by blast
    then show ?thesis
      using MergePreconditions_after(2)[OF m fin e(1)] after_extends[OF ext e(2)] after_trans by blast
  qed
  then have "extends (trace_of (snd ?ps)) (trace_of w) \<and>
    StoreArgsAndSetPostcondition rl ev ev args fr (snd ?ps) = ret (task_arguments task, fr', w2) \<and>
    extends (trace_of w') (trace_of w2) \<and> completion_event task = ev \<and>
    (\<forall>d. args_cover (trace_of w2) (task_arguments task) d \<longrightarrow>
       (\<exists>m. merged_precondition (task_base_of task) = Some m \<and> after (trace_of w') m d))"
    using s task make_promises_extends[OF p] extends_trans[OF ext e32] by simp
  then show ?thesis by blast
qed

lemma launch_finish_after:
  assumes "launch_finish rl t ctx rets args p wait task fr w = ret (tok, task', fr', w')"
  shows "extends (trace_of w') (trace_of w)" and "fr_stores fr' = fr_stores fr \<and> fr_futures fr' = fr_futures fr"
    and "task' = Some task"
    and "merged_precondition (task_base_of task) = Some m \<Longrightarrow> after (trace_of w') wait m"
    and "context_value as_event ctx = Some e \<Longrightarrow> after (trace_of w') wait e"
proof -
  let ?ev = "completion_event task"
  obtain pre w1 where pre: "launch_precondition rl ctx task w = (pre, w1)" by fastforce
  obtain w2 where w2: "(if pr_type p = GPU
      then andThen (Util_proc t) (\<lambda>u. ret (command rl (SpawnDelete (pr_proc u) ?ev) w1))
      else ret w1) = ret w2"
    and rest: "(let results = make_futures (task_promises task) ?ev;
          (all_done, w3) = all_effects rl rets args task results w2;
          w4 = command rl (TriggerEvent wait pre) w3
      in andThen (sync_barrier ctx all_done fr) (\<lambda>fr'.
      ret (\<lparr>token_event = all_done, token_futures = results,
            token_control = context_value as_control ctx\<rparr>, Some task, fr', w4))) =
      ret (tok, task', fr', w')"
    using assms by (auto simp: launch_finish_def pre andThen_eq_ret Let_def)
  obtain all_done w3 where
      eff: "all_effects rl rets args task (make_futures (task_promises task) ?ev) w2 = (all_done, w3)"
    by fastforce
  have w': "w' = command rl (TriggerEvent wait pre) w3" and "task' = Some task"
    and sync: "sync_barrier ctx all_done fr = ret fr'"
    using rest by (auto simp: eff andThen_eq_ret Let_def)
  then show "fr_stores fr' = fr_stores fr \<and> fr_futures fr' = fr_futures fr" and "task' = Some task"
    by (auto simp: sync_barrier_def andThen_eq_ret split: option.splits)
  have x1: "extends (trace_of w1) (trace_of w)"
    using pre merge2_extends by (auto simp: launch_precondition_def split: option.splits)
  have "extends (trace_of w2) (trace_of w1)"
    using w2 by (auto simp: andThen_eq_ret split: if_splits)
  then have x': "extends (trace_of w') (trace_of w1)"
    using w' all_effects_extends[OF eff] extends_trans by (metis extends_snoc trace_command)
  show "extends (trace_of w') (trace_of w)" using x' x1 by (rule extends_trans)
  have wait: "after (trace_of w') wait pre"
    by (rule after_trigger[where r = "rl (trace_of w3) (TriggerEvent wait pre)"]) (simp add: w')
  show "after (trace_of w') wait m" if "merged_precondition (task_base_of task) = Some m"
  proof -
    have "after (trace_of w1) pre m" using pre that merge2_after(2) after_refl
      by (auto simp: launch_precondition_def split: option.splits)
    then show ?thesis using wait after_extends[OF x'] after_trans by blast
  qed
  show "after (trace_of w') wait e" if "context_value as_event ctx = Some e"
  proof -
    have "after (trace_of w1) pre e" using pre that merge2_after(1) after_refl
      by (auto simp: launch_precondition_def split: option.splits)
    then show ?thesis using wait after_extends[OF x'] after_trans by blast
  qed
qed

lemma defer_task_after:
  fixes w w' :: "'z runtime_scheme"
  assumes "defer_task rl t ctx rets args fr w = ret (tok, Some task, fr', w')"
    and "launch_ok ctx args"
  shows "\<exists>(w1 :: 'z runtime_scheme) w2 ss fr1. extends (trace_of w1) (trace_of w) \<and> extends (trace_of w') (trace_of w2) \<and>
    StoreArgsAndSetPostcondition rl (completion_event task) (completion_event task) args fr w1 =
      ret (ss, fr1, w2) \<and> fr_stores fr' = fr_stores fr1 \<and> fr_futures fr' = fr_futures fr1 \<and>
    (\<forall>d. args_cover (trace_of w2) ss d \<longrightarrow> after (trace_of w') (completion_event task) d) \<and>
    (\<forall>e. context_value as_event ctx = Some e \<longrightarrow> after (trace_of w') (completion_event task) e) \<and>
    ss = task_arguments task"
proof -
  let ?n = "case context_value as_priority ctx of Some n \<Rightarrow> n | None \<Rightarrow> 0"
  obtain p where p: "launch_on rl t ctx rets args p fr w = ret (tok, Some task, fr', w')"
    using assms(1) by (auto simp: defer_task_def andThen_eq_ret split: if_splits)
  obtain wait w1 where wait: "invoke rl CreateUserEvent w = (wait, w1)" by fastforce
  obtain ev w2 where ev: "invoke rl (SpawnTask (pr_proc p) wait ?n) w1 = (ev, w2)" by fastforce
  obtain task1 fr1 w3 where c: "Task_construct rl ctx ev rets args fr w2 = ret (task1, fr1, w3)"
    and f1: "launch_finish rl t ctx rets args p wait task1 fr1 w3 = ret (tok, Some task, fr', w')"
    using p by (auto simp: launch_on_def wait ev andThen_eq_ret Let_def)
  have "task1 = task" using launch_finish_after(3)[OF f1] by simp
  note c = c[unfolded this] and f = f1[unfolded this]
  obtain w2a w2b :: "'z runtime_scheme" where t: "extends (trace_of w2a) (trace_of w2)"
    "StoreArgsAndSetPostcondition rl ev ev args fr w2a = ret (task_arguments task, fr1, w2b)"
    "extends (trace_of w3) (trace_of w2b)" "completion_event task = ev"
    "\<And>d. args_cover (trace_of w2b) (task_arguments task) d \<Longrightarrow>
       \<exists>m. merged_precondition (task_base_of task) = Some m \<and> after (trace_of w3) m d"
    using Task_construct_after[OF c assms(2)] by blast
  have x2: "extends (trace_of w2) (trace_of w)"
    and spawn: "(SpawnTask (pr_proc p) wait ?n, ev) \<in> set (trace_of w2)"
    using wait ev by (auto simp: invoke_def extends_def)
  have x3': "extends (trace_of w') (trace_of w3)" by (rule launch_finish_after(1)[OF f])
  have x2b: "extends (trace_of w') (trace_of w2b)" using x3' t(3) by (rule extends_trans)
  have "extends (trace_of w2b) (trace_of w2a)"
    using StoreArgs_cover[OF t(2)] assms(2) by (simp add: launch_ok_def ordered_args_def)
  then have x2': "extends (trace_of w') (trace_of w2)" using x2b t(1) extends_trans by blast
  have ready: "after (trace_of w') ev wait" by (rule after_spawn[OF extends_set[OF x2' spawn]])
  have "after (trace_of w') ev e" if "context_value as_event ctx = Some e" for e
    using launch_finish_after(5)[OF f that] ready after_trans by blast
  moreover have "after (trace_of w') ev d" if cov: "args_cover (trace_of w2b) (task_arguments task) d" for d
  proof -
    obtain m where m: "merged_precondition (task_base_of task) = Some m" "after (trace_of w3) m d"
      using t(5)[OF cov] by blast
    have "after (trace_of w') wait m" by (rule launch_finish_after(4)[OF f m(1)])
    then show ?thesis using ready after_extends[OF x3' m(2)] after_trans by blast
  qed
  ultimately show ?thesis using t(1,2,4) launch_finish_after(2)[OF f] x2 x2b extends_trans by blast
qed

end
section \<open>Runs of launches\<close>

text \<open>A program that launches task after task, with the task each launch made (\<open>None\<close>: the
  processor is not in the device list of the context).\<close>

type_synonym launch = "task_context \<times> return_kind list \<times> task_args"

fun launch_all ::
  "realm \<Rightarrow> proc_tables \<Rightarrow> launch list \<Rightarrow> 'v frame \<Rightarrow> 'z runtime_scheme \<Rightarrow>
   ('v task option list \<times> 'v frame \<times> 'z runtime_scheme) res" where
  "launch_all rl t [] fr w = ret ([], fr, w)"
| "launch_all rl t ((ctx, rets, args) # ls) fr w =
     andThen (Context_defer rl t ctx rets args fr w) (\<lambda>(tok, task, fr1, w1).
     andThen (launch_all rl t ls fr1 w1) (\<lambda>(tasks, fr2, w2). ret (task # tasks, fr2, w2)))"

definition launches_ok :: "launch list \<Rightarrow> bool" where
  "launches_ok ls \<longleftrightarrow> list_all (\<lambda>(ctx, rets, args). launch_ok ctx args) ls"

text \<open>
  The views made for the parameters of type \<open>View\<close>: the event that is triggered when the task's view
  is destroyed, and what each of them is for the order of the launches, a read of its store that ends
  with this event.
\<close>

definition reader_release :: "'v task \<Rightarrow> nat \<Rightarrow> event option" where
  "reader_release task p =
     (if p < length (task_arguments task)
      then case snd (task_arguments task ! p) of StoredView v \<Rightarrow> war_dependency v | _ \<Rightarrow> None
      else None)"

definition made_accesses :: "'v task \<Rightarrow> task_args \<Rightarrow> (event \<times> task_args) set" where
  "made_accesses task args = insert (completion_event task, args)
     {(d, [(False, Read k)]) | d k. \<exists>p < length args. snd (args ! p) = Reader k \<and> reader_release task p = Some d}"

definition args_conflict :: "task_args \<Rightarrow> task_args \<Rightarrow> bool" where
  "args_conflict args args' \<longleftrightarrow>
     list_ex (\<lambda>(b, a). list_ex (\<lambda>(b', a'). conflicts a a') args') args"

context event_order
begin

definition tracked :: "'v frame \<Rightarrow> trace \<Rightarrow> (event \<times> task_args) set \<Rightarrow> bool" where
  "tracked fr tr H \<longleftrightarrow> (\<forall>(e, args) \<in> H. \<forall>(b, a) \<in> set args. \<forall>k.
     (a = Write k \<longrightarrow> k < length (fr_stores fr) \<and> covered_write tr (fr_stores fr ! k) e) \<and>
     (a = Read k \<longrightarrow> k < length (fr_stores fr) \<and> covered_read tr (fr_stores fr ! k) e) \<and>
     (a = ReadFuture k \<longrightarrow> k < length (fr_futures fr) \<and> covered_future tr (fr_futures fr ! k) e))"

lemma trackedD:
  assumes "tracked fr tr H" and "(e, args) \<in> H" and "(b, a) \<in> set args"
  shows "a = Write k \<Longrightarrow> k < length (fr_stores fr) \<and> covered_write tr (fr_stores fr ! k) e"
    and "a = Read k \<Longrightarrow> k < length (fr_stores fr) \<and> covered_read tr (fr_stores fr ! k) e"
    and "a = ReadFuture k \<Longrightarrow> k < length (fr_futures fr) \<and> covered_future tr (fr_futures fr ! k) e"
  using assms unfolding tracked_def by fastforce+

lemma tracked_args:
  assumes "StoreArgsAndSetPostcondition rl ev ev args fr w1 = ret (ss, fr1, w2)"
    and "ordered_args args" and "tracked fr (trace_of w1) H"
    and "(e, args') \<in> H" and "args_conflict args' args"
  shows "args_cover (trace_of w2) ss e"
proof -
  obtain b a b' a' where c: "(b, a) \<in> set args'" "(b', a') \<in> set args" "conflicts a a'"
    using assms(5) by (auto simp: args_conflict_def list_ex_iff)
  note acc = StoreArgs_accesses[OF assms(1,2) c(2)] and old = trackedD[OF assms(3,4) c(1)]
  from c(3) consider k where "a = Write k" "a' = Write k" | k where "a = Write k" "a' = Read k"
    | k where "a = Write k" "a' = Reader k" | k where "a = Read k" "a' = Write k"
    | k whole where "a = ReadFuture k" "a' = GiveFuture k whole"
    by (cases rule: conflicts.cases[of "(a, a')"]) auto
  then show ?thesis
  proof cases
    case 5
    then have "GiveFuture k whole \<in> snd ` set args" using c(2) by force
    then show ?thesis using StoreArgs_futures[OF assms(1,2)] old(3) 5 by blast
  qed (use acc(3,4) old covered_read_write in blast)+
qed

lemma defer_step:
  fixes w w' :: "'z runtime_scheme"
  assumes run: "Context_defer rl t ctx rets args fr w = ret (tok, made, fr', w')"
    and ok: "launch_ok ctx args" and tr: "tracked fr (trace_of w) H"
  shows "extends (trace_of w') (trace_of w)"
    and "tracked fr' (trace_of w')
           (H \<union> (case made of Some task \<Rightarrow> made_accesses task args | None \<Rightarrow> {}))"
    and "made = Some task \<Longrightarrow> (e, args') \<in> H \<Longrightarrow> args_conflict args' args \<Longrightarrow>
         after (trace_of w') (completion_event task) e"
    and "made = Some task \<Longrightarrow> p < length args \<Longrightarrow> snd (args ! p) = Reader k \<Longrightarrow> reader_release task p \<noteq> None"
proof -
  have run: "defer_task rl t ctx rets args fr w = ret (tok, made, fr', w')"
    using run ok by (simp add: Context_defer_def launch_ok_def)
  have "extends (trace_of w') (trace_of w) \<and> tracked fr' (trace_of w')
           (H \<union> (case made of Some task \<Rightarrow> made_accesses task args | None \<Rightarrow> {})) \<and>
    (made = Some task \<longrightarrow> (e, args') \<in> H \<longrightarrow> args_conflict args' args \<longrightarrow>
         after (trace_of w') (completion_event task) e) \<and>
    (made = Some task \<longrightarrow> p < length args \<longrightarrow> snd (args ! p) = Reader k \<longrightarrow> reader_release task p \<noteq> None)"
  proof (cases made)
    case None
    then have "fr' = fr \<and> w' = w"
      using run
      by (auto simp: defer_task_def launch_on_def andThen_eq_ret Let_def case_prod_unfold
          split: if_splits dest: launch_finish_after(3))
    then show ?thesis using None tr by simp
  next
    case (Some task1)
    let ?ev = "completion_event task1"
    obtain w1 w2 :: "'z runtime_scheme" and ss fr1 where d: "extends (trace_of w1) (trace_of w)"
      "extends (trace_of w') (trace_of w2)"
      "StoreArgsAndSetPostcondition rl ?ev ?ev args fr w1 = ret (ss, fr1, w2)"
      "fr_stores fr' = fr_stores fr1"
      "\<And>d. args_cover (trace_of w2) ss d \<Longrightarrow> after (trace_of w') ?ev d"
      "fr_futures fr' = fr_futures fr1" "ss = task_arguments task1"
      using defer_task_after[OF run[unfolded Some] ok] by blast
    have ord: "ordered_args args" using ok by (simp add: launch_ok_def ordered_args_def)
    note all = StoreArgs_cover[OF d(3) ord] and acc = StoreArgs_accesses[OF d(3) ord]
    have ext: "extends (trace_of w') (trace_of w1)" using d(2) all extends_trans by blast
    note futs = StoreArgs_futures[OF d(3) ord]
    have tr1: "tracked fr (trace_of w1) H"
      using tr covered_extends[OF d(1)] covered_future_extends[OF d(1)] unfolding tracked_def by fastforce
    have keep_f: "covered_future (trace_of w') (fr_futures fr' ! k) x"
      if "k < length (fr_futures fr)" "covered_future (trace_of w1) (fr_futures fr ! k) x" for k x
      unfolding d(6) by (rule covered_future_extends[OF d(2)]) (use that futs in blast)
    have new_f: "covered_future (trace_of w') (fr_futures fr' ! k) ?ev" if "ReadFuture k \<in> snd ` set args" for k
      unfolding d(6) by (rule covered_future_extends[OF d(2)]) (use that futs in blast)
    have new: "covered_write (trace_of w') (fr_stores fr' ! k) ?ev"
      if "Write k \<in> snd ` set args" for k
      using that acc(1) covered_extends(1)[OF d(2)] d(4) by fastforce
    have keep_w: "covered_write (trace_of w') (fr_stores fr' ! k) x"
      if "k < length (fr_stores fr)" "covered_write (trace_of w1) (fr_stores fr ! k) x" for k x
      unfolding d(4) by (rule covered_extends(1)[OF d(2)]) (use that all in blast)
    have keep_r: "covered_read (trace_of w') (fr_stores fr' ! k) x"
      if old: "k < length (fr_stores fr)" "covered_read (trace_of w1) (fr_stores fr ! k) x" for k x
    proof (cases "covered_read (trace_of w2) (fr_stores fr1 ! k) x")
      case True
      then show ?thesis unfolding d(4) by (rule covered_extends(2)[OF d(2)])
    next
      case False
      then have "Write k \<in> snd ` set args" "args_cover (trace_of w2) ss x" using all old by blast+
      then show ?thesis using new d(5) covered_trans(1) covered_read_write by blast
    qed
    have len: "length (fr_stores fr') = length (fr_stores fr)" "length (fr_futures fr') = length (fr_futures fr)"
      using all futs d(4,6) by simp_all
    have "tracked fr' (trace_of w') H"
      unfolding tracked_def
    proof (intro ballI, clarify)
      fix e' as b a k assume H: "(e', as) \<in> H" and a: "(b, a) \<in> set as"
      show "(a = Write k \<longrightarrow> k < length (fr_stores fr') \<and>
               covered_write (trace_of w') (fr_stores fr' ! k) e') \<and>
            (a = Read k \<longrightarrow> k < length (fr_stores fr') \<and>
               covered_read (trace_of w') (fr_stores fr' ! k) e') \<and>
            (a = ReadFuture k \<longrightarrow> k < length (fr_futures fr') \<and>
               covered_future (trace_of w') (fr_futures fr' ! k) e')"
        using trackedD[OF tr1 H a, of k] keep_w keep_r keep_f len by auto
    qed
    moreover have "tracked fr' (trace_of w') {(?ev, args)}"
      unfolding tracked_def
    proof (intro ballI, clarify)
      fix b a k assume a: "(b, a) \<in> set args"
      show "(a = Write k \<longrightarrow> k < length (fr_stores fr') \<and>
               covered_write (trace_of w') (fr_stores fr' ! k) ?ev) \<and>
            (a = Read k \<longrightarrow> k < length (fr_stores fr') \<and>
               covered_read (trace_of w') (fr_stores fr' ! k) ?ev) \<and>
            (a = ReadFuture k \<longrightarrow> k < length (fr_futures fr') \<and>
               covered_future (trace_of w') (fr_futures fr' ! k) ?ev)"
      proof (intro conjI impI)
        assume "a = ReadFuture k"
        then have "ReadFuture k \<in> snd ` set args" using a by force
        then show "k < length (fr_futures fr')" "covered_future (trace_of w') (fr_futures fr' ! k) ?ev"
          using futs new_f len by auto
      qed (use acc(1,2)[OF a, of k] covered_extends[OF d(2)] len d(4) in auto)
    qed
    moreover have released: "l < length (fr_stores fr') \<and> covered_read (trace_of w') (fr_stores fr' ! l) x"
      if p: "p < length args" "snd (args ! p) = Reader l" "reader_release task1 p = Some x" for x l p
    proof -
      note r = StoreArgs_reader[OF d(3) ord p(1,2)]
      have "covered_read (trace_of w2) (fr_stores fr1 ! l) x \<or>
          Write l \<in> snd ` set args \<and> args_cover (trace_of w2) ss x"
        using r p(3) d(7) by (auto simp: reader_release_def)
      then have "covered_read (trace_of w') (fr_stores fr' ! l) x"
      proof
        assume "covered_read (trace_of w2) (fr_stores fr1 ! l) x"
        then show ?thesis unfolding d(4) by (rule covered_extends(2)[OF d(2)])
      next
        assume "Write l \<in> snd ` set args \<and> args_cover (trace_of w2) ss x"
        then show ?thesis using new d(5) covered_trans(1) covered_read_write by blast
      qed
      then show ?thesis using r len by simp
    qed
    then have "tracked fr' (trace_of w')
        {(x, [(False, Read k)]) | x k. \<exists>p < length args. snd (args ! p) = Reader k \<and> reader_release task1 p = Some x}"
      by (auto simp: tracked_def)
    ultimately have "tracked fr' (trace_of w') (H \<union> made_accesses task1 args)"
      by (simp add: tracked_def ball_Un made_accesses_def)
    moreover have "reader_release task1 p \<noteq> None" if "p < length args" "snd (args ! p) = Reader k"
      using StoreArgs_reader[OF d(3) ord that] d(7) by (auto simp: reader_release_def)
    moreover have "after (trace_of w') ?ev e" if "(e, args') \<in> H" "args_conflict args' args"
      using d(5) tracked_args[OF d(3) ord tr1 that] by blast
    ultimately show ?thesis using Some ext d(1) extends_trans by auto
  qed
  then show "extends (trace_of w') (trace_of w)"
    and "tracked fr' (trace_of w')
           (H \<union> (case made of Some task \<Rightarrow> made_accesses task args | None \<Rightarrow> {}))"
    and "made = Some task \<Longrightarrow> (e, args') \<in> H \<Longrightarrow> args_conflict args' args \<Longrightarrow>
         after (trace_of w') (completion_event task) e"
    and "made = Some task \<Longrightarrow> p < length args \<Longrightarrow> snd (args ! p) = Reader k \<Longrightarrow> reader_release task p \<noteq> None"
    by blast+
qed

lemma launch_all_after:
  assumes "launch_all rl t ls fr w = ret (tasks, fr', w')" and "launches_ok ls"
    and "tracked fr (trace_of w) H"
  shows "extends (trace_of w') (trace_of w) \<and> length tasks = length ls \<and>
    (\<forall>j task e args'. j < length ls \<longrightarrow> tasks ! j = Some task \<longrightarrow> (e, args') \<in> H \<longrightarrow>
       args_conflict args' (snd (snd (ls ! j))) \<longrightarrow> after (trace_of w') (completion_event task) e) \<and>
    (\<forall>i j task task' e args'. i < j \<longrightarrow> j < length ls \<longrightarrow> tasks ! i = Some task \<longrightarrow> tasks ! j = Some task' \<longrightarrow>
       (e, args') \<in> made_accesses task (snd (snd (ls ! i))) \<longrightarrow>
       args_conflict args' (snd (snd (ls ! j))) \<longrightarrow> after (trace_of w') (completion_event task') e) \<and>
    (\<forall>i task p k. i < length ls \<longrightarrow> tasks ! i = Some task \<longrightarrow> p < length (snd (snd (ls ! i))) \<longrightarrow>
       snd (snd (snd (ls ! i)) ! p) = Reader k \<longrightarrow> reader_release task p \<noteq> None)"
  using assms
proof (induction ls arbitrary: fr w H tasks)
  case Nil
  then show ?case by simp
next
  case (Cons l ls)
  obtain ctx rets args where l: "l = (ctx, rets, args)" by (cases l)
  obtain tok made fr1 w1 made_rest where one: "Context_defer rl t ctx rets args fr w = ret (tok, made, fr1, w1)"
    and rest: "launch_all rl t ls fr1 w1 = ret (made_rest, fr', w')"
    and tasks: "tasks = made # made_rest"
    using Cons.prems(1) l by (auto simp: andThen_eq_ret)
  have ok: "launch_ok ctx args" "launches_ok ls"
    using Cons.prems(2) l by (simp_all add: launches_ok_def)
  let ?H = "H \<union> (case made of Some task \<Rightarrow> made_accesses task args | None \<Rightarrow> {})"
  note step = defer_step[OF one ok(1) Cons.prems(3)]
  note ih = Cons.IH[OF rest ok(2) step(2)]
  have ext: "extends (trace_of w') (trace_of w1)" using ih by blast
  show ?case
  proof (intro conjI allI impI)
    show "extends (trace_of w') (trace_of w)" using ext step(1) by (rule extends_trans)
    show "length tasks = length (l # ls)" using ih tasks by simp
  next
    fix j task e args'
    assume j: "j < length (l # ls)" "tasks ! j = Some task" "(e, args') \<in> H"
      "args_conflict args' (snd (snd ((l # ls) ! j)))"
    show "after (trace_of w') (completion_event task) e"
    proof (cases j)
      case 0
      then show ?thesis using j step(3) after_extends[OF ext] tasks l by auto
    next
      case (Suc n)
      have "(e, args') \<in> ?H" using j(3) by simp
      then show ?thesis using ih j tasks Suc by fastforce
    qed
  next
    fix i j task task' e args'
    assume ij: "i < j" "j < length (l # ls)" "tasks ! i = Some task" "tasks ! j = Some task'"
      "(e, args') \<in> made_accesses task (snd (snd ((l # ls) ! i)))" "args_conflict args' (snd (snd ((l # ls) ! j)))"
    then obtain n where n: "j = Suc n" by (cases j) auto
    show "after (trace_of w') (completion_event task') e"
    proof (cases i)
      case 0
      then have "(e, args') \<in> ?H" using ij(3,5) tasks l by simp
      moreover have "n < length ls" "made_rest ! n = Some task'" "args_conflict args' (snd (snd (ls ! n)))"
        using ij(2,4,6) n tasks by simp_all
      ultimately show ?thesis using ih by blast
    next
      case (Suc m)
      then show ?thesis using ih ij n tasks by simp
    qed
  next
    fix i task p k
    assume i: "i < length (l # ls)" "tasks ! i = Some task" "p < length (snd (snd ((l # ls) ! i)))"
      "snd (snd (snd ((l # ls) ! i)) ! p) = Reader k"
    show "reader_release task p \<noteq> None"
    proof (cases i)
      case 0
      then show ?thesis using step(4) i tasks l by simp
    next
      case (Suc m)
      then show ?thesis using ih i tasks by simp
    qed
  qed
qed

end

text \<open>
  C22. Sequential semantics: when two tasks of a program use the same store and one of them writes it,
  the later one waits for the earlier one, whatever was launched in between; and so does a task that
  takes a future for one that read it. When the earlier one took the store as a \<open>View\<close>, which it may
  keep, and the later one writes it, the later one waits for the event of that view instead, which is
  triggered when the view is destroyed. The tasks may have explicit preconditions, priorities,
  barriers and control events; they are not stream-ordered and do not take a whole store.
\<close>

theorem launch_order:
  assumes "launch_all rl t ls fr w = ret (tasks, fr', w')" and "launches_ok ls"
    and "i < j" and "j < length ls" and "tasks ! i = Some task" and "tasks ! j = Some task'"
  shows "(args_conflict (snd (snd (ls ! i))) (snd (snd (ls ! j))) \<longrightarrow>
      depends (trace_of w') (completion_event task') (completion_event task)) \<and>
    (\<forall>p k. p < length (snd (snd (ls ! i))) \<longrightarrow> snd (snd (snd (ls ! i)) ! p) = Reader k \<longrightarrow>
      Write k \<in> snd ` set (snd (snd (ls ! j))) \<longrightarrow>
      (\<exists>d. reader_release task p = Some d \<and> depends (trace_of w') (completion_event task') d))"
proof -
  let ?as = "snd (snd (ls ! i))" and ?bs = "snd (snd (ls ! j))"
  have "deps.tracked fr (trace_of w) {}" by (simp add: deps.tracked_def)
  note all = deps.launch_all_after[OF assms(1,2) this]
  have after: "depends (trace_of w') (completion_event task') e"
    if "(e, args') \<in> made_accesses task ?as" "args_conflict args' ?bs" for e args'
    by (rule all[THEN conjunct2, THEN conjunct2, THEN conjunct2, THEN conjunct1, rule_format,
          OF assms(3-6) that])
  have "depends (trace_of w') (completion_event task') (completion_event task)" if "args_conflict ?as ?bs"
    by (rule after[OF _ that]) (simp add: made_accesses_def)
  moreover have "\<exists>d. reader_release task p = Some d \<and> depends (trace_of w') (completion_event task') d"
    if p: "p < length ?as" "snd (?as ! p) = Reader k" and wr: "Write k \<in> snd ` set ?bs" for p k
  proof -
    have "i < length ls" using assms(3,4) by simp
    from all[THEN conjunct2, THEN conjunct2, THEN conjunct2, THEN conjunct2, rule_format,
        OF this assms(5) p] obtain d where d: "reader_release task p = Some d" by blast
    have "(d, [(False, Read k)]) \<in> made_accesses task ?as" using p d by (auto simp: made_accesses_def)
    moreover have "args_conflict [(False, Read k)] ?bs" using wr by (force simp: args_conflict_def list_ex_iff)
    ultimately show ?thesis using after d by blast
  qed
  ultimately show ?thesis by blast
qed

text \<open>A task that takes a view of a store and a writer of it, which has an explicit precondition as well.\<close>

definition example_launches :: "launch list" where
  "example_launches = [([], [], [(False, Reader 0), (False, Read 1)]),
     (ctx_after 9 [], [], [(False, Write 0), (False, Write 1)])]"

definition example_frame :: "unit frame" where
  "example_frame = \<lparr>fr_stores = [Store_DeferredCreate 100 (), Store_DeferredCreate 200 ()], fr_views = [],
     fr_futures = [], fr_barriers = []\<rparr>"

definition start :: runtime where
  "start = \<lparr>trace_of = [], pending_ops = 0\<rparr>"

lemmas launch_defs = Context_defer_def defer_task_def launch_on_def launch_finish_def
  launch_precondition_def sync_barrier_def Task_construct_def GetStreamOrderedEvent_def
  ToTaskArgument_def store_ops vec_at_def MergePreconditions_def AddDeferredPrecondition_def
  AddPrecondition_def new_task_base_def all_effects_def merge_set_def make_futures_def
  store_HasPrecondition_def view_HasPrecondition_def view_Precondition_def deferred_access_def
  set_store_def merge2_def invoke_def command_def fresh_realm_def start_def
  Store_DeferredCreate_def context_add_def

lemma example_launches_run:
  "\<exists>fr' w' a b. launch_all fresh_realm util_tables example_launches example_frame start =
     ret ([Some a, Some b], fr', w')"
  by (simp add: example_launches_def example_frame_def launch_defs ctx_after_def Let_def numeral_2_eq_2 [symmetric])

theorem launch_order_witness:
  "\<exists>fr' w' a b. launch_all fresh_realm util_tables example_launches example_frame start =
     ret ([Some a, Some b], fr', w') \<and>
     depends (trace_of w') (completion_event b) (completion_event a) \<and>
     (\<exists>d. reader_release a 0 = Some d \<and> depends (trace_of w') (completion_event b) d)"
proof -
  obtain fr' w' a b where run: "launch_all fresh_realm util_tables example_launches example_frame
      start = ret ([Some a, Some b], fr', w')"
    using example_launches_run by blast
  have ok: "launches_ok example_launches" and len: "1 < length example_launches"
    and c: "args_conflict (snd (snd (example_launches ! 0))) (snd (snd (example_launches ! 1)))"
    and r: "0 < length (snd (snd (example_launches ! 0)))" "snd (snd (snd (example_launches ! 0)) ! 0) = Reader 0"
      "Write 0 \<in> snd ` set (snd (snd (example_launches ! 1)))"
    by (simp_all add: launches_ok_def launch_ok_def example_launches_def args_conflict_def
        ordered_access_def ctx_after_def context_add_def)
  have "[Some a, Some b] ! 0 = Some a" "[Some a, Some b] ! 1 = Some b" by simp_all
  from launch_order[OF run ok zero_less_one len this] c r
  have "depends (trace_of w') (completion_event b) (completion_event a) \<and>
     (\<exists>d. reader_release a 0 = Some d \<and> depends (trace_of w') (completion_event b) d)" by blast
  with run show ?thesis by blast
qed

section \<open>Results as arguments\<close>

lemma make_promises_nth:
  "make_promises rl rets w = (ps, w') \<Longrightarrow> length ps = length rets \<and>
   (\<forall>i < length rets. rets ! i = ReturnsValue \<longrightarrow> ps ! i = None)"
proof (induction rets arbitrary: w ps)
  case (Cons r rets)
  obtain p w1 ps1 where "ps = p # ps1" "make_promises rl rets w1 = (ps1, w')" "r = ReturnsValue \<longrightarrow> p = None"
    using Cons.prems by (cases r) (auto split: prod.splits)
  then show ?case using Cons.IH[of w1 ps1] by (auto simp: less_Suc_eq_0_disj)
qed simp

lemma defer_task_result:
  assumes "defer_task rl t ctx rets args fr w = ret (tok, Some task, fr', w')"
    and "i < length rets" and "rets ! i = ReturnsValue"
  shows "token_futures tok ! i = completion_event task"
proof -
  obtain p where "launch_on rl t ctx rets args p fr w = ret (tok, Some task, fr', w')"
    using assms(1) by (auto simp: defer_task_def andThen_eq_ret split: if_splits)
  then obtain wait ev task1 fr1 w2 w3 where c1: "Task_construct rl ctx ev rets args fr w2 = ret (task1, fr1, w3)"
    and f1: "launch_finish rl t ctx rets args p wait task1 fr1 w3 = ret (tok, Some task, fr', w')"
    by (auto simp: launch_on_def andThen_eq_ret Let_def split: prod.splits)
  have "task1 = task" using deps.launch_finish_after(3)[OF f1] by simp
  note c = c1[unfolded this] and f = f1[unfolded this]
  from f have tok: "token_futures tok = make_futures (task_promises task) (completion_event task)"
    by (auto simp: launch_finish_def andThen_eq_ret Let_def case_prod_unfold split: if_splits)
  from c have "task_promises task = fst (make_promises rl rets w2)"
    by (auto simp: Task_construct_def andThen_eq_ret Let_def case_prod_unfold)
  then have ps: "make_promises rl rets w2 = (task_promises task, snd (make_promises rl rets w2))" by simp
  have "length (task_promises task) = length rets" "task_promises task ! i = None"
    using make_promises_nth[OF ps] assms(2,3) by blast+
  then show ?thesis using tok assms(2) by (auto simp: make_futures_def)
qed

lemma result_chain:
  fixes w2 w3 :: "'y runtime_scheme"
  assumes "Context_defer rl t ctx rets args fr w = ret (tok, Some task, fr1, w1)"
    and "i < length rets" and "rets ! i = ReturnsValue"
    and "fut_pre (fr_futures fr2 ! k) = Some (token_futures tok ! i)"
    and "Context_defer rl t ctx' rets' args' fr2 w2 = ret (tok', Some task', fr3, w3)"
    and "launch_ok ctx' args'" and "(in_vector, a) \<in> set args'"
    and "a = ReadFuture k \<or> a = GiveFuture k whole \<and> fut_war (fr_futures fr2 ! k) = None"
  shows "depends (trace_of w3) (completion_event task') (completion_event task)"
proof -
  have "defer_task rl t ctx rets args fr w = ret (tok, Some task, fr1, w1)"
    using assms(1) by (auto simp: Context_defer_def andThen_eq_ret Let_def split: option.splits prod.splits)
  then have pre: "fut_pre (fr_futures fr2 ! k) = Some (completion_event task)"
    using defer_task_result assms(2-4) by metis
  have "defer_task rl t ctx' rets' args' fr2 w2 = ret (tok', Some task', fr3, w3)"
    using assms(5,6) by (simp add: Context_defer_def launch_ok_def)
  from deps.defer_task_after[OF this assms(6)] obtain wa wb :: "'y runtime_scheme" and ss fra where
    s: "StoreArgsAndSetPostcondition rl (completion_event task') (completion_event task') args' fr2 wa = ret (ss, fra, wb)"
    and after: "\<And>d. deps.args_cover (trace_of wb) ss d \<Longrightarrow> depends (trace_of w3) (completion_event task') d"
    by blast
  have a: "a \<in> snd ` set args'" using assms(7) by force
  have ord: "deps.ordered_args args'" using assms(6) by (simp add: launch_ok_def deps.ordered_args_def)
  from assms(8) have "deps.args_cover (trace_of wb) ss (completion_event task)"
  proof
    assume "a = ReadFuture k"
    then show ?thesis using deps.StoreArgs_futures[OF s ord] a pre by simp
  next
    assume "a = GiveFuture k whole \<and> fut_war (fr_futures fr2 ! k) = None"
    then show ?thesis using deps.StoreArgs_result[OF s ord pre] a by simp
  qed
  then show ?thesis by (rule after)
qed

text \<open>
  C23. Data flow: a task that is passed a value an earlier task returned, as the future the launch made,
  runs after the task that computes it, whatever happened to the program's other variables in between:
  a task that reads the future, and a task the future is moved to when no view of the future was made
  before. A future of which a view was made has its views' events instead of its own, and the order
  can be lost (\<open>viewed_future_forgets\<close>).
\<close>

theorem result_order:
  fixes w2 w3 :: "'y runtime_scheme"
  assumes "Context_defer rl t ctx rets args fr w = ret (tok, Some task, fr1, w1)"
    and "i < length rets" and "rets ! i = ReturnsValue"
    and "fut_pre (fr_futures fr2 ! k) = Some (token_futures tok ! i)"
    and "Context_defer rl t ctx' rets' args' fr2 w2 = ret (tok', Some task', fr3, w3)"
    and "launch_ok ctx' args'" and "(in_vector, a) \<in> set args'"
    and "a = ReadFuture k \<or> a = GiveFuture k whole \<and> fut_war (fr_futures fr2 ! k) = None"
  shows "depends (trace_of w3) (completion_event task') (completion_event task)"
  by (rule result_chain[OF assms])

text \<open>A task that returns a value and a task that is passed the future of it.\<close>

definition future_frame :: "event \<Rightarrow> unit frame" where
  "future_frame ev = \<lparr>fr_stores = [], fr_views = [], fr_futures = [Future_of_optional ev (Some 0)], fr_barriers = []\<rparr>"

theorem result_order_witness:
  "\<exists>tok task fr1 w1 tok' task' fr3 w3.
     Context_defer fresh_realm util_tables [] [ReturnsValue] [] example_frame start = ret (tok, Some task, fr1, w1) \<and>
     Context_defer fresh_realm util_tables [] [] [(False, ReadFuture 0)] (future_frame (token_futures tok ! 0)) w1 =
       ret (tok', Some task', fr3, w3) \<and>
     depends (trace_of w3) (completion_event task') (completion_event task)"
proof -
  obtain tok task fr1 w1 where one: "Context_defer fresh_realm util_tables [] [ReturnsValue] [] example_frame start =
      ret (tok, Some (task :: unit task), fr1, w1)"
    by (simp add: example_frame_def launch_defs Let_def)
  obtain tok' task' fr3 w3 where two: "Context_defer fresh_realm util_tables [] [] [(False, ReadFuture 0)]
      (future_frame (token_futures tok ! 0)) w1 = ret (tok', Some (task' :: unit task), fr3, w3)"
    by (simp add: future_frame_def Future_view_on_def Future_view_after_def Future_of_optional_def both_events_def
        set_future_def launch_defs Let_def)
  have pre: "fut_pre (fr_futures (future_frame (token_futures tok ! 0)) ! 0) = Some (token_futures tok ! 0)"
    by (simp add: future_frame_def Future_of_optional_def)
  have "depends (trace_of w3) (completion_event task') (completion_event task)"
    by (rule result_order[OF one _ _ pre two, where in_vector = False and a = "ReadFuture 0" and whole = False])
      (simp_all add: launch_ok_def ordered_access_def)
  then show ?thesis using one two by blast
qed

section \<open>Where the order breaks\<close>

text \<open>
  Once a view of a future was made, the future's precondition is the event of that view and no longer
  that of the task that computes the value. A view that is destroyed without having been used
  triggers its event at once, so that a task the future is moved to can run before the value exists.
\<close>

lemma viewed_future_forgets:
  assumes "fut_war f = None" and "Future_view rl f w = (v, f', w')"
  obtains u where "war_dependency (fv_events v) = Some u" and "Future_Precondition f' = u"
    and "view_destroy rl t (fv_events v) w' = ret (command rl (TriggerEvent u NO_EVENT) w')"
  using assms by (auto simp: Future_view_def Future_view_after_def Future_Precondition_def view_destroy_def
      split: prod.splits)

text \<open>
  A bulk launch hands no field of its context to the tasks it makes: what \<open>drop\<close> keeps it keeps
  by reference, under a type no lookup asks for. \<open>after(ev).on(group)\<close> does not wait for \<open>ev\<close>.
\<close>

lemma bulk_launch_forgets: "context_value as (ctx_drop_group ctx) = None"
  by (induction ctx) (auto simp: ctx_drop_group_def)

text \<open>
  A store that is passed twice to one task, once to be written and once to be read, is a deadlock:
  the view's precondition is the task itself.
\<close>

lemma write_and_read_deadlock:
  "\<exists>tok task fr w'. Context_defer fresh_realm util_tables [] [] [(False, Write 0), (False, Read 0)]
       example_frame start = ret (tok, Some task, fr, w') \<and>
     depends (trace_of w') 1 (completion_event task) \<and> depends (trace_of w') (completion_event task) 1"
proof -
  let ?tr = "[(CreateUserEvent, 1), (SpawnTask 7 1 0, 2), (MergeEvents [2, 100], 3),
    (MergeEvents [2, 100], 4), (MergeEvents [3, 100], 5), (TriggerEvent 1 5, 6)] :: trace"
  have "depends ?tr 1 5" by (intro deps.after_trigger) auto
  also have "depends ?tr 5 3" by (intro deps.after_merge[of "[3, 100]"]) auto
  also have "depends ?tr 3 2" by (intro deps.after_merge[of "[2, 100]"]) auto
  finally have "depends ?tr 1 2" .
  moreover have "depends ?tr 2 1" by (intro deps.after_spawn[of 7 1 0]) auto
  ultimately show ?thesis
    by (simp add: example_frame_def launch_defs numeral_2_eq_2 [symmetric])
qed

text \<open>
  The token of a task that takes a whole store does not wait for what the task does with it:
  \<open>AddRealmEventPostcondition\<close> adds the store's precondition, not its notification, here event 3.
\<close>

lemma token_ignores_child:
  "\<exists>tok task fr w'. Context_defer fresh_realm util_tables [] [] [(False, Child 0)] example_frame start =
       ret (tok, Some task, fr, w') \<and>
     (\<exists>c. task_arguments task = [(False, StoredStore c)] \<and> store_Postcondition c = 3) \<and>
     \<not> depends (trace_of w') (token_event tok) 3"
proof -
  let ?tr = "[(CreateUserEvent, 1), (SpawnTask 7 1 0, 2), (CreateUserEvent, 3),
    (MergeEvents [3, 100], 4), (MergeEvents [3, 100], 5), (MergeEvents [2, 100], 6),
    (TriggerEvent 1 100, 7)] :: trace"
  have w: "waits ?tr = {(2, 1), (4, 3), (4, 100), (5, 3), (5, 100), (6, 2), (6, 100), (1, 100)}"
    by (auto simp: waits_Cons)
  have reach: "y \<in> {6, 2, 1, 100}" if "(6, y) \<in> (waits ?tr)\<^sup>*" for y
    using that unfolding w by (induction rule: rtrancl_induct) auto
  have "\<not> depends ?tr 6 3" unfolding depends_def by (rule notI) (drule reach, simp)
  then show ?thesis
    by (simp add: example_frame_def launch_defs store_Postcondition_def numeral_2_eq_2 [symmetric])
qed

end
