(* ===== verification/Futures.thy ===== *)
theory Futures
  imports Tasks
begin

text \<open>
  Futures and promises: \<open>Future\<close> of \<open>src/zuku/future.h\<close>, \<open>src/zuku/promise.h\<close> and the token
  parts of \<open>src/zuku/token.h\<close>. A future holds a shared pointer: to an optional that a task fills
  in, or, when the task itself returns a future, to a future that is resolved later. Shared objects
  live in a memory; a pointer is an address in it, \<open>None\<close> the null pointer.
\<close>

section \<open>Memory\<close>

record 'v memory = runtime +
  optional_cells :: "nat \<Rightarrow> 'v option"
  future_cells :: "nat \<Rightarrow> future"
  next_cell :: nat

definition new_optional :: "'v option \<Rightarrow> ('v, 'z) memory_scheme \<Rightarrow> nat \<times> ('v, 'z) memory_scheme" where
  \<comment> \<open>\<open>std::make_shared<std::optional<T>>\<close>\<close>
  "new_optional x h = (next_cell h,
     h\<lparr>optional_cells := (optional_cells h)(next_cell h := x), next_cell := next_cell h + 1\<rparr>)"

definition new_future :: "future \<Rightarrow> ('v, 'z) memory_scheme \<Rightarrow> nat \<times> ('v, 'z) memory_scheme" where
  "new_future f h = (next_cell h,
     h\<lparr>future_cells := (future_cells h)(next_cell h := f), next_cell := next_cell h + 1\<rparr>)"

section \<open>Futures\<close>

definition Future_of_value ::
  "event \<Rightarrow> 'v \<Rightarrow> ('v, 'z) memory_scheme \<Rightarrow> future \<times> ('v, 'z) memory_scheme" where
  "Future_of_value ev v h = (let (c, h') = new_optional (Some v) h in (Future_of_optional ev (Some c), h'))"

definition Future_CreateEmptyShared :: "('v, 'z) memory_scheme \<Rightarrow> nat \<times> ('v, 'z) memory_scheme" where
  "Future_CreateEmptyShared h = new_future Future_CreateEmpty h"

definition Future_get_deferred_value :: "future \<Rightarrow> (nat option \<times> future) res" where
  \<comment> \<open>with what is left of the future\<close>
  "Future_get_deferred_value f = (case fut_value f of
     FuturePtr a \<Rightarrow> ret (a, f\<lparr>fut_value := FuturePtr None\<rparr>) | OptionalPtr c \<Rightarrow> fail BadAccess)"

definition Future_shared_value :: "future \<Rightarrow> (nat option \<times> future) res" where
  "Future_shared_value f = (case fut_value f of
     OptionalPtr c \<Rightarrow> ret (c, f\<lparr>fut_value := OptionalPtr None\<rparr>) | FuturePtr a \<Rightarrow> fail BadAccess)"

text \<open>
  Both \<open>get_value\<close> members follow the pointers to a future until they find the optional. Nothing bounds
  the chain, so the search may not return.
\<close>

partial_function (option) follow ::
  "('v, 'z) memory_scheme \<Rightarrow> future_value \<Rightarrow> nat res option" where
  "follow h v = (case v of
     FuturePtr None \<Rightarrow> Some (fail (Undefined NullPointer))
   | FuturePtr (Some a) \<Rightarrow> follow h (fut_value (future_cells h a))
   | OptionalPtr None \<Rightarrow> Some (fail (Undefined NullPointer))
   | OptionalPtr (Some c) \<Rightarrow> Some (ret c))"

definition Future_get_value :: "('v, 'z) memory_scheme \<Rightarrow> future \<Rightarrow> 'v res option" where
  \<comment> \<open>on an lvalue: \<open>optional::value\<close>\<close>
  "Future_get_value h f = map_option (\<lambda>r. andThen r (\<lambda>c.
     case optional_cells h c of Some x \<Rightarrow> ret x | None \<Rightarrow> fail BadAccess)) (follow h (fut_value f))"

definition Future_take_value ::
  "('v \<Rightarrow> 'v) \<Rightarrow> ('v, 'z) memory_scheme \<Rightarrow> future \<Rightarrow> ('v \<times> ('v, 'z) memory_scheme) res option" where
  \<comment> \<open>on an rvalue: the value is moved out of the optional without a test; \<open>gone\<close> is what a move leaves\<close>
  "Future_take_value gone h f = map_option (\<lambda>r. andThen r (\<lambda>c.
     case optional_cells h c of
       Some x \<Rightarrow> ret (x, h\<lparr>optional_cells := (optional_cells h)(c := Some (gone x))\<rparr>)
     | None \<Rightarrow> fail (Undefined EmptyOptional))) (follow h (fut_value f))"

definition Future_wait_and_get ::
  "realm \<Rightarrow> ('v, 'z) memory_scheme \<Rightarrow> future \<Rightarrow> ('v res \<times> ('v, 'z) memory_scheme) option" where
  "Future_wait_and_get rl h f =
     (let h' = (case fut_pre f of Some e \<Rightarrow> command rl (WaitEvent e) h | None \<Rightarrow> h)
      in map_option (\<lambda>r. (r, h')) (Future_get_value h' f))"

definition future_view_value :: "('v, 'z) memory_scheme \<Rightarrow> future_view \<Rightarrow> 'v res" where
  \<comment> \<open>\<open>View::value\<close> over a future's pointer\<close>
  "future_view_value h v = (case fv_value v of
     FuturePtr a \<Rightarrow> fail (RuntimeError ''cannot get value from View with unresolved Future'')
   | OptionalPtr None \<Rightarrow> fail (Undefined NullPointer)
   | OptionalPtr (Some c) \<Rightarrow> (case optional_cells h c of Some x \<Rightarrow> ret x | None \<Rightarrow> fail BadAccess))"

section \<open>Promises\<close>

record promise =
  deferred_event :: "event option"
  promise_value :: future_value

definition Promise_deferred ::
  "event \<Rightarrow> ('v, 'z) memory_scheme \<Rightarrow> promise \<times> ('v, 'z) memory_scheme" where
  "Promise_deferred u h =
     (let (a, h') = Future_CreateEmptyShared h
      in (\<lparr>deferred_event = Some u, promise_value = FuturePtr (Some a)\<rparr>, h'))"

definition Promise_concrete :: "('v, 'z) memory_scheme \<Rightarrow> promise \<times> ('v, 'z) memory_scheme" where
  "Promise_concrete h =
     (let (c, h') = new_optional None h
      in (\<lparr>deferred_event = None, promise_value = OptionalPtr (Some c)\<rparr>, h'))"

definition HasDeferredEvent :: "promise \<Rightarrow> bool" where
  "HasDeferredEvent p \<longleftrightarrow> deferred_event p \<noteq> None"

definition DeferredEvent :: "promise \<Rightarrow> event res" where
  "DeferredEvent p = opt_get (deferred_event p)"

definition Promise_get_deferred_value :: "promise \<Rightarrow> nat option res" where
  "Promise_get_deferred_value p = (case promise_value p of FuturePtr a \<Rightarrow> ret a | OptionalPtr c \<Rightarrow> fail BadAccess)"

definition Promise_Value :: "promise \<Rightarrow> nat option res" where
  "Promise_Value p = (case promise_value p of OptionalPtr c \<Rightarrow> ret c | FuturePtr a \<Rightarrow> fail BadAccess)"

definition deref :: "nat option \<Rightarrow> nat res" where
  "deref a = (case a of Some x \<Rightarrow> ret x | None \<Rightarrow> fail (Undefined NullPointer))"

definition Promise_emplace :: "'v \<Rightarrow> promise \<Rightarrow> ('v, 'z) memory_scheme \<Rightarrow> ('v, 'z) memory_scheme res" where
  "Promise_emplace v p h =
     andThen (Promise_Value p) (\<lambda>ptr. andThen (deref ptr) (\<lambda>c.
     ret (h\<lparr>optional_cells := (optional_cells h)(c := Some v)\<rparr>)))"

definition Promise_emplace_future :: "nat option \<Rightarrow> promise \<Rightarrow> promise" where
  \<comment> \<open>only this promise points to the future from now on\<close>
  "Promise_emplace_future a p = p\<lparr>promise_value := FuturePtr a\<rparr>"

definition Promise_emplace_optional ::
  "nat option \<Rightarrow> promise \<Rightarrow> ('v, 'z) memory_scheme \<Rightarrow> ('v, 'z) memory_scheme res" where
  \<comment> \<open>the future that everyone shares gets the optional\<close>
  "Promise_emplace_optional c p h =
     andThen (Promise_get_deferred_value p) (\<lambda>ptr. andThen (deref ptr) (\<lambda>a.
     ret (h\<lparr>future_cells := (future_cells h)(a := Future_emplace c (future_cells h a))\<rparr>)))"

section \<open>Making futures and promises for a task's results\<close>

definition create_concrete_promise :: "('v, 'z) memory_scheme \<Rightarrow> promise \<times> ('v, 'z) memory_scheme" where
  "create_concrete_promise h = Promise_concrete h"

definition create_deferred_promise ::
  "realm \<Rightarrow> ('v, 'z) memory_scheme \<Rightarrow> promise \<times> ('v, 'z) memory_scheme" where
  "create_deferred_promise rl h = (let (u, h') = invoke rl CreateUserEvent h in Promise_deferred u h')"

definition create_concrete_future :: "promise \<Rightarrow> event \<Rightarrow> future res" where
  "create_concrete_future p ev = andThen (Promise_Value p) (\<lambda>c. ret (Future_of_optional ev c))"

definition create_deferred_future :: "promise \<Rightarrow> future res" where
  "create_deferred_future p =
     andThen (DeferredEvent p) (\<lambda>u. andThen (Promise_get_deferred_value p) (\<lambda>a. ret (Future_of_future u a)))"

text \<open>
  What decides the promise: a returned value, a returned future, or a returned token, for which there is
  a \<open>Promise<void>\<close> and a \<open>Future<void>\<close> without a value.
\<close>

datatype promise_kind = ValuePromise | FuturePromise | TokenPromise

definition Promise_void :: "event option \<Rightarrow> promise" where
  "Promise_void u = \<lparr>deferred_event = u, promise_value = OptionalPtr None\<rparr>"

definition Future_void :: "event \<Rightarrow> future" where
  "Future_void ev = \<lparr>fut_pre = Some ev, fut_war = None, fut_value = OptionalPtr None\<rparr>"

definition CreatePromise ::
  "realm \<Rightarrow> promise_kind \<Rightarrow> ('v, 'z) memory_scheme \<Rightarrow> promise \<times> ('v, 'z) memory_scheme" where
  "CreatePromise rl k h = (case k of
     ValuePromise \<Rightarrow> create_concrete_promise h
   | FuturePromise \<Rightarrow> create_deferred_promise rl h
   | TokenPromise \<Rightarrow> (let (u, h') = invoke rl CreateUserEvent h in (Promise_void (Some u), h')))"

definition CreateFuture :: "promise_kind \<Rightarrow> promise \<Rightarrow> event \<Rightarrow> future res" where
  "CreateFuture k p ev = (case k of
     ValuePromise \<Rightarrow> create_concrete_future p ev
   | FuturePromise \<Rightarrow> create_deferred_future p
   | TokenPromise \<Rightarrow> andThen (DeferredEvent p) (\<lambda>u. ret (Future_void u)))"

fun make_promise_tuple ::
  "realm \<Rightarrow> promise_kind list \<Rightarrow> ('v, 'z) memory_scheme \<Rightarrow> promise list \<times> ('v, 'z) memory_scheme" where
  "make_promise_tuple rl [] h = ([], h)"
| "make_promise_tuple rl (k # ks) h =
     (let (p, h1) = CreatePromise rl k h; (ps, h2) = make_promise_tuple rl ks h1 in (p # ps, h2))"

fun make_future_tuple :: "promise_kind list \<Rightarrow> promise list \<Rightarrow> event \<Rightarrow> future list res" where
  "make_future_tuple (k # ks) (p # ps) ev =
     andThen (CreateFuture k p ev) (\<lambda>f. andThen (make_future_tuple ks ps ev) (\<lambda>fs. ret (f # fs)))"
| "make_future_tuple _ _ ev = ret []"

section \<open>Fulfilling promises\<close>

text \<open>What a task may return for one promise.\<close>

datatype 'v result = ResultValue 'v | ResultFuture future | ResultVoidFuture "event option" | ResultToken event

definition FulfillPromise_value ::
  "'v \<Rightarrow> promise \<Rightarrow> ('v, 'z) memory_scheme \<Rightarrow> (promise \<times> ('v, 'z) memory_scheme) res" where
  "FulfillPromise_value v p h = andThen (Promise_emplace v p h) (\<lambda>h'. ret (p, h'))"

definition FulfillPromise_future ::
  "realm \<Rightarrow> future \<Rightarrow> promise \<Rightarrow> ('v, 'z) memory_scheme \<Rightarrow> (promise \<times> ('v, 'z) memory_scheme) res" where
  "FulfillPromise_future rl f p h =
     andThen (require (HasDeferredEvent p) (RuntimeError
       ''fulfilling promise with future, but promise has no defer sync event'')) (\<lambda>_.
     andThen (require (Future_HasPrecondition f) (RuntimeError
       ''fulfilling promise with future, but future has no precondition'')) (\<lambda>_.
     andThen
       (if HasDeferredValue f
        then andThen (Future_get_deferred_value f) (\<lambda>(a, f'). ret (Promise_emplace_future a p, h))
        else andThen (Future_shared_value f) (\<lambda>(c, f').
             andThen (Promise_emplace_optional c p h) (\<lambda>h'. ret (p, h'))))
       (\<lambda>(p', h').
     andThen (DeferredEvent p') (\<lambda>u.
     ret (p', command rl (TriggerEvent u (Future_Precondition f)) h')))))"

definition FulfillPromise_void ::
  "realm \<Rightarrow> event option \<Rightarrow> promise \<Rightarrow> ('v, 'z) memory_scheme \<Rightarrow> (promise \<times> ('v, 'z) memory_scheme) res" where
  "FulfillPromise_void rl pre p h = (case pre of
     None \<Rightarrow> fail (RuntimeError ''fulfilling promise with future, but future has no precondition'')
   | Some e \<Rightarrow> andThen (DeferredEvent p) (\<lambda>u. ret (p, command rl (TriggerEvent u e) h)))"

definition FulfillPromise_token ::
  "realm \<Rightarrow> event \<Rightarrow> promise \<Rightarrow> ('v, 'z) memory_scheme \<Rightarrow> (promise \<times> ('v, 'z) memory_scheme) res" where
  "FulfillPromise_token rl ev p h = andThen (DeferredEvent p) (\<lambda>u. ret (p, command rl (TriggerEvent u ev) h))"

definition FulfillPromise ::
  "realm \<Rightarrow> 'v result \<Rightarrow> promise \<Rightarrow> ('v, 'z) memory_scheme \<Rightarrow> (promise \<times> ('v, 'z) memory_scheme) res" where
  \<comment> \<open>the choice by type\<close>
  "FulfillPromise rl r p h = (case r of
     ResultValue v \<Rightarrow> FulfillPromise_value v p h
   | ResultFuture f \<Rightarrow> FulfillPromise_future rl f p h
   | ResultVoidFuture pre \<Rightarrow> FulfillPromise_void rl pre p h
   | ResultToken ev \<Rightarrow> FulfillPromise_token rl ev p h)"

fun FulfillPromises ::
  "realm \<Rightarrow> 'v result list \<Rightarrow> promise list \<Rightarrow> ('v, 'z) memory_scheme \<Rightarrow>
   (promise list \<times> ('v, 'z) memory_scheme) res" where
  "FulfillPromises rl (r # rs) (p # ps) h =
     andThen (FulfillPromise rl r p h) (\<lambda>(p', h1).
     andThen (FulfillPromises rl rs ps h1) (\<lambda>(ps', h2). ret (p' # ps', h2)))"
| "FulfillPromises rl rs ps h = ret (ps, h)"

section \<open>What a launch sees of them\<close>

text \<open>The events of \<open>Tasks\<close> are the events of the promises and of the futures made here.\<close>

fun kind_seen :: "promise_kind \<Rightarrow> return_kind" where
  "kind_seen ValuePromise = ReturnsValue"
| "kind_seen FuturePromise = ReturnsFuture"
| "kind_seen TokenPromise = ReturnsFuture"

lemma trace_of_memory [simp]:
  "trace_of (snd (new_optional x h)) = trace_of h" "trace_of (snd (new_future f h)) = trace_of h"
  by (simp_all add: new_optional_def new_future_def)

lemma CreatePromise_seen:
  assumes "CreatePromise rl k h = (p, h')" and "trace_of w = trace_of h"
  obtains w' where "make_promises rl [kind_seen k] w = ([deferred_event p], w')"
    and "trace_of w' = trace_of h'"
proof (cases k)
  case ValuePromise
  then show thesis using assms that[of w]
    by (auto simp: CreatePromise_def create_concrete_promise_def Promise_concrete_def new_optional_def)
next
  case FuturePromise
  then show thesis using assms that[of "snd (invoke rl CreateUserEvent w)"]
    by (auto simp: CreatePromise_def create_deferred_promise_def Promise_deferred_def invoke_def
        Future_CreateEmptyShared_def new_future_def)
next
  case TokenPromise
  then show thesis using assms that[of "snd (invoke rl CreateUserEvent w)"]
    by (auto simp: CreatePromise_def Promise_void_def invoke_def)
qed

lemma make_promises_Cons:
  "make_promises rl (k # ks) w =
     (let (p, w1) = make_promises rl [k] w; (ps, w2) = make_promises rl ks w1 in (p @ ps, w2))"
  by (cases k) (auto simp: Let_def split: prod.splits)

lemma make_promise_tuple_seen:
  assumes "make_promise_tuple rl ks h = (ps, h')" and "trace_of w = trace_of h"
  shows "\<exists>w'. make_promises rl (map kind_seen ks) w = (map deferred_event ps, w') \<and> trace_of w' = trace_of h'"
  using assms
proof (induction ks arbitrary: h ps w)
  case Nil
  then show ?case by simp
next
  case (Cons k ks)
  obtain p h1 ps' where 1: "CreatePromise rl k h = (p, h1)" and 2: "make_promise_tuple rl ks h1 = (ps', h')"
    and ps: "ps = p # ps'"
    using Cons.prems(1) by (auto split: prod.splits)
  obtain w1 where w1: "make_promises rl [kind_seen k] w = ([deferred_event p], w1)" "trace_of w1 = trace_of h1"
    using CreatePromise_seen[OF 1 Cons.prems(2)] .
  from Cons.IH[OF 2 w1(2)] show ?case
    using w1(1) ps by (subst list.map, subst make_promises_Cons) auto
qed

definition promise_fits :: "promise_kind \<Rightarrow> promise \<Rightarrow> bool" where
  "promise_fits k p = (case k of
     ValuePromise \<Rightarrow> deferred_event p = None \<and> (\<exists>c. promise_value p = OptionalPtr (Some c))
   | FuturePromise \<Rightarrow> deferred_event p \<noteq> None \<and> (\<exists>a. promise_value p = FuturePtr (Some a))
   | TokenPromise \<Rightarrow> deferred_event p \<noteq> None)"

lemma CreatePromise_fits: "CreatePromise rl k h = (p, h') \<Longrightarrow> promise_fits k p"
  by (cases k) (auto simp: CreatePromise_def promise_fits_def create_concrete_promise_def Promise_concrete_def
      new_optional_def create_deferred_promise_def Promise_deferred_def invoke_def
      Future_CreateEmptyShared_def new_future_def Promise_void_def)

lemma make_promise_tuple_fits:
  "make_promise_tuple rl ks h = (ps, h') \<Longrightarrow> list_all2 promise_fits ks ps"
  by (induction ks arbitrary: h ps) (auto dest: CreatePromise_fits split: prod.splits)

lemma make_future_tuple_seen:
  "list_all2 promise_fits ks ps \<Longrightarrow> \<exists>fs. make_future_tuple ks ps ev = ret fs \<and>
     map fut_pre fs = map (\<lambda>p. Some (case deferred_event p of Some u \<Rightarrow> u | None \<Rightarrow> ev)) ps"
proof (induction rule: list_all2_induct)
  case (Cons k ks p ps)
  then obtain fs where fs: "make_future_tuple ks ps ev = ret fs"
    "map fut_pre fs = map (\<lambda>p. Some (case deferred_event p of Some u \<Rightarrow> u | None \<Rightarrow> ev)) ps" by blast
  have "\<exists>f. CreateFuture k p ev = ret f \<and> fut_pre f = Some (case deferred_event p of Some u \<Rightarrow> u | None \<Rightarrow> ev)"
    using Cons(1) by (cases k) (auto simp: promise_fits_def CreateFuture_def create_concrete_future_def
        create_deferred_future_def DeferredEvent_def Promise_get_deferred_value_def Promise_Value_def
        Future_of_optional_def Future_of_future_def Future_void_def opt_get_def)
  then show ?case using fs by auto
qed simp

text \<open>
  C30. A task's promises and futures, and what a launch uses of them: making the promises of a task and
  then its futures never fails, makes the user events that the launch sees, and gives each
  future the precondition that the launch passes on.
\<close>

theorem promises_refine:
  assumes "make_promise_tuple rl ks h = (ps, h')" and "trace_of w = trace_of h" and "ks \<noteq> []"
  shows "\<exists>w' fs. make_promises rl (map kind_seen ks) w = (map deferred_event ps, w') \<and>
    trace_of w' = trace_of h' \<and> make_future_tuple ks ps ev = ret fs \<and>
    map fut_pre fs = map Some (make_futures (map deferred_event ps) ev)"
proof -
  have "ps \<noteq> []" using make_promise_tuple_fits[OF assms(1)] assms(3) by auto
  then show ?thesis
    using make_promise_tuple_seen[OF assms(1,2)] make_future_tuple_seen[OF make_promise_tuple_fits[OF assms(1)]]
    by (auto simp: make_futures_def comp_def)
qed

section \<open>A program of futures\<close>

text \<open>
  What happens to futures in a process: values are wrapped, tasks are launched, a task that ran fulfills
  its promise, with a value or with a future it gives away, futures are viewed, and a task takes the
  value of a future that was given to it. A promise is fulfilled once: a task is invoked once.
\<close>

record 'v future_program =
  mem :: "'v memory"
  open_promises :: "promise option list"
  held :: "future list"

inductive future_step :: "realm \<Rightarrow> ('v \<Rightarrow> 'v) \<Rightarrow> 'v future_program \<Rightarrow> 'v future_program \<Rightarrow> bool"
  for rl :: realm and gone :: "'v \<Rightarrow> 'v" where
  step_wrap: "Future_of_value ev v (mem s) = (f, h) \<Longrightarrow>
    future_step rl gone s (s\<lparr>mem := h, held := held s @ [f]\<rparr>)"
| step_launch: "CreatePromise rl k (mem s) = (p, h) \<Longrightarrow> CreateFuture k p ev = ret f \<Longrightarrow>
    future_step rl gone s (s\<lparr>mem := h, open_promises := open_promises s @ [Some p], held := held s @ [f]\<rparr>)"
| step_fulfill: "i < length (open_promises s) \<Longrightarrow> open_promises s ! i = Some p \<Longrightarrow>
    FulfillPromise_value v p (mem s) = ret (p', h) \<Longrightarrow>
    future_step rl gone s (s\<lparr>mem := h, open_promises := (open_promises s)[i := None]\<rparr>)"
| step_forward: "i < length (open_promises s) \<Longrightarrow> open_promises s ! i = Some p \<Longrightarrow> j < length (held s) \<Longrightarrow>
    FulfillPromise_future rl (held s ! j) p (mem s) = ret (p', h) \<Longrightarrow>
    future_step rl gone s (s\<lparr>mem := h, open_promises := (open_promises s)[i := None],
      held := (held s)[j := snd (Future_move (held s ! j))]\<rparr>)"
| step_view: "j < length (held s) \<Longrightarrow> Future_view_on rl ev (held s ! j) (mem s) = (v, f, h) \<Longrightarrow>
    future_step rl gone s (s\<lparr>mem := h, held := (held s)[j := f]\<rparr>)"
| step_take: "j < length (held s) \<Longrightarrow> Future_take_value gone (mem s) (held s ! j) = Some (ret (x, h)) \<Longrightarrow>
    future_step rl gone s (s\<lparr>mem := h, held := (held s)[j := snd (Future_move (held s ! j))]\<rparr>)"

text \<open>The program starts without futures; a cell that was never allocated holds no pointer.\<close>

definition program_start :: "'v future_program \<Rightarrow> bool" where
  "program_start s \<longleftrightarrow> open_promises s = [] \<and> held s = [] \<and>
     (\<forall>a. fut_value (future_cells (mem s) a) = FuturePtr None)"

fun null_value :: "future_value \<Rightarrow> bool" where
  "null_value (FuturePtr a) \<longleftrightarrow> a = None"
| "null_value (OptionalPtr c) \<longleftrightarrow> c = None"

fun allocated :: "nat \<Rightarrow> future_value \<Rightarrow> bool" where
  "allocated n (FuturePtr (Some a)) \<longleftrightarrow> a < n"
| "allocated n (OptionalPtr (Some c)) \<longleftrightarrow> c < n"
| "allocated n _ \<longleftrightarrow> True"

text \<open>
  The memory is well formed: pointers are allocated, a shared future points to nothing or to an optional,
  so that a chain has two steps at most; nothing is shared between two futures; a promise that is open
  has not been filled in.
\<close>

definition cells_ok :: "'v future_program \<Rightarrow> bool" where
  "cells_ok s \<longleftrightarrow> (\<forall>a. let v = fut_value (future_cells (mem s) a) in
     (v = FuturePtr None \<or> (\<exists>c. v = OptionalPtr c)) \<and> allocated (next_cell (mem s)) v \<and>
     (next_cell (mem s) \<le> a \<longrightarrow> v = FuturePtr None)) \<and>
   (\<forall>a a' c. fut_value (future_cells (mem s) a) = OptionalPtr (Some c) \<longrightarrow>
      fut_value (future_cells (mem s) a') = OptionalPtr (Some c) \<longrightarrow> a = a')"

definition apart :: "future_value list \<Rightarrow> bool" where
  "apart vs \<longleftrightarrow> (\<forall>i < length vs. \<forall>j < length vs. vs ! i = vs ! j \<longrightarrow> i = j \<or> null_value (vs ! i))"

definition held_ok :: "'v future_program \<Rightarrow> bool" where
  "held_ok s \<longleftrightarrow> apart (map fut_value (held s)) \<and>
     (\<forall>f \<in> set (held s). allocated (next_cell (mem s)) (fut_value f) \<and>
        (\<forall>c a. fut_value f = OptionalPtr (Some c) \<longrightarrow> fut_value (future_cells (mem s) a) \<noteq> OptionalPtr (Some c)))"

definition promise_ok :: "'v future_program \<Rightarrow> promise \<Rightarrow> bool" where
  "promise_ok s p \<longleftrightarrow> allocated (next_cell (mem s)) (promise_value p) \<and>
     (\<forall>c. promise_value p = OptionalPtr (Some c) \<longrightarrow> optional_cells (mem s) c = None) \<and>
     (\<forall>a. promise_value p = FuturePtr (Some a) \<longrightarrow> fut_value (future_cells (mem s) a) = FuturePtr None \<and>
        (\<forall>f \<in> set (held s). fut_value f = FuturePtr (Some a) \<longrightarrow> fut_pre f = deferred_event p))"

definition pointer :: "promise option \<Rightarrow> future_value" where
  "pointer q = (case q of Some p \<Rightarrow> promise_value p | None \<Rightarrow> FuturePtr None)"

definition promises_ok :: "'v future_program \<Rightarrow> bool" where
  "promises_ok s \<longleftrightarrow> apart (map pointer (open_promises s)) \<and>
     (\<forall>p. Some p \<in> set (open_promises s) \<longrightarrow> promise_ok s p)"

definition program_ok :: "'v future_program \<Rightarrow> bool" where
  "program_ok s \<longleftrightarrow> cells_ok s \<and> held_ok s \<and> promises_ok s"

lemma program_start_ok: "program_start s \<Longrightarrow> program_ok s"
  by (simp add: program_start_def program_ok_def cells_ok_def held_ok_def promises_ok_def apart_def)

lemma allocated_mono: "allocated n v \<Longrightarrow> n \<le> m \<Longrightarrow> allocated m v"
  by (cases "(n, v)" rule: allocated.cases) auto

lemma cells_okD:
  assumes "cells_ok s"
  shows "fut_value (future_cells (mem s) a) = FuturePtr None \<or> (\<exists>c. fut_value (future_cells (mem s) a) = OptionalPtr c)"
    and "allocated (next_cell (mem s)) (fut_value (future_cells (mem s) a))"
    and "next_cell (mem s) \<le> a \<Longrightarrow> fut_value (future_cells (mem s) a) = FuturePtr None"
    and "fut_value (future_cells (mem s) a) = OptionalPtr (Some c) \<Longrightarrow>
      fut_value (future_cells (mem s) a') = OptionalPtr (Some c) \<Longrightarrow> a = a'"
  using assms unfolding cells_ok_def Let_def by blast+

text \<open>A new object, that only a new future and a new promise point to.\<close>

definition fresh_memory :: "'v memory \<Rightarrow> 'v memory \<Rightarrow> bool" where
  "fresh_memory h h' \<longleftrightarrow> next_cell h \<le> next_cell h' \<and>
     (\<forall>c < next_cell h. optional_cells h' c = optional_cells h c) \<and>
     (\<forall>a. fut_value (future_cells h' a) = fut_value (future_cells h a))"

definition fresh_value :: "'v memory \<Rightarrow> 'v memory \<Rightarrow> future_value \<Rightarrow> bool" where
  "fresh_value h h' v \<longleftrightarrow> null_value v \<or>
     (v = OptionalPtr (Some (next_cell h)) \<or> v = FuturePtr (Some (next_cell h))) \<and> next_cell h < next_cell h'"

lemma fresh_not_allocated: "fresh_value h h' v \<Longrightarrow> allocated (next_cell h) v \<Longrightarrow> null_value v"
  by (auto simp: fresh_value_def)

lemma fresh_allocated: "fresh_value h h' v \<Longrightarrow> allocated (next_cell h') v"
  by (cases v) (auto simp: fresh_value_def)

lemma fresh_cells:
  assumes "cells_ok s" and "fresh_memory (mem s) h" and "mem s' = h"
  shows "cells_ok s'"
proof -
  have "allocated (next_cell h) (fut_value (future_cells (mem s) a))" for a
    using allocated_mono[OF cells_okD(2)[OF assms(1)]] assms(2) by (auto simp: fresh_memory_def)
  then show ?thesis using assms cells_okD[OF assms(1)] unfolding cells_ok_def fresh_memory_def Let_def
    by (metis order_trans)
qed

lemma apart_snoc: "apart vs \<Longrightarrow> (x \<in> set vs \<Longrightarrow> null_value x) \<Longrightarrow> apart (vs @ [x])"
  by (auto simp: apart_def nth_append less_Suc_eq in_set_conv_nth)

lemma apart_null: "apart vs \<Longrightarrow> null_value x \<Longrightarrow> apart (vs[i := x])"
  by (cases "i < length vs") (auto simp: apart_def nth_list_update split: if_splits)

lemma fresh_held:
  assumes ok: "held_ok s" "cells_ok s" and m: "fresh_memory (mem s) h" "mem s' = h"
    and f: "fresh_value (mem s) h (fut_value f)" and s': "held s' = held s @ [f]"
  shows "held_ok s'"
proof -
  have n: "next_cell (mem s) \<le> next_cell h" using m by (simp add: fresh_memory_def)
  have old: "allocated (next_cell (mem s)) (fut_value g)" if "g \<in> set (held s)" for g
    using ok(1) that unfolding held_ok_def by blast
  have "fut_value f \<noteq> OptionalPtr (Some c) \<or> fut_value (future_cells (mem s) a) \<noteq> OptionalPtr (Some c)" for a c
    using fresh_not_allocated[OF f] cells_okD(2)[OF ok(2), of a] by auto
  moreover have "apart (map fut_value (held s'))"
    using ok(1) s' fresh_not_allocated[OF f] old by (auto simp: held_ok_def intro!: apart_snoc)
  ultimately show ?thesis
    using ok(1) m s' fresh_allocated[OF f] allocated_mono[OF old n]
    unfolding held_ok_def fresh_memory_def by auto
qed

lemma fresh_promises:
  assumes ok: "promises_ok s" "held_ok s" and m: "fresh_memory (mem s) h" "mem s' = h"
    and f: "fresh_value (mem s) h (fut_value f)" and s': "held s' = held s @ [f]"
    and p: "open_promises s' = open_promises s \<or>
      open_promises s' = open_promises s @ [Some p] \<and> promise_value p = fut_value f \<and>
      (\<forall>c. fut_value f = OptionalPtr (Some c) \<longrightarrow> optional_cells h c = None) \<and>
      (\<forall>a. fut_value f = FuturePtr (Some a) \<longrightarrow> fut_pre f = deferred_event p \<and>
         fut_value (future_cells h a) = FuturePtr None)"
  shows "promises_ok s'"
proof -
  have held_apart: "fut_value g = FuturePtr (Some a) \<Longrightarrow> fut_value f \<noteq> FuturePtr (Some a)"
    if "g \<in> set (held s)" for g a
    using fresh_not_allocated[OF f] ok(2) that unfolding held_ok_def by fastforce
  have old: "allocated (next_cell (mem s)) (promise_value q) \<and> promise_ok s' q"
    if q: "Some q \<in> set (open_promises s)" for q
  proof -
    have q': "promise_ok s q" using ok(1) q unfolding promises_ok_def by blast
    then have a: "allocated (next_cell (mem s)) (promise_value q)" unfolding promise_ok_def by blast
    then have "allocated (next_cell h) (promise_value q)"
      using m by (auto simp: fresh_memory_def intro: allocated_mono)
    moreover have "fut_value f \<noteq> FuturePtr (Some b)" if "promise_value q = FuturePtr (Some b)" for b
      using fresh_not_allocated[OF f] a that by auto
    ultimately show ?thesis using q' a m s' unfolding promise_ok_def fresh_memory_def by auto
  qed
  have new: "promise_ok s' p" if "open_promises s' \<noteq> open_promises s"
    using p that fresh_allocated[OF f] held_apart s' m(2) by (auto simp: promise_ok_def)
  have "allocated (next_cell (mem s)) (pointer q)" if "q \<in> set (open_promises s)" for q
    using old that by (cases q) (auto simp: pointer_def)
  then have "null_value (fut_value f)" if "fut_value f \<in> set (map pointer (open_promises s))"
    using fresh_not_allocated[OF f] that by (metis (no_types, lifting) imageE list.set_map)
  moreover have "pointer (Some p) = promise_value p" by (simp add: pointer_def)
  ultimately have "apart (map pointer (open_promises s'))"
    using ok(1) p apart_snoc[of "map pointer (open_promises s)" "fut_value f"] by (auto simp: promises_ok_def)
  then show ?thesis using p old new unfolding promises_ok_def by auto
qed

text \<open>A step preserves the invariant.\<close>

lemma fresh_ok:
  assumes ok: "program_ok s" and m: "fresh_memory (mem s) h" and f: "fresh_value (mem s) h (fut_value f)"
    and p: "open_promises s' = open_promises s \<or>
      open_promises s' = open_promises s @ [Some p] \<and> promise_value p = fut_value f \<and>
      (\<forall>c. fut_value f = OptionalPtr (Some c) \<longrightarrow> optional_cells h c = None) \<and>
      (\<forall>a. fut_value f = FuturePtr (Some a) \<longrightarrow> fut_pre f = deferred_event p \<and>
         fut_value (future_cells h a) = FuturePtr None)"
    and s': "mem s' = h" "held s' = held s @ [f]"
  shows "program_ok s'"
  using fresh_cells[OF _ m s'(1)] fresh_held[OF _ _ m s'(1) f s'(2)] fresh_promises[OF _ _ m s'(1) f s'(2) p] ok
  unfolding program_ok_def by blast

lemma wrap_ok:
  assumes "program_ok s" and "Future_of_value ev v (mem s) = (f, h)"
  shows "program_ok (s\<lparr>mem := h, held := held s @ [f]\<rparr>)"
  using assms(2) by (intro fresh_ok[OF assms(1), of h f])
    (auto simp: Future_of_value_def Future_of_optional_def new_optional_def fresh_memory_def fresh_value_def)

lemma launch_ok:
  assumes "program_ok s" and "CreatePromise rl k (mem s) = (p, h)" and "CreateFuture k p ev = ret f"
  shows "program_ok (s\<lparr>mem := h, open_promises := open_promises s @ [Some p], held := held s @ [f]\<rparr>)"
proof -
  have empty: "fut_value (future_cells (mem s) (next_cell (mem s))) = FuturePtr None"
    using assms(1) cells_okD(3) by (auto simp: program_ok_def)
  show ?thesis
    using assms(2,3) empty
    by (cases k; intro fresh_ok[OF assms(1), of h f _ p])
      (auto simp: CreatePromise_def CreateFuture_def create_concrete_promise_def create_deferred_promise_def
        Promise_concrete_def Promise_deferred_def Future_CreateEmptyShared_def new_optional_def new_future_def
        create_concrete_future_def create_deferred_future_def Promise_Value_def Promise_get_deferred_value_def
        DeferredEvent_def opt_get_def Future_of_optional_def Future_of_future_def Promise_void_def Future_void_def
        Future_CreateEmpty_def fresh_memory_def fresh_value_def invoke_def)
qed

lemma closed_set: "Some q \<in> set (xs[i := None]) \<Longrightarrow> Some q \<in> set xs"
  using set_update_subset_insert[of xs i None] by auto

lemma close_ok:
  assumes "program_ok s"
  shows "program_ok (s\<lparr>open_promises := (open_promises s)[i := None]\<rparr>)"
proof -
  have "apart (map pointer ((open_promises s)[i := None]))"
    using assms apart_null[of "map pointer (open_promises s)" "pointer None" i]
    by (simp add: program_ok_def promises_ok_def map_update pointer_def)
  then show ?thesis using assms
    by (auto simp: program_ok_def cells_ok_def held_ok_def promises_ok_def promise_ok_def dest: closed_set)
qed

text \<open>A promise that is closed was the only one with its pointer.\<close>

lemma closed_apart:
  assumes ok: "program_ok s" and i: "i < length (open_promises s)" "open_promises s ! i = Some p"
    and n: "\<not> null_value (promise_value p)" and q: "Some q \<in> set ((open_promises s)[i := None])"
  shows "promise_value q \<noteq> promise_value p"
proof -
  obtain j where j: "j < length (open_promises s)" "(open_promises s)[i := None] ! j = Some q"
    using q by (auto simp: in_set_conv_nth)
  then have "j \<noteq> i" using i(1) by auto
  with j have "j \<noteq> i" "open_promises s ! j = Some q" by simp_all
  moreover have "apart (map pointer (open_promises s))" using ok by (simp add: program_ok_def promises_ok_def)
  ultimately show ?thesis using i n j(1) by (force simp: apart_def pointer_def)
qed

lemma fulfill_ok:
  assumes ok: "program_ok s" and i: "i < length (open_promises s)" "open_promises s ! i = Some p"
    and f: "FulfillPromise_value v p (mem s) = ret (p', h)"
  shows "program_ok (s\<lparr>mem := h, open_promises := (open_promises s)[i := None]\<rparr>)"
proof -
  obtain c where c: "promise_value p = OptionalPtr (Some c)"
    and h: "h = (mem s)\<lparr>optional_cells := (optional_cells (mem s))(c := Some v)\<rparr>"
    using f by (auto simp: FulfillPromise_value_def Promise_emplace_def Promise_Value_def deref_def andThen_eq_ret
        split: future_value.splits option.splits)
  let ?s = "s\<lparr>open_promises := (open_promises s)[i := None]\<rparr>"
  have "promise_value q \<noteq> OptionalPtr (Some c)" if "Some q \<in> set (open_promises ?s)" for q
    using closed_apart[OF ok i] c that by auto
  then show ?thesis using close_ok[OF ok, of i] h
    by (auto simp: program_ok_def cells_ok_def held_ok_def promises_ok_def promise_ok_def)
qed

lemma view_ok:
  assumes ok: "program_ok s" and j: "j < length (held s)" and v: "Future_view_on rl ev (held s ! j) (mem s) = (v, f, h)"
  shows "program_ok (s\<lparr>mem := h, held := (held s)[j := f]\<rparr>)"
proof -
  have f: "fut_value f = fut_value (held s ! j)" "fut_pre f = fut_pre (held s ! j)"
    and h: "optional_cells h = optional_cells (mem s)" "future_cells h = future_cells (mem s)"
      "next_cell h = next_cell (mem s)"
    using v by (auto simp: Future_view_on_def Future_view_after_def merge2_def invoke_def split: option.splits prod.splits)
  have "map fut_value ((held s)[j := f]) = map fut_value (held s)"
    using f j by (simp add: map_update) (metis list_update_id nth_map)
  moreover have "\<exists>g' \<in> set (held s). fut_value g = fut_value g' \<and> fut_pre g = fut_pre g'"
    if "g \<in> set ((held s)[j := f])" for g
  proof (cases "g = f")
    case True
    then show ?thesis using f nth_mem[OF j] by blast
  next
    case False
    then have "g \<in> set (held s)" using set_update_subset_insert[of "held s" j f] that by auto
    then show ?thesis by blast
  qed
  ultimately show ?thesis using ok h unfolding program_ok_def cells_ok_def held_ok_def promises_ok_def promise_ok_def
    by simp metis
qed

lemma null_of_null: "null_value (null_of v)"
  by (cases v) auto

text \<open>A future that is moved from points to nothing.\<close>

lemma moved_ok:
  assumes "program_ok s"
  shows "program_ok (s\<lparr>held := (held s)[j := snd (Future_move (held s ! j))]\<rparr>)"
proof (cases "j < length (held s)")
  case True
  let ?m = "snd (Future_move (held s ! j))"
  have m: "null_value (fut_value ?m)" by (simp add: Future_move_def null_of_null)
  have "apart (map fut_value ((held s)[j := ?m]))"
    using assms apart_null[OF _ m] by (auto simp: program_ok_def held_ok_def map_update)
  moreover have "g = ?m \<or> g \<in> set (held s)" if "g \<in> set ((held s)[j := ?m])" for g
    using set_update_subset_insert[of "held s" j ?m] that by auto
  moreover have "allocated n (fut_value ?m)" "fut_value ?m \<noteq> OptionalPtr (Some c)" "fut_value ?m \<noteq> FuturePtr (Some c)"
    for n c using m by (cases "fut_value ?m"; simp)+
  ultimately show ?thesis using assms
    unfolding program_ok_def cells_ok_def held_ok_def promises_ok_def promise_ok_def by simp metis
qed (use assms in \<open>cases s, simp add: list_update_beyond\<close>)

text \<open>A value that is in place and belongs to no promise may change.\<close>

lemma take_ok:
  assumes ok: "program_ok s" and x: "optional_cells (mem s) c = Some x"
  shows "program_ok (s\<lparr>mem := (mem s)\<lparr>optional_cells := (optional_cells (mem s))(c := Some y)\<rparr>\<rparr>)"
  using ok x by (auto simp: program_ok_def cells_ok_def held_ok_def promises_ok_def promise_ok_def)

lemma Future_take_value_cell:
  assumes "Future_take_value gone h f = Some (ret (x, h'))"
  obtains c where "follow h (fut_value f) = Some (ret c)" and "optional_cells h c = Some x"
    and "h' = h\<lparr>optional_cells := (optional_cells h)(c := Some (gone x))\<rparr>"
  using assms by (auto simp: Future_take_value_def andThen_eq_ret split: option.splits)

text \<open>A future gives its optional to the shared future of a promise.\<close>

lemma forward_ok:
  assumes ok: "program_ok s" and i: "i < length (open_promises s)" "open_promises s ! i = Some p"
    and j: "j < length (held s)" and f: "FulfillPromise_future rl (held s ! j) p (mem s) = ret (p', h)"
  shows "program_ok (s\<lparr>mem := h, open_promises := (open_promises s)[i := None],
    held := (held s)[j := snd (Future_move (held s ! j))]\<rparr>)"
proof -
  let ?s = "s\<lparr>open_promises := (open_promises s)[i := None], held := (held s)[j := snd (Future_move (held s ! j))]\<rparr>"
  have closed: "program_ok ?s" using moved_ok[OF close_ok[OF ok, of i], of j] by simp
  show ?thesis
  proof (cases "fut_value (held s ! j)")
    case (FuturePtr b)
    then have "optional_cells h = optional_cells (mem s)" "future_cells h = future_cells (mem s)"
      "next_cell h = next_cell (mem s)"
      using f by (auto simp: FulfillPromise_future_def HasDeferredValue_def Future_get_deferred_value_def
          andThen_eq_ret command_def invoke_def require_def split: if_splits)
    then show ?thesis using closed
      by (auto simp: program_ok_def cells_ok_def held_ok_def promises_ok_def promise_ok_def)
  next
    case (OptionalPtr c)
    then obtain a where a: "promise_value p = FuturePtr (Some a)"
      and h: "optional_cells h = optional_cells (mem s)" "next_cell h = next_cell (mem s)"
        "future_cells h = (future_cells (mem s))(a := Future_emplace c (future_cells (mem s) a))"
      using f by (auto simp: FulfillPromise_future_def HasDeferredValue_def Future_shared_value_def
          Promise_emplace_optional_def Promise_get_deferred_value_def deref_def
          andThen_eq_ret command_def invoke_def require_def split: if_splits future_value.splits option.splits)
    have alive: "a < next_cell (mem s)" "fut_value (future_cells (mem s) a) = FuturePtr None"
      using ok i a nth_mem[OF i(1)] by (auto simp: program_ok_def promises_ok_def promise_ok_def)
    have c: "allocated (next_cell (mem s)) (OptionalPtr c)"
      "\<And>a'. OptionalPtr c = OptionalPtr (Some d) \<Longrightarrow> fut_value (future_cells (mem s) a') \<noteq> OptionalPtr (Some d)" for d
      using ok OptionalPtr nth_mem[OF j] unfolding program_ok_def held_ok_def by metis+
    have others: "fut_value g \<noteq> OptionalPtr (Some d)" if d: "c = Some d" and g: "g \<in> set (held ?s)" for g d
    proof -
      obtain k where k: "k < length (held s)" "held ?s ! k = g" using g by (auto simp: in_set_conv_nth)
      show ?thesis
      proof (cases "k = j")
        case True
        then show ?thesis using k null_of_null[of "fut_value (held s ! j)"] by (auto simp: Future_move_def)
      next
        case False
        then have "held s ! k = g" using k by simp
        moreover have "apart (map fut_value (held s))" using ok by (simp add: program_ok_def held_ok_def)
        ultimately show ?thesis using j k(1) False OptionalPtr d by (force simp: apart_def)
      qed
    qed
    let ?t = "s\<lparr>mem := h, open_promises := (open_promises s)[i := None],
      held := (held s)[j := snd (Future_move (held s ! j))]\<rparr>"
    have fv: "fut_value (future_cells h a') = (if a' = a then OptionalPtr c else fut_value (future_cells (mem s) a'))" for a'
      using h(3) by (simp add: Future_emplace_def)
    have s: "cells_ok s" "held_ok ?s" "promises_ok ?s" using ok closed by (auto simp: program_ok_def)
    have "cells_ok ?t"
      using cells_okD[OF s(1)] c alive h(2) unfolding cells_ok_def Let_def by (simp add: fv) metis
    moreover have "held_ok ?t" unfolding held_ok_def
    proof (intro conjI ballI allI impI)
      show "apart (map fut_value (held ?t))" using s(2) by (simp add: held_ok_def)
      fix g assume g: "g \<in> set (held ?t)"
      then show "allocated (next_cell (mem ?t)) (fut_value g)" using s(2) h(2) by (simp add: held_ok_def)
      fix d a' assume "fut_value g = OptionalPtr (Some d)"
      then show "fut_value (future_cells (mem ?t) a') \<noteq> OptionalPtr (Some d)"
        using s(2) g others[of d g] fv[of a'] by (auto simp: held_ok_def)
    qed
    moreover have "promise_ok ?t q" if q: "Some q \<in> set (open_promises ?t)" for q
    proof -
      have "promise_value q \<noteq> FuturePtr (Some a)" using closed_apart[OF ok i] a q by auto
      moreover have "promise_ok ?s q" using s(3) q by (simp add: promises_ok_def)
      ultimately show ?thesis using h fv by (auto simp: promise_ok_def)
    qed
    ultimately show ?thesis using s(3) by (simp add: program_ok_def promises_ok_def)
  qed
qed

lemma step_ok:
  assumes "future_step rl gone s s'" and "program_ok s"
  shows "program_ok s'"
  using assms
proof cases
  case (step_take j x h)
  from step_take(3) obtain c where "optional_cells (mem s) c = Some x"
    "h = (mem s)\<lparr>optional_cells := (optional_cells (mem s))(c := Some (gone x))\<rparr>"
    by (rule Future_take_value_cell)
  then have "program_ok (s\<lparr>mem := h\<rparr>)" using take_ok assms(2) by metis
  from moved_ok[OF this, of j] show ?thesis using step_take(1) by simp
qed (use wrap_ok launch_ok fulfill_ok forward_ok view_ok in metis)+

lemma reachable_ok:
  assumes "program_start s0" and "(future_step rl gone)\<^sup>*\<^sup>* s0 s"
  shows "program_ok s"
  using assms(2) by (induction rule: rtranclp_induct) (use program_start_ok[OF assms(1)] step_ok in blast)+

section \<open>Reading a future\<close>

lemma follow_simps [simp]:
  "follow h (OptionalPtr c) = Some (deref c)"
  "follow h (FuturePtr None) = Some (fail (Undefined NullPointer))"
  "follow h (FuturePtr (Some a)) = follow h (fut_value (future_cells h a))"
  by (subst follow.simps, auto simp: deref_def split: option.splits)+

text \<open>The optional that a future leads to.\<close>

definition leads_to :: "'v future_program \<Rightarrow> nat \<Rightarrow> nat \<Rightarrow> bool" where
  "leads_to s j c \<longleftrightarrow> j < length (held s) \<and> (fut_value (held s ! j) = OptionalPtr (Some c) \<or>
     (\<exists>a. fut_value (held s ! j) = FuturePtr (Some a) \<and> fut_value (future_cells (mem s) a) = OptionalPtr (Some c)))"

lemma follow_cases:
  assumes "program_ok s" and "j < length (held s)"
  obtains "follow (mem s) (fut_value (held s ! j)) = Some (fail (Undefined NullPointer))" "\<nexists>c. leads_to s j c"
    | c where "follow (mem s) (fut_value (held s ! j)) = Some (ret c)" "leads_to s j c"
proof (cases "fut_value (held s ! j)")
  case (OptionalPtr c)
  then show thesis using that assms(2) by (cases c) (auto simp: deref_def leads_to_def)
next
  case (FuturePtr b)
  show thesis
  proof (cases b)
    case None
    then show thesis using that FuturePtr assms(2) by (auto simp: leads_to_def)
  next
    case (Some a)
    consider "fut_value (future_cells (mem s) a) = FuturePtr None"
      | "fut_value (future_cells (mem s) a) = OptionalPtr None"
      | c where "fut_value (future_cells (mem s) a) = OptionalPtr (Some c)"
      using assms(1) cells_okD(1)[of s a] unfolding program_ok_def by (metis option.exhaust)
    then show thesis using that FuturePtr Some assms(2) by cases (auto simp: leads_to_def deref_def)
  qed
qed

lemma follow_leads: "program_ok s \<Longrightarrow> leads_to s j c \<Longrightarrow> follow (mem s) (fut_value (held s ! j)) = Some (ret c)"
  by (auto simp: leads_to_def deref_def)

lemma follow_ret: "program_ok s \<Longrightarrow> j < length (held s) \<Longrightarrow>
  follow (mem s) (fut_value (held s ! j)) = Some (ret c) \<Longrightarrow> leads_to s j c"
  by (erule follow_cases) auto

lemma leads_to_allocated:
  assumes "program_ok s" and "leads_to s j c"
  shows "c < next_cell (mem s)"
proof -
  have "allocated (next_cell (mem s)) (fut_value (future_cells (mem s) a))" for a
    using assms(1) cells_okD(2) by (auto simp: program_ok_def)
  moreover have "allocated (next_cell (mem s)) (fut_value (held s ! j))"
    using assms nth_mem[of j "held s"] by (auto simp: leads_to_def program_ok_def held_ok_def)
  ultimately show ?thesis using assms(2) unfolding leads_to_def by (metis allocated.simps(2))
qed

lemma leads_to_fun: "leads_to s j c \<Longrightarrow> leads_to s j c' \<Longrightarrow> c = c'"
  by (auto simp: leads_to_def)

lemma leads_to_unique:
  assumes "program_ok s" and "leads_to s j c" and "leads_to s j' c"
  shows "j = j'"
proof -
  have h: "held_ok s" "cells_ok s" using assms(1) by (auto simp: program_ok_def)
  have a: "fut_value (held s ! k) = fut_value (held s ! k') \<Longrightarrow> \<not> null_value (fut_value (held s ! k)) \<Longrightarrow> k = k'"
    if "k < length (held s)" "k' < length (held s)" for k k'
    using h(1) that by (auto simp: held_ok_def apart_def)
  have o: "fut_value (held s ! k) = OptionalPtr (Some c) \<Longrightarrow> fut_value (future_cells (mem s) b) \<noteq> OptionalPtr (Some c)"
    if "k < length (held s)" for k b
    using h(1) nth_mem[OF that] by (auto simp: held_ok_def)
  show ?thesis using assms(2,3) a[of j j'] o[of j] o[of j'] cells_okD(4)[OF h(2)]
    unfolding leads_to_def by (metis null_value.simps option.distinct(1))
qed

lemma get_value_leads:
  "program_ok s \<Longrightarrow> j < length (held s) \<Longrightarrow> Future_get_value (mem s) (held s ! j) = Some (ret v) \<longleftrightarrow>
   (\<exists>c. leads_to s j c \<and> optional_cells (mem s) c = Some v)"
  by (erule (1) follow_cases; auto simp: Future_get_value_def dest: follow_leads leads_to_fun split: option.splits)

text \<open>
  C29. The memory of futures stays well formed, whatever is launched, fulfilled, forwarded, viewed and taken:
  every pointer is allocated, a shared future is one step from its value, no two futures share a value,
  and reading a future always returns, with its value, with the exception of an optional that has
  no value yet, or at a null pointer.
\<close>

theorem futures_well_formed:
  assumes "program_start s0" and "(future_step rl gone)\<^sup>*\<^sup>* s0 s"
  shows "program_ok s \<and> (\<forall>j < length (held s). \<exists>r. Future_get_value (mem s) (held s ! j) = Some r \<and>
    (case r of Inr v \<Rightarrow> True | Inl e \<Rightarrow> e = BadAccess \<or> e = Undefined NullPointer))"
proof (intro conjI allI impI)
  show ok: "program_ok s" using reachable_ok[OF assms] .
  fix j assume "j < length (held s)"
  with ok show "\<exists>r. Future_get_value (mem s) (held s ! j) = Some r \<and>
    (case r of Inr v \<Rightarrow> True | Inl e \<Rightarrow> e = BadAccess \<or> e = Undefined NullPointer)"
    by (rule follow_cases) (auto simp: Future_get_value_def split: option.splits)
qed

text \<open>What a step does to a future with a value that it does not move.\<close>

lemma fresh_leads:
  assumes "program_ok s" and "leads_to s j c" and "optional_cells (mem s) c = Some v"
    and "fresh_memory (mem s) h" and "mem s' = h" and "held s' = held s @ fs"
  shows "leads_to s' j c \<and> optional_cells (mem s') c = Some v"
  using assms leads_to_allocated[OF assms(1,2)]
  by (auto simp: leads_to_def fresh_memory_def nth_append)

lemma step_keeps_value:
  assumes "future_step rl gone s s'" and ok: "program_ok s" and c: "leads_to s j c" "optional_cells (mem s) c = Some v"
  shows "j < length (held s') \<and> (null_value (fut_value (held s' ! j)) \<or>
    leads_to s' j c \<and> optional_cells (mem s') c = Some v)"
proof -
  have j: "j < length (held s)" using c(1) by (simp add: leads_to_def)
  have fresh: "leads_to s' j c \<and> optional_cells (mem s') c = Some v \<Longrightarrow> ?thesis" by (simp add: leads_to_def)
  from assms(1) show ?thesis
  proof cases
    case (step_wrap ev v f h)
    then have "fresh_memory (mem s) h"
      by (auto simp: Future_of_value_def new_optional_def fresh_memory_def)
    then show ?thesis using fresh fresh_leads[OF ok c, of h s' "[f]"] step_wrap by simp
  next
    case (step_launch k p h ev f)
    have "fut_value (future_cells (mem s) (next_cell (mem s))) = FuturePtr None"
      using ok cells_okD(3) by (auto simp: program_ok_def)
    then have "fresh_memory (mem s) h" using step_launch(2)
      by (cases k) (auto simp: CreatePromise_def create_concrete_promise_def create_deferred_promise_def
        Promise_concrete_def Promise_deferred_def Future_CreateEmptyShared_def new_optional_def new_future_def
        Future_CreateEmpty_def fresh_memory_def invoke_def split: prod.splits)
    then show ?thesis using fresh fresh_leads[OF ok c, of h s' "[f]"] step_launch by simp
  next
    case (step_fulfill i p v' p' h)
    then obtain d where d: "promise_value p = OptionalPtr (Some d)"
      and h: "h = (mem s)\<lparr>optional_cells := (optional_cells (mem s))(d := Some v')\<rparr>"
      by (auto simp: FulfillPromise_value_def Promise_emplace_def Promise_Value_def deref_def andThen_eq_ret
        split: future_value.splits option.splits)
    have "optional_cells (mem s) d = None"
      using ok step_fulfill(2,3) d nth_mem[OF step_fulfill(2)] by (auto simp: program_ok_def promises_ok_def promise_ok_def)
    then show ?thesis using c h j step_fulfill(1) by (auto simp: leads_to_def)
  next
    case (step_forward i p k p' h)
    show ?thesis
    proof (cases "k = j")
      case True
      then show ?thesis using step_forward(1) j by (simp add: Future_move_def null_of_null)
    next
      case False
      have o: "optional_cells h = optional_cells (mem s)"
        and f: "future_cells h = future_cells (mem s) \<or> (\<exists>a c. promise_value p = FuturePtr (Some a) \<and>
          future_cells h = (future_cells (mem s))(a := Future_emplace c (future_cells (mem s) a)))"
        using step_forward(5) by (auto simp: FulfillPromise_future_def Future_get_deferred_value_def Future_shared_value_def
          Promise_emplace_optional_def Promise_get_deferred_value_def deref_def andThen_eq_ret command_def invoke_def
          require_def split: if_splits future_value.splits option.splits)
      have "promise_value p = FuturePtr (Some a) \<Longrightarrow> fut_value (future_cells (mem s) a) = FuturePtr None" for a
        using ok step_forward(2,3) nth_mem[OF step_forward(2)] by (auto simp: program_ok_def promises_ok_def promise_ok_def)
      then show ?thesis using c o f j False step_forward(1) by (auto simp: leads_to_def split: if_splits)
    qed
  next
    case (step_view k ev v f h)
    then have "fut_value f = fut_value (held s ! k)" "optional_cells h = optional_cells (mem s)"
      "future_cells h = future_cells (mem s)"
      by (auto simp: Future_view_on_def Future_view_after_def merge2_def invoke_def split: option.splits prod.splits)
    then show ?thesis using c j step_view(1,2) by (auto simp: leads_to_def nth_list_update)
  next
    case (step_take k x h)
    show ?thesis
    proof (cases "k = j")
      case True
      then show ?thesis using step_take(1) j by (simp add: Future_move_def null_of_null)
    next
      case False
      obtain d where "follow (mem s) (fut_value (held s ! k)) = Some (ret d)"
        and h: "h = (mem s)\<lparr>optional_cells := (optional_cells (mem s))(d := Some (gone x))\<rparr>"
        using step_take(3) by (rule Future_take_value_cell)
      then have "leads_to s k d" using follow_ret ok step_take(2) by blast
      then have "d \<noteq> c" using leads_to_unique[OF ok _ c(1)] False by blast
      then show ?thesis using c h j False step_take(1) by (auto simp: leads_to_def)
    qed
  qed
qed

lemma null_stays:
  assumes "future_step rl gone s s'" and "j < length (held s)" and "null_value (fut_value (held s ! j))"
  shows "j < length (held s') \<and> null_value (fut_value (held s' ! j))"
  using assms
  by cases (auto simp: nth_append nth_list_update Future_move_def null_of_null Future_view_on_def
      Future_view_after_def merge2_def invoke_def split: option.splits prod.splits)

text \<open>
  C27. A future is assigned once: when it can be read, whatever happens afterwards it has the same value,
  until it is given away or its value is taken.
\<close>

theorem future_single_assignment:
  assumes "program_start s0" and "(future_step rl gone)\<^sup>*\<^sup>* s0 s" and "j < length (held s)"
    and "Future_get_value (mem s) (held s ! j) = Some (ret v)" and "(future_step rl gone)\<^sup>*\<^sup>* s s'"
  shows "j < length (held s') \<and> (null_value (fut_value (held s' ! j)) \<or>
    Future_get_value (mem s') (held s' ! j) = Some (ret v))"
proof -
  have ok: "program_ok s" using reachable_ok[OF assms(1,2)] .
  obtain c where c: "leads_to s j c" "optional_cells (mem s) c = Some v"
    using get_value_leads[OF ok assms(3)] assms(4) by blast
  have "program_ok s' \<and> j < length (held s') \<and> (null_value (fut_value (held s' ! j)) \<or>
    leads_to s' j c \<and> optional_cells (mem s') c = Some v)"
    using assms(5)
  proof (induction rule: rtranclp_induct)
    case base
    then show ?case using ok c assms(3) by blast
  next
    case (step y z)
    then have y: "program_ok y" "j < length (held y)" by blast+
    have z: "program_ok z" using step_ok[OF step(2) y(1)] .
    show ?case
    proof (cases "null_value (fut_value (held y ! j))")
      case True
      then show ?thesis using null_stays[OF step(2) y(2)] z by blast
    next
      case False
      then show ?thesis using step_keeps_value[OF step(2) y(1)] step(3) z by blast
    qed
  qed
  then show ?thesis using get_value_leads[of s' j v] by blast
qed

section \<open>A task that returns a future\<close>

text \<open>
  C28. A task returns a future that another task will fill in: fulfilling the promise succeeds, the
  future the launch returned then has whatever value the returned future has, now or later, and its event
  comes after the returned future's precondition.
\<close>

theorem forwarding_delivers:
  assumes "program_start s0" and "(future_step rl gone)\<^sup>*\<^sup>* s0 s"
    and i: "i < length (open_promises s)" "open_promises s ! i = Some p" "deferred_event p = Some u"
    and k: "k < length (held s)" "fut_value (held s ! k) = promise_value p" "promise_value p = FuturePtr (Some a)"
    and j: "j < length (held s)" "fut_value (held s ! j) = OptionalPtr (Some c)"
      "Future_HasPrecondition (held s ! j)"
  shows "\<exists>p' h. FulfillPromise_future rl (held s ! j) p (mem s) = ret (p', h) \<and>
    Future_get_value h (held s ! k) = Future_get_value h (held s ! j) \<and>
    Future_get_value h (held s ! j) = Future_get_value (mem s) (held s ! j) \<and>
    fut_pre (held s ! k) = Some u \<and> depends (trace_of h) u (Future_Precondition (held s ! j))"
proof -
  have ok: "program_ok s" using reachable_ok[OF assms(1,2)] .
  then have pre: "fut_pre (held s ! k) = Some u"
    using i k nth_mem[OF i(1)] nth_mem[OF k(1)] by (auto simp: program_ok_def promises_ok_def promise_ok_def)
  let ?h0 = "(mem s)\<lparr>future_cells := (future_cells (mem s))(a := Future_emplace (Some c) (future_cells (mem s) a))\<rparr>"
  let ?h = "command rl (TriggerEvent u (Future_Precondition (held s ! j))) ?h0"
  have run: "FulfillPromise_future rl (held s ! j) p (mem s) = ret (p, ?h)"
    using i(3) k(3) j by (simp add: FulfillPromise_future_def HasDeferredEvent_def HasDeferredValue_def
        Future_shared_value_def Promise_emplace_optional_def Promise_get_deferred_value_def deref_def
        DeferredEvent_def opt_get_def)
  have h: "future_cells ?h a = Future_emplace (Some c) (future_cells (mem s) a)"
    "optional_cells ?h = optional_cells (mem s)" by (simp_all add: command_def invoke_def)
  have "depends (trace_of ?h) u (Future_Precondition (held s ! j))" by (rule deps.after_trigger) auto
  moreover have "Future_get_value ?h (held s ! k) = Future_get_value ?h (held s ! j)"
    "Future_get_value ?h (held s ! j) = Future_get_value (mem s) (held s ! j)"
    using k j h by (simp_all add: Future_get_value_def Future_emplace_def deref_def)
  ultimately show ?thesis using run pre by blast
qed

text \<open>
  With a returned future that is itself waiting for a future it does not: \<open>emplace\<close> makes the promise
  point to the other shared future, and nobody tells the future that the launch returned, whose
  own shared future stays empty although its event triggers.
\<close>

lemma nested_future_lost:
  assumes "program_start s0" and "(future_step rl gone)\<^sup>*\<^sup>* s0 s"
    and i: "i < length (open_promises s)" "open_promises s ! i = Some p"
    and k: "k < length (held s)" "fut_value (held s ! k) = promise_value p" "promise_value p = FuturePtr (Some a)"
    and j: "fut_value (held s ! j) = FuturePtr b"
    and f: "FulfillPromise_future rl (held s ! j) p (mem s) = ret (p', h)"
  shows "Future_get_value h (held s ! k) = Some (fail (Undefined NullPointer))"
proof -
  have "fut_value (future_cells (mem s) a) = FuturePtr None"
    using reachable_ok[OF assms(1,2)] i k(3) nth_mem[OF i(1)] by (auto simp: program_ok_def promises_ok_def promise_ok_def)
  moreover have "future_cells h = future_cells (mem s)"
    using f j by (auto simp: FulfillPromise_future_def HasDeferredValue_def Future_get_deferred_value_def
        andThen_eq_ret command_def invoke_def require_def split: if_splits)
  ultimately show ?thesis using k by (simp add: Future_get_value_def)
qed

text \<open>And a view of a future that waits for a future never gives a value, also when there is one.\<close>

lemma deferred_future_unreadable:
  "Future_view_on rl ev f w = (v, f', w') \<Longrightarrow> fut_value f = FuturePtr a \<Longrightarrow>
   future_view_value h v = fail (RuntimeError ''cannot get value from View with unresolved Future'')"
  by (auto simp: Future_view_on_def Future_view_after_def future_view_value_def split: prod.splits)

section \<open>An example\<close>

definition empty_program :: "'v future_program" where
  "empty_program = \<lparr>mem = \<lparr>trace_of = [], pending_ops = 0, optional_cells = \<lambda>_. None,
     future_cells = \<lambda>_. Future_CreateEmpty, next_cell = 0\<rparr>, open_promises = [], held = []\<rparr>"

lemma empty_program_start: "program_start empty_program"
  by (simp add: program_start_def empty_program_def Future_CreateEmpty_def)

text \<open>A task that returns a future is launched, then a task that returns 42, which runs.\<close>

definition two_launched :: "nat future_program" where
  "two_launched = \<lparr>mem = \<lparr>trace_of = [(CreateUserEvent, 1)], pending_ops = 0, optional_cells = (\<lambda>_. None)(1 := Some 42),
     future_cells = \<lambda>_. Future_CreateEmpty, next_cell = 2\<rparr>,
     open_promises = [Some \<lparr>deferred_event = Some 1, promise_value = FuturePtr (Some 0)\<rparr>, None],
     held = [Future_of_future 1 (Some 0), Future_of_optional 7 (Some 1)]\<rparr>"

lemma example_launch: "(future_step fresh_realm id)\<^sup>*\<^sup>* empty_program two_launched"
proof -
  let ?s1 = "\<lparr>mem = \<lparr>trace_of = [(CreateUserEvent, 1)], pending_ops = 0, optional_cells = (\<lambda>_. None),
     future_cells = \<lambda>_. Future_CreateEmpty, next_cell = 1\<rparr>,
     open_promises = [Some \<lparr>deferred_event = Some 1, promise_value = FuturePtr (Some 0)\<rparr>],
     held = [Future_of_future 1 (Some 0)]\<rparr> :: nat future_program"
  let ?s2 = "\<lparr>mem = \<lparr>trace_of = [(CreateUserEvent, 1)], pending_ops = 0, optional_cells = (\<lambda>_. None),
     future_cells = \<lambda>_. Future_CreateEmpty, next_cell = 2\<rparr>,
     open_promises = [Some \<lparr>deferred_event = Some 1, promise_value = FuturePtr (Some 0)\<rparr>,
       Some \<lparr>deferred_event = None, promise_value = OptionalPtr (Some 1)\<rparr>],
     held = [Future_of_future 1 (Some 0), Future_of_optional 7 (Some 1)]\<rparr> :: nat future_program"
  have 1: "future_step fresh_realm id empty_program ?s1"
    using step_launch[of fresh_realm FuturePromise empty_program "\<lparr>deferred_event = Some 1, promise_value = FuturePtr (Some 0)\<rparr>"
        "mem ?s1" 0 "Future_of_future 1 (Some 0)" id]
    by (simp add: CreatePromise_def create_deferred_promise_def Promise_deferred_def Future_CreateEmptyShared_def
        new_future_def invoke_def fresh_realm_def empty_program_def CreateFuture_def create_deferred_future_def
        DeferredEvent_def opt_get_def Promise_get_deferred_value_def fun_upd_idem)
  have 2: "future_step fresh_realm id ?s1 ?s2"
    using step_launch[of fresh_realm ValuePromise ?s1 "\<lparr>deferred_event = None, promise_value = OptionalPtr (Some 1)\<rparr>"
        "mem ?s2" 7 "Future_of_optional 7 (Some 1)" id]
    by (simp add: CreatePromise_def create_concrete_promise_def Promise_concrete_def new_optional_def
        CreateFuture_def create_concrete_future_def Promise_Value_def fun_upd_idem)
  have 3: "future_step fresh_realm id ?s2 two_launched"
    using step_fulfill[of 1 ?s2 "\<lparr>deferred_event = None, promise_value = OptionalPtr (Some 1)\<rparr>" 42
        "\<lparr>deferred_event = None, promise_value = OptionalPtr (Some 1)\<rparr>" "mem two_launched" fresh_realm id]
    by (simp add: FulfillPromise_value_def Promise_emplace_def Promise_Value_def deref_def two_launched_def)
  show ?thesis
    using rtranclp.rtrancl_into_rtrancl[OF rtranclp.rtrancl_into_rtrancl[OF
        r_into_rtranclp[of "future_step fresh_realm id", OF 1] 2] 3] .
qed

theorem promises_refine_witness:
  "\<exists>(w' :: unit runtime_scheme) (fs :: future list) h'.
     make_promises fresh_realm (map kind_seen [FuturePromise, ValuePromise]) \<lparr>trace_of = [], pending_ops = 0\<rparr> =
       ([Some 1, None], w') \<and>
     trace_of w' = trace_of h' \<and> make_promise_tuple fresh_realm [FuturePromise, ValuePromise] (mem (empty_program :: nat future_program)) =
       ([\<lparr>deferred_event = Some 1, promise_value = FuturePtr (Some 0)\<rparr>,
         \<lparr>deferred_event = None, promise_value = OptionalPtr (Some 1)\<rparr>], h') \<and>
     map fut_pre fs = map Some (make_futures [Some 1, None] 7)"
proof -
  let ?w = "\<lparr>trace_of = [], pending_ops = 0\<rparr> :: unit runtime_scheme"
  let ?ps = "[\<lparr>deferred_event = Some 1, promise_value = FuturePtr (Some 0)\<rparr>,
         \<lparr>deferred_event = None, promise_value = OptionalPtr (Some 1)\<rparr>]"
  obtain h' where h: "make_promise_tuple fresh_realm [FuturePromise, ValuePromise] (mem (empty_program :: nat future_program)) = (?ps, h')"
    by (simp add: CreatePromise_def create_deferred_promise_def create_concrete_promise_def Promise_deferred_def
        Promise_concrete_def Future_CreateEmptyShared_def new_future_def new_optional_def invoke_def fresh_realm_def
        empty_program_def)
  have "trace_of ?w = trace_of (mem (empty_program :: nat future_program))" by (simp add: empty_program_def)
  from promises_refine[OF h this, where ev = 7] obtain w' :: "unit runtime_scheme" and fs :: "future list" where
    *: "make_promises fresh_realm (map kind_seen [FuturePromise, ValuePromise]) ?w = (map deferred_event ?ps, w')"
      "trace_of w' = trace_of h'" "map fut_pre fs = map Some (make_futures (map deferred_event ?ps) 7)"
    by blast
  have "map deferred_event ?ps = [Some 1, None]" by simp
  from *[unfolded this] h show ?thesis by blast
qed

theorem futures_well_formed_witness:
  "program_ok two_launched \<and> (\<exists>r. Future_get_value (mem two_launched) (held two_launched ! 0) = Some r)"
  using futures_well_formed[OF empty_program_start example_launch] by (auto simp: two_launched_def)

theorem forwarding_delivers_witness:
  "\<exists>p' h. FulfillPromise_future fresh_realm (Future_of_optional 7 (Some 1))
     \<lparr>deferred_event = Some 1, promise_value = FuturePtr (Some 0)\<rparr> (mem two_launched) = ret (p', h) \<and>
   Future_get_value h (Future_of_future 1 (Some 0)) = Some (ret (42 :: nat)) \<and> depends (trace_of h) 1 7"
proof -
  have "Future_get_value (mem two_launched) (Future_of_optional 7 (Some 1)) = Some (ret 42)"
    by (simp add: Future_get_value_def Future_of_optional_def two_launched_def deref_def)
  then show ?thesis
    using forwarding_delivers[OF empty_program_start example_launch, of 0
        "\<lparr>deferred_event = Some 1, promise_value = FuturePtr (Some 0)\<rparr>" 1 0 0 1 1]
    by (auto simp: two_launched_def Future_of_optional_def Future_of_future_def Future_HasPrecondition_def
        Future_Precondition_def)
qed

text \<open>A task reads the second future.\<close>

theorem future_single_assignment_witness:
  "\<exists>s'. future_step fresh_realm id two_launched s' \<and> fut_war (held s' ! 1) = Some 9 \<and>
     Future_get_value (mem s') (held s' ! 1) = Some (ret 42)"
proof -
  have v: "Future_get_value (mem two_launched) (held two_launched ! 1) = Some (ret 42)" "1 < length (held two_launched)"
    by (simp_all add: Future_get_value_def Future_of_optional_def two_launched_def deref_def)
  let ?f = "(held two_launched ! 1)\<lparr>fut_war := Some 9\<rparr>"
  let ?s = "two_launched\<lparr>mem := mem two_launched, held := (held two_launched)[1 := ?f]\<rparr>"
  obtain w where "Future_view_on fresh_realm 9 (held two_launched ! 1) (mem two_launched) = (w, ?f, mem two_launched)"
    by (simp add: Future_view_on_def Future_view_after_def two_launched_def Future_of_optional_def)
  from step_view[OF v(2) this] have step: "future_step fresh_realm id two_launched ?s" .
  then have "Future_get_value (mem ?s) (held ?s ! 1) = Some (ret 42)"
    using future_single_assignment[OF empty_program_start example_launch v(2,1), of ?s]
    by (auto simp: two_launched_def Future_of_optional_def)
  then show ?thesis using step v(2) by (intro exI[of _ ?s]) simp
qed

end
