(* ===== verification/Task_Ids.thy ===== *)
theory Task_Ids
  imports Processor
begin

text \<open>
  Task ids: \<open>GlobalTaskId\<close> of \<open>src/zuku/init.h\<close>, \<open>GetTaskId\<close> and \<open>RealmTaskDescriptor\<close> of
  \<open>src/zuku/task.h\<close>, \<open>nextRealmTaskId\<close> of \<open>src/zuku/task.cc\<close>. A user function is a type in the code, a
  number here: \<open>GetTaskId\<close> is a static template, so that every translation unit has instances of its own, and
  a number stands for a function in one translation unit.
\<close>

section \<open>Task ids\<close>

text \<open>
  The ids of the library's own tasks start four past the first id Realm leaves free, \<open>first\<close>; the
  ids of user functions come after them.
\<close>

datatype global_task_id =
    RESHARD_POINT_TO_POINT_NAME_EXCHANGE | RESHARD_SCATTER_GATHER_NAME_EXCHANGE | DELETE_TASK
  | PROFILE_STOP | RELEASE_SHARED_POINTER | CHECK_MEMORY_ALLOCATION | FIRST_AVAILABLE

fun global_task_id_int :: "int \<Rightarrow> global_task_id \<Rightarrow> int" where
  "global_task_id_int first RESHARD_POINT_TO_POINT_NAME_EXCHANGE = first + 4"
| "global_task_id_int first RESHARD_SCATTER_GATHER_NAME_EXCHANGE = first + 5"
| "global_task_id_int first DELETE_TASK = first + 6"
| "global_task_id_int first PROFILE_STOP = first + 7"
| "global_task_id_int first RELEASE_SHARED_POINTER = first + 8"
| "global_task_id_int first CHECK_MEMORY_ALLOCATION = first + 9"
| "global_task_id_int first FIRST_AVAILABLE = first + 10"

text \<open>
  The static variables: the counter, the id that every instance of the template remembers, one for each
  function and type, and what was registered with Realm.
\<close>

record task_registry =
  next_task_id :: int
  known_ids :: "nat \<times> proc_type \<Rightarrow> int option"
  registered :: "(int \<times> realm_kind) list"

definition new_registry :: "int \<Rightarrow> task_registry" where
  "new_registry first = \<lparr>next_task_id = global_task_id_int first FIRST_AVAILABLE, known_ids = (\<lambda>_. None),
     registered = []\<rparr>"

definition nextRealmTaskId :: "task_registry \<Rightarrow> int \<times> task_registry" where
  "nextRealmTaskId r = (next_task_id r, r\<lparr>next_task_id := next_task_id r + 1\<rparr>)"

definition RealmTaskDescriptor :: "int \<Rightarrow> proc_type \<Rightarrow> task_registry \<Rightarrow> task_registry" where
  "RealmTaskDescriptor next_id type r = r\<lparr>registered := registered r @ [(next_id, ToRealmKind type)]\<rparr>"

definition GetTaskId_of :: "nat \<Rightarrow> proc_type \<Rightarrow> task_registry \<Rightarrow> int \<times> task_registry" where
  \<comment> \<open>the template over the type: its static variables are initialised by the first call\<close>
  "GetTaskId_of fxn type r = (case known_ids r (fxn, type) of
     Some tid \<Rightarrow> (tid, r)
   | None \<Rightarrow> (let (next_id, r1) = nextRealmTaskId r
              in (next_id, RealmTaskDescriptor next_id type
                   (r1\<lparr>known_ids := (known_ids r1)((fxn, type) \<mapsto> next_id)\<rparr>))))"

definition GetTaskId :: "nat \<Rightarrow> proc_type \<Rightarrow> task_registry \<Rightarrow> int \<times> task_registry" where
  "GetTaskId fxn type r = (case type of
     CPU \<Rightarrow> GetTaskId_of fxn CPU r
   | GPU \<Rightarrow> GetTaskId_of fxn GPU r
   | UTIL \<Rightarrow> GetTaskId_of fxn UTIL r
   | TEST \<Rightarrow> (-1, r)
   | NUM_TYPES \<Rightarrow> (-1, r))"

fun get_task_ids :: "(nat \<times> proc_type) list \<Rightarrow> task_registry \<Rightarrow> int list \<times> task_registry" where
  "get_task_ids [] r = ([], r)"
| "get_task_ids ((fxn, type) # calls) r =
     (let (tid, r1) = GetTaskId fxn type r; (ids, r2) = get_task_ids calls r1 in (tid # ids, r2))"

text \<open>What the calls keep: the known ids are distinct, from the given start on, and registered in order.\<close>

definition registry_ok :: "int \<Rightarrow> task_registry \<Rightarrow> bool" where
  "registry_ok base r \<longleftrightarrow>
     (\<exists>order. distinct order \<and> next_task_id r = base + int (length order) \<and>
        (\<forall>k tid. known_ids r k = Some tid \<longleftrightarrow> (\<exists>i < length order. order ! i = k \<and> tid = base + int i)) \<and>
        registered r = map (\<lambda>i. (base + int i, ToRealmKind (snd (order ! i)))) [0..<length order])"

lemma filter_eq_single: "x \<in> set xs \<Longrightarrow> distinct xs \<Longrightarrow> filter (\<lambda>t. t = x) xs = [x]"
  by (induction xs) (auto simp: filter_empty_conv)

lemma registry_okD:
  assumes "registry_ok base r" and "known_ids r k = Some tid"
  shows "base \<le> tid" and "known_ids r k' = Some tid \<Longrightarrow> k' = k"
    and "(tid, ToRealmKind (snd k)) \<in> set (registered r)" and "distinct (map fst (registered r))"
proof -
  obtain order where o: "\<And>k tid. known_ids r k = Some tid \<longleftrightarrow> (\<exists>i < length order. order ! i = k \<and> tid = base + int i)"
    "registered r = map (\<lambda>i. (base + int i, ToRealmKind (snd (order ! i)))) [0..<length order]"
    using assms(1) by (auto simp: registry_ok_def)
  show "base \<le> tid" using assms(2) o(1) by auto
  show "known_ids r k' = Some tid \<Longrightarrow> k' = k" using assms(2) o(1) by auto
  show "(tid, ToRealmKind (snd k)) \<in> set (registered r)" using assms(2) o by auto
  show "distinct (map fst (registered r))" by (simp add: o(2) comp_def distinct_map inj_on_def)
qed

lemma GetTaskId_of_ok:
  assumes "registry_ok base r" and "GetTaskId_of fxn type r = (tid, r')"
  shows "registry_ok base r'" and "known_ids r' (fxn, type) = Some tid"
    and "known_ids r k = Some x \<Longrightarrow> known_ids r' k = Some x"
proof -
  show keep: "known_ids r k = Some x \<Longrightarrow> known_ids r' k = Some x"
    using assms(2) by (auto simp: GetTaskId_of_def nextRealmTaskId_def RealmTaskDescriptor_def split: option.splits)
  show "known_ids r' (fxn, type) = Some tid"
    using assms(2) by (auto simp: GetTaskId_of_def nextRealmTaskId_def RealmTaskDescriptor_def split: option.splits)
  show "registry_ok base r'"
  proof (cases "known_ids r (fxn, type)")
    case (Some y)
    then show ?thesis using assms by (simp add: GetTaskId_of_def)
  next
    case None
    obtain order where o: "distinct order" "next_task_id r = base + int (length order)"
      "\<And>k tid. known_ids r k = Some tid \<longleftrightarrow> (\<exists>i < length order. order ! i = k \<and> tid = base + int i)"
      "registered r = map (\<lambda>i. (base + int i, ToRealmKind (snd (order ! i)))) [0..<length order]"
      using assms(1) by (auto simp: registry_ok_def)
    have new: "(fxn, type) \<notin> set order"
      using None o(3)[of "(fxn, type)"] by (auto simp: in_set_conv_nth)
    have r': "next_task_id r' = base + int (length order) + 1"
      "known_ids r' = (known_ids r)((fxn, type) \<mapsto> base + int (length order))"
      "registered r' = registered r @ [(base + int (length order), ToRealmKind type)]"
      using assms(2) None o(2) by (auto simp: GetTaskId_of_def nextRealmTaskId_def RealmTaskDescriptor_def)
    show ?thesis unfolding registry_ok_def
    proof (intro exI[of _ "order @ [(fxn, type)]"] conjI allI)
      fix k x
      show "known_ids r' k = Some x \<longleftrightarrow>
        (\<exists>i < length (order @ [(fxn, type)]). (order @ [(fxn, type)]) ! i = k \<and> x = base + int i)"
        using o(3)[of k x] new by (auto simp: r'(2) nth_append less_Suc_eq in_set_conv_nth)
    qed (use o new r' in \<open>auto simp: nth_append\<close>)
  qed
qed

lemma GetTaskId_eq:
  "GetTaskId fxn type r = (if real_type type then GetTaskId_of fxn type r else (-1, r))"
  by (cases type) (simp_all add: GetTaskId_def real_type_def)

lemma GetTaskId_ok:
  assumes "registry_ok base r" and "GetTaskId fxn type r = (tid, r')"
  shows "registry_ok base r'" and "known_ids r k = Some x \<Longrightarrow> known_ids r' k = Some x"
    and "real_type type \<Longrightarrow> known_ids r' (fxn, type) = Some tid" and "\<not> real_type type \<Longrightarrow> tid = -1"
proof -
  have *: "if real_type type then GetTaskId_of fxn type r = (tid, r') else tid = -1 \<and> r' = r"
    using assms(2) by (simp add: GetTaskId_eq split: if_splits)
  show "registry_ok base r'" using * GetTaskId_of_ok(1)[OF assms(1)] assms(1) by (metis (full_types))
  show "known_ids r k = Some x \<Longrightarrow> known_ids r' k = Some x"
    using * GetTaskId_of_ok(3)[OF assms(1)] by (metis (full_types))
  show "real_type type \<Longrightarrow> known_ids r' (fxn, type) = Some tid"
    using * GetTaskId_of_ok(2)[OF assms(1)] by (metis (full_types))
  show "\<not> real_type type \<Longrightarrow> tid = -1" using * by simp
qed

lemma get_task_ids_ok:
  assumes "registry_ok base r" and "get_task_ids calls r = (ids, r')"
  shows "registry_ok base r' \<and> length ids = length calls \<and>
    (\<forall>k x. known_ids r k = Some x \<longrightarrow> known_ids r' k = Some x) \<and>
    (\<forall>i < length calls. if real_type (snd (calls ! i)) then known_ids r' (calls ! i) = Some (ids ! i)
       else ids ! i = -1)"
  using assms
proof (induction calls arbitrary: r ids)
  case Nil
  then show ?case by simp
next
  case (Cons c calls)
  obtain tid r1 ids' where 1: "GetTaskId (fst c) (snd c) r = (tid, r1)" and 2: "get_task_ids calls r1 = (ids', r')"
    and ids: "ids = tid # ids'"
    using Cons.prems(2) by (cases c) (auto split: prod.splits)
  note ok = GetTaskId_ok[OF Cons.prems(1) 1] and IH = Cons.IH[OF GetTaskId_ok(1)[OF Cons.prems(1) 1] 2]
  show ?case
    using ok IH by (cases c) (auto simp: ids nth_Cons split: nat.splits if_splits)
qed

lemma new_registry_ok: "registry_ok (global_task_id_int first FIRST_AVAILABLE) (new_registry first)"
  by (simp add: registry_ok_def new_registry_def)

text \<open>
  C35. Whatever ids of tasks a process asks for, in any order: two launches get the same id exactly when they
  run the same function, of the same translation unit, on the same type of processor, no id is one of the library's own, and each id is
  registered with Realm once, for the kind of that type. Types that nothing runs on get -1.
\<close>

theorem task_ids_distinct:
  assumes "get_task_ids calls (new_registry first) = (ids, r)" and "i < length calls" and "j < length calls"
    and "real_type (snd (calls ! i))"
  shows "ids ! i > global_task_id_int first CHECK_MEMORY_ALLOCATION \<and>
    (0 \<le> first \<longrightarrow> (ids ! i = ids ! j \<longleftrightarrow> calls ! i = calls ! j)) \<and>
    length (filter (\<lambda>t. fst t = ids ! i) (registered r)) = 1 \<and>
    (ids ! i, ToRealmKind (snd (calls ! i))) \<in> set (registered r)"
proof -
  note ok = get_task_ids_ok[OF new_registry_ok assms(1)]
  have i: "known_ids r (calls ! i) = Some (ids ! i)" using ok assms(2,4) by auto
  note D = registry_okD[OF conjunct1[OF ok] i]
  have "length (filter (\<lambda>t. fst t = ids ! i) (registered r)) = 1"
  proof -
    have "filter (\<lambda>t. t = ids ! i) (map fst (registered r)) = [ids ! i]"
      using D(3,4) by (intro filter_eq_single) force+
    then have "length (filter (\<lambda>t. t = ids ! i) (map fst (registered r))) = 1" by simp
    then show ?thesis by (simp add: filter_map comp_def split_beta)
  qed
  moreover have "ids ! i = ids ! j \<longleftrightarrow> calls ! i = calls ! j" if "0 \<le> first"
  proof (cases "real_type (snd (calls ! j))")
    case True
    then have "known_ids r (calls ! j) = Some (ids ! j)" using ok assms(3) by auto
    then show ?thesis using D(2)[of "calls ! j"] i by auto
  next
    case False
    then show ?thesis using ok assms(3,4) D(1) that by auto
  qed
  ultimately show ?thesis using D(1,3) by simp
qed

theorem task_ids_distinct_witness:
  "let calls = [(0, CPU), (1, GPU), (0, UTIL), (0, CPU)] in
   get_task_ids calls (new_registry 8) =
     ([18, 19, 20, 18], snd (get_task_ids calls (new_registry 8))) \<and> (18 :: int) > 17 \<and>
   length (filter (\<lambda>t. fst t = 18) (registered (snd (get_task_ids calls (new_registry 8))))) = 1"
proof -
  let ?calls = "[(0, CPU), (1, GPU), (0, UTIL), (0, CPU)] :: (nat \<times> proc_type) list"
  have r: "get_task_ids ?calls (new_registry 8) = ([18, 19, 20, 18], snd (get_task_ids ?calls (new_registry 8)))"
    by (simp add: new_registry_def GetTaskId_def GetTaskId_of_def nextRealmTaskId_def RealmTaskDescriptor_def)
  show ?thesis using task_ids_distinct[OF r, of 0 3] r by (simp add: real_type_def)
qed

end
