(* ===== verification/Start_Up.thy ===== *)
theory Start_Up
  imports Store Task_Ids "HOL-Library.While_Combinator"
begin

text \<open>
  The start and the end of a process: \<open>Init\<close>, \<open>Stop\<close> and \<open>WaitForPendingOps\<close> of \<open>src/zuku/init.cc\<close> and
  the \<open>RealmConfig\<close> of \<open>src/zuku/init.h\<close>.
\<close>

section \<open>Configuration\<close>

text \<open>
  Before it is started, Realm is configured by calls that say whether they were understood. What they
  answer is a parameter; the calls that were made are a log.
\<close>

datatype network_config = NoNetwork | NetworkName string | NetworkFlag bool

record realm_config =
  cfg_cpus :: "int option"
  cfg_gpus :: "int option"
  cfg_sysmem :: "int option"
  cfg_fbmem :: "int option"
  cfg_zcmem :: "int option"
  cfg_network :: network_config
  cfg_cmdline :: "string list option"
  cfg_kthreads :: bool
  cfg_profile :: bool
  cfg_argv :: "string list"

definition default_config :: realm_config where
  "default_config = \<lparr>cfg_cpus = None, cfg_gpus = None, cfg_sysmem = None, cfg_fbmem = None, cfg_zcmem = None,
     cfg_network = NetworkFlag True, cfg_cmdline = None, cfg_kthreads = False, cfg_profile = True, cfg_argv = []\<rparr>"

datatype boot_call =
    CreateConfigs "string list" | NetworkInit "string list" | SetProperty string string int
  | ParseCommandLine "string list" | FinishConfigure | StartRealm

text \<open>
  \<open>boot_answer\<close> is whether a call returns true, \<open>boot_module\<close> whether Realm was built with a module,
  \<open>boot_argv\<close> what \<open>network_init\<close> leaves of the command line it is given by reference.
\<close>

record boot_world =
  boot_answer :: "boot_call list \<Rightarrow> boot_call \<Rightarrow> bool"
  boot_module :: "string \<Rightarrow> bool"
  boot_argv :: "string list \<Rightarrow> string list"

definition boot_try :: "boot_world \<Rightarrow> boot_call \<Rightarrow> err \<Rightarrow> boot_call list \<Rightarrow> boot_call list res" where
  \<comment> \<open>a call that must be understood\<close>
  "boot_try b c e calls = andThen (require (boot_answer b calls c) e) (\<lambda>_. ret (calls @ [c]))"

definition network_of :: "network_config \<Rightarrow> string option" where
  "network_of n = (case n of
     NoNetwork \<Rightarrow> None
   | NetworkName name \<Rightarrow> if name = ''default'' then None else Some name
   | NetworkFlag on \<Rightarrow> if on then None else Some ''none'')"

definition kMB :: int where "kMB = 1000 * 1000"

definition set_optional ::
  "boot_world \<Rightarrow> string \<Rightarrow> string \<Rightarrow> int \<Rightarrow> int option \<Rightarrow> string \<Rightarrow> boot_call list \<Rightarrow> boot_call list res" where
  \<comment> \<open>\<open>if (cfg.x.has_value() && !module->set_property(name, *cfg.x * unit)) throw\<close>\<close>
  "set_optional b module name unit x msg calls = (case x of
     None \<Rightarrow> ret calls
   | Some n \<Rightarrow> andThen (mul64 n unit) (\<lambda>value. boot_try b (SetProperty module name value) (RuntimeError msg) calls))"

definition init_network ::
  "boot_world \<Rightarrow> realm_config \<Rightarrow> string list \<Rightarrow> boot_call list \<Rightarrow> (string list \<times> boot_call list) res" where
  \<comment> \<open>with a network of its own the command line is not shown to \<open>network_init\<close>\<close>
  "init_network b cfg argv calls = (case network_of (cfg_network cfg) of
     Some network \<Rightarrow> andThen (boot_try b (NetworkInit ['''', ''-ll:networks'', network])
         (RuntimeError ''unable to init Realm network'') calls) (\<lambda>calls'. ret (argv, calls'))
   | None \<Rightarrow> andThen (boot_try b (NetworkInit argv) (RuntimeError ''unable to init Realm network'') calls)
       (\<lambda>calls'. ret (boot_argv b argv, calls')))"

definition configure_core :: "boot_world \<Rightarrow> realm_config \<Rightarrow> boot_call list \<Rightarrow> boot_call list res" where
  "configure_core b cfg calls =
     andThen (require (boot_module b ''core'') (RuntimeError ''no core config found for Realm'')) (\<lambda>_.
     andThen (boot_try b (SetProperty ''core'' ''util'' 2) (RuntimeError ''failed to set no. util procs'') calls) (\<lambda>c1.
     andThen (set_optional b ''core'' ''cpu'' 1 (cfg_cpus cfg) ''unable to set no. cpus on Realm config'' c1) (\<lambda>c2.
     set_optional b ''core'' ''sysmem'' kMB (cfg_sysmem cfg) ''unable to set sysmem on Realm config'' c2)))"

definition configure_cuda :: "boot_world \<Rightarrow> realm_config \<Rightarrow> boot_call list \<Rightarrow> boot_call list res" where
  "configure_cuda b cfg calls =
     (if boot_module b ''cuda''
      then
        andThen (set_optional b ''cuda'' ''zcmem'' kMB (cfg_zcmem cfg) ''unable to set zcmem on Realm config'' calls) (\<lambda>c1.
        andThen (set_optional b ''cuda'' ''gpu'' 1 (cfg_gpus cfg) ''unable to set no. gpus on Realm config'' c1) (\<lambda>c2.
        set_optional b ''cuda'' ''fbmem'' kMB (cfg_fbmem cfg) ''unable to set fbmem on Realm config'' c2))
      else if value_or (cfg_gpus cfg) 0 > 0 then fail Aborted
      else ret calls)"

definition command_line :: "realm_config \<Rightarrow> string list \<Rightarrow> string list res" where
  \<comment> \<open>\<open>{argv + 1, argv + argc}\<close>, then what the configuration adds\<close>
  "command_line cfg argv = (case argv of
     [] \<Rightarrow> fail (Undefined OutOfRange)
   | prog # args \<Rightarrow> ret (args @ cfg_argv cfg @ (if cfg_kthreads cfg then [''-ll:force_kthreads''] else []) @
       (case cfg_cmdline cfg of Some extra \<Rightarrow> extra | None \<Rightarrow> [])))"

definition Init_configure :: "boot_world \<Rightarrow> realm_config \<Rightarrow> string list \<Rightarrow> boot_call list res" where
  \<comment> \<open>\<open>Init\<close> up to \<open>rt.start()\<close>\<close>
  "Init_configure b cfg argv =
     andThen (boot_try b (CreateConfigs argv) (RuntimeError ''unable to create Realm configs'') []) (\<lambda>c1.
     andThen (init_network b cfg argv c1) (\<lambda>(argv', c2).
     andThen (configure_core b cfg c2) (\<lambda>c3.
     andThen (configure_cuda b cfg c3) (\<lambda>c4.
     andThen (command_line cfg argv') (\<lambda>cmdline.
     ret (c4 @ [ParseCommandLine cmdline, FinishConfigure, StartRealm]))))))"

section \<open>Registering the library's tasks\<close>

definition register_tasks :: "realm \<Rightarrow> int \<Rightarrow> 'z runtime_scheme \<Rightarrow> event list \<times> 'z runtime_scheme" where
  \<comment> \<open>the events \<open>e1\<close> to \<open>e5\<close>\<close>
  "register_tasks rl first w =
     (let register = (\<lambda>tid kind w. invoke rl (RegisterTask (global_task_id_int first tid) kind) w);
          (e1, w1) = register RESHARD_POINT_TO_POINT_NAME_EXCHANGE LOC_PROC w;
          (e2, w2) = register DELETE_TASK UTIL_PROC w1;
          (e3, w3) = register PROFILE_STOP UTIL_PROC w2;
          (e4, w4) = register RELEASE_SHARED_POINTER UTIL_PROC w3;
          (e5, w5) = register CHECK_MEMORY_ALLOCATION UTIL_PROC w4
      in ([e1, e2, e3, e4, e5], w5))"

definition Init_tasks :: "realm \<Rightarrow> int \<Rightarrow> 'z runtime_scheme \<Rightarrow> event \<times> 'z runtime_scheme" where
  \<comment> \<open>with the event of the task all processes wait for; the barriers of the network are left out\<close>
  "Init_tasks rl first w =
     (let (es, w1) = register_tasks rl first w;
          (e, w2) = invoke rl (MergeEvents (take 4 es)) w1;
          (agree, w3) = invoke rl (CollectiveSpawn e) w2
      in (agree, command rl (WaitEvent agree) w3))"

definition Init ::
  "boot_world \<Rightarrow> realm \<Rightarrow> machine \<Rightarrow> int \<Rightarrow> realm_config \<Rightarrow> string list \<Rightarrow> 'z runtime_scheme \<Rightarrow>
   (boot_call list \<times> proc_tables \<times> 'z runtime_scheme) res" where
  "Init b rl m first cfg argv w =
     andThen (Init_configure b cfg argv) (\<lambda>calls.
     andThen (proc_Init m no_tables) (\<lambda>t.
     ret (calls, t, snd (Init_tasks rl first w))))"

text \<open>What a start that succeeds has asked of Realm, in order: nothing twice, nothing that was not configured.\<close>

definition property_of :: "string \<Rightarrow> string \<Rightarrow> int \<Rightarrow> int option \<Rightarrow> boot_call list" where
  "property_of module name unit x = (case x of None \<Rightarrow> [] | Some n \<Rightarrow> [SetProperty module name (n * unit)])"

lemma boot_try_eq_ret: "boot_try b c e calls = ret calls' \<longleftrightarrow> boot_answer b calls c \<and> calls' = calls @ [c]"
  by (auto simp: boot_try_def require_def)

lemma set_optional_eq_ret:
  "set_optional b module name unit x msg calls = ret calls' \<Longrightarrow> calls' = calls @ property_of module name unit x"
  by (auto simp: set_optional_def property_of_def andThen_eq_ret boot_try_eq_ret mul64_def chk_def
      split: option.splits if_splits)

lemma Init_configure_calls:
  assumes "Init_configure b cfg argv = ret calls"
  shows "\<exists>cmdline. calls = [CreateConfigs argv,
      NetworkInit (case network_of (cfg_network cfg) of Some n \<Rightarrow> ['''', ''-ll:networks'', n] | None \<Rightarrow> argv),
      SetProperty ''core'' ''util'' 2] @
    property_of ''core'' ''cpu'' 1 (cfg_cpus cfg) @ property_of ''core'' ''sysmem'' kMB (cfg_sysmem cfg) @
    (if boot_module b ''cuda''
     then property_of ''cuda'' ''zcmem'' kMB (cfg_zcmem cfg) @ property_of ''cuda'' ''gpu'' 1 (cfg_gpus cfg) @
       property_of ''cuda'' ''fbmem'' kMB (cfg_fbmem cfg)
     else []) @
    [ParseCommandLine cmdline, FinishConfigure, StartRealm]"
proof -
  obtain argv' c2 c3 c4 cmdline where c2: "init_network b cfg argv [CreateConfigs argv] = ret (argv', c2)"
    and c3: "configure_core b cfg c2 = ret c3" and c4: "configure_cuda b cfg c3 = ret c4"
    and calls: "calls = c4 @ [ParseCommandLine cmdline, FinishConfigure, StartRealm]"
    using assms by (auto simp: Init_configure_def andThen_eq_ret boot_try_eq_ret)
  have "c2 = [CreateConfigs argv,
      NetworkInit (case network_of (cfg_network cfg) of Some n \<Rightarrow> ['''', ''-ll:networks'', n] | None \<Rightarrow> argv)]"
    using c2 by (auto simp: init_network_def andThen_eq_ret boot_try_eq_ret split: option.splits)
  moreover have "c3 = c2 @ SetProperty ''core'' ''util'' 2 # property_of ''core'' ''cpu'' 1 (cfg_cpus cfg) @
      property_of ''core'' ''sysmem'' kMB (cfg_sysmem cfg)"
    using c3 by (auto simp: configure_core_def andThen_eq_ret boot_try_eq_ret dest!: set_optional_eq_ret)
  moreover have "c4 = c3 @ (if boot_module b ''cuda''
     then property_of ''cuda'' ''zcmem'' kMB (cfg_zcmem cfg) @ property_of ''cuda'' ''gpu'' 1 (cfg_gpus cfg) @
       property_of ''cuda'' ''fbmem'' kMB (cfg_fbmem cfg) else [])"
    using c4 by (auto simp: configure_cuda_def andThen_eq_ret dest!: set_optional_eq_ret split: if_splits)
  ultimately show ?thesis using calls by auto
qed

text \<open>
  The task all processes agree on waits for four of the five registrations: a process may go on before the
  task that checks allocations, event 5 here, is known to Realm.
\<close>

lemma Init_forgets_allocation_task:
  assumes "Init_tasks fresh_realm first \<lparr>trace_of = [], pending_ops = 0\<rparr> = (agree, w)"
  shows "fst (register_tasks fresh_realm first \<lparr>trace_of = [], pending_ops = 0\<rparr>) = [1, 2, 3, 4, 5] \<and>
    (\<forall>e \<in> {1, 2, 3, 4}. depends (trace_of w) agree e) \<and> \<not> depends (trace_of w) agree 5"
proof -
  have r: "fst (register_tasks fresh_realm first \<lparr>trace_of = [], pending_ops = 0\<rparr>) = [1, 2, 3, 4, 5]"
    by (simp add: register_tasks_def invoke_def fresh_realm_def)
  have a: "agree = 7" and w: "waits (trace_of w) = {(6, 1), (6, 2), (6, 3), (6, 4), (7, 6)}"
    using assms by (auto simp: Init_tasks_def register_tasks_def invoke_def command_def fresh_realm_def waits_def)
  have "depends (trace_of w) 7 6" using w by (intro depends_edge) simp
  moreover have "depends (trace_of w) 6 e" if "e \<in> {1, 2, 3, 4}" for e using w that by (intro depends_edge) auto
  moreover have "\<not> depends (trace_of w) 7 5" using depends_range[of "trace_of w" 7 5] by (auto simp: w)
  ultimately show ?thesis using r a depends_trans by blast
qed

section \<open>Stopping\<close>

text \<open>
  A process at work: calls of Realm, pointers that are released, and releases that run. A release is counted
  before its task is spawned; in between it is held. Other threads take these steps while \<open>Stop\<close> waits.
\<close>

record process = runtime +
  held_releases :: nat
  releases_run :: nat

fun is_release :: "realm_call \<times> nat \<Rightarrow> bool" where
  "is_release (SpawnRelease _ _, _) = True"
| "is_release _ = False"

definition releases_spawned :: "'z runtime_scheme \<Rightarrow> nat" where
  "releases_spawned w = length (filter is_release (trace_of w))"

definition outstanding :: "process \<Rightarrow> nat" where
  "outstanding w = held_releases w + releases_spawned w - releases_run w"

inductive process_step :: "realm \<Rightarrow> process \<Rightarrow> process \<Rightarrow> bool" for rl where
  step_call: "\<not> is_release (c, 0) \<Longrightarrow> process_step rl w (command rl c w)"
| step_count: "process_step rl w ((IncPendingOp w)\<lparr>held_releases := held_releases w + 1\<rparr>)"
| step_spawn: "0 < held_releases w \<Longrightarrow>
    process_step rl w ((command rl (SpawnRelease p e) w)\<lparr>held_releases := held_releases w - 1\<rparr>)"
| step_run: "releases_run w < releases_spawned w \<Longrightarrow>
    process_step rl w ((deferred_release_shared_pointer w)\<lparr>releases_run := releases_run w + 1\<rparr>)"

text \<open>\<open>deferred_release\<close> is a count and a spawn.\<close>

lemma deferred_release_steps:
  assumes "deferred_release rl t e w = ret w'"
  shows "(process_step rl)\<^sup>*\<^sup>* w w'"
proof -
  obtain p where w': "w' = command rl (SpawnRelease p e) (IncPendingOp w)"
    using assms by (auto simp: deferred_release_def andThen_eq_ret)
  let ?w1 = "(IncPendingOp w)\<lparr>held_releases := held_releases w + 1\<rparr>"
  have "process_step rl w ?w1" by (rule step_count)
  moreover have "process_step rl ?w1 w'"
    using step_spawn[of ?w1 rl p e] by (simp add: w' command_def invoke_def IncPendingOp_def)
  ultimately show ?thesis by (meson converse_rtranclp_into_rtranclp r_into_rtranclp)
qed

definition process_ok :: "process \<Rightarrow> bool" where
  "process_ok w \<longleftrightarrow> releases_run w \<le> releases_spawned w \<and> pending_ops w = of_nat (outstanding w)"

lemma process_step_ok: "process_step rl w w' \<Longrightarrow> process_ok w \<Longrightarrow> process_ok w'"
proof (induction rule: process_step.induct)
  case (step_call c w)
  have "\<not> is_release (c, r)" for r using step_call by (cases c) auto
  then show ?case using step_call(2)
    by (simp add: process_ok_def outstanding_def releases_spawned_def command_def invoke_def)
next
  case (step_count w)
  then show ?case
    by (simp add: process_ok_def outstanding_def releases_spawned_def IncPendingOp_def Suc_diff_le add.commute)
next
  case (step_spawn w p e)
  then show ?case
    by (simp add: process_ok_def outstanding_def releases_spawned_def command_def invoke_def)
next
  case (step_run w)
  then have "outstanding w = Suc (held_releases w + releases_spawned w - Suc (releases_run w))"
    by (simp add: outstanding_def process_ok_def)
  with step_run show ?case
    by (simp add: process_ok_def outstanding_def releases_spawned_def deferred_release_shared_pointer_def DecPendingOp_def)
qed

definition new_process :: process where
  "new_process = \<lparr>trace_of = [], pending_ops = 0, held_releases = 0, releases_run = 0\<rparr>"

lemma process_reachable_ok:
  assumes "(process_step rl)\<^sup>*\<^sup>* new_process w" shows "process_ok w"
  using assms
proof (induction rule: rtranclp_induct)
  case base
  then show ?case by (simp add: process_ok_def new_process_def outstanding_def releases_spawned_def)
next
  case (step w w')
  then show ?case using process_step_ok by blast
qed

text \<open>
  \<open>WaitForPendingOps\<close> loads the counter again and again, \<open>ws\<close> being the states at its loads; \<open>None\<close> is a
  loop that does not end. \<open>Stop\<close> then waits until all processes agree, and shuts Realm down.
\<close>

definition WaitForPendingOps :: "(nat \<Rightarrow> process) \<Rightarrow> nat option" where
  "WaitForPendingOps ws = while_option (\<lambda>n. 0 < sint (pending_ops (ws n))) Suc 0"

definition Stop :: "realm \<Rightarrow> (nat \<Rightarrow> process) \<Rightarrow> event \<Rightarrow> process option" where
  "Stop rl ws last_local_event = (case WaitForPendingOps ws of
     None \<Rightarrow> None
   | Some n \<Rightarrow> (let (agree, w1) = invoke rl (CollectiveSpawn last_local_event) (ws n);
                    w2 = command rl (WaitEvent agree) w1
                in Some (command rl (ShutdownRealm agree) w2)))"

lemma while_loads: "while_option P Suc 0 = (if \<exists>k. \<not> P k then Some (LEAST k. \<not> P k) else None)"
proof -
  have "(Suc ^^ k) 0 = k" for k by (induction k) auto
  then show ?thesis by (simp add: while_option_def)
qed

lemma Stop_runs:
  assumes ok: "\<And>i. process_ok (ws i)" and small: "\<forall>i. outstanding (ws i) < 2 ^ 63"
  shows "Stop rl ws ev = None \<longleftrightarrow> (\<forall>i. 0 < outstanding (ws i))"
    and "Stop rl ws ev = Some w' \<Longrightarrow> \<exists>n agree r. outstanding (ws n) = 0 \<and> (\<forall>i < n. 0 < outstanding (ws i)) \<and>
       held_releases (ws n) = 0 \<and> releases_run (ws n) = releases_spawned (ws n) \<and>
       extends (trace_of w') (trace_of (ws n)) \<and> last (trace_of w') = (ShutdownRealm agree, r) \<and>
       depends (trace_of w') agree ev"
proof -
  have load: "0 < sint (pending_ops (ws i)) \<longleftrightarrow> 0 < outstanding (ws i)" for i
  proof -
    have "pending_ops (ws i) = word_of_int (int (outstanding (ws i)))" using ok[of i] by (simp add: process_ok_def)
    moreover have "int (outstanding (ws i)) < 2 ^ 63" using small by (simp add: of_nat_less_iff[symmetric, of _ "2 ^ 63"])
    ultimately have "sint (pending_ops (ws i)) = int (outstanding (ws i))"
      by (simp only: sint_of_int_small[unfolded int64_max_def])
    then show ?thesis by simp
  qed
  have wait: "WaitForPendingOps ws = (if \<exists>k. outstanding (ws k) = 0 then Some (LEAST k. outstanding (ws k) = 0) else None)"
    by (simp add: WaitForPendingOps_def while_loads load)
  show "Stop rl ws ev = None \<longleftrightarrow> (\<forall>i. 0 < outstanding (ws i))"
    by (auto simp: Stop_def wait split_beta)
  assume stop: "Stop rl ws ev = Some w'"
  show "\<exists>n agree r. outstanding (ws n) = 0 \<and> (\<forall>i < n. 0 < outstanding (ws i)) \<and>
       held_releases (ws n) = 0 \<and> releases_run (ws n) = releases_spawned (ws n) \<and>
       extends (trace_of w') (trace_of (ws n)) \<and> last (trace_of w') = (ShutdownRealm agree, r) \<and>
       depends (trace_of w') agree ev"
  proof -
    obtain n where n: "WaitForPendingOps ws = Some n" using stop by (auto simp: Stop_def split: option.splits)
    then have ex: "\<exists>k. outstanding (ws k) = 0" and "n = (LEAST k. outstanding (ws k) = 0)"
      using wait by (auto split: if_splits)
    then have zero: "outstanding (ws n) = 0" "\<forall>i < n. 0 < outstanding (ws i)"
      using LeastI_ex[OF ex] not_less_Least by auto
    have idle: "held_releases (ws n) = 0" "releases_run (ws n) = releases_spawned (ws n)"
      using zero(1) ok[of n] by (auto simp: outstanding_def process_ok_def)
    let ?agree = "fst (invoke rl (CollectiveSpawn ev) (ws n))"
    have w': "w' = command rl (ShutdownRealm ?agree)
        (command rl (WaitEvent ?agree) (snd (invoke rl (CollectiveSpawn ev) (ws n))))"
      using stop n by (simp add: Stop_def split_beta)
    have "depends (trace_of w') ?agree ev" by (intro depends_edge) (simp add: w' waits_Cons)
    moreover obtain r where "last (trace_of w') = (ShutdownRealm ?agree, r)" by (simp add: w' command_def invoke_def)
    moreover have "extends (trace_of w') (trace_of (ws n))" by (simp add: w')
    ultimately show ?thesis using zero idle by blast
  qed
qed

text \<open>The states at the loads, from any good state on.\<close>

lemma loads_ok:
  assumes "process_ok w" and "(process_step rl)\<^sup>*\<^sup>* w (ws 0)" and "\<forall>i. (process_step rl)\<^sup>*\<^sup>* (ws i) (ws (Suc i))"
  shows "process_ok (ws i)"
proof -
  have step: "process_ok w2" if "(process_step rl)\<^sup>*\<^sup>* w1 w2" "process_ok w1" for w1 w2
    using that by (induction rule: rtranclp_induct) (auto dest: process_step_ok)
  show ?thesis using assms step by (induction i) blast+
qed

lemma process_step_extends: "process_step rl w w' \<Longrightarrow> extends (trace_of w') (trace_of w)"
  by (induction rule: process_step.induct)
    (simp_all add: command_def invoke_def IncPendingOp_def deferred_release_shared_pointer_def DecPendingOp_def)

lemma loads_extend:
  assumes "(process_step rl)\<^sup>*\<^sup>* w (ws 0)" and "\<forall>i. (process_step rl)\<^sup>*\<^sup>* (ws i) (ws (Suc i))"
  shows "extends (trace_of (ws i)) (trace_of w)"
proof -
  have step: "extends (trace_of w2) (trace_of w1)" if "(process_step rl)\<^sup>*\<^sup>* w1 w2" for w1 w2
    using that by (induction rule: rtranclp_induct) (auto dest: process_step_extends intro: extends_trans)
  show ?thesis using assms step by (induction i) (blast intro: extends_trans)+
qed

text \<open>
  C32. Stopping a process: however its threads interleave while it waits, as long as fewer than 2 to the 63
  releases are outstanding, \<open>Stop\<close> returns exactly when some load finds none outstanding; then every
  release that was counted by then has been spawned and has run, and Realm is shut down after an event all
  processes agree on, which comes after the process's last event.
\<close>

theorem stop_after_releases:
  assumes "(process_step rl)\<^sup>*\<^sup>* new_process (ws 0)" and "\<forall>i. (process_step rl)\<^sup>*\<^sup>* (ws i) (ws (Suc i))"
    and "\<forall>i. outstanding (ws i) < 2 ^ 63"
  shows "(Stop rl ws ev = None \<longleftrightarrow> (\<forall>i. 0 < outstanding (ws i))) \<and>
    (\<forall>w'. Stop rl ws ev = Some w' \<longrightarrow> (\<exists>n agree r. outstanding (ws n) = 0 \<and> (\<forall>i < n. 0 < outstanding (ws i)) \<and>
       held_releases (ws n) = 0 \<and> releases_run (ws n) = releases_spawned (ws n) \<and>
       extends (trace_of w') (trace_of (ws n)) \<and> last (trace_of w') = (ShutdownRealm agree, r) \<and>
       depends (trace_of w') agree ev))"
proof -
  note ok = loads_ok[OF process_reachable_ok[OF rtranclp.rtrancl_refl] assms(1,2)]
  show ?thesis using Stop_runs[OF ok assms(3)] by blast
qed

text \<open>A release that runs between the first load and the second.\<close>

definition example_process :: "nat \<Rightarrow> process" where
  "example_process i =
     (if i = 0 then \<lparr>trace_of = [(SpawnRelease 7 50, 1)], pending_ops = 1, held_releases = 0, releases_run = 0\<rparr>
      else \<lparr>trace_of = [(SpawnRelease 7 50, 1)], pending_ops = 0, held_releases = 0, releases_run = 1\<rparr>)"

theorem stop_after_releases_witness:
  "\<exists>w'. Stop fresh_realm example_process 60 = Some w' \<and> outstanding (example_process 1) = 0 \<and>
     0 < outstanding (example_process 0) \<and> (\<exists>agree r. last (trace_of w') = (ShutdownRealm agree, r) \<and>
     depends (trace_of w') agree 60)"
proof -
  let ?h = "\<lparr>trace_of = [], pending_ops = 1, held_releases = 1, releases_run = 0\<rparr> :: process"
  have "process_step fresh_realm new_process ?h"
    using step_count[of fresh_realm new_process] by (simp add: new_process_def IncPendingOp_def)
  moreover have "process_step fresh_realm ?h (example_process 0)"
    using step_spawn[of ?h fresh_realm 7 50] by (simp add: example_process_def command_def invoke_def fresh_realm_def)
  ultimately have 1: "(process_step fresh_realm)\<^sup>*\<^sup>* new_process (example_process 0)" by simp
  have step: "process_step fresh_realm (example_process 0) (example_process 1)"
    using step_run[of "example_process 0" fresh_realm]
    by (simp add: example_process_def releases_spawned_def deferred_release_shared_pointer_def DecPendingOp_def)
  have 2: "\<forall>i. (process_step fresh_realm)\<^sup>*\<^sup>* (example_process i) (example_process (Suc i))"
  proof
    fix i show "(process_step fresh_realm)\<^sup>*\<^sup>* (example_process i) (example_process (Suc i))"
      using step by (cases i) (auto simp: example_process_def)
  qed
  have 3: "\<forall>i. outstanding (example_process i) < 2 ^ 63"
    by (simp add: example_process_def outstanding_def releases_spawned_def)
  have o: "outstanding (example_process 1) = 0" "0 < outstanding (example_process 0)"
    by (simp_all add: example_process_def outstanding_def releases_spawned_def)
  then show ?thesis using stop_after_releases[OF 1 2 3, of 60] by (metis not_Some_eq less_numeral_extra(3))
qed

end
