(* ===== verification/Profiling.thy ===== *)
theory Profiling
  imports Tasks Start_Up
begin

text \<open>
  Profiling: \<open>src/zuku/profile.h\<close> and \<open>profile.cc\<close>, and the task of \<open>src/zuku/task.cc\<close> that ends a range. The
  NVTX library is not part of the repository: whether the build has it and what its calls answer is a
  parameter, and the calls that were made are a log.
\<close>

unbundle bit_operations_syntax

section \<open>Ranges and marks\<close>

datatype nvtx_call =
    DomainCreateA string
  | DomainDestroy nat
  | DomainMarkEx nat "32 word" string
  | DomainRangeStartEx nat "32 word" string "64 word"
  | DomainRangeEnd nat "64 word"

text \<open>\<open>string_hash\<close> is \<open>std::hash\<close>; a range is started with the name, its colour and the id NVTX answers.\<close>

record nvtx_api =
  has_nvtx :: bool
  string_hash :: "string \<Rightarrow> 64 word"
  nvtx_domain :: "nvtx_call list \<Rightarrow> nat"
  nvtx_range :: "nvtx_call list \<Rightarrow> 64 word"

record profile_state =
  profiling_active :: bool
  domain_handle :: nat
  nvtx_log :: "nvtx_call list"

definition nvtx :: "nvtx_call \<Rightarrow> profile_state \<Rightarrow> profile_state" where
  "nvtx c s = s\<lparr>nvtx_log := nvtx_log s @ [c]\<rparr>"

record nvtx_attributes =
  attr_color :: "32 word"
  attr_message :: "string option"

definition AttrTemplate :: nvtx_attributes where
  "AttrTemplate = \<lparr>attr_color = 0xFFFF0000, attr_message = None\<rparr>"

definition named_attributes :: "nvtx_api \<Rightarrow> string \<Rightarrow> nvtx_attributes" where
  "named_attributes nv name =
     (let color_hash = string_hash nv name mod 0xFFFFFF
      in AttrTemplate\<lparr>attr_message := Some name, attr_color := ucast (0xFF000000 OR color_hash :: 64 word)\<rparr>)"

definition MarkProfile :: "nvtx_api \<Rightarrow> string \<Rightarrow> profile_state \<Rightarrow> profile_state" where
  "MarkProfile nv name s =
     (if \<not> profiling_active s \<or> \<not> has_nvtx nv then s
      else nvtx (DomainMarkEx (domain_handle s) (attr_color (named_attributes nv name)) name) s)"

definition StartProfileRegion :: "nvtx_api \<Rightarrow> string \<Rightarrow> profile_state \<Rightarrow> 64 word \<times> profile_state" where
  "StartProfileRegion nv name s =
     (if \<not> profiling_active s then (- 1, s)
      else if \<not> has_nvtx nv then (0, s)
      else let i = nvtx_range nv (nvtx_log s)
           in (i, nvtx (DomainRangeStartEx (domain_handle s) (attr_color (named_attributes nv name)) name i) s))"

definition StopProfileRegion :: "nvtx_api \<Rightarrow> 64 word \<Rightarrow> profile_state \<Rightarrow> profile_state" where
  "StopProfileRegion nv i s =
     (if \<not> profiling_active s \<or> \<not> has_nvtx nv then s else nvtx (DomainRangeEnd (domain_handle s) i) s)"

definition deferred_task_profile_stop :: "nvtx_api \<Rightarrow> 64 word \<Rightarrow> profile_state \<Rightarrow> profile_state" where
  "deferred_task_profile_stop nv i s = StopProfileRegion nv i s"

definition SetupProfiling :: "nvtx_api \<Rightarrow> profile_state \<Rightarrow> profile_state" where
  "SetupProfiling nv s =
     (let s1 = s\<lparr>profiling_active := True\<rparr>
      in if has_nvtx nv
         then (nvtx (DomainCreateA ''zuku'') s1)\<lparr>domain_handle := nvtx_domain nv (nvtx_log s1)\<rparr>
         else s1)"

definition ShutdownProfiling :: "profile_state \<Rightarrow> profile_state" where
  "ShutdownProfiling s = s"

definition TearDownProfiling :: "nvtx_api \<Rightarrow> profile_state \<Rightarrow> profile_state" where
  "TearDownProfiling nv s = (if has_nvtx nv then nvtx (DomainDestroy (domain_handle s)) s else s)"

definition Init_profiling :: "nvtx_api \<Rightarrow> realm_config \<Rightarrow> profile_state \<Rightarrow> profile_state" where
  \<comment> \<open>what \<open>Init\<close> does to the profile\<close>
  "Init_profiling nv cfg s =
     MarkProfile nv ''start zuku clock'' (if cfg_profile cfg then SetupProfiling nv s else s)"

text \<open>Every colour is opaque: the top byte is set whatever the name hashes to.\<close>

lemma profile_color_opaque: "attr_color (named_attributes nv name) AND 0xFF000000 = 0xFF000000"
proof -
  have "(ucast (0xFF000000 OR h :: 64 word) :: 32 word) = 0xFF000000 OR ucast h" for h :: "64 word"
    by (simp add: unsigned_or_eq)
  then show ?thesis by (simp add: named_attributes_def AttrTemplate_def Let_def and.commute and.left_commute bit.conj_disj_distrib2)
qed

section \<open>Regions around events\<close>

text \<open>
  A region that lasts from one event to another is two tasks: the first starts the range, the second is
  given its id as a future and ends it. \<open>cell\<close> is where the first leaves the id. The process must not
  stop in between, so the region is counted.
\<close>

definition no_variables :: "unit frame" where
  "no_variables = \<lparr>fr_stores = [], fr_views = [], fr_futures = [], fr_barriers = []\<rparr>"

definition MarkProfile_after ::
  "realm \<Rightarrow> proc_tables \<Rightarrow> nvtx_api \<Rightarrow> event \<Rightarrow> profile_state \<Rightarrow> 'z runtime_scheme \<Rightarrow>
   (unit task option \<times> 'z runtime_scheme) res" where
  "MarkProfile_after rl t nv ev s w =
     (if \<not> profiling_active s \<or> \<not> has_nvtx nv then ret (None, w)
      else andThen (Util_proc t) (\<lambda>u.
           andThen (Context_defer rl t (ctx_after ev (ctx_on u [])) [] [] no_variables w)
             (\<lambda>(tok, task, fr, w'). ret (task, w'))))"

definition ProfileRegion ::
  "realm \<Rightarrow> proc_tables \<Rightarrow> nvtx_api \<Rightarrow> nat \<Rightarrow> event \<Rightarrow> event \<Rightarrow> profile_state \<Rightarrow> 'z runtime_scheme \<Rightarrow>
   ((unit task option \<times> unit task option) option \<times> 'z runtime_scheme) res" where
  "ProfileRegion rl t nv cell start_ev stop_ev s w =
     (if \<not> profiling_active s \<or> \<not> has_nvtx nv then ret (None, w)
      else
        let w1 = IncPendingOp w in
        andThen (Util_proc t) (\<lambda>u.
        andThen (Context_defer rl t (ctx_on u (ctx_after start_ev [])) [ReturnsValue]
                   [(False, Plain), (False, Plain)] no_variables w1) (\<lambda>(tok1, task1, fr1, w2).
        let profile_id = Future_of_optional (token_futures tok1 ! 0) (Some cell) in
        andThen (Util_proc t) (\<lambda>u.
        andThen (Context_defer rl t (ctx_on u (ctx_after stop_ev [])) [] [(False, GiveFuture 0 False)]
                   (no_variables\<lparr>fr_futures := [profile_id]\<rparr>) w2) (\<lambda>(tok2, task2, fr2, w3).
        ret (Some (task1, task2), w3))))))"

definition region_start :: "nvtx_api \<Rightarrow> string \<Rightarrow> profile_state \<Rightarrow> 64 word \<times> profile_state" where
  \<comment> \<open>the function of the first task\<close>
  "region_start nv name s = StartProfileRegion nv name s"

definition region_stop ::
  "nvtx_api \<Rightarrow> 64 word \<Rightarrow> profile_state \<Rightarrow> 'z runtime_scheme \<Rightarrow> profile_state \<times> 'z runtime_scheme" where
  \<comment> \<open>the function of the second\<close>
  "region_stop nv i s w = (StopProfileRegion nv i s, DecPendingOp w)"

lemma launch_ok_on_after: "launch_ok (ctx_on u (ctx_after e [])) args \<longleftrightarrow> list_all (\<lambda>(b, a). ordered_access a) args"
  by (simp add: launch_ok_def ctx_on_def ctx_after_def context_add_def)

lemma defer_after_event:
  assumes "Context_defer rl t ctx rets args fr w = ret (tok, Some task, fr', w')" and "launch_ok ctx args"
    and "context_value as_event ctx = Some e"
  shows "depends (trace_of w') (completion_event task) e"
proof -
  have "defer_task rl t ctx rets args fr w = ret (tok, Some task, fr', w')"
    using assms(1,2) by (simp add: Context_defer_def launch_ok_def)
  from deps.defer_task_after[OF this assms(2)] show ?thesis using assms(3) by blast
qed

lemma defer_extends:
  fixes w w' :: "'z runtime_scheme"
  assumes "Context_defer rl t ctx rets args fr w = ret (tok, Some task, fr', w')" and "launch_ok ctx args"
  shows "extends (trace_of w') (trace_of w)"
proof -
  have "defer_task rl t ctx rets args fr w = ret (tok, Some task, fr', w')"
    using assms(1,2) by (simp add: Context_defer_def launch_ok_def)
  from deps.defer_task_after[OF this assms(2)] obtain w1 w2 :: "'z runtime_scheme" and ss fr1 where
    w1: "extends (trace_of w1) (trace_of w)" and w2: "extends (trace_of w') (trace_of w2)" and
    s: "StoreArgsAndSetPostcondition rl (completion_event task) (completion_event task) args fr w1 = ret (ss, fr1, w2)"
    by blast
  have "deps.ordered_args args" using assms(2) by (simp add: launch_ok_def deps.ordered_args_def)
  then have "extends (trace_of w2) (trace_of w1)" using deps.StoreArgs_cover[OF s] by blast
  then show ?thesis using w1 w2 extends_trans by blast
qed

text \<open>A launch leaves the count of pending operations alone.\<close>

lemma pending_calls [simp]:
  "pending_ops (snd (invoke rl c w)) = pending_ops w" "pending_ops (command rl c w) = pending_ops w"
  by (simp_all add: invoke_def command_def)

lemma merge_pending:
  "merge2 rl a b w = (e, w') \<Longrightarrow> pending_ops w' = pending_ops w"
  "merge_set rl es w = (e, w') \<Longrightarrow> pending_ops w' = pending_ops w"
  "store_Precondition rl st w = (e, w') \<Longrightarrow> pending_ops w' = pending_ops w"
  by (auto simp: merge2_def merge_set_def store_Precondition_def invoke_def split: option.splits)

lemma store_pending:
  "store_child_on rl s e st w = (c, st', w') \<Longrightarrow> pending_ops w' = pending_ops w"
  "store_view_on rl s e st w = (v, st', w') \<Longrightarrow> pending_ops w' = pending_ops w"
  "store_child rl st w = (c, st', w') \<Longrightarrow> pending_ops w' = pending_ops w"
  "store_view rl st w = (v, st', w') \<Longrightarrow> pending_ops w' = pending_ops w"
  "view_view rl v w = (sub, v', w') \<Longrightarrow> pending_ops w' = pending_ops w"
  "Future_view_on rl e f w = (fv, f', w') \<Longrightarrow> pending_ops w' = pending_ops w"
  by (auto simp: store_child_on_def store_view_on_def store_child_def store_view_def view_view_def Future_view_on_def
      Future_view_after_def store_ReadyAfter2_def store_ReadyAfter_def add_reader_def merge2_def invoke_def Let_def
      split: option.splits prod.splits)

lemma ToTaskArgument_pending:
  assumes "ToTaskArgument rl s e a fr w = ret (sa, fr', w')" shows "pending_ops w' = pending_ops w"
  using assms
  by (cases a) (auto simp: ToTaskArgument_def andThen_eq_ret Let_def vec_at_eq_ret split: prod.splits dest: store_pending)

lemma StoreArgs_pending:
  "StoreArgsAndSetPostcondition rl s e args fr w = ret (ss, fr', w') \<Longrightarrow> pending_ops w' = pending_ops w"
proof (induction args arbitrary: fr w ss)
  case (Cons x args)
  obtain b a where x: "x = (b, a)" by (cases x)
  obtain s1 fr1 w1 ss1 where "ToTaskArgument rl s e a fr w = ret (s1, fr1, w1)"
    "StoreArgsAndSetPostcondition rl s e args fr1 w1 = ret (ss1, fr', w')"
    using Cons.prems x by (auto simp: andThen_eq_ret)
  then show ?case using ToTaskArgument_pending Cons.IH by metis
qed simp

lemma AddDeferredPrecondition_pending:
  "AddDeferredPrecondition rl so a b w = (b', w') \<Longrightarrow> pending_ops w' = pending_ops w"
  by (cases a) (auto simp: AddDeferredPrecondition_def store_Precondition_def store_StreamPrecondition_def merge2_def Let_def invoke_def
      split: if_splits option.splits prod.splits)

lemma AddTaskDependencies_pending:
  "AddTaskDependencies rl so ss b w = (b', w') \<Longrightarrow> pending_ops w' = pending_ops w"
proof (induction ss arbitrary: b w)
  case (Cons x ss)
  obtain i a where x: "x = (i, a)" by (cases x)
  obtain b1 w1 where "AddDeferredPrecondition rl so a b w = (b1, w1)" "AddTaskDependencies rl so ss b1 w1 = (b', w')"
    using Cons.prems x by (auto split: prod.splits)
  then show ?case using AddDeferredPrecondition_pending Cons.IH by metis
qed simp

lemma make_promises_pending: "make_promises rl rets w = (ps, w') \<Longrightarrow> pending_ops w' = pending_ops w"
proof (induction rets arbitrary: w ps)
  case (Cons r rets)
  then show ?case by (cases r) (auto split: prod.splits simp: invoke_def)
qed simp

lemma Postconditions_pending:
  "AddRealmEventPostconditions rl ss es w = (es', w') \<Longrightarrow> pending_ops w' = pending_ops w"
proof (induction ss arbitrary: es w)
  case (Cons x ss)
  obtain i a where x: "x = (i, a)" by (cases x)
  show ?case
  proof (cases a)
    case (StoredStore st)
    obtain e w1 where e: "store_Precondition rl st w = (e, w1)" by fastforce
    then show ?thesis using Cons x StoredStore merge_pending(3)[OF e] by (auto split: if_splits)
  qed (use Cons x in auto)
qed simp

lemma all_effects_pending: "all_effects rl rets args task rs w = (e, w') \<Longrightarrow> pending_ops w' = pending_ops w"
  by (auto simp: all_effects_def Let_def split: if_splits prod.splits dest!: Postconditions_pending merge_pending(2))

lemma Task_construct_pending:
  assumes "Task_construct rl ctx ev rets args fr w = ret (task, fr', w')"
  shows "pending_ops w' = pending_ops w"
proof -
  obtain ps w1 where ps: "make_promises rl rets w = (ps, w1)" by fastforce
  obtain stream ss w2 where s: "StoreArgsAndSetPostcondition rl stream ev args fr w1 = ret (ss, fr', w2)"
    and m': "\<exists>b'. MergePreconditions rl (fst (AddTaskDependencies rl (context_value as_stream_ordered ctx \<noteq> None) ss new_task_base w2))
       (snd (AddTaskDependencies rl (context_value as_stream_ordered ctx \<noteq> None) ss new_task_base w2)) = ret (b', w')"
    using assms ps by (auto simp: Task_construct_def andThen_eq_ret case_prod_unfold Let_def)
  obtain b w3 where a: "AddTaskDependencies rl (context_value as_stream_ordered ctx \<noteq> None) ss new_task_base w2 = (b, w3)"
    by fastforce
  have "pending_ops w' = pending_ops w3" using m' a
    by (auto simp: MergePreconditions_def Let_def split: if_splits prod.splits dest!: merge_pending(2))
  then show ?thesis
    using make_promises_pending[OF ps] StoreArgs_pending[OF s] AddTaskDependencies_pending[OF a] by simp
qed

lemma launch_finish_pending:
  assumes "launch_finish rl t ctx rets args p wait task fr w = ret (tok, task', fr', w')"
  shows "pending_ops w' = pending_ops w"
proof -
  obtain pre w1 where pre: "launch_precondition rl ctx task w = (pre, w1)" by fastforce
  have 1: "pending_ops w1 = pending_ops w"
    using pre by (auto simp: launch_precondition_def split: option.splits dest!: merge_pending(1))
  let ?rs = "make_futures (task_promises task) (completion_event task)"
  obtain w2 where w2: "(if pr_type p = GPU
      then andThen (Util_proc t) (\<lambda>u. ret (command rl (SpawnDelete (pr_proc u) (completion_event task)) w1))
      else ret w1) = ret w2"
    and "(let (all_done, w3) = all_effects rl rets args task ?rs w2; w4 = command rl (TriggerEvent wait pre) w3
      in andThen (sync_barrier ctx all_done fr) (\<lambda>fr'.
        ret (\<lparr>token_event = all_done, token_futures = ?rs, token_control = context_value as_control ctx\<rparr>,
             Some task, fr', w4))) = ret (tok, task', fr', w')"
    using assms by (auto simp: launch_finish_def pre andThen_eq_ret Let_def)
  then have rest: "w' = command rl (TriggerEvent wait pre) (snd (all_effects rl rets args task ?rs w2))"
    by (auto simp: andThen_eq_ret Let_def case_prod_unfold)
  from w2 have 2: "pending_ops w2 = pending_ops w1" by (auto simp: andThen_eq_ret split: if_splits)
  obtain e w3 where e: "all_effects rl rets args task ?rs w2 = (e, w3)" by fastforce
  show ?thesis using rest e all_effects_pending[OF e] 1 2 by simp
qed

lemma defer_pending:
  assumes "Context_defer rl t ctx rets args fr w = ret (tok, Some task, fr', w')"
  shows "pending_ops w' = pending_ops w"
proof -
  have "defer_task rl t ctx rets args fr w = ret (tok, Some task, fr', w')"
    using assms by (auto simp: Context_defer_def andThen_eq_ret Let_def split: option.splits prod.splits)
  then obtain p where p: "launch_on rl t ctx rets args p fr w = ret (tok, Some task, fr', w')"
    by (auto simp: defer_task_def andThen_eq_ret split: if_splits)
  obtain wait w1 where wait: "invoke rl CreateUserEvent w = (wait, w1)" by fastforce
  obtain n where n: "n = (case context_value as_priority ctx of Some n \<Rightarrow> n | None \<Rightarrow> 0)" by blast
  obtain ev w2 where ev: "invoke rl (SpawnTask (pr_proc p) wait n) w1 = (ev, w2)" by fastforce
  obtain task1 fr1 w3 where c: "Task_construct rl ctx ev rets args fr w2 = ret (task1, fr1, w3)"
    and f: "launch_finish rl t ctx rets args p wait task1 fr1 w3 = ret (tok, Some task, fr', w')"
    using p ev[unfolded n] by (auto simp: launch_on_def wait andThen_eq_ret Let_def)
  have "pending_ops w2 = pending_ops w" using wait ev by (auto simp: invoke_def)
  then show ?thesis using Task_construct_pending[OF c] launch_finish_pending[OF f] by simp
qed

section \<open>Regions end\<close>

text \<open>
  C34. A profile region: it is counted as a pending operation until its second task ran, the first task waits
  for the region's start, the second for its stop and for the first. Run in that order the two end exactly
  the range that was started, with the region's name, and the count is what it was.
\<close>

theorem profile_region_ends:
  assumes "ProfileRegion rl t nv cell start_ev stop_ev s w = ret (Some (Some task1, Some task2), w')"
    and "profiling_active s1" and "region_start nv name s1 = (i, s2)" and "region_stop nv i s2 w' = (s3, w3)"
  shows "pending_ops w' = pending_ops w + 1 \<and> pending_ops w3 = pending_ops w \<and>
    depends (trace_of w') (completion_event task1) start_ev \<and>
    depends (trace_of w') (completion_event task2) stop_ev \<and>
    depends (trace_of w') (completion_event task2) (completion_event task1) \<and>
    (\<exists>color. nvtx_log s3 = nvtx_log s1 @
       [DomainRangeStartEx (domain_handle s1) color name i, DomainRangeEnd (domain_handle s1) i])"
proof -
  have on: "profiling_active s" "has_nvtx nv" using assms(1) by (auto simp: ProfileRegion_def split: if_splits)
  let ?fr = "\<lambda>tok. no_variables\<lparr>fr_futures := [Future_of_optional (token_futures tok ! 0) (Some cell)]\<rparr>"
  obtain u tok1 fr1 w1 tok2 fr2 where
    one: "Context_defer rl t (ctx_on u (ctx_after start_ev [])) [ReturnsValue] [(False, Plain), (False, Plain)]
        no_variables (IncPendingOp w) = ret (tok1, Some task1, fr1, w1)"
    and two: "Context_defer rl t (ctx_on u (ctx_after stop_ev [])) [] [(False, GiveFuture 0 False)] (?fr tok1) w1 =
        ret (tok2, Some task2, fr2, w')"
    using assms(1) on by (auto simp: ProfileRegion_def andThen_eq_ret Let_def)
  have ev: "context_value as_event (ctx_on u (ctx_after e [])) = Some e" for u e
    by (simp add: ctx_on_def ctx_after_def context_add_def)
  have ok: "launch_ok (ctx_on u (ctx_after start_ev [])) [(False, Plain), (False, Plain)]"
    "launch_ok (ctx_on u (ctx_after stop_ev [])) [(False, GiveFuture 0 False)]"
    by (simp_all add: launch_ok_on_after ordered_access_def)
  have pre: "fut_pre (fr_futures (?fr tok1) ! 0) = Some (token_futures tok1 ! 0)"
    by (simp add: Future_of_optional_def)
  have "depends (trace_of w') (completion_event task2) (completion_event task1)"
    by (rule result_chain[OF one _ _ pre two ok(2), where a = "GiveFuture 0 False" and whole = False and in_vector = False])
      (simp_all add: Future_of_optional_def)
  moreover have "depends (trace_of w1) (completion_event task1) start_ev" by (rule defer_after_event[OF one ok(1) ev])
  then have "depends (trace_of w') (completion_event task1) start_ev"
    by (rule depends_extends[OF defer_extends[OF two ok(2)]])
  moreover have "depends (trace_of w') (completion_event task2) stop_ev" by (rule defer_after_event[OF two ok(2) ev])
  moreover have "pending_ops w' = pending_ops w + 1"
    using defer_pending[OF one] defer_pending[OF two] by (simp add: IncPendingOp_def)
  moreover have "\<exists>color. nvtx_log s3 = nvtx_log s1 @
       [DomainRangeStartEx (domain_handle s1) color name i, DomainRangeEnd (domain_handle s1) i]"
    using assms(2-4) on(2)
    by (auto simp: region_start_def region_stop_def StartProfileRegion_def StopProfileRegion_def nvtx_def Let_def)
  ultimately show ?thesis using assms(4) by (auto simp: region_stop_def DecPendingOp_def)
qed

definition example_nvtx :: nvtx_api where
  "example_nvtx = \<lparr>has_nvtx = True, string_hash = (\<lambda>s. of_nat (length s)), nvtx_domain = (\<lambda>log. 1),
     nvtx_range = (\<lambda>log. of_nat (length log))\<rparr>"

definition no_profile :: profile_state where
  "no_profile = \<lparr>profiling_active = False, domain_handle = 0, nvtx_log = []\<rparr>"

theorem profile_region_ends_witness:
  "\<exists>task1 task2 w'. ProfileRegion fresh_realm util_tables example_nvtx 0 50 60 (SetupProfiling example_nvtx no_profile) start =
      ret (Some (Some task1, Some task2), w') \<and> pending_ops w' = 1 \<and>
     depends (trace_of w') (completion_event task2) (completion_event task1) \<and>
     depends (trace_of w') (completion_event task2) 60"
proof -
  let ?s = "SetupProfiling example_nvtx no_profile"
  have on: "profiling_active ?s" "has_nvtx example_nvtx"
    by (simp_all add: SetupProfiling_def example_nvtx_def nvtx_def)
  obtain task1 task2 w' where run: "ProfileRegion fresh_realm util_tables example_nvtx 0 50 60 ?s start =
      ret (Some (Some task1, Some task2), w')"
    using on by (simp add: ProfileRegion_def ctx_on_def ctx_after_def no_variables_def Future_of_optional_def
        Future_move_def Future_HasPrecondition_def Future_Precondition_def set_future_def launch_defs Let_def IncPendingOp_def)
  obtain i s2 where start: "region_start example_nvtx ''f'' ?s = (i, s2)" by fastforce
  obtain s3 w3 where stop: "region_stop example_nvtx i s2 w' = (s3, w3)" by fastforce
  show ?thesis using profile_region_ends[OF run on(1) start stop] run by (simp add: start_def)
qed

end
