(* ===== verification/Task_Run.thy ===== *)
theory Task_Run
  imports Futures Profiling
begin

text \<open>
  Running a task: \<open>src/zuku/resolve_dependency.h\<close>, \<open>src/zuku/stream.h\<close> and \<open>stream.cc\<close>, \<open>Invoke\<close>, \<open>dispatch\<close>
  and \<open>dispatch_void\<close> of \<open>src/zuku/task.h\<close>, and the launcher and deleter of \<open>src/zuku/task.cc\<close>. The
  function a task runs is the user's, a parameter of the model.
\<close>

section \<open>Streams\<close>

text \<open>
  A task that is ordered by a stream tells when its work is done by recording on the \<open>Stream\<close> it is
  given. The CUDA driver is loaded at run time: what the build and the driver answer is a parameter, and
  the calls that were made are a log.
\<close>

record cuda_driver =
  has_cuda :: bool
  driver_loads :: bool
  driver_symbols :: bool
  event_created :: bool
  event_recorded :: bool
  stream_waits :: bool

datatype cuda_call = CtxsyncRequired bool | CuEventCreate | CuEventRecord | CuStreamWaitEvent

datatype stream_kind = CpuStream | GpuStream

record task_stream =
  stream_kind_of :: stream_kind
  synced :: bool

definition new_stream :: "stream_kind \<Rightarrow> task_stream" where
  "new_stream k = \<lparr>stream_kind_of = k, synced = False\<rparr>"

definition GpuStream_DoRecord :: "cuda_driver \<Rightarrow> cuda_call list \<Rightarrow> cuda_call list res" where
  "GpuStream_DoRecord d calls =
     (if \<not> has_cuda d
      then fail (RuntimeError ''GpuStream::Record: cannot be called, not built with CUDA'')
      else
        andThen (require (driver_loads d) (RuntimeError ''failed to dlopen libcuda in Zuku'')) (\<lambda>_.
        andThen (require (driver_symbols d) (RuntimeError ''failed to dlopen some CUDA driver functions in Zuku''))
          (\<lambda>_.
        let calls1 = calls @ [CtxsyncRequired False, CuEventCreate] in
        andThen (require (event_created d) (RuntimeError ''failed to create CUevent in GpuStream::Record'')) (\<lambda>_.
        let calls2 = calls1 @ [CuEventRecord] in
        andThen (require (event_recorded d) (RuntimeError ''failed to record CUevent in GpuStream::Record'')) (\<lambda>_.
        let calls3 = calls2 @ [CuStreamWaitEvent] in
        andThen (require (stream_waits d) (RuntimeError ''failed cuStreamWaitEvent in GpuStream::Record'')) (\<lambda>_.
        ret calls3))))))"

definition DoRecord :: "cuda_driver \<Rightarrow> stream_kind \<Rightarrow> cuda_call list \<Rightarrow> cuda_call list res" where
  "DoRecord d k calls = (case k of CpuStream \<Rightarrow> ret calls | GpuStream \<Rightarrow> GpuStream_DoRecord d calls)"

definition Stream_Record ::
  "cuda_driver \<Rightarrow> task_stream \<Rightarrow> cuda_call list \<Rightarrow> (task_stream \<times> cuda_call list) res" where
  "Stream_Record d s calls =
     andThen (DoRecord d (stream_kind_of s) calls) (\<lambda>calls'. ret (s\<lparr>synced := True\<rparr>, calls'))"

definition HasOrderingEvent :: "task_stream \<Rightarrow> bool" where
  "HasOrderingEvent s = synced s"

section \<open>Resolving arguments\<close>

text \<open>
  What a task keeps of an argument, and what its function takes it as. The value of a store is shared:
  stores and views hold addresses of cells. A reference parameter is the address it refers to.
\<close>

record 'v task_memory = "'v memory" +
  value_cells :: "nat \<Rightarrow> 'v"
  cuda_calls :: "cuda_call list"
  profile_of :: profile_state

datatype 'v argument =
    ArgStore "nat store" | ArgView "nat view" | ArgFutureView future_view | ArgFuture future
  | ArgStores "nat store list" | ArgViews "nat view list" | ArgFutures "future list" | ArgValue 'v

text \<open>\<open>ToSame\<close> is the type the argument is kept as, a \<open>Store\<close>, \<open>View\<close>, \<open>Future\<close> or vector of them.\<close>

datatype target = ToRef | ToConstRef | ToPlain | ToSame | ToRwVector | ToRoVector | ToVector

datatype 'v parameter =
    RefTo nat | ConstRefTo nat | ConstOptionalRef nat | ByValue 'v
  | GotStore "nat store" | GotView "nat view" | GotFutureView future_view | GotFuture future
  | GotStores "nat store list" | GotViews "nat view list" | GotFutures "future list"
  | Refs "nat list" | ConstRefs "nat list" | Values "'v list"

text \<open>\<open>None\<close> is a call that does not return, or one that does not compile.\<close>

definition run_then :: "'a res option \<Rightarrow> ('a \<Rightarrow> 'b res option) \<Rightarrow> 'b res option" where
  "run_then r f = (case r of None \<Rightarrow> None | Some (Inl e) \<Rightarrow> Some (Inl e) | Some (Inr x) \<Rightarrow> f x)"

lemma run_then_simps [simp]:
  "run_then (Some (Inr x)) f = f x" "run_then (Some (Inl e)) f = Some (Inl e)" "run_then None f = None"
  by (simp_all add: run_then_def)

lemma run_then_eq_ret: "run_then r f = Some (Inr y) \<longleftrightarrow> (\<exists>x. r = Some (Inr x) \<and> f x = Some (Inr y))"
  by (auto simp: run_then_def split: option.splits sum.splits)

fun take_values ::
  "('v \<Rightarrow> 'v) \<Rightarrow> future list \<Rightarrow> ('v, 'z) memory_scheme \<Rightarrow> ('v list \<times> ('v, 'z) memory_scheme) res option" where
  "take_values gone [] h = Some (ret ([], h))"
| "take_values gone (f # fs) h =
     run_then (Future_take_value gone h f) (\<lambda>(x, h1).
     run_then (take_values gone fs h1) (\<lambda>(xs, h2). Some (ret (x # xs, h2))))"

definition ResolveDependency ::
  "('v \<Rightarrow> 'v) \<Rightarrow> target \<Rightarrow> 'v argument \<Rightarrow> 'v task_memory \<Rightarrow>
   ('v parameter \<times> 'v argument \<times> 'v task_memory) res option" where
  \<comment> \<open>the parameter, and what is left of the argument\<close>
  "ResolveDependency gone t a h = (case a of
     ArgStore st \<Rightarrow> (case t of
         ToRef \<Rightarrow> Some (andThen (store_get st) (\<lambda>x. ret (RefTo x, a, h)))
       | ToConstRef \<Rightarrow> Some (andThen (store_get st) (\<lambda>x. ret (ConstRefTo x, a, h)))
       | ToSame \<Rightarrow> Some (ret (GotStore (fst (Store_move st)), ArgStore (snd (Store_move st)), h))
       | _ \<Rightarrow> None)
   | ArgView v \<Rightarrow> (case t of
         ToConstRef \<Rightarrow> Some (andThen (view_get v) (\<lambda>x. ret (ConstRefTo x, a, h)))
       | ToPlain \<Rightarrow> Some (andThen (view_get v) (\<lambda>x. ret (ByValue (value_cells h x), a, h)))
       | ToSame \<Rightarrow> Some (ret (GotView (fst (view_move v)), ArgView (snd (view_move v)), h))
       | _ \<Rightarrow> None)
   | ArgFutureView v \<Rightarrow> (case t of
         ToConstRef \<Rightarrow> Some (andThen (future_view_value h v) (\<lambda>x. case fv_value v of
           OptionalPtr (Some c) \<Rightarrow> ret (ConstOptionalRef c, a, h) | _ \<Rightarrow> fail BadAccess))
       | ToPlain \<Rightarrow> Some (andThen (future_view_value h v) (\<lambda>x. ret (ByValue x, a, h)))
       | ToSame \<Rightarrow> Some (ret (GotFutureView (fst (future_view_move v)), ArgFutureView (snd (future_view_move v)), h))
       | _ \<Rightarrow> None)
   | ArgFuture f \<Rightarrow> (case t of
         ToSame \<Rightarrow> Some (ret (GotFuture (fst (Future_move f)), ArgFuture (snd (Future_move f)), h))
       | ToPlain \<Rightarrow> run_then (Future_take_value gone h f) (\<lambda>(x, h'). Some (ret (ByValue x, a, h')))
       | ToConstRef \<Rightarrow> run_then (Future_take_value gone h f) (\<lambda>(x, h'). Some (ret (ByValue x, a, h')))
       | _ \<Rightarrow> None)
   | ArgStores sts \<Rightarrow> (case t of
         ToRwVector \<Rightarrow> Some (andThen (mapR store_get sts) (\<lambda>xs. ret (Refs xs, a, h)))
       | ToSame \<Rightarrow> Some (ret (GotStores sts, ArgStores [], h))
       | _ \<Rightarrow> None)
   | ArgViews vs \<Rightarrow> (case t of
         ToRoVector \<Rightarrow> Some (andThen (mapR view_get vs) (\<lambda>xs. ret (ConstRefs xs, a, h)))
       | ToSame \<Rightarrow> Some (ret (GotViews vs, ArgViews [], h))
       | _ \<Rightarrow> None)
   | ArgFutures fs \<Rightarrow> (case t of
         ToVector \<Rightarrow> run_then (take_values gone fs h) (\<lambda>(xs, h'). Some (ret (Values xs, a, h')))
       | ToSame \<Rightarrow> Some (ret (GotFutures fs, ArgFutures [], h))
       | _ \<Rightarrow> None)
   | ArgValue x \<Rightarrow> (case t of
         ToPlain \<Rightarrow> Some (ret (ByValue x, ArgValue (gone x), h))
       | ToConstRef \<Rightarrow> Some (ret (ByValue x, ArgValue (gone x), h))
       | ToSame \<Rightarrow> Some (ret (ByValue x, ArgValue (gone x), h))
       | _ \<Rightarrow> None))"

fun resolve_dependency_tuple ::
  "('v \<Rightarrow> 'v) \<Rightarrow> target list \<Rightarrow> 'v argument list \<Rightarrow> 'v task_memory \<Rightarrow>
   ('v parameter list \<times> 'v argument list \<times> 'v task_memory) res option" where
  \<comment> \<open>the targets after those the function takes besides the arguments; in the order of evaluation\<close>
  "resolve_dependency_tuple gone [] [] h = Some (ret ([], [], h))"
| "resolve_dependency_tuple gone (t # ts) (a # as) h =
     run_then (ResolveDependency gone t a h) (\<lambda>(p, a', h1).
     run_then (resolve_dependency_tuple gone ts as h1) (\<lambda>(ps, as', h2).
     Some (ret (p # ps, a' # as', h2))))"
| "resolve_dependency_tuple gone _ _ h = None"

section \<open>Running a task\<close>

text \<open>
  The function of a task gets a stream if the task is ordered by one and the parameters; it returns
  its results, with what it leaves of the stream and of the parameters it got by value, which are
  destroyed when the call ends.
\<close>

type_synonym 'v lambda = "task_stream option \<Rightarrow> 'v parameter list \<Rightarrow> 'v task_memory \<Rightarrow>
  ('v result list \<times> task_stream option \<times> 'v parameter list \<times> 'v task_memory) res"

type_synonym 'v deleter = "(nat \<Rightarrow> event \<Rightarrow> 'v task_memory \<Rightarrow> 'v task_memory res) option"

definition destroy_stores ::
  "realm \<Rightarrow> proc_tables \<Rightarrow> 'v deleter \<Rightarrow> nat store list \<Rightarrow> 'v task_memory \<Rightarrow> 'v task_memory res" where
  "destroy_stores rl t del sts h = foldR (\<lambda>h st. store_destroy rl t del st h) h sts"

definition destroy_views ::
  "realm \<Rightarrow> proc_tables \<Rightarrow> nat view list \<Rightarrow> 'v task_memory \<Rightarrow> 'v task_memory res" where
  "destroy_views rl t vs h = foldR (\<lambda>h v. view_destroy rl t v h) h vs"

definition destroy_parameter ::
  "realm \<Rightarrow> proc_tables \<Rightarrow> 'v deleter \<Rightarrow> 'v parameter \<Rightarrow> 'v task_memory \<Rightarrow> 'v task_memory res" where
  "destroy_parameter rl t del p h = (case p of
     GotStore st \<Rightarrow> store_destroy rl t del st h
   | GotView v \<Rightarrow> view_destroy rl t v h
   | GotFutureView v \<Rightarrow> view_destroy rl t (fv_events v) h
   | GotStores sts \<Rightarrow> destroy_stores rl t del sts h
   | GotViews vs \<Rightarrow> destroy_views rl t vs h
   | _ \<Rightarrow> ret h)"

definition destroy_argument ::
  "realm \<Rightarrow> proc_tables \<Rightarrow> 'v deleter \<Rightarrow> 'v argument \<Rightarrow> 'v task_memory \<Rightarrow> 'v task_memory res" where
  "destroy_argument rl t del a h = (case a of
     ArgStore st \<Rightarrow> store_destroy rl t del st h
   | ArgView v \<Rightarrow> view_destroy rl t v h
   | ArgFutureView v \<Rightarrow> view_destroy rl t (fv_events v) h
   | ArgStores sts \<Rightarrow> destroy_stores rl t del sts h
   | ArgViews vs \<Rightarrow> destroy_views rl t vs h
   | _ \<Rightarrow> ret h)"

record 'v task_object =
  tk_processor :: processor
  tk_context :: task_context
  tk_promises :: "promise list"
  tk_arguments :: "'v argument list"
  tk_targets :: "target list"
  tk_returns :: bool
  tk_precondition :: "event option"
  tk_completion :: event

definition task_dispatch ::
  "realm \<Rightarrow> proc_tables \<Rightarrow> ('v \<Rightarrow> 'v) \<Rightarrow> 'v deleter \<Rightarrow> 'v lambda \<Rightarrow> 'v task_object \<Rightarrow> 'v task_memory \<Rightarrow>
   ('v task_object \<times> 'v task_memory) res option" where
  "task_dispatch rl t gone del lambda task h =
     run_then (resolve_dependency_tuple gone (tk_targets task) (tk_arguments task) h) (\<lambda>(ps, args, h1). Some (
       andThen (lambda None ps h1) (\<lambda>(results, s, ps', h2).
       andThen (foldR (\<lambda>h p. destroy_parameter rl t del p h) h2 ps') (\<lambda>h3.
       andThen (FulfillPromises rl results (tk_promises task) h3) (\<lambda>(promises, h4).
       ret (task\<lparr>tk_arguments := args, tk_promises := promises\<rparr>, h4))))))"

definition stream_for :: "processor \<Rightarrow> task_stream" where
  "stream_for p = new_stream (if pr_type p = CPU then CpuStream else GpuStream)"

definition task_dispatch_void ::
  "realm \<Rightarrow> proc_tables \<Rightarrow> ('v \<Rightarrow> 'v) \<Rightarrow> 'v deleter \<Rightarrow> 'v lambda \<Rightarrow> 'v task_object \<Rightarrow> 'v task_memory \<Rightarrow>
   ('v task_object \<times> 'v task_memory) res option" where
  "task_dispatch_void rl t gone del lambda task h =
     (let stream = (if context_value as_stream_ordered (tk_context task) \<noteq> None
                    then Some (stream_for (tk_processor task)) else None)
      in run_then (resolve_dependency_tuple gone (tk_targets task) (tk_arguments task) h) (\<lambda>(ps, args, h1). Some (
           andThen (lambda stream ps h1) (\<lambda>(results, s, ps', h2).
           andThen (foldR (\<lambda>h p. destroy_parameter rl t del p h) h2 ps') (\<lambda>h3.
           andThen
             (if stream \<noteq> None
              then require (case s of Some st \<Rightarrow> HasOrderingEvent st | None \<Rightarrow> False) (RuntimeError
                (''stream-ordered task did not log completion event on provided '' @ ''zuku::Stream''))
              else ret ()) (\<lambda>_.
           ret (task\<lparr>tk_arguments := args\<rparr>, h3)))))))"

definition task_profile_start ::
  "nvtx_api \<Rightarrow> 'v task_object \<Rightarrow> 'v task_memory \<Rightarrow> (64 word \<times> 'v task_memory) res" where
  \<comment> \<open>the log line of a named task reads the task's merged precondition, which a task need not have\<close>
  "task_profile_start nv task h = (case context_value as_region (tk_context task) of
     None \<Rightarrow> ret (0, h)
   | Some name \<Rightarrow> andThen (opt_get (tk_precondition task)) (\<lambda>_.
       let (i, s) = StartProfileRegion nv name (profile_of h) in ret (i, h\<lparr>profile_of := s\<rparr>)))"

definition task_profile_stop ::
  "realm \<Rightarrow> proc_tables \<Rightarrow> 'v task_object \<Rightarrow> 64 word \<Rightarrow> 'v task_memory \<Rightarrow> 'v task_memory res" where
  "task_profile_stop rl t task i h = (case context_value as_region (tk_context task) of
     None \<Rightarrow> ret h
   | Some name \<Rightarrow> andThen (Util_proc t) (\<lambda>u.
       ret (command rl (SpawnProfileStop (pr_proc u) i (tk_completion task)) h)))"

definition task_Invoke ::
  "realm \<Rightarrow> proc_tables \<Rightarrow> nvtx_api \<Rightarrow> ('v \<Rightarrow> 'v) \<Rightarrow> 'v deleter \<Rightarrow> 'v lambda \<Rightarrow> 'v task_object \<Rightarrow> 'v task_memory \<Rightarrow>
   ('v task_object \<times> 'v task_memory) res option" where
  "task_Invoke rl t nv gone del lambda task h =
     run_then (Some (task_profile_start nv task h)) (\<lambda>(profile_id, h0).
     run_then
       (if \<not> tk_returns task then task_dispatch_void rl t gone del lambda task h0
        else task_dispatch rl t gone del lambda task h0)
       (\<lambda>(task', h1).
     let h2 = (case context_value as_control (tk_context task) of
                 Some u \<Rightarrow> command rl (TriggerEvent u NO_EVENT) h1 | None \<Rightarrow> h1)
     in Some (andThen (task_profile_stop rl t task profile_id h2) (\<lambda>h3. ret (task', h3)))))"

definition deferred_task_delete ::
  "realm \<Rightarrow> proc_tables \<Rightarrow> 'v deleter \<Rightarrow> 'v task_object \<Rightarrow> 'v task_memory \<Rightarrow> 'v task_memory res" where
  "deferred_task_delete rl t del task h = foldR (\<lambda>h a. destroy_argument rl t del a h) h (tk_arguments task)"

definition deferred_task_launcher ::
  "realm \<Rightarrow> proc_tables \<Rightarrow> nvtx_api \<Rightarrow> ('v \<Rightarrow> 'v) \<Rightarrow> 'v deleter \<Rightarrow> 'v lambda \<Rightarrow> 'v task_object \<Rightarrow> 'v task_memory \<Rightarrow>
   ('v task_object option \<times> 'v task_memory) res option" where
  \<comment> \<open>the task is left to \<open>DELETE_TASK\<close> on a GPU only\<close>
  "deferred_task_launcher rl t nv gone del lambda task h =
     run_then (task_Invoke rl t nv gone del lambda task h) (\<lambda>(task', h1). Some (
       if pr_type (tk_processor task) \<noteq> GPU
       then andThen (deferred_task_delete rl t del task' h1) (\<lambda>h2. ret (None, h2))
       else ret (Some task', h1)))"

section \<open>What a run leaves alone\<close>

text \<open>Destructors and event calls extend the trace and leave the cells as they are.\<close>

definition grows :: "'v task_memory \<Rightarrow> 'v task_memory \<Rightarrow> bool" where
  "grows h' h \<longleftrightarrow> extends (trace_of h') (trace_of h) \<and> optional_cells h' = optional_cells h \<and>
     future_cells h' = future_cells h \<and> next_cell h' = next_cell h \<and> value_cells h' = value_cells h"

definition triggered :: "trace \<Rightarrow> event \<Rightarrow> bool" where
  "triggered tr u \<longleftrightarrow> (\<exists>e r. (TriggerEvent u e, r) \<in> set tr)"

lemma triggered_extends: "extends tr' tr \<Longrightarrow> triggered tr u \<Longrightarrow> triggered tr' u"
  by (auto simp: triggered_def dest: extends_set)

lemma triggered_append [simp]: "triggered (tr @ tr') u \<longleftrightarrow> triggered tr u \<or> triggered tr' u"
  by (auto simp: triggered_def)

lemma triggered_Cons [simp]:
  "triggered ((TriggerEvent u' e, r) # tr) u \<longleftrightarrow> u = u' \<or> triggered tr u"
  "(\<forall>u' e. c \<noteq> TriggerEvent u' e) \<Longrightarrow> triggered ((c, r) # tr) u \<longleftrightarrow> triggered tr u"
  by (auto simp: triggered_def)

lemma grows_refl [simp, intro]: "grows h h"
  by (simp add: grows_def)

lemma grows_trans: "grows c b \<Longrightarrow> grows b a \<Longrightarrow> grows c a"
  by (auto simp: grows_def intro: extends_trans)

lemma grows_call [simp, intro]:
  "grows (command rl c h) h" "grows (snd (invoke rl c h)) h" "grows (IncPendingOp h) h"
  by (simp_all add: grows_def command_def invoke_def IncPendingOp_def)

lemma grows_triggered: "grows h' h \<Longrightarrow> triggered (trace_of h) u \<Longrightarrow> triggered (trace_of h') u"
  by (auto simp: grows_def intro: triggered_extends)

definition delete_ok :: "'v deleter \<Rightarrow> bool" where
  "delete_ok del \<longleftrightarrow> (\<forall>f. del = Some f \<longrightarrow> (\<forall>a e h. \<exists>h'. f a e h = ret h' \<and> grows h' h))"

definition util_ok :: "proc_tables \<Rightarrow> bool" where
  "util_ok t \<longleftrightarrow> (\<exists>p. Util_proc t = ret p)"

text \<open>The event that somebody waits for until the store or view is destroyed.\<close>

definition owed_by_store :: "nat store \<Rightarrow> event set" where
  "owed_by_store st = set_option (parent_notification st)"

definition owed_by_view :: "'a view \<Rightarrow> event set" where
  "owed_by_view v = set_option (war_dependency v)"

lemma owed_by_iff [simp]:
  "u \<in> owed_by_store st \<longleftrightarrow> parent_notification st = Some u" "u \<in> owed_by_view v \<longleftrightarrow> war_dependency v = Some u"
  by (auto simp: owed_by_store_def owed_by_view_def)

lemma deferred_release_runs:
  assumes "util_ok t"
  shows "\<exists>h'. deferred_release rl t e h = ret h' \<and> grows h' (h :: 'v task_memory)"
proof -
  obtain p where "Util_proc t = ret p" using assms by (auto simp: util_ok_def)
  then have "deferred_release rl t e h = ret (command rl (SpawnRelease (pr_proc p) e) (IncPendingOp h))"
    by (simp add: deferred_release_def)
  then show ?thesis by (auto intro: grows_trans)
qed

lemma store_Precondition_grows: "store_Precondition rl st h = (e, h') \<Longrightarrow> grows h' (h :: 'v task_memory)"
  by (auto simp: store_Precondition_def merge2_def grows_def invoke_def split: option.splits)

lemma view_destroy_runs:
  assumes "util_ok t"
  shows "\<exists>h'. view_destroy rl t v h = ret h' \<and> grows h' (h :: 'v task_memory) \<and>
    (\<forall>u \<in> owed_by_view v. triggered (trace_of h') u)"
proof (cases "war_dependency v")
  case None
  then show ?thesis by (auto simp: view_destroy_def)
next
  case (Some u)
  let ?m = "if sub_views v = [] then (NO_EVENT, h) else invoke rl (MergeEvents (sub_views v)) h"
  let ?h = "command rl (TriggerEvent u (fst ?m)) (snd ?m)"
  have g: "grows ?h h" by (auto intro: grows_trans)
  obtain h' where h': "deferred_release rl t (fst ?m) ?h = ret h'" "grows h' ?h"
    using deferred_release_runs[OF assms] by blast
  show ?thesis
  proof (cases "sub_views v = []")
    case True
    then show ?thesis using g Some by (auto simp: view_destroy_def)
  next
    case False
    then show ?thesis using h' g grows_triggered[OF h'(2), of u] Some
      by (auto simp: view_destroy_def Let_def split_beta intro: grows_trans)
  qed
qed

lemma store_destroy_runs:
  assumes "util_ok t" and "delete_ok del"
  shows "\<exists>h'. store_destroy rl t del st h = ret h' \<and> grows h' (h :: 'v task_memory) \<and>
    (\<forall>u \<in> owed_by_store st. triggered (trace_of h') u)"
proof -
  define h1 where "h1 = (case parent_notification st of
      Some u \<Rightarrow> command rl (TriggerEvent u (case child_rw st of Some rw \<Rightarrow> ep_effects rw | None \<Rightarrow> NO_EVENT)) h
    | None \<Rightarrow> h)"
  have 1: "grows h1 h" "\<And>u. parent_notification st = Some u \<Longrightarrow> triggered (trace_of h1) u"
    by (auto simp: h1_def split: option.splits)
  obtain h2 where 2: "grows h2 h1" and r2: "(case del of None \<Rightarrow> ret h1
      | Some delete \<Rightarrow> (case store_value st of
           Some v \<Rightarrow> if \<not> has_parent st \<and> store_HasPrecondition st
             then (let (e, w2) = store_Precondition rl st h1 in delete v e w2) else ret h1
         | None \<Rightarrow> ret h1)) = ret h2"
  proof (cases "del \<noteq> None \<and> store_value st \<noteq> None \<and> \<not> has_parent st \<and> store_HasPrecondition st")
    case True
    then obtain f v where f: "del = Some f" "store_value st = Some v" by blast
    obtain e w2 where e: "store_Precondition rl st h1 = (e, w2)" by fastforce
    obtain h2 where "f v e w2 = ret h2" "grows h2 w2" using assms(2) f(1) unfolding delete_ok_def by blast
    then show thesis using that[of h2] True f e store_Precondition_grows[OF e] by (auto intro: grows_trans)
  next
    case False
    then show thesis using that[of h1] by (auto split: option.splits)
  qed
  have "\<exists>h3. grows h3 h2 \<and> (case child_rw st of
      Some rw \<Rightarrow> if store_value st \<noteq> None then deferred_release rl t (ep_effects rw) h2 else ret h2
    | None \<Rightarrow> ret h2) = ret h3"
    using deferred_release_runs[OF assms(1), of rl _ h2] by (cases "child_rw st") auto
  then obtain h3 where 3: "grows h3 h2" and r3: "(case child_rw st of
      Some rw \<Rightarrow> if store_value st \<noteq> None then deferred_release rl t (ep_effects rw) h2 else ret h2
    | None \<Rightarrow> ret h2) = ret h3" by blast
  have "store_destroy rl t del st h = andThen (case del of None \<Rightarrow> ret h1
      | Some delete \<Rightarrow> (case store_value st of
           Some v \<Rightarrow> if \<not> has_parent st \<and> store_HasPrecondition st
             then (let (e, w2) = store_Precondition rl st h1 in delete v e w2) else ret h1
         | None \<Rightarrow> ret h1)) (\<lambda>h2. case child_rw st of
      Some rw \<Rightarrow> if store_value st \<noteq> None then deferred_release rl t (ep_effects rw) h2 else ret h2
    | None \<Rightarrow> ret h2)"
    by (simp only: store_destroy_def h1_def Let_def)
  then have "store_destroy rl t del st h = ret h3" by (simp only: r2 andThen.simps r3)
  moreover have g: "grows h3 h1" using grows_trans[OF 3 2] .
  moreover have "\<forall>u \<in> owed_by_store st. triggered (trace_of h3) u"
    using 1(2) grows_triggered[OF g] by simp
  ultimately show ?thesis using grows_trans[OF g 1(1)] by simp
qed

text \<open>A loop of destructors: every element is destroyed, and what one of them triggers stays so.\<close>

lemma foldR_runs:
  assumes "\<And>x h. x \<in> set xs \<Longrightarrow> \<exists>h'. f h x = ret h' \<and> grows h' h \<and> (\<forall>u \<in> owed x. triggered (trace_of h') u)"
  shows "\<exists>h'. foldR f h xs = ret h' \<and> grows h' h \<and> (\<forall>x \<in> set xs. \<forall>u \<in> owed x. triggered (trace_of h') u)"
  using assms
proof (induction xs arbitrary: h)
  case Nil
  then show ?case by simp
next
  case (Cons x xs)
  obtain h1 where 1: "f h x = ret h1" "grows h1 h" "\<forall>u \<in> owed x. triggered (trace_of h1) u"
    using Cons.prems[of x h] by auto
  obtain h2 where 2: "foldR f h1 xs = ret h2" "grows h2 h1" "\<forall>x \<in> set xs. \<forall>u \<in> owed x. triggered (trace_of h2) u"
    using Cons.IH[of h1] Cons.prems by auto
  have "grows h2 h" using grows_trans[OF 2(2) 1(2)] .
  then show ?case using 1 2 grows_triggered[OF 2(2)] by auto
qed

fun owed_by_argument :: "'v argument \<Rightarrow> event set" where
  "owed_by_argument (ArgStore st) = owed_by_store st"
| "owed_by_argument (ArgView v) = owed_by_view v"
| "owed_by_argument (ArgFutureView v) = owed_by_view (fv_events v)"
| "owed_by_argument (ArgStores sts) = \<Union> (owed_by_store ` set sts)"
| "owed_by_argument (ArgViews vs) = \<Union> (owed_by_view ` set vs)"
| "owed_by_argument _ = {}"

fun owed_by_parameter :: "'v parameter \<Rightarrow> event set" where
  "owed_by_parameter (GotStore st) = owed_by_store st"
| "owed_by_parameter (GotView v) = owed_by_view v"
| "owed_by_parameter (GotFutureView v) = owed_by_view (fv_events v)"
| "owed_by_parameter (GotStores sts) = \<Union> (owed_by_store ` set sts)"
| "owed_by_parameter (GotViews vs) = \<Union> (owed_by_view ` set vs)"
| "owed_by_parameter _ = {}"

lemma destroy_lists_run:
  assumes "util_ok t" and "delete_ok del"
  shows "\<exists>h'. destroy_stores rl t del sts h = ret h' \<and> grows h' h \<and>
      (\<forall>st \<in> set sts. \<forall>u \<in> owed_by_store st. triggered (trace_of h') u)"
    and "\<exists>h'. destroy_views rl t vs h = ret h' \<and> grows h' h \<and>
      (\<forall>v \<in> set vs. \<forall>u \<in> owed_by_view v. triggered (trace_of h') u)"
proof -
  show "\<exists>h'. destroy_stores rl t del sts h = ret h' \<and> grows h' h \<and>
      (\<forall>st \<in> set sts. \<forall>u \<in> owed_by_store st. triggered (trace_of h') u)"
    unfolding destroy_stores_def by (rule foldR_runs) (rule store_destroy_runs[OF assms])
  show "\<exists>h'. destroy_views rl t vs h = ret h' \<and> grows h' h \<and>
      (\<forall>v \<in> set vs. \<forall>u \<in> owed_by_view v. triggered (trace_of h') u)"
    unfolding destroy_views_def by (rule foldR_runs) (rule view_destroy_runs[OF assms(1)])
qed

lemma destroy_runs:
  assumes "util_ok t" and "delete_ok del"
  shows "\<exists>h'. destroy_argument rl t del a h = ret h' \<and> grows h' h \<and>
      (\<forall>u \<in> owed_by_argument a. triggered (trace_of h') u)"
    and "\<exists>h'. destroy_parameter rl t del p h = ret h' \<and> grows h' h \<and>
      (\<forall>u \<in> owed_by_parameter p. triggered (trace_of h') u)"
proof -
  note lists = destroy_lists_run[OF assms] and s = store_destroy_runs[OF assms] and v = view_destroy_runs[OF assms(1)]
    and fv = view_destroy_runs[OF assms(1), where v = "fv_events x" for x]
  show "\<exists>h'. destroy_argument rl t del a h = ret h' \<and> grows h' h \<and>
      (\<forall>u \<in> owed_by_argument a. triggered (trace_of h') u)"
    unfolding destroy_argument_def using lists s v fv by (cases a) (simp_all del: owed_by_iff)
  show "\<exists>h'. destroy_parameter rl t del p h = ret h' \<and> grows h' h \<and>
      (\<forall>u \<in> owed_by_parameter p. triggered (trace_of h') u)"
    unfolding destroy_parameter_def using lists s v fv by (cases p) (simp_all del: owed_by_iff)
qed

section \<open>Arguments that are ready\<close>

text \<open>
  When a task runs its preconditions have triggered: stores and views hold their value, futures lead to
  one. Taking the value of a future leaves a value behind, so what is ready stays ready.
\<close>

definition future_ready :: "('v, 'z) memory_scheme \<Rightarrow> future \<Rightarrow> bool" where
  "future_ready h f \<longleftrightarrow> (\<exists>c x. follow h (fut_value f) = Some (ret c) \<and> optional_cells h c = Some x)"

definition argument_ready :: "'v task_memory \<Rightarrow> target \<Rightarrow> 'v argument \<Rightarrow> bool" where
  "argument_ready h t a \<longleftrightarrow> (case a of
     ArgStore st \<Rightarrow> t = ToSame \<or> (t = ToRef \<or> t = ToConstRef) \<and> (\<exists>x. store_get st = ret x)
   | ArgView v \<Rightarrow> t = ToSame \<or> (t = ToConstRef \<or> t = ToPlain) \<and> (\<exists>x. view_get v = ret x)
   | ArgFutureView v \<Rightarrow> t = ToSame \<or> (t = ToConstRef \<or> t = ToPlain) \<and> (\<exists>x. future_view_value h v = ret x)
   | ArgFuture f \<Rightarrow> t = ToSame \<or> (t = ToConstRef \<or> t = ToPlain) \<and> future_ready h f
   | ArgStores sts \<Rightarrow> t = ToSame \<or> t = ToRwVector \<and> (\<forall>st \<in> set sts. \<exists>x. store_get st = ret x)
   | ArgViews vs \<Rightarrow> t = ToSame \<or> t = ToRoVector \<and> (\<forall>v \<in> set vs. \<exists>x. view_get v = ret x)
   | ArgFutures fs \<Rightarrow> t = ToSame \<or> t = ToVector \<and> (\<forall>f \<in> set fs. future_ready h f)
   | ArgValue x \<Rightarrow> t = ToSame \<or> t = ToConstRef \<or> t = ToPlain)"

definition values_stay :: "('v, 'z) memory_scheme \<Rightarrow> ('v, 'z) memory_scheme \<Rightarrow> bool" where
  "values_stay h' h \<longleftrightarrow> trace_of h' = trace_of h \<and> future_cells h' = future_cells h \<and>
     (\<forall>c. optional_cells h c \<noteq> None \<longrightarrow> optional_cells h' c \<noteq> None)"

lemma values_stay_refl [simp, intro]: "values_stay h h"
  by (simp add: values_stay_def)

lemma values_stay_trans: "values_stay c b \<Longrightarrow> values_stay b a \<Longrightarrow> values_stay c a"
  by (simp add: values_stay_def)

lemma follow_same_futures:
  assumes "follow h v = Some r" and "future_cells h' = future_cells h"
  shows "follow h' v = Some r"
proof -
  have "future_cells h' = future_cells h \<longrightarrow> follow h' v = Some r"
    by (rule follow.raw_induct[OF _ assms(1)]) (subst follow.simps, auto split: future_value.splits option.splits)
  then show ?thesis using assms(2) by simp
qed

lemma future_ready_stays: "future_ready h f \<Longrightarrow> values_stay h' h \<Longrightarrow> future_ready h' f"
  unfolding future_ready_def values_stay_def using follow_same_futures by (metis not_None_eq option.distinct(1))

lemma future_view_value_stays:
  "future_view_value h v = ret x \<Longrightarrow> values_stay h' h \<Longrightarrow> \<exists>x. future_view_value h' v = ret x"
  by (auto simp: future_view_value_def values_stay_def split: future_value.splits option.splits)

lemma argument_ready_stays: "argument_ready h t a \<Longrightarrow> values_stay h' h \<Longrightarrow> argument_ready h' t a"
  using future_ready_stays[of h _ h'] future_view_value_stays[of h _ _ h']
  by (cases a) (auto simp: argument_ready_def)

lemma take_ready:
  assumes "future_ready h f"
  shows "\<exists>x h'. Future_take_value gone h f = Some (ret (x, h')) \<and> values_stay h' h"
proof -
  obtain c x where "follow h (fut_value f) = Some (ret c)" "optional_cells h c = Some x"
    using assms by (auto simp: future_ready_def)
  then show ?thesis by (auto simp: Future_take_value_def values_stay_def)
qed

lemma take_values_ready:
  assumes "\<forall>f \<in> set fs. future_ready h f"
  shows "\<exists>xs h'. take_values gone fs h = Some (ret (xs, h')) \<and> values_stay h' h"
  using assms
proof (induction fs arbitrary: h)
  case Nil
  then show ?case by simp
next
  case (Cons f fs)
  obtain x h1 where 1: "Future_take_value gone h f = Some (ret (x, h1))" "values_stay h1 h"
    using take_ready[of h f gone] Cons.prems by auto
  have "\<forall>f \<in> set fs. future_ready h1 f" using Cons.prems future_ready_stays[OF _ 1(2)] by simp
  then obtain xs h2 where "take_values gone fs h1 = Some (ret (xs, h2))" "values_stay h2 h1"
    using Cons.IH[of h1] by auto
  then show ?case using 1 values_stay_trans by auto
qed

lemma mapR_runs: "\<forall>x \<in> set xs. \<exists>y. f x = ret y \<Longrightarrow> \<exists>ys. mapR f xs = ret ys"
  by (induction xs) auto

text \<open>Whatever an argument owes is owed by the parameter made from it or by what is left of it.\<close>

lemma ResolveDependency_ready:
  assumes "argument_ready h t a"
  shows "\<exists>p a' h'. ResolveDependency gone t a h = Some (ret (p, a', h')) \<and> values_stay h' h \<and>
    owed_by_argument a \<subseteq> owed_by_parameter p \<union> owed_by_argument a'"
proof (cases a)
  case (ArgStore st)
  then show ?thesis using assms
    by (auto simp: argument_ready_def ResolveDependency_def Store_move_def)
next
  case (ArgView v)
  then show ?thesis using assms
    by (auto simp: argument_ready_def ResolveDependency_def view_move_def)
next
  case (ArgFutureView v)
  then show ?thesis using assms
    by (auto simp: argument_ready_def ResolveDependency_def future_view_move_def view_move_def future_view_value_def
        split: future_value.splits option.splits)
next
  case (ArgFuture f)
  then show ?thesis using assms take_ready[of h f gone]
    by (auto simp: argument_ready_def ResolveDependency_def)
next
  case (ArgStores sts)
  then show ?thesis using assms mapR_runs[of sts store_get]
    by (auto simp: argument_ready_def ResolveDependency_def)
next
  case (ArgViews vs)
  then show ?thesis using assms mapR_runs[of vs view_get]
    by (auto simp: argument_ready_def ResolveDependency_def)
next
  case (ArgFutures fs)
  then show ?thesis using assms take_values_ready[of fs h gone]
    by (auto simp: argument_ready_def ResolveDependency_def)
next
  case (ArgValue x)
  then show ?thesis using assms
    by (auto simp: argument_ready_def ResolveDependency_def)
qed

lemma resolve_tuple_ready:
  assumes "list_all2 (argument_ready h) ts as"
  shows "\<exists>ps as' h'. resolve_dependency_tuple gone ts as h = Some (ret (ps, as', h')) \<and> values_stay h' h \<and>
    \<Union> (owed_by_argument ` set as) \<subseteq> \<Union> (owed_by_parameter ` set ps) \<union> \<Union> (owed_by_argument ` set as')"
  using assms
proof (induction ts arbitrary: h as)
  case Nil
  then show ?case by simp
next
  case (Cons t ts)
  obtain a as' where as: "as = a # as'" and t: "argument_ready h t a" and ts: "list_all2 (argument_ready h) ts as'"
    using Cons.prems by (auto simp: list_all2_Cons1)
  obtain p a' h1 where 1: "ResolveDependency gone t a h = Some (ret (p, a', h1))" "values_stay h1 h"
    "owed_by_argument a \<subseteq> owed_by_parameter p \<union> owed_by_argument a'"
    using ResolveDependency_ready[OF t, of gone] by blast
  have "list_all2 (argument_ready h1) ts as'"
    using list_all2_mono[OF ts] argument_ready_stays[OF _ 1(2)] by blast
  from Cons.IH[OF this] obtain ps bs h2 where
    2: "resolve_dependency_tuple gone ts as' h1 = Some (ret (ps, bs, h2))" "values_stay h2 h1"
      "\<Union> (owed_by_argument ` set as') \<subseteq> \<Union> (owed_by_parameter ` set ps) \<union> \<Union> (owed_by_argument ` set bs)"
    by blast
  have "resolve_dependency_tuple gone (t # ts) as h = Some (ret (p # ps, a' # bs, h2))" using 1(1) 2(1) by (simp add: as)
  moreover have "\<Union> (owed_by_argument ` set as) \<subseteq>
      \<Union> (owed_by_parameter ` set (p # ps)) \<union> \<Union> (owed_by_argument ` set (a' # bs))"
    using 1(3) 2(3) by (simp add: as) blast
  ultimately show ?case using values_stay_trans[OF 2(2) 1(2)] by blast
qed

section \<open>A run releases what the task holds\<close>

text \<open>
  What is asked of the user's function: it returns, with results of its promises' types, it calls Realm
  and nothing else that matters here, it has released what it was given or leaves it to its parameters,
  and it records on its stream. A returned future must have been launched, so that it has a precondition.
\<close>

definition result_fits :: "'v result \<Rightarrow> promise \<Rightarrow> bool" where
  "result_fits r p \<longleftrightarrow> (case r of
     ResultValue v \<Rightarrow> deferred_event p = None \<and> (\<exists>c. promise_value p = OptionalPtr (Some c))
   | ResultFuture f \<Rightarrow> deferred_event p \<noteq> None \<and> (\<exists>a. promise_value p = FuturePtr (Some a)) \<and>
       Future_HasPrecondition f
   | ResultVoidFuture pre \<Rightarrow> deferred_event p \<noteq> None \<and> pre \<noteq> None
   | ResultToken ev \<Rightarrow> deferred_event p \<noteq> None)"

definition serves :: "'v lambda \<Rightarrow> promise list \<Rightarrow> bool" where
  "serves lambda promises \<longleftrightarrow> (\<forall>s ps h. \<exists>rs s' ps' h'. lambda s ps h = ret (rs, s', ps', h') \<and>
     extends (trace_of h') (trace_of h) \<and> list_all2 result_fits rs promises \<and>
     (\<forall>u \<in> \<Union> (owed_by_parameter ` set ps). triggered (trace_of h') u \<or> u \<in> \<Union> (owed_by_parameter ` set ps')) \<and>
     (s \<noteq> None \<longrightarrow> (\<exists>st. s' = Some st \<and> HasOrderingEvent st)))"

lemma FulfillPromise_runs:
  assumes "result_fits r p"
  shows "\<exists>p' h'. FulfillPromise rl r p h = ret (p', h') \<and> extends (trace_of h') (trace_of h) \<and>
    (\<forall>u. deferred_event p = Some u \<longrightarrow> triggered (trace_of h') u)"
proof (cases r)
  case (ResultFuture f)
  obtain u a where p: "deferred_event p = Some u" "promise_value p = FuturePtr (Some a)" and f: "Future_HasPrecondition f"
    using assms ResultFuture by (auto simp: result_fits_def)
  then show ?thesis using ResultFuture
    by (cases "fut_value f") (auto simp: FulfillPromise_def FulfillPromise_future_def HasDeferredEvent_def require_def
        HasDeferredValue_def Future_get_deferred_value_def Promise_emplace_future_def Future_shared_value_def
        Promise_emplace_optional_def Promise_get_deferred_value_def deref_def DeferredEvent_def)
qed (use assms in \<open>auto simp: result_fits_def FulfillPromise_def FulfillPromise_value_def Promise_emplace_def
      Promise_Value_def deref_def FulfillPromise_void_def FulfillPromise_token_def DeferredEvent_def\<close>)

lemma FulfillPromises_run:
  assumes "list_all2 result_fits rs ps"
  shows "\<exists>ps' h'. FulfillPromises rl rs ps h = ret (ps', h') \<and> extends (trace_of h') (trace_of h) \<and>
    (\<forall>p \<in> set ps. \<forall>u. deferred_event p = Some u \<longrightarrow> triggered (trace_of h') u)"
  using assms
proof (induction rs arbitrary: ps h)
  case Nil
  then show ?case by simp
next
  case (Cons r rs)
  then obtain p ps' where ps: "ps = p # ps'" and r: "result_fits r p" and rs: "list_all2 result_fits rs ps'"
    by (auto simp: list_all2_Cons1)
  obtain p1 h1 where 1: "FulfillPromise rl r p h = ret (p1, h1)" "extends (trace_of h1) (trace_of h)"
    "\<forall>u. deferred_event p = Some u \<longrightarrow> triggered (trace_of h1) u"
    using FulfillPromise_runs[OF r] by blast
  obtain ps2 h2 where 2: "FulfillPromises rl rs ps' h1 = ret (ps2, h2)" "extends (trace_of h2) (trace_of h1)"
    "\<forall>p \<in> set ps'. \<forall>u. deferred_event p = Some u \<longrightarrow> triggered (trace_of h2) u"
    using Cons.IH[OF rs] by blast
  have "\<forall>p \<in> set ps. \<forall>u. deferred_event p = Some u \<longrightarrow> triggered (trace_of h2) u"
    using 1(3) 2(3) triggered_extends[OF 2(2)] by (simp add: ps)
  moreover have "FulfillPromises rl (r # rs) ps h = ret (p1 # ps2, h2)" using 1(1) 2(1) by (simp add: ps)
  ultimately show ?case using extends_trans[OF 2(2) 1(2)] by blast
qed

definition owed_by_arguments :: "'v argument list \<Rightarrow> event set" where
  "owed_by_arguments as = \<Union> (owed_by_argument ` set as)"

lemma call_and_destroy_runs:
  assumes "serves lambda promises" and "util_ok t" and "delete_ok del"
  shows "\<exists>rs s' ps' h1 h'. lambda s ps h = ret (rs, s', ps', h1) \<and>
    foldR (\<lambda>h p. destroy_parameter rl t del p h) h1 ps' = ret h' \<and>
    extends (trace_of h') (trace_of h) \<and> list_all2 result_fits rs promises \<and>
    (\<forall>u \<in> \<Union> (owed_by_parameter ` set ps). triggered (trace_of h') u) \<and>
    (s \<noteq> None \<longrightarrow> (\<exists>st. s' = Some st \<and> HasOrderingEvent st))"
proof -
  obtain rs s' ps' h1 where 1: "lambda s ps h = ret (rs, s', ps', h1)" "extends (trace_of h1) (trace_of h)"
    "list_all2 result_fits rs promises" "s \<noteq> None \<longrightarrow> (\<exists>st. s' = Some st \<and> HasOrderingEvent st)"
    and owed: "\<forall>u \<in> \<Union> (owed_by_parameter ` set ps).
      triggered (trace_of h1) u \<or> u \<in> \<Union> (owed_by_parameter ` set ps')"
    using assms(1) unfolding serves_def by metis
  obtain h' where 2: "foldR (\<lambda>h p. destroy_parameter rl t del p h) h1 ps' = ret h'" "grows h' h1"
    "\<forall>p \<in> set ps'. \<forall>u \<in> owed_by_parameter p. triggered (trace_of h') u"
    using foldR_runs[of ps' "\<lambda>h p. destroy_parameter rl t del p h" owed_by_parameter h1]
      destroy_runs(2)[OF assms(2,3)] by blast
  have e: "extends (trace_of h') (trace_of h1)" using 2(2) by (simp add: grows_def)
  have freed: "\<forall>u \<in> \<Union> (owed_by_parameter ` set ps). triggered (trace_of h') u"
    using owed 2(3) triggered_extends[OF e] by blast
  show ?thesis
    by (intro exI conjI) (fact 1(1), fact 2(1), fact extends_trans[OF e 1(2)], fact 1(3), fact freed, fact 1(4))
qed

lemma task_dispatch_runs:
  assumes "list_all2 (argument_ready h) (tk_targets task) (tk_arguments task)"
    and "serves lambda (tk_promises task)" and "util_ok t" and "delete_ok del"
  shows "\<exists>task' h'. task_dispatch rl t gone del lambda task h = Some (ret (task', h')) \<and>
      extends (trace_of h') (trace_of h) \<and>
      (\<forall>u \<in> owed_by_arguments (tk_arguments task).
         triggered (trace_of h') u \<or> u \<in> owed_by_arguments (tk_arguments task')) \<and>
      (\<forall>p \<in> set (tk_promises task). \<forall>u. deferred_event p = Some u \<longrightarrow> triggered (trace_of h') u)"
    and "\<exists>task' h'. task_dispatch_void rl t gone del lambda task h = Some (ret (task', h')) \<and>
      extends (trace_of h') (trace_of h) \<and>
      (\<forall>u \<in> owed_by_arguments (tk_arguments task).
         triggered (trace_of h') u \<or> u \<in> owed_by_arguments (tk_arguments task'))"
proof -
  obtain ps as h1 where 1: "resolve_dependency_tuple gone (tk_targets task) (tk_arguments task) h = Some (ret (ps, as, h1))"
    "values_stay h1 h"
    and owed: "owed_by_arguments (tk_arguments task) \<subseteq> \<Union> (owed_by_parameter ` set ps) \<union> owed_by_arguments as"
    using resolve_tuple_ready[OF assms(1), of gone] unfolding owed_by_arguments_def by blast
  have tr: "trace_of h1 = trace_of h" using 1(2) by (simp add: values_stay_def)
  note run = call_and_destroy_runs[OF assms(2-4)]
  show "\<exists>task' h'. task_dispatch rl t gone del lambda task h = Some (ret (task', h')) \<and>
      extends (trace_of h') (trace_of h) \<and>
      (\<forall>u \<in> owed_by_arguments (tk_arguments task).
         triggered (trace_of h') u \<or> u \<in> owed_by_arguments (tk_arguments task')) \<and>
      (\<forall>p \<in> set (tk_promises task). \<forall>u. deferred_event p = Some u \<longrightarrow> triggered (trace_of h') u)"
  proof -
    obtain rs s' ps' h2 h3 where 2: "lambda None ps h1 = ret (rs, s', ps', h2)"
      "foldR (\<lambda>h p. destroy_parameter rl t del p h) h2 ps' = ret h3" "extends (trace_of h3) (trace_of h1)"
      "list_all2 result_fits rs (tk_promises task)"
      "\<forall>u \<in> \<Union> (owed_by_parameter ` set ps). triggered (trace_of h3) u"
      using run[of None ps h1 rl] by blast
    obtain promises h4 where 3: "FulfillPromises rl rs (tk_promises task) h3 = ret (promises, h4)"
      "extends (trace_of h4) (trace_of h3)"
      "\<forall>p \<in> set (tk_promises task). \<forall>u. deferred_event p = Some u \<longrightarrow> triggered (trace_of h4) u"
      using FulfillPromises_run[OF 2(4), of rl h3] by blast
    have "task_dispatch rl t gone del lambda task h =
        Some (ret (task\<lparr>tk_arguments := as, tk_promises := promises\<rparr>, h4))"
      using 1(1) 2(1,2) 3(1) by (simp add: task_dispatch_def)
    moreover have "\<forall>u \<in> owed_by_arguments (tk_arguments task). triggered (trace_of h4) u \<or> u \<in> owed_by_arguments as"
      using owed 2(5) triggered_extends[OF 3(2)] by blast
    ultimately show ?thesis using extends_trans[OF 3(2) 2(3)] 3(3) by (simp add: tr)
  qed
  show "\<exists>task' h'. task_dispatch_void rl t gone del lambda task h = Some (ret (task', h')) \<and>
      extends (trace_of h') (trace_of h) \<and>
      (\<forall>u \<in> owed_by_arguments (tk_arguments task).
         triggered (trace_of h') u \<or> u \<in> owed_by_arguments (tk_arguments task'))"
  proof -
    let ?s = "if context_value as_stream_ordered (tk_context task) \<noteq> None
      then Some (stream_for (tk_processor task)) else None"
    obtain rs s' ps' h2 h3 where 2: "lambda ?s ps h1 = ret (rs, s', ps', h2)"
      "foldR (\<lambda>h p. destroy_parameter rl t del p h) h2 ps' = ret h3" "extends (trace_of h3) (trace_of h1)"
      "\<forall>u \<in> \<Union> (owed_by_parameter ` set ps). triggered (trace_of h3) u"
      "?s \<noteq> None \<longrightarrow> (\<exists>st. s' = Some st \<and> HasOrderingEvent st)"
      using run[of ?s ps h1 rl] by blast
    have "task_dispatch_void rl t gone del lambda task h = Some (ret (task\<lparr>tk_arguments := as\<rparr>, h3))"
      using 1(1) 2(1,2,5) by (auto simp: task_dispatch_void_def Let_def require_def split: if_splits)
    moreover have "\<forall>u \<in> owed_by_arguments (tk_arguments task). triggered (trace_of h3) u \<or> u \<in> owed_by_arguments as"
      using owed 2(4) by blast
    ultimately show ?thesis using 2(3) by (simp add: tr)
  qed
qed

lemma task_delete_runs:
  assumes "util_ok t" and "delete_ok del"
  shows "\<exists>h'. deferred_task_delete rl t del task h = ret h' \<and> grows h' h \<and>
    (\<forall>u \<in> owed_by_arguments (tk_arguments task). triggered (trace_of h') u)"
  unfolding deferred_task_delete_def owed_by_arguments_def
  using foldR_runs[of "tk_arguments task" "\<lambda>h a. destroy_argument rl t del a h" owed_by_argument h]
    destroy_runs(1)[OF assms] by blast

text \<open>A task with a name needs a precondition to run.\<close>

definition region_ready :: "'v task_object \<Rightarrow> bool" where
  "region_ready task \<longleftrightarrow> context_value as_region (tk_context task) = None \<or> tk_precondition task \<noteq> None"

lemma task_profile_start_runs:
  assumes "region_ready task"
  shows "\<exists>i s. task_profile_start nv task h = ret (i, h\<lparr>profile_of := s\<rparr>)"
proof (cases "context_value as_region (tk_context task)")
  case None
  have "h = h\<lparr>profile_of := profile_of h\<rparr>" by simp
  then show ?thesis using None unfolding task_profile_start_def by (metis option.simps(4))
next
  case (Some name)
  then show ?thesis using assms by (auto simp: task_profile_start_def region_ready_def split: prod.splits)
qed

lemma task_profile_stop_runs:
  assumes "util_ok t"
  shows "\<exists>h'. task_profile_stop rl t task i h = ret h' \<and> grows h' h"
  using assms by (auto simp: task_profile_stop_def util_ok_def split: option.splits)

lemma values_stay_profile [simp]: "values_stay (h\<lparr>profile_of := s\<rparr>) h"
  by (simp add: values_stay_def)

lemma task_Invoke_runs:
  assumes "list_all2 (argument_ready h) (tk_targets task) (tk_arguments task)"
    and "serves lambda (tk_promises task)" and "util_ok t" and "delete_ok del" and "region_ready task"
  shows "\<exists>task' h'. task_Invoke rl t nv gone del lambda task h = Some (ret (task', h')) \<and>
    extends (trace_of h') (trace_of h) \<and>
    (\<forall>u \<in> owed_by_arguments (tk_arguments task).
       triggered (trace_of h') u \<or> u \<in> owed_by_arguments (tk_arguments task')) \<and>
    (\<forall>u. context_value as_control (tk_context task) = Some u \<longrightarrow> triggered (trace_of h') u) \<and>
    (tk_returns task \<longrightarrow>
       (\<forall>p \<in> set (tk_promises task). \<forall>u. deferred_event p = Some u \<longrightarrow> triggered (trace_of h') u))"
proof -
  obtain i s where 0: "task_profile_start nv task h = ret (i, h\<lparr>profile_of := s\<rparr>)"
    using task_profile_start_runs[OF assms(5)] by blast
  have "list_all2 (argument_ready (h\<lparr>profile_of := s\<rparr>)) (tk_targets task) (tk_arguments task)"
    using list_all2_mono[OF assms(1)] argument_ready_stays values_stay_profile by blast
  note dispatched = task_dispatch_runs[OF this assms(2-4), of rl gone]
  obtain task' h1 where 1: "(if \<not> tk_returns task then task_dispatch_void rl t gone del lambda task (h\<lparr>profile_of := s\<rparr>)
        else task_dispatch rl t gone del lambda task (h\<lparr>profile_of := s\<rparr>)) = Some (ret (task', h1))"
    "extends (trace_of h1) (trace_of h)"
    "\<forall>u \<in> owed_by_arguments (tk_arguments task).
       triggered (trace_of h1) u \<or> u \<in> owed_by_arguments (tk_arguments task')"
    "tk_returns task \<longrightarrow>
       (\<forall>p \<in> set (tk_promises task). \<forall>u. deferred_event p = Some u \<longrightarrow> triggered (trace_of h1) u)"
    using dispatched by (cases "tk_returns task") auto
  define h2 where "h2 = (case context_value as_control (tk_context task) of
    Some u \<Rightarrow> command rl (TriggerEvent u NO_EVENT) h1 | None \<Rightarrow> h1)"
  have e: "extends (trace_of h2) (trace_of h1)" by (simp add: h2_def split: option.splits)
  obtain h3 where 3: "task_profile_stop rl t task i h2 = ret h3" "grows h3 h2"
    using task_profile_stop_runs[OF assms(3)] by blast
  have "task_Invoke rl t nv gone del lambda task h = Some (ret (task', h3))"
    using 0 1(1) 3(1) by (simp add: task_Invoke_def h2_def Let_def)
  moreover have "context_value as_control (tk_context task) = Some u \<Longrightarrow> triggered (trace_of h2) u" for u
    by (simp add: h2_def)
  moreover have e3: "extends (trace_of h3) (trace_of h1)" using 3(2) extends_trans[OF _ e] by (simp add: grows_def)
  ultimately show ?thesis
    using 1(3,4) extends_trans[OF e3 1(2)] triggered_extends[OF e3] grows_triggered[OF 3(2)] by blast
qed

text \<open>
  C24. A task that runs sets everybody free: when the arguments hold their values, a task with a name has a
  precondition, and the user's function returns and keeps its side, the launcher and, on a GPU, the deleter return, and then every event that is owed by
  an argument (a child store's, a view's), the control event of the launch and the events of all
  promises with one have been triggered; nothing waits for ever for a task that ran.
\<close>

theorem task_run_releases:
  assumes "list_all2 (argument_ready h) (tk_targets task) (tk_arguments task)"
    and "serves lambda (tk_promises task)" and "util_ok t" and "delete_ok del" and "region_ready task"
  shows "\<exists>rest h1 h'. deferred_task_launcher rl t nv gone del lambda task h = Some (ret (rest, h1)) \<and>
    (rest = None \<longleftrightarrow> pr_type (tk_processor task) \<noteq> GPU) \<and>
    (case rest of None \<Rightarrow> h' = h1 | Some task' \<Rightarrow> deferred_task_delete rl t del task' h1 = ret h') \<and>
    (\<forall>u \<in> owed_by_arguments (tk_arguments task). triggered (trace_of h') u) \<and>
    (\<forall>u. context_value as_control (tk_context task) = Some u \<longrightarrow> triggered (trace_of h') u) \<and>
    (tk_returns task \<longrightarrow>
       (\<forall>p \<in> set (tk_promises task). \<forall>u. deferred_event p = Some u \<longrightarrow> triggered (trace_of h') u))"
proof -
  obtain task' h1 where 1: "task_Invoke rl t nv gone del lambda task h = Some (ret (task', h1))"
    "\<forall>u \<in> owed_by_arguments (tk_arguments task).
       triggered (trace_of h1) u \<or> u \<in> owed_by_arguments (tk_arguments task')"
    "\<forall>u. context_value as_control (tk_context task) = Some u \<longrightarrow> triggered (trace_of h1) u"
    "tk_returns task \<longrightarrow>
       (\<forall>p \<in> set (tk_promises task). \<forall>u. deferred_event p = Some u \<longrightarrow> triggered (trace_of h1) u)"
    using task_Invoke_runs[OF assms, of rl nv gone] by blast
  obtain h' where 2: "deferred_task_delete rl t del task' h1 = ret h'" "grows h' h1"
    "\<forall>u \<in> owed_by_arguments (tk_arguments task'). triggered (trace_of h') u"
    using task_delete_runs[OF assms(3,4)] by blast
  have "\<forall>u \<in> owed_by_arguments (tk_arguments task). triggered (trace_of h') u"
    using 1(2) 2(3) grows_triggered[OF 2(2)] by blast
  then show ?thesis using 1 2(1) grows_triggered[OF 2(2)]
    by (cases "pr_type (tk_processor task) = GPU") (force simp: deferred_task_launcher_def)+
qed

section \<open>The results arrive\<close>

text \<open>The optionals that the promises of a task point to are new and apart.\<close>

definition promised_cells :: "promise list \<Rightarrow> nat set" where
  "promised_cells ps = {c. \<exists>p \<in> set ps. promise_value p = OptionalPtr (Some c)}"

definition cells_apart :: "promise list \<Rightarrow> bool" where
  "cells_apart ps \<longleftrightarrow> (\<forall>i < length ps. \<forall>j < length ps. \<forall>c. promise_value (ps ! i) = OptionalPtr (Some c) \<longrightarrow>
     promise_value (ps ! j) = OptionalPtr (Some c) \<longrightarrow> i = j)"

lemma CreatePromise_cell:
  assumes "CreatePromise rl k h = (p, h')"
  shows "next_cell h \<le> next_cell h'"
    and "promise_value p = OptionalPtr (Some c) \<Longrightarrow> next_cell h \<le> c \<and> c < next_cell h'"
  using assms by (cases k; auto simp: CreatePromise_def create_concrete_promise_def Promise_concrete_def new_optional_def
      create_deferred_promise_def Promise_deferred_def invoke_def Future_CreateEmptyShared_def new_future_def
      Promise_void_def)+

lemma make_promise_tuple_cells:
  assumes "make_promise_tuple rl ks h = (ps, h')"
  shows "promised_cells ps \<subseteq> {next_cell h..<next_cell h'} \<and> next_cell h \<le> next_cell h' \<and> cells_apart ps"
  using assms
proof (induction ks arbitrary: h ps)
  case Nil
  then show ?case by (simp add: promised_cells_def cells_apart_def)
next
  case (Cons k ks)
  obtain p h1 ps' where p: "CreatePromise rl k h = (p, h1)" and "make_promise_tuple rl ks h1 = (ps', h')"
    and ps: "ps = p # ps'"
    using Cons.prems by (auto split: prod.splits)
  from Cons.IH[OF this(2)] have rest: "promised_cells ps' \<subseteq> {next_cell h1..<next_cell h'}"
    "next_cell h1 \<le> next_cell h'" "cells_apart ps'" by simp_all
  note c = CreatePromise_cell[OF p]
  have "cells_apart ps"
    unfolding cells_apart_def
  proof (intro allI impI)
    fix i j x
    assume *: "i < length ps" "j < length ps" "promise_value (ps ! i) = OptionalPtr (Some x)"
      "promise_value (ps ! j) = OptionalPtr (Some x)"
    have tail: "next_cell h1 \<le> x" if "promise_value (ps' ! n) = OptionalPtr (Some x)" "n < length ps'" for n
    proof -
      have "x \<in> promised_cells ps'" using that nth_mem by (auto simp: promised_cells_def)
      then show ?thesis using rest(1) by auto
    qed
    show "i = j"
      using * rest(3) c(2)[of x] tail[of "i - 1"] tail[of "j - 1"]
      by (auto simp: ps nth_Cons cells_apart_def split: nat.splits)
  qed
  moreover have "promised_cells ps = {x. promise_value p = OptionalPtr (Some x)} \<union> promised_cells ps'"
    by (auto simp: promised_cells_def ps)
  moreover have "{x. promise_value p = OptionalPtr (Some x)} \<subseteq> {next_cell h..<next_cell h1}" using c(2) by auto
  ultimately show ?case using rest(1,2) c(1) by force
qed

lemma FulfillPromise_cells:
  assumes "FulfillPromise rl r p h = ret (p', h')"
  shows "r = ResultValue v \<Longrightarrow> \<exists>c. promise_value p = OptionalPtr (Some c) \<and>
      optional_cells h' = (optional_cells h)(c := Some v)"
    and "\<forall>v. r \<noteq> ResultValue v \<Longrightarrow> optional_cells h' = optional_cells h"
  using assms
  by (auto simp: FulfillPromise_def FulfillPromise_value_def Promise_emplace_def Promise_Value_def deref_def
      andThen_eq_ret FulfillPromise_future_def FulfillPromise_void_def FulfillPromise_token_def
      Promise_emplace_optional_def command_def invoke_def split: result.splits future_value.splits option.splits if_splits)

lemma FulfillPromises_other:
  assumes "FulfillPromises rl rs ps h = ret (ps', h')" and "c \<notin> promised_cells ps"
  shows "optional_cells h' c = optional_cells h c"
  using assms
proof (induction rl rs ps h arbitrary: ps' rule: FulfillPromises.induct)
  case (1 rl r rs p ps h)
  obtain p1 h1 ps2 where a: "FulfillPromise rl r p h = ret (p1, h1)"
    and b: "FulfillPromises rl rs ps h1 = ret (ps2, h')"
    using 1(2) by (auto simp: andThen_eq_ret)
  have "optional_cells h1 c = optional_cells h c"
    using FulfillPromise_cells[OF a] 1(3) by (cases r) (auto simp: promised_cells_def)
  then show ?case using 1(1)[OF a _ b] 1(3) by (auto simp: promised_cells_def)
qed (simp_all add: promised_cells_def)

lemma cells_apart_Cons:
  "cells_apart (p # ps) \<Longrightarrow> cells_apart ps"
  "cells_apart (p # ps) \<Longrightarrow> promise_value p = OptionalPtr (Some c) \<Longrightarrow> c \<notin> promised_cells ps"
proof -
  assume a: "cells_apart (p # ps)"
  show "cells_apart ps" unfolding cells_apart_def
  proof (intro allI impI)
    fix i j c assume "i < length ps" "j < length ps" "promise_value (ps ! i) = OptionalPtr (Some c)"
      "promise_value (ps ! j) = OptionalPtr (Some c)"
    then show "i = j" using a[unfolded cells_apart_def, rule_format, of "Suc i" "Suc j" c] by simp
  qed
  assume c: "promise_value p = OptionalPtr (Some c)"
  show "c \<notin> promised_cells ps"
  proof
    assume "c \<in> promised_cells ps"
    then obtain j where "j < length ps" "promise_value (ps ! j) = OptionalPtr (Some c)"
      by (auto simp: promised_cells_def in_set_conv_nth)
    then show False using a[unfolded cells_apart_def, rule_format, of 0 "Suc j" c] c by simp
  qed
qed

lemma FulfillPromises_value:
  assumes "FulfillPromises rl rs ps h = ret (ps', h')" and "cells_apart ps" and "i < length rs" "i < length ps"
    and "rs ! i = ResultValue v"
  shows "\<exists>c. promise_value (ps ! i) = OptionalPtr (Some c) \<and> optional_cells h' c = Some v"
  using assms
proof (induction rl rs ps h arbitrary: ps' i rule: FulfillPromises.induct)
  case (1 rl r rs p ps h)
  obtain p1 h1 ps2 where a: "FulfillPromise rl r p h = ret (p1, h1)"
    and b: "FulfillPromises rl rs ps h1 = ret (ps2, h')"
    using 1(2) by (auto simp: andThen_eq_ret)
  note apart = cells_apart_Cons[OF 1(3)]
  show ?case
  proof (cases i)
    case 0
    then obtain c where c: "promise_value p = OptionalPtr (Some c)" "optional_cells h1 c = Some v"
      using FulfillPromise_cells(1)[OF a, of v] 1(6) by auto
    then show ?thesis using FulfillPromises_other[OF b apart(2)[OF c(1)]] 0 by simp
  next
    case (Suc n)
    then show ?thesis using 1(1)[where i = n, OF a _ b apart(1)] 1(4-6) by simp
  qed
qed simp_all

lemma make_future_tuple_nth:
  assumes "make_future_tuple ks ps ev = ret fs" and "list_all2 promise_fits ks ps" and "i < length ps"
    and "promise_value (ps ! i) = OptionalPtr (Some c)" and "deferred_event (ps ! i) = None"
  shows "fs ! i = Future_of_optional ev (Some c)"
  using assms
proof (induction ks ps ev arbitrary: fs i rule: make_future_tuple.induct)
  case (1 k ks p ps ev)
  then show ?case
    by (cases i; cases k) (auto simp: andThen_eq_ret promise_fits_def CreateFuture_def create_concrete_future_def Promise_Value_def)
qed simp_all

lemma foldR_grows:
  assumes "util_ok t" and "delete_ok del"
  shows "foldR (\<lambda>h p. destroy_parameter rl t del p h) h ps = ret h' \<Longrightarrow> grows h' h"
    and "deferred_task_delete rl t del task h = ret h' \<Longrightarrow> grows h' h"
  using foldR_runs[of ps "\<lambda>h p. destroy_parameter rl t del p h" owed_by_parameter h]
    destroy_runs(2)[OF assms, of rl] task_delete_runs[OF assms, of rl task h]
  by (metis Inr_inject)+

text \<open>
  C25. The values a task returns arrive: of the promises and futures that a launch made for it, each one whose
  result is a value gives that value to whoever reads the future after the launcher returned, and the
  future's precondition is the event the launch passed on.
\<close>

theorem task_results_arrive:
  assumes "make_promise_tuple rl ks h0 = (tk_promises task, h1)"
    and "make_future_tuple ks (tk_promises task) ev = ret fs" and "tk_returns task"
    and "task_profile_start nv task h = ret (region, h0')"
    and "resolve_dependency_tuple gone (tk_targets task) (tk_arguments task) h0' = Some (ret (ps, as, h2))"
    and "lambda None ps h2 = ret (rs, s, ps', h3)"
    and "deferred_task_launcher rl t nv gone del lambda task h = Some (ret (rest, h'))"
    and "util_ok t" and "delete_ok del"
    and "i < length rs" and "i < length ks" and "rs ! i = ResultValue v" and "ks ! i = ValuePromise"
  shows "Future_get_value h' (fs ! i) = Some (ret v) \<and> fut_pre (fs ! i) = Some ev"
proof -
  let ?p = "tk_promises task ! i"
  have fits: "list_all2 promise_fits ks (tk_promises task)" using make_promise_tuple_fits[OF assms(1)] .
  then have len: "length (tk_promises task) = length ks" by (simp add: list_all2_lengthD)
  have none: "deferred_event ?p = None"
    using list_all2_nthD[OF fits assms(11)] assms(13) by (simp add: promise_fits_def)
  obtain task' h5 where inv: "task_Invoke rl t nv gone del lambda task h = Some (ret (task', h5))"
    and l: "if pr_type (tk_processor task) \<noteq> GPU then deferred_task_delete rl t del task' h5 = ret h' else h' = h5"
    using assms(7) by (auto simp: deferred_task_launcher_def run_then_eq_ret andThen_eq_ret split: if_splits)
  let ?control = "\<lambda>h. case context_value as_control (tk_context task) of
      Some u \<Rightarrow> command rl (TriggerEvent u NO_EVENT) h | None \<Rightarrow> h"
  obtain h4 where d: "task_dispatch rl t gone del lambda task h0' = Some (ret (task', h4))"
    and stop: "task_profile_stop rl t task region (?control h4) = ret h5"
    using inv assms(3,4) by (auto simp: task_Invoke_def run_then_eq_ret andThen_eq_ret Let_def)
  have "grows h5 (?control h4)" using task_profile_stop_runs[OF assms(8), of rl task region "?control h4"] stop by auto
  moreover have "grows (?control h4) h4" by (simp split: option.split)
  ultimately have h5: "grows h5 h4" by (rule grows_trans)
  obtain h3' promises where F: "FulfillPromises rl rs (tk_promises task) h3' = ret (promises, h4)"
    using d assms(5,6) by (auto simp: task_dispatch_def run_then_eq_ret andThen_eq_ret)
  obtain c where c: "promise_value ?p = OptionalPtr (Some c)" "optional_cells h4 c = Some v"
    using FulfillPromises_value[OF F _ assms(10) _ assms(12)] make_promise_tuple_cells[OF assms(1)] assms(11) len by auto
  have "grows h' h4"
  proof (cases "pr_type (tk_processor task) = GPU")
    case True
    then show ?thesis using l h5 by simp
  next
    case False
    then have "grows h' h5" using l foldR_grows(2)[OF assms(8,9)] by auto
    then show ?thesis using h5 grows_trans by blast
  qed
  then have "optional_cells h' c = Some v" using c(2) by (simp add: grows_def)
  moreover have "fs ! i = Future_of_optional ev (Some c)"
    using make_future_tuple_nth[OF assms(2) fits _ c(1) none] len assms(11) by simp
  ultimately show ?thesis by (simp add: Future_get_value_def Future_of_optional_def follow_simps deref_def)
qed

text \<open>
  What a named task does to the profile: it starts a range, and leaves a task behind that ends the same
  range when the task is complete. Without a precondition it is undefined behaviour, which is what naming a
  task that has nothing to wait for comes to.
\<close>

lemma named_task_stops_range:
  assumes "task_Invoke rl t nv gone del lambda task h = Some (ret (task', h'))"
    and "context_value as_region (tk_context task) = Some name"
  shows "\<exists>p r. last (trace_of h') =
    (SpawnProfileStop p (fst (StartProfileRegion nv name (profile_of h))) (tk_completion task), r)"
  using assms by (auto simp: task_Invoke_def task_profile_start_def task_profile_stop_def run_then_eq_ret andThen_eq_ret
      Let_def split: prod.splits)

lemma named_task_without_precondition:
  assumes "context_value as_region (tk_context task) = Some name" and "tk_precondition task = None"
  shows "deferred_task_launcher rl t nv gone del lambda task h = Some (fail (Undefined EmptyOptional))"
  using assms by (simp add: deferred_task_launcher_def task_Invoke_def task_profile_start_def)

lemma launch_without_arguments:
  assumes "Task_construct rl ctx ev rets [] fr w = ret (task, fr', w')"
  shows "merged_precondition (task_base_of task) = None"
  using assms by (auto simp: Task_construct_def MergePreconditions_def new_task_base_def andThen_eq_ret Let_def
      split: prod.splits if_splits)

section \<open>An example\<close>

text \<open>
  A task on a CPU that takes a child store for a reference, a view for a value and a child store to keep,
  and returns 42; whoever waits for the events 11, 12, 13 and for the control event 9 gets on.
\<close>

definition example_memory :: "nat task_memory" where
  "example_memory = \<lparr>trace_of = [], pending_ops = 0, optional_cells = \<lambda>_. None, future_cells = \<lambda>_. Future_CreateEmpty,
     next_cell = 0, value_cells = \<lambda>c. c, cuda_calls = [],
     profile_of = SetupProfiling example_nvtx no_profile\<rparr>"

definition example_child :: "event \<Rightarrow> nat \<Rightarrow> nat store" where
  "example_child u c = \<lparr>has_parent = True, parent_notification = Some u, child_rw = None, war_pre = None,
     store_value = Some c\<rparr>"

definition example_subview :: "nat view" where
  "example_subview = \<lparr>view_pre = None, war_dependency = Some 12, sub_views = [50], view_content = SharedValue (Some 6)\<rparr>"

definition example_task :: "nat task_object" where
  "example_task = \<lparr>tk_processor = \<lparr>pr_type = CPU, pr_proc = 10, local_id = 0, global_id = 0\<rparr>,
     tk_context = [(False, FieldControl 9), (False, FieldRegion ''answer'')],
     tk_promises = [\<lparr>deferred_event = None, promise_value = OptionalPtr (Some 0)\<rparr>],
     tk_arguments = [ArgStore (example_child 11 5), ArgView example_subview, ArgStore (example_child 13 7)],
     tk_targets = [ToRef, ToPlain, ToSame], tk_returns = True, tk_precondition = Some 70, tk_completion = 71\<rparr>"

definition answer :: "nat lambda" where
  "answer s ps h = ret ([ResultValue 42], map_option (\<lambda>st. st\<lparr>synced := True\<rparr>) s, ps, h)"

lemma example_runs:
  "list_all2 (argument_ready example_memory) (tk_targets example_task) (tk_arguments example_task)"
  "serves answer (tk_promises example_task)" "util_ok util_tables" "delete_ok (None :: nat deleter)"
  "region_ready example_task"
proof -
  show "serves answer (tk_promises example_task)"
    by (auto simp: serves_def answer_def result_fits_def example_task_def HasOrderingEvent_def)
qed (simp_all add: example_task_def argument_ready_def example_child_def example_subview_def store_get_def view_get_def
      util_ok_def delete_ok_def region_ready_def)

lemma example_launched:
  obtains h' where "deferred_task_launcher fresh_realm util_tables example_nvtx id None answer example_task example_memory =
    Some (ret (None, h'))"
proof -
  obtain task' h1 where "task_Invoke fresh_realm util_tables example_nvtx id None answer example_task example_memory =
      Some (ret (task', h1))"
    using task_Invoke_runs[OF example_runs, of fresh_realm example_nvtx id] by blast
  moreover obtain h' where "deferred_task_delete fresh_realm util_tables None task' h1 = ret h'"
    using task_delete_runs[OF example_runs(3,4)] by blast
  ultimately show thesis using that by (simp add: deferred_task_launcher_def example_task_def)
qed

theorem task_run_releases_witness:
  "\<exists>h'. deferred_task_launcher fresh_realm util_tables example_nvtx id None answer example_task example_memory =
       Some (ret (None, h')) \<and>
     triggered (trace_of h') 11 \<and> triggered (trace_of h') 12 \<and> triggered (trace_of h') 13 \<and> triggered (trace_of h') 9"
proof -
  have owed: "owed_by_arguments (tk_arguments example_task) = {11, 12, 13}"
    by (auto simp: owed_by_arguments_def example_task_def example_child_def example_subview_def)
  have p: "pr_type (tk_processor example_task) = CPU" "context_value as_control (tk_context example_task) = Some 9"
    by (simp_all add: example_task_def)
  show ?thesis using task_run_releases[OF example_runs, of fresh_realm example_nvtx id] by (auto simp: owed p)
qed

theorem task_results_arrive_witness:
  "\<exists>h' fs. deferred_task_launcher fresh_realm util_tables example_nvtx id None answer example_task example_memory =
       Some (ret (None, h')) \<and> make_future_tuple [ValuePromise] (tk_promises example_task) 7 = ret fs \<and>
     Future_get_value h' (fs ! 0) = Some (ret 42)"
proof -
  obtain h' where l: "deferred_task_launcher fresh_realm util_tables example_nvtx id None answer example_task example_memory =
      Some (ret (None, h'))"
    using example_launched .
  obtain h1 where m: "make_promise_tuple fresh_realm [ValuePromise] example_memory = (tk_promises example_task, h1)"
    by (simp add: CreatePromise_def create_concrete_promise_def Promise_concrete_def new_optional_def example_memory_def
        example_task_def)
  have f: "make_future_tuple [ValuePromise] (tk_promises example_task) 7 = ret [Future_of_optional 7 (Some 0)]"
    by (simp add: example_task_def CreateFuture_def create_concrete_future_def Promise_Value_def)
  obtain i s where p: "task_profile_start example_nvtx example_task example_memory = ret (i, example_memory\<lparr>profile_of := s\<rparr>)"
    using task_profile_start_runs[OF example_runs(5)] by blast
  have "list_all2 (argument_ready (example_memory\<lparr>profile_of := s\<rparr>)) (tk_targets example_task) (tk_arguments example_task)"
    using list_all2_mono[OF example_runs(1)] argument_ready_stays values_stay_profile by blast
  from resolve_tuple_ready[OF this, of id] obtain ps as h2 where
    r: "resolve_dependency_tuple id (tk_targets example_task) (tk_arguments example_task)
      (example_memory\<lparr>profile_of := s\<rparr>) = Some (ret (ps, as, h2))"
    by blast
  have "tk_returns example_task" by (simp add: example_task_def)
  from task_results_arrive[OF m f this p r _ l example_runs(3,4), of "[ResultValue 42]" None ps h2 0 42]
  show ?thesis using l f by (auto simp: answer_def)
qed

text \<open>
  A task without a processor runs on a utility processor, and there a task that is ordered by a stream gets a
  GPU's stream: without CUDA it cannot record and so never ends well.
\<close>

lemma util_stream_needs_cuda:
  "pr_type p = UTIL \<Longrightarrow> \<not> has_cuda d \<Longrightarrow> Stream_Record d (stream_for p) calls =
     fail (RuntimeError ''GpuStream::Record: cannot be called, not built with CUDA'')"
  by (simp add: stream_for_def new_stream_def Stream_Record_def DoRecord_def GpuStream_DoRecord_def)

text \<open>A record on a GPU's stream creates an event that nothing destroys.\<close>

lemma gpu_record_calls:
  assumes "GpuStream_DoRecord d [] = ret calls"
  shows "calls = [CtxsyncRequired False, CuEventCreate, CuEventRecord, CuStreamWaitEvent]"
  using assms by (auto simp: GpuStream_DoRecord_def Let_def andThen_eq_ret split: if_splits)

end
