(* ===== verification/Task_Vectors.thy ===== *)
theory Task_Vectors
  imports Tasks
begin

text \<open>
  Vectors as arguments: the specialisations of \<open>ToTaskArgument\<close> in \<open>src/zuku/store.h\<close> for vectors of stores and
  for \<open>store_variant_vector\<close>. \<open>Tasks\<close> has a vector as a run of arguments; the lemmas say that this is what the
  conversions of vectors do.
\<close>

section \<open>Vectors of stores\<close>

text \<open>
  For an \<open>rw_vector\<close> of references the task gets children, for an \<open>ro_vector\<close> views; both end with the
  task. The vector's elements are given by the numbers of the program's variables.
\<close>

definition stores_to_children ::
  "realm \<Rightarrow> event \<Rightarrow> event \<Rightarrow> nat list \<Rightarrow> 'v frame \<Rightarrow> 'z runtime_scheme \<Rightarrow>
   ('v store list \<times> 'v frame \<times> 'z runtime_scheme) res" where
  "stores_to_children rl stream effects ks fr w =
     foldR (\<lambda>(task_stored_arg, fr, w) k.
         andThen (vec_at (fr_stores fr) (int k)) (\<lambda>st.
         let (c, st', w') = store_child_on rl stream effects st w
         in ret (task_stored_arg @ [c], set_store fr k st', w')))
       ([], fr, w) ks"

definition stores_to_views ::
  "realm \<Rightarrow> event \<Rightarrow> event \<Rightarrow> nat list \<Rightarrow> 'v frame \<Rightarrow> 'z runtime_scheme \<Rightarrow>
   ('v view list \<times> 'v frame \<times> 'z runtime_scheme) res" where
  "stores_to_views rl stream effects ks fr w =
     foldR (\<lambda>(task_stored_arg, fr, w) k.
         andThen (vec_at (fr_stores fr) (int k)) (\<lambda>st.
         let (v, st', w') = store_view_on rl stream effects st w
         in ret (task_stored_arg @ [v], set_store fr k st', w')))
       ([], fr, w) ks"

lemma children_from:
  "foldR (\<lambda>(out, fr, w) k. andThen (vec_at (fr_stores fr) (int k)) (\<lambda>st.
       let (c, st', w') = store_child_on rl stream effects st w in ret (out @ [c], set_store fr k st', w')))
     (out, fr, w) ks =
   andThen (StoreArgsAndSetPostcondition rl stream effects (map (\<lambda>k. (True, Write k)) ks) fr w)
     (\<lambda>(ss, fr', w'). ret (out @ concat (map (\<lambda>(b, s). case s of StoredStore c \<Rightarrow> [c] | _ \<Rightarrow> []) ss), fr', w'))"
proof (induction ks arbitrary: out fr w)
  case (Cons k ks)
  show ?case
  proof (cases "vec_at (fr_stores fr) (int k)")
    case (Inr st)
    obtain c st' w' where "store_child_on rl stream effects st w = (c, st', w')" by (cases "store_child_on rl stream effects st w") auto
    then show ?thesis using Inr Cons.IH[of "out @ [c]" "set_store fr k st'" w']
      by (simp add: ToTaskArgument_def andThen_assoc split_beta)
  qed (simp add: ToTaskArgument_def)
qed simp

lemma views_from:
  "foldR (\<lambda>(out, fr, w) k. andThen (vec_at (fr_stores fr) (int k)) (\<lambda>st.
       let (v, st', w') = store_view_on rl stream effects st w in ret (out @ [v], set_store fr k st', w')))
     (out, fr, w) ks =
   andThen (StoreArgsAndSetPostcondition rl stream effects (map (\<lambda>k. (True, Read k)) ks) fr w)
     (\<lambda>(ss, fr', w'). ret (out @ concat (map (\<lambda>(b, s). case s of StoredView v \<Rightarrow> [v] | _ \<Rightarrow> []) ss), fr', w'))"
proof (induction ks arbitrary: out fr w)
  case (Cons k ks)
  show ?case
  proof (cases "vec_at (fr_stores fr) (int k)")
    case (Inr st)
    obtain v st' w' where "store_view_on rl stream effects st w = (v, st', w')" by (cases "store_view_on rl stream effects st w") auto
    then show ?thesis using Inr Cons.IH[of "out @ [v]" "set_store fr k st'" w']
      by (simp add: ToTaskArgument_def andThen_assoc split_beta)
  qed (simp add: ToTaskArgument_def)
qed simp

text \<open>A vector is converted exactly as the run of its elements is.\<close>

lemma stores_to_children_run:
  "stores_to_children rl stream effects ks fr w =
   andThen (StoreArgsAndSetPostcondition rl stream effects (map (\<lambda>k. (True, Write k)) ks) fr w)
     (\<lambda>(ss, fr', w'). ret (concat (map (\<lambda>(b, s). case s of StoredStore c \<Rightarrow> [c] | _ \<Rightarrow> []) ss), fr', w'))"
  unfolding stores_to_children_def by (subst children_from) simp

lemma stores_to_views_run:
  "stores_to_views rl stream effects ks fr w =
   andThen (StoreArgsAndSetPostcondition rl stream effects (map (\<lambda>k. (True, Read k)) ks) fr w)
     (\<lambda>(ss, fr', w'). ret (concat (map (\<lambda>(b, s). case s of StoredView v \<Rightarrow> [v] | _ \<Rightarrow> []) ss), fr', w'))"
  unfolding stores_to_views_def by (subst views_from) simp

text \<open>
  The specialisations by what is passed and what the function takes. Half of them are \<open>None\<close>, because
  they do not compile when they are used: a constant vector and an \<open>ro_vector\<close> give constant elements,
  of which no view can be made, the overloads that forward to another one name it for \<open>T\<close> instead of
  \<open>Store<T>\<close>, and the one for an \<open>ro_vector\<close> rvalue takes an \<open>rw_vector\<close>.
\<close>

datatype vector_overload =
    VectorToRw | ConstVectorToRo | VectorToRo | RoVectorRefToRo | RoVectorToRo | RwVectorRefToRo | RwVectorToRo
  | RwVectorRefToRw | RwVectorToRw | VectorToConstRo

datatype 'v stored_vector = StoredStores "'v store list" | StoredViews "'v view list"

definition vector_ToTaskArgument ::
  "realm \<Rightarrow> event \<Rightarrow> event \<Rightarrow> vector_overload \<Rightarrow> nat list \<Rightarrow> 'v frame \<Rightarrow> 'z runtime_scheme \<Rightarrow>
   ('v stored_vector \<times> 'v frame \<times> 'z runtime_scheme) res option" where
  "vector_ToTaskArgument rl stream effects overload ks fr w =
     (let children = Some (andThen (stores_to_children rl stream effects ks fr w)
            (\<lambda>(cs, fr', w'). ret (StoredStores cs, fr', w')));
          views = Some (andThen (stores_to_views rl stream effects ks fr w)
            (\<lambda>(vs, fr', w'). ret (StoredViews vs, fr', w')))
      in case overload of
           VectorToRw \<Rightarrow> children
         | ConstVectorToRo \<Rightarrow> None
         | VectorToRo \<Rightarrow> None
         | RoVectorRefToRo \<Rightarrow> None
         | RoVectorToRo \<Rightarrow> None
         | RwVectorRefToRo \<Rightarrow> views
         | RwVectorToRo \<Rightarrow> views
         | RwVectorRefToRw \<Rightarrow> children
         | RwVectorToRw \<Rightarrow> children
         | VectorToConstRo \<Rightarrow> None)"

text \<open>
  Every vector that can be passed is written or read element by element, so it orders tasks as its elements
  do: whoever is given an \<open>rw_vector\<close> is a writer of each store in it, otherwise a reader.
\<close>

lemma vector_ToTaskArgument_run:
  assumes "vector_ToTaskArgument rl stream effects overload ks fr w = Some (ret (vec, fr', w'))"
  shows "\<exists>ss. StoreArgsAndSetPostcondition rl stream effects
      (map (\<lambda>k. (True, if overload \<in> {VectorToRw, RwVectorRefToRw, RwVectorToRw} then Write k else Read k)) ks) fr w =
      ret (ss, fr', w')"
  using assms
  by (cases overload) (auto simp: vector_ToTaskArgument_def stores_to_children_run stores_to_views_run andThen_eq_ret)

section \<open>Vectors of stores and views\<close>

text \<open>
  A \<open>store_variant_vector\<close> holds references to stores and views of the program and stores and views of its
  own, and is always read: every element ends as a view. What is moved or changed in the vector is
  left in it for its destructor.
\<close>

datatype 'v variant_entry = StoreRef nat | ViewRef nat | OwnView "'v view" | OwnStore "'v store"

type_synonym 'v store_variant_vector = "'v variant_entry list"

definition variant_push_back :: "'v variant_entry \<Rightarrow> 'v store_variant_vector \<Rightarrow> 'v store_variant_vector" where
  \<comment> \<open>the four overloads\<close>
  "variant_push_back x values = values @ [x]"

definition variant_index :: "'v store_variant_vector \<Rightarrow> int \<Rightarrow> 'v variant_entry res" where
  "variant_index values idx = vec_at values idx"

definition variant_to_view ::
  "realm \<Rightarrow> event \<Rightarrow> event \<Rightarrow> 'v variant_entry \<Rightarrow> 'v frame \<Rightarrow> 'z runtime_scheme \<Rightarrow>
   ('v view \<times> 'v variant_entry \<times> 'v frame \<times> 'z runtime_scheme) res" where
  \<comment> \<open>the visitor\<close>
  "variant_to_view rl stream effects x fr w = (case x of
     StoreRef k \<Rightarrow> andThen (vec_at (fr_stores fr) (int k)) (\<lambda>st.
       let (v, st', w') = store_view_on rl stream effects st w in ret (v, x, set_store fr k st', w'))
   | ViewRef k \<Rightarrow> andThen (vec_at (fr_views fr) (int k)) (\<lambda>v.
       let (sub, v') = view_view_on effects v in ret (sub, x, set_view fr k v', w))
   | OwnView v \<Rightarrow> (let (v1, v2) = view_move v in ret (v1, OwnView v2, fr, w))
   | OwnStore st \<Rightarrow> (let (v, st', w') = store_view_on rl stream effects st w in ret (v, OwnStore st', fr, w')))"

definition variants_to_views ::
  "realm \<Rightarrow> event \<Rightarrow> event \<Rightarrow> 'v store_variant_vector \<Rightarrow> 'v frame \<Rightarrow> 'z runtime_scheme \<Rightarrow>
   ('v view list \<times> 'v store_variant_vector \<times> 'v frame \<times> 'z runtime_scheme) res" where
  "variants_to_views rl stream effects stores fr w =
     foldR (\<lambda>(task_stored_arg, left, fr, w) x.
         andThen (variant_to_view rl stream effects x fr w) (\<lambda>(v, x', fr', w').
         ret (task_stored_arg @ [v], left @ [x'], fr', w')))
       ([], [], fr, w) stores"

text \<open>A vector of references to stores only is converted as an \<open>ro_vector\<close> of them.\<close>

lemma variants_from:
  "foldR (\<lambda>(out, left, fr, w) x. andThen (variant_to_view rl stream effects x fr w) (\<lambda>(v, x', fr', w').
       ret (out @ [v], left @ [x'], fr', w'))) (out, left, fr, w) (map StoreRef ks) =
   andThen (foldR (\<lambda>(out, fr, w) k. andThen (vec_at (fr_stores fr) (int k)) (\<lambda>st.
       let (v, st', w') = store_view_on rl stream effects st w in ret (out @ [v], set_store fr k st', w')))
     (out, fr, w) ks) (\<lambda>(vs, fr', w'). ret (vs, left @ map StoreRef ks, fr', w'))"
proof (induction ks arbitrary: out left fr w)
  case (Cons k ks)
  show ?case
  proof (cases "vec_at (fr_stores fr) (int k)")
    case (Inr st)
    obtain v st' w' where "store_view_on rl stream effects st w = (v, st', w')"
      by (cases "store_view_on rl stream effects st w") auto
    then show ?thesis using Inr Cons.IH[of "out @ [v]" "left @ [StoreRef k]" "set_store fr k st'" w']
      by (simp add: variant_to_view_def)
  qed (simp add: variant_to_view_def)
qed simp

lemma variants_of_stores:
  "variants_to_views rl stream effects (map StoreRef ks) fr w =
   andThen (stores_to_views rl stream effects ks fr w) (\<lambda>(vs, fr', w'). ret (vs, map StoreRef ks, fr', w'))"
  unfolding variants_to_views_def stores_to_views_def by (subst variants_from) simp

end
