(* ===== verification/Tile_Bounds.thy ===== *)
theory Tile_Bounds
  imports Tiles
begin

text \<open>
  What the tile arithmetic of \<open>src/zuku/tiled_array.cc\<close> guarantees: \<open>ComputeTileShard\<close> inverts
  \<open>ComputeTileIndex\<close> for row-major shardings, \<open>ComputeTileBounds\<close> returns the box of the
  specification, and the boxes of the shards cover every array element as often as the sharding
  replicates it.
\<close>

section \<open>Shard numbers of tile indices\<close>

lemma device_order_row_major:
  assumes "row_major s"
  shows "device_order (sh_dims s) = map dim_sharding (sh_dims s)"
proof -
  let ?ds = "sh_dims s"
  have perm: "dim_permutation (?ds ! j) = int j" if "j < length ?ds" for j
    using assms that by (simp add: row_major_def)
  have "order_ok ?ds"
    using perm by (auto simp: order_ok_def distinct_conv_nth in_set_conv_nth)
  from device_order_nth[OF this] perm show ?thesis
    by (intro nth_equalityI) auto
qed

lemma tile_index_row_major:
  assumes "row_major s"
  shows "tile_index r s = radix_digits (map dim_sharding (sh_dims s)) r"
  using assms
  by (intro nth_equalityI) (auto simp: tile_index_nth device_order_row_major row_major_def)

lemma radix_take_le:
  assumes "in_radix es ds" and "pos_radix es" and "k < length es"
  shows "0 \<le> radix_value (take k es) (take k ds) * es ! k"
    and "radix_value (take k es) (take k ds) * es ! k + ds ! k < prod_list es"
proof -
  have ds: "length ds = length es" using assms(1) by (rule in_radix_length)
  have v: "0 \<le> radix_value (take k es) (take k ds)"
    using radix_value_range[OF in_radix_take[OF assms(1)]] by simp
  have e: "1 \<le> es ! k" using assms(2,3) by (simp add: pos_radix_def)
  show "0 \<le> radix_value (take k es) (take k ds) * es ! k" using v e by simp
  have "radix_value (take k es) (take k ds) * es ! k + ds ! k =
      radix_value (take (Suc k) es) (take (Suc k) ds)"
    using assms(3) ds by (simp add: take_Suc_conv_app_nth radix_value_snoc)
  also have "\<dots> < prod_list (take (Suc k) es)"
    using radix_value_range[OF in_radix_take[OF assms(1)]] by simp
  also have "prod_list (take (Suc k) es) \<le> prod_list (take (Suc k) es) * prod_list (drop (Suc k) es)"
    using assms(2) pos_radix_prod[OF pos_radix_take[OF assms(2), of "Suc k"]]
      pos_radix_prod[OF pos_radix_drop[OF assms(2), of "Suc k"]]
    by (intro le_mult_ge1) auto
  also have "\<dots> = prod_list es"
    by (metis append_take_drop_id prod_list.append)
  finally show "radix_value (take k es) (take k ds) * es ! k + ds ! k < prod_list es" .
qed

lemma ComputeTileShard_ok:
  assumes s: "sharding_ok s" and idx: "index_in_range s idx"
  shows "ComputeTileShard idx s = ret (radix_value (map dim_sharding (sh_dims s)) idx)"
proof (cases "idx = []")
  case True
  then show ?thesis by (cases "map dim_sharding (sh_dims s)") (simp_all add: ComputeTileShard_def)
next
  case False
  let ?es = "map dim_sharding (sh_dims s)"
  have ir: "in_radix ?es idx" using idx by (simp add: index_in_range_def)
  have len: "length idx = length ?es" using ir by (rule in_radix_length)
  have pos: "pos_radix ?es" using s by (auto simp: pos_radix_def dest!: sharding_ok_dim dim_ok_ge1)
  have max: "prod_list ?es \<le> int64_max"
    using devices_ok[OF s] by (simp add: sharding_ok_devices[OF s])
  let ?f = "\<lambda>index dim.
            andThen (vec_at (sh_dims s) dim) (\<lambda>d.
            andThen (mul64 index (dim_sharding d)) (\<lambda>scaled.
            andThen (vec_at idx dim) (\<lambda>i. add64 scaled i)))"
  let ?I = "\<lambda>k v. v = radix_value (take k ?es) (take k idx)"
  obtain i0 idx1 e0 es where i0: "idx = i0 # idx1" "?es = e0 # es"
    using False len by (cases idx; cases ?es) auto
  have "\<exists>v. foldR ?f i0 (map int [1..<length idx]) = ret v \<and> ?I (length idx) v"
  proof (rule foldR_upt)
    show "?I 1 i0" using i0 by simp
    show "1 \<le> length idx" using False by (simp add: Suc_le_eq)
    fix k v assume k: "1 \<le> k" "k < length idx" and v: "?I k v"
    have k': "k < length ?es" using k len by simp
    have d: "0 \<le> idx ! k" using ir k' by (simp add: in_radix_nth)
    have "mul64 v (?es ! k) = ret (v * ?es ! k)"
      using radix_take_le[OF ir pos k'] max d unfolding v
      by (intro mul64_ok int64_okI) linarith+
    moreover have "add64 (v * ?es ! k) (idx ! k) = ret (v * ?es ! k + idx ! k)"
      using radix_take_le[OF ir pos k'] max d unfolding v
      by (intro add64_ok int64_okI) linarith+
    moreover have "v * ?es ! k + idx ! k = radix_value (take (Suc k) ?es) (take (Suc k) idx)"
      using k k' len v by (simp add: take_Suc_conv_app_nth radix_value_snoc)
    ultimately show "\<exists>v'. ?f v (int k) = ret v' \<and> ?I (Suc k) v'"
      using k k' by (simp add: vec_at_nth)
  qed
  then have loop: "foldR ?f i0 (map int [1..<length idx]) = ret (radix_value ?es idx)"
    using len by (auto simp del: upt_Suc)
  have "vec_at idx 0 = ret i0" using i0(1) by (simp add: vec_at_def)
  then show ?thesis using False loop by (simp only: ComputeTileShard_def if_False andThen.simps)
qed

text \<open>
  C14. For a row-major sharding \<open>ComputeTileShard\<close> and \<open>ComputeTileIndex\<close> are inverse: from a
  shard number through the index back to the number, and from an index in range through the
  number back to the index.
\<close>

theorem tile_shard_roundtrip:
  assumes "sharding_ok s" and "row_major s"
  shows "(\<forall>r. 0 \<le> r \<and> r < dl_size (sh_devices s) \<longrightarrow>
            andThen (ComputeTileIndex r s) (\<lambda>idx. ComputeTileShard idx s) = ret r) \<and>
         (\<forall>idx. index_in_range s idx \<longrightarrow>
            andThen (ComputeTileShard idx s) (\<lambda>r. ComputeTileIndex r s) = ret idx)"
proof (intro conjI allI impI)
  let ?es = "map dim_sharding (sh_dims s)"
  have pos: "pos_radix ?es" and prod: "prod_list ?es = dl_size (sh_devices s)"
    using pos_radix_device_order[OF assms(1)] prod_device_order_devices[OF assms(1)]
    by (simp_all add: device_order_row_major[OF assms(2)])
  show "andThen (ComputeTileIndex r s) (\<lambda>idx. ComputeTileShard idx s) = ret r"
    if "0 \<le> r \<and> r < dl_size (sh_devices s)" for r
  proof -
    have "ComputeTileShard (tile_index r s) s = ret (radix_value ?es (tile_index r s))"
      using that assms by (intro ComputeTileShard_ok tile_index_in_range) auto
    then show ?thesis
      using that assms pos prod
      by (simp add: ComputeTileIndex_ok tile_index_row_major radix_value_digits)
  qed
  show "andThen (ComputeTileShard idx s) (\<lambda>r. ComputeTileIndex r s) = ret idx"
    if "index_in_range s idx" for idx
  proof -
    have "in_radix ?es idx" using that by (simp add: index_in_range_def)
    from radix_value_range[OF this] radix_digits_value[OF this] prod show ?thesis
      using ComputeTileShard_ok[OF assms(1) that] assms
      by (simp add: ComputeTileIndex_ok tile_index_row_major)
  qed
qed

definition example_row_major :: sharding where
  "example_row_major = \<lparr>sh_dims =
     [\<lparr>dim_size = 8, dim_sharding = 2, dim_permutation = 0\<rparr>,
      \<lparr>dim_size = 9, dim_sharding = 3, dim_permutation = 1\<rparr>,
      \<lparr>dim_size = 1, dim_sharding = 4, dim_permutation = 2\<rparr>],
     sh_devices = dl_ctor 0 24\<rparr>"

lemma example_row_major_ok: "sharding_ok example_row_major"
  by (simp add: sharding_ok_def example_row_major_def dim_ok_def is_repl_dim_def size_of_def
      elements_def device_list_ok_def dl_defs int64_max_def)

lemma example_row_major: "row_major example_row_major"
  by (simp add: row_major_def example_row_major_def less_Suc_eq numeral_3_eq_3 all_conj_distrib)

theorem tile_shard_roundtrip_witness:
  "andThen (ComputeTileIndex 17 example_row_major) (\<lambda>idx. ComputeTileShard idx example_row_major)
     = ret 17"
proof -
  have "(0 :: int) \<le> 17 \<and> 17 < dl_size (sh_devices example_row_major)"
    by (simp add: example_row_major_def dl_defs)
  then show ?thesis
    using tile_shard_roundtrip[OF example_row_major_ok example_row_major] by blast
qed

text \<open>
  \<open>ComputeTileShard\<close> never reads the dimensions' positions in the device order. For two
  dimensions in column-major order, shard 1 holds the tile (1, 0), and that index comes back as
  shard 2.
\<close>

lemma tile_shard_ignores_permutation:
  "let s = \<lparr>sh_dims = [\<lparr>dim_size = 4, dim_sharding = 2, dim_permutation = 1\<rparr>,
                      \<lparr>dim_size = 4, dim_sharding = 2, dim_permutation = 0\<rparr>],
             sh_devices = dl_ctor 0 4\<rparr>
   in ComputeTileIndex 1 s = ret [1, 0] \<and> ComputeTileShard [1, 0] s = ret 2"
  by (simp add: ComputeTileIndex_def ComputeTileShard_def unpermute_dims_def tile_index_step_def
      vec_at_def vec_set_def size_of_def upto64_def arith64_defs chk_def int64_ok_def
      int64_min_def int64_max_def signed_divide_int_def numeral_2_eq_2 Let_def)

section \<open>Bounds\<close>

lemma tile_spans_simps [simp]:
  "tile_spans [] idx = []" "tile_spans ds [] = []"
  "tile_spans (d # ds) (i # is) =
     (if is_repl_dim d then tile_spans ds is else tile_span d i # tile_spans ds is)"
  by (simp_all add: tile_spans_def)

lemma tile_spans_snoc:
  "length ds = length idx \<Longrightarrow> tile_spans (ds @ [d]) (idx @ [i]) =
     (if is_repl_dim d then tile_spans ds idx else tile_spans ds idx @ [tile_span d i])"
  by (simp add: tile_spans_def)

lemma length_tile_spans:
  "length ds = length idx \<Longrightarrow> length (tile_spans ds idx) = length (real_dims ds)"
  by (induction ds idx rule: list_induct2) simp_all

definition spans_rect :: "nat \<Rightarrow> (int \<times> int) list \<Rightarrow> rect" where
  "spans_rect n xs = \<lparr>rect_rank = n, rect_lo = map fst xs, rect_hi = map snd xs\<rparr>"

lemma rect_push_spans:
  "length xs < n \<Longrightarrow> rect_push (spans_rect n xs) l h = ret (spans_rect n (xs @ [(l, h)]))"
  by (simp add: rect_push_def spans_rect_def)

lemma new_rect_spans: "new_rect n = spans_rect n []"
  by (simp add: new_rect_def spans_rect_def)

lemma dim_size_int64:
  assumes "sharding_ok s" and "d \<in> set (sh_dims s)"
  shows "dim_size d \<le> int64_max"
proof -
  have "dim_size d \<le> prod_list (map dim_size (sh_dims s))"
    using assms by (intro prod_list_member_le) (auto dest: sharding_ok_dim dim_ok_ge1)
  then show ?thesis using sharding_ok_elements[OF assms(1)] by (simp add: elements_def)
qed

lemma tile_extent_end:
  assumes "dim_ok d" and "\<not> is_repl_dim d" and "0 \<le> i" and "i < dim_sharding d"
  shows "0 \<le> dim_size d div dim_sharding d * i"
    and "dim_size d div dim_sharding d * i + dim_size d div dim_sharding d \<le> dim_size d"
    and "1 \<le> dim_size d div dim_sharding d * i + dim_size d div dim_sharding d"
proof -
  let ?e = "dim_size d div dim_sharding d"
  have e: "1 \<le> ?e" using assms by (intro real_dim_tile_ge1)
  show "0 \<le> ?e * i" using e assms by simp
  then show "1 \<le> ?e * i + ?e" using e by linarith
  have "?e * i + ?e = ?e * (i + 1)" by (simp add: algebra_simps)
  also have "\<dots> \<le> ?e * dim_sharding d" using e assms by (intro mult_left_mono) auto
  also have "\<dots> = dim_size d" using real_dim_mult[OF assms(1,2)] by (simp add: mult.commute)
  finally show "?e * i + ?e \<le> dim_size d" .
qed

lemma ComputeTileBoundsN_ok:
  assumes s: "sharding_ok s" and r: "0 \<le> r" "r < dl_size (sh_devices s)"
    and n: "n = max 1 (length (real_dims (sh_dims s)))"
  shows "ComputeTileBoundsN n r s = ret (tile_box r s)"
proof (cases "sh_dims s = [] \<or> (length (sh_dims s) = 1 \<and> dim_size (hd (sh_dims s)) = 1)")
  case True
  then consider "sh_dims s = []" | d where "sh_dims s = [d]" "dim_size d = 1"
    by (cases "sh_dims s") auto
  then show ?thesis
  proof cases
    case 1
    then show ?thesis using n
      by (auto simp: ComputeTileBoundsN_def tile_box_def box_of_def rect_push_def new_rect_def)
  next
    case (2 d)
    have "tile_index r s = [radix_digits (device_order (sh_dims s)) r ! nat (dim_permutation d)]"
      using 2 by (simp add: tile_index_def)
    moreover have "index_in_range s (tile_index r s)" using assms by (intro tile_index_in_range)
    moreover have "dim_sharding d = 1" if "\<not> is_repl_dim d"
      using that size1_real[of d] sharding_ok_dim[OF s, of d] 2 by simp
    ultimately show ?thesis using n 2
      by (auto simp: ComputeTileBoundsN_def tile_box_def box_of_def rect_push_def new_rect_def
          index_in_range_def tile_span_def)
  qed
next
  case False
  let ?ds = "sh_dims s" and ?idx = "tile_index r s"
  have real: "length (real_dims ?ds) = n"
  proof (rule ccontr)
    assume "length (real_dims ?ds) \<noteq> n"
    then have none: "real_dims ?ds = []" using n by (cases "real_dims ?ds") auto
    then have "filter is_repl_dim ?ds = ?ds"
      by (simp add: filter_empty_conv filter_id_conv)
    then have "length ?ds \<le> 1" using sharding_ok_repl[OF s] by simp
    with False none show False by (cases ?ds) (auto simp: is_repl_dim_def split: if_splits)
  qed
  have pos: "pos_radix (map dim_sharding ?ds)"
    using s by (auto simp: pos_radix_def dest!: sharding_ok_dim dim_ok_ge1)
  have prod: "prod_list (map dim_sharding ?ds) = dl_size (sh_devices s)"
    by (rule sharding_ok_devices[OF s])
  have dev: "1 \<le> dl_size (sh_devices s)" using pos_radix_prod[OF pos] prod by simp
  have stride: "foldR mul64 1 (map dim_sharding ?ds) = ret (dl_size (sh_devices s))"
    using stride_loop_ok[OF pos] prod devices_ok[OF s] by simp
  have repl: "div64 (dl_size (sh_devices s)) (dl_size (sh_devices s)) = ret 1"
    using dev devices_ok[OF s] by (simp add: div64_ok int64_okI)
  have shard: "div64 r 1 = ret r" using r devices_ok[OF s] by (simp add: div64_ok int64_okI)
  have idx: "in_radix (map dim_sharding ?ds) ?idx"
    using tile_index_in_range[OF s r] by (simp add: index_in_range_def)
  let ?f = "\<lambda>rect dim.
            andThen (vec_at ?ds dim) (\<lambda>d.
            if dim_size d = 1 \<and> dim_sharding d > 1 then ret rect
            else
              andThen (div64 (dim_size d) (dim_sharding d)) (\<lambda>tile_extent.
              andThen (vec_at ?idx dim) (\<lambda>i.
              andThen (mul64 tile_extent i) (\<lambda>start.
              andThen (add64 start tile_extent) (\<lambda>past.
              andThen (sub64 past 1) (\<lambda>stop.
              rect_push rect start stop))))))"
  let ?I = "\<lambda>k rect. rect = spans_rect n (tile_spans (take k ?ds) (take k ?idx))"
  have "\<exists>rect. foldR ?f (new_rect n) (upto64 (int (length ?ds))) = ret rect \<and>
      ?I (length ?ds) rect"
  proof (rule foldR_upto64[where I = ?I])
    show "?I 0 (new_rect n)" by (simp add: new_rect_spans)
    fix k rect assume k: "k < length ?ds" and I: "?I k rect"
    let ?d = "?ds ! k"
    have d: "dim_ok ?d" using sharding_ok_dim[OF s] k by simp
    have snoc: "tile_spans (take (Suc k) ?ds) (take (Suc k) ?idx) =
        (if is_repl_dim ?d then tile_spans (take k ?ds) (take k ?idx)
         else tile_spans (take k ?ds) (take k ?idx) @ [tile_span ?d (?idx ! k)])"
      using k by (simp add: take_Suc_conv_app_nth tile_spans_snoc)
    show "\<exists>rect'. ?f rect (int k) = ret rect' \<and> ?I (Suc k) rect'"
    proof (cases "is_repl_dim ?d")
      case True
      then show ?thesis using k I snoc by (simp add: vec_at_nth is_repl_dim_def)
    next
      case nr: False
      have i: "0 \<le> ?idx ! k" "?idx ! k < dim_sharding ?d" using idx k by (auto simp: in_radix_nth)
      note e = tile_extent_end[OF d nr i]
      have size: "dim_size ?d \<le> int64_max" using s k by (intro dim_size_int64) auto
      have "length (real_dims (take k ?ds)) < length (real_dims ?ds)"
        using nr k by (subst (2) id_take_nth_drop[OF k]) simp
      then have room: "length (tile_spans (take k ?ds) (take k ?idx)) < n"
        using k real by (simp add: length_tile_spans)
      have "div64 (dim_size ?d) (dim_sharding ?d) = ret (dim_size ?d div dim_sharding ?d)"
        using dim_ok_ge1[OF d] size by (intro div64_ok int64_okI) auto
      moreover have "mul64 (dim_size ?d div dim_sharding ?d) (?idx ! k) =
          ret (dim_size ?d div dim_sharding ?d * ?idx ! k)"
        using e size real_dim_tile_ge1[OF d nr] by (intro mul64_ok int64_okI) linarith+
      moreover have "add64 (dim_size ?d div dim_sharding ?d * ?idx ! k)
            (dim_size ?d div dim_sharding ?d) =
          ret (dim_size ?d div dim_sharding ?d * ?idx ! k + dim_size ?d div dim_sharding ?d)"
        using e size by (intro add64_ok int64_okI) linarith+
      moreover have "sub64 (dim_size ?d div dim_sharding ?d * ?idx ! k +
            dim_size ?d div dim_sharding ?d) 1 =
          ret (dim_size ?d div dim_sharding ?d * ?idx ! k + dim_size ?d div dim_sharding ?d - 1)"
        using e size by (intro sub64_ok int64_okI) linarith+
      ultimately show ?thesis
        using k I nr snoc rect_push_spans[OF room]
        by (simp add: vec_at_nth is_repl_dim_def[symmetric] tile_span_def Let_def)
    qed
  qed
  then have loop: "foldR ?f (new_rect n) (upto64 (size_of ?ds)) =
      ret (spans_rect n (tile_spans ?ds ?idx))"
    by (simp add: size_of_def)
  have "tile_spans ?ds ?idx \<noteq> []"
    using real n length_tile_spans[of ?ds ?idx] by (cases "tile_spans ?ds ?idx") auto
  then have "tile_box r s = spans_rect n (tile_spans ?ds ?idx)"
    using real by (simp add: tile_box_def box_of_def spans_rect_def length_tile_spans)
  moreover have "ComputeTileIndex r s = ret ?idx" by (rule ComputeTileIndex_ok[OF s r])
  ultimately show ?thesis
    unfolding ComputeTileBoundsN_def using False loop stride repl shard
    by (simp only: if_False andThen.simps)
qed

definition rank_supported :: "int \<Rightarrow> sharding \<Rightarrow> bool" where
  "rank_supported max_dim s \<longleftrightarrow>
     (let n = length (real_dims (sh_dims s)) in n \<le> 4 \<or> (n = 5 \<and> 5 \<le> max_dim))"

lemma ComputeTileBounds_ok:
  assumes s: "sharding_ok s" and r: "0 \<le> r" "r < dl_size (sh_devices s)"
    and n: "rank_supported max_dim s"
  shows "ComputeTileBounds max_dim r s = ret (tile_box r s)"
proof -
  define n where "n = length (real_dims (sh_dims s))"
  have "n \<le> 4 \<or> (n = 5 \<and> 5 \<le> max_dim)"
    using assms(4) unfolding rank_supported_def n_def Let_def .
  then have "n = 0 \<or> n = 1 \<or> n = 2 \<or> n = 3 \<or> n = 4 \<or> (n = 5 \<and> 5 \<le> max_dim)"
    by linarith
  moreover note ComputeTileBoundsN_ok[OF s r, of "max 1 n", unfolded n_def, OF refl, folded n_def]
  ultimately show ?thesis
    by (auto simp: numeral_2_eq_2[symmetric] ComputeTileBounds_def NumRealDims_ok[OF s] n_def[symmetric])
qed

text \<open>The number of points of a box of spans: the product of their lengths.\<close>

lemma ComputeRealmShapeSize_spans:
  assumes ge1: "\<And>lo hi. (lo, hi) \<in> set xs \<Longrightarrow> 0 \<le> lo \<and> lo \<le> hi \<and> hi < int64_max"
    and max: "prod_list (map (\<lambda>(lo, hi). hi - lo + 1) xs) \<le> int64_max"
  shows "ComputeRealmShapeSize (spans_rect (length xs) xs) =
    ret (prod_list (map (\<lambda>(lo, hi). hi - lo + 1) xs))"
proof -
  let ?ext = "\<lambda>i. case xs ! nat i of (lo, hi) \<Rightarrow> hi - lo + 1"
  have map: "map ?ext (upto64 (int (length xs))) = map (\<lambda>(lo, hi). hi - lo + 1) xs"
    by (intro nth_equalityI) auto
  have "foldR (\<lambda>size i.
       andThen (vec_at (map snd xs) i) (\<lambda>h.
       andThen (vec_at (map fst xs) i) (\<lambda>l.
       andThen (sub64 h l) (\<lambda>d.
       andThen (add64 d 1) (\<lambda>extent. mul64 size extent)))))
       1 (upto64 (int (length xs))) = ret (1 * prod_list (map ?ext (upto64 (int (length xs)))))"
  proof (rule foldR_product[where g = ?ext])
    fix acc i assume i: "i \<in> set (upto64 (int (length xs)))" and acc: "1 \<le> acc"
      and le: "acc * ?ext i \<le> int64_max"
    obtain lo hi where x: "xs ! nat i = (lo, hi)" by (cases "xs ! nat i")
    have "(lo, hi) \<in> set xs" using i x nth_mem[of "nat i" xs] by auto
    with ge1 have lh: "0 \<le> lo" "lo \<le> hi" "hi < int64_max" by blast+
    have "sub64 hi lo = ret (hi - lo)" "add64 (hi - lo) 1 = ret (hi - lo + 1)"
      using lh by (auto intro!: sub64_ok add64_ok int64_okI)
    moreover have "mul64 acc (hi - lo + 1) = ret (acc * (hi - lo + 1))"
      using acc le lh x by (intro mul64_ge1) auto
    ultimately show "andThen (vec_at (map snd xs) i) (\<lambda>h.
       andThen (vec_at (map fst xs) i) (\<lambda>l.
       andThen (sub64 h l) (\<lambda>d.
       andThen (add64 d 1) (\<lambda>extent. mul64 acc extent)))) = ret (acc * ?ext i)"
      using i x by (simp add: vec_at_def nat_less_iff)
  next
    fix i assume i: "i \<in> set (upto64 (int (length xs)))"
    obtain lo hi where x: "xs ! nat i = (lo, hi)" by (cases "xs ! nat i")
    have "(lo, hi) \<in> set xs" using i x nth_mem[of "nat i" xs] by auto
    with ge1 x show "1 \<le> ?ext i \<and> ?ext i \<le> ?ext i" by force
  qed (use max map in auto)
  then show ?thesis by (simp add: ComputeRealmShapeSize_def spans_rect_def map)
qed

lemma tile_span_mem:
  assumes "(lo, hi) \<in> set (tile_spans ds idx)" and "in_radix (map dim_sharding ds) idx"
    and "\<And>d. d \<in> set ds \<Longrightarrow> dim_ok d"
  shows "\<exists>d \<in> set ds. 0 \<le> lo \<and> lo \<le> hi \<and> hi < dim_size d"
  using assms
proof (induction ds arbitrary: idx)
  case (Cons d ds)
  then obtain i js where idx: "idx = i # js" "0 \<le> i" "i < dim_sharding d"
    "in_radix (map dim_sharding ds) js" by auto
  show ?case
  proof (cases "(lo, hi) \<in> set (tile_spans ds js)")
    case True
    then show ?thesis using Cons.IH[of js] Cons.prems(3) idx by auto
  next
    case False
    then have nr: "\<not> is_repl_dim d" and t: "(lo, hi) = tile_span d i"
      using Cons.prems(1) idx by (auto split: if_splits)
    have ok: "dim_ok d" using Cons.prems(3) by simp
    have "0 \<le> lo \<and> lo \<le> hi \<and> hi < dim_size d"
      using tile_extent_end[OF ok nr idx(2,3)] real_dim_tile_ge1[OF ok nr] t
      by (auto simp: tile_span_def Let_def)
    then show ?thesis by auto
  qed
qed simp

lemma tile_spans_size:
  "in_radix (map dim_sharding ds) idx \<Longrightarrow>
   map (\<lambda>(lo, hi). hi - lo + 1) (tile_spans ds idx) =
   map (\<lambda>d. dim_size d div dim_sharding d) (real_dims ds)"
  by (induction ds arbitrary: idx) (auto simp: tile_span_def Let_def)

lemma tile_box_size:
  assumes s: "sharding_ok s" and r: "0 \<le> r" "r < dl_size (sh_devices s)"
  shows "ComputeRealmShapeSize (tile_box r s) = ret (tile_elements s)"
proof -
  let ?xs = "tile_spans (sh_dims s) (tile_index r s)"
  have idx: "in_radix (map dim_sharding (sh_dims s)) (tile_index r s)"
    using tile_index_in_range[OF assms] by (simp add: index_in_range_def)
  show ?thesis
  proof (cases "?xs = []")
    case True
    then have "real_dims (sh_dims s) = []"
      using length_tile_spans[of "sh_dims s" "tile_index r s"] by simp
    then show ?thesis using True
      by (simp add: tile_box_def box_of_def ComputeRealmShapeSize_def tile_elements_def upto64_def
          vec_at_def arith64_defs chk_def)
  next
    case False
    have le: "tile_elements s \<le> int64_max"
    proof -
      have "tile_elements s \<le> tile_elements s * tiles s"
        using tile_elements_ge1[OF s] tiles_ge1[OF s] by (intro le_mult_ge1) auto
      then show ?thesis
        using tiles_times_elements[OF s] sharding_ok_elements[OF s] by (simp add: mult.commute)
    qed
    have "ComputeRealmShapeSize (spans_rect (length ?xs) ?xs) =
        ret (prod_list (map (\<lambda>(lo, hi). hi - lo + 1) ?xs))"
    proof (rule ComputeRealmShapeSize_spans)
      fix lo hi assume "(lo, hi) \<in> set ?xs"
      then obtain d where "d \<in> set (sh_dims s)" "0 \<le> lo" "lo \<le> hi" "hi < dim_size d"
        using tile_span_mem[OF _ idx] sharding_ok_dim[OF s] by metis
      then show "0 \<le> lo \<and> lo \<le> hi \<and> hi < int64_max" using dim_size_int64[OF s] by force
    qed (use le tile_spans_size[OF idx] in \<open>simp add: tile_elements_def\<close>)
    then show ?thesis
      using False tile_spans_size[OF idx]
      by (simp add: tile_box_def box_of_def spans_rect_def tile_elements_def)
  qed
qed

text \<open>
  C15. For a well-formed sharding of a supported rank \<open>ComputeTileBounds\<close> returns, for every
  shard, a fully written rectangle with one coordinate range per real dimension (one for a
  scalar), and the rectangle has as many points as the shard has local elements.
\<close>

theorem tile_bounds_size:
  assumes "sharding_ok s" and "0 \<le> r" and "r < dl_size (sh_devices s)"
    and "rank_supported max_dim s"
  shows "\<exists>box n. ComputeTileBounds max_dim r s = ret box \<and> rect_complete box \<and>
    int (rect_rank box) = max 1 (NumRealDims s) \<and>
    ComputeRealmShapeSize box = ret n \<and> NumLocalElements s = ret n"
proof -
  let ?xs = "tile_spans (sh_dims s) (tile_index r s)"
  have "length ?xs = length (real_dims (sh_dims s))" by (simp add: length_tile_spans)
  then have "rect_complete (tile_box r s)" "int (rect_rank (tile_box r s)) = max 1 (NumRealDims s)"
    using NumRealDims_ok[OF assms(1)]
    by (cases ?xs; simp add: tile_box_def box_of_def rect_complete_def)+
  then show ?thesis
    using assms by (simp add: ComputeTileBounds_ok tile_box_size NumLocalElements_ok)
qed

theorem tile_bounds_size_witness:
  "\<exists>box n. ComputeTileBounds 3 17 example_sharding = ret box \<and> rect_complete box \<and>
    int (rect_rank box) = max 1 (NumRealDims example_sharding) \<and>
    ComputeRealmShapeSize box = ret n \<and> NumLocalElements example_sharding = ret n"
  by (rule tile_bounds_size)
     (simp_all add: example_sharding_ok, simp_all add: example_sharding_def dl_defs
       rank_supported_def is_repl_dim_def)

section \<open>Who owns an element\<close>

text \<open>
  An element of the array is a coordinate list over the real dimensions, the single coordinate 0
  for a scalar. A rectangle contains it when every coordinate is between the corners.
\<close>

definition array_point :: "sharding \<Rightarrow> int list \<Rightarrow> bool" where
  "array_point s p \<longleftrightarrow> in_radix (if real_dims (sh_dims s) = [] then [1]
     else map dim_size (real_dims (sh_dims s))) p"

definition in_rect :: "rect \<Rightarrow> int list \<Rightarrow> bool" where
  "in_rect r p \<longleftrightarrow> length p = rect_rank r \<and>
     list_all2 (\<lambda>lo x. lo \<le> x) (rect_lo r) p \<and> list_all2 (\<lambda>hi x. x \<le> hi) (rect_hi r) p"

definition in_spans :: "(int \<times> int) list \<Rightarrow> int list \<Rightarrow> bool" where
  "in_spans xs p \<longleftrightarrow> list_all2 (\<lambda>(lo, hi) x. lo \<le> x \<and> x \<le> hi) xs p"

lemma in_spans_simps [simp]:
  "in_spans [] p \<longleftrightarrow> p = []"
  "in_spans ((lo, hi) # xs) (x # p) \<longleftrightarrow> lo \<le> x \<and> x \<le> hi \<and> in_spans xs p"
  "\<not> in_spans (y # xs) []"
  by (auto simp: in_spans_def)

lemma in_rect_spans: "in_rect (spans_rect (length xs) xs) p \<longleftrightarrow> in_spans xs p"
  by (auto simp: in_rect_def spans_rect_def in_spans_def list_all2_conv_all_nth split_beta)

text \<open>The tile indices whose box contains a point: one choice per real dimension.\<close>

fun owner_sets :: "sharding_dim list \<Rightarrow> int list \<Rightarrow> int set list" where
  "owner_sets [] p = []"
| "owner_sets (d # ds) p =
     (if is_repl_dim d then {0..<dim_sharding d} # owner_sets ds p
      else {hd p div (dim_size d div dim_sharding d)} # owner_sets ds (tl p))"

lemma listset_Cons: "i # idx \<in> listset (A # As) \<longleftrightarrow> i \<in> A \<and> idx \<in> listset As"
  by (auto simp: set_Cons_def)

lemma in_listset:
  "idx \<in> listset As \<longleftrightarrow> length idx = length As \<and> (\<forall>i < length As. idx ! i \<in> As ! i)"
proof (induction As arbitrary: idx)
  case (Cons A As)
  then show ?case by (cases idx) (auto simp: listset_Cons nth_Cons' all_conj_distrib
      less_Suc_eq_0_disj simp del: listset.simps, simp add: set_Cons_def)
qed simp

lemma length_owner_sets [simp]: "length (owner_sets ds p) = length ds"
  by (induction ds p rule: owner_sets.induct) auto

lemma owner_sets_nth:
  "i < length ds \<Longrightarrow> length p = length (real_dims ds) \<Longrightarrow> owner_sets ds p ! i =
     (if is_repl_dim (ds ! i) then {0..<dim_sharding (ds ! i)}
      else {p ! length (real_dims (take i ds)) div (dim_size (ds ! i) div dim_sharding (ds ! i))})"
proof (induction ds p arbitrary: i rule: owner_sets.induct)
  case (2 d ds p)
  then show ?case by (cases i; cases p) auto
qed simp

lemma card_listset: "card (listset As) = prod_list (map card As)"
proof (induction As)
  case (Cons A As)
  have "listset (A # As) = (\<lambda>(x, xs). x # xs) ` (A \<times> listset As)"
    by (auto simp: set_Cons_def)
  moreover have "inj_on (\<lambda>(x, xs). x # xs) (A \<times> listset As)" by (auto simp: inj_on_def)
  ultimately show ?case using Cons.IH by (simp add: card_image card_cartesian_product)
qed simp

lemma card_owner_sets:
  "(\<And>d. d \<in> set ds \<Longrightarrow> dim_ok d) \<Longrightarrow> int (prod_list (map card (owner_sets ds p))) =
   prod_list (map dim_sharding (filter is_repl_dim ds))"
proof (induction ds arbitrary: p)
  case (Cons d ds)
  then have "1 \<le> dim_sharding d" by (auto dest: dim_ok_ge1)
  then show ?case using Cons by simp
qed simp

lemma tile_span_contains:
  assumes "dim_ok d" and "\<not> is_repl_dim d"
  shows "fst (tile_span d i) \<le> x \<and> x \<le> snd (tile_span d i) \<longleftrightarrow>
         i = x div (dim_size d div dim_sharding d)"
proof -
  let ?e = "dim_size d div dim_sharding d"
  have e: "0 < ?e" using real_dim_tile_ge1[OF assms] by simp
  have "?e * i \<le> x \<and> x < ?e * i + ?e \<longleftrightarrow> i = x div ?e"
  proof
    assume x: "?e * i \<le> x \<and> x < ?e * i + ?e"
    show "i = x div ?e" by (rule int_div_pos_eq[symmetric, of _ _ _ "x - ?e * i"]) (use x in auto)
  next
    assume "i = x div ?e"
    then show "?e * i \<le> x \<and> x < ?e * i + ?e"
      using e by (metis add.commute add_less_cancel_left le_add_same_cancel1 mult_div_mod_eq
          pos_mod_bound pos_mod_sign)
  qed
  then show ?thesis by (auto simp: tile_span_def Let_def)
qed

lemma owner_sets_iff:
  assumes "\<And>d. d \<in> set ds \<Longrightarrow> dim_ok d" and "in_radix (map dim_size (real_dims ds)) p"
  shows "in_radix (map dim_sharding ds) idx \<and> in_spans (tile_spans ds idx) p \<longleftrightarrow>
         idx \<in> listset (owner_sets ds p)"
  using assms
proof (induction ds arbitrary: idx p)
  case (Cons d ds)
  show ?case
  proof (cases idx)
    case Nil
    then show ?thesis by (auto simp: set_Cons_def)
  next
    case idx: (Cons i js)
    have ok: "dim_ok d" using Cons.prems(1) by simp
    show ?thesis
    proof (cases "is_repl_dim d")
      case True
      then show ?thesis
        using Cons.IH[of p js] Cons.prems idx by (auto simp: set_Cons_def)
    next
      case nr: False
      then obtain x q where p: "p = x # q" "0 \<le> x" "x < dim_size d"
        "in_radix (map dim_size (real_dims ds)) q"
        using Cons.prems(2) by auto
      have e: "1 \<le> dim_size d div dim_sharding d" by (rule real_dim_tile_ge1[OF ok nr])
      have "0 \<le> i \<and> i < dim_sharding d" if "i = x div (dim_size d div dim_sharding d)"
        using that p e real_dim_mult[OF ok nr]
        by (auto simp: pos_imp_zdiv_nonneg_iff intro!: div_less_of_less_mult)
      moreover have "in_spans (tile_span d i # tile_spans ds js) (x # q) \<longleftrightarrow>
          i = x div (dim_size d div dim_sharding d) \<and> in_spans (tile_spans ds js) q"
        using tile_span_contains[OF ok nr, of i x] by (cases "tile_span d i") auto
      ultimately show ?thesis
        using Cons.IH[of q js] Cons.prems(1) idx p nr by (auto simp: listset_Cons simp del: listset.simps)
    qed
  qed
qed auto

lemma in_box_of_spans_iff:
  assumes "length idx = length (sh_dims s)" and p: "array_point s p"
  shows "in_rect (box_of (tile_spans (sh_dims s) idx)) p \<longleftrightarrow>
    in_spans (tile_spans (sh_dims s) idx) (if real_dims (sh_dims s) = [] then [] else p)"
proof (cases "real_dims (sh_dims s) = []")
  case True
  then have "tile_spans (sh_dims s) idx = []"
    using length_tile_spans[of "sh_dims s" idx] assms(1) by simp
  with True p show ?thesis by (auto simp: box_of_def in_rect_def array_point_def)
next
  case False
  then have ne: "tile_spans (sh_dims s) idx \<noteq> []"
    using length_tile_spans[of "sh_dims s" idx] assms(1) by auto
  then have "box_of (tile_spans (sh_dims s) idx) =
      spans_rect (length (tile_spans (sh_dims s) idx)) (tile_spans (sh_dims s) idx)"
    by (simp add: box_of_def spans_rect_def)
  then show ?thesis using False by (simp add: in_rect_spans)
qed

lemma in_tile_box_iff:
  "array_point s p \<Longrightarrow> in_rect (tile_box r s) p \<longleftrightarrow>
    in_spans (tile_spans (sh_dims s) (tile_index r s))
      (if real_dims (sh_dims s) = [] then [] else p)"
  unfolding tile_box_def by (rule in_box_of_spans_iff) simp_all

text \<open>Counting shards by their tile indices.\<close>

lemma card_shards_with:
  assumes s: "sharding_ok s" and A: "\<And>idx. idx \<in> A \<Longrightarrow> index_in_range s idx"
  shows "card {r. 0 \<le> r \<and> r < dl_size (sh_devices s) \<and> tile_index r s \<in> A} = card A"
proof (rule bij_betw_same_card)
  let ?R = "{r. 0 \<le> r \<and> r < dl_size (sh_devices s) \<and> tile_index r s \<in> A}"
  show "bij_betw (\<lambda>r. tile_index r s) ?R A"
  proof (rule bij_betw_byWitness[where f' = "shard_with_index s"])
    show "\<forall>r \<in> ?R. shard_with_index s (tile_index r s) = r"
    proof
      fix r assume "r \<in> ?R"
      then have r: "0 \<le> r" "r < dl_size (sh_devices s)" by auto
      note sh = shard_with_index[OF s tile_index_in_range[OF s r]]
      show "shard_with_index s (tile_index r s) = r"
        by (rule tile_index_inj[OF s sh(1,2) r sh(3)])
    qed
    show "shard_with_index s ` A \<subseteq> ?R" using shard_with_index[OF s] A by auto
  qed (use shard_with_index(3)[OF s] A in auto)
qed

lemma in_tile_box_owner:
  assumes s: "sharding_ok s" and r: "0 \<le> r" "r < dl_size (sh_devices s)" and p: "array_point s p"
  shows "in_rect (tile_box r s) p \<longleftrightarrow> tile_index r s \<in>
    listset (owner_sets (sh_dims s) (if real_dims (sh_dims s) = [] then [] else p))"
proof -
  have "in_radix (map dim_size (real_dims (sh_dims s)))
      (if real_dims (sh_dims s) = [] then [] else p)"
    using p by (auto simp: array_point_def)
  then show ?thesis
    using owner_sets_iff[of "sh_dims s" _ "tile_index r s"] sharding_ok_dim[OF s]
      tile_index_in_range[OF s r] in_tile_box_iff[OF p]
    by (simp add: index_in_range_def)
qed

lemma owner_in_range:
  assumes s: "sharding_ok s" and p: "array_point s p"
    and "idx \<in> listset (owner_sets (sh_dims s) (if real_dims (sh_dims s) = [] then [] else p))"
  shows "index_in_range s idx"
proof -
  have "in_radix (map dim_size (real_dims (sh_dims s)))
      (if real_dims (sh_dims s) = [] then [] else p)"
    using p by (auto simp: array_point_def)
  then show ?thesis
    using owner_sets_iff[THEN iffD2, OF sharding_ok_dim[OF s] _ assms(3)]
    by (simp add: index_in_range_def)
qed

lemma card_tile_boxes:
  assumes s: "sharding_ok s" and p: "array_point s p"
  shows "int (card {r. 0 \<le> r \<and> r < dl_size (sh_devices s) \<and> in_rect (tile_box r s) p}) =
    replication s"
proof -
  let ?A = "listset (owner_sets (sh_dims s) (if real_dims (sh_dims s) = [] then [] else p))"
  have "{r. 0 \<le> r \<and> r < dl_size (sh_devices s) \<and> in_rect (tile_box r s) p} =
      {r. 0 \<le> r \<and> r < dl_size (sh_devices s) \<and> tile_index r s \<in> ?A}"
    using in_tile_box_owner[OF s _ _ p] by auto
  also have "card \<dots> = card ?A" by (rule card_shards_with[OF s owner_in_range[OF s p]])
  finally show ?thesis
    using card_owner_sets[of "sh_dims s"] sharding_ok_dim[OF s]
    by (simp only: card_listset replication_def)
qed

text \<open>
  C3. The tiles of a well-formed sharding partition the array up to replication: every element of
  the array is inside the rectangles that \<open>ComputeTileBounds\<close> returns for exactly as many shards
  as the replicating dimension says, so inside exactly one of them when the sharding has none.
\<close>

theorem tile_bounds_partition:
  assumes s: "sharding_ok s" and n: "rank_supported max_dim s" and p: "array_point s p"
  shows "int (card {r. 0 \<le> r \<and> r < dl_size (sh_devices s) \<and>
           (\<exists>box. ComputeTileBounds max_dim r s = ret box \<and> in_rect box p)}) = replication s"
proof -
  have "{r. 0 \<le> r \<and> r < dl_size (sh_devices s) \<and>
           (\<exists>box. ComputeTileBounds max_dim r s = ret box \<and> in_rect box p)} =
      {r. 0 \<le> r \<and> r < dl_size (sh_devices s) \<and> in_rect (tile_box r s) p}"
    using ComputeTileBounds_ok[OF s _ _ n] by auto
  then show ?thesis using card_tile_boxes[OF s p] by simp
qed

theorem tile_bounds_partition_witness:
  "int (card {r. 0 \<le> r \<and> r < dl_size (sh_devices example_sharding) \<and>
      (\<exists>box. ComputeTileBounds 3 r example_sharding = ret box \<and> in_rect box [5, 7])}) = 4"
proof -
  have "rank_supported 3 example_sharding" "array_point example_sharding [5, 7]"
    "replication example_sharding = 4"
    by (simp_all add: rank_supported_def array_point_def replication_def example_sharding_def
        is_repl_dim_def)
  then show ?thesis using tile_bounds_partition[OF example_sharding_ok, of 3 "[5, 7]"]
    by (simp only:)
qed

end
