(* ===== verification/Pool.thy ===== *)
theory Pool
  imports Prelude
begin

text \<open>
  The interface of a pool of reusable values: per key a queue, values are put at its end and taken
  from its front. The tile cache and the instance cache of the program are such pools; what is
  proved here once for the interface is what both rely on: a value that is put in is handed out at
  most once, in the order of the puts, and none is lost.
\<close>

section \<open>The interface\<close>

datatype ('k, 'v) pool_op = Put 'k 'v | Take 'k

locale keyed_pool =
  fixes contents :: "'s \<Rightarrow> 'k \<Rightarrow> 'v list"
    and put :: "'k \<Rightarrow> 'v \<Rightarrow> 's \<Rightarrow> 's"
    and get :: "'k \<Rightarrow> 's \<Rightarrow> ('v \<times> 's) option"
  assumes contents_put: "contents (put k v s) = (contents s)(k := contents s k @ [v])"
    and get_None: "get k s = None \<longleftrightarrow> contents s k = []"
    and get_Some: "get k s = Some (v, s') \<Longrightarrow>
      contents s k = v # contents s' k \<and> (\<forall>k'. k' \<noteq> k \<longrightarrow> contents s' k' = contents s k')"
begin

text \<open>What a sequence of operations hands out, with the keys, and the state it leaves.\<close>

fun run :: "('k, 'v) pool_op list \<Rightarrow> 's \<Rightarrow> ('k \<times> 'v) list \<times> 's" where
  "run [] s = ([], s)"
| "run (Put k v # ops) s = run ops (put k v s)"
| "run (Take k # ops) s =
     (case get k s of
        None \<Rightarrow> run ops s
      | Some (v, s') \<Rightarrow> (let (out, s'') = run ops s' in ((k, v) # out, s'')))"

fun puts_for :: "'k \<Rightarrow> ('k, 'v) pool_op list \<Rightarrow> 'v list" where
  "puts_for k [] = []"
| "puts_for k (Put k' v # ops) = (if k' = k then v # puts_for k ops else puts_for k ops)"
| "puts_for k (Take k' # ops) = puts_for k ops"

definition outs_for :: "'k \<Rightarrow> ('k \<times> 'v) list \<Rightarrow> 'v list" where
  "outs_for k out = map snd (filter (\<lambda>(k', v). k' = k) out)"

lemma outs_for_simps [simp]:
  "outs_for k [] = []"
  "outs_for k ((k', v) # out) = (if k' = k then v # outs_for k out else outs_for k out)"
  by (simp_all add: outs_for_def)

lemma fifo:
  "outs_for k (fst (run ops s)) @ contents (snd (run ops s)) k = contents s k @ puts_for k ops"
proof (induction ops s rule: run.induct)
  case (1 s)
  then show ?case by simp
next
  case (2 k' v ops s)
  then show ?case by (simp add: contents_put)
next
  case (3 k' ops s)
  show ?case
  proof (cases "get k' s")
    case None
    then show ?thesis using 3 by simp
  next
    case (Some p)
    then obtain v s' where p: "get k' s = Some (v, s')" by (cases p) auto
    then show ?thesis using 3(2)[OF p refl] get_Some[OF p]
      by (cases "k' = k") (auto simp: case_prod_unfold Let_def)
  qed
qed

text \<open>So with distinct values no value is handed out twice.\<close>

lemma handed_out_once:
  assumes "distinct (contents s k @ puts_for k ops)"
  shows "distinct (outs_for k (fst (run ops s)))"
  using assms fifo[of k ops s] distinct_append by metis

end

end
