(* ===== verification/Sharded_Array.thy ===== *)
theory Sharded_Array
  imports Store Tile_Bounds Pool
begin

text \<open>
  \<open>src/zuku/tiled_array.cc\<close>, \<open>src/zuku/tiled_array.h\<close>, the allocation handshake of
  \<open>src/zuku/init.h\<close> and \<open>init.cc\<close>, and \<open>src/zuku/instance_cache.h\<close>: tiles and the cache of freed
  tiles, the numbering of arrays, creation and destruction of a sharded array, and its moves
  between memories.
\<close>

section \<open>Tiles\<close>

record tile_shape =
  tsh_type :: supported_type
  tsh_dims :: "int list"
  tsh_bounds :: rect

definition tile_shape_eq :: "tile_shape \<Rightarrow> tile_shape \<Rightarrow> bool" where
  "tile_shape_eq lhs rhs \<longleftrightarrow> tsh_type lhs = tsh_type rhs \<and> tsh_dims lhs = tsh_dims rhs"

datatype realm_type = Int8 | Int16 | Int32 | Int64

record array_tile =
  at_instance :: inst
  at_shape :: tile_shape
  at_type :: realm_type

definition tile_move :: "array_tile \<Rightarrow> array_tile \<times> array_tile" where
  \<comment> \<open>the move constructor takes the instance away from the source\<close>
  "tile_move a = (a, a\<lparr>at_instance := NO_INST\<rparr>)"

fun ToRealmTypeVariant :: "supported_type \<Rightarrow> realm_type res" where
  "ToRealmTypeVariant PRED = ret Int8" | "ToRealmTypeVariant S8 = ret Int8"
| "ToRealmTypeVariant U8 = ret Int8"
| "ToRealmTypeVariant F16 = ret Int16" | "ToRealmTypeVariant BF16 = ret Int16"
| "ToRealmTypeVariant S16 = ret Int16" | "ToRealmTypeVariant U16 = ret Int16"
| "ToRealmTypeVariant F32 = ret Int32" | "ToRealmTypeVariant S32 = ret Int32"
| "ToRealmTypeVariant U32 = ret Int32"
| "ToRealmTypeVariant F64 = ret Int64" | "ToRealmTypeVariant S64 = ret Int64"
| "ToRealmTypeVariant U64 = ret Int64" | "ToRealmTypeVariant C64 = ret Int64"
| "ToRealmTypeVariant C128 = fail (RuntimeError ''unsupported SupportedType'')"

text \<open>
  \<open>num_elements\<close> multiplies in \<open>size_t\<close> and returns the product as \<open>int64_t\<close>; \<open>byte_size\<close>
  multiplies that, as \<open>size_t\<close> again, by the element size.
\<close>

definition num_elements :: "array_tile \<Rightarrow> int" where
  "num_elements a = sint (foldl (\<lambda>size dim. size * word_of_int dim) (1 :: 64 word)
     (tsh_dims (at_shape a)))"

definition byte_size :: "array_tile \<Rightarrow> 64 word" where
  "byte_size a = word_of_int (num_elements a) *
     word_of_int (SupportedTypeSizeOf (tsh_type (at_shape a)))"

text \<open>The address of a tile's first element, by Realm's accessor.\<close>

definition InstancePointer :: "(inst \<Rightarrow> realm_type \<Rightarrow> int list \<Rightarrow> nat) \<Rightarrow> array_tile \<Rightarrow> nat res" where
  "InstancePointer accessor a =
     (if at_instance a = NO_INST
      then fail (RuntimeError ''fetching pointer from instance that doesn't exist'')
      else ret (accessor (at_instance a) (at_type a) (rect_lo (tsh_bounds (at_shape a)))))"

definition tile_DeferredDeleteInstances ::
  "realm \<Rightarrow> array_tile \<Rightarrow> event \<Rightarrow> 'z runtime_scheme \<Rightarrow> 'z runtime_scheme" where
  "tile_DeferredDeleteInstances rl a ev w =
     (if at_instance a \<noteq> NO_INST then command rl (DestroyInstance (at_instance a) ev) w else w)"

section \<open>State of the array layer\<close>

text \<open>
  Three process-wide tables extend the runtime state. A processor is found by type and global id, a
  tile shape by type and extents, the fields their equality compares; a table entry that was never
  written is empty or 0. Within the tile cache of a processor the shapes are kept in the order of
  their first use, which stands for the unspecified order of the hash map.
\<close>

type_synonym proc_key = "proc_type \<times> int"
type_synonym tile_key = "supported_type \<times> int list"
type_synonym id_key = "device_list \<times> int \<times> proc_type"

record array_runtime = runtime +
  next_ids :: "id_key \<Rightarrow> 64 word"
  tile_cache :: "proc_key \<Rightarrow> (tile_key \<times> (event \<times> array_tile) list) list"
  allocation_counts :: "proc_key \<Rightarrow> sharded_shape \<Rightarrow> int"

definition proc_key_of :: "processor \<Rightarrow> proc_key" where
  "proc_key_of p = (pr_type p, global_id p)"

definition tile_key_of :: "tile_shape \<Rightarrow> tile_key" where
  "tile_key_of s = (tsh_type s, tsh_dims s)"

lemma keys_are_equality:
  "proc_key_of p = proc_key_of q \<longleftrightarrow> processor_eq p q"
  "tile_key_of s = tile_key_of s' \<longleftrightarrow> tile_shape_eq s s'"
  by (auto simp: proc_key_of_def processor_eq_def tile_key_of_def tile_shape_eq_def)

fun assoc_update :: "'k \<Rightarrow> ('v \<Rightarrow> 'v) \<Rightarrow> 'v \<Rightarrow> ('k \<times> 'v) list \<Rightarrow> ('k \<times> 'v) list" where
  \<comment> \<open>\<open>m[k]\<close> of a hash map: a missing entry is made first\<close>
  "assoc_update k f v0 [] = [(k, f v0)]"
| "assoc_update k f v0 ((k', v) # xs) =
     (if k' = k then (k', f v) # xs else (k', v) # assoc_update k f v0 xs)"

section \<open>The tile cache\<close>

text \<open>\<open>cached\<close> is the compile-time switch \<open>ZUKU_USE_TILE_CACHE\<close>.\<close>

definition cached_tiles :: "proc_key \<Rightarrow> tile_key \<Rightarrow> 'z array_runtime_scheme \<Rightarrow> (event \<times> array_tile) list" where
  "cached_tiles pk tk w = (case map_of (tile_cache w pk) tk of Some q \<Rightarrow> q | None \<Rightarrow> [])"

definition push_tile ::
  "proc_key \<Rightarrow> tile_key \<Rightarrow> event \<times> array_tile \<Rightarrow> 'z array_runtime_scheme \<Rightarrow> 'z array_runtime_scheme" where
  "push_tile pk tk pair w = w\<lparr>tile_cache := (tile_cache w)(pk :=
     assoc_update tk (\<lambda>q. q @ [pair]) [] (tile_cache w pk))\<rparr>"

definition pop_tile ::
  "proc_key \<Rightarrow> tile_key \<Rightarrow> 'z array_runtime_scheme \<Rightarrow>
   ((event \<times> array_tile) \<times> 'z array_runtime_scheme) option" where
  "pop_tile pk tk w =
     (case cached_tiles pk tk w of
        [] \<Rightarrow> None
      | pair # rest \<Rightarrow> Some (pair, w\<lparr>tile_cache := (tile_cache w)(pk :=
          assoc_update tk tl [] (tile_cache w pk))\<rparr>))"

definition GetTile ::
  "bool \<Rightarrow> tile_shape \<Rightarrow> processor \<Rightarrow> 'z array_runtime_scheme \<Rightarrow>
   ((event \<times> array_tile) \<times> 'z array_runtime_scheme) option" where
  "GetTile cached shape p w =
     (if cached then pop_tile (proc_key_of p) (tile_key_of shape) w else None)"

definition FreeTile ::
  "realm \<Rightarrow> bool \<Rightarrow> array_tile \<Rightarrow> event \<Rightarrow> processor \<Rightarrow> 'z array_runtime_scheme \<Rightarrow>
   'z array_runtime_scheme" where
  "FreeTile rl cached tile free p w =
     (if cached then push_tile (proc_key_of p) (tile_key_of (at_shape tile)) (free, tile) w
      else tile_DeferredDeleteInstances rl tile free w)"

definition ClearTiles ::
  "realm \<Rightarrow> bool \<Rightarrow> processor \<Rightarrow> 'z array_runtime_scheme \<Rightarrow> 'z array_runtime_scheme" where
  "ClearTiles rl cached p w =
     (if cached
      then (foldl (\<lambda>w (ev, tile). tile_DeferredDeleteInstances rl tile ev w) w
              (concat (map snd (tile_cache w (proc_key_of p)))))
             \<lparr>tile_cache := (tile_cache w)(proc_key_of p := [])\<rparr>
      else w)"

section \<open>Allocation\<close>

record allocation_result =
  alloc_signal :: event
  alloc_success :: bool

definition new_allocation_result ::
  "realm \<Rightarrow> 'z runtime_scheme \<Rightarrow> allocation_result \<times> 'z runtime_scheme" where
  "new_allocation_result rl w =
     (let (u, w') = invoke rl CreateUserEvent w
      in (\<lparr>alloc_signal = u, alloc_success = True\<rparr>, w'))"

definition check_allocation_task ::
  "realm \<Rightarrow> bool \<Rightarrow> allocation_result \<Rightarrow> 'z runtime_scheme \<Rightarrow>
   allocation_result \<times> 'z runtime_scheme" where
  "check_allocation_task rl success alloc w =
     (let alloc' = (if \<not> success then alloc\<lparr>alloc_success := False\<rparr> else alloc)
      in (alloc', command rl (TriggerEvent (alloc_signal alloc) NO_EVENT) w))"

text \<open>
  The profiling response of the creation runs \<open>check_allocation_task\<close> on the utility processor;
  \<open>alloc.Wait()\<close> makes sure that it has run.
\<close>

definition TryAllocation ::
  "realm \<Rightarrow> proc_tables \<Rightarrow> rect \<Rightarrow> nat \<Rightarrow> int \<Rightarrow> 'z runtime_scheme \<Rightarrow>
   (event \<times> inst \<times> bool \<times> 'z runtime_scheme) res" where
  "TryAllocation rl t bounds memory field_size w =
     (if rect_rank bounds > 0
      then
        (let (alloc, w1) = new_allocation_result rl w
         in andThen (Util_proc t) (\<lambda>util.
         let (instance, w2) = invoke rl (CreateInstance memory bounds field_size) w1;
             (ready, w3) = invoke rl (InstanceReady instance) w2;
             (success, w4) = invoke rl (AllocationSucceeded instance) w3;
             (alloc', w5) = check_allocation_task rl (success \<noteq> 0) alloc w4;
             w6 = command rl (WaitEvent (alloc_signal alloc)) w5
         in ret (ready, instance, alloc_success alloc', w6)))
      else ret (NO_EVENT, NO_INST, True, w))"

definition ArrayTile_Create ::
  "realm \<Rightarrow> proc_tables \<Rightarrow> bool \<Rightarrow> tile_shape \<Rightarrow> memory_kind option \<Rightarrow> processor option \<Rightarrow>
   'z array_runtime_scheme \<Rightarrow> (event \<times> array_tile \<times> 'z array_runtime_scheme) res" where
  "ArrayTile_Create rl t cached shape memory_kind processor w =
     andThen (case processor of Some p \<Rightarrow> ret p | None \<Rightarrow> Default_proc t) (\<lambda>p.
     case GetTile cached shape p w of
       Some ((event, tile), w1) \<Rightarrow> ret (event, tile, w1)
     | None \<Rightarrow>
         andThen (ToRealmTypeVariant (tsh_type shape)) (\<lambda>type.
         let field_size = SupportedTypeSizeOf (tsh_type shape);
             (memory, w1) = invoke rl (QueryMemory (pr_proc p) memory_kind) w
         in andThen (TryAllocation rl t (tsh_bounds shape) memory field_size w1)
              (\<lambda>(event, instance, success, w2).
            if success
            then ret (event, \<lparr>at_instance = instance, at_shape = shape, at_type = type\<rparr>, w2)
            else
              andThen (TryAllocation rl t (tsh_bounds shape) memory field_size (ClearTiles rl cached p w2))
                (\<lambda>(event, instance, success, w3).
              if success
              then ret (event, \<lparr>at_instance = instance, at_shape = shape, at_type = type\<rparr>, w3)
              else fail (AllocationFailure ''failed allocating tile'')))))"
section \<open>Sharded arrays\<close>

record sharded_array =
  sa_mesh_id :: "64 word"
  sa_shape :: sharded_shape
  sa_shard_id :: int
  sa_proc :: processor
  sa_name :: "string option"
  sa_tile :: "array_tile option"

record array_ctor =
  ctor_assigned_id :: "64 word option"
  ctor_name :: "string option"
  ctor_shard_id :: "int option"
  ctor_processor :: processor
  ctor_memory :: "memory_kind option"

definition unique_id_of :: "sharded_array \<Rightarrow> unique_id" where
  "unique_id_of a = \<lparr>uid_id = sa_mesh_id a, uid_devices = sh_devices (shp_sharding (sa_shape a))\<rparr>"

definition HasTile :: "sharded_array \<Rightarrow> bool" where
  "HasTile a \<longleftrightarrow> sa_tile a \<noteq> None"

definition array_tile_of :: "sharded_array \<Rightarrow> array_tile res" where
  "array_tile_of a = opt_get (sa_tile a)"

definition HasName :: "sharded_array \<Rightarrow> bool" where
  "HasName a \<longleftrightarrow> sa_name a \<noteq> None"

definition array_name :: "sharded_array \<Rightarrow> string res" where
  "array_name a = opt_get (sa_name a)"

definition id_key_of :: "processor \<Rightarrow> sharded_shape \<Rightarrow> id_key" where
  "id_key_of p shape = (sh_devices (shp_sharding shape), local_id p, pr_type p)"

definition AllocateNextGlobalId ::
  "processor \<Rightarrow> sharded_shape \<Rightarrow> 64 word option \<Rightarrow> 'z array_runtime_scheme \<Rightarrow>
   64 word \<times> 'z array_runtime_scheme" where
  "AllocateNextGlobalId p shape assigned_id w =
     (case assigned_id of
        Some i \<Rightarrow> (i, w)
      | None \<Rightarrow>
          (let key = id_key_of p shape
           in (next_ids w key, w\<lparr>next_ids := (next_ids w)(key := next_ids w key + 1)\<rparr>)))"

definition ShardedArray_construct ::
  "sharded_shape \<Rightarrow> array_ctor \<Rightarrow> array_tile option \<Rightarrow> 'z array_runtime_scheme \<Rightarrow>
   sharded_array \<times> 'z array_runtime_scheme" where
  "ShardedArray_construct shape ctor tile w =
     (let (i, w') = AllocateNextGlobalId (ctor_processor ctor) shape (ctor_assigned_id ctor) w
      in (\<lparr>sa_mesh_id = i, sa_shape = shape,
           sa_shard_id = (case ctor_shard_id ctor of Some s \<Rightarrow> s | None \<Rightarrow> -1),
           sa_proc = ctor_processor ctor, sa_name = ctor_name ctor, sa_tile = tile\<rparr>, w'))"

definition bump_count ::
  "int \<Rightarrow> processor \<Rightarrow> sharded_shape \<Rightarrow> 'z array_runtime_scheme \<Rightarrow> 'z array_runtime_scheme res" where
  "bump_count d p shape w =
     andThen (add64 (allocation_counts w (proc_key_of p) shape) d) (\<lambda>n.
     ret (w\<lparr>allocation_counts := (allocation_counts w)(proc_key_of p :=
            (allocation_counts w (proc_key_of p))(shape := n))\<rparr>))"

definition HostForShard ::
  "machine \<Rightarrow> proc_tables \<Rightarrow> sharded_array \<Rightarrow> int \<Rightarrow> realm_proc res" where
  "HostForShard m t a shard_id =
     andThen (add64 shard_id (dl_start (sh_devices (shp_sharding (sa_shape a))))) (\<lambda>global_device_id.
     GetAttachedHost m t global_device_id (Some (pr_type (sa_proc a))))"

text \<open>
  The shape of a tile keeps the dimensions with at least as many elements as pieces, which drops
  the replicating one.
\<close>

definition tiled_dims :: "sharding_dim list \<Rightarrow> int list res" where
  "tiled_dims ds =
     foldR (\<lambda>acc dim. if dim_size dim \<ge> dim_sharding dim
                      then andThen (div64 (dim_size dim) (dim_sharding dim)) (\<lambda>n. ret (acc @ [n]))
                      else ret acc) [] ds"

definition total_shards :: "sharding_dim list \<Rightarrow> int res" where
  "total_shards ds = foldR (\<lambda>n dim. mul64 n (dim_sharding dim)) 1 ds"

text \<open>
  \<open>Create\<close>. A failed allocation is reported on the error stream with the allocations so far, and
  rethrown with the array's shape.
\<close>

definition tile_shape_for :: "int \<Rightarrow> sharded_shape \<Rightarrow> int \<Rightarrow> tile_shape res" where
  "tile_shape_for max_dim shape shard_id =
     andThen (tiled_dims (sh_dims (shp_sharding shape))) (\<lambda>dims.
     andThen (ComputeTileBounds max_dim shard_id (shp_sharding shape)) (\<lambda>bounds.
     ret \<lparr>tsh_type = shp_type shape, tsh_dims = dims, tsh_bounds = bounds\<rparr>))"

definition create_with_tile ::
  "realm \<Rightarrow> proc_tables \<Rightarrow> bool \<Rightarrow> int \<Rightarrow> sharded_shape \<Rightarrow> array_ctor \<Rightarrow> int \<Rightarrow>
   'z array_runtime_scheme \<Rightarrow> (sharded_array store \<times> 'z array_runtime_scheme) res" where
  "create_with_tile rl t cached max_dim shape ctor shard_id w =
     andThen (tile_shape_for max_dim shape shard_id) (\<lambda>tiled_shape.
     case ArrayTile_Create rl t cached tiled_shape (ctor_memory ctor) (Some (ctor_processor ctor)) w of
       Inr (event, tile, w1) \<Rightarrow>
         andThen (bump_count 1 (ctor_processor ctor) shape w1) (\<lambda>w2.
         let (a, w3) = ShardedArray_construct shape (ctor\<lparr>ctor_shard_id := Some shard_id\<rparr>) (Some tile) w2
         in ret (Store_DeferredCreate event a, w3))
     | Inl (AllocationFailure msg) \<Rightarrow>
         fail (AllocationFailure (''Failed to allocate sharded shape '' @ show_sharded_shape shape))
     | Inl e \<Rightarrow> fail e)"

definition ShardedArray_Create ::
  "realm \<Rightarrow> proc_tables \<Rightarrow> bool \<Rightarrow> int \<Rightarrow> sharded_shape \<Rightarrow> array_ctor \<Rightarrow> 'z array_runtime_scheme \<Rightarrow>
   (sharded_array store \<times> 'z array_runtime_scheme) res" where
  "ShardedArray_Create rl t cached max_dim shape ctor w =
     (let sh = shp_sharding shape
      in andThen (total_shards (sh_dims sh)) (\<lambda>total.
         if total \<noteq> dl_size (sh_devices sh)
         then fail (RuntimeError (''sharding has total sharding = '' @ show_int total @
                '' that differs from number of devices in mesh: '' @ show_sharding sh))
         else
           (case (case ctor_shard_id ctor of
                    Some s \<Rightarrow> Some s
                  | None \<Rightarrow>
                      if dl_contains (sh_devices sh) (global_id (ctor_processor ctor))
                      then Some (global_id (ctor_processor ctor) - dl_start (sh_devices sh))
                      else None) of
              None \<Rightarrow>
                (let (a, w') = ShardedArray_construct shape ctor None w in ret (Store_Create a, w'))
            | Some s \<Rightarrow> create_with_tile rl t cached max_dim shape ctor s w)))"

definition ShardedArray_destroy ::
  "sharded_array \<Rightarrow> 'z array_runtime_scheme \<Rightarrow> 'z array_runtime_scheme res" where
  "ShardedArray_destroy a w = bump_count (-1) (sa_proc a) (sa_shape a) w"

definition array_DeferredDeleteInstances ::
  "realm \<Rightarrow> bool \<Rightarrow> sharded_array \<Rightarrow> event \<Rightarrow> 'z array_runtime_scheme \<Rightarrow>
   'z array_runtime_scheme res" where
  "array_DeferredDeleteInstances rl cached a ev w =
     (case sa_tile a of
        Some tile \<Rightarrow> ret (FreeTile rl cached tile ev (sa_proc a) w)
      | None \<Rightarrow> ret w)"

definition ReassignId :: "64 word \<Rightarrow> sharded_array \<Rightarrow> sharded_array" where
  "ReassignId i a = a\<lparr>sa_mesh_id := i\<rparr>"

section \<open>Moves between memories\<close>

text \<open>
  The copy runs after both stores' preconditions and the given one, and both stores are ready after
  it. The target takes over the source's id. (A view of the target that exists already would see
  the new id too; here an array is a value, and only the store that is returned has it.)
\<close>

definition MoveToMemory ::
  "realm \<Rightarrow> sharded_array store \<Rightarrow> sharded_array store \<Rightarrow> event option \<Rightarrow> 'z array_runtime_scheme \<Rightarrow>
   (sharded_array store \<times> sharded_array store \<times> 'z array_runtime_scheme) res" where
  "MoveToMemory rl src dst precondition w =
     andThen (store_get src) (\<lambda>sa.
     andThen (store_get dst) (\<lambda>da.
     andThen
       (if HasTile sa
        then
          andThen (array_tile_of sa) (\<lambda>stile.
          andThen (array_tile_of da) (\<lambda>dtile.
          let (sp, w1) = store_Precondition rl src w;
              (dp, w2) = store_Precondition rl dst w1;
              (combined, w3) = invoke rl (MergeEvents [sp, dp, value_or precondition NO_EVENT]) w2;
              (post, w4) = invoke rl (RectCopy (tsh_bounds (at_shape stile))
                 (SupportedTypeSizeOf (shp_type (sa_shape sa))) (at_instance stile)
                 (at_instance dtile) combined) w3;
              (src', w5) = store_ReadyAfter rl post src w4;
              (dst', w6) = store_ReadyAfter rl post dst w5
          in ret (src', dst', w6)))
        else ret (src, dst, w))
       (\<lambda>(src', dst', w').
     ret (src', dst'\<lparr>store_value := Some (ReassignId (sa_mesh_id sa) da)\<rparr>, w'))))"

section \<open>Instance caches\<close>

text \<open>
  An \<open>InstanceCache\<close> keeps, per key, a queue of stores to reuse. \<open>Get\<close> compares the size, a
  \<open>size_t\<close>, with an \<open>int64_t\<close>: a negative bound is larger than every size. With a bound of 0 an
  empty queue is not refilled, and \<open>front\<close> of an empty queue is undefined.
\<close>

definition InstanceCache_Get ::
  "('k \<Rightarrow> 'w \<Rightarrow> ('v \<times> 'w) res) \<Rightarrow> 'k \<Rightarrow> int option \<Rightarrow> ('k \<Rightarrow> 'v list) \<Rightarrow> 'w \<Rightarrow>
   ('v \<times> ('k \<Rightarrow> 'v list) \<times> 'w) res" where
  "InstanceCache_Get factory k min_cache_size values w =
     (let bound = value_or min_cache_size 1
      in if bound < 0 \<or> size_of (values k) < bound
         then andThen (factory k w) (\<lambda>(v, w'). ret (v, values, w'))
         else (case values k of
                 [] \<Rightarrow> fail (Undefined OutOfRange)
               | v # rest \<Rightarrow> ret (v, values(k := rest), w)))"

definition InstanceCache_Make :: "('k \<Rightarrow> 'w \<Rightarrow> ('v \<times> 'w) res) \<Rightarrow> 'k \<Rightarrow> 'w \<Rightarrow> ('v \<times> 'w) res" where
  "InstanceCache_Make factory k w = factory k w"

definition InstanceCache_Free :: "'k \<Rightarrow> 'v \<Rightarrow> ('k \<Rightarrow> 'v list) \<Rightarrow> ('k \<Rightarrow> 'v list)" where
  "InstanceCache_Free k v values = values(k := values k @ [v])"

definition InstanceCache_Clear :: "('k \<Rightarrow> 'v list) \<Rightarrow> ('k \<Rightarrow> 'v list)" where
  "InstanceCache_Clear values = (\<lambda>_. [])"

definition ArrayCache_factory ::
  "realm \<Rightarrow> proc_tables \<Rightarrow> bool \<Rightarrow> int \<Rightarrow> memory_kind \<Rightarrow> processor \<Rightarrow> sharded_shape \<Rightarrow>
   'z array_runtime_scheme \<Rightarrow> (sharded_array store \<times> 'z array_runtime_scheme) res" where
  "ArrayCache_factory rl t cached max_dim memory p shape w =
     ShardedArray_Create rl t cached max_dim shape \<lparr>ctor_assigned_id = None, ctor_name = None,
       ctor_shard_id = None, ctor_processor = p, ctor_memory = Some memory\<rparr> w"

type_synonym array_cache = "sharded_shape \<Rightarrow> sharded_array store list"

definition MoveToMemory_cache ::
  "realm \<Rightarrow> (sharded_shape \<Rightarrow> 'z array_runtime_scheme \<Rightarrow> (sharded_array store \<times> 'z array_runtime_scheme) res) \<Rightarrow>
   sharded_array store \<Rightarrow> array_cache \<Rightarrow> event option \<Rightarrow> 'z array_runtime_scheme \<Rightarrow>
   (sharded_array store \<times> sharded_array store \<times> array_cache \<times> 'z array_runtime_scheme) res" where
  "MoveToMemory_cache rl factory src cache precondition w =
     andThen (store_get src) (\<lambda>sa.
     andThen (InstanceCache_Get factory (sa_shape sa) None cache w) (\<lambda>(new_array, cache', w1).
     andThen (MoveToMemory rl src new_array precondition w1) (\<lambda>(src', new_array', w2).
     ret (src', new_array', cache', w2))))"

definition MoveToMemory_swap ::
  "realm \<Rightarrow> (sharded_shape \<Rightarrow> 'z array_runtime_scheme \<Rightarrow> (sharded_array store \<times> 'z array_runtime_scheme) res) \<Rightarrow>
   sharded_array store \<Rightarrow> array_cache \<Rightarrow> array_cache \<Rightarrow> event option \<Rightarrow> 'z array_runtime_scheme \<Rightarrow>
   (sharded_array store \<times> array_cache \<times> array_cache \<times> 'z array_runtime_scheme) res" where
  "MoveToMemory_swap rl factory src save_array_cache new_array_cache precondition w =
     andThen (MoveToMemory_cache rl factory src new_array_cache precondition w)
       (\<lambda>(src', new_array, new_array_cache', w').
     andThen (store_get src') (\<lambda>sa.
     ret (new_array, InstanceCache_Free (sa_shape sa) (fst (Store_move src')) save_array_cache,
          new_array_cache', w')))"
section \<open>The caches are pools\<close>

lemma map_of_assoc_update:
  "map_of (assoc_update k f v0 xs) k' =
     (if k' = k then Some (f (case map_of xs k of Some v \<Rightarrow> v | None \<Rightarrow> v0)) else map_of xs k')"
  by (induction xs) auto

lemma cached_tiles_push:
  "cached_tiles pk' k' (push_tile pk k x w) =
     (if pk' = pk \<and> k' = k then cached_tiles pk k w @ [x] else cached_tiles pk' k' w)"
  by (auto simp: cached_tiles_def push_tile_def map_of_assoc_update split: option.splits)

lemma cached_tiles_pop:
  assumes "pop_tile pk k w = Some (x, w')"
  shows "cached_tiles pk k w = x # cached_tiles pk k w'"
    and "pk' \<noteq> pk \<or> k' \<noteq> k \<Longrightarrow> cached_tiles pk' k' w' = cached_tiles pk' k' w"
proof -
  obtain rest where q: "cached_tiles pk k w = x # rest"
    and w': "w' = w\<lparr>tile_cache := (tile_cache w)(pk := assoc_update k tl [] (tile_cache w pk))\<rparr>"
    using assms by (auto simp: pop_tile_def split: list.splits)
  show "cached_tiles pk k w = x # cached_tiles pk k w'"
    using q by (auto simp: cached_tiles_def w' map_of_assoc_update split: option.splits)
  assume "pk' \<noteq> pk \<or> k' \<noteq> k"
  then show "cached_tiles pk' k' w' = cached_tiles pk' k' w"
    by (auto simp: cached_tiles_def w' map_of_assoc_update)
qed

lemma pop_tile_None: "pop_tile pk k w = None \<longleftrightarrow> cached_tiles pk k w = []"
  by (auto simp: pop_tile_def split: list.splits)

interpretation tiles: keyed_pool "\<lambda>w k. cached_tiles pk k w" "push_tile pk" "pop_tile pk" for pk
proof
  fix k x and w :: "'z array_runtime_scheme"
  show "(\<lambda>k'. cached_tiles pk k' (push_tile pk k x w)) =
      (\<lambda>k'. cached_tiles pk k' w)(k := cached_tiles pk k w @ [x])"
    by (auto simp: cached_tiles_push)
  show "pop_tile pk k w = None \<longleftrightarrow> cached_tiles pk k w = []" by (rule pop_tile_None)
next
  fix k x and w w' :: "'z array_runtime_scheme"
  assume "pop_tile pk k w = Some (x, w')"
  then show "cached_tiles pk k w = x # cached_tiles pk k w' \<and>
      (\<forall>k'. k' \<noteq> k \<longrightarrow> cached_tiles pk k' w' = cached_tiles pk k' w)"
    using cached_tiles_pop by blast
qed








text \<open>
  The cache compares type and extents, not the place of the tile in its array: a tile freed with one
  rectangle is handed out for another, and keeps its own.
\<close>

lemma cached_tile_keeps_bounds:
  assumes "cached_tiles (proc_key_of p) (tile_key_of shape) w = []"
    and "tile_shape_eq (at_shape tile) shape"
  shows "\<exists>w'. GetTile True shape p (FreeTile rl True tile ev p w) = Some ((ev, tile), w')"
proof -
  have "tile_key_of (at_shape tile) = tile_key_of shape" using assms(2) keys_are_equality(2) by blast
  then have "cached_tiles (proc_key_of p) (tile_key_of shape) (FreeTile rl True tile ev p w) =
      [(ev, tile)]"
    using assms(1) by (simp add: FreeTile_def cached_tiles_push)
  then show ?thesis by (simp add: GetTile_def pop_tile_def)
qed

lemma two_places_one_key:
  "tile_shape_eq \<lparr>tsh_type = F32, tsh_dims = [4], tsh_bounds = \<lparr>rect_rank = 1, rect_lo = [0], rect_hi = [3]\<rparr>\<rparr>
     \<lparr>tsh_type = F32, tsh_dims = [4], tsh_bounds = \<lparr>rect_rank = 1, rect_lo = [4], rect_hi = [7]\<rparr>\<rparr>"
  by (simp add: tile_shape_eq_def)

text \<open>The queue of an instance cache, and its pool.\<close>

definition reuse :: "'k \<Rightarrow> ('k \<Rightarrow> 'v list) \<Rightarrow> ('v \<times> ('k \<Rightarrow> 'v list)) option" where
  "reuse k values = (case values k of [] \<Rightarrow> None | v # rest \<Rightarrow> Some (v, values(k := rest)))"

lemma InstanceCache_Get_reuse:
  "InstanceCache_Get factory k None values w =
     (case reuse k values of
        None \<Rightarrow> andThen (factory k w) (\<lambda>(v, w'). ret (v, values, w'))
      | Some (v, values') \<Rightarrow> ret (v, values', w))"
  by (auto simp: InstanceCache_Get_def reuse_def value_or_def size_of_def split: list.splits)

interpretation instances: keyed_pool "\<lambda>values k. values k" InstanceCache_Free reuse
proof
  fix k :: 'a and v :: 'b and q q' :: "'a \<Rightarrow> 'b list"
  show "InstanceCache_Free k v q = q(k := q k @ [v])"
    by (simp add: InstanceCache_Free_def)
  show "reuse k q = None \<longleftrightarrow> q k = []" by (auto simp: reuse_def split: list.splits)
  show "q k = v # q' k \<and> (\<forall>k'. k' \<noteq> k \<longrightarrow> q' k' = q k')"
    if "reuse k q = Some (v, q')"
    using that by (auto simp: reuse_def split: list.splits)
qed
section \<open>Array ids\<close>

fun allocate_all ::
  "(processor \<times> sharded_shape) list \<Rightarrow> 'z array_runtime_scheme \<Rightarrow> 64 word list \<times> 'z array_runtime_scheme" where
  "allocate_all [] w = ([], w)"
| "allocate_all ((p, shape) # reqs) w =
     (let (i, w1) = AllocateNextGlobalId p shape None w; (is, w2) = allocate_all reqs w1
      in (i # is, w2))"

definition earlier :: "(processor \<times> sharded_shape) list \<Rightarrow> nat \<Rightarrow> nat" where
  \<comment> \<open>how many of the requests before number \<open>i\<close> have the same key\<close>
  "earlier reqs i = length (filter (\<lambda>(p, s). id_key_of p s =
     id_key_of (fst (reqs ! i)) (snd (reqs ! i))) (take i reqs))"

lemma allocate_all_ids:
  "length (fst (allocate_all reqs w)) = length reqs \<and>
   (\<forall>i < length reqs. fst (allocate_all reqs w) ! i =
      next_ids w (id_key_of (fst (reqs ! i)) (snd (reqs ! i))) + of_nat (earlier reqs i))"
proof (induction reqs arbitrary: w)
  case Nil
  then show ?case by simp
next
  case (Cons r reqs)
  obtain p s where r: "r = (p, s)" by (cases r)
  let ?k = "id_key_of p s"
  let ?w1 = "w\<lparr>next_ids := (next_ids w)(?k := next_ids w ?k + 1)\<rparr>"
  have ids: "fst (allocate_all (r # reqs) w) = next_ids w ?k # fst (allocate_all reqs ?w1)"
    by (simp add: r AllocateNextGlobalId_def Let_def case_prod_unfold)
  have "fst (allocate_all (r # reqs) w) ! i =
      next_ids w (id_key_of (fst ((r # reqs) ! i)) (snd ((r # reqs) ! i))) +
      of_nat (earlier (r # reqs) i)" if i: "i < length (r # reqs)" for i
  proof (cases i)
    case 0
    then show ?thesis by (simp only: ids) (simp add: r earlier_def)
  next
    case (Suc j)
    then show ?thesis using i Cons.IH[of ?w1]
      by (simp only: ids) (auto simp: r earlier_def algebra_simps)
  qed
  then show ?case using Cons.IH[of ?w1] ids by simp
qed

text \<open>
  Array ids: the arrays that a processor creates for one mesh are numbered 0, 1, 2 and so on,
  whatever it and other processors create in between. So processors that create the same arrays on
  a mesh in the same order give them the same ids, and \<open>UniqueId\<close> names the array.
\<close>

theorem array_ids:
  assumes "next_ids w = (\<lambda>_. 0)"
  shows "length (fst (allocate_all reqs w)) = length reqs \<and>
    (\<forall>i < length reqs. fst (allocate_all reqs w) ! i = of_nat (earlier reqs i))"
  using allocate_all_ids[of reqs w] assms by simp

definition empty_runtime :: array_runtime where
  "empty_runtime = \<lparr>trace_of = [], pending_ops = 0, next_ids = \<lambda>_. 0, tile_cache = \<lambda>_. [],
     allocation_counts = \<lambda>_ _. 0\<rparr>"

definition example_shape :: sharded_shape where
  "example_shape = \<lparr>shp_type = F32, shp_sharding = \<lparr>sh_dims =
     [\<lparr>dim_size = 8, dim_sharding = 2, dim_permutation = 0\<rparr>,
      \<lparr>dim_size = 1, dim_sharding = 2, dim_permutation = 1\<rparr>], sh_devices = dl_ctor 0 4\<rparr>\<rparr>"

definition cpu :: "int \<Rightarrow> processor" where
  "cpu i = \<lparr>pr_type = CPU, pr_proc = nat i + 10, local_id = i, global_id = i\<rparr>"

theorem array_ids_witness:
  "let reqs = [(cpu 0, example_shape), (cpu 1, example_shape), (cpu 0, example_shape)]
   in length (fst (allocate_all reqs empty_runtime)) = length reqs \<and>
      (\<forall>i < length reqs. fst (allocate_all reqs empty_runtime) ! i = of_nat (earlier reqs i))"
  unfolding Let_def by (rule array_ids) (simp add: empty_runtime_def)

section \<open>Creation\<close>

lemma total_shards_ok:
  assumes "sharding_ok s"
  shows "total_shards (sh_dims s) = ret (dl_size (sh_devices s))"
proof -
  have p: "prod_list (map dim_sharding (sh_dims s)) = dl_size (sh_devices s)"
    using assms by (simp add: sharding_ok_def)
  have "foldR (\<lambda>n dim. mul64 n (dim_sharding dim)) 1 (sh_dims s) =
      ret (1 * prod_list (map dim_sharding (sh_dims s)))"
  proof (rule foldR_product[where g = dim_sharding])
    fix acc x assume "x \<in> set (sh_dims s)" "1 \<le> acc" "acc * dim_sharding x \<le> int64_max"
    moreover have "1 \<le> dim_sharding x"
      using assms \<open>x \<in> set (sh_dims s)\<close> by (auto dest: sharding_ok_dim simp: dim_ok_def)
    ultimately show "mul64 acc (dim_sharding x) = ret (acc * dim_sharding x)"
      by (simp add: mul64_ge1)
  next
    show "1 * prod_list (map dim_sharding (sh_dims s)) \<le> int64_max"
      using devices_ok[OF assms] p by simp
  qed (use assms in \<open>auto dest: sharding_ok_dim simp: dim_ok_def\<close>)
  then show ?thesis using p by (simp add: total_shards_def)
qed

lemma int64_dim_size:
  assumes "sharding_ok s" and "d \<in> set (sh_dims s)"
  shows "int64_ok (dim_size d)"
proof -
  have ge1: "1 \<le> dim_size d" if "d \<in> set (sh_dims s)" for d
    using that assms(1) by (auto dest: sharding_ok_dim simp: dim_ok_def)
  then have "dim_size d \<le> elements s"
    unfolding elements_def using assms(2) by (intro prod_list_member_le)
  then show ?thesis
    using ge1[OF assms(2)] assms(1) by (intro int64_okI) (auto dest: sharding_ok_elements)
qed

lemma tiled_dims_ok:
  assumes "sharding_ok s"
  shows "tiled_dims (sh_dims s) =
    ret (map (\<lambda>d. dim_size d div dim_sharding d) (real_dims (sh_dims s)))"
proof -
  have "foldR (\<lambda>acc dim. if dim_size dim \<ge> dim_sharding dim
          then andThen (div64 (dim_size dim) (dim_sharding dim)) (\<lambda>n. ret (acc @ [n])) else ret acc)
        acc ds = ret (acc @ map (\<lambda>d. dim_size d div dim_sharding d) (real_dims ds))"
    if "\<And>d. d \<in> set ds \<Longrightarrow> dim_ok d \<and> int64_ok (dim_size d)" for acc ds
    using that
  proof (induction ds arbitrary: acc)
    case Nil
    then show ?case by simp
  next
    case (Cons d ds)
    then have d: "dim_ok d" "int64_ok (dim_size d)" by auto
    show ?case
    proof (cases "is_repl_dim d")
      case True
      then show ?thesis using Cons by (auto simp: is_repl_dim_def)
    next
      case False
      then have "dim_sharding d dvd dim_size d" "1 \<le> dim_size d" "1 \<le> dim_sharding d"
        using d(1) by (auto simp: dim_ok_def)
      moreover from this have "dim_sharding d \<le> dim_size d" by (simp add: zdvd_imp_le)
      moreover from calculation have "div64 (dim_size d) (dim_sharding d) =
          ret (dim_size d div dim_sharding d)" using d(2) by (intro div64_ok) auto
      ultimately show ?thesis using Cons False by simp
    qed
  qed
  moreover have "dim_ok d \<and> int64_ok (dim_size d)" if "d \<in> set (sh_dims s)" for d
    using that assms int64_dim_size by (auto dest: sharding_ok_dim)
  ultimately show ?thesis by (simp add: tiled_dims_def)
qed

text \<open>The extents of a tile multiply to the number of local elements, which \<open>size_t\<close> can hold.\<close>

lemma num_elements_prod:
  assumes "\<And>d. d \<in> set (tsh_dims (at_shape a)) \<Longrightarrow> 1 \<le> d"
    and "prod_list (tsh_dims (at_shape a)) \<le> int64_max"
  shows "num_elements a = prod_list (tsh_dims (at_shape a))"
proof -
  let ?ds = "tsh_dims (at_shape a)"
  have "foldl (\<lambda>size dim. size * word_of_int dim) (word_of_int acc :: 64 word) ds =
      word_of_int (acc * prod_list ds)" for acc ds
    by (induction ds arbitrary: acc) (simp_all add: ac_simps flip: of_int_mult)
  from this[of 1 ?ds] have "num_elements a = sint (word_of_int (prod_list ?ds) :: 64 word)"
    by (simp add: num_elements_def)
  moreover have "1 \<le> prod_list ?ds" using prod_list_ge1[of ?ds "\<lambda>d. d"] assms(1) by simp
  ultimately show ?thesis using assms(2) by (simp add: sint_of_int_small)
qed

lemma tile_elements_max: "sharding_ok s \<Longrightarrow> tile_elements s \<le> int64_max"
proof -
  assume s: "sharding_ok s"
  have "1 * tile_elements s \<le> tiles s * tile_elements s"
    using tiles_ge1[OF s] tile_elements_ge1[OF s] by (intro mult_right_mono) auto
  then show ?thesis using tiles_times_elements[OF s] sharding_ok_elements[OF s] by simp
qed

lemma tile_shape_for_ok:
  assumes "sharding_ok (shp_sharding shape)" and "rank_supported max_dim (shp_sharding shape)"
    and "0 \<le> r" and "r < dl_size (sh_devices (shp_sharding shape))"
  shows "tile_shape_for max_dim shape r = ret \<lparr>tsh_type = shp_type shape,
    tsh_dims = map (\<lambda>d. dim_size d div dim_sharding d) (real_dims (sh_dims (shp_sharding shape))),
    tsh_bounds = tile_box r (shp_sharding shape)\<rparr>"
  using assms by (simp add: tile_shape_for_def tiled_dims_ok ComputeTileBounds_ok)

text \<open>
  Without the tile cache, making a tile leaves the counts of allocations alone and either gives a
  tile of the shape asked for or fails with an allocation failure.
\<close>

lemma counts_invoke [simp]:
  fixes w :: "'z array_runtime_scheme"
  shows "allocation_counts (snd (invoke rl c w)) = allocation_counts w"
    and "allocation_counts (command rl c w) = allocation_counts w"
  by (simp_all add: invoke_def command_def)

lemma TryAllocation_total:
  fixes w :: "'z array_runtime_scheme"
  assumes "Util_proc t = ret u"
  shows "\<exists>e i ok (w' :: 'z array_runtime_scheme).
    TryAllocation rl t bounds memory n w = ret (e, i, ok, w') \<and>
    allocation_counts w' = allocation_counts w"
proof (cases "rect_rank bounds > 0")
  case True
  then show ?thesis using assms
    by (simp add: TryAllocation_def new_allocation_result_def check_allocation_task_def Let_def
        case_prod_unfold)
next
  case False
  then show ?thesis by (auto simp: TryAllocation_def)
qed

lemma ArrayTile_Create_uncached:
  fixes w :: "'z array_runtime_scheme"
  assumes "Util_proc t = ret u" and "tsh_type shape \<noteq> C128"
  obtains (made) e i ty and w' :: "'z array_runtime_scheme"
    where "ArrayTile_Create rl t False shape mk (Some p) w =
        ret (e, \<lparr>at_instance = i, at_shape = shape, at_type = ty\<rparr>, w')"
      and "allocation_counts w' = allocation_counts w"
  | (full) "ArrayTile_Create rl t False shape mk (Some p) w =
      fail (AllocationFailure ''failed allocating tile'')"
proof -
  obtain ty where ty: "ToRealmTypeVariant (tsh_type shape) = ret ty"
    using assms(2) by (cases "tsh_type shape") auto
  obtain m w1 where m: "invoke rl (QueryMemory (pr_proc p) mk) w = (m, w1)" by fastforce
  have w1: "allocation_counts w1 = allocation_counts w"
    using counts_invoke(1)[of rl "QueryMemory (pr_proc p) mk" w] by (simp add: m)
  let ?size = "SupportedTypeSizeOf (tsh_type shape)"
  obtain e i ok w2 where a: "TryAllocation rl t (tsh_bounds shape) m ?size w1 = ret (e, i, ok, w2)"
    "allocation_counts w2 = allocation_counts w1" using TryAllocation_total[OF assms(1)] by metis
  obtain e' i' ok' w3 where b: "TryAllocation rl t (tsh_bounds shape) m ?size w2 = ret (e', i', ok', w3)"
    "allocation_counts w3 = allocation_counts w2" using TryAllocation_total[OF assms(1)] by metis
  have "ArrayTile_Create rl t False shape mk (Some p) w =
      (if ok then ret (e, \<lparr>at_instance = i, at_shape = shape, at_type = ty\<rparr>, w2)
       else if ok' then ret (e', \<lparr>at_instance = i', at_shape = shape, at_type = ty\<rparr>, w3)
       else fail (AllocationFailure ''failed allocating tile''))"
    by (simp add: ArrayTile_Create_def GetTile_def ClearTiles_def ty m a(1) b(1))
  then show thesis using made full a b w1 by (cases ok; cases ok') auto
qed

text \<open>
  C37. Creating an array on a device of its mesh, without the tile cache: either the memory is full and
  the failure names the array's shape, or the array's tile is the one of the device's position in
  the mesh, its rectangle has as many points as the tile has elements, and one more array of the
  shape is counted.
\<close>

theorem create_tile_matches:
  fixes w :: "'z array_runtime_scheme"
  assumes ok: "sharding_ok (shp_sharding shape)" "rank_supported max_dim (shp_sharding shape)"
    and type: "shp_type shape \<noteq> C128" and util: "Util_proc t = ret u"
    and member: "dl_shard_id (sh_devices (shp_sharding shape)) (global_id (ctor_processor ctor)) = Some r"
    and ctor: "ctor_shard_id ctor = None"
    and count: "int64_ok (allocation_counts w (proc_key_of (ctor_processor ctor)) shape + 1)"
  shows "case ShardedArray_Create rl t False max_dim shape ctor w of
      Inl e \<Rightarrow> e = AllocationFailure (''Failed to allocate sharded shape '' @ show_sharded_shape shape)
    | Inr (st, w') \<Rightarrow> \<exists>a tile n. store_value st = Some a \<and> sa_shape a = shape \<and> sa_shard_id a = r \<and>
        sa_tile a = Some tile \<and>
        ComputeTileBounds max_dim r (shp_sharding shape) = ret (tsh_bounds (at_shape tile)) \<and>
        num_elements tile = n \<and> ComputeRealmShapeSize (tsh_bounds (at_shape tile)) = ret n \<and>
        NumLocalElements (shp_sharding shape) = ret n \<and>
        allocation_counts w' (proc_key_of (ctor_processor ctor)) shape =
          allocation_counts w (proc_key_of (ctor_processor ctor)) shape + 1"
proof -
  let ?s = "shp_sharding shape" and ?p = "ctor_processor ctor"
  define ts where "ts = \<lparr>tsh_type = shp_type shape,
    tsh_dims = map (\<lambda>d. dim_size d div dim_sharding d) (real_dims (sh_dims ?s)),
    tsh_bounds = tile_box r ?s\<rparr>"
  have r: "0 \<le> r" "r < dl_size (sh_devices ?s)"
    and cont: "dl_contains (sh_devices ?s) (global_id ?p)"
    and rd: "global_id ?p - dl_start (sh_devices ?s) = r"
    using member by (auto simp: dl_defs split: if_splits)
  have shape_ok: "tile_shape_for max_dim shape r = ret ts"
    using tile_shape_for_ok[OF ok r] by (simp add: ts_def)
  have create: "ShardedArray_Create rl t False max_dim shape ctor w =
      create_with_tile rl t False max_dim shape ctor r w"
    using total_shards_ok[OF ok(1)] cont ctor rd by (simp add: ShardedArray_Create_def)
  have "tsh_type ts \<noteq> C128" using type by (simp add: ts_def)
  from ArrayTile_Create_uncached[OF util this] consider
      (full) "ArrayTile_Create rl t False ts (ctor_memory ctor) (Some ?p) w =
        fail (AllocationFailure ''failed allocating tile'')"
    | (made) e i ty and w1 :: "'z array_runtime_scheme"
      where "ArrayTile_Create rl t False ts (ctor_memory ctor) (Some ?p) w =
        ret (e, \<lparr>at_instance = i, at_shape = ts, at_type = ty\<rparr>, w1)"
        and "allocation_counts w1 = allocation_counts w" by metis
  then show ?thesis
  proof cases
    case full
    then show ?thesis by (simp add: create create_with_tile_def shape_ok)
  next
    case (made e i ty w1)
    have "prod_list (tsh_dims ts) = tile_elements ?s"
      by (simp add: ts_def tile_elements_def)
    moreover have "1 \<le> d" if "d \<in> set (tsh_dims ts)" for d
      using that ok(1) by (auto simp: ts_def dest: sharding_ok_dim real_dim_tile_ge1)
    ultimately have "num_elements \<lparr>at_instance = i, at_shape = ts, at_type = ty\<rparr> = tile_elements ?s"
      using num_elements_prod[of "\<lparr>at_instance = i, at_shape = ts, at_type = ty\<rparr>"]
        tile_elements_max[OF ok(1)] by simp
    moreover have "tsh_bounds ts = tile_box r ?s" by (simp add: ts_def)
    ultimately show ?thesis using made(2) count r ok
      by (simp add: create create_with_tile_def shape_ok made(1) bump_count_def add64_ok
          ShardedArray_construct_def AllocateNextGlobalId_def Let_def case_prod_unfold
          Store_DeferredCreate_def ComputeTileBounds_ok tile_box_size NumLocalElements_ok
          split: option.splits)
  qed
qed

text \<open>Two devices of the mesh 0 to 3 share each half of the example array; device 2 has the second half.\<close>

lemma example_shape_ok: "sharding_ok (shp_sharding example_shape)"
  "rank_supported 3 (shp_sharding example_shape)"
  by (auto simp: sharding_ok_def example_shape_def dl_defs dim_ok_def is_repl_dim_def size_of_def
      elements_def device_list_ok_def rank_supported_def int64_max_def)

definition example_ctor :: array_ctor where
  "example_ctor = \<lparr>ctor_assigned_id = None, ctor_name = None, ctor_shard_id = None,
     ctor_processor = cpu 2, ctor_memory = None\<rparr>"

lemma example_created:
  "\<exists>st w'. ShardedArray_Create fresh_realm util_tables False 3 example_shape example_ctor empty_runtime =
     ret (st, w')"
proof -
  have shape: "tile_shape_for 3 example_shape 2 = ret \<lparr>tsh_type = F32, tsh_dims = [4],
      tsh_bounds = tile_box 2 (shp_sharding example_shape)\<rparr>"
    using tile_shape_for_ok[OF example_shape_ok, of 2]
    by (simp add: example_shape_def dl_defs is_repl_dim_def)
  have bounds: "rect_rank (tile_box 2 (shp_sharding example_shape)) > 0"
    by (simp add: tile_box_def box_of_def)
  have devices: "dl_contains (sh_devices (shp_sharding example_shape)) 2"
    "dl_start (sh_devices (shp_sharding example_shape)) = 0"
    by (simp_all add: example_shape_def dl_defs)
  show ?thesis
    using total_shards_ok[OF example_shape_ok(1)]
    by (simp add: ShardedArray_Create_def example_ctor_def cpu_def devices create_with_tile_def
        shape ArrayTile_Create_def GetTile_def TryAllocation_def bounds new_allocation_result_def
        check_allocation_task_def invoke_def command_def fresh_realm_def bump_count_def
        ShardedArray_construct_def AllocateNextGlobalId_def empty_runtime_def add64_def
        chk_def Let_def)
qed

theorem create_tile_matches_witness:
  "\<exists>st w' a tile. ShardedArray_Create fresh_realm util_tables False 3 example_shape example_ctor
       empty_runtime = ret (st, w') \<and> store_value st = Some a \<and> sa_shard_id a = 2 \<and>
     sa_tile a = Some tile \<and> NumLocalElements (shp_sharding example_shape) = ret (num_elements tile)"
proof -
  obtain st w' where c: "ShardedArray_Create fresh_realm util_tables False 3 example_shape
      example_ctor empty_runtime = ret (st, w')"
    using example_created by blast
  have "shp_type example_shape \<noteq> C128" by (simp add: example_shape_def)
  moreover have "dl_shard_id (sh_devices (shp_sharding example_shape))
      (global_id (ctor_processor example_ctor)) = Some 2" "ctor_shard_id example_ctor = None"
    by (simp_all add: example_shape_def example_ctor_def cpu_def dl_defs)
  moreover have "int64_ok (allocation_counts empty_runtime
      (proc_key_of (ctor_processor example_ctor)) example_shape + 1)"
    by (simp add: empty_runtime_def)
  ultimately show ?thesis
    using create_tile_matches[OF example_shape_ok _ Util_proc_util_tables, of example_ctor 2
        empty_runtime fresh_realm] c by fastforce
qed

text \<open>
  The destructor takes one off a count that only a tile's creation adds to: an array without a
  shard on this process drives the count of its shape below zero.
\<close>

lemma destroy_without_tile:
  assumes "total_shards (sh_dims (shp_sharding shape)) = ret (dl_size (sh_devices (shp_sharding shape)))"
    and "ctor_shard_id ctor = None"
    and "\<not> dl_contains (sh_devices (shp_sharding shape)) (global_id (ctor_processor ctor))"
    and "allocation_counts w (proc_key_of (ctor_processor ctor)) shape = 0"
  shows "\<exists>st a w1 w2. ShardedArray_Create rl t cached max_dim shape ctor w = ret (st, w1) \<and>
    store_value st = Some a \<and> \<not> HasTile a \<and> ShardedArray_destroy a w1 = ret w2 \<and>
    allocation_counts w2 (proc_key_of (ctor_processor ctor)) shape = -1"
proof -
  obtain a w1 where a: "ShardedArray_construct shape ctor None w = (a, w1)" by fastforce
  then have "sa_tile a = None" "sa_proc a = ctor_processor ctor" "sa_shape a = shape"
    "allocation_counts w1 = allocation_counts w"
    by (auto simp: ShardedArray_construct_def AllocateNextGlobalId_def Let_def split: option.splits)
  then show ?thesis using assms a
    by (simp add: ShardedArray_Create_def Store_Create_def HasTile_def ShardedArray_destroy_def
        bump_count_def add64_def chk_def int64_ok_def int64_min_def int64_max_def)
qed

section \<open>Moves\<close>

text \<open>
  C38. A move between memories: the copy of the whole tile waits for every access that either store has
  recorded and for the event that is asked for, both stores are ready only after it, and the target
  takes over the source's id and keeps its own shape and instance.
\<close>

theorem move_to_memory_order:
  fixes w w' :: "'z array_runtime_scheme"
  assumes "MoveToMemory rl src dst pre w = ret (src', dst', w')"
    and "store_value src = Some sa" and "sa_tile sa = Some stile"
  shows "\<exists>da dtile cond copy. store_value dst = Some da \<and> sa_tile da = Some dtile \<and>
    (RectCopy (tsh_bounds (at_shape stile)) (SupportedTypeSizeOf (shp_type (sa_shape sa)))
       (at_instance stile) (at_instance dtile) cond, copy) \<in> set (trace_of w') \<and>
    (\<forall>d \<in> ep_effects ` (set_option (war_pre src) \<union> set_option (child_rw src) \<union>
        set_option (war_pre dst) \<union> set_option (child_rw dst)) \<union> set_option pre.
       depends (trace_of w') copy d) \<and>
    (\<exists>p. child_rw src' = Some p \<and> depends (trace_of w') (ep_effects p) copy) \<and>
    (\<exists>p. child_rw dst' = Some p \<and> depends (trace_of w') (ep_effects p) copy) \<and>
    store_value src' = Some sa \<and> store_value dst' = Some (da\<lparr>sa_mesh_id := sa_mesh_id sa\<rparr>)"
proof -
  obtain da dtile where da: "store_value dst = Some da" "sa_tile da = Some dtile"
    using assms by (auto simp: MoveToMemory_def store_get_def HasTile_def array_tile_of_def
        opt_get_def andThen_eq_ret split: option.splits)
  obtain sp w1 where 1: "store_Precondition rl src w = (sp, w1)" by fastforce
  obtain dp w2 where 2: "store_Precondition rl dst w1 = (dp, w2)" by fastforce
  obtain cond w3 where 3: "invoke rl (MergeEvents [sp, dp, value_or pre NO_EVENT]) w2 = (cond, w3)"
    by fastforce
  let ?copy = "RectCopy (tsh_bounds (at_shape stile)) (SupportedTypeSizeOf (shp_type (sa_shape sa)))
       (at_instance stile) (at_instance dtile) cond"
  obtain copy w4 where 4: "invoke rl ?copy w3 = (copy, w4)" by fastforce
  obtain s5 w5 where 5: "store_ReadyAfter rl copy src w4 = (s5, w5)" by fastforce
  obtain d6 w6 where 6: "store_ReadyAfter rl copy dst w5 = (d6, w6)" by fastforce
  have src': "src' = s5" and dst': "dst' = d6\<lparr>store_value := Some (ReassignId (sa_mesh_id sa) da)\<rparr>"
    and w': "w' = w6"
    using assms da 1 2 3 4 5 6
    by (auto simp: MoveToMemory_def store_get_def HasTile_def array_tile_of_def Let_def)
  have e1: "extends (trace_of w1) (trace_of w)" using 1 by (rule store_Precondition_extends)
  have e2: "extends (trace_of w2) (trace_of w1)" using 2 by (rule store_Precondition_extends)
  have e3: "extends (trace_of w3) (trace_of w2)" using 3 extends_invoke by (metis snd_conv)
  have e4: "extends (trace_of w4) (trace_of w3)" using 4 extends_invoke by (metis snd_conv)
  have e5: "extends (trace_of w5) (trace_of w4)"
    using 5 by (auto simp: store_ReadyAfter_def intro: store_ReadyAfter2_extends)
  have e6: "extends (trace_of w6) (trace_of w5)"
    using 6 by (auto simp: store_ReadyAfter_def intro: store_ReadyAfter2_extends)
  have m: "(MergeEvents [sp, dp, value_or pre NO_EVENT], cond) \<in> set (trace_of w3)"
    using 3 by (auto simp: invoke_def)
  have c: "(?copy, copy) \<in> set (trace_of w4)" using 4 by (auto simp: invoke_def)
  have e46: "extends (trace_of w6) (trace_of w4)" using e6 e5 by (rule extends_trans)
  have cond: "depends (trace_of w6) copy x" if "depends (trace_of w3) cond x" for x
    using deps.after_copy[OF c] that e4 e46 depends_extends depends_trans by meson
  have in_merge: "depends (trace_of w3) cond x" if "x \<in> {sp, dp, value_or pre NO_EVENT}" for x
    using deps.after_merge[OF m] that by auto
  have "depends (trace_of w6) copy d" if "deps.covered_read (trace_of w) src d" for d
    using deps.Precondition_after[OF 1 that] e2 e3 in_merge[of sp] cond
    by (meson depends_extends depends_trans insertI1)
  moreover have "depends (trace_of w6) copy d" if "deps.covered_read (trace_of w) dst d" for d
    using deps.Precondition_after[OF 2 deps.covered_extends(2)[OF e1 that]] e3 in_merge[of dp] cond
    by (meson depends_extends depends_trans insertI1 insertI2)
  moreover have "depends (trace_of w6) copy d" if "pre = Some d" for d
    using cond in_merge[of d] that by (simp add: value_or_def)
  ultimately have before: "\<forall>d \<in> ep_effects ` (set_option (war_pre src) \<union> set_option (child_rw src) \<union>
      set_option (war_pre dst) \<union> set_option (child_rw dst)) \<union> set_option pre.
       depends (trace_of w6) copy d"
    by (fastforce simp: deps.covered_read_def deps.covered_write_def)
  have "deps.covered_write (trace_of w6) s5 copy"
    using deps.covered_extends(1)[OF e6] deps.ReadyAfter2_covers(1) 5
    unfolding store_ReadyAfter_def by blast
  moreover have "deps.covered_write (trace_of w6) d6 copy"
    using deps.ReadyAfter2_covers(1) 6 unfolding store_ReadyAfter_def by blast
  moreover have "store_value s5 = Some sa"
    using 5 assms(2) by (auto simp: store_ReadyAfter_def store_ReadyAfter2_def
        split: option.splits prod.splits)
  ultimately show ?thesis
    using da before extends_set[OF e46 c]
    by (auto simp: src' dst' w' deps.covered_write_def ReassignId_def)
qed

definition example_array :: "64 word \<Rightarrow> inst \<Rightarrow> sharded_array" where
  "example_array i inst = \<lparr>sa_mesh_id = i, sa_shape = example_shape, sa_shard_id = 0,
     sa_proc = cpu 0, sa_name = None, sa_tile = Some \<lparr>at_instance = inst, at_shape =
       \<lparr>tsh_type = F32, tsh_dims = [4],
        tsh_bounds = \<lparr>rect_rank = 1, rect_lo = [0], rect_hi = [3]\<rparr>\<rparr>, at_type = Int32\<rparr>\<rparr>"

theorem move_to_memory_order_witness:
  "\<exists>src' dst' w' cond copy.
     MoveToMemory fresh_realm (Store_DeferredCreate 100 (example_array 0 50))
       (Store_DeferredCreate 200 (example_array 1 60)) None empty_runtime = ret (src', dst', w') \<and>
     (RectCopy \<lparr>rect_rank = 1, rect_lo = [0], rect_hi = [3]\<rparr> 4 50 60 cond, copy) \<in> set (trace_of w') \<and>
     depends (trace_of w') copy 100 \<and> depends (trace_of w') copy 200"
proof -
  let ?src = "Store_DeferredCreate 100 (example_array 0 50)"
  let ?dst = "Store_DeferredCreate 200 (example_array 1 60)"
  obtain src' dst' and w' :: array_runtime
    where run: "MoveToMemory fresh_realm ?src ?dst None empty_runtime = ret (src', dst', w')"
    by (simp add: MoveToMemory_def store_get_def HasTile_def array_tile_of_def example_array_def
        Store_DeferredCreate_def store_ops merge2_def invoke_def empty_runtime_def Let_def)
  have v: "store_value ?src = Some (example_array 0 50)"
    "sa_tile (example_array 0 50) = Some \<lparr>at_instance = 50, at_shape = \<lparr>tsh_type = F32,
       tsh_dims = [4], tsh_bounds = \<lparr>rect_rank = 1, rect_lo = [0], rect_hi = [3]\<rparr>\<rparr>, at_type = Int32\<rparr>"
    by (simp_all add: Store_DeferredCreate_def example_array_def)
  show ?thesis
    using move_to_memory_order[OF run v] run
    by (auto simp: Store_DeferredCreate_def example_array_def example_shape_def)
qed

end
