(* ===== verification/Reshard_Manager.thy ===== *)
theory Reshard_Manager
  imports Sharded_Array
begin

text \<open>
  \<open>src/zuku/reshard_manager.cc\<close>: the pairing of the two ends of a reshard. Each process has one
  manager with a record per \<open>ReshardKey\<close>: the two barriers and the operations of this end that
  wait for a partner. A target on another process announces its instance with a message, the
  source announces once the barrier it acknowledges its copies on.
  An operation holds the manager's lock from its first access to its last, so an operation is one
  step. Log lines and profiling regions are left out, with the events that are merged only to be
  printed.
\<close>

section \<open>State\<close>

record pending_op =
  op_precondition :: event
  op_postcondition :: event
  op_instance :: inst

record p2p =
  target_ready_barrier :: event
  ack_done_barrier :: event
  p2p_shape :: "rect option"
  p2p_field_size :: int
  pending_source :: "pending_op list"
  pending_dest :: "pending_op list"
  p2p_exists :: bool
  p2p_name :: "string option"

text \<open>\<open>operator[]\<close> of the map makes a missing record; its shape is not initialised.\<close>

definition new_p2p :: p2p where
  "new_p2p = \<lparr>target_ready_barrier = NO_EVENT, ack_done_barrier = NO_EVENT, p2p_shape = None,
     p2p_field_size = 0, pending_source = [], pending_dest = [], p2p_exists = False,
     p2p_name = None\<rparr>"

type_synonym reshard_manager = "reshard_key \<Rightarrow> p2p"

definition GetManager :: reshard_manager where
  \<comment> \<open>the singleton, before its first use\<close>
  "GetManager = (\<lambda>_. new_p2p)"

definition ReshardManager_destroy ::
  "realm \<Rightarrow> reshard_key list \<Rightarrow> reshard_manager \<Rightarrow> 'z runtime_scheme \<Rightarrow> 'z runtime_scheme" where
  \<comment> \<open>over the entries of the map, in its unspecified order\<close>
  "ReshardManager_destroy rl keys mgr w =
     foldl (\<lambda>w key. if ack_done_barrier (mgr key) \<noteq> NO_EVENT
                    then command rl (DestroyBarrier (ack_done_barrier (mgr key))) w else w) w keys"

section \<open>Protocol and name\<close>

datatype protocol = RENDEZVOUS | EAGER

definition kEagerCutoffBytes :: "64 word" where "kEagerCutoffBytes = 0"

definition GetProtocol :: "array_tile \<Rightarrow> protocol" where
  "GetProtocol tile = (if byte_size tile < kEagerCutoffBytes then EAGER else RENDEZVOUS)"

fun comma_separated :: "int list \<Rightarrow> string" where
  "comma_separated [] = ''''"
| "comma_separated [n] = show_int n"
| "comma_separated (n # ns) = show_int n @ '','' @ comma_separated ns"

definition ReshardName :: "sharded_array \<Rightarrow> sharded_array \<Rightarrow> string res" where
  "ReshardName src dst =
     andThen
       (if HasTile src
        then andThen (array_tile_of src) (\<lambda>tile. ret (sa_shard_id src, byte_size tile))
        else andThen (array_tile_of dst) (\<lambda>tile. ret (sa_shard_id dst, byte_size tile)))
       (\<lambda>(shard_id, bytes).
     let src_device = dl_index (sh_devices (shp_sharding (sa_shape src))) shard_id;
         dst_device = dl_index (sh_devices (shp_sharding (sa_shape dst))) shard_id;
         dims = sh_dims (shp_sharding (sa_shape dst))
     in andThen (if HasName dst then array_name src else ret '''') (\<lambda>name.
        ret (''reshard '' @ name @ '' ['' @ comma_separated (map dim_size dims) @ '']%['' @
             comma_separated (map dim_sharding dims) @ '']: '' @ show_int (uint bytes) @
             '' bytes '' @ show_int src_device @ ''->'' @ show_int dst_device)))"

section \<open>Copies\<close>

definition IssueCopy ::
  "realm \<Rightarrow> rect \<Rightarrow> int \<Rightarrow> inst \<Rightarrow> inst \<Rightarrow> event \<Rightarrow> 'z runtime_scheme \<Rightarrow>
   event \<times> 'z runtime_scheme" where
  "IssueCopy rl shape field_size src_instance dst_instance precondition w =
     invoke rl (RectCopy shape field_size src_instance dst_instance precondition) w"

definition get_shape :: "p2p \<Rightarrow> rect res" where
  "get_shape r = (case p2p_shape r of Some b \<Rightarrow> ret b | None \<Rightarrow> fail (Undefined Uninitialized))"

definition RemoteCopyNextPendingToTarget ::
  "realm \<Rightarrow> inst \<Rightarrow> inst \<Rightarrow> event \<Rightarrow> event \<Rightarrow> p2p \<Rightarrow> 'z runtime_scheme \<Rightarrow>
   (event \<times> p2p \<times> 'z runtime_scheme) res" where
  "RemoteCopyNextPendingToTarget rl src_instance dst_instance ready_barrier src_precondition r w =
     andThen (get_shape r) (\<lambda>shape.
     let (precondition, w1) = merge2 rl ready_barrier src_precondition w;
         (postcondition, w2) =
           IssueCopy rl shape (p2p_field_size r) src_instance dst_instance precondition w1
     in andThen (require (ack_done_barrier r \<noteq> NO_EVENT) AssertFailed) (\<lambda>_.
        let w3 = command rl (ArriveBarrier (ack_done_barrier r) 1 postcondition) w2;
            (next_ack, w4) = invoke rl (AdvanceBarrier (ack_done_barrier r)) w3
        in ret (postcondition, r\<lparr>ack_done_barrier := next_ack\<rparr>, w4)))"

section \<open>Messages\<close>

fun clear_pending_dest ::
  "realm \<Rightarrow> event \<Rightarrow> pending_op list \<Rightarrow> 'z runtime_scheme \<Rightarrow> (event \<times> 'z runtime_scheme) res" where
  \<comment> \<open>the loop of the target when the acknowledgement barrier arrives\<close>
  "clear_pending_dest rl ack [] w = ret (ack, w)"
| "clear_pending_dest rl ack (op # ops) w =
     (let (next_ack, w1) = invoke rl (AdvanceBarrier ack) w
      in andThen (require (op_postcondition op \<noteq> NO_EVENT) AssertFailed) (\<lambda>_.
         clear_pending_dest rl next_ack ops
           (command rl (TriggerEvent (op_postcondition op) ack) w1)))"

definition receive_instance ::
  "realm \<Rightarrow> event \<Rightarrow> inst \<Rightarrow> p2p \<Rightarrow> 'z runtime_scheme \<Rightarrow> (p2p \<times> 'z runtime_scheme) res" where
  "receive_instance rl barrier instance r w =
     andThen (require (barrier \<noteq> NO_EVENT) AssertFailed) (\<lambda>_.
     case pending_source r of
       op # ops \<Rightarrow>
         andThen (RemoteCopyNextPendingToTarget rl (op_instance op) instance barrier
                    (op_precondition op) r w) (\<lambda>(postcondition, r1, w1).
         ret (r1\<lparr>pending_source := ops\<rparr>,
              command rl (TriggerEvent (op_postcondition op) postcondition) w1))
     | [] \<Rightarrow>
         ret (r\<lparr>pending_dest := pending_dest r @
                [\<lparr>op_precondition = barrier, op_postcondition = NO_EVENT,
                  op_instance = instance\<rparr>]\<rparr>, w))"

definition receive_barrier ::
  "realm \<Rightarrow> event \<Rightarrow> p2p \<Rightarrow> 'z runtime_scheme \<Rightarrow> (p2p \<times> 'z runtime_scheme) res" where
  "receive_barrier rl barrier r w =
     andThen (require (barrier \<noteq> NO_EVENT) AssertFailed) (\<lambda>_.
     andThen (clear_pending_dest rl barrier (pending_dest r) w) (\<lambda>(ack, w1).
     ret (r\<lparr>ack_done_barrier := ack, pending_dest := []\<rparr>, w1)))"

definition receive_names ::
  "realm \<Rightarrow> event \<Rightarrow> inst \<Rightarrow> p2p \<Rightarrow> 'z runtime_scheme \<Rightarrow> (p2p \<times> 'z runtime_scheme) res" where
  "receive_names rl barrier instance r w =
     (if instance \<noteq> NO_INST then receive_instance rl barrier instance r w
      else receive_barrier rl barrier r w)"

definition ReceivePointToPointNames ::
  "realm \<Rightarrow> reshard_key \<Rightarrow> event \<Rightarrow> inst \<Rightarrow> reshard_manager \<Rightarrow> 'z runtime_scheme \<Rightarrow>
   (reshard_manager \<times> 'z runtime_scheme) res" where
  "ReceivePointToPointNames rl key barrier instance mgr w =
     andThen (receive_names rl barrier instance (mgr key) w) (\<lambda>(r, w').
     ret (mgr(key := r), w'))"

definition PointToPointNameHandler ::
  "realm \<Rightarrow> reshard_key \<times> event \<times> inst \<Rightarrow> reshard_manager \<Rightarrow> 'z runtime_scheme \<Rightarrow>
   (reshard_manager \<times> 'z runtime_scheme) res" where
  \<comment> \<open>the message is a \<open>PointToPointNameArgs\<close>\<close>
  "PointToPointNameHandler rl args mgr w =
     (case args of (key, barrier, instance) \<Rightarrow>
        ReceivePointToPointNames rl key barrier instance mgr w)"

section \<open>The source end\<close>

definition first_use :: "rect \<Rightarrow> supported_type \<Rightarrow> string res \<Rightarrow> p2p \<Rightarrow> p2p res" where
  \<comment> \<open>the block that both ends start with\<close>
  "first_use shape type name r =
     (if p2p_exists r then ret r
      else andThen name (\<lambda>n.
           ret (r\<lparr>p2p_field_size := SupportedTypeSizeOf type, p2p_shape := Some shape,
                  p2p_name := Some n, p2p_exists := True\<rparr>)))"

definition send_ack_barrier ::
  "realm \<Rightarrow> bool \<Rightarrow> realm_proc \<Rightarrow> reshard_key \<Rightarrow> p2p \<Rightarrow> 'z runtime_scheme \<Rightarrow>
   p2p \<times> 'z runtime_scheme" where
  "send_ack_barrier rl remote target key r w =
     (if remote \<and> ack_done_barrier r = NO_EVENT
      then (let (barrier, w1) = invoke rl (CreateBarrier 1) w
            in (r\<lparr>ack_done_barrier := barrier\<rparr>,
                command rl (SpawnNames target key barrier NO_INST) w1))
      else (r, w))"

definition source_pair ::
  "realm \<Rightarrow> bool \<Rightarrow> inst \<Rightarrow> event \<Rightarrow> p2p \<Rightarrow> 'z runtime_scheme \<Rightarrow>
   (event \<times> p2p \<times> 'z runtime_scheme) res" where
  "source_pair rl remote instance precondition r w =
     (case pending_dest r of
        [] \<Rightarrow>
          (let (pending, w1) = invoke rl CreateUserEvent w
           in ret (pending, r\<lparr>pending_source := pending_source r @
                [\<lparr>op_precondition = precondition, op_postcondition = pending,
                  op_instance = instance\<rparr>]\<rparr>, w1))
      | op # ops \<Rightarrow>
          andThen
            (if remote
             then RemoteCopyNextPendingToTarget rl instance (op_instance op) (op_precondition op)
                    precondition r w
             else
               andThen (get_shape r) (\<lambda>shape.
               let (combined, w1) = merge2 rl (op_precondition op) precondition w;
                   (postcondition, w2) =
                     IssueCopy rl shape (p2p_field_size r) instance (op_instance op) combined w1
               in andThen (require (ack_done_barrier r = NO_EVENT) AssertFailed) (\<lambda>_.
                  ret (postcondition, r,
                       command rl (TriggerEvent (op_postcondition op) postcondition) w2))))
            (\<lambda>(postcondition, r1, w3). ret (postcondition, r1\<lparr>pending_dest := ops\<rparr>, w3)))"

definition RendezvousReshardFromLocalSource ::
  "realm \<Rightarrow> machine \<Rightarrow> proc_tables \<Rightarrow> processor \<Rightarrow> rect \<Rightarrow> reshard_key \<Rightarrow>
   sharded_array view \<Rightarrow> sharded_array \<Rightarrow> reshard_manager \<Rightarrow> 'z runtime_scheme \<Rightarrow>
   (event \<times> reshard_manager \<times> 'z runtime_scheme) res" where
  "RendezvousReshardFromLocalSource rl m t p shape key src dst mgr w =
     andThen (view_get src) (\<lambda>sa.
     andThen (first_use shape (shp_type (sa_shape sa)) (ReshardName sa dst) (mgr key)) (\<lambda>r.
     andThen (HostForShard m t dst (key_dst_shard key)) (\<lambda>target.
     let remote = (space_of m (pr_proc p) \<noteq> space_of m target);
         (r1, w1) = send_ack_barrier rl remote target key r w
     in andThen (array_tile_of sa) (\<lambda>tile.
        andThen (source_pair rl remote (at_instance tile) (view_Precondition src) r1 w1)
          (\<lambda>(postcondition, r2, w2). ret (postcondition, mgr(key := r2), w2))))))"

definition ReshardFromLocalSource ::
  "realm \<Rightarrow> machine \<Rightarrow> proc_tables \<Rightarrow> processor \<Rightarrow> rect \<Rightarrow> reshard_key \<Rightarrow>
   sharded_array view \<Rightarrow> sharded_array \<Rightarrow> reshard_manager \<Rightarrow> 'z runtime_scheme \<Rightarrow>
   (event \<times> reshard_manager \<times> 'z runtime_scheme) res" where
  "ReshardFromLocalSource rl m t p shape key src dst mgr w =
     andThen (view_get src) (\<lambda>sa.
     andThen (array_tile_of sa) (\<lambda>tile.
     case GetProtocol tile of
       EAGER \<Rightarrow> fail (RuntimeError
         ''ReshardManager::EagerReshardFromLocalSource: not implemented'')
     | RENDEZVOUS \<Rightarrow> RendezvousReshardFromLocalSource rl m t p shape key src dst mgr w))"

section \<open>The target end\<close>

definition send_instance ::
  "realm \<Rightarrow> realm_proc \<Rightarrow> reshard_key \<Rightarrow> inst \<Rightarrow> sharded_array store \<Rightarrow> p2p \<Rightarrow>
   'z runtime_scheme \<Rightarrow> p2p \<times> 'z runtime_scheme" where
  "send_instance rl target key instance dst r w =
     (let (ready, w1) = (if target_ready_barrier r = NO_EVENT then invoke rl (CreateBarrier 1) w
                         else (target_ready_barrier r, w));
          w2 = command rl (SpawnNames target key ready instance) w1;
          (precondition, w3) = store_Precondition rl dst w2;
          w4 = command rl (ArriveBarrier ready 1 precondition) w3;
          (next_ready, w5) = invoke rl (AdvanceBarrier ready) w4
      in (r\<lparr>target_ready_barrier := next_ready\<rparr>, w5))"

definition target_wait ::
  "realm \<Rightarrow> inst \<Rightarrow> sharded_array store \<Rightarrow> p2p \<Rightarrow> 'z runtime_scheme \<Rightarrow>
   event \<times> p2p \<times> 'z runtime_scheme" where
  "target_wait rl instance dst r w =
     (if ack_done_barrier r = NO_EVENT
      then
        (let (pending, w1) = invoke rl CreateUserEvent w;
             (precondition, w2) = store_Precondition rl dst w1
         in (pending, r\<lparr>pending_dest := pending_dest r @
               [\<lparr>op_precondition = precondition, op_postcondition = pending,
                 op_instance = instance\<rparr>]\<rparr>, w2))
      else
        (let (next_ack, w1) = invoke rl (AdvanceBarrier (ack_done_barrier r)) w
         in (ack_done_barrier r, r\<lparr>ack_done_barrier := next_ack\<rparr>, w1)))"

definition target_pair ::
  "realm \<Rightarrow> inst \<Rightarrow> sharded_array store \<Rightarrow> pending_op \<Rightarrow> pending_op list \<Rightarrow> p2p \<Rightarrow>
   'z runtime_scheme \<Rightarrow> (event \<times> p2p \<times> 'z runtime_scheme) res" where
  \<comment> \<open>a source on this process is waiting\<close>
  "target_pair rl instance dst op ops r w =
     andThen (get_shape r) (\<lambda>shape.
     let (dst_precondition, w1) = store_Precondition rl dst w;
         (precondition, w2) = merge2 rl (op_precondition op) dst_precondition w1;
         (postcondition, w3) =
           IssueCopy rl shape (p2p_field_size r) (op_instance op) instance precondition w2
     in andThen (require (op_postcondition op \<noteq> NO_EVENT) AssertFailed) (\<lambda>_.
        ret (postcondition, r\<lparr>pending_source := ops\<rparr>,
             command rl (TriggerEvent (op_postcondition op) postcondition) w3)))"

definition RendezvousReshardToLocalTarget ::
  "realm \<Rightarrow> machine \<Rightarrow> proc_tables \<Rightarrow> processor \<Rightarrow> rect \<Rightarrow> reshard_key \<Rightarrow>
   sharded_array \<Rightarrow> sharded_array store \<Rightarrow> reshard_manager \<Rightarrow> 'z runtime_scheme \<Rightarrow>
   (event \<times> reshard_manager \<times> 'z runtime_scheme) res" where
  "RendezvousReshardToLocalTarget rl m t p shape key src dst mgr w =
     andThen (store_get dst) (\<lambda>da.
     andThen (first_use shape (shp_type (sa_shape src)) (ReshardName src da) (mgr key)) (\<lambda>r.
     andThen (array_tile_of da) (\<lambda>tile.
     case pending_source r of
       op # ops \<Rightarrow>
         andThen (target_pair rl (at_instance tile) dst op ops r w)
           (\<lambda>(postcondition, r1, w1). ret (postcondition, mgr(key := r1), w1))
     | [] \<Rightarrow>
         andThen (HostForShard m t src (key_src_shard key)) (\<lambda>target.
         let (r1, w1) =
               (if space_of m target \<noteq> space_of m (pr_proc p)
                then send_instance rl target key (at_instance tile) dst r w else (r, w));
             (postcondition, r2, w2) = target_wait rl (at_instance tile) dst r1 w1
         in ret (postcondition, mgr(key := r2), w2)))))"

definition ReshardToLocalTarget ::
  "realm \<Rightarrow> machine \<Rightarrow> proc_tables \<Rightarrow> processor \<Rightarrow> rect \<Rightarrow> reshard_key \<Rightarrow>
   sharded_array \<Rightarrow> sharded_array store \<Rightarrow> reshard_manager \<Rightarrow> 'z runtime_scheme \<Rightarrow>
   (event \<times> reshard_manager \<times> 'z runtime_scheme) res" where
  "ReshardToLocalTarget rl m t p shape key src dst mgr w =
     andThen (store_get dst) (\<lambda>da.
     andThen (array_tile_of da) (\<lambda>tile.
     case GetProtocol tile of
       EAGER \<Rightarrow> fail (RuntimeError
         ''ReshardManager::EagerReshardToLocalTarget: not implemented'')
     | RENDEZVOUS \<Rightarrow> RendezvousReshardToLocalTarget rl m t p shape key src dst mgr w))"

section \<open>Two queues that are matched in order\<close>

text \<open>
  What an end of an exchange offers, in the order of the calls: its instance, the events it waits
  for, and the event its caller was given, if a caller holds one.
\<close>

type_synonym offer = "inst \<times> event set \<times> event option"

abbreviation offer_inst :: "offer \<Rightarrow> inst" where "offer_inst x \<equiv> fst x"
abbreviation offer_waits :: "offer \<Rightarrow> event set" where "offer_waits x \<equiv> fst (snd x)"
abbreviation offer_event :: "offer \<Rightarrow> event option" where "offer_event x \<equiv> snd (snd x)"

fun swap_ends :: "inst \<times> inst \<times> event \<Rightarrow> inst \<times> inst \<times> event" where
  "swap_ends (a, b, c) = (b, a, c)"

context event_order
begin

definition waits_all :: "trace \<Rightarrow> event \<Rightarrow> event set \<Rightarrow> bool" where
  "waits_all tr e ds \<longleftrightarrow> (\<forall>d \<in> ds. after tr e d)"

definition op_ok :: "trace \<Rightarrow> pending_op \<Rightarrow> offer \<Rightarrow> bool" where
  "op_ok tr op x \<longleftrightarrow> op_instance op = offer_inst x \<and>
     op_postcondition op = (case offer_event x of Some e \<Rightarrow> e | None \<Rightarrow> NO_EVENT) \<and>
     offer_event x \<noteq> Some NO_EVENT \<and>
     waits_all tr (op_precondition op) (offer_waits x)"

definition pair_ok :: "trace \<Rightarrow> offer \<Rightarrow> offer \<Rightarrow> inst \<times> inst \<times> event \<Rightarrow> bool" where
  "pair_ok tr x y c \<longleftrightarrow> fst c = offer_inst x \<and> fst (snd c) = offer_inst y \<and>
     waits_all tr (snd (snd c)) (offer_waits x \<union> offer_waits y) \<and>
     (\<forall>e \<in> set_option (offer_event x) \<union> set_option (offer_event y). after tr e (snd (snd c)))"

text \<open>
  The offers \<open>xs\<close> and \<open>ys\<close> are matched by the copies \<open>cs\<close>, number by number, and what is
  left of the longer list is pending.
\<close>

definition matched ::
  "trace \<Rightarrow> pending_op list \<Rightarrow> pending_op list \<Rightarrow> offer list \<Rightarrow> offer list \<Rightarrow>
   (inst \<times> inst \<times> event) list \<Rightarrow> bool" where
  "matched tr px py xs ys cs \<longleftrightarrow> length cs = min (length xs) (length ys) \<and>
     list_all2 (op_ok tr) px (drop (length cs) xs) \<and> list_all2 (op_ok tr) py (drop (length cs) ys) \<and>
     (\<forall>k < length cs. pair_ok tr (xs ! k) (ys ! k) (cs ! k))"

lemma waits_all_extends: "extends tr' tr \<Longrightarrow> waits_all tr e ds \<Longrightarrow> waits_all tr' e ds"
  using after_extends unfolding waits_all_def by blast

lemma waits_all_trans:
  "after tr e x \<Longrightarrow> waits_all tr x ds \<Longrightarrow> waits_all tr e ds"
  using after_trans unfolding waits_all_def by blast

lemma op_ok_extends: "extends tr' tr \<Longrightarrow> op_ok tr op x \<Longrightarrow> op_ok tr' op x"
  using waits_all_extends unfolding op_ok_def by blast

lemma pair_ok_extends: "extends tr' tr \<Longrightarrow> pair_ok tr x y c \<Longrightarrow> pair_ok tr' x y c"
  using waits_all_extends after_extends unfolding pair_ok_def by blast

lemma matched_extends:
  assumes "extends tr' tr" and "matched tr px py xs ys cs"
  shows "matched tr' px py xs ys cs"
proof -
  have "list_all2 (op_ok tr') p zs" if "list_all2 (op_ok tr) p zs" for p zs
    using that op_ok_extends[OF assms(1)] by (rule list_all2_mono)
  then show ?thesis using assms(2) pair_ok_extends[OF assms(1)] unfolding matched_def by blast
qed

lemma matched_Nil: "matched tr [] [] [] [] []"
  by (simp add: matched_def)

lemma pair_ok_swap: "pair_ok tr y x (swap_ends c) \<longleftrightarrow> pair_ok tr x y c"
  by (cases c) (auto simp: pair_ok_def Un_commute)

lemma matched_swap:
  "matched tr py px ys xs (map swap_ends cs) \<longleftrightarrow> matched tr px py xs ys cs"
  unfolding matched_def by (auto simp: pair_ok_swap min.commute)

text \<open>A new offer on the first side waits when nothing is pending on the other \<dots>\<close>

lemma matched_wait:
  assumes m: "matched tr px [] xs ys cs" and ext: "extends tr' tr" and x: "op_ok tr' op x"
  shows "matched tr' (px @ [op]) [] (xs @ [x]) ys cs"
proof -
  have m': "matched tr' px [] xs ys cs" using matched_extends[OF ext m] .
  then have len: "length ys \<le> length cs" "length cs = min (length xs) (length ys)"
    by (auto simp: matched_def)
  then have "length cs \<le> length xs" "length cs = min (length (xs @ [x])) (length ys)" by auto
  then show ?thesis
    using m' x by (auto simp: matched_def nth_append intro!: list_all2_appendI)
qed

text \<open>\<dots> and is matched with the first pending one otherwise.\<close>

lemma matched_pair:
  assumes m: "matched tr px (op # ops) xs ys cs" and ext: "extends tr' tr"
    and c: "fst c = offer_inst x" "fst (snd c) = op_instance op"
    and pre: "after tr' (snd (snd c)) (op_precondition op)" "waits_all tr' (snd (snd c)) (offer_waits x)"
    and post: "\<And>e. offer_event x = Some e \<Longrightarrow> after tr' e (snd (snd c))"
      "op_postcondition op \<noteq> NO_EVENT \<Longrightarrow> after tr' (op_postcondition op) (snd (snd c))"
  shows "px = []" and "matched tr' [] ops (xs @ [x]) ys (cs @ [c])"
proof -
  let ?n = "length cs"
  have m': "matched tr' px (op # ops) xs ys cs" using matched_extends[OF ext m] .
  then have "list_all2 (op_ok tr') (op # ops) (drop ?n ys)" and len: "?n = min (length xs) (length ys)"
    unfolding matched_def by blast+
  from list_all2_lengthD[OF this(1)] have n: "?n < length ys" by simp
  with len have xs: "length xs = ?n" by auto
  then show px: "px = []" using m' by (simp add: matched_def)
  have ys: "drop ?n ys = ys ! ?n # drop (Suc ?n) ys" using n by (simp add: Cons_nth_drop_Suc)
  then have op: "op_ok tr' op (ys ! ?n)" and rest: "list_all2 (op_ok tr') ops (drop (Suc ?n) ys)"
    using m' by (auto simp: matched_def)
  have "pair_ok tr' x (ys ! ?n) c"
    using op c pre post waits_all_trans[OF pre(1)]
    by (auto simp: pair_ok_def op_ok_def waits_all_def)
  moreover have "pair_ok tr' ((xs @ [x]) ! k) (ys ! k) ((cs @ [c]) ! k)" if "k < ?n" for k
    using that m' xs by (auto simp: matched_def nth_append)
  ultimately show "matched tr' [] ops (xs @ [x]) ys (cs @ [c])"
    using n xs rest by (auto simp: matched_def less_Suc_eq nth_append)
qed

lemma matched_wait_right:
  assumes m: "matched tr [] py xs ys cs" and ext: "extends tr' tr" and y: "op_ok tr' op y"
  shows "matched tr' [] (py @ [op]) xs (ys @ [y]) cs"
  using matched_wait[OF _ ext y] m matched_swap by metis

lemma matched_pair_right:
  assumes m: "matched tr (op # ops) py xs ys cs" and ext: "extends tr' tr"
    and c: "fst c = op_instance op" "fst (snd c) = offer_inst y"
    and pre: "after tr' (snd (snd c)) (op_precondition op)" "waits_all tr' (snd (snd c)) (offer_waits y)"
    and post: "\<And>e. offer_event y = Some e \<Longrightarrow> after tr' e (snd (snd c))"
      "op_postcondition op \<noteq> NO_EVENT \<Longrightarrow> after tr' (op_postcondition op) (snd (snd c))"
  shows "py = []" and "matched tr' ops [] xs (ys @ [y]) (cs @ [c])"
proof -
  obtain a b e where abe: "c = (a, b, e)" by (cases c)
  have m2: "matched tr py (op # ops) ys xs (map swap_ends cs)" using m matched_swap by blast
  note * = matched_pair[OF m2 ext, of "(b, a, e)" y]
  show "py = []" by (rule *(1)) (use c pre post abe in auto)
  have "matched tr' [] ops (ys @ [y]) xs (map swap_ends cs @ [(b, a, e)])"
    by (rule *(2)) (use c pre post abe in auto)
  then have "matched tr' [] ops (ys @ [y]) xs (map swap_ends (cs @ [c]))" by (simp add: abe)
  then show "matched tr' ops [] xs (ys @ [y]) (cs @ [c])" using matched_swap by blast
qed

lemma matched_one_empty: "matched tr px py xs ys cs \<Longrightarrow> px = [] \<or> py = []"
  by (cases "length xs \<le> length ys") (auto simp: matched_def min_def)

end

section \<open>Calls\<close>

text \<open>The copies and the messages of a trace, in the order of the calls.\<close>

definition copies_in :: "trace \<Rightarrow> (inst \<times> inst \<times> event) list" where
  "copies_in tr = concat (map (\<lambda>(c, e). case c of RectCopy b n s d pre \<Rightarrow> [(s, d, e)] | _ \<Rightarrow> []) tr)"

definition names_in :: "reshard_key \<Rightarrow> trace \<Rightarrow> (event \<times> inst) list" where
  "names_in key tr = concat (map (\<lambda>(c, e). case c of
     SpawnNames p k b i \<Rightarrow> if k = key then [(b, i)] else [] | _ \<Rightarrow> []) tr)"

lemma copies_in_simps [simp]:
  "copies_in [] = []" "copies_in (tr @ tr') = copies_in tr @ copies_in tr'"
  by (simp_all add: copies_in_def)

lemma names_in_simps [simp]:
  "names_in key [] = []" "names_in key (tr @ tr') = names_in key tr @ names_in key tr'"
  by (simp_all add: names_in_def)

lemma calls_in_one [simp]:
  "copies_in [(RectCopy b n s d pre, e)] = [(s, d, e)]" "names_in key [(RectCopy b n s d pre, e)] = []"
  "copies_in [(MergeEvents es, e)] = []" "names_in key [(MergeEvents es, e)] = []"
  "copies_in [(CreateUserEvent, e)] = []" "names_in key [(CreateUserEvent, e)] = []"
  "copies_in [(TriggerEvent u pre, e)] = []" "names_in key [(TriggerEvent u pre, e)] = []"
  "copies_in [(CreateBarrier j, e)] = []" "names_in key [(CreateBarrier j, e)] = []"
  "copies_in [(ArriveBarrier x j pre, e)] = []" "names_in key [(ArriveBarrier x j pre, e)] = []"
  "copies_in [(AdvanceBarrier x, e)] = []" "names_in key [(AdvanceBarrier x, e)] = []"
  "copies_in [(SpawnNames p k x i, e)] = []"
  "names_in key [(SpawnNames p k x i, e)] = (if k = key then [(x, i)] else [])"
  by (simp_all add: copies_in_def names_in_def)

text \<open>A call that succeeds and its effect on the trace: \<open>added cs ns\<close> are what it appended.\<close>

definition added ::
  "reshard_key \<Rightarrow> trace \<Rightarrow> trace \<Rightarrow> (inst \<times> inst \<times> event) list \<Rightarrow> (event \<times> inst) list \<Rightarrow> bool" where
  "added key tr' tr cs ns \<longleftrightarrow> (\<exists>calls. tr' = tr @ calls \<and> copies_in calls = cs \<and> names_in key calls = ns)"

lemma added_extends: "added key tr' tr cs ns \<Longrightarrow> extends tr' tr"
  by (auto simp: added_def)

lemma added_refl: "added key tr tr [] []"
  by (simp add: added_def)

lemma added_trans:
  "added key c b cs2 ns2 \<Longrightarrow> added key b a cs1 ns1 \<Longrightarrow> added key c a (cs1 @ cs2) (ns1 @ ns2)"
  unfolding added_def by (metis append.assoc copies_in_simps(2) names_in_simps(2))

lemma added_snoc: "added key (tr @ [x]) tr (copies_in [x]) (names_in key [x])"
  unfolding added_def by blast

lemma added_snoc_quiet:
  "copies_in [x] = [] \<Longrightarrow> names_in key [x] = [] \<Longrightarrow> added key tr' tr cs ns \<Longrightarrow>
   added key (tr' @ [x]) tr cs ns"
  using added_trans[OF added_snoc[of key tr' x], of tr cs ns] by simp

lemma added_merge2: "merge2 rl a b w = (e, w') \<Longrightarrow> added key (trace_of w') (trace_of w) [] []"
  by (auto simp: merge2_def invoke_def added_def)

lemma added_store_Precondition:
  "store_Precondition rl st w = (e, w') \<Longrightarrow> added key (trace_of w') (trace_of w) [] []"
  by (auto simp: store_Precondition_def added_refl intro: added_merge2 split: option.splits)

text \<open>The events a store has recorded: its writes and its readers.\<close>

definition recorded :: "'v store \<Rightarrow> event set" where
  "recorded st = ep_effects ` (set_option (war_pre st) \<union> set_option (child_rw st))"

context event_order
begin

lemma Precondition_waits:
  assumes "store_Precondition rl st w = (e, w')"
  shows "waits_all (trace_of w') e (recorded st)"
proof -
  have "covered_read (trace_of w) st d" if "d \<in> recorded st" for d
    using that after_refl by (auto simp: recorded_def covered_read_def covered_write_def)
  then show ?thesis using Precondition_after[OF assms] by (auto simp: waits_all_def)
qed

text \<open>The copy both ends make: after both preconditions.\<close>

lemma issue_after:
  assumes "merge2 rl a b w = (pre, w1)" and "IssueCopy rl shape n s d pre w1 = (c, w2)"
  shows "after (trace_of w2) c a" and "after (trace_of w2) c b"
    and "added key (trace_of w2) (trace_of w) [(s, d, c)] []"
proof -
  have t2: "trace_of w2 = trace_of w1 @ [(RectCopy shape n s d pre, c)]"
    using assms(2) by (auto simp: IssueCopy_def invoke_def)
  have "after (trace_of w2) c pre" using t2 by (intro after_copy[of shape n s d]) simp
  moreover have "after (trace_of w2) pre a" "after (trace_of w2) pre b"
    using merge2_after[OF assms(1)] after_extends[of "trace_of w2" "trace_of w1"] t2 by auto
  ultimately show "after (trace_of w2) c a" "after (trace_of w2) c b" using after_trans by blast+
  show "added key (trace_of w2) (trace_of w) [(s, d, c)] []"
    using added_trans[OF added_snoc[of key "trace_of w1" "(RectCopy shape n s d pre, c)"]
        added_merge2[OF assms(1)]] t2 by simp
qed

end

definition same_queues :: "p2p \<Rightarrow> p2p \<Rightarrow> bool" where
  "same_queues r r0 \<longleftrightarrow> target_ready_barrier r = target_ready_barrier r0 \<and>
     ack_done_barrier r = ack_done_barrier r0 \<and> pending_source r = pending_source r0 \<and>
     pending_dest r = pending_dest r0"

definition shape_known :: "p2p \<Rightarrow> bool" where
  "shape_known r \<longleftrightarrow> (p2p_exists r \<longrightarrow> p2p_shape r \<noteq> None)"

lemma first_use_ok:
  assumes "\<exists>n. name = ret n" and "shape_known r0"
  obtains r where "first_use shape type name r0 = ret r" and "same_queues r r0"
    and "p2p_shape r \<noteq> None" and "shape_known r" and "p2p_exists r"
  using assms by (cases "p2p_exists r0") (auto simp: first_use_def same_queues_def shape_known_def)

lemma ReshardName_ok:
  "HasTile src \<or> HasTile dst \<Longrightarrow> HasName dst \<longrightarrow> HasName src \<Longrightarrow> \<exists>n. ReshardName src dst = ret n"
  by (auto simp: ReshardName_def HasTile_def HasName_def array_tile_of_def array_name_def Let_def)

lemma always_rendezvous [simp]: "GetProtocol tile = RENDEZVOUS"
  by (simp add: GetProtocol_def kEagerCutoffBytes_def)

text \<open>What a call needs of its arguments, and the two ends as one type of calls.\<close>

definition source_ok ::
  "machine \<Rightarrow> proc_tables \<Rightarrow> reshard_key \<Rightarrow> bool \<Rightarrow> processor \<Rightarrow> sharded_array view \<Rightarrow> sharded_array \<Rightarrow> bool"
  where
  "source_ok m t key remote p src dst \<longleftrightarrow>
     (\<exists>sa tile host. view_get src = ret sa \<and> sa_tile sa = Some tile \<and> (HasName dst \<longrightarrow> HasName sa) \<and>
        HostForShard m t dst (key_dst_shard key) = ret host \<and>
        (space_of m (pr_proc p) \<noteq> space_of m host) = remote)"

definition target_ok ::
  "machine \<Rightarrow> proc_tables \<Rightarrow> reshard_key \<Rightarrow> bool \<Rightarrow> processor \<Rightarrow> sharded_array \<Rightarrow> sharded_array store \<Rightarrow> bool"
  where
  "target_ok m t key remote p src dst \<longleftrightarrow>
     (\<exists>da tile host. store_get dst = ret da \<and> sa_tile da = Some tile \<and> (HasName da \<longrightarrow> HasName src) \<and>
        HostForShard m t src (key_src_shard key) = ret host \<and>
        (space_of m host \<noteq> space_of m (pr_proc p)) = remote)"

definition tile_instance :: "sharded_array res \<Rightarrow> inst" where
  "tile_instance a = (case a of Inr sa \<Rightarrow> (case sa_tile sa of Some tile \<Rightarrow> at_instance tile | None \<Rightarrow> NO_INST)
     | Inl e \<Rightarrow> NO_INST)"

definition source_offer :: "sharded_array view \<Rightarrow> event \<Rightarrow> offer" where
  "source_offer src e = (tile_instance (view_get src), {view_Precondition src}, Some e)"

definition target_offer :: "sharded_array store \<Rightarrow> event \<Rightarrow> offer" where
  "target_offer dst e = (tile_instance (store_get dst), recorded dst, Some e)"

lemma source_call_eq:
  assumes "source_ok m t key remote p src dst" and "shape_known (mgr key)"
  obtains r host where "same_queues r (mgr key)" and "p2p_shape r \<noteq> None" and "shape_known r"
    and "ReshardFromLocalSource rl m t p shape key src dst mgr w =
      (let (r1, w1) = send_ack_barrier rl remote host key r w
       in andThen (source_pair rl remote (tile_instance (view_get src)) (view_Precondition src) r1 w1)
            (\<lambda>(e, r2, w2). ret (e, mgr(key := r2), w2)))"
proof -
  obtain sa tile host where s: "view_get src = ret sa" "sa_tile sa = Some tile"
    "HasName dst \<longrightarrow> HasName sa" "HostForShard m t dst (key_dst_shard key) = ret host"
    "(space_of m (pr_proc p) \<noteq> space_of m host) = remote"
    using assms(1) by (auto simp: source_ok_def)
  have "\<exists>n. ReshardName sa dst = ret n" using s(2,3) by (intro ReshardName_ok) (auto simp: HasTile_def)
  from first_use_ok[OF this assms(2)] obtain r where
    r: "first_use shape (shp_type (sa_shape sa)) (ReshardName sa dst) (mgr key) = ret r"
    "same_queues r (mgr key)" "p2p_shape r \<noteq> None" "shape_known r" by metis
  have "array_tile_of sa = ret tile" using s(2) by (simp add: array_tile_of_def)
  then show thesis
    using that[OF r(2-4), of host] r(1) s
    by (simp add: ReshardFromLocalSource_def RendezvousReshardFromLocalSource_def tile_instance_def)
qed

lemma target_call_eq:
  assumes "target_ok m t key remote p src dst" and "shape_known (mgr key)"
  obtains r host where "same_queues r (mgr key)" and "p2p_shape r \<noteq> None" and "shape_known r"
    and "ReshardToLocalTarget rl m t p shape key src dst mgr w =
      (case pending_source r of
         op # ops \<Rightarrow>
           andThen (target_pair rl (tile_instance (store_get dst)) dst op ops r w)
             (\<lambda>(e, r1, w1). ret (e, mgr(key := r1), w1))
       | [] \<Rightarrow>
           (let (r1, w1) = (if remote
                  then send_instance rl host key (tile_instance (store_get dst)) dst r w else (r, w));
                (e, r2, w2) = target_wait rl (tile_instance (store_get dst)) dst r1 w1
            in ret (e, mgr(key := r2), w2)))"
proof -
  obtain da tile host where s: "store_get dst = ret da" "sa_tile da = Some tile"
    "HasName da \<longrightarrow> HasName src" "HostForShard m t src (key_src_shard key) = ret host"
    "(space_of m host \<noteq> space_of m (pr_proc p)) = remote"
    using assms(1) by (auto simp: target_ok_def)
  have "\<exists>n. ReshardName src da = ret n" using s(2,3) by (intro ReshardName_ok) (auto simp: HasTile_def)
  from first_use_ok[OF this assms(2)] obtain r where
    r: "first_use shape (shp_type (sa_shape src)) (ReshardName src da) (mgr key) = ret r"
    "same_queues r (mgr key)" "p2p_shape r \<noteq> None" "shape_known r" by metis
  have "array_tile_of da = ret tile" using s(2) by (simp add: array_tile_of_def)
  then show thesis
    using that[OF r(2-4), of host] r(1) s
    by (cases "pending_source r")
      (simp_all add: ReshardToLocalTarget_def RendezvousReshardToLocalTarget_def tile_instance_def)
qed

section \<open>Both ends on one process\<close>

text \<open>What the assertions rely on: a user event that is made exists.\<close>

definition user_events_exist :: "realm \<Rightarrow> bool" where
  "user_events_exist rl \<longleftrightarrow> (\<forall>tr. rl tr CreateUserEvent \<noteq> NO_EVENT)"

context event_order
begin

definition local_inv ::
  "trace \<Rightarrow> p2p \<Rightarrow> offer list \<Rightarrow> offer list \<Rightarrow> (inst \<times> inst \<times> event) list \<Rightarrow> bool" where
  "local_inv tr r xs ys cs \<longleftrightarrow> matched tr (pending_source r) (pending_dest r) xs ys cs \<and>
     ack_done_barrier r = NO_EVENT \<and> shape_known r \<and>
     (\<forall>op \<in> set (pending_source r) \<union> set (pending_dest r). op_postcondition op \<noteq> NO_EVENT)"

lemma local_inv_same:
  "same_queues r r0 \<Longrightarrow> shape_known r \<Longrightarrow> local_inv tr r0 xs ys cs \<Longrightarrow> local_inv tr r xs ys cs"
  by (simp add: same_queues_def local_inv_def)

lemma local_source:
  fixes w :: "'z runtime_scheme"
  assumes inv: "local_inv (trace_of w) r xs ys cs" and shape: "p2p_shape r \<noteq> None"
    and user: "user_events_exist rl"
  shows "\<exists>e r2 new (w2 :: 'z runtime_scheme). source_pair rl False i pre r w = ret (e, r2, w2) \<and>
    local_inv (trace_of w2) r2 (xs @ [(i, {pre}, Some e)]) ys (cs @ new) \<and>
    added key (trace_of w2) (trace_of w) new []"
proof (cases "pending_dest r")
  case Nil
  obtain u w1 where u: "invoke rl CreateUserEvent w = (u, w1)" by fastforce
  then have t1: "trace_of w1 = trace_of w @ [(CreateUserEvent, u)]" and "u \<noteq> NO_EVENT"
    using user by (auto simp: invoke_def user_events_exist_def)
  let ?op = "\<lparr>op_precondition = pre, op_postcondition = u, op_instance = i\<rparr>"
  have "op_ok (trace_of w1) ?op (i, {pre}, Some u)"
    using after_refl \<open>u \<noteq> NO_EVENT\<close> by (simp add: op_ok_def waits_all_def)
  then have "matched (trace_of w1) (pending_source r @ [?op]) [] (xs @ [(i, {pre}, Some u)]) ys cs"
    using inv Nil t1 by (intro matched_wait[of "trace_of w"]) (auto simp: local_inv_def)
  moreover have "added key (trace_of w1) (trace_of w) [] []"
    using added_snoc[of key "trace_of w" "(CreateUserEvent, u)"] t1 by simp
  ultimately show ?thesis using inv Nil u \<open>u \<noteq> NO_EVENT\<close>
    by (intro exI[of _ u] exI[of _ "r\<lparr>pending_source := pending_source r @ [?op]\<rparr>"]
        exI[of _ "[]"] exI[of _ w1]) (auto simp: source_pair_def local_inv_def shape_known_def)
next
  case (Cons op ops)
  obtain b where b: "p2p_shape r = Some b" using shape by blast
  obtain m w1 where m: "merge2 rl (op_precondition op) pre w = (m, w1)" by fastforce
  obtain c w2 where c: "IssueCopy rl b (p2p_field_size r) i (op_instance op) m w1 = (c, w2)" by fastforce
  let ?w3 = "command rl (TriggerEvent (op_postcondition op) c) w2"
  have ext: "extends (trace_of ?w3) (trace_of w2)" by simp
  have add: "added key (trace_of ?w3) (trace_of w) [(i, op_instance op, c)] []"
    using issue_after(3)[OF m c] by (simp add: added_snoc_quiet)
  have "after (trace_of ?w3) (op_postcondition op) c" by (rule after_trigger) auto
  moreover have "after (trace_of ?w3) c (op_precondition op)" "after (trace_of ?w3) c pre"
    using issue_after(1,2)[OF m c] after_extends[OF ext] by blast+
  ultimately have "pending_source r = []"
    and "matched (trace_of ?w3) [] ops (xs @ [(i, {pre}, Some c)]) ys (cs @ [(i, op_instance op, c)])"
    using matched_pair[of "trace_of w" "pending_source r" op ops xs ys cs "trace_of ?w3"
        "(i, op_instance op, c)" "(i, {pre}, Some c)"] inv Cons added_extends[OF add] after_refl
    by (auto simp: local_inv_def waits_all_def)
  then show ?thesis using inv Cons m c b add
    by (intro exI[of _ c] exI[of _ "r\<lparr>pending_dest := ops\<rparr>"]
        exI[of _ "[(i, op_instance op, c)]"] exI[of _ ?w3])
      (auto simp: source_pair_def get_shape_def local_inv_def shape_known_def)
qed

lemma local_target_wait:
  fixes w :: "'z runtime_scheme"
  assumes inv: "local_inv (trace_of w) r xs ys cs" and none: "pending_source r = []"
    and user: "user_events_exist rl"
  shows "\<exists>e r2 (w2 :: 'z runtime_scheme). target_wait rl i st r w = (e, r2, w2) \<and>
    local_inv (trace_of w2) r2 xs (ys @ [(i, recorded st, Some e)]) cs \<and>
    added key (trace_of w2) (trace_of w) [] []"
proof -
  obtain u w1 where u: "invoke rl CreateUserEvent w = (u, w1)" by fastforce
  then have t1: "trace_of w1 = trace_of w @ [(CreateUserEvent, u)]" and "u \<noteq> NO_EVENT"
    using user by (auto simp: invoke_def user_events_exist_def)
  obtain q w2 where q: "store_Precondition rl st w1 = (q, w2)" by fastforce
  let ?op = "\<lparr>op_precondition = q, op_postcondition = u, op_instance = i\<rparr>"
  have add: "added key (trace_of w2) (trace_of w) [] []"
    using added_trans[OF added_store_Precondition[OF q, of key]
        added_snoc[of key "trace_of w" "(CreateUserEvent, u)", folded t1]] by simp
  have "op_ok (trace_of w2) ?op (i, recorded st, Some u)"
    using Precondition_waits[OF q] \<open>u \<noteq> NO_EVENT\<close> by (simp add: op_ok_def)
  then have "matched (trace_of w2) [] (pending_dest r @ [?op]) xs (ys @ [(i, recorded st, Some u)]) cs"
    using inv none added_extends[OF add] by (intro matched_wait_right[of "trace_of w"]) (auto simp: local_inv_def)
  then show ?thesis using inv none u q add \<open>u \<noteq> NO_EVENT\<close>
    by (intro exI[of _ u] exI[of _ "r\<lparr>pending_dest := pending_dest r @ [?op]\<rparr>"] exI[of _ w2])
      (auto simp: target_wait_def local_inv_def shape_known_def)
qed

lemma local_target_pair:
  fixes w :: "'z runtime_scheme"
  assumes inv: "local_inv (trace_of w) r xs ys cs" and some: "pending_source r = op # ops"
    and shape: "p2p_shape r \<noteq> None"
  shows "\<exists>e r2 new (w2 :: 'z runtime_scheme). target_pair rl i st op ops r w = ret (e, r2, w2) \<and>
    local_inv (trace_of w2) r2 xs (ys @ [(i, recorded st, Some e)]) (cs @ new) \<and>
    added key (trace_of w2) (trace_of w) new []"
proof -
  obtain b where b: "p2p_shape r = Some b" using shape by blast
  obtain q w1 where q: "store_Precondition rl st w = (q, w1)" by fastforce
  obtain m w2 where m: "merge2 rl (op_precondition op) q w1 = (m, w2)" by fastforce
  obtain c w3 where c: "IssueCopy rl b (p2p_field_size r) (op_instance op) i m w2 = (c, w3)" by fastforce
  let ?w4 = "command rl (TriggerEvent (op_postcondition op) c) w3"
  have ext: "extends (trace_of ?w4) (trace_of w3)" by simp
  have add: "added key (trace_of ?w4) (trace_of w) [(op_instance op, i, c)] []"
    using added_trans[OF issue_after(3)[OF m c] added_store_Precondition[OF q]]
    by (simp add: added_snoc_quiet)
  have e1: "extends (trace_of ?w4) (trace_of w1)"
    using extends_trans[OF ext added_extends[OF issue_after(3)[OF m c, of key]]] .
  have "after (trace_of ?w4) (op_postcondition op) c" by (rule after_trigger) auto
  moreover have "after (trace_of ?w4) c (op_precondition op)"
    using issue_after(1)[OF m c] after_extends[OF ext] by blast
  moreover have "waits_all (trace_of ?w4) c (recorded st)"
    using issue_after(2)[OF m c] after_extends[OF ext]
      waits_all_extends[OF e1 Precondition_waits[OF q]] waits_all_trans by blast
  ultimately have "pending_dest r = []"
    and "matched (trace_of ?w4) ops [] xs (ys @ [(i, recorded st, Some c)]) (cs @ [(op_instance op, i, c)])"
    using matched_pair_right[of "trace_of w" op ops "pending_dest r" xs ys cs "trace_of ?w4"
        "(op_instance op, i, c)" "(i, recorded st, Some c)"] inv some added_extends[OF add] after_refl
    by (auto simp: local_inv_def)
  then show ?thesis using inv some q m c b add
    by (intro exI[of _ c] exI[of _ "r\<lparr>pending_source := ops\<rparr>"]
        exI[of _ "[(op_instance op, i, c)]"] exI[of _ ?w4])
      (auto simp: target_pair_def get_shape_def local_inv_def shape_known_def)
qed

end

text \<open>A sequence of calls of one process for one key, and the events it returns.\<close>

datatype end_call =
    SourceCall processor rect "sharded_array view" sharded_array
  | TargetCall processor rect sharded_array "sharded_array store"

fun do_call ::
  "realm \<Rightarrow> machine \<Rightarrow> proc_tables \<Rightarrow> reshard_key \<Rightarrow> end_call \<Rightarrow> reshard_manager \<Rightarrow>
   'z runtime_scheme \<Rightarrow> (event \<times> reshard_manager \<times> 'z runtime_scheme) res" where
  "do_call rl m t key (SourceCall p shape src dst) mgr w = ReshardFromLocalSource rl m t p shape key src dst mgr w"
| "do_call rl m t key (TargetCall p shape src dst) mgr w = ReshardToLocalTarget rl m t p shape key src dst mgr w"

fun do_calls ::
  "realm \<Rightarrow> machine \<Rightarrow> proc_tables \<Rightarrow> reshard_key \<Rightarrow> end_call list \<Rightarrow> reshard_manager \<Rightarrow>
   'z runtime_scheme \<Rightarrow> (event list \<times> reshard_manager \<times> 'z runtime_scheme) res" where
  "do_calls rl m t key [] mgr w = ret ([], mgr, w)"
| "do_calls rl m t key (call # calls) mgr w =
     andThen (do_call rl m t key call mgr w) (\<lambda>(e, mgr1, w1).
     andThen (do_calls rl m t key calls mgr1 w1) (\<lambda>(es, mgr2, w2). ret (e # es, mgr2, w2)))"

fun call_ok :: "machine \<Rightarrow> proc_tables \<Rightarrow> reshard_key \<Rightarrow> bool \<Rightarrow> end_call \<Rightarrow> bool" where
  "call_ok m t key remote (SourceCall p shape src dst) = source_ok m t key remote p src dst"
| "call_ok m t key remote (TargetCall p shape src dst) = target_ok m t key remote p src dst"

fun source_offers :: "end_call list \<Rightarrow> event list \<Rightarrow> offer list" where
  "source_offers (SourceCall p shape src dst # calls) (e # es) = source_offer src e # source_offers calls es"
| "source_offers (TargetCall p shape src dst # calls) (e # es) = source_offers calls es"
| "source_offers _ _ = []"

fun target_offers :: "end_call list \<Rightarrow> event list \<Rightarrow> offer list" where
  "target_offers (TargetCall p shape src dst # calls) (e # es) = target_offer dst e # target_offers calls es"
| "target_offers (SourceCall p shape src dst # calls) (e # es) = target_offers calls es"
| "target_offers _ _ = []"

context event_order
begin

lemma local_call:
  fixes w :: "'z runtime_scheme"
  assumes inv: "local_inv (trace_of w) (mgr key) xs ys cs" and ok: "call_ok m t key False call"
    and user: "user_events_exist rl"
  shows "\<exists>e r new (w' :: 'z runtime_scheme). do_call rl m t key call mgr w = ret (e, mgr(key := r), w') \<and>
    local_inv (trace_of w') r (xs @ source_offers [call] [e]) (ys @ target_offers [call] [e]) (cs @ new) \<and>
    added key (trace_of w') (trace_of w) new []"
proof (cases call)
  case (SourceCall p shape src dst)
  then have sok: "source_ok m t key False p src dst" using ok by simp
  have known: "shape_known (mgr key)" using inv by (simp add: local_inv_def)
  obtain r host where r: "same_queues r (mgr key)" "p2p_shape r \<noteq> None" "shape_known r"
    and eq: "ReshardFromLocalSource rl m t p shape key src dst mgr w =
      (let (r1, w1) = send_ack_barrier rl False host key r w
       in andThen (source_pair rl False (tile_instance (view_get src)) (view_Precondition src) r1 w1)
            (\<lambda>(e, r2, w2). ret (e, mgr(key := r2), w2)))"
    using source_call_eq[where mgr = mgr and rl = rl and w = w and shape = shape, OF sok known] by metis
  from local_source[OF local_inv_same[OF r(1,3) inv] r(2) user, of "tile_instance (view_get src)"
      "view_Precondition src" key]
  obtain e r2 new and w2 :: "'z runtime_scheme"
    where s: "source_pair rl False (tile_instance (view_get src)) (view_Precondition src) r w =
        ret (e, r2, w2)"
      and i: "local_inv (trace_of w2) r2 (xs @ [(tile_instance (view_get src), {view_Precondition src}, Some e)])
        ys (cs @ new)"
      and a: "added key (trace_of w2) (trace_of w) new []" by blast
  have "do_call rl m t key call mgr w = ret (e, mgr(key := r2), w2)"
    by (simp add: SourceCall eq s send_ack_barrier_def)
  then show ?thesis using i a SourceCall unfolding source_offer_def
    by (intro exI[of _ e] exI[of _ r2] exI[of _ new] exI[of _ w2]) (simp add: source_offer_def)
next
  case (TargetCall p shape src dst)
  then have tok: "target_ok m t key False p src dst" using ok by simp
  have known: "shape_known (mgr key)" using inv by (simp add: local_inv_def)
  let ?i = "tile_instance (store_get dst)"
  obtain r host where r: "same_queues r (mgr key)" "p2p_shape r \<noteq> None" "shape_known r"
    and eq: "ReshardToLocalTarget rl m t p shape key src dst mgr w =
      (case pending_source r of
         op # ops \<Rightarrow> andThen (target_pair rl ?i dst op ops r w) (\<lambda>(e, r1, w1). ret (e, mgr(key := r1), w1))
       | [] \<Rightarrow> (let (r1, w1) = (if False then send_instance rl host key ?i dst r w else (r, w));
                (e, r2, w2) = target_wait rl ?i dst r1 w1
            in ret (e, mgr(key := r2), w2)))"
    using target_call_eq[where mgr = mgr and rl = rl and w = w and shape = shape, OF tok known] by metis
  note inv' = local_inv_same[OF r(1,3) inv]
  show ?thesis
  proof (cases "pending_source r")
    case Nil
    from local_target_wait[OF inv' Nil user, of ?i dst key]
    obtain e r2 and w2 :: "'z runtime_scheme" where "target_wait rl ?i dst r w = (e, r2, w2)"
      "local_inv (trace_of w2) r2 xs (ys @ [(?i, recorded dst, Some e)]) cs"
      "added key (trace_of w2) (trace_of w) [] []" by blast
    then show ?thesis using Nil eq TargetCall
      by (intro exI[of _ e] exI[of _ r2] exI[of _ "[]"] exI[of _ w2]) (simp add: target_offer_def)
  next
    case (Cons op ops)
    from local_target_pair[OF inv' Cons r(2), of rl ?i dst key]
    obtain e r2 new and w2 :: "'z runtime_scheme" where "target_pair rl ?i dst op ops r w = ret (e, r2, w2)"
      "local_inv (trace_of w2) r2 xs (ys @ [(?i, recorded dst, Some e)]) (cs @ new)"
      "added key (trace_of w2) (trace_of w) new []" by blast
    then show ?thesis using Cons eq TargetCall
      by (intro exI[of _ e] exI[of _ r2] exI[of _ new] exI[of _ w2]) (simp add: target_offer_def)
  qed
qed

lemma local_calls:
  fixes w :: "'z runtime_scheme"
  assumes "local_inv (trace_of w) (mgr key) xs ys cs" and "list_all (call_ok m t key False) calls"
    and user: "user_events_exist rl"
  shows "\<exists>es mgr' new (w' :: 'z runtime_scheme). do_calls rl m t key calls mgr w = ret (es, mgr', w') \<and>
    local_inv (trace_of w') (mgr' key) (xs @ source_offers calls es) (ys @ target_offers calls es) (cs @ new) \<and>
    added key (trace_of w') (trace_of w) new []"
  using assms(1,2)
proof (induction calls arbitrary: mgr w xs ys cs)
  case Nil
  then show ?case by (intro exI[of _ "[]"] exI[of _ mgr] exI[of _ "[]"] exI[of _ w])
    (simp add: added_refl)
next
  case (Cons call calls)
  have call: "call_ok m t key False call" and rest: "list_all (call_ok m t key False) calls"
    using Cons.prems(2) by simp_all
  from local_call[where mgr = mgr and rl = rl, OF Cons.prems(1) call user]
  obtain e r new and w1 :: "'z runtime_scheme"
    where c: "do_call rl m t key call mgr w = ret (e, mgr(key := r), w1)"
      and i: "local_inv (trace_of w1) r (xs @ source_offers [call] [e]) (ys @ target_offers [call] [e]) (cs @ new)"
      and a: "added key (trace_of w1) (trace_of w) new []" by blast
  from i have "local_inv (trace_of w1) ((mgr(key := r)) key) (xs @ source_offers [call] [e])
      (ys @ target_offers [call] [e]) (cs @ new)" by simp
  from Cons.IH[of w1 "mgr(key := r)", OF this rest]
  obtain es mgr' new2 and w2 :: "'z runtime_scheme"
    where cs: "do_calls rl m t key calls (mgr(key := r)) w1 = ret (es, mgr', w2)"
      and i2: "local_inv (trace_of w2) (mgr' key) ((xs @ source_offers [call] [e]) @ source_offers calls es)
        ((ys @ target_offers [call] [e]) @ target_offers calls es) ((cs @ new) @ new2)"
      and a2: "added key (trace_of w2) (trace_of w1) new2 []" by blast
  have "source_offers (call # calls) (e # es) = source_offers [call] [e] @ source_offers calls es"
    "target_offers (call # calls) (e # es) = target_offers [call] [e] @ target_offers calls es"
    by (cases call; simp)+
  then show ?case using c cs i2 added_trans[OF a2 a]
    by (intro exI[of _ "e # es"] exI[of _ mgr'] exI[of _ "new @ new2"] exI[of _ w2]) simp
qed

end

text \<open>
  C17. Both ends on one process: calls for one key, in any order, on arrays with their tiles and with a named
  source where the target is named (\<open>call_ok\<close>), never fail, and the copies made pair the calls up by number, the first source with the first target and so on. A copy comes after what
  its source and its target were waiting for, and both callers' events come after the copy.
\<close>

theorem local_pairing:
  fixes w :: "'z runtime_scheme"
  assumes "list_all (call_ok m t key False) calls" and "mgr key = new_p2p" and "user_events_exist rl"
  shows "\<exists>es mgr' copies (w' :: 'z runtime_scheme). do_calls rl m t key calls mgr w = ret (es, mgr', w') \<and>
    copies_in (trace_of w') = copies_in (trace_of w) @ copies \<and>
    length copies = min (length (source_offers calls es)) (length (target_offers calls es)) \<and>
    (\<forall>k < length copies. \<exists>src src_waits src_event dst dst_waits dst_event copy.
       source_offers calls es ! k = (src, src_waits, Some src_event) \<and>
       target_offers calls es ! k = (dst, dst_waits, Some dst_event) \<and> copies ! k = (src, dst, copy) \<and>
       (\<forall>d \<in> src_waits \<union> dst_waits. depends (trace_of w') copy d) \<and>
       depends (trace_of w') src_event copy \<and> depends (trace_of w') dst_event copy)"
proof -
  have "deps.local_inv (trace_of w) (mgr key) [] [] []"
    using assms(2) deps.matched_Nil by (simp add: deps.local_inv_def new_p2p_def shape_known_def)
  from deps.local_calls[where mgr = mgr, OF this assms(1,3)]
  obtain es mgr' new and w' :: "'z runtime_scheme"
    where r: "do_calls rl m t key calls mgr w = ret (es, mgr', w')"
      and i: "deps.local_inv (trace_of w') (mgr' key) (source_offers calls es) (target_offers calls es) new"
      and a: "added key (trace_of w') (trace_of w) new []" by auto
  have some: "\<forall>x \<in> set (source_offers calls es) \<union> set (target_offers calls es). \<exists>i d e. x = (i, d, Some e)"
    by (induction calls es rule: source_offers.induct) (auto simp: source_offer_def target_offer_def)
  have m: "length new = min (length (source_offers calls es)) (length (target_offers calls es))"
    and p: "\<And>k. k < length new \<Longrightarrow>
      deps.pair_ok (trace_of w') (source_offers calls es ! k) (target_offers calls es ! k) (new ! k)"
    using i by (auto simp: deps.local_inv_def deps.matched_def)
  have "\<exists>src src_waits src_event dst dst_waits dst_event copy.
       source_offers calls es ! k = (src, src_waits, Some src_event) \<and>
       target_offers calls es ! k = (dst, dst_waits, Some dst_event) \<and> new ! k = (src, dst, copy) \<and>
       (\<forall>d \<in> src_waits \<union> dst_waits. depends (trace_of w') copy d) \<and>
       depends (trace_of w') src_event copy \<and> depends (trace_of w') dst_event copy"
    if k: "k < length new" for k
  proof -
    have "source_offers calls es ! k \<in> set (source_offers calls es)"
      "target_offers calls es ! k \<in> set (target_offers calls es)" using k m by auto
    then obtain i d e i' d' e' where "source_offers calls es ! k = (i, d, Some e)"
      "target_offers calls es ! k = (i', d', Some e')" using some by (metis UnCI)
    moreover obtain a b c where "new ! k = (a, b, c)" by (cases "new ! k")
    ultimately show ?thesis using p[OF k] by (simp add: deps.pair_ok_def deps.waits_all_def)
  qed
  then show ?thesis using r m a by (fastforce simp: added_def)
qed

end
