(* ===== verification/Scatter_Gather.thy ===== *)
theory Scatter_Gather
  imports Tile_Bounds
begin

text \<open>
  The slice computation of \<open>src/zuku/reshard_scatter_gather.cc\<close>: when one dimension of an array
  changes its number of pieces, which slices a source shard sends and which slices a target shard
  receives (\<open>GetScatterGatherConfig\<close>). Sender and receiver compute this separately; the theorems
  say that the two views agree.
\<close>

section \<open>Operations\<close>

record slice_config =
  slc_src :: int
  slc_dst :: int
  slc_bounds :: rect

record scatter_gather_config =
  from_source :: "slice_config list"
  to_target :: "slice_config list"

text \<open>
  \<open>MakeTileBoxN\<close>: \<open>box_dim\<close> counts the coordinates written so far and is also the position
  at which the index is read.
\<close>

definition MakeTileBoxN :: "nat \<Rightarrow> int list \<Rightarrow> sharding \<Rightarrow> rect res" where
  "MakeTileBoxN n index s =
     andThen
       (foldR (\<lambda>(bounds, box_dim) i.
            andThen (vec_at (sh_dims s) i) (\<lambda>d.
            andThen (div64 (dim_size d) (dim_sharding d)) (\<lambda>tile_size.
            if tile_size > 0
            then andThen (vec_at index box_dim) (\<lambda>x.
                 andThen (mul64 x tile_size) (\<lambda>lo.
                 andThen (add64 lo tile_size) (\<lambda>past.
                 andThen (sub64 past 1) (\<lambda>hi.
                 andThen (rect_push bounds lo hi) (\<lambda>bounds'. ret (bounds', box_dim + 1))))))
            else ret (bounds, box_dim))))
          (new_rect n, 0) (upto64 (size_of (sh_dims s))))
       (\<lambda>(bounds, _). ret bounds)"

definition MakeTileBox :: "int \<Rightarrow> int list \<Rightarrow> sharding \<Rightarrow> rect res" where
  "MakeTileBox max_dim index s =
     andThen (IsPartiallyReplicated s) (\<lambda>partial.
     let n = (if partial then size_of (sh_dims s) - 1 else size_of (sh_dims s)) in
      if n = 0 then MakeTileBoxN 1 index s
      else if n = 1 then MakeTileBoxN 1 index s
      else if n = 2 then MakeTileBoxN 2 index s
      else if n = 3 then MakeTileBoxN 3 index s
      else if n = 4 then MakeTileBoxN 4 index s
      else if max_dim \<ge> 5 \<and> n = 5 then MakeTileBoxN 5 index s
      else fail (RuntimeError ''unsupported no. dims''))"

text \<open>\<open>index[dim] /= n\<close>\<close>

definition div_at :: "int list \<Rightarrow> int \<Rightarrow> int \<Rightarrow> int list res" where
  "div_at index dim n =
     andThen (vec_at index dim) (\<lambda>i. andThen (div64 i n) (\<lambda>q. vec_set index dim q))"

text \<open>
  The side with the finer tiles has one slice, its own tile, whose partner is the tile's index with
  the coordinate \<open>dim\<close> divided; the other side has one slice for each of its parts.
\<close>

definition GetScatterGatherConfig ::
  "int \<Rightarrow> int \<Rightarrow> int option \<Rightarrow> int option \<Rightarrow> sharding \<Rightarrow> sharding \<Rightarrow> scatter_gather_config res"
where
  "GetScatterGatherConfig max_dim dim src_shard dst_shard src dst =
     andThen (vec_at (sh_dims src) dim) (\<lambda>sd.
     andThen (vec_at (sh_dims dst) dim) (\<lambda>dd.
     let src_sharding = dim_sharding sd; dst_sharding = dim_sharding dd in
     andThen (require (src_sharding \<noteq> dst_sharding) AssertFailed) (\<lambda>_.
     if src_sharding > dst_sharding
     then
       andThen (div64 (dim_sharding sd) (dim_sharding dd)) (\<lambda>num_slices_per_dest.
       andThen (div64 (dim_size sd) (dim_sharding sd)) (\<lambda>_.
       andThen
         (case src_shard of
            None \<Rightarrow> ret []
          | Some src_shard \<Rightarrow>
              andThen (ComputeTileIndex src_shard src) (\<lambda>index.
              andThen (MakeTileBox max_dim index src) (\<lambda>bounds.
              andThen (mod64 src_shard num_slices_per_dest) (\<lambda>_.
              andThen (div_at index dim num_slices_per_dest) (\<lambda>index'.
              andThen (ComputeTileShard index' dst) (\<lambda>dst_shard.
              ret [\<lparr>slc_src = src_shard, slc_dst = dst_shard, slc_bounds = bounds\<rparr>]))))))
         (\<lambda>from_src.
       andThen
         (case dst_shard of
            None \<Rightarrow> ret []
          | Some dst_shard \<Rightarrow>
              andThen (ComputeTileIndex dst_shard dst) (\<lambda>index.
              andThen (vec_at index dim) (\<lambda>i.
              andThen (mul64 i num_slices_per_dest) (\<lambda>src_shard_start.
              mapR (\<lambda>slice.
                andThen (add64 src_shard_start slice) (\<lambda>x.
                andThen (vec_set index dim x) (\<lambda>index'.
                andThen (MakeTileBox max_dim index' src) (\<lambda>bounds.
                andThen (ComputeTileShard index' src) (\<lambda>src_shard.
                ret \<lparr>slc_src = src_shard, slc_dst = dst_shard, slc_bounds = bounds\<rparr>)))))
                (upto64 num_slices_per_dest)))))
         (\<lambda>to_tgt.
       ret \<lparr>from_source = from_src, to_target = to_tgt\<rparr>))))
     else
       andThen (div64 (dim_sharding dd) (dim_sharding sd)) (\<lambda>num_slices_per_source.
       andThen (div64 (dim_size dd) (dim_sharding dd)) (\<lambda>_.
       andThen
         (case dst_shard of
            None \<Rightarrow> ret []
          | Some dst_shard \<Rightarrow>
              andThen (ComputeTileIndex dst_shard dst) (\<lambda>index.
              andThen (MakeTileBox max_dim index dst) (\<lambda>bounds.
              andThen (div_at index dim num_slices_per_source) (\<lambda>index'.
              andThen (ComputeTileShard index' src) (\<lambda>src_shard.
              ret [\<lparr>slc_src = src_shard, slc_dst = dst_shard, slc_bounds = bounds\<rparr>])))))
         (\<lambda>to_tgt.
       andThen
         (case src_shard of
            None \<Rightarrow> ret []
          | Some src_shard \<Rightarrow>
              andThen (ComputeTileIndex src_shard src) (\<lambda>index.
              andThen (vec_at index dim) (\<lambda>i.
              andThen (mul64 i num_slices_per_source) (\<lambda>dest_idx_start.
              mapR (\<lambda>slice.
                andThen (add64 dest_idx_start slice) (\<lambda>x.
                andThen (vec_set index dim x) (\<lambda>index'.
                andThen (MakeTileBox max_dim index' dst) (\<lambda>bounds.
                andThen (ComputeTileShard index' dst) (\<lambda>dst_shard.
                ret \<lparr>slc_src = src_shard, slc_dst = dst_shard, slc_bounds = bounds\<rparr>)))))
                (upto64 num_slices_per_source)))))
         (\<lambda>from_src.
       ret \<lparr>from_source = from_src, to_target = to_tgt\<rparr>)))))))"

section \<open>Tile boxes\<close>

text \<open>
  \<open>MakeTileBox\<close> reads the index at the position of the box, not of the array: it is right where
  the replicating dimension, if there is one, is the last.
\<close>

definition repl_last :: "sharding \<Rightarrow> bool" where
  "repl_last s \<longleftrightarrow> list_all (\<lambda>d. \<not> is_repl_dim d) (butlast (sh_dims s))"

definition box_args_ok :: "int \<Rightarrow> sharding \<Rightarrow> bool" where
  "box_args_ok max_dim s \<longleftrightarrow> sharding_ok s \<and> repl_last s \<and> rank_supported max_dim s \<and>
     (if list_ex is_repl_dim (sh_dims s) then 1 < tiles s else sh_dims s \<noteq> [])"

definition index_box :: "sharding \<Rightarrow> int list \<Rightarrow> rect" where
  "index_box s idx = box_of (tile_spans (sh_dims s) idx)"

lemma tile_box_index_box: "tile_box r s = index_box s (tile_index r s)"
  by (simp add: tile_box_def index_box_def)

lemma real_dims_take:
  assumes "repl_last s" and "k < length (sh_dims s)"
  shows "real_dims (take k (sh_dims s)) = take k (sh_dims s)"
proof -
  have "take k (sh_dims s) = take k (butlast (sh_dims s))"
    using assms(2) by (simp add: take_butlast)
  then have "\<forall>d \<in> set (take k (sh_dims s)). \<not> is_repl_dim d"
    using assms(1) by (auto simp: repl_last_def list_all_iff dest: in_set_takeD)
  then show ?thesis by (simp add: filter_id_conv)
qed

lemma MakeTileBoxN_ok:
  assumes s: "sharding_ok s" and last: "repl_last s" and idx: "index_in_range s idx"
    and n: "n = length (real_dims (sh_dims s))"
  shows "MakeTileBoxN n idx s = ret (spans_rect n (tile_spans (sh_dims s) idx))"
proof -
  let ?ds = "sh_dims s"
  have ir: "in_radix (map dim_sharding ?ds) idx" using idx by (simp add: index_in_range_def)
  have len: "length idx = length ?ds" using in_radix_length[OF ir] by simp
  let ?f = "\<lambda>(bounds, box_dim) i.
            andThen (vec_at ?ds i) (\<lambda>d.
            andThen (div64 (dim_size d) (dim_sharding d)) (\<lambda>tile_size.
            if tile_size > 0
            then andThen (vec_at idx box_dim) (\<lambda>x.
                 andThen (mul64 x tile_size) (\<lambda>lo.
                 andThen (add64 lo tile_size) (\<lambda>past.
                 andThen (sub64 past 1) (\<lambda>hi.
                 andThen (rect_push bounds lo hi) (\<lambda>bounds'. ret (bounds', box_dim + 1))))))
            else ret (bounds, box_dim)))"
  let ?I = "\<lambda>k st. fst st = spans_rect n (tile_spans (take k ?ds) (take k idx)) \<and>
      (k < length ?ds \<longrightarrow> snd st = int k)"
  have "\<exists>st. foldR ?f (new_rect n, 0) (upto64 (int (length ?ds))) = ret st \<and> ?I (length ?ds) st"
  proof (rule foldR_upto64[where I = ?I])
    show "?I 0 (new_rect n, 0)" by (simp add: new_rect_spans)
    fix k st assume k: "k < length ?ds" and I: "?I k st"
    let ?d = "?ds ! k" and ?sp = "tile_spans (take k ?ds) (take k idx)"
    have st: "st = (spans_rect n ?sp, int k)" using I k by (cases st) simp
    have d: "dim_ok ?d" using sharding_ok_dim[OF s] k by simp
    have size: "dim_size ?d \<le> int64_max" using s k by (intro dim_size_int64) auto
    have q: "div64 (dim_size ?d) (dim_sharding ?d) = ret (dim_size ?d div dim_sharding ?d)"
      using dim_ok_ge1[OF d] size by (intro div64_ok int64_okI) auto
    have snoc: "tile_spans (take (Suc k) ?ds) (take (Suc k) idx) =
        (if is_repl_dim ?d then ?sp else ?sp @ [tile_span ?d (idx ! k)])"
      using k len by (simp add: take_Suc_conv_app_nth tile_spans_snoc)
    show "\<exists>st'. ?f st (int k) = ret st' \<and> ?I (Suc k) st'"
    proof (cases "is_repl_dim ?d")
      case True
      then have "\<not> k < length (butlast ?ds)"
        using last by (auto simp: repl_last_def list_all_length nth_butlast)
      then have "Suc k = length ?ds" using k by simp
      moreover have "dim_size ?d div dim_sharding ?d = 0"
        using True by (simp add: is_repl_dim_def)
      ultimately show ?thesis using k q snoc True by (simp add: st vec_at_nth)
    next
      case nr: False
      have i: "0 \<le> idx ! k" "idx ! k < dim_sharding ?d" using ir k by (auto simp: in_radix_nth)
      note e = tile_extent_end[OF d nr i]
      have e1: "1 \<le> dim_size ?d div dim_sharding ?d" by (rule real_dim_tile_ge1[OF d nr])
      have "length (real_dims (take k ?ds)) < length (real_dims ?ds)"
        using nr k by (subst (2) id_take_nth_drop[OF k]) simp
      then have room: "length ?sp < n"
        using k len n by (simp add: length_tile_spans)
      have "mul64 (idx ! k) (dim_size ?d div dim_sharding ?d) =
          ret (dim_size ?d div dim_sharding ?d * idx ! k)"
        using e size e1 by (subst mul64_ok) (auto simp: mult.commute intro!: int64_okI)
      moreover have "add64 (dim_size ?d div dim_sharding ?d * idx ! k)
            (dim_size ?d div dim_sharding ?d) =
          ret (dim_size ?d div dim_sharding ?d * idx ! k + dim_size ?d div dim_sharding ?d)"
        using e size by (intro add64_ok int64_okI) linarith+
      moreover have "sub64 (dim_size ?d div dim_sharding ?d * idx ! k +
            dim_size ?d div dim_sharding ?d) 1 =
          ret (dim_size ?d div dim_sharding ?d * idx ! k + dim_size ?d div dim_sharding ?d - 1)"
        using e size by (intro sub64_ok int64_okI) linarith+
      ultimately show ?thesis
        using k len nr snoc q e1 rect_push_spans[OF room]
        by (simp add: st vec_at_nth tile_span_def Let_def)
    qed
  qed
  then obtain st where "foldR ?f (new_rect n, 0) (upto64 (int (length ?ds))) = ret st"
    "?I (length ?ds) st" by blast
  then show ?thesis using len by (cases st) (simp add: MakeTileBoxN_def size_of_def)
qed

lemma MakeTileBox_ok:
  assumes ok: "box_args_ok max_dim s" and idx: "index_in_range s idx"
  shows "MakeTileBox max_dim idx s = ret (index_box s idx)"
proof -
  have s: "sharding_ok s" and last: "repl_last s" and rank: "rank_supported max_dim s"
    and ne: "if list_ex is_repl_dim (sh_dims s) then 1 < tiles s else sh_dims s \<noteq> []"
    using ok by (simp_all add: box_args_ok_def)
  define n where "n = length (real_dims (sh_dims s))"
  have len: "length (sh_dims s) = length (filter is_repl_dim (sh_dims s)) + n"
    by (simp add: n_def sum_length_filter_compl)
  have part: "\<exists>b. IsPartiallyReplicated s = ret b \<and>
      (if b then size_of (sh_dims s) - 1 else size_of (sh_dims s)) = int n"
  proof (cases "list_ex is_repl_dim (sh_dims s)")
    case True
    then have "filter is_repl_dim (sh_dims s) \<noteq> []" by (auto simp: list_ex_iff filter_empty_conv)
    then obtain d where d: "filter is_repl_dim (sh_dims s) = [d]"
      using sharding_ok_repl[OF s] by (cases "filter is_repl_dim (sh_dims s)") auto
    then have "is_repl_dim d" using filter_eq_ConsD[OF d] by blast
    then have "1 < replication s" by (simp add: replication_def d is_repl_dim_def)
    then have "tiles s * 1 < tiles s * replication s"
      using tiles_ge1[OF s] by (intro mult_strict_left_mono) auto
    then have "tiles s < dl_size (sh_devices s)" using tiles_times_replication[OF s] by simp
    then show ?thesis using True ne len d
      by (intro exI[of _ True]) (simp add: sharding_class_ok[OF s] size_of_def)
  next
    case False
    then have none: "filter is_repl_dim (sh_dims s) = []"
      by (auto simp: list_ex_iff filter_empty_conv)
    then have "tiles s = dl_size (sh_devices s)"
      using tiles_times_replication[OF s] by (simp add: replication_def)
    then show ?thesis using len none
      by (intro exI[of _ False]) (simp add: sharding_class_ok[OF s] size_of_def)
  qed
  have n1: "1 \<le> n"
  proof (cases "real_dims (sh_dims s) = []")
    case True
    then have "tiles s = 1" by (simp add: tiles_def)
    moreover have "list_ex is_repl_dim (sh_dims s)" if "sh_dims s \<noteq> []"
      using that True by (cases "sh_dims s") (auto split: if_splits)
    ultimately show ?thesis using ne by (auto split: if_splits)
  qed (simp add: n_def Suc_le_eq)
  have "length (tile_spans (sh_dims s) idx) = n"
    using in_radix_length[of "map dim_sharding (sh_dims s)" idx] idx
    by (simp add: length_tile_spans n_def index_in_range_def)
  then have "MakeTileBoxN n idx s = ret (index_box s idx)"
    using MakeTileBoxN_ok[OF s last idx n_def] n1
    by (cases "tile_spans (sh_dims s) idx") (auto simp: index_box_def box_of_def spans_rect_def)
  moreover have "n \<le> 4 \<or> (n = 5 \<and> 5 \<le> max_dim)"
    using rank unfolding rank_supported_def n_def Let_def .
  then have "n = 1 \<or> n = 2 \<or> n = 3 \<or> n = 4 \<or> (n = 5 \<and> 5 \<le> max_dim)" using n1 by linarith
  ultimately show ?thesis using part by (auto simp: MakeTileBox_def)
qed

section \<open>Refinement of one dimension\<close>

text \<open>
  \<open>fine\<close> cuts the real dimension \<open>dim\<close> into \<open>k\<close> times as many pieces as \<open>coarse\<close> and agrees
  with it in every other dimension.
\<close>

definition refines_dim :: "sharding \<Rightarrow> sharding \<Rightarrow> nat \<Rightarrow> int \<Rightarrow> bool" where
  "refines_dim fine coarse dim k \<longleftrightarrow>
     (let fs = sh_dims fine; cs = sh_dims coarse in
      dim < length fs \<and> length cs = length fs \<and> 1 < k \<and>
      dim_sharding (fs ! dim) = k * dim_sharding (cs ! dim) \<and>
      dim_size (fs ! dim) = dim_size (cs ! dim) \<and> \<not> is_repl_dim (fs ! dim) \<and>
      list_all (\<lambda>i. i \<noteq> dim \<longrightarrow> fs ! i = cs ! i) [0..<length fs])"

definition sg_ok :: "int \<Rightarrow> sharding \<Rightarrow> sharding \<Rightarrow> nat \<Rightarrow> int \<Rightarrow> bool" where
  "sg_ok max_dim fine coarse dim k \<longleftrightarrow> box_args_ok max_dim fine \<and> sharding_ok coarse \<and>
     row_major fine \<and> row_major coarse \<and> refines_dim fine coarse dim k"

definition parent :: "nat \<Rightarrow> int \<Rightarrow> int list \<Rightarrow> int list" where
  "parent dim k idx = idx[dim := idx ! dim div k]"

definition child :: "nat \<Rightarrow> int \<Rightarrow> int list \<Rightarrow> int \<Rightarrow> int list" where
  "child dim k idx x = idx[dim := idx ! dim * k + x]"

definition shard_of :: "sharding \<Rightarrow> int list \<Rightarrow> int" where
  "shard_of s idx = radix_value (map dim_sharding (sh_dims s)) idx"

lemma row_major_shard_of:
  assumes s: "sharding_ok s" "row_major s"
  shows "index_in_range s idx \<Longrightarrow> 0 \<le> shard_of s idx \<and> shard_of s idx < dl_size (sh_devices s)"
    and "index_in_range s idx \<Longrightarrow> tile_index (shard_of s idx) s = idx"
    and "0 \<le> r \<Longrightarrow> r < dl_size (sh_devices s) \<Longrightarrow> shard_of s (tile_index r s) = r"
proof -
  let ?es = "map dim_sharding (sh_dims s)"
  have pos: "pos_radix ?es" and prod: "prod_list ?es = dl_size (sh_devices s)"
    using pos_radix_device_order[OF s(1)] prod_device_order_devices[OF s(1)]
    by (simp_all add: device_order_row_major[OF s(2)])
  show "index_in_range s idx \<Longrightarrow> 0 \<le> shard_of s idx \<and> shard_of s idx < dl_size (sh_devices s)"
    using radix_value_range[of ?es idx] prod by (simp add: shard_of_def index_in_range_def)
  show "index_in_range s idx \<Longrightarrow> tile_index (shard_of s idx) s = idx"
    using radix_digits_value[of ?es idx]
    by (simp add: shard_of_def index_in_range_def tile_index_row_major[OF s(2)])
  show "0 \<le> r \<Longrightarrow> r < dl_size (sh_devices s) \<Longrightarrow> shard_of s (tile_index r s) = r"
    using radix_value_digits[OF pos, of r] prod
    by (simp add: shard_of_def tile_index_row_major[OF s(2)])
qed

lemma refines_dimD:
  assumes "refines_dim f c dim k"
  shows "dim < length (sh_dims f)" "length (sh_dims c) = length (sh_dims f)" "1 < k"
    "dim_sharding (sh_dims f ! dim) = k * dim_sharding (sh_dims c ! dim)"
    "dim_size (sh_dims f ! dim) = dim_size (sh_dims c ! dim)"
    "\<not> is_repl_dim (sh_dims f ! dim)"
    "\<And>i. i < length (sh_dims f) \<Longrightarrow> i \<noteq> dim \<Longrightarrow> sh_dims f ! i = sh_dims c ! i"
  using assms by (simp_all add: refines_dim_def Let_def list_all_iff)

lemma index_in_range_nth:
  "index_in_range s idx \<longleftrightarrow> length idx = length (sh_dims s) \<and>
     (\<forall>i < length (sh_dims s). 0 \<le> idx ! i \<and> idx ! i < dim_sharding (sh_dims s ! i))"
  by (auto simp: index_in_range_def in_radix_nth)

lemma parent_in_range:
  assumes "refines_dim f c dim k" and "index_in_range f idx"
  shows "index_in_range c (parent dim k idx)"
proof -
  note r = refines_dimD[OF assms(1)]
  have "0 \<le> idx ! dim" "idx ! dim < dim_sharding (sh_dims c ! dim) * k"
    using assms(2) r(1,4) by (auto simp: index_in_range_nth mult.commute)
  then have "0 \<le> idx ! dim div k" "idx ! dim div k < dim_sharding (sh_dims c ! dim)"
    using r(3) by (auto simp: pos_imp_zdiv_nonneg_iff intro: div_less_of_less_mult)
  then show ?thesis
    using assms(2) r by (auto simp: index_in_range_nth parent_def nth_list_update)
qed

lemma child_in_range:
  assumes "refines_dim f c dim k" and "index_in_range c idx" and "0 \<le> x" and "x < k"
  shows "index_in_range f (child dim k idx x)"
proof -
  note r = refines_dimD[OF assms(1)]
  have i: "0 \<le> idx ! dim" "idx ! dim < dim_sharding (sh_dims c ! dim)"
    using assms(2) r(1,2) by (auto simp: index_in_range_nth)
  then have "(idx ! dim + 1) * k \<le> dim_sharding (sh_dims c ! dim) * k"
    using r(3) by (intro mult_right_mono) auto
  then have "0 \<le> idx ! dim * k + x" "idx ! dim * k + x < dim_sharding (sh_dims f ! dim)"
    using i assms(3,4) r(3,4) by (auto simp: algebra_simps)
  then show ?thesis
    using assms(2) r by (auto simp: index_in_range_nth child_def nth_list_update)
qed

lemma parent_child:
  "dim < length idx \<Longrightarrow> 0 \<le> x \<Longrightarrow> x < k \<Longrightarrow> parent dim k (child dim k idx x) = idx"
  by (simp add: parent_def child_def)

lemma child_parent:
  "dim < length idx \<Longrightarrow> child dim k (parent dim k idx) (idx ! dim mod k) = idx"
  by (simp add: parent_def child_def)

section \<open>The slices\<close>

text \<open>
  A slice as seen from the pair of tilings: the shard of the finer one, the shard of the coarser
  one, and the box. The finer side has one, the coarser side \<open>k\<close>.
\<close>

type_synonym slice = "int \<times> int \<times> rect"

definition fine_slices :: "sharding \<Rightarrow> sharding \<Rightarrow> nat \<Rightarrow> int \<Rightarrow> int \<Rightarrow> slice list" where
  "fine_slices f c dim k r =
     [(r, shard_of c (parent dim k (tile_index r f)), index_box f (tile_index r f))]"

definition coarse_slices :: "sharding \<Rightarrow> sharding \<Rightarrow> nat \<Rightarrow> int \<Rightarrow> int \<Rightarrow> slice list" where
  "coarse_slices f c dim k q =
     map (\<lambda>x. (shard_of f (child dim k (tile_index q c) x), q,
               index_box f (child dim k (tile_index q c) x))) (upto64 k)"

definition gather_slice :: "slice \<Rightarrow> slice_config" where
  "gather_slice = (\<lambda>(r, q, box). \<lparr>slc_src = r, slc_dst = q, slc_bounds = box\<rparr>)"

definition scatter_slice :: "slice \<Rightarrow> slice_config" where
  "scatter_slice = (\<lambda>(r, q, box). \<lparr>slc_src = q, slc_dst = r, slc_bounds = box\<rparr>)"

definition role_ok :: "device_list \<Rightarrow> int option \<Rightarrow> bool" where
  "role_ok devices role \<longleftrightarrow> (case role of None \<Rightarrow> True | Some r \<Rightarrow> 0 \<le> r \<and> r < dl_size devices)"

definition role_slices :: "(int \<Rightarrow> slice list) \<Rightarrow> int option \<Rightarrow> slice list" where
  "role_slices f role = (case role of None \<Rightarrow> [] | Some r \<Rightarrow> f r)"

lemma sg_okD:
  assumes "sg_ok max_dim f c dim k"
  shows "box_args_ok max_dim f" "sharding_ok f" "sharding_ok c" "row_major f" "row_major c"
    "refines_dim f c dim k"
  using assms by (simp_all add: sg_ok_def box_args_ok_def)

lemma dim_sharding_int64:
  assumes "sharding_ok s" and "d \<in> set (sh_dims s)"
  shows "1 \<le> dim_sharding d" and "dim_sharding d \<le> int64_max"
proof -
  have "dim_sharding d \<le> prod_list (map dim_sharding (sh_dims s))"
    using assms by (intro prod_list_member_le) (auto dest: sharding_ok_dim dim_ok_ge1)
  then show "dim_sharding d \<le> int64_max"
    using devices_ok[OF assms(1)] sharding_ok_devices[OF assms(1)] by simp
  show "1 \<le> dim_sharding d" using sharding_ok_dim[OF assms] dim_ok_ge1 by simp
qed

lemma sg_counts:
  assumes "sg_ok max_dim f c dim k"
  shows "div64 (dim_sharding (sh_dims f ! dim)) (dim_sharding (sh_dims c ! dim)) = ret k"
    and "dim_sharding (sh_dims c ! dim) < dim_sharding (sh_dims f ! dim)"
    and "\<exists>q. div64 (dim_size (sh_dims f ! dim)) (dim_sharding (sh_dims f ! dim)) = ret q"
    and "k \<le> int64_max"
proof -
  note ok = sg_okD[OF assms]
  note r = refines_dimD[OF ok(6)]
  have f: "sh_dims f ! dim \<in> set (sh_dims f)" and c: "sh_dims c ! dim \<in> set (sh_dims c)"
    using r by auto
  note f64 = dim_sharding_int64[OF ok(2) f] and c64 = dim_sharding_int64[OF ok(3) c]
  show "div64 (dim_sharding (sh_dims f ! dim)) (dim_sharding (sh_dims c ! dim)) = ret k"
    using f64 c64 r(4) by (subst div64_ok) (auto intro!: int64_okI)
  have "1 * dim_sharding (sh_dims c ! dim) < k * dim_sharding (sh_dims c ! dim)"
    using r(3) c64 by (intro mult_strict_right_mono) auto
  then show "dim_sharding (sh_dims c ! dim) < dim_sharding (sh_dims f ! dim)" using r(4) by simp
  show "\<exists>q. div64 (dim_size (sh_dims f ! dim)) (dim_sharding (sh_dims f ! dim)) = ret q"
    using f64 dim_size_int64[OF ok(2) f] dim_ok_ge1[OF sharding_ok_dim[OF ok(2) f]]
    by (subst div64_ok) (auto intro!: int64_okI)
  have "k * 1 \<le> k * dim_sharding (sh_dims c ! dim)"
    using r(3) c64 by (intro mult_left_mono) auto
  then show "k \<le> int64_max" using r(4) f64 by simp
qed

lemma fine_side:
  assumes ok: "sg_ok max_dim f c dim k" and r: "0 \<le> r" "r < dl_size (sh_devices f)"
  shows "ComputeTileIndex r f = ret (tile_index r f)"
    and "MakeTileBox max_dim (tile_index r f) f = ret (index_box f (tile_index r f))"
    and "\<exists>x. mod64 r k = ret x"
    and "div_at (tile_index r f) (int dim) k = ret (parent dim k (tile_index r f))"
    and "ComputeTileShard (parent dim k (tile_index r f)) c =
           ret (shard_of c (parent dim k (tile_index r f)))"
proof -
  note o = sg_okD[OF ok]
  note rd = refines_dimD[OF o(6)]
  have idx: "index_in_range f (tile_index r f)" by (rule tile_index_in_range[OF o(2) r])
  show "ComputeTileIndex r f = ret (tile_index r f)" by (rule ComputeTileIndex_ok[OF o(2) r])
  show "MakeTileBox max_dim (tile_index r f) f = ret (index_box f (tile_index r f))"
    by (rule MakeTileBox_ok[OF o(1) idx])
  show "\<exists>x. mod64 r k = ret x"
    using r devices_ok[OF o(2)] rd(3) by (subst mod64_ok) (auto intro: int64_okI)
  have "0 \<le> tile_index r f ! dim" "tile_index r f ! dim < dim_sharding (sh_dims f ! dim)"
    using idx rd(1) by (auto simp: index_in_range_nth)
  then have "div64 (tile_index r f ! dim) k = ret (tile_index r f ! dim div k)"
    using rd(1,3) dim_sharding_int64[OF o(2), of "sh_dims f ! dim"]
    by (intro div64_ok int64_okI) auto
  then show "div_at (tile_index r f) (int dim) k = ret (parent dim k (tile_index r f))"
    using rd(1) by (simp add: div_at_def vec_at_nth vec_set_nth parent_def)
  show "ComputeTileShard (parent dim k (tile_index r f)) c =
      ret (shard_of c (parent dim k (tile_index r f)))"
    using ComputeTileShard_ok[OF o(3) parent_in_range[OF o(6) idx]] by (simp add: shard_of_def)
qed

lemma coarse_side:
  assumes ok: "sg_ok max_dim f c dim k" and q: "0 \<le> q" "q < dl_size (sh_devices c)"
  shows "ComputeTileIndex q c = ret (tile_index q c)"
    and "vec_at (tile_index q c) (int dim) = ret (tile_index q c ! dim)"
    and "mul64 (tile_index q c ! dim) k = ret (tile_index q c ! dim * k)"
    and "mapR (\<lambda>slice.
           andThen (add64 (tile_index q c ! dim * k) slice) (\<lambda>x.
           andThen (vec_set (tile_index q c) (int dim) x) (\<lambda>index'.
           andThen (MakeTileBox max_dim index' f) (\<lambda>bounds.
           andThen (ComputeTileShard index' f) (\<lambda>r. ret (g r bounds)))))) (upto64 k) =
         ret (map (\<lambda>(r, _, box). g r box) (coarse_slices f c dim k q))"
proof -
  note o = sg_okD[OF ok]
  note rd = refines_dimD[OF o(6)]
  let ?idx = "tile_index q c"
  have idx: "index_in_range c ?idx" by (rule tile_index_in_range[OF o(3) q])
  show "ComputeTileIndex q c = ret ?idx" by (rule ComputeTileIndex_ok[OF o(3) q])
  show "vec_at ?idx (int dim) = ret (?idx ! dim)" using rd(1,2) by (simp add: vec_at_nth)
  have max: "dim_sharding (sh_dims f ! dim) \<le> int64_max"
    using rd(1) dim_sharding_int64[OF o(2), of "sh_dims f ! dim"] by simp
  have child: "0 \<le> ?idx ! dim * k + x \<and> ?idx ! dim * k + x \<le> int64_max"
    if "0 \<le> x" "x < k" for x
    using child_in_range[OF o(6) idx that] rd(1,2) max
    by (auto simp: index_in_range_nth child_def dest!: spec[of _ dim])
  show "mul64 (?idx ! dim) k = ret (?idx ! dim * k)"
    using child[of 0] rd(3) by (intro mul64_ok int64_okI) auto
  have "andThen (add64 (?idx ! dim * k) x) (\<lambda>x.
           andThen (vec_set ?idx (int dim) x) (\<lambda>index'.
           andThen (MakeTileBox max_dim index' f) (\<lambda>bounds.
           andThen (ComputeTileShard index' f) (\<lambda>r. ret (g r bounds))))) =
         ret (g (shard_of f (child dim k ?idx x)) (index_box f (child dim k ?idx x)))"
    if "x \<in> set (upto64 k)" for x
  proof -
    from that have x: "0 \<le> x" "x < k" by auto
    note cr = child_in_range[OF o(6) idx x]
    have "add64 (?idx ! dim * k) x = ret (?idx ! dim * k + x)"
      using child[OF x] by (intro add64_ok int64_okI) auto
    moreover have "vec_set ?idx (int dim) (?idx ! dim * k + x) = ret (child dim k ?idx x)"
      using rd(1,2) by (simp add: vec_set_nth child_def)
    ultimately show ?thesis
      using MakeTileBox_ok[OF o(1) cr] ComputeTileShard_ok[OF o(2) cr] by (simp add: shard_of_def)
  qed
  show "mapR (\<lambda>slice.
           andThen (add64 (?idx ! dim * k) slice) (\<lambda>x.
           andThen (vec_set ?idx (int dim) x) (\<lambda>index'.
           andThen (MakeTileBox max_dim index' f) (\<lambda>bounds.
           andThen (ComputeTileShard index' f) (\<lambda>r. ret (g r bounds)))))) (upto64 k) =
         ret (map (\<lambda>(r, _, box). g r box) (coarse_slices f c dim k q))"
    unfolding coarse_slices_def map_map comp_def prod.case by (rule mapR_pure) fact
qed

lemma GetScatterGatherConfig_gather:
  assumes ok: "sg_ok max_dim src dst dim k"
    and roles: "role_ok (sh_devices src) src_shard" "role_ok (sh_devices dst) dst_shard"
  shows "GetScatterGatherConfig max_dim (int dim) src_shard dst_shard src dst = ret
    \<lparr>from_source = map gather_slice (role_slices (fine_slices src dst dim k) src_shard),
     to_target = map gather_slice (role_slices (coarse_slices src dst dim k) dst_shard)\<rparr>"
proof -
  note c = sg_counts[OF ok]
  note rd = refines_dimD[OF sg_okD(6)[OF ok]]
  obtain sz where sz: "div64 (dim_size (sh_dims src ! dim)) (dim_sharding (sh_dims src ! dim)) = ret sz"
    using c(3) by blast
  have from_src: "(case src_shard of None \<Rightarrow> ret []
          | Some src_shard \<Rightarrow>
              andThen (ComputeTileIndex src_shard src) (\<lambda>index.
              andThen (MakeTileBox max_dim index src) (\<lambda>bounds.
              andThen (mod64 src_shard k) (\<lambda>_.
              andThen (div_at index (int dim) k) (\<lambda>index'.
              andThen (ComputeTileShard index' dst) (\<lambda>dst_shard.
              ret [\<lparr>slc_src = src_shard, slc_dst = dst_shard, slc_bounds = bounds\<rparr>])))))) =
      ret (map gather_slice (role_slices (fine_slices src dst dim k) src_shard))"
  proof (cases src_shard)
    case None
    then show ?thesis by (simp add: role_slices_def)
  next
    case (Some r)
    then have r: "0 \<le> r" "r < dl_size (sh_devices src)" using roles(1) by (simp_all add: role_ok_def)
    obtain x where "mod64 r k = ret x" using fine_side(3)[OF ok r] by blast
    then show ?thesis
      using fine_side(1,2,4,5)[OF ok r] Some
      by (simp add: role_slices_def fine_slices_def gather_slice_def)
  qed
  have to_tgt: "(case dst_shard of None \<Rightarrow> ret []
          | Some dst_shard \<Rightarrow>
              andThen (ComputeTileIndex dst_shard dst) (\<lambda>index.
              andThen (vec_at index (int dim)) (\<lambda>i.
              andThen (mul64 i k) (\<lambda>src_shard_start.
              mapR (\<lambda>slice.
                andThen (add64 src_shard_start slice) (\<lambda>x.
                andThen (vec_set index (int dim) x) (\<lambda>index'.
                andThen (MakeTileBox max_dim index' src) (\<lambda>bounds.
                andThen (ComputeTileShard index' src) (\<lambda>src_shard.
                ret \<lparr>slc_src = src_shard, slc_dst = dst_shard, slc_bounds = bounds\<rparr>)))))
                (upto64 k))))) =
      ret (map gather_slice (role_slices (coarse_slices src dst dim k) dst_shard))"
  proof (cases dst_shard)
    case None
    then show ?thesis by (simp add: role_slices_def)
  next
    case (Some q)
    then have q: "0 \<le> q" "q < dl_size (sh_devices dst)" using roles(2) by (simp_all add: role_ok_def)
    have "map (\<lambda>(r, _, box). \<lparr>slc_src = r, slc_dst = q, slc_bounds = box\<rparr>)
        (coarse_slices src dst dim k q) = map gather_slice (coarse_slices src dst dim k q)"
      by (simp add: coarse_slices_def gather_slice_def)
    note loop = coarse_side(4)[OF ok q, of "\<lambda>r box. \<lparr>slc_src = r, slc_dst = q, slc_bounds = box\<rparr>",
        unfolded this]
    show ?thesis
      using coarse_side(1-3)[OF ok q] loop Some by (simp add: role_slices_def)
  qed
  have dims: "vec_at (sh_dims src) (int dim) = ret (sh_dims src ! dim)"
    "vec_at (sh_dims dst) (int dim) = ret (sh_dims dst ! dim)"
    using rd(1,2) by (simp_all add: vec_at_nth)
  have "dim_sharding (sh_dims src ! dim) \<noteq> dim_sharding (sh_dims dst ! dim)"
    "dim_sharding (sh_dims dst ! dim) < dim_sharding (sh_dims src ! dim)" using c(2) by auto
  then show ?thesis
    unfolding GetScatterGatherConfig_def Let_def
    by (simp only: dims andThen.simps require_True c(1) sz from_src to_tgt if_True simp_thms)
qed

lemma GetScatterGatherConfig_scatter:
  assumes ok: "sg_ok max_dim dst src dim k"
    and roles: "role_ok (sh_devices src) src_shard" "role_ok (sh_devices dst) dst_shard"
  shows "GetScatterGatherConfig max_dim (int dim) src_shard dst_shard src dst = ret
    \<lparr>from_source = map scatter_slice (role_slices (coarse_slices dst src dim k) src_shard),
     to_target = map scatter_slice (role_slices (fine_slices dst src dim k) dst_shard)\<rparr>"
proof -
  note c = sg_counts[OF ok]
  note rd = refines_dimD[OF sg_okD(6)[OF ok]]
  obtain sz where sz: "div64 (dim_size (sh_dims dst ! dim)) (dim_sharding (sh_dims dst ! dim)) = ret sz"
    using c(3) by blast
  have to_tgt: "(case dst_shard of None \<Rightarrow> ret []
          | Some dst_shard \<Rightarrow>
              andThen (ComputeTileIndex dst_shard dst) (\<lambda>index.
              andThen (MakeTileBox max_dim index dst) (\<lambda>bounds.
              andThen (div_at index (int dim) k) (\<lambda>index'.
              andThen (ComputeTileShard index' src) (\<lambda>src_shard.
              ret [\<lparr>slc_src = src_shard, slc_dst = dst_shard, slc_bounds = bounds\<rparr>]))))) =
      ret (map scatter_slice (role_slices (fine_slices dst src dim k) dst_shard))"
    using fine_side[OF ok] roles(2)
    by (auto simp: role_ok_def role_slices_def fine_slices_def scatter_slice_def split: option.splits)
  have from_src: "(case src_shard of None \<Rightarrow> ret []
          | Some src_shard \<Rightarrow>
              andThen (ComputeTileIndex src_shard src) (\<lambda>index.
              andThen (vec_at index (int dim)) (\<lambda>i.
              andThen (mul64 i k) (\<lambda>dest_idx_start.
              mapR (\<lambda>slice.
                andThen (add64 dest_idx_start slice) (\<lambda>x.
                andThen (vec_set index (int dim) x) (\<lambda>index'.
                andThen (MakeTileBox max_dim index' dst) (\<lambda>bounds.
                andThen (ComputeTileShard index' dst) (\<lambda>dst_shard.
                ret \<lparr>slc_src = src_shard, slc_dst = dst_shard, slc_bounds = bounds\<rparr>)))))
                (upto64 k))))) =
      ret (map scatter_slice (role_slices (coarse_slices dst src dim k) src_shard))"
  proof (cases src_shard)
    case None
    then show ?thesis by (simp add: role_slices_def)
  next
    case (Some q)
    then have q: "0 \<le> q" "q < dl_size (sh_devices src)" using roles(1) by (simp_all add: role_ok_def)
    have "map (\<lambda>(r, _, box). \<lparr>slc_src = q, slc_dst = r, slc_bounds = box\<rparr>)
        (coarse_slices dst src dim k q) = map scatter_slice (coarse_slices dst src dim k q)"
      by (simp add: coarse_slices_def scatter_slice_def)
    note loop = coarse_side(4)[OF ok q, of "\<lambda>r box. \<lparr>slc_src = q, slc_dst = r, slc_bounds = box\<rparr>",
        unfolded this]
    show ?thesis
      using coarse_side(1-3)[OF ok q] loop Some by (simp add: role_slices_def)
  qed
  have dims: "vec_at (sh_dims src) (int dim) = ret (sh_dims src ! dim)"
    "vec_at (sh_dims dst) (int dim) = ret (sh_dims dst ! dim)"
    using rd(1,2) by (simp_all add: vec_at_nth)
  have "dim_sharding (sh_dims src ! dim) \<noteq> dim_sharding (sh_dims dst ! dim)"
    "\<not> dim_sharding (sh_dims src ! dim) > dim_sharding (sh_dims dst ! dim)" using c(2) by auto
  then show ?thesis
    unfolding GetScatterGatherConfig_def Let_def
    by (simp only: dims andThen.simps require_True c(1) sz from_src to_tgt if_False simp_thms)
qed

text \<open>The one slice of the finer side and the slices of the coarser side are the same set.\<close>

lemma slices_agree:
  assumes ok: "sg_ok max_dim f c dim k" and r: "0 \<le> r" "r < dl_size (sh_devices f)"
    and q: "0 \<le> q" "q < dl_size (sh_devices c)"
  shows "sl \<in> set (fine_slices f c dim k r) \<and> fst (snd sl) = q \<longleftrightarrow>
         sl \<in> set (coarse_slices f c dim k q) \<and> fst sl = r"
proof
  note o = sg_okD[OF ok]
  note rd = refines_dimD[OF o(6)]
  have ir: "index_in_range f (tile_index r f)" by (rule tile_index_in_range[OF o(2) r])
  have iq: "index_in_range c (tile_index q c)" by (rule tile_index_in_range[OF o(3) q])
  show "sl \<in> set (coarse_slices f c dim k q) \<and> fst sl = r"
    if "sl \<in> set (fine_slices f c dim k r) \<and> fst (snd sl) = q"
  proof -
    have sl: "sl = (r, q, index_box f (tile_index r f))"
      and q': "q = shard_of c (parent dim k (tile_index r f))"
      using that by (auto simp: fine_slices_def)
    have "tile_index q c = parent dim k (tile_index r f)"
      using row_major_shard_of(2)[OF o(3,5) parent_in_range[OF o(6) ir]] q' by simp
    then have "child dim k (tile_index q c) (tile_index r f ! dim mod k) = tile_index r f"
      using rd(1) by (simp add: child_parent)
    moreover have "shard_of f (tile_index r f) = r" by (rule row_major_shard_of(3)[OF o(2,4) r])
    moreover have "tile_index r f ! dim mod k \<in> set (upto64 k)" using rd(3) by simp
    ultimately show ?thesis
      unfolding sl coarse_slices_def set_map by (auto intro!: image_eqI[where x = "tile_index r f ! dim mod k"])
  qed
  show "sl \<in> set (fine_slices f c dim k r) \<and> fst (snd sl) = q"
    if sl: "sl \<in> set (coarse_slices f c dim k q) \<and> fst sl = r"
  proof -
    obtain x where x: "0 \<le> x" "x < k" and
      sl': "sl = (shard_of f (child dim k (tile_index q c) x), q,
        index_box f (child dim k (tile_index q c) x))"
      using sl by (auto simp: coarse_slices_def)
    have "tile_index r f = child dim k (tile_index q c) x"
      using row_major_shard_of(2)[OF o(2,4) child_in_range[OF o(6) iq x]] sl sl' by simp
    moreover have "parent dim k (child dim k (tile_index q c) x) = tile_index q c"
      using rd(1,2) x by (intro parent_child) auto
    moreover have "shard_of c (tile_index q c) = q" by (rule row_major_shard_of(3)[OF o(3,5) q])
    ultimately show ?thesis using sl sl' by (simp add: fine_slices_def)
  qed
qed

text \<open>
  The two shardings of a scatter or gather along a dimension: one of them cuts it finer.
\<close>

definition sg_pair :: "int \<Rightarrow> sharding \<Rightarrow> sharding \<Rightarrow> nat \<Rightarrow> bool" where
  "sg_pair max_dim src dst dim \<longleftrightarrow>
     sg_ok max_dim src dst dim
       (dim_sharding (sh_dims src ! dim) div dim_sharding (sh_dims dst ! dim)) \<or>
     sg_ok max_dim dst src dim
       (dim_sharding (sh_dims dst ! dim) div dim_sharding (sh_dims src ! dim))"

text \<open>
  C4. Sender and receiver agree: when one real dimension of a row-major sharding changes its number
  of pieces by a factor, whatever other role the two processors have, the slices that source shard
  \<open>i\<close> sends to target shard \<open>j\<close> are, keys and boxes, the slices that target shard \<open>j\<close>
  receives from source shard \<open>i\<close>, and both computations succeed.
\<close>

theorem scatter_gather_match:
  assumes "sg_pair max_dim src dst dim"
    and "0 \<le> i" and "i < dl_size (sh_devices src)" and "0 \<le> j" and "j < dl_size (sh_devices dst)"
    and "role_ok (sh_devices dst) other_dst" and "role_ok (sh_devices src) other_src"
  shows "\<exists>ci cj. GetScatterGatherConfig max_dim (int dim) (Some i) other_dst src dst = ret ci \<and>
    GetScatterGatherConfig max_dim (int dim) other_src (Some j) src dst = ret cj \<and>
    (\<forall>sl. sl \<in> set (from_source ci) \<and> slc_dst sl = j \<longleftrightarrow>
          sl \<in> set (to_target cj) \<and> slc_src sl = i)"
  using assms(1)[unfolded sg_pair_def]
proof
  let ?k = "dim_sharding (sh_dims src ! dim) div dim_sharding (sh_dims dst ! dim)"
  assume ok: "sg_ok max_dim src dst dim ?k"
  have roles: "role_ok (sh_devices src) (Some i)" "role_ok (sh_devices dst) (Some j)"
    using assms by (simp_all add: role_ok_def)
  note agree = slices_agree[OF ok assms(2-5)]
  have "sl \<in> set (map gather_slice (fine_slices src dst dim ?k i)) \<and> slc_dst sl = j \<longleftrightarrow>
        sl \<in> set (map gather_slice (coarse_slices src dst dim ?k j)) \<and> slc_src sl = i" for sl
    using agree[of "(slc_src sl, slc_dst sl, slc_bounds sl)"]
    by (auto simp: gather_slice_def image_iff split: prod.splits; fastforce)
  then show ?thesis
    using GetScatterGatherConfig_gather[OF ok roles(1) assms(6)]
      GetScatterGatherConfig_gather[OF ok assms(7) roles(2)]
    by (simp add: role_slices_def)
next
  let ?k = "dim_sharding (sh_dims dst ! dim) div dim_sharding (sh_dims src ! dim)"
  assume ok: "sg_ok max_dim dst src dim ?k"
  have roles: "role_ok (sh_devices src) (Some i)" "role_ok (sh_devices dst) (Some j)"
    using assms by (simp_all add: role_ok_def)
  note agree = slices_agree[OF ok assms(4,5,2,3)]
  have "sl \<in> set (map scatter_slice (coarse_slices dst src dim ?k i)) \<and> slc_dst sl = j \<longleftrightarrow>
        sl \<in> set (map scatter_slice (fine_slices dst src dim ?k j)) \<and> slc_src sl = i" for sl
    using agree[of "(slc_dst sl, slc_src sl, slc_bounds sl)"]
    by (auto simp: scatter_slice_def image_iff split: prod.splits; fastforce)
  then show ?thesis
    using GetScatterGatherConfig_scatter[OF ok roles(1) assms(6)]
      GetScatterGatherConfig_scatter[OF ok assms(7) roles(2)]
    by (simp add: role_slices_def)
qed

definition sg_example_src :: sharding where
  "sg_example_src = \<lparr>sh_dims =
     [\<lparr>dim_size = 6, dim_sharding = 3, dim_permutation = 0\<rparr>,
      \<lparr>dim_size = 8, dim_sharding = 4, dim_permutation = 1\<rparr>],
     sh_devices = dl_ctor 0 12\<rparr>"

definition sg_example_dst :: sharding where
  "sg_example_dst = \<lparr>sh_dims =
     [\<lparr>dim_size = 6, dim_sharding = 3, dim_permutation = 0\<rparr>,
      \<lparr>dim_size = 8, dim_sharding = 2, dim_permutation = 1\<rparr>],
     sh_devices = dl_ctor 12 6\<rparr>"

lemma sg_example: "sg_pair 3 sg_example_src sg_example_dst 1"
proof -
  have "box_args_ok 3 sg_example_src" "sharding_ok sg_example_dst"
    by (simp_all add: box_args_ok_def sharding_ok_def sg_example_src_def sg_example_dst_def
        dim_ok_def is_repl_dim_def size_of_def elements_def device_list_ok_def dl_defs
        int64_max_def repl_last_def rank_supported_def)
  moreover have "row_major sg_example_src" "row_major sg_example_dst"
    by (simp_all add: row_major_def sg_example_src_def sg_example_dst_def less_Suc_eq
        all_conj_distrib)
  moreover have "refines_dim sg_example_src sg_example_dst 1 2"
    by (simp add: refines_dim_def sg_example_src_def sg_example_dst_def is_repl_dim_def
        numeral_2_eq_2)
  ultimately show ?thesis
    by (simp add: sg_pair_def sg_ok_def sg_example_src_def sg_example_dst_def)
qed

lemma sg_example_size:
  "dl_size (sh_devices sg_example_src) = 12" "dl_size (sh_devices sg_example_dst) = 6"
  by (simp_all add: sg_example_src_def sg_example_dst_def)

theorem scatter_gather_match_witness:
  "\<exists>ci cj. GetScatterGatherConfig 3 1 (Some 7) None sg_example_src sg_example_dst = ret ci \<and>
    GetScatterGatherConfig 3 1 None (Some 3) sg_example_src sg_example_dst = ret cj \<and>
    (\<forall>sl. sl \<in> set (from_source ci) \<and> slc_dst sl = 3 \<longleftrightarrow>
          sl \<in> set (to_target cj) \<and> slc_src sl = 7)"
  using scatter_gather_match[OF sg_example, of 7 3 None None]
  by (simp add: sg_example_size role_ok_def)

text \<open>Points of the array and the boxes of indices, for both tilings.\<close>

lemma in_index_box_iff:
  assumes s: "sharding_ok s" and idx: "index_in_range s idx" and p: "array_point s p"
    and ne: "real_dims (sh_dims s) \<noteq> []"
  shows "in_rect (index_box s idx) p \<longleftrightarrow> idx \<in> listset (owner_sets (sh_dims s) p)"
proof -
  have "in_radix (map dim_size (real_dims (sh_dims s))) p" using p ne by (simp add: array_point_def)
  then have "in_spans (tile_spans (sh_dims s) idx) p \<longleftrightarrow>
      idx \<in> listset (owner_sets (sh_dims s) p)"
    using owner_sets_iff[of "sh_dims s" p idx] sharding_ok_dim[OF s] idx
    by (simp add: index_in_range_def)
  then show ?thesis
    using in_box_of_spans_iff[of idx s p] idx p ne
    by (simp add: index_box_def index_in_range_nth)
qed

lemma refines_repl:
  assumes "sharding_ok f" and "sharding_ok c" and "refines_dim f c dim k" and "i < length (sh_dims f)"
  shows "is_repl_dim (sh_dims c ! i) = is_repl_dim (sh_dims f ! i)"
    and "dim_size (sh_dims c ! i) = dim_size (sh_dims f ! i)"
proof -
  note rd = refines_dimD[OF assms(3)]
  have f: "sh_dims f ! dim \<in> set (sh_dims f)" and c: "sh_dims c ! dim \<in> set (sh_dims c)"
    using rd by auto
  have "k * dim_sharding (sh_dims c ! dim) \<le> dim_size (sh_dims f ! dim)"
    using real_dim_le[OF sharding_ok_dim[OF assms(1) f] rd(6)] rd(4) by simp
  moreover have "k \<le> k * dim_sharding (sh_dims c ! dim)"
    using rd(3) dim_sharding_int64(1)[OF assms(2) c] by (intro le_mult_ge1) auto
  ultimately have "1 < dim_size (sh_dims c ! dim)" using rd(3,5) by linarith
  then have "\<not> is_repl_dim (sh_dims c ! dim)" by (simp add: is_repl_dim_def)
  then show "is_repl_dim (sh_dims c ! i) = is_repl_dim (sh_dims f ! i)"
    using rd(6,7) assms(4) by (cases "i = dim") auto
  show "dim_size (sh_dims c ! i) = dim_size (sh_dims f ! i)"
    using rd(5,7) assms(4) by (cases "i = dim") auto
qed

lemma real_dims_pointwise:
  assumes "length ds = length es"
    and "\<And>i. i < length es \<Longrightarrow> is_repl_dim (ds ! i) = is_repl_dim (es ! i) \<and>
           dim_size (ds ! i) = dim_size (es ! i)"
  shows "map dim_size (real_dims ds) = map dim_size (real_dims es)"
  using assms
proof (induction ds es rule: list_induct2)
  case (Cons d ds e es)
  have "is_repl_dim d = is_repl_dim e \<and> dim_size d = dim_size e" using Cons.prems[of 0] by simp
  moreover have "map dim_size (real_dims ds) = map dim_size (real_dims es)"
  proof (rule Cons.IH)
    fix i assume "i < length es"
    then show "is_repl_dim (ds ! i) = is_repl_dim (es ! i) \<and> dim_size (ds ! i) = dim_size (es ! i)"
      using Cons.prems[of "Suc i"] by simp
  qed
  ultimately show ?case by simp
qed simp

lemma refines_real_sizes:
  assumes "sharding_ok f" and "sharding_ok c" and "refines_dim f c dim k"
  shows "map dim_size (real_dims (take n (sh_dims c))) = map dim_size (real_dims (take n (sh_dims f)))"
  using refines_repl[OF assms] refines_dimD(2)[OF assms(3)]
  by (intro real_dims_pointwise) auto

lemma refines_same_points:
  assumes "sharding_ok f" and "sharding_ok c" and "refines_dim f c dim k"
  shows "array_point c p \<longleftrightarrow> array_point f p"
    and "real_dims (sh_dims c) = [] \<longleftrightarrow> real_dims (sh_dims f) = []"
    and "rank_supported max_dim c \<longleftrightarrow> rank_supported max_dim f"
    and "length (real_dims (sh_dims c)) = length (real_dims (sh_dims f))"
proof -
  have eq: "map dim_size (real_dims (sh_dims c)) = map dim_size (real_dims (sh_dims f))"
    using refines_real_sizes[OF assms, of "length (sh_dims f)"] refines_dimD(2)[OF assms(3)] by simp
  then show len: "length (real_dims (sh_dims c)) = length (real_dims (sh_dims f))"
    by (metis length_map)
  then show nil: "real_dims (sh_dims c) = [] \<longleftrightarrow> real_dims (sh_dims f) = []" by (metis length_0_conv)
  show "array_point c p \<longleftrightarrow> array_point f p" by (simp only: array_point_def nil eq)
  show "rank_supported max_dim c \<longleftrightarrow> rank_supported max_dim f"
    by (simp only: rank_supported_def len)
qed

text \<open>
  A point in a fine tile: the coarse tile is the parent, and the position below the parent is the
  remainder.
\<close>

lemma child_owner:
  assumes f: "sharding_ok f" and c: "sharding_ok c" and rf: "refines_dim f c dim k"
    and p: "array_point f p" and ne: "real_dims (sh_dims f) \<noteq> []"
  obtains a where "0 \<le> a" and "a < k"
    and "\<And>idx x. length idx = length (sh_dims f) \<Longrightarrow> 0 \<le> x \<Longrightarrow> x < k \<Longrightarrow>
       child dim k idx x \<in> listset (owner_sets (sh_dims f) p) \<longleftrightarrow>
       x = a \<and> idx \<in> listset (owner_sets (sh_dims c) p)"
proof -
  note rd = refines_dimD[OF rf]
  let ?F = "owner_sets (sh_dims f) p" and ?C = "owner_sets (sh_dims c) p"
  have lp: "length p = length (real_dims (sh_dims f))" "length p = length (real_dims (sh_dims c))"
    using p ne refines_same_points(4)[OF f c rf] in_radix_length[of _ p]
    by (auto simp: array_point_def split: if_splits)
  have f_dim: "sh_dims f ! dim \<in> set (sh_dims f)" and c_dim: "sh_dims c ! dim \<in> set (sh_dims c)"
    using rd by auto
  let ?q = "p ! length (real_dims (take dim (sh_dims f)))"
  let ?e = "dim_size (sh_dims f ! dim) div dim_sharding (sh_dims f ! dim)"
  have pos: "length (real_dims (take dim (sh_dims c))) = length (real_dims (take dim (sh_dims f)))"
    using refines_real_sizes[OF f c rf, of dim] by (metis length_map)
  have e1: "1 \<le> ?e" by (rule real_dim_tile_ge1[OF sharding_ok_dim[OF f f_dim] rd(6)])
  have c1: "1 \<le> dim_sharding (sh_dims c ! dim)" by (rule dim_sharding_int64(1)[OF c c_dim])
  have "dim_size (sh_dims c ! dim) = dim_sharding (sh_dims c ! dim) * (k * ?e)"
    using real_dim_mult[OF sharding_ok_dim[OF f f_dim] rd(6)] rd(4,5) by (simp add: mult_ac)
  then have ec: "dim_size (sh_dims c ! dim) div dim_sharding (sh_dims c ! dim) = ?e * k"
    using c1 by (simp add: mult.commute)
  have F_dim: "?F ! dim = {?q div ?e}" using owner_sets_nth[OF rd(1) lp(1)] rd(6) by simp
  have C_dim: "?C ! dim = {?q div ?e div k}"
    using owner_sets_nth[of dim "sh_dims c" p] lp(2) rd(1,2,6) refines_repl[OF f c rf rd(1)] ec pos rd(3)
    by (simp add: zdiv_zmult2_eq)
  have other: "?F ! i = ?C ! i" if "i < length (sh_dims f)" "i \<noteq> dim" for i
    using owner_sets_nth[of i "sh_dims f" p] owner_sets_nth[of i "sh_dims c" p] that lp rd(2,7)
      refines_real_sizes[OF f c rf, of i] by (metis length_map)
  show thesis
  proof (rule that[of "?q div ?e mod k"])
    show "0 \<le> ?q div ?e mod k" "?q div ?e mod k < k" using rd(3) by simp_all
    fix idx :: "int list" and x assume len: "length idx = length (sh_dims f)" and x: "0 \<le> x" "x < k"
    have at: "idx ! dim * k + x = ?q div ?e \<longleftrightarrow> x = ?q div ?e mod k \<and> idx ! dim = ?q div ?e div k"
    proof
      assume eq: "idx ! dim * k + x = ?q div ?e"
      show "x = ?q div ?e mod k \<and> idx ! dim = ?q div ?e div k"
        unfolding eq[symmetric] using x by simp
    next
      assume "x = ?q div ?e mod k \<and> idx ! dim = ?q div ?e div k"
      then show "idx ! dim * k + x = ?q div ?e" by simp
    qed
    have "child dim k idx x \<in> listset ?F \<longleftrightarrow>
        (\<forall>i < length (sh_dims f). i \<noteq> dim \<longrightarrow> idx ! i \<in> ?F ! i) \<and> idx ! dim * k + x = ?q div ?e"
      using len rd(1) F_dim by (auto simp: in_listset child_def nth_list_update)
    also have "\<dots> \<longleftrightarrow> x = ?q div ?e mod k \<and>
        (\<forall>i < length (sh_dims f). i \<noteq> dim \<longrightarrow> idx ! i \<in> ?C ! i) \<and> idx ! dim \<in> ?C ! dim"
      unfolding at using other C_dim by auto
    also have "\<dots> \<longleftrightarrow> x = ?q div ?e mod k \<and> idx \<in> listset ?C"
      using len rd(1,2) by (auto simp: in_listset)
    finally show "child dim k idx x \<in> listset ?F \<longleftrightarrow> x = ?q div ?e mod k \<and> idx \<in> listset ?C" .
  qed
qed

lemma box_args_real: 
  assumes "box_args_ok max_dim s"
  shows "real_dims (sh_dims s) \<noteq> []"
proof
  assume none: "real_dims (sh_dims s) = []"
  then have "tiles s = 1" by (simp add: tiles_def)
  moreover have "list_ex is_repl_dim (sh_dims s)" if "sh_dims s \<noteq> []"
    using that none by (cases "sh_dims s") (auto split: if_splits)
  ultimately show False using assms by (auto simp: box_args_ok_def split: if_splits)
qed

lemma tile_box_owner:
  assumes "sharding_ok s" and "0 \<le> r" and "r < dl_size (sh_devices s)" and "array_point s p"
    and "real_dims (sh_dims s) \<noteq> []"
  shows "in_rect (tile_box r s) p \<longleftrightarrow> tile_index r s \<in> listset (owner_sets (sh_dims s) p)"
  using assms by (simp add: tile_box_index_box in_index_box_iff tile_index_in_range)

text \<open>The slices of the coarser side: each point of its tile is in one, no other point in any.\<close>

lemma coarse_slices_cover:
  assumes ok: "sg_ok max_dim f c dim k" and q: "0 \<le> q" "q < dl_size (sh_devices c)"
    and p: "array_point c p"
  shows "length (filter (\<lambda>sl. in_rect (snd (snd sl)) p) (coarse_slices f c dim k q)) =
    (if in_rect (tile_box q c) p then 1 else 0)"
proof -
  note o = sg_okD[OF ok]
  note rd = refines_dimD[OF o(6)]
  have pf: "array_point f p" and ne: "real_dims (sh_dims f) \<noteq> []" "real_dims (sh_dims c) \<noteq> []"
    using p refines_same_points[OF o(2,3,6)] box_args_real[OF o(1)] by auto
  have iq: "index_in_range c (tile_index q c)" by (rule tile_index_in_range[OF o(3) q])
  obtain a where a: "0 \<le> a" "a < k" and own: "\<And>idx x. length idx = length (sh_dims f) \<Longrightarrow>
      0 \<le> x \<Longrightarrow> x < k \<Longrightarrow> child dim k idx x \<in> listset (owner_sets (sh_dims f) p) \<longleftrightarrow>
      x = a \<and> idx \<in> listset (owner_sets (sh_dims c) p)"
    using child_owner[OF o(2,3,6) pf ne(1)] by metis
  have "in_rect (index_box f (child dim k (tile_index q c) x)) p \<longleftrightarrow>
      x = a \<and> in_rect (tile_box q c) p" if "x \<in> set (upto64 k)" for x
    using that child_in_range[OF o(6) iq] own[of "tile_index q c" x] rd(2)
    by (simp add: in_index_box_iff[OF o(2) _ pf ne(1)] tile_box_owner[OF o(3) q p ne(2)])
  then have "filter (\<lambda>x. in_rect (index_box f (child dim k (tile_index q c) x)) p) (upto64 k) =
      filter (\<lambda>x. x = a \<and> in_rect (tile_box q c) p) (upto64 k)"
    by (intro filter_cong) auto
  moreover have "length (filter (\<lambda>x. x = a \<and> b) (upto64 k)) = (if b then 1 else 0)" for b
  proof -
    have "{x. x = a} \<inter> set (upto64 k) = {a}" using a by auto
    then have "length (filter (\<lambda>x. x = a) (upto64 k)) = 1"
      by (simp only: distinct_length_filter[OF distinct_upto64] card_1_singleton_iff) simp
    then show ?thesis by simp
  qed
  ultimately show ?thesis by (simp add: coarse_slices_def filter_map comp_def)
qed

text \<open>A fine tile lies inside the coarse tile it is paired with.\<close>

lemma fine_slice_inside:
  assumes ok: "sg_ok max_dim f c dim k" and r: "0 \<le> r" "r < dl_size (sh_devices f)"
    and p: "array_point f p" and inside: "in_rect (tile_box r f) p"
  shows "in_rect (tile_box (shard_of c (parent dim k (tile_index r f))) c) p"
proof -
  note o = sg_okD[OF ok]
  note rd = refines_dimD[OF o(6)]
  have pc: "array_point c p" and ne: "real_dims (sh_dims f) \<noteq> []" "real_dims (sh_dims c) \<noteq> []"
    using p refines_same_points[OF o(2,3,6)] box_args_real[OF o(1)] by auto
  have ir: "index_in_range f (tile_index r f)" by (rule tile_index_in_range[OF o(2) r])
  note par = parent_in_range[OF o(6) ir]
  obtain a where own: "\<And>idx x. length idx = length (sh_dims f) \<Longrightarrow>
      0 \<le> x \<Longrightarrow> x < k \<Longrightarrow> child dim k idx x \<in> listset (owner_sets (sh_dims f) p) \<longleftrightarrow>
      x = a \<and> idx \<in> listset (owner_sets (sh_dims c) p)"
    using child_owner[OF o(2,3,6) p ne(1)] by metis
  have "child dim k (parent dim k (tile_index r f)) (tile_index r f ! dim mod k) = tile_index r f"
    using rd(1) by (intro child_parent) simp
  then have "parent dim k (tile_index r f) \<in> listset (owner_sets (sh_dims c) p)"
    using own[of "parent dim k (tile_index r f)" "tile_index r f ! dim mod k"] rd(3) inside
    by (simp add: tile_box_owner[OF o(2) r p ne(1)] parent_def)
  then show ?thesis
    using row_major_shard_of[OF o(3,5)] par
    by (simp add: tile_box_index_box in_index_box_iff[OF o(3) par pc ne(2)])
qed

lemma gather_cover:
  assumes ok: "sg_ok max_dim src dst dim k" and j: "0 \<le> j" "j < dl_size (sh_devices dst)"
    and p: "array_point dst p" and sl: "sl \<in> set (coarse_slices src dst dim k j)"
    and inside: "in_rect (snd (snd sl)) p"
  shows "0 \<le> fst sl \<and> fst sl < dl_size (sh_devices src) \<and> in_rect (tile_box (fst sl) src) p"
proof -
  note o = sg_okD[OF ok]
  obtain x where x: "0 \<le> x" "x < k" and sl': "sl = (shard_of src (child dim k (tile_index j dst) x),
      j, index_box src (child dim k (tile_index j dst) x))"
    using sl by (auto simp: coarse_slices_def)
  have "index_in_range src (child dim k (tile_index j dst) x)"
    using tile_index_in_range[OF o(3) j] x by (intro child_in_range[OF o(6)])
  then show ?thesis
    using row_major_shard_of[OF o(2,4)] inside by (simp add: sl' tile_box_index_box)
qed

text \<open>
  C5. The receives of a target shard assemble its tile: every array element of the tile is in the box
  of exactly one of the slices the shard receives, no slice reaches outside the tile, and each slice
  lies inside the tile of the source shard that is to send it.
\<close>

theorem scatter_gather_cover:
  assumes pair: "sg_pair max_dim src dst dim" and j: "0 \<le> j" "j < dl_size (sh_devices dst)"
    and other: "role_ok (sh_devices src) other_src" and p: "array_point dst p"
  shows "\<exists>c box. GetScatterGatherConfig max_dim (int dim) other_src (Some j) src dst = ret c \<and>
    ComputeTileBounds max_dim j dst = ret box \<and>
    length (filter (\<lambda>sl. in_rect (slc_bounds sl) p) (to_target c)) =
      (if in_rect box p then 1 else 0) \<and>
    (\<forall>sl \<in> set (to_target c). in_rect (slc_bounds sl) p \<longrightarrow>
       (\<exists>sbox. ComputeTileBounds max_dim (slc_src sl) src = ret sbox \<and> in_rect sbox p))"
  using pair[unfolded sg_pair_def]
proof
  let ?k = "dim_sharding (sh_dims src ! dim) div dim_sharding (sh_dims dst ! dim)"
  assume ok: "sg_ok max_dim src dst dim ?k"
  note o = sg_okD[OF ok]
  have rank: "rank_supported max_dim src" "rank_supported max_dim dst"
    using o(1) refines_same_points(3)[OF o(2,3,6)] by (auto simp: box_args_ok_def)
  have role: "role_ok (sh_devices dst) (Some j)" using j by (simp add: role_ok_def)
  let ?sls = "coarse_slices src dst dim ?k j"
  have "length (filter (\<lambda>sl. in_rect (slc_bounds sl) p) (map gather_slice ?sls)) =
      (if in_rect (tile_box j dst) p then 1 else 0)"
    using coarse_slices_cover[OF ok j p]
    by (simp add: filter_map comp_def gather_slice_def split_beta)
  moreover have "\<exists>sbox. ComputeTileBounds max_dim (slc_src sl) src = ret sbox \<and> in_rect sbox p"
    if sl: "sl \<in> set (map gather_slice ?sls)" "in_rect (slc_bounds sl) p" for sl
  proof -
    obtain t where "t \<in> set ?sls" "sl = gather_slice t" using sl(1) unfolding set_map by blast
    then show ?thesis
      using gather_cover[OF ok j p, of t] sl(2) ComputeTileBounds_ok[OF o(2) _ _ rank(1)]
      by (auto simp: gather_slice_def split: prod.splits)
  qed
  ultimately show ?thesis
    using GetScatterGatherConfig_gather[OF ok other role] ComputeTileBounds_ok[OF o(3) j rank(2)]
    by (simp add: role_slices_def)
next
  let ?k = "dim_sharding (sh_dims dst ! dim) div dim_sharding (sh_dims src ! dim)"
  assume ok: "sg_ok max_dim dst src dim ?k"
  note o = sg_okD[OF ok]
  have rank: "rank_supported max_dim dst" "rank_supported max_dim src"
    using o(1) refines_same_points(3)[OF o(2,3,6)] by (auto simp: box_args_ok_def)
  have role: "role_ok (sh_devices dst) (Some j)" using j by (simp add: role_ok_def)
  let ?q = "shard_of src (parent dim ?k (tile_index j dst))"
  have "parent dim ?k (tile_index j dst) \<in> Collect (index_in_range src)"
    using parent_in_range[OF o(6) tile_index_in_range[OF o(2) j]] by simp
  then have q: "0 \<le> ?q" "?q < dl_size (sh_devices src)"
    using row_major_shard_of(1)[OF o(3,5)] by auto
  have "map scatter_slice (fine_slices dst src dim ?k j) =
      [\<lparr>slc_src = ?q, slc_dst = j, slc_bounds = tile_box j dst\<rparr>]"
    by (simp add: fine_slices_def scatter_slice_def tile_box_index_box)
  then show ?thesis
    using GetScatterGatherConfig_scatter[OF ok other role] ComputeTileBounds_ok[OF o(2) j rank(1)]
      ComputeTileBounds_ok[OF o(3) q rank(2)] fine_slice_inside[OF ok j p]
    by (simp add: role_slices_def)
qed

theorem scatter_gather_cover_witness:
  "\<exists>c box. GetScatterGatherConfig 3 1 None (Some 3) sg_example_src sg_example_dst = ret c \<and>
    ComputeTileBounds 3 3 sg_example_dst = ret box \<and>
    length (filter (\<lambda>sl. in_rect (slc_bounds sl) [3, 5]) (to_target c)) =
      (if in_rect box [3, 5] then 1 else 0)"
proof -
  have "array_point sg_example_dst [3, 5]"
    by (simp add: array_point_def sg_example_dst_def is_repl_dim_def)
  then show ?thesis
    using scatter_gather_cover[OF sg_example, of 3 None "[3, 5]"]
    by (fastforce simp: sg_example_size role_ok_def)
qed

section \<open>Where the hypotheses are needed\<close>

text \<open>
  With the replicating dimension first, \<open>MakeTileBox\<close> reads its coordinate instead of the real one:
  shard 1 of one piece-pair replicated twice is the second tile of its replica, but the box is the
  first.
\<close>

lemma MakeTileBox_repl_first:
  "let s = \<lparr>sh_dims = [\<lparr>dim_size = 1, dim_sharding = 2, dim_permutation = 0\<rparr>,
                      \<lparr>dim_size = 8, dim_sharding = 2, dim_permutation = 1\<rparr>],
             sh_devices = dl_ctor 0 4\<rparr>
   in sharding_ok s \<and> tile_index 1 s = [0, 1] \<and>
      MakeTileBox 3 [0, 1] s = ret \<lparr>rect_rank = 1, rect_lo = [0], rect_hi = [3]\<rparr> \<and>
      tile_box 1 s = \<lparr>rect_rank = 1, rect_lo = [4], rect_hi = [7]\<rparr>"
  by (simp add: Let_def sharding_ok_def dim_ok_def is_repl_dim_def size_of_def elements_def
      device_list_ok_def dl_defs int64_max_def int64_min_def tile_index_def device_order_def
      MakeTileBox_def MakeTileBoxN_def IsPartiallyReplicated_def TotalSharding_def arith64_defs
      chk_def int64_ok_def vec_at_def upto64_def new_rect_def rect_push_def numeral_2_eq_2
      signed_divide_int_def tile_box_def box_of_def tile_spans_def tile_span_def)

end
