(* ===== verification/Broadcast.thy ===== *)
theory Broadcast
  imports Shape "HOL-Library.While_Combinator"
begin

text \<open>
  The broadcast trees of \<open>src/zuku/reshard_broadcast.cc\<close>: which target shard each source shard
  sends to, and how the target shards forward the data among themselves (\<open>GetTargetConfig\<close>,
  \<open>GetBroadcastConfig\<close>). Each device computes only its own part.
\<close>

section \<open>Operations\<close>

record source_config =
  dst_root_shards :: "int list"

record target_config =
  tc_src_shard :: "int option"
  tc_dst_root_shard :: "int option"
  tc_dst_leaf_shards :: "int list"

record broadcast_config =
  bc_source :: "source_config option"
  bc_target :: "target_config option"

text \<open>
  The three loops. The first two need not end for every argument (a rank that the halving never
  meets), so their values are optional: \<open>None\<close> is a loop that never returns.
\<close>

definition power_loop :: "int \<Rightarrow> int res option" where
  "power_loop num_leaves =
     while_option (\<lambda>r. case r of Inr pw \<Rightarrow> pw < num_leaves | Inl _ \<Rightarrow> False)
       (\<lambda>r. andThen r (\<lambda>pw. mul64 pw 2)) (ret 1)"

definition split_step :: "int \<Rightarrow> int \<times> int \<Rightarrow> (int \<times> int) res" where
  "split_step my_rank = (\<lambda>(split_start, split_size).
     andThen (div64 split_size 2) (\<lambda>split_size'.
     if my_rank > split_start
     then andThen (add64 split_start split_size') (\<lambda>s. ret (s, split_size'))
     else if my_rank < split_start
     then andThen (sub64 split_start split_size') (\<lambda>s. ret (s, split_size'))
     else ret (split_start, split_size')))"

definition split_loop :: "int \<Rightarrow> int \<Rightarrow> (int \<times> int) res option" where
  "split_loop my_rank next_power_of_2 =
     while_option (\<lambda>r. case r of Inr (split_start, _) \<Rightarrow> split_start \<noteq> my_rank | Inl _ \<Rightarrow> False)
       (\<lambda>r. andThen r (split_step my_rank)) (ret (0, next_power_of_2))"

function leaf_loop :: "int \<Rightarrow> int \<Rightarrow> int \<Rightarrow> int \<Rightarrow> int list \<Rightarrow> int list res" where
  "leaf_loop dest_root_shard num_leaves next_leaf split_size targets =
     (if next_leaf < num_leaves \<and> split_size > 0
      then andThen (add64 dest_root_shard next_leaf) (\<lambda>leaf.
           andThen (sub64 next_leaf (split_size div 2)) (\<lambda>next_leaf'.
           leaf_loop dest_root_shard num_leaves next_leaf' (split_size div 2) (targets @ [leaf])))
      else ret targets)"
  by pat_completeness auto
termination
  by (relation "measure (\<lambda>(_, _, _, split_size, _). nat split_size)") auto

declare leaf_loop.simps [simp del]

definition GetTargetConfig ::
  "int \<Rightarrow> int \<Rightarrow> device_list \<Rightarrow> int \<Rightarrow> target_config res option" where
  "GetTargetConfig src_shard dest_root_shard dst_devices my_rank =
     (let num_leaves = dl_size dst_devices in
      if my_rank smod 2 \<noteq> 0
      then Some (andThen (add64 dest_root_shard my_rank) (\<lambda>x.
                 andThen (sub64 x 1) (\<lambda>root.
                 ret \<lparr>tc_src_shard = None, tc_dst_root_shard = Some root,
                      tc_dst_leaf_shards = []\<rparr>)))
      else
        (case power_loop num_leaves of
           None \<Rightarrow> None
         | Some (Inl e) \<Rightarrow> Some (Inl e)
         | Some (Inr next_power_of_2) \<Rightarrow>
             (case split_loop my_rank next_power_of_2 of
                None \<Rightarrow> None
              | Some (Inl e) \<Rightarrow> Some (Inl e)
              | Some (Inr (split_start, split_size)) \<Rightarrow>
                  Some (andThen (add64 dest_root_shard my_rank) (\<lambda>x.
                        andThen (sub64 x split_size) (\<lambda>my_source.
                        andThen (div64 split_size 2) (\<lambda>half.
                        andThen (add64 split_start half) (\<lambda>next_leaf.
                        andThen (leaf_loop dest_root_shard num_leaves next_leaf half []) (\<lambda>targets.
                        if my_rank > 0
                        then ret \<lparr>tc_src_shard = None, tc_dst_root_shard = Some my_source,
                                  tc_dst_leaf_shards = targets\<rparr>
                        else ret \<lparr>tc_src_shard = Some src_shard, tc_dst_root_shard = None,
                                  tc_dst_leaf_shards = targets\<rparr>)))))))))"

definition GetBroadcastConfig ::
  "int option \<Rightarrow> int option \<Rightarrow> sharding \<Rightarrow> sharding \<Rightarrow> broadcast_config res option" where
  "GetBroadcastConfig src_shard dst_shard src dst =
     (let S = dl_size (sh_devices src); D = dl_size (sh_devices dst) in
      case andThen (add64 D S) (\<lambda>x. andThen (sub64 x 1) (\<lambda>y. div64 y S)) of
        Inl e \<Rightarrow> Some (Inl e)
      | Inr leaves_per_root \<Rightarrow>
          (case (case src_shard of
                   None \<Rightarrow> ret (Some None)
                 | Some s \<Rightarrow>
                     andThen (mul64 s leaves_per_root) (\<lambda>dst_partner_shard.
                     if dst_partner_shard \<ge> D then ret None
                     else ret (Some (Some \<lparr>dst_root_shards = [dst_partner_shard]\<rparr>)))) of
             Inl e \<Rightarrow> Some (Inl e)
           | Inr None \<Rightarrow> Some (ret \<lparr>bc_source = None, bc_target = None\<rparr>)
           | Inr (Some source) \<Rightarrow>
               (case dst_shard of
                  None \<Rightarrow> Some (ret \<lparr>bc_source = source, bc_target = None\<rparr>)
                | Some d \<Rightarrow>
                    (case andThen (div64 d leaves_per_root) (\<lambda>my_src_shard.
                          andThen (mul64 my_src_shard leaves_per_root) (\<lambda>tree_offset.
                          andThen (sub64 d tree_offset) (\<lambda>my_rank.
                          andThen (sub64 D tree_offset) (\<lambda>left.
                          ret (my_src_shard, tree_offset, my_rank, min leaves_per_root left))))) of
                       Inl e \<Rightarrow> Some (Inl e)
                     | Inr (my_src_shard, tree_offset, my_rank, num_leaves) \<Rightarrow>
                         (case GetTargetConfig my_src_shard tree_offset
                                 (dl_slice (sh_devices dst) tree_offset num_leaves) my_rank of
                            None \<Rightarrow> None
                          | Some (Inl e) \<Rightarrow> Some (Inl e)
                          | Some (Inr target) \<Rightarrow>
                              Some (ret \<lparr>bc_source = source, bc_target = Some target\<rparr>))))))"

section \<open>Ranks\<close>

text \<open>
  A positive rank is an odd multiple of a power of two; rank 0 takes the power of two that bounds
  the tree.
\<close>

definition rank_exp :: "nat \<Rightarrow> int \<Rightarrow> nat \<Rightarrow> bool" where
  "rank_exp m r j \<longleftrightarrow> (if r = 0 then j = m else \<exists>q. odd q \<and> r = q * 2 ^ j)"

definition rank_leaves :: "int \<Rightarrow> int \<Rightarrow> int \<Rightarrow> nat \<Rightarrow> int list" where
  "rank_leaves root n r j =
     (if j = 0 \<or> n \<le> r + 2 ^ (j - 1) then [] else map (\<lambda>i. root + (r + 2 ^ i)) (rev [0..<j]))"

lemma odd_exp_unique: "odd (q :: int) \<Longrightarrow> odd p \<Longrightarrow> q * 2 ^ i = p * 2 ^ j \<Longrightarrow> i = j"
proof (induction i j rule: diff_induct)
  case (1 i)
  then show ?case by (cases i) auto
next
  case (2 j)
  then show ?case by simp
qed simp

lemma rank_exp_unique: "rank_exp m r i \<Longrightarrow> rank_exp m r j \<Longrightarrow> i = j"
  by (auto simp: rank_exp_def split: if_splits dest: odd_exp_unique)

lemma rank_exp_even: "rank_exp m r j \<Longrightarrow> r \<noteq> 0 \<Longrightarrow> even r \<longleftrightarrow> 0 < j"
  by (cases j) (auto simp: rank_exp_def)

lemma rank_exp_child:
  assumes "rank_exp m r j" and "i < j" and "0 \<le> r"
  shows "rank_exp m (r + 2 ^ i) i"
proof -
  obtain q where "r = q * 2 ^ j"
    using assms(1) by (auto simp: rank_exp_def split: if_splits intro: that[of 0])
  moreover have "(2 :: int) ^ j = 2 ^ (j - i - 1) * 2 * 2 ^ i"
    using assms(2) by (metis Suc_diff_Suc diff_Suc_1 le_add_diff_inverse2 less_imp_le power_Suc2
        power_add diff_diff_left Suc_eq_plus1)
  ultimately have "r + 2 ^ i = (q * 2 ^ (j - i - 1) * 2 + 1) * 2 ^ i" by (simp add: algebra_simps)
  moreover have "0 < r + 2 ^ i" using assms(3) by (simp add: add_nonneg_pos)
  ultimately show ?thesis unfolding rank_exp_def by (auto intro!: exI[of _ "q * 2 ^ (j - i - 1) * 2 + 1"])
qed

lemma rank_exp_exists:
  assumes "0 \<le> r" and "r < 2 ^ m"
  obtains j where "rank_exp m r j" and "j \<le> m" and "r \<noteq> 0 \<Longrightarrow> j < m" and "r + 2 ^ j \<le> 2 ^ m"
proof -
  have "\<exists>j \<le> m. rank_exp m r j \<and> (r \<noteq> 0 \<longrightarrow> j < m) \<and> r + 2 ^ j \<le> 2 ^ m"
    using assms
  proof (induction m arbitrary: r)
    case (Suc m)
    show ?case
    proof (cases "r = 0")
      case True
      then show ?thesis by (auto simp: rank_exp_def)
    next
      case False
      show ?thesis
      proof (cases "odd r")
        case True
        then have "rank_exp (Suc m) r 0" using False by (simp add: rank_exp_def)
        moreover have "r + 1 \<le> 2 ^ Suc m" using Suc.prems by linarith
        ultimately show ?thesis by force
      next
        case even: False
        then obtain s where s: "r = 2 * s" by blast
        then have "0 \<le> s" "s < 2 ^ m" "s \<noteq> 0" using Suc.prems False by auto
        then obtain j where j: "j < m" "rank_exp m s j" "s + 2 ^ j \<le> 2 ^ m"
          using Suc.IH[of s] by auto
        then have "rank_exp (Suc m) r (Suc j)"
          using s \<open>s \<noteq> 0\<close> by (auto simp: rank_exp_def)
        moreover have "r + 2 ^ Suc j \<le> 2 ^ Suc m" using j(3) s by simp
        ultimately show ?thesis using j(1) False by (intro exI[of _ "Suc j"]) auto
      qed
    qed
  qed (auto simp: rank_exp_def)
  then show thesis using that by blast
qed

section \<open>The loops\<close>

lemma pow2_le: "m \<le> k \<Longrightarrow> (2 :: int) ^ m \<le> 2 ^ k"
  by (simp add: power_increasing)

lemma pow2_int64: "m \<le> 62 \<Longrightarrow> (2 :: int) ^ m \<le> int64_max"
  using pow2_le[of m 62] by (simp add: int64_max_def)

text \<open>The smallest power of two that is not below the number of leaves.\<close>

lemma power_loop_ok:
  assumes "n \<le> 2 ^ 61"
  obtains m where "power_loop n = Some (ret (2 ^ m))" and "n \<le> 2 ^ m" and "m \<le> 61"
    and "m \<noteq> 0 \<Longrightarrow> 2 ^ (m - 1) < n"
proof -
  let ?b = "\<lambda>r. case r of Inr pw \<Rightarrow> pw < n | Inl _ \<Rightarrow> False"
  let ?c = "\<lambda>r. andThen r (\<lambda>pw. mul64 pw 2)"
  let ?P = "\<lambda>r :: int res. \<exists>m \<le> 61. r = ret (2 ^ m) \<and> (m \<noteq> 0 \<longrightarrow> 2 ^ (m - 1) < n)"
  let ?f = "\<lambda>r :: int res. case r of Inr pw \<Rightarrow> nat (n - pw) | Inl _ \<Rightarrow> 0"
  have step: "?P (?c r) \<and> ?f (?c r) < ?f r" if P: "?P r" and b: "?b r" for r
  proof -
    obtain m where m: "m \<le> 61" "r = ret (2 ^ m)" using P by blast
    have lt: "2 ^ m < n" using b m by simp
    have "m \<noteq> 61" using lt assms by auto
    then have m': "Suc m \<le> 61" using m(1) by simp
    have "?c r = ret (2 ^ Suc m)"
      using pow2_int64[of "Suc m"] m' by (simp add: m(2) mult.commute mul64_ok int64_okI)
    then show ?thesis using m' lt m(2) by (auto intro!: exI[of _ "Suc m"])
  qed
  have init: "?P (ret 1)" by (intro exI[of _ 0]) simp
  obtain t where t: "while_option ?b ?c (ret 1) = Some t"
    using measure_while_option_Some[where P = ?P and b = ?b and c = ?c and f = ?f, OF step init]
    by blast
  have "?P t"
    using while_option_rule[where P = ?P, OF _ t init] step by blast
  then obtain m where m: "m \<le> 61" "t = ret (2 ^ m)" "m \<noteq> 0 \<longrightarrow> 2 ^ (m - 1) < n" by blast
  moreover have "\<not> ?b t" by (rule while_option_stop[OF t])
  ultimately show thesis using that[of m] t by (auto simp: power_loop_def)
qed

definition split_inv :: "nat \<Rightarrow> int \<Rightarrow> (int \<times> int) res \<Rightarrow> bool" where
  "split_inv m r st \<longleftrightarrow> (\<exists>j ss. st = ret (ss, 2 ^ j) \<and> j \<le> m \<and> \<bar>r - ss\<bar> < 2 ^ j \<and>
     0 \<le> ss \<and> ss < 2 ^ m \<and> (ss = 0 \<and> j = m \<or> j < m \<and> (\<exists>q. odd q \<and> ss = q * 2 ^ j)))"

lemma split_step_ok:
  assumes r: "0 \<le> r" "r < 2 ^ m" and m: "m \<le> 61"
    and inv: "split_inv m r (ret (ss, sz))" and ne: "ss \<noteq> r"
  shows "split_inv m r (split_step r (ss, sz))"
    and "\<exists>ss'. split_step r (ss, sz) = ret (ss', sz div 2)" and "1 < sz"
proof -
  obtain j where j: "sz = 2 ^ j" "j \<le> m" "\<bar>r - ss\<bar> < 2 ^ j" "0 \<le> ss" "ss < 2 ^ m"
    "ss = 0 \<and> j = m \<or> j < m \<and> (\<exists>q. odd q \<and> ss = q * 2 ^ j)"
    using inv by (auto simp: split_inv_def)
  have j0: "j \<noteq> 0" using j(3) ne by (cases j) auto
  then obtain i where i: "j = Suc i" by (cases j) auto
  have szi: "sz div 2 = 2 ^ i" by (simp add: j(1) i)
  have max: "(2 :: int) ^ m \<le> 2 ^ 61" by (rule pow2_le[OF m])
  have "(1 :: int) \<le> 2 ^ i" by simp
  then show "1 < sz" using j(1) i by (simp only: power_Suc)
  have d: "div64 sz 2 = ret (2 ^ i)"
    using pow2_int64[of j] j(1,2) m szi by (subst div64_ok) (auto intro!: int64_okI)
  obtain q where q: "ss = q * 2 ^ Suc i" using j(6) i by auto
  have bound: "0 \<le> (2 :: int) ^ i" "(2 :: int) ^ i \<le> 2 ^ m" using j(2) i by (auto intro: pow2_le)
  show "split_inv m r (split_step r (ss, sz))"
  proof (cases "ss < r")
    case True
    then have near: "\<bar>r - (ss + 2 ^ i)\<bar> < 2 ^ i" using j(3) i by auto
    have lt: "ss + 2 ^ i < 2 ^ m"
    proof -
      have m_eq: "(2 :: int) ^ m = 2 ^ (m - Suc i) * 2 ^ Suc i"
        using j(2) i by (simp flip: power_add power_Suc)
      then have "q * 2 ^ Suc i < 2 ^ (m - Suc i) * (2 :: int) ^ Suc i"
        using j(5) by (simp only: q)
      then have "q < 2 ^ (m - Suc i)" by (simp only: mult_less_cancel_right) auto
      then have "(q + 1) * 2 ^ Suc i \<le> 2 ^ (m - Suc i) * (2 :: int) ^ Suc i"
        by (intro mult_right_mono) auto
      then have "ss + 2 * 2 ^ i \<le> 2 ^ m" by (simp only: m_eq q) (simp add: algebra_simps)
      moreover have "(0 :: int) < 2 ^ i" by simp
      ultimately show ?thesis by linarith
    qed
    have "add64 ss (2 ^ i) = ret (ss + 2 ^ i)"
      using j(4) lt max bound by (intro add64_ok int64_okI) (auto simp: int64_max_def)
    moreover have "ss + 2 ^ i = (2 * q + 1) * 2 ^ i" using q by (simp add: algebra_simps)
    then have "\<exists>p. odd p \<and> ss + 2 ^ i = p * 2 ^ i" by (intro exI[of _ "2 * q + 1"]) simp
    ultimately show ?thesis
      using True d near lt j(2,4) i bound
      by (auto simp: split_inv_def split_step_def intro!: exI[of _ i])
  next
    case False
    then have near: "\<bar>r - (ss - 2 ^ i)\<bar> < 2 ^ i" using j(3) i ne by auto
    have ge: "0 \<le> ss - 2 ^ i"
    proof -
      have "0 < ss" using False ne r by simp
      then have "0 < q" using q by (simp add: zero_less_mult_iff)
      then have "1 * 2 ^ i \<le> q * 2 * (2 :: int) ^ i" by (intro mult_right_mono) auto
      then show ?thesis using q by simp
    qed
    have "sub64 ss (2 ^ i) = ret (ss - 2 ^ i)"
    proof -
      have "ss - 2 ^ i \<le> 2 ^ 61" using j(5) max bound by linarith
      then have "int64_ok (ss - 2 ^ i)" using ge by (intro int64_okI) (simp_all add: int64_max_def)
      then show ?thesis by (rule sub64_ok)
    qed
    moreover have "ss - 2 ^ i = (2 * q - 1) * 2 ^ i" using q by (simp add: algebra_simps)
    then have "\<exists>p. odd p \<and> ss - 2 ^ i = p * 2 ^ i" by (intro exI[of _ "2 * q - 1"]) simp
    ultimately show ?thesis
      using False ne d near ge j(2,5) i bound
      by (auto simp: split_inv_def split_step_def intro!: exI[of _ i])
  qed
  then show "\<exists>ss'. split_step r (ss, sz) = ret (ss', sz div 2)"
    using d ne by (auto simp: split_step_def szi arith64_defs chk_def split_inv_def split: if_splits)
qed

lemma split_loop_ok:
  assumes r: "0 \<le> r" "r < 2 ^ m" and m: "m \<le> 61"
  obtains j where "split_loop r (2 ^ m) = Some (ret (r, 2 ^ j))" and "rank_exp m r j"
proof -
  let ?b = "\<lambda>st :: (int \<times> int) res. case st of Inr (ss, _) \<Rightarrow> ss \<noteq> r | Inl _ \<Rightarrow> False"
  let ?c = "\<lambda>st. andThen st (split_step r)"
  let ?f = "\<lambda>st :: (int \<times> int) res. case st of Inr (_, sz) \<Rightarrow> nat sz | Inl _ \<Rightarrow> 0"
  have step: "split_inv m r (?c st) \<and> ?f (?c st) < ?f st" if P: "split_inv m r st" and b: "?b st" for st
  proof -
    obtain ss sz where st: "st = ret (ss, sz)" using P by (auto simp: split_inv_def)
    have ne: "ss \<noteq> r" using b st by simp
    note ok = split_step_ok[OF r m P[unfolded st] ne]
    obtain ss' where "split_step r (ss, sz) = ret (ss', sz div 2)" using ok(2) by blast
    then show ?thesis using ok(1,3) by (simp add: st)
  qed
  have init: "split_inv m r (ret (0, 2 ^ m))" using r by (auto simp: split_inv_def)
  obtain t where t: "while_option ?b ?c (ret (0, 2 ^ m)) = Some t"
    using measure_while_option_Some[where P = "split_inv m r" and b = ?b and c = ?c and f = ?f,
        OF step init] by blast
  have "split_inv m r t"
    using while_option_rule[where P = "split_inv m r", OF _ t init] step by blast
  then obtain j ss where j: "t = ret (ss, 2 ^ j)"
    "ss = 0 \<and> j = m \<or> j < m \<and> (\<exists>q. odd q \<and> ss = q * 2 ^ j)"
    by (auto simp: split_inv_def)
  have "\<not> ?b t" by (rule while_option_stop[OF t])
  then have "ss = r" using j(1) by simp
  moreover have "rank_exp m r j" using j(2) \<open>ss = r\<close> by (auto simp: rank_exp_def)
  ultimately show thesis using t j(1) by (intro that[of j]) (simp_all add: split_loop_def)
qed

lemma leaf_loop_ok:
  assumes "0 \<le> root" and "0 \<le> r" and "root + n \<le> int64_max"
  shows "i \<le> 62 \<Longrightarrow> leaf_loop root n (r + 2 ^ i) (2 ^ i) acc =
    ret (acc @ (if n \<le> r + 2 ^ i then [] else map (\<lambda>i. root + (r + 2 ^ i)) (rev [0..<Suc i])))"
proof (induction i arbitrary: acc)
  case 0
  have "sub64 (r + 1) 0 = ret (r + 1)" if "r + 1 < n"
    using that assms by (intro trans[OF sub64_ok]) (auto intro: int64_okI)
  moreover have "add64 root (r + 1) = ret (root + (r + 1))" if "r + 1 < n"
    using that assms by (intro add64_ok int64_okI) auto
  ultimately show ?case
    by (subst leaf_loop.simps) (simp add: leaf_loop.simps[of _ _ _ 0])
next
  case (Suc i)
  have le: "(2 :: int) ^ i \<le> 2 ^ Suc i" by simp
  have lt: "r + 2 ^ i < n" if "r + 2 ^ Suc i < n"
  proof -
    have "(0 :: int) < 2 ^ i" by simp
    then show ?thesis using that by (simp only: power_Suc)
  qed
  have "add64 root (r + 2 ^ Suc i) = ret (root + (r + 2 ^ Suc i))" if "r + 2 ^ Suc i < n"
    using that assms by (intro add64_ok int64_okI) auto
  moreover have "sub64 (r + 2 ^ Suc i) (2 ^ i) = ret (r + 2 ^ i)" if "r + 2 ^ Suc i < n"
    using lt[OF that] assms by (subst sub64_ok) (auto intro!: int64_okI)
  ultimately show ?case
    using Suc.IH[of "acc @ [root + (r + 2 ^ Suc i)]"] Suc.prems lt
    by (subst leaf_loop.simps) (auto simp: not_le)
qed

text \<open>The role of a rank of a tree with \<open>n\<close> leaves whose root is target shard \<open>root\<close>.\<close>

definition rank_target :: "int \<Rightarrow> int \<Rightarrow> int \<Rightarrow> int \<Rightarrow> nat \<Rightarrow> target_config" where
  "rank_target src_shard root n r j =
     \<lparr>tc_src_shard = (if r = 0 then Some src_shard else None),
      tc_dst_root_shard = (if r = 0 then None else Some (root + (r - 2 ^ j))),
      tc_dst_leaf_shards = rank_leaves root n r j\<rparr>"

lemma GetTargetConfig_ok:
  assumes r: "0 \<le> r" "r < n" and n: "n \<le> 2 ^ 61" and root: "0 \<le> root" "root + n \<le> 2 ^ 61"
  obtains m j where "n \<le> 2 ^ m" and "m \<noteq> 0 \<Longrightarrow> 2 ^ (m - 1) < n" and "rank_exp m r j"
    and "GetTargetConfig src_shard root (dl_ctor start n) r =
           Some (ret (rank_target src_shard root n r j))"
proof -
  obtain m where m: "power_loop n = Some (ret (2 ^ m))" "n \<le> 2 ^ m" "m \<le> 61"
    "m \<noteq> 0 \<Longrightarrow> 2 ^ (m - 1) < n"
    using power_loop_ok[OF n] by metis
  have r2: "r < 2 ^ m" using r m(2) by simp
  obtain j where j: "split_loop r (2 ^ m) = Some (ret (r, 2 ^ j))" "rank_exp m r j"
    using split_loop_ok[OF r(1) r2 m(3)] by metis
  obtain j' where j': "rank_exp m r j'" "j' \<le> m" "r \<noteq> 0 \<Longrightarrow> j' < m"
    using rank_exp_exists[OF r(1) r2] by metis
  have jm: "j \<le> m" using j'(1,2) rank_exp_unique[OF j(2) j'(1)] by simp
  have max: "int64_max = 2 ^ 63 - 1" by (simp add: int64_max_def)
  have addr: "add64 root r = ret (root + r)"
    using r root n by (intro add64_ok int64_okI) (simp_all add: max)
  show thesis
  proof (cases "odd r")
    case True
    have "j = 0" using rank_exp_even[OF j(2)] True by (cases j) auto
    moreover have "sub64 (root + r) 1 = ret (root + (r - 1))"
    proof -
      have "1 \<le> r" using True r(1) by (cases "r = 0") auto
      then have "int64_ok (root + r - 1)"
        using r root n by (intro int64_okI) (simp_all add: max)
      then show ?thesis by (simp add: sub64_ok algebra_simps)
    qed
    moreover have "r smod 2 \<noteq> 0" using True r(1) by (simp add: smod_nonneg odd_iff_mod_2_eq_one)
    ultimately show thesis
      using True addr by (intro that[OF m(2,4) j(2)])
        (auto simp: GetTargetConfig_def rank_target_def rank_leaves_def)
  next
    case even: False
    then have smod: "r smod 2 = 0" using r(1) by (simp add: smod_nonneg even_iff_mod_2_eq_zero)
    have pj: "(2 :: int) ^ j \<le> 2 ^ 61" using pow2_le jm m(3) order_trans by blast
    have src: "sub64 (root + r) (2 ^ j) = ret (root + r - 2 ^ j)"
    proof -
      have "(0 :: int) < 2 ^ j" by simp
      then have "- (2 ^ 61) \<le> root + r - 2 ^ j" "root + r - 2 ^ j \<le> 2 ^ 61"
        using r root n pj by linarith+
      then have "int64_ok (root + r - 2 ^ j)" by (simp add: int64_ok_def int64_min_def max)
      then show ?thesis by (rule sub64_ok)
    qed
    have half: "div64 (2 ^ j) 2 = ret (2 ^ j div 2)"
      using pow2_int64[of j] jm m(3) by (intro div64_ok int64_okI) auto
    have "(2 :: int) ^ j div 2 \<le> 2 ^ 61" "0 \<le> (2 :: int) ^ j div 2"
      using pj by (auto simp: pos_imp_zdiv_nonneg_iff)
    then have next_leaf: "add64 r (2 ^ j div 2) = ret (r + 2 ^ j div 2)"
      using r n by (intro add64_ok int64_okI) (auto simp: max)
    have leaves: "leaf_loop root n (r + 2 ^ j div 2) (2 ^ j div 2) [] = ret (rank_leaves root n r j)"
    proof (cases j)
      case 0
      then show ?thesis by (simp add: leaf_loop.simps rank_leaves_def)
    next
      case (Suc i)
      have "root + n \<le> int64_max" using root(2) by (simp add: max)
      from leaf_loop_ok[OF root(1) r(1) this, of i "[]"] Suc jm m(3)
      show ?thesis by (auto simp: rank_leaves_def)
    qed
    show thesis
      using smod addr src half next_leaf leaves m(1) j(1) r
      by (intro that[OF m(2,4) j(2)])
        (auto simp: GetTargetConfig_def rank_target_def algebra_simps)
  qed
qed

section \<open>Trees\<close>

text \<open>
  \<open>S\<close> source and \<open>D\<close> target shards: the targets are cut into consecutive trees of
  \<open>leaves_per_root S D\<close> shards, the last one possibly shorter.
\<close>

definition leaves_per_root :: "int \<Rightarrow> int \<Rightarrow> int" where
  "leaves_per_root S D = (D + S - 1) div S"

definition bcast_ok :: "sharding \<Rightarrow> sharding \<Rightarrow> bool" where
  "bcast_ok src dst \<longleftrightarrow> 1 \<le> dl_size (sh_devices src) \<and> 1 \<le> dl_size (sh_devices dst) \<and>
     dl_size (sh_devices src) + dl_size (sh_devices dst) \<le> 2 ^ 61"

abbreviation tree_width :: "sharding \<Rightarrow> sharding \<Rightarrow> int" where
  "tree_width src dst \<equiv> leaves_per_root (dl_size (sh_devices src)) (dl_size (sh_devices dst))"

definition sends_root :: "sharding \<Rightarrow> sharding \<Rightarrow> int option \<Rightarrow> bool" where
  \<comment> \<open>no source role, or that of a source shard that has a tree\<close>
  "sends_root src dst role \<longleftrightarrow> (case role of None \<Rightarrow> True
     | Some s \<Rightarrow> 0 \<le> s \<and> s < dl_size (sh_devices src) \<and>
         s * tree_width src dst < dl_size (sh_devices dst))"

text \<open>What a device may hold beside its part in a tree: a shard of the source and a shard of the target.\<close>

definition source_role :: "sharding \<Rightarrow> int option \<Rightarrow> bool" where
  "source_role src role \<longleftrightarrow> (\<forall>s. role = Some s \<longrightarrow> 0 \<le> s \<and> s < dl_size (sh_devices src))"

definition target_role :: "sharding \<Rightarrow> int option \<Rightarrow> bool" where
  "target_role dst role \<longleftrightarrow> (\<forall>d. role = Some d \<longrightarrow> 0 \<le> d \<and> d < dl_size (sh_devices dst))"

definition tree_target :: "int \<Rightarrow> int \<Rightarrow> int \<Rightarrow> target_config \<Rightarrow> bool" where
  "tree_target L D d t \<longleftrightarrow> (let root = d div L * L; n = min L (D - root); r = d mod L in
     \<exists>m j. n \<le> 2 ^ m \<and> (m \<noteq> 0 \<longrightarrow> 2 ^ (m - 1) < n) \<and> rank_exp m r j \<and>
       t = rank_target (d div L) root n r j)"

lemma leaves_per_root_bounds:
  assumes "1 \<le> S" and "1 \<le> D"
  shows "1 \<le> leaves_per_root S D" and "leaves_per_root S D * S \<le> D + S - 1"
    and "D \<le> leaves_per_root S D * S"
proof -
  have eq: "leaves_per_root S D * S = D + S - 1 - (D + S - 1) mod S"
    by (simp add: leaves_per_root_def minus_mod_eq_div_mult)
  have m: "0 \<le> (D + S - 1) mod S" "(D + S - 1) mod S < S" using assms by simp_all
  show "leaves_per_root S D * S \<le> D + S - 1" "D \<le> leaves_per_root S D * S" using eq m by linarith+
  have "S div S \<le> (D + S - 1) div S" using assms by (intro zdiv_mono1) auto
  then show "1 \<le> leaves_per_root S D" using assms by (simp add: leaves_per_root_def)
qed

lemma bcast_width_ok:
  assumes "bcast_ok src dst"
  shows "andThen (add64 (dl_size (sh_devices dst)) (dl_size (sh_devices src))) (\<lambda>x.
      andThen (sub64 x 1) (\<lambda>y. div64 y (dl_size (sh_devices src)))) = ret (tree_width src dst)"
    and "1 \<le> tree_width src dst" and "tree_width src dst \<le> 2 ^ 61"
proof -
  let ?S = "dl_size (sh_devices src)" and ?D = "dl_size (sh_devices dst)"
  have SD: "1 \<le> ?S" "1 \<le> ?D" "?S + ?D \<le> 2 ^ 61" using assms by (simp_all add: bcast_ok_def)
  have max: "int64_max = 2 ^ 63 - 1" by (simp add: int64_max_def)
  note L = leaves_per_root_bounds[OF SD(1,2)]
  have "add64 ?D ?S = ret (?D + ?S)" "sub64 (?D + ?S) 1 = ret (?D + ?S - 1)"
    "div64 (?D + ?S - 1) ?S = ret (tree_width src dst)"
    using SD by (auto simp: max leaves_per_root_def
        intro!: add64_ok trans[OF sub64_ok] trans[OF div64_ok] int64_okI)
  then show "andThen (add64 ?D ?S) (\<lambda>x. andThen (sub64 x 1) (\<lambda>y. div64 y ?S)) =
      ret (tree_width src dst)" by simp
  show "1 \<le> tree_width src dst" by (rule L(1))
  have "tree_width src dst \<le> tree_width src dst * ?S" using L(1) SD(1) by (intro le_mult_ge1) auto
  then show "tree_width src dst \<le> 2 ^ 61" using L(2) SD by simp
qed

lemma bcast_source_ok:
  assumes ok: "bcast_ok src dst" and role: "sends_root src dst src_shard"
  shows "(case src_shard of None \<Rightarrow> ret (Some None)
        | Some s \<Rightarrow> andThen (mul64 s (tree_width src dst)) (\<lambda>p.
            if p \<ge> dl_size (sh_devices dst) then ret None
            else ret (Some (Some \<lparr>dst_root_shards = [p]\<rparr>)))) =
      ret (Some (map_option (\<lambda>s. \<lparr>dst_root_shards = [s * tree_width src dst]\<rparr>) src_shard))"
proof (cases src_shard)
  case (Some s)
  then have s: "0 \<le> s" "s * tree_width src dst < dl_size (sh_devices dst)"
    using role by (simp_all add: sends_root_def)
  moreover have "dl_size (sh_devices dst) \<le> 2 ^ 61" using ok by (simp add: bcast_ok_def)
  ultimately have "mul64 s (tree_width src dst) = ret (s * tree_width src dst)"
    using bcast_width_ok(2)[OF ok] by (intro mul64_ok int64_okI) (auto simp: int64_max_def)
  then show ?thesis using Some s by simp
qed simp

text \<open>A source shard without a tree: the configuration is empty, whatever else the device holds.\<close>

lemma GetBroadcastConfig_treeless:
  assumes ok: "bcast_ok src dst" and s: "0 \<le> s" "s < dl_size (sh_devices src)"
    and none: "\<not> s * tree_width src dst < dl_size (sh_devices dst)"
  shows "GetBroadcastConfig (Some s) dst_shard src dst = Some (ret \<lparr>bc_source = None, bc_target = None\<rparr>)"
proof -
  have SD: "1 \<le> dl_size (sh_devices src)" "1 \<le> dl_size (sh_devices dst)"
    "dl_size (sh_devices src) + dl_size (sh_devices dst) \<le> 2 ^ 61"
    using ok by (simp_all add: bcast_ok_def)
  have "s * tree_width src dst \<le> dl_size (sh_devices src) * tree_width src dst"
    using s bcast_width_ok(2)[OF ok] by (intro mult_right_mono) auto
  also have "\<dots> \<le> 2 ^ 61" using leaves_per_root_bounds(2)[OF SD(1,2)] SD(3) by (simp add: mult.commute)
  finally have "mul64 s (tree_width src dst) = ret (s * tree_width src dst)"
    using s bcast_width_ok(2)[OF ok] by (intro mul64_ok int64_okI) (auto simp: int64_max_def)
  then show ?thesis using none bcast_width_ok(1)[OF ok] by (simp add: GetBroadcastConfig_def Let_def)
qed

lemma GetBroadcastConfig_source:
  assumes ok: "bcast_ok src dst" and s: "0 \<le> s" "s < dl_size (sh_devices src)"
  shows "GetBroadcastConfig (Some s) None src dst = Some (ret
    \<lparr>bc_source = (if s * tree_width src dst < dl_size (sh_devices dst)
                  then Some \<lparr>dst_root_shards = [s * tree_width src dst]\<rparr> else None),
     bc_target = None\<rparr>)"
proof (cases "s * tree_width src dst < dl_size (sh_devices dst)")
  case True
  then have "sends_root src dst (Some s)" using s by (simp add: sends_root_def)
  from bcast_source_ok[OF ok this] show ?thesis
    using True bcast_width_ok(1)[OF ok] by (simp add: GetBroadcastConfig_def Let_def)
next
  case False
  then show ?thesis using GetBroadcastConfig_treeless[OF ok s False] by simp
qed

lemma GetBroadcastConfig_ok:
  assumes ok: "bcast_ok src dst" and role: "sends_root src dst src_shard"
    and d: "0 \<le> d" "d < dl_size (sh_devices dst)"
  obtains t where "tree_target (tree_width src dst) (dl_size (sh_devices dst)) d t"
    and "GetBroadcastConfig src_shard (Some d) src dst = Some (ret
      \<lparr>bc_source = map_option (\<lambda>s. \<lparr>dst_root_shards = [s * tree_width src dst]\<rparr>) src_shard,
       bc_target = Some t\<rparr>)"
proof -
  define S D L where defs: "S = dl_size (sh_devices src)" "D = dl_size (sh_devices dst)"
    "L = leaves_per_root S D"
  have SD: "1 \<le> S" "1 \<le> D" "S + D \<le> 2 ^ 61" using ok by (simp_all add: bcast_ok_def defs)
  have max: "int64_max = 2 ^ 63 - 1" by (simp add: int64_max_def)
  note L = leaves_per_root_bounds[OF SD(1,2), folded defs(3)]
  note Lmax = bcast_width_ok(3)[OF ok, folded defs(1,2), folded defs(3)]
  let ?root = "d div L * L"
  have dL: "0 \<le> d div L" "?root \<le> d" "d - ?root = d mod L"
    using d L(1) by (simp_all add: pos_imp_zdiv_nonneg_iff minus_div_mult_eq_mod)
      (metis add.commute div_mult_mod_eq le_add_same_cancel1 pos_mod_sign zero_less_one order_less_le_trans)
  have root: "0 \<le> ?root" using dL(1) L(1) by simp
  have offsets: "div64 d L = ret (d div L)" "mul64 (d div L) L = ret ?root"
    "sub64 d ?root = ret (d mod L)" "sub64 D ?root = ret (D - ?root)"
  proof -
    have "d < D" "D \<le> 2 ^ 61" "0 \<le> d - ?root" "0 \<le> D - ?root" "d - ?root \<le> 2 ^ 61"
      "D - ?root \<le> 2 ^ 61" "?root \<le> 2 ^ 61" "d \<le> 2 ^ 61"
      using d[folded defs(2)] SD dL(2) root by linarith+
    then have "int64_ok d" "int64_ok ?root" "int64_ok (d - ?root)" "int64_ok (D - ?root)"
      using d(1) root by (auto simp: max intro!: int64_okI)
    then show "div64 d L = ret (d div L)" "mul64 (d div L) L = ret ?root"
      "sub64 d ?root = ret (d mod L)" "sub64 D ?root = ret (D - ?root)"
      using d(1) L(1) dL(3) by (simp_all add: div64_ok mul64_ok sub64_ok)
  qed
  let ?n = "min L (D - ?root)"
  have r: "0 \<le> d mod L" "d mod L < ?n" using L(1) dL d(2) defs(2) by auto
  have n: "?n \<le> 2 ^ 61" "?root + ?n \<le> 2 ^ 61" using Lmax SD by auto
  obtain m j where t: "?n \<le> 2 ^ m" "m \<noteq> 0 \<Longrightarrow> 2 ^ (m - 1) < ?n" "rank_exp m (d mod L) j"
    "GetTargetConfig (d div L) ?root (dl_ctor (dl_start (sh_devices dst) + ?root) ?n) (d mod L) =
       Some (ret (rank_target (d div L) ?root ?n (d mod L) j))"
    using GetTargetConfig_ok[OF r n(1) root n(2)] by metis
  have "tree_target L D d (rank_target (d div L) ?root ?n (d mod L) j)"
    unfolding tree_target_def Let_def using t(1-3) by blast
  then show thesis
    using that[unfolded defs(1,2)[symmetric] defs(3)[symmetric]] t(4) offsets
      bcast_width_ok(1)[OF ok, folded defs(1,2), folded defs(3)]
      bcast_source_ok[OF ok role, folded defs(1,2), folded defs(3)]
    by (simp add: GetBroadcastConfig_def Let_def defs(1,2)[symmetric] dl_slice_def)
qed

lemma quot_small:
  assumes "0 \<le> x" and "x < (L :: int)"
  shows "(a * L + x) div L = a" and "(a * L + x) mod L = x"
  using assms by (simp_all add: div_mult_self3 mod_mult_self3)

lemma rank_exp_nonzero: "r \<noteq> 0 \<Longrightarrow> rank_exp m r i \<Longrightarrow> rank_exp m' r j \<Longrightarrow> i = j"
  by (auto simp: rank_exp_def dest: odd_exp_unique)

lemma tree_leaf:
  assumes t: "tree_target L D d t" and e: "e \<in> set (tc_dst_leaf_shards t)"
    and L: "1 \<le> L" and d: "0 \<le> d" "d < D"
  obtains i where "e = d + 2 ^ i" and "e < D" and "e div L = d div L" and "e mod L = d mod L + 2 ^ i"
    and "\<And>m. rank_exp m (e mod L) i"
proof -
  define root where "root = d div L * L"
  define n where "n = min L (D - root)"
  obtain m j where j: "rank_exp m (d mod L) j" "t = rank_target (d div L) root n (d mod L) j"
    using t by (auto simp: tree_target_def Let_def root_def n_def)
  have leaf: "e \<in> set (rank_leaves root n (d mod L) j)" using e j(2) by (simp add: rank_target_def)
  then have j0: "j \<noteq> 0" and lt: "d mod L + 2 ^ (j - 1) < n"
    by (auto simp: rank_leaves_def split: if_splits)
  obtain i where i: "i < j" "e = root + (d mod L + 2 ^ i)"
    using leaf by (auto simp: rank_leaves_def split: if_splits)
  have "(2 :: int) ^ i \<le> 2 ^ (j - 1)" using i(1) by (intro pow2_le) simp
  then have lt_n: "d mod L + 2 ^ i < n" using lt by linarith
  have r: "0 \<le> d mod L" using L by simp
  have e_eq: "e = d + 2 ^ i" using i(2) by (simp add: root_def)
  have small: "0 \<le> d mod L + 2 ^ i" "d mod L + 2 ^ i < L" using lt_n r by (auto simp: n_def)
  have "e div L = d div L" "e mod L = d mod L + 2 ^ i"
    unfolding i(2) root_def by (rule quot_small[OF small])+
  moreover have "e < D" using lt_n i(2) by (simp add: n_def)
  moreover have "rank_exp m' (e mod L) i" for m'
  proof -
    have "0 < e mod L" using calculation(2) r by (simp add: add_nonneg_pos)
    then show ?thesis
      using rank_exp_child[OF j(1) i(1) r] calculation(2) by (simp add: rank_exp_def)
  qed
  ultimately show thesis using that e_eq by blast
qed

lemma GetBroadcastConfig_no_tree:
  assumes "bcast_ok src dst" and "source_role src role" and "\<not> sends_root src dst role"
  shows "GetBroadcastConfig role dst_shard src dst = Some (ret \<lparr>bc_source = None, bc_target = None\<rparr>)"
proof (cases role)
  case (Some s)
  then show ?thesis using assms GetBroadcastConfig_treeless[OF assms(1), of s]
    by (simp add: source_role_def sends_root_def)
qed (use assms in \<open>simp add: sends_root_def\<close>)

lemma GetBroadcastConfig_sender:
  assumes ok: "bcast_ok src dst" and s: "0 \<le> s" "s < dl_size (sh_devices src)" and d: "target_role dst role"
  shows "\<exists>target. GetBroadcastConfig (Some s) role src dst = Some (ret
    \<lparr>bc_source = (if s * tree_width src dst < dl_size (sh_devices dst)
                  then Some \<lparr>dst_root_shards = [s * tree_width src dst]\<rparr> else None),
     bc_target = target\<rparr>)"
proof (cases "role = None \<or> \<not> s * tree_width src dst < dl_size (sh_devices dst)")
  case True
  then show ?thesis using GetBroadcastConfig_source[OF ok s] GetBroadcastConfig_treeless[OF ok s] by auto
next
  case False
  then obtain e where e: "role = Some e" by auto
  have r: "sends_root src dst (Some s)" using s False by (simp add: sends_root_def)
  have "0 \<le> e" "e < dl_size (sh_devices dst)" using d e by (simp_all add: target_role_def)
  then obtain t where "GetBroadcastConfig (Some s) (Some e) src dst = Some (ret
      \<lparr>bc_source = map_option (\<lambda>s. \<lparr>dst_root_shards = [s * tree_width src dst]\<rparr>) (Some s), bc_target = Some t\<rparr>)"
    using GetBroadcastConfig_ok[OF ok r] by metis
  then show ?thesis using False e by auto
qed

text \<open>The device behind a forward, with the role it has on the source mesh.\<close>

lemma forward_receiver:
  assumes ok: "bcast_ok src dst" and role: "sends_root src dst role"
    and t: "tree_target (tree_width src dst) (dl_size (sh_devices dst)) d t" and e: "e \<in> set (tc_dst_leaf_shards t)"
    and d: "0 \<le> d" "d < dl_size (sh_devices dst)"
  shows "d < e \<and> e < dl_size (sh_devices dst) \<and>
    (\<exists>ce te. GetBroadcastConfig role (Some e) src dst = Some (ret ce) \<and>
       bc_target ce = Some te \<and> tc_dst_root_shard te = Some d \<and> tc_src_shard te = None)"
proof -
  let ?L = "tree_width src dst" and ?D = "dl_size (sh_devices dst)"
  note L = bcast_width_ok(2)[OF ok]
  obtain i where i: "e = d + 2 ^ i" "e < ?D" "e div ?L = d div ?L" "e mod ?L = d mod ?L + 2 ^ i"
    "\<And>m. rank_exp m (e mod ?L) i"
    using tree_leaf[OF t e L d] by metis
  have p: "(0 :: int) < 2 ^ i" by simp
  have e0: "0 \<le> e" using d(1) i(1) p by linarith
  have r: "0 < e mod ?L" using i(4) p L pos_mod_sign[of ?L d] by linarith
  obtain te where te: "tree_target ?L ?D e te" "GetBroadcastConfig role (Some e) src dst =
      Some (ret \<lparr>bc_source = map_option (\<lambda>s. \<lparr>dst_root_shards = [s * ?L]\<rparr>) role, bc_target = Some te\<rparr>)"
    by (rule GetBroadcastConfig_ok[OF ok role e0 i(2)])
  obtain m j where j: "rank_exp m (e mod ?L) j"
    "te = rank_target (e div ?L) (e div ?L * ?L) (min ?L (?D - e div ?L * ?L)) (e mod ?L) j"
    using te(1) by (auto simp: tree_target_def Let_def)
  have "j = i" using rank_exp_nonzero[OF _ j(1) i(5)[of m]] r by simp
  then have "tc_dst_root_shard te = Some (e div ?L * ?L + (e mod ?L - 2 ^ i))" "tc_src_shard te = None"
    using j(2) r by (simp_all add: rank_target_def)
  moreover have "e div ?L * ?L + (e mod ?L - 2 ^ i) = d"
    using i(3,4) by (simp add: div_mult_mod_eq)
  ultimately show ?thesis using te(2) i(1,2) p by simp
qed

text \<open>
  C10. The forwards inside a broadcast tree are expected, whatever the number of source and target
  shards: if the device of target shard \<open>d\<close> forwards to shard \<open>e\<close>, then \<open>e\<close> is a shard of the mesh
  behind \<open>d\<close>, and the configuration of its device, whatever shard of the source that device holds
  besides, says that it receives from \<open>d\<close> and from nobody else. The exception is a device that also
  holds a shard of the source that has no tree, which overlapping meshes allow: its configuration is
  empty and the forward is lost (\<open>bcast_role_dropped\<close>). The computations succeed and return.
\<close>

theorem bcast_forward_received:
  assumes ok: "bcast_ok src dst" and role: "sends_root src dst role"
    and d: "0 \<le> d" "d < dl_size (sh_devices dst)"
  shows "\<exists>c t. GetBroadcastConfig role (Some d) src dst = Some (ret c) \<and> bc_target c = Some t \<and>
    distinct (tc_dst_leaf_shards t) \<and>
    (\<forall>e \<in> set (tc_dst_leaf_shards t). d < e \<and> e < dl_size (sh_devices dst) \<and>
       (\<forall>role'. source_role src role' \<longrightarrow>
         (\<exists>ce. GetBroadcastConfig role' (Some e) src dst = Some (ret ce) \<and>
           (if sends_root src dst role'
            then \<exists>te. bc_target ce = Some te \<and> tc_dst_root_shard te = Some d \<and> tc_src_shard te = None
            else ce = \<lparr>bc_source = None, bc_target = None\<rparr>))))"
proof -
  obtain t where t: "tree_target (tree_width src dst) (dl_size (sh_devices dst)) d t"
    "GetBroadcastConfig role (Some d) src dst = Some (ret
      \<lparr>bc_source = map_option (\<lambda>s. \<lparr>dst_root_shards = [s * tree_width src dst]\<rparr>) role, bc_target = Some t\<rparr>)"
    by (rule GetBroadcastConfig_ok[OF ok role d])
  have "inj_on (\<lambda>i. root + (r + 2 ^ i)) A" for root r :: int and A
    by (auto simp: inj_on_def)
  then have "distinct (tc_dst_leaf_shards t)"
    using t(1) by (auto simp: tree_target_def Let_def rank_target_def rank_leaves_def distinct_map)
  moreover have "d < e \<and> e < dl_size (sh_devices dst)" if "e \<in> set (tc_dst_leaf_shards t)" for e
    using forward_receiver[OF ok role t(1) that d] by blast
  moreover have "\<exists>ce. GetBroadcastConfig role' (Some e) src dst = Some (ret ce) \<and>
      (if sends_root src dst role'
       then \<exists>te. bc_target ce = Some te \<and> tc_dst_root_shard te = Some d \<and> tc_src_shard te = None
       else ce = \<lparr>bc_source = None, bc_target = None\<rparr>)"
    if "e \<in> set (tc_dst_leaf_shards t)" "source_role src role'" for e role'
    using forward_receiver[OF ok _ t(1) that(1) d, of role'] GetBroadcastConfig_no_tree[OF ok that(2)] by auto
  ultimately show ?thesis using t(2) by simp
qed

definition bcast_example_src :: sharding where
  "bcast_example_src = \<lparr>sh_dims = [\<lparr>dim_size = 8, dim_sharding = 1, dim_permutation = 0\<rparr>,
     \<lparr>dim_size = 1, dim_sharding = 2, dim_permutation = 1\<rparr>], sh_devices = dl_ctor 0 2\<rparr>"

definition bcast_example_dst :: sharding where
  "bcast_example_dst = \<lparr>sh_dims = [\<lparr>dim_size = 8, dim_sharding = 1, dim_permutation = 0\<rparr>,
     \<lparr>dim_size = 1, dim_sharding = 8, dim_permutation = 1\<rparr>], sh_devices = dl_ctor 2 8\<rparr>"

lemma bcast_example_ok: "bcast_ok bcast_example_src bcast_example_dst"
  by (simp add: bcast_ok_def bcast_example_src_def bcast_example_dst_def)

theorem bcast_forward_received_witness:
  "\<exists>c t. GetBroadcastConfig None (Some 4) bcast_example_src bcast_example_dst = Some (ret c) \<and>
    bc_target c = Some t \<and> distinct (tc_dst_leaf_shards t)"
  using bcast_forward_received[OF bcast_example_ok, of None 4]
  by (fastforce simp: sends_root_def bcast_example_dst_def)

text \<open>
  C11. Source shards and tree roots are matched one to one: the device of source shard \<open>s\<close>, whatever
  shard of the target it holds besides, sends to target shard \<open>d\<close> exactly when the configuration of
  the device of \<open>d\<close> says that it receives from source shard \<open>s\<close>. The exception is again a device of
  target shard \<open>d\<close> that also holds a source shard without a tree: its configuration is empty.
\<close>

theorem bcast_roots_match:
  assumes ok: "bcast_ok src dst" and s: "0 \<le> s" "s < dl_size (sh_devices src)"
    and d: "0 \<le> d" "d < dl_size (sh_devices dst)"
    and roles: "target_role dst role" "source_role src role'"
  shows "\<exists>cs cd. GetBroadcastConfig (Some s) role src dst = Some (ret cs) \<and>
    GetBroadcastConfig role' (Some d) src dst = Some (ret cd) \<and>
    (if sends_root src dst role'
     then (\<exists>sc. bc_source cs = Some sc \<and> d \<in> set (dst_root_shards sc)) \<longleftrightarrow>
          (\<exists>t. bc_target cd = Some t \<and> tc_src_shard t = Some s)
     else cd = \<lparr>bc_source = None, bc_target = None\<rparr>)"
proof -
  let ?L = "tree_width src dst" and ?D = "dl_size (sh_devices dst)"
  note L = bcast_width_ok(2)[OF ok]
  obtain target where cs: "GetBroadcastConfig (Some s) role src dst = Some (ret
      \<lparr>bc_source = (if s * ?L < ?D then Some \<lparr>dst_root_shards = [s * ?L]\<rparr> else None), bc_target = target\<rparr>)"
    using GetBroadcastConfig_sender[OF ok s roles(1)] by blast
  show ?thesis
  proof (cases "sends_root src dst role'")
    case True
    obtain t where t: "tree_target ?L ?D d t" "GetBroadcastConfig role' (Some d) src dst =
        Some (ret \<lparr>bc_source = map_option (\<lambda>s. \<lparr>dst_root_shards = [s * ?L]\<rparr>) role', bc_target = Some t\<rparr>)"
      by (rule GetBroadcastConfig_ok[OF ok True d])
    obtain n j where "t = rank_target (d div ?L) (d div ?L * ?L) n (d mod ?L) j"
      using t(1) unfolding tree_target_def Let_def by blast
    then have "tc_src_shard t = Some s \<longleftrightarrow> d mod ?L = 0 \<and> d div ?L = s"
      by (simp add: rank_target_def)
    also have "\<dots> \<longleftrightarrow> d = s * ?L" using L by (auto simp: mod_eq_0_iff_dvd)
    finally show ?thesis using cs t(2) d True by auto
  next
    case False
    then show ?thesis using cs GetBroadcastConfig_no_tree[OF ok roles(2) False] by simp
  qed
qed

theorem bcast_roots_match_witness:
  "\<exists>cs cd. GetBroadcastConfig (Some 1) (Some 6) bcast_example_src bcast_example_dst = Some (ret cs) \<and>
    GetBroadcastConfig (Some 0) (Some 4) bcast_example_src bcast_example_dst = Some (ret cd) \<and>
    ((\<exists>sc. bc_source cs = Some sc \<and> 4 \<in> set (dst_root_shards sc)) \<longleftrightarrow>
     (\<exists>t. bc_target cd = Some t \<and> tc_src_shard t = Some 1))"
proof -
  have size: "dl_size (sh_devices bcast_example_src) = 2" "dl_size (sh_devices bcast_example_dst) = 8"
    by (simp_all add: bcast_example_src_def bcast_example_dst_def)
  have "sends_root bcast_example_src bcast_example_dst (Some 0)" by (simp add: sends_root_def size)
  then show ?thesis
    using bcast_roots_match[OF bcast_example_ok, of 1 4 "Some 6" "Some 0"]
    by (simp add: size target_role_def source_role_def)
qed

section \<open>Delivery\<close>

text \<open>
  A target shard has the data once a source shard or a shard that has it sends to it and its own
  configuration expects the data from that sender.
\<close>

inductive bcast_reached :: "sharding \<Rightarrow> sharding \<Rightarrow> int \<Rightarrow> bool" for src dst where
  root: "\<lbrakk>0 \<le> s; s < dl_size (sh_devices src);
     GetBroadcastConfig (Some s) None src dst = Some (ret cs); bc_source cs = Some sc;
     d \<in> set (dst_root_shards sc);
     GetBroadcastConfig None (Some d) src dst = Some (ret cd); bc_target cd = Some t;
     tc_src_shard t = Some s\<rbrakk> \<Longrightarrow> bcast_reached src dst d"
| forward: "\<lbrakk>bcast_reached src dst d;
     GetBroadcastConfig None (Some d) src dst = Some (ret cd); bc_target cd = Some t;
     e \<in> set (tc_dst_leaf_shards t);
     GetBroadcastConfig None (Some e) src dst = Some (ret ce); bc_target ce = Some te;
     tc_dst_root_shard te = Some d\<rbrakk> \<Longrightarrow> bcast_reached src dst e"

lemma width_power:
  assumes "1 \<le> S"
  shows "leaves_per_root S (S * 2 ^ k) = 2 ^ k"
proof -
  have "(2 ^ k * S + (S - 1)) div S = 2 ^ k" using assms by (intro quot_small) auto
  then show ?thesis by (simp add: leaves_per_root_def algebra_simps)
qed

lemma full_tree_target:
  assumes t: "tree_target (2 ^ k) (S * 2 ^ k) d t" and d: "0 \<le> d" "d < S * 2 ^ k"
  obtains j where "rank_exp k (d mod 2 ^ k) j"
    and "t = rank_target (d div 2 ^ k) (d div 2 ^ k * 2 ^ k) (2 ^ k) (d mod 2 ^ k) j"
proof -
  have "d div 2 ^ k < S" using d by (intro div_less_of_less_mult) auto
  then have "(d div 2 ^ k + 1) * 2 ^ k \<le> S * 2 ^ k" by (intro mult_right_mono) auto
  then have n: "min (2 ^ k) (S * 2 ^ k - d div 2 ^ k * 2 ^ k) = 2 ^ k" by (simp add: algebra_simps)
  obtain m j where m: "(2 :: int) ^ k \<le> 2 ^ m" "m \<noteq> 0 \<longrightarrow> (2 :: int) ^ (m - 1) < 2 ^ k"
    "rank_exp m (d mod 2 ^ k) j"
    "t = rank_target (d div 2 ^ k) (d div 2 ^ k * 2 ^ k) (2 ^ k) (d mod 2 ^ k) j"
    using t unfolding tree_target_def Let_def n by blast
  have "k \<le> m" using m(1) by simp
  moreover have "m \<le> k" using m(2) by (cases m) (simp_all add: Suc_le_eq)
  ultimately show thesis using m(3,4) that by simp
qed

lemma rank_exp_le:
  assumes "rank_exp k r i" and "0 < r"
  shows "2 ^ i \<le> r"
proof -
  obtain q where q: "r = q * 2 ^ i" using assms by (auto simp: rank_exp_def)
  then have "0 < q" using assms(2) by (simp add: zero_less_mult_iff)
  then have "1 * 2 ^ i \<le> q * (2 :: int) ^ i" by (intro mult_right_mono) auto
  then show ?thesis using q by simp
qed

lemma parent_rank:
  assumes i: "rank_exp k r i" and r: "0 < r" "r < 2 ^ k" and j: "rank_exp k (r - 2 ^ i) j"
  shows "0 \<le> r - 2 ^ i" and "i < j" and "r - 2 ^ i + 2 ^ (j - 1) < 2 ^ k"
proof -
  obtain q where q: "odd q" "r = q * 2 ^ i" using i r by (auto simp: rank_exp_def)
  show r0: "0 \<le> r - 2 ^ i" using rank_exp_le[OF i r(1)] by simp
  have lt: "r - 2 ^ i < 2 ^ k" using r(2) by (simp add: less_trans[of _ r])
  obtain j' where j': "rank_exp k (r - 2 ^ i) j'" "r - 2 ^ i + 2 ^ j' \<le> 2 ^ k"
    using rank_exp_exists[OF r0 lt] by metis
  have jj: "j' = j" by (rule rank_exp_unique[OF j'(1) j])
  show ij: "i < j"
  proof (cases "r = 2 ^ i")
    case True
    then have "j = k" using j by (simp add: rank_exp_def)
    then show ?thesis using r(2) True by simp
  next
    case False
    then obtain p where p: "odd p" "r - 2 ^ i = p * 2 ^ j" using j by (auto simp: rank_exp_def)
    show ?thesis
    proof (rule ccontr)
      assume "\<not> i < j"
      then have "(2 :: int) ^ i = 2 ^ (i - j) * 2 ^ j" by (simp flip: power_add)
      then have "p * 2 ^ j = ((q - 1) * 2 ^ (i - j)) * 2 ^ j"
        using p(2) q(2) by (simp add: algebra_simps)
      then have "p = (q - 1) * 2 ^ (i - j)" by simp
      then show False using p(1) q(1) by simp
    qed
  qed
  have "(2 :: int) ^ (j - 1) < 2 ^ j" using ij by simp
  then show "r - 2 ^ i + 2 ^ (j - 1) < 2 ^ k" using j'(2)[unfolded jj] by linarith
qed

text \<open>A shard that is no root is a leaf of the shard it waits for.\<close>

lemma tree_parent:
  assumes ok: "bcast_ok src dst" and full: "dl_size (sh_devices dst) = dl_size (sh_devices src) * 2 ^ k"
    and d: "0 \<le> d" "d < dl_size (sh_devices dst)" and inner: "d mod 2 ^ k \<noteq> 0"
    and t: "tree_target (2 ^ k) (dl_size (sh_devices src) * 2 ^ k) d t"
  obtains p u where "0 \<le> p" and "p < dl_size (sh_devices dst)" and "p mod 2 ^ k < d mod 2 ^ k"
    and "tree_target (2 ^ k) (dl_size (sh_devices src) * 2 ^ k) p u"
    and "GetBroadcastConfig None (Some p) src dst = Some (ret \<lparr>bc_source = None, bc_target = Some u\<rparr>)"
    and "d \<in> set (tc_dst_leaf_shards u)" and "tc_dst_root_shard t = Some p" and "tc_src_shard t = None"
proof -
  let ?S = "dl_size (sh_devices src)"
  have S: "1 \<le> ?S" using ok by (simp add: bcast_ok_def)
  have W: "tree_width src dst = 2 ^ k" using width_power[OF S] full by simp
  have no_role: "sends_root src dst None" by (simp add: sends_root_def)
  obtain i where i: "rank_exp k (d mod 2 ^ k) i"
    "t = rank_target (d div 2 ^ k) (d div 2 ^ k * 2 ^ k) (2 ^ k) (d mod 2 ^ k) i"
    using full_tree_target[OF t] d full by metis
  let ?r = "d mod 2 ^ k" and ?p = "d - 2 ^ i"
  have "0 \<le> ?r" by simp
  then have r: "0 < ?r" using inner by linarith
  have r2: "?r < 2 ^ k" by simp
  have pr: "0 \<le> ?r - 2 ^ i"
    using rank_exp_le[OF i(1) r] by simp
  have pos: "(0 :: int) < 2 ^ i" by simp
  have p_eq: "?p = d div 2 ^ k * 2 ^ k + (?r - 2 ^ i)"
    using div_mult_mod_eq[of d "2 ^ k"] by simp
  have small: "?r - 2 ^ i < 2 ^ k" using r2 pos by linarith
  note p = quot_small[OF pr small, of "d div 2 ^ k", folded p_eq]
  have "0 \<le> d div 2 ^ k * 2 ^ k" using d by (simp add: pos_imp_zdiv_nonneg_iff)
  then have p0: "0 \<le> ?p" using pr p_eq by linarith
  have pD: "?p < dl_size (sh_devices dst)" using d pos by linarith
  obtain u where u: "tree_target (2 ^ k) (?S * 2 ^ k) ?p u" "GetBroadcastConfig None (Some ?p) src dst =
      Some (ret \<lparr>bc_source = None, bc_target = Some u\<rparr>)"
    using GetBroadcastConfig_ok[OF ok no_role p0 pD, unfolded W, unfolded full option.map]
    by metis
  obtain j where j: "rank_exp k (?p mod 2 ^ k) j"
    "u = rank_target (?p div 2 ^ k) (?p div 2 ^ k * 2 ^ k) (2 ^ k) (?p mod 2 ^ k) j"
    using full_tree_target[OF u(1)] p0 pD full by metis
  note par = parent_rank[OF i(1) r r2 j(1)[unfolded p(2)]]
  have "d = ?p div 2 ^ k * 2 ^ k + (?p mod 2 ^ k + 2 ^ i)"
    by (simp add: p div_mult_mod_eq)
  then have "d \<in> set (rank_leaves (?p div 2 ^ k * 2 ^ k) (2 ^ k) (?p mod 2 ^ k) j)"
    using par(2,3) unfolding rank_leaves_def p(2)
    by (auto intro!: image_eqI[where x = i])
  then have leaf: "d \<in> set (tc_dst_leaf_shards u)" by (subst j(2)) (simp add: rank_target_def)
  have up: "tc_dst_root_shard t = Some ?p" "tc_src_shard t = None"
    using i(2) inner p_eq by (simp_all add: rank_target_def)
  have "?p mod 2 ^ k < ?r" using p(2) pos by simp
  from that[OF p0 pD this u leaf up] show thesis .
qed

text \<open>
  C6. Delivery: when every source shard has a power of two of target shards, the data of the source
  reaches every target shard along sends that both ends agree on.
\<close>

theorem bcast_delivers:
  assumes ok: "bcast_ok src dst"
    and full: "dl_size (sh_devices dst) = dl_size (sh_devices src) * 2 ^ k"
    and d: "0 \<le> d" "d < dl_size (sh_devices dst)"
  shows "bcast_reached src dst d"
  using d
proof (induction "nat (d mod 2 ^ k)" arbitrary: d rule: less_induct)
  case less
  let ?S = "dl_size (sh_devices src)"
  have S: "1 \<le> ?S" using ok by (simp add: bcast_ok_def)
  have W: "tree_width src dst = 2 ^ k" using width_power[OF S] full by simp
  have no_role: "sends_root src dst None" by (simp add: sends_root_def)
  obtain t where t: "tree_target (2 ^ k) (?S * 2 ^ k) d t" "GetBroadcastConfig None (Some d) src dst =
      Some (ret \<lparr>bc_source = None, bc_target = Some t\<rparr>)"
    using GetBroadcastConfig_ok[OF ok no_role less.prems, unfolded W, unfolded full option.map]
    by metis
  show ?case
  proof (cases "d mod 2 ^ k = 0")
    case True
    obtain i where i: "t = rank_target (d div 2 ^ k) (d div 2 ^ k * 2 ^ k) (2 ^ k) (d mod 2 ^ k) i"
      using full_tree_target[OF t(1)] less.prems full by metis
    let ?s = "d div 2 ^ k"
    have s: "0 \<le> ?s" "?s < ?S"
      using less.prems full by (simp_all add: pos_imp_zdiv_nonneg_iff div_less_of_less_mult)
    have d_eq: "?s * 2 ^ k = d" using True by (metis add.right_neutral div_mult_mod_eq)
    show ?thesis
      by (rule bcast_reached.root[OF s GetBroadcastConfig_source[OF ok s] _ _ t(2)])
         (use d_eq less.prems True i W in \<open>auto simp: rank_target_def\<close>)
  next
    case False
    obtain p u where p: "0 \<le> p" "p < dl_size (sh_devices dst)" "p mod 2 ^ k < d mod 2 ^ k"
      "GetBroadcastConfig None (Some p) src dst = Some (ret \<lparr>bc_source = None, bc_target = Some u\<rparr>)"
      "d \<in> set (tc_dst_leaf_shards u)" "tc_dst_root_shard t = Some p"
      using tree_parent[OF ok full less.prems False t(1)] by metis
    have "0 \<le> p mod 2 ^ k" by simp
    then have "nat (p mod 2 ^ k) < nat (d mod 2 ^ k)" using p(3) by linarith
    then have "bcast_reached src dst p" using less.hyps p(1,2) by blast
    from bcast_reached.forward[OF this p(4) _ p(5) t(2) _ p(6)] show ?thesis by simp
  qed
qed

theorem bcast_delivers_witness:
  "bcast_ok bcast_example_src bcast_example_dst \<and>
   bcast_reached bcast_example_src bcast_example_dst 7"
  using bcast_delivers[OF bcast_example_ok, of 2 7] bcast_example_ok
  by (simp add: bcast_example_src_def bcast_example_dst_def)

section \<open>Where delivery fails\<close>

text \<open>
  In a tree of six leaves rank 4 sends to nobody, because its first candidate, rank 6, does not
  exist and the loop stops there; rank 5 nevertheless waits for rank 4.
\<close>

lemma bcast_six_leaves:
  "GetTargetConfig 0 0 (dl_ctor 0 6) 4 = Some (ret \<lparr>tc_src_shard = None,
     tc_dst_root_shard = Some 0, tc_dst_leaf_shards = []\<rparr>) \<and>
   GetTargetConfig 0 0 (dl_ctor 0 6) 5 = Some (ret \<lparr>tc_src_shard = None,
     tc_dst_root_shard = Some 4, tc_dst_leaf_shards = []\<rparr>)"
proof
  obtain m j where m: "(6 :: int) \<le> 2 ^ m" "rank_exp m 4 j"
    "GetTargetConfig 0 0 (dl_ctor 0 6) 4 = Some (ret (rank_target 0 0 6 4 j))"
    by (rule GetTargetConfig_ok[of 4 6 0 0 0]) auto
  have "rank_exp m 4 2" by (simp add: rank_exp_def)
  then have "j = 2" using rank_exp_unique[OF m(2)] by blast
  then show "GetTargetConfig 0 0 (dl_ctor 0 6) 4 = Some (ret \<lparr>tc_src_shard = None,
     tc_dst_root_shard = Some 0, tc_dst_leaf_shards = []\<rparr>)"
    using m(3) by (simp add: rank_target_def rank_leaves_def)
next
  have "(5 :: int) smod 2 = 1" by (simp add: smod_nonneg)
  then show "GetTargetConfig 0 0 (dl_ctor 0 6) 5 = Some (ret \<lparr>tc_src_shard = None,
     tc_dst_root_shard = Some 4, tc_dst_leaf_shards = []\<rparr>)"
    by (simp add: GetTargetConfig_def arith64_defs chk_def int64_ok_def int64_min_def int64_max_def)
qed

text \<open>
  A source shard without a tree gets the empty configuration even when its device is also a
  target: with three sources and four overlapping targets, the device that is source shard 2 and
  target shard 2 loses its target role.
\<close>

lemma bcast_role_dropped:
  "dl_size (sh_devices src) = 3 \<Longrightarrow> dl_size (sh_devices dst) = 4 \<Longrightarrow>
   GetBroadcastConfig (Some 2) (Some 2) src dst =
     Some (ret \<lparr>bc_source = None, bc_target = None\<rparr>)"
  by (simp add: GetBroadcastConfig_def arith64_defs chk_def int64_ok_def int64_min_def
      int64_max_def sdiv_nonneg)

end
