(* ===== verification/Reshard_Config.thy ===== *)
theory Reshard_Config
  imports Scatter_Gather Broadcast Processor
begin

text \<open>
  How a device decides what to do in a resharding: \<open>src/zuku/reshard.cc\<close>
  (\<open>DetermineShardingConfig\<close> and its cases), and the gather and scatter of whole shards in
  \<open>src/zuku/reshard_gather_shards.cc\<close> and \<open>src/zuku/reshard_scatter_shards.cc\<close>.
\<close>

section \<open>Configurations\<close>

record gather_shards_config =
  gs_src_shard :: "int option"
  gs_dst_shard :: "int option"
  source_to_target_bounds :: "rect option"
  target_from_source_bounds :: "rect list"

record scatter_shards_config =
  ss_dst_shard :: "int option"
  ss_sender :: bool

datatype reshard_config =
  UnsupportedConfig | PointToPointConfig | ScatterGatherC scatter_gather_config
| BroadcastC broadcast_config | GatherShardsC gather_shards_config
| ScatterShardsC scatter_shards_config | NoOpConfig

text \<open>\<open>reserve\<close> of a negative count throws before the loop starts.\<close>

definition reserve64 :: "int \<Rightarrow> unit res" where
  "reserve64 n = (if n < 0 then fail LengthError else ret ())"

definition GetGatherShardsConfig ::
  "int \<Rightarrow> processor \<Rightarrow> sharding \<Rightarrow> sharding \<Rightarrow> gather_shards_config res" where
  "GetGatherShardsConfig max_dim p src dst =
     (let src_shard = dl_shard_id (sh_devices src) (global_id p);
          dst_shard = dl_shard_id (sh_devices dst) (global_id p) in
      andThen
        (case src_shard of
           Some shard \<Rightarrow> andThen (ComputeTileBounds max_dim shard src) (\<lambda>b. ret (Some b))
         | None \<Rightarrow> ret None) (\<lambda>dest_bounds.
      let num_src_shards = dl_size (sh_devices src) in
      andThen (reserve64 num_src_shards) (\<lambda>_.
      andThen (mapR (\<lambda>shard. ComputeTileBounds max_dim shard src) (upto64 num_src_shards))
        (\<lambda>source_bounds.
      ret \<lparr>gs_src_shard = src_shard, gs_dst_shard = dst_shard,
           source_to_target_bounds = dest_bounds,
           target_from_source_bounds = source_bounds\<rparr>))))"

definition GetScatterShardsConfig ::
  "processor \<Rightarrow> sharding \<Rightarrow> sharding \<Rightarrow> scatter_shards_config" where
  "GetScatterShardsConfig p src dst =
     \<lparr>ss_dst_shard = dl_shard_id (sh_devices dst) (global_id p),
      ss_sender = dl_contains (sh_devices src) (global_id p)\<rparr>"

section \<open>Partial replication\<close>

definition SliceDim :: "rect \<Rightarrow> int \<Rightarrow> int \<Rightarrow> int \<Rightarrow> rect res" where
  "SliceDim rect slice_number total_slices dim =
     andThen (vec_at (rect_hi rect) dim) (\<lambda>hi.
     andThen (vec_at (rect_lo rect) dim) (\<lambda>lo.
     andThen (sub64 hi lo) (\<lambda>d.
     andThen (add64 d 1) (\<lambda>extent.
     andThen (div64 extent total_slices) (\<lambda>slice_size.
     andThen (mul64 slice_size slice_number) (\<lambda>offset.
     andThen (add64 lo offset) (\<lambda>lo'.
     andThen (vec_set (rect_lo rect) dim lo') (\<lambda>los.
     andThen (add64 lo' slice_size) (\<lambda>past.
     andThen (sub64 past 1) (\<lambda>hi'.
     andThen (vec_set (rect_hi rect) dim hi') (\<lambda>his.
     ret (rect\<lparr>rect_lo := los, rect_hi := his\<rparr>))))))))))))"

fun find_replicated :: "int \<Rightarrow> sharding_dim list \<Rightarrow> int" where
  "find_replicated dim_number [] = - 1"
| "find_replicated dim_number (dim # dims) =
     (if dim_size dim = 1 \<and> dim_sharding dim > 1 then dim_number
      else find_replicated (dim_number + 1) dims)"

text \<open>The loop that looks for a dimension to slice; it counts the real dimensions only.\<close>

definition find_slice_dim :: "int \<Rightarrow> sharding_dim list \<Rightarrow> int option res" where
  "find_slice_dim repl dims =
     andThen
       (foldR (\<lambda>(slice_dim, dim_number) dim.
            if dim_size dim = 1 \<and> dim_sharding dim > 1 then ret (slice_dim, dim_number)
            else
              andThen (mul64 (dim_sharding dim) repl) (\<lambda>new_sharding.
              andThen
                (if slice_dim = None
                 then andThen (mod64 (dim_size dim) new_sharding) (\<lambda>m. ret (m = 0))
                 else ret False) (\<lambda>found.
              ret (if found then Some dim_number else slice_dim, dim_number + 1))))
          (None, 0) dims)
       (\<lambda>(slice_dim, _). ret slice_dim)"

definition DeterminePartialToReplicatedConfig ::
  "int \<Rightarrow> processor \<Rightarrow> sharding \<Rightarrow> sharding \<Rightarrow> reshard_config res" where
  "DeterminePartialToReplicatedConfig max_dim p src dst =
     (let replicated_dim = find_replicated 0 (sh_dims src) in
      andThen (vec_at (sh_dims src) replicated_dim) (\<lambda>rd.
      let repl = dim_sharding rd in
      andThen (find_slice_dim repl (sh_dims src)) (\<lambda>slice_dim.
      case slice_dim of None \<Rightarrow> ret UnsupportedConfig
      | Some slice_dim \<Rightarrow>
          let src_shard = dl_shard_id (sh_devices src) (global_id p);
              dst_shard = dl_shard_id (sh_devices dst) (global_id p) in
          andThen
            (case src_shard of
               Some shard \<Rightarrow>
                 andThen (ComputeTileIndex shard src) (\<lambda>index.
                 andThen (vec_at index replicated_dim) (\<lambda>replica_number.
                 andThen (ComputeTileBounds max_dim shard src) (\<lambda>unsliced_bounds.
                 andThen (SliceDim unsliced_bounds replica_number repl slice_dim) (\<lambda>b.
                 ret (Some b)))))
             | None \<Rightarrow> ret None) (\<lambda>dest_bounds.
          let num_src_shards = dl_size (sh_devices src) in
          andThen (reserve64 num_src_shards) (\<lambda>_.
          andThen
            (mapR (\<lambda>shard.
                 andThen (ComputeTileBounds max_dim shard src) (\<lambda>unsliced_bounds.
                 andThen (ComputeTileIndex shard src) (\<lambda>index.
                 andThen (vec_at index replicated_dim) (\<lambda>replica_number.
                 SliceDim unsliced_bounds replica_number repl slice_dim))))
               (upto64 num_src_shards)) (\<lambda>source_bounds.
          ret (GatherShardsC \<lparr>gs_src_shard = src_shard, gs_dst_shard = dst_shard,
                 source_to_target_bounds = dest_bounds,
                 target_from_source_bounds = source_bounds\<rparr>)))))))"

section \<open>The decision\<close>

definition DetermineShardingConfigReplicationChange ::
  "processor \<Rightarrow> sharding \<Rightarrow> sharding \<Rightarrow> reshard_config" where
  "DetermineShardingConfigReplicationChange p src dst = UnsupportedConfig"

definition lift_option :: "('a \<Rightarrow> 'b) \<Rightarrow> 'a res option \<Rightarrow> 'b res option" where
  "lift_option f = map_option (\<lambda>r. andThen r (\<lambda>x. ret (f x)))"

definition DetermineShardingConfigFullyReplicated ::
  "processor \<Rightarrow> sharding \<Rightarrow> sharding \<Rightarrow> reshard_config res option" where
  "DetermineShardingConfigFullyReplicated p src dst =
     (if dl_size (sh_devices src) \<ge> dl_size (sh_devices dst)
      then let src_shard_id = global_id p - dl_start (sh_devices src) in
        if \<not> dl_contains (sh_devices dst) (global_id p) \<and> src_shard_id \<ge> dl_size (sh_devices dst)
        then Some (ret NoOpConfig)
        else Some (ret PointToPointConfig)
      else lift_option BroadcastC
        (GetBroadcastConfig (dl_shard_id (sh_devices src) (global_id p))
           (dl_shard_id (sh_devices dst) (global_id p)) src dst))"

definition DetermineScatterGatherConfig ::
  "int \<Rightarrow> processor \<Rightarrow> sharding \<Rightarrow> sharding \<Rightarrow> reshard_config res" where
  "DetermineScatterGatherConfig max_dim p src dst =
     andThen
       (foldR (\<lambda>(num_dims_different, last_dim_different) dim.
            andThen (vec_at (sh_dims src) dim) (\<lambda>sd.
            andThen (vec_at (sh_dims dst) dim) (\<lambda>dd.
            if \<not> dim_eq sd dd then ret (num_dims_different + 1, dim)
            else ret (num_dims_different, last_dim_different))))
          (0 :: int, - 1) (upto64 (size_of (sh_dims src))))
       (\<lambda>(num_dims_different, last_dim_different).
     if num_dims_different = 1
     then
       (let src_shard = (if dl_contains (sh_devices src) (global_id p)
              then Some (global_id p - dl_start (sh_devices src)) else None);
            dst_shard = (if dl_contains (sh_devices dst) (global_id p)
              then Some (global_id p - dl_start (sh_devices dst)) else None) in
        andThen (GetScatterGatherConfig max_dim last_dim_different src_shard dst_shard src dst)
          (\<lambda>c. ret (ScatterGatherC c)))
     else ret UnsupportedConfig)"

definition both_hold :: "bool res \<Rightarrow> bool res \<Rightarrow> bool res" where
  \<comment> \<open>\<open>a && b\<close>: the second operand is not evaluated when the first is false\<close>
  "both_hold a b = andThen a (\<lambda>x. if x then b else ret False)"

definition if_config ::
  "bool res \<Rightarrow> reshard_config res option \<Rightarrow> reshard_config res option \<Rightarrow> reshard_config res option"
where
  "if_config c a b = (case c of Inl e \<Rightarrow> Some (Inl e) | Inr x \<Rightarrow> if x then a else b)"

definition DetermineShardingConfig ::
  "int \<Rightarrow> processor \<Rightarrow> sharding \<Rightarrow> sharding \<Rightarrow> reshard_config res option" where
  "DetermineShardingConfig max_dim p src dst =
     if_config (both_hold (FullySharded src) (IsReplicated dst))
       (Some (andThen (GetGatherShardsConfig max_dim p src dst) (\<lambda>c. ret (GatherShardsC c))))
    (if_config (both_hold (FullySharded dst) (IsReplicated src))
       (Some (ret (ScatterShardsC (GetScatterShardsConfig p src dst))))
    (if_config (both_hold (IsReplicated src) (IsReplicated dst))
       (DetermineShardingConfigFullyReplicated p src dst)
    (if_config (both_hold (IsPartiallyReplicated src) (IsReplicated dst))
       (Some (DeterminePartialToReplicatedConfig max_dim p src dst))
    (if length (sh_dims src) \<noteq> length (sh_dims dst)
     then Some (ret (DetermineShardingConfigReplicationChange p src dst))
     else if dl_size (sh_devices src) = dl_size (sh_devices dst) \<and>
             list_all2 dim_eq (sh_dims src) (sh_dims dst)
     then Some (ret PointToPointConfig)
     else Some (DetermineScatterGatherConfig max_dim p src dst)))))"

section \<open>Gathering whole shards\<close>

lemma reserve64_ok: "0 \<le> n \<Longrightarrow> reserve64 n = ret ()"
  by (simp add: reserve64_def)

lemma dl_size_nonneg: "sharding_ok s \<Longrightarrow> 0 \<le> dl_size (sh_devices s)"
  using sharding_ok_dl[of s] by (simp add: device_list_ok_def dl_size_def)

lemma shard_range: "dl_shard_id d x = Some i \<Longrightarrow> 0 \<le> i \<and> i < dl_size d"
  by (auto simp: dl_defs split: if_splits)

lemma GetGatherShardsConfig_ok:
  assumes s: "sharding_ok src" and rank: "rank_supported max_dim src"
  shows "GetGatherShardsConfig max_dim p src dst = ret
    \<lparr>gs_src_shard = dl_shard_id (sh_devices src) (global_id p),
     gs_dst_shard = dl_shard_id (sh_devices dst) (global_id p),
     source_to_target_bounds =
       map_option (\<lambda>i. tile_box i src) (dl_shard_id (sh_devices src) (global_id p)),
     target_from_source_bounds = map (\<lambda>i. tile_box i src) (upto64 (dl_size (sh_devices src)))\<rparr>"
proof -
  note box = ComputeTileBounds_ok[OF s _ _ rank]
  have "mapR (\<lambda>shard. ComputeTileBounds max_dim shard src) (upto64 (dl_size (sh_devices src))) =
      ret (map (\<lambda>i. tile_box i src) (upto64 (dl_size (sh_devices src))))"
    by (rule mapR_pure) (simp add: box)
  moreover have "(case dl_shard_id (sh_devices src) (global_id p) of
           Some shard \<Rightarrow> andThen (ComputeTileBounds max_dim shard src) (\<lambda>b. ret (Some b))
         | None \<Rightarrow> ret None) =
      ret (map_option (\<lambda>i. tile_box i src) (dl_shard_id (sh_devices src) (global_id p)))"
    using shard_range[of "sh_devices src" "global_id p"]
    by (cases "dl_shard_id (sh_devices src) (global_id p)") (simp_all add: box)
  ultimately show ?thesis
    by (simp add: GetGatherShardsConfig_def Let_def reserve64_ok dl_size_nonneg[OF s])
qed

lemma count_upto64:
  "length (filter P (upto64 n)) = card {x. 0 \<le> x \<and> x < n \<and> P x}"
proof -
  have "{x. P x} \<inter> set (upto64 n) = {x. 0 \<le> x \<and> x < n \<and> P x}" by auto
  then show ?thesis by (simp only: distinct_length_filter[OF distinct_upto64])
qed

text \<open>
  C12. Gathering a fully sharded array: in the list of boxes that every target uses, each element of
  the array occurs in exactly one box, and the box that a sender copies is the entry of its own
  shard number in the receivers' list.
\<close>

theorem gather_shards_exact:
  assumes s: "sharding_ok src" and rank: "rank_supported max_dim src"
    and full: "FullySharded src = ret True" and x: "array_point src x"
  shows "\<exists>cp cq. GetGatherShardsConfig max_dim p src dst = ret cp \<and>
    GetGatherShardsConfig max_dim q src dst = ret cq \<and>
    length (target_from_source_bounds cq) = nat (dl_size (sh_devices src)) \<and>
    length (filter (\<lambda>b. in_rect b x) (target_from_source_bounds cq)) = 1 \<and>
    (\<forall>i. gs_src_shard cp = Some i \<longrightarrow>
       source_to_target_bounds cp = Some (target_from_source_bounds cq ! nat i))"
proof -
  let ?D = "dl_size (sh_devices src)"
  have "tiles src = ?D" using full by (simp add: FullySharded_ok[OF s])
  then have "replication src = 1"
    using tiles_times_replication[OF s] tiles_ge1[OF s] by auto
  then have "card {r. 0 \<le> r \<and> r < ?D \<and> in_rect (tile_box r src) x} = 1"
    using card_tile_boxes[OF s x] by simp
  then have "length (filter (\<lambda>b. in_rect b x) (map (\<lambda>i. tile_box i src) (upto64 ?D))) = 1"
    by (simp add: filter_map comp_def count_upto64)
  moreover have "map (\<lambda>i. tile_box i src) (upto64 ?D) ! nat i = tile_box i src"
    if "dl_shard_id (sh_devices src) (global_id p) = Some i" for i
    using shard_range[OF that] by (simp add: nat_less_iff)
  ultimately show ?thesis
    by (simp add: GetGatherShardsConfig_ok[OF s rank] dl_shard_id_def)
qed

text \<open>A test processor, as \<open>Processor::Create\<close> makes it for the type \<open>TEST\<close>.\<close>

definition test_processor :: "int \<Rightarrow> processor" where
  "test_processor i = \<lparr>pr_type = TEST, pr_proc = NO_PROC, local_id = i, global_id = i\<rparr>"

theorem gather_shards_exact_witness:
  "\<exists>cp cq. GetGatherShardsConfig 3 (test_processor 5) sg_example_src sg_example_dst = ret cp \<and>
    GetGatherShardsConfig 3 (test_processor 13) sg_example_src sg_example_dst = ret cq \<and>
    length (filter (\<lambda>b. in_rect b [4, 6]) (target_from_source_bounds cq)) = 1"
proof -
  have s: "sharding_ok sg_example_src" and rank: "rank_supported 3 sg_example_src"
    by (simp_all add: sharding_ok_def sg_example_src_def dim_ok_def is_repl_dim_def size_of_def
        elements_def device_list_ok_def dl_defs int64_max_def rank_supported_def)
  have "tiles sg_example_src = 12" by (simp add: tiles_def sg_example_src_def is_repl_dim_def)
  then have full: "FullySharded sg_example_src = ret True"
    by (simp add: FullySharded_ok[OF s] sg_example_size)
  have "array_point sg_example_src [4, 6]"
    by (simp add: array_point_def sg_example_src_def is_repl_dim_def)
  from gather_shards_exact[OF s rank full this, of "test_processor 5" sg_example_dst "test_processor 13"]
  show ?thesis by blast
qed

section \<open>Slicing the replicas\<close>

text \<open>
  A partially replicated source: every replica of a tile sends another slice of it. Where slicing
  is possible, the first real dimension whose pieces can be cut further is cut.
\<close>

fun first_slice_dim :: "int \<Rightarrow> nat \<Rightarrow> sharding_dim list \<Rightarrow> nat option" where
  "first_slice_dim repl k [] = None"
| "first_slice_dim repl k (d # ds) =
     (if is_repl_dim d then first_slice_dim repl k ds
      else if dim_size d mod (dim_sharding d * repl) = 0 then Some k
      else first_slice_dim repl (Suc k) ds)"

lemma find_slice_dim_ok:
  assumes "\<And>d. d \<in> set ds \<Longrightarrow> dim_ok d \<and> dim_size d \<le> int64_max \<and>
      (\<not> is_repl_dim d \<longrightarrow> dim_sharding d * repl \<le> int64_max)" and "1 \<le> repl"
  shows "find_slice_dim repl ds = ret (map_option int (first_slice_dim repl 0 ds))"
proof -
  define f :: "int option \<times> int \<Rightarrow> sharding_dim \<Rightarrow> (int option \<times> int) res"
    where "f = (\<lambda>(slice_dim, dim_number) dim.
            if dim_size dim = 1 \<and> dim_sharding dim > 1 then ret (slice_dim, dim_number)
            else
              andThen (mul64 (dim_sharding dim) repl) (\<lambda>new_sharding.
              andThen
                (if slice_dim = None
                 then andThen (mod64 (dim_size dim) new_sharding) (\<lambda>m. ret (m = 0))
                 else ret False) (\<lambda>found.
              ret (if found then Some dim_number else slice_dim, dim_number + (1 :: int)))))"
  have step: "f (o1, int k) d = (if is_repl_dim d then ret (o1, int k)
      else ret (if o1 = None \<and> dim_size d mod (dim_sharding d * repl) = 0 then Some (int k) else o1,
        int (Suc k)))" if d: "d \<in> set ds" for o1 k d
  proof (cases "is_repl_dim d")
    case True
    then show ?thesis by (simp add: f_def is_repl_dim_def)
  next
    case False
    have ge1: "1 \<le> dim_size d" "1 \<le> dim_sharding d" using assms(1)[OF d] dim_ok_ge1 by auto
    then have "mul64 (dim_sharding d) repl = ret (dim_sharding d * repl)"
      using assms(1)[OF d] assms(2) False by (intro mul64_ge1) auto
    moreover have "0 < dim_sharding d * repl" using ge1 assms(2) by simp
    then have "mod64 (dim_size d) (dim_sharding d * repl) =
        ret (dim_size d mod (dim_sharding d * repl))"
      using assms(1)[OF d] ge1 by (intro mod64_ok int64_okI) auto
    ultimately show ?thesis using False by (auto simp: f_def is_repl_dim_def)
  qed
  have "\<exists>n. foldR f (o1, int k) es =
      ret (if o1 = None then map_option int (first_slice_dim repl k es) else o1, n)"
    if "set es \<subseteq> set ds" for o1 k es
    using that
  proof (induction es arbitrary: o1 k)
    case (Cons e es)
    have e: "e \<in> set ds" and es: "set es \<subseteq> set ds" using Cons.prems by auto
    show ?case
      using Cons.IH[OF es, of o1 k] Cons.IH[OF es, of o1 "Suc k"] Cons.IH[OF es, of "Some (int k)" "Suc k"]
      unfolding foldR.simps step[OF e]
      by (cases "is_repl_dim e"; cases o1; cases "dim_size e mod (dim_sharding e * repl) = 0")
        (simp_all del: of_nat_Suc)
  qed simp
  from this[of ds None 0] obtain n where
    "foldR f (None, 0) ds = ret (map_option int (first_slice_dim repl 0 ds), n)" by auto
  then show ?thesis unfolding find_slice_dim_def f_def by (simp only: andThen.simps prod.case)
qed

lemma first_slice_dim_Some:
  assumes "first_slice_dim repl k ds = Some m"
  shows "\<exists>i < length ds. \<not> is_repl_dim (ds ! i) \<and> m = k + length (real_dims (take i ds)) \<and>
    dim_size (ds ! i) mod (dim_sharding (ds ! i) * repl) = 0"
  using assms
proof (induction repl k ds rule: first_slice_dim.induct)
  case (2 repl k d ds)
  consider "is_repl_dim d" | "\<not> is_repl_dim d" "dim_size d mod (dim_sharding d * repl) = 0"
    | "\<not> is_repl_dim d" "dim_size d mod (dim_sharding d * repl) \<noteq> 0" by blast
  then show ?case
  proof cases
    case 1
    then obtain i where "i < length ds" "\<not> is_repl_dim (ds ! i)"
      "m = k + length (real_dims (take i ds))"
      "dim_size (ds ! i) mod (dim_sharding (ds ! i) * repl) = 0"
      using 2 by auto
    then show ?thesis using 1 by (intro exI[of _ "Suc i"]) simp
  next
    case two: 2
    then show ?thesis using "2.prems" by (intro exI[of _ 0]) simp
  next
    case 3
    then obtain i where "i < length ds" "\<not> is_repl_dim (ds ! i)"
      "m = Suc k + length (real_dims (take i ds))"
      "dim_size (ds ! i) mod (dim_sharding (ds ! i) * repl) = 0"
      using 2 by auto
    then show ?thesis using 3 by (intro exI[of _ "Suc i"]) simp
  qed
qed simp

lemma find_replicated_ok:
  assumes "j < length ds" and "is_repl_dim (ds ! j)" and "length (filter is_repl_dim ds) \<le> 1"
  shows "find_replicated n ds = n + int j"
  using assms
proof (induction ds arbitrary: j n)
  case (Cons d ds)
  show ?case
  proof (cases "is_repl_dim d")
    case True
    then have none: "filter is_repl_dim ds = []" using Cons.prems(3) by simp
    have "j = 0"
    proof (rule ccontr)
      assume "j \<noteq> 0"
      then have "ds ! (j - 1) \<in> set ds" "is_repl_dim (ds ! (j - 1))" using Cons.prems by (auto simp: nth_Cons')
      then show False using none by (auto simp: filter_empty_conv)
    qed
    then show ?thesis using True by (simp add: is_repl_dim_def)
  next
    case False
    then have j: "j \<noteq> 0" using Cons.prems(2) by (cases j) auto
    then have "find_replicated (n + 1) ds = n + 1 + int (j - 1)"
      using Cons.prems False by (intro Cons.IH) (auto simp: nth_Cons')
    then show ?thesis using False j by (simp add: is_repl_dim_def of_nat_diff)
  qed
qed simp

lemma first_slice_dim_None:
  "first_slice_dim repl k ds = None \<longleftrightarrow>
   \<not> list_ex (\<lambda>d. \<not> is_repl_dim d \<and> dim_size d mod (dim_sharding d * repl) = 0) ds"
  by (induction repl k ds rule: first_slice_dim.induct) auto

lemma tile_spans_nth:
  "length idx = length ds \<Longrightarrow> i < length ds \<Longrightarrow> \<not> is_repl_dim (ds ! i) \<Longrightarrow>
   length (real_dims (take i ds)) < length (tile_spans ds idx) \<and>
   tile_spans ds idx ! length (real_dims (take i ds)) = tile_span (ds ! i) (idx ! i)"
proof (induction ds arbitrary: idx i)
  case (Cons d ds)
  then obtain x js where idx: "idx = x # js" by (cases idx) auto
  show ?case
  proof (cases i)
    case 0
    then show ?thesis using Cons.prems idx by simp
  next
    case (Suc n)
    then show ?thesis using Cons.IH[of js n] Cons.prems idx by simp
  qed
qed simp

lemma SliceDim_spans:
  assumes k: "k < length xs" "xs ! k = (lo, lo + e - 1)" and lo: "0 \<le> lo" "lo + e \<le> int64_max"
    and e: "1 \<le> e" "1 \<le> R" "R dvd e" and x: "0 \<le> x" "x < R"
  shows "SliceDim (spans_rect n xs) x R (int k) =
    ret (spans_rect n (xs[k := (lo + e div R * x, lo + e div R * x + e div R - 1)]))"
proof -
  let ?s = "e div R"
  have Rs: "R * ?s = e" using e(3) by simp
  have "0 < R * ?s" using e(1) Rs by simp
  then have "0 < ?s" using e(2) by (simp only: zero_less_mult_iff) linarith
  then have s: "1 \<le> ?s" "R * ?s = e" using Rs by simp_all
  have "?s * x + ?s \<le> ?s * R"
    using x s(1) mult_left_mono[of "x + 1" R ?s] by (simp add: algebra_simps)
  then have le: "?s * x + ?s \<le> e" using s(2) by (simp add: mult.commute)
  have sx: "0 \<le> ?s * x" using s(1) x by simp
  have "vec_at (map snd xs) (int k) = ret (lo + e - 1)" "vec_at (map fst xs) (int k) = ret lo"
    using k by (simp_all add: vec_at_nth)
  moreover have "sub64 (lo + e - 1) lo = ret (e - 1)" "add64 (e - 1) 1 = ret e"
    "div64 e R = ret ?s"
    using e lo by (auto intro!: trans[OF sub64_ok] trans[OF add64_ok] div64_ok int64_okI)
  moreover have "mul64 ?s x = ret (?s * x)" "add64 lo (?s * x) = ret (lo + ?s * x)"
    "add64 (lo + ?s * x) ?s = ret (lo + ?s * x + ?s)"
    "sub64 (lo + ?s * x + ?s) 1 = ret (lo + ?s * x + ?s - 1)"
    using le sx lo s(1) by (auto intro!: mul64_ok add64_ok sub64_ok int64_okI)
  moreover have "vec_set (map fst xs) (int k) a = ret (map fst (xs[k := (a, b)]))"
    "vec_set (map snd xs) (int k) b = ret (map snd (xs[k := (a, b)]))" for a b
    using k(1) by (simp_all add: vec_set_nth map_update)
  ultimately show ?thesis by (simp add: SliceDim_def spans_rect_def map_update)
qed

lemma in_spans_update:
  assumes "k < length xs" and "xs ! k = (lo, hi)" and "lo \<le> a" and "b \<le> hi"
  shows "in_spans (xs[k := (a, b)]) p \<longleftrightarrow> in_spans xs p \<and> a \<le> p ! k \<and> p ! k \<le> b"
  using assms unfolding in_spans_def list_all2_conv_all_nth
  by (auto simp: nth_list_update split: prod.splits; force)

lemma in_spans_nth:
  "in_spans xs p \<Longrightarrow> k < length xs \<Longrightarrow> xs ! k = (lo, hi) \<Longrightarrow> lo \<le> p ! k \<and> p ! k \<le> hi"
  unfolding in_spans_def by (drule list_all2_nthD) auto

text \<open>The slice that shard \<open>r\<close> is responsible for, cutting real dimension \<open>i\<close>.\<close>

definition replica_slice :: "sharding \<Rightarrow> nat \<Rightarrow> nat \<Rightarrow> int \<Rightarrow> rect" where
  "replica_slice s j i r =
     (let xs = tile_spans (sh_dims s) (tile_index r s); k = length (real_dims (take i (sh_dims s)));
          e = dim_size (sh_dims s ! i) div dim_sharding (sh_dims s ! i);
          R = dim_sharding (sh_dims s ! j); lo = fst (xs ! k) + e div R * tile_index r s ! j
      in spans_rect (length xs) (xs[k := (lo, lo + e div R - 1)]))"

definition slicing_ok :: "sharding \<Rightarrow> nat \<Rightarrow> nat \<Rightarrow> bool" where
  "slicing_ok s j i \<longleftrightarrow> sharding_ok s \<and> j < length (sh_dims s) \<and> is_repl_dim (sh_dims s ! j) \<and>
     i < length (sh_dims s) \<and> \<not> is_repl_dim (sh_dims s ! i) \<and>
     dim_size (sh_dims s ! i) mod (dim_sharding (sh_dims s ! i) * dim_sharding (sh_dims s ! j)) = 0"

lemma slicing_okD:
  assumes "slicing_ok s j i"
  defines "e \<equiv> dim_size (sh_dims s ! i) div dim_sharding (sh_dims s ! i)"
  defines "R \<equiv> dim_sharding (sh_dims s ! j)"
  shows "1 \<le> e" and "1 < R" and "R dvd e"
proof -
  have s: "sharding_ok s" and j: "j < length (sh_dims s)" "is_repl_dim (sh_dims s ! j)"
    and i: "i < length (sh_dims s)" "\<not> is_repl_dim (sh_dims s ! i)"
    and m: "dim_size (sh_dims s ! i) mod (dim_sharding (sh_dims s ! i) * R) = 0"
    using assms(1) by (simp_all add: slicing_ok_def R_def)
  have ok: "dim_ok (sh_dims s ! i)" using sharding_ok_dim[OF s] i(1) by simp
  show "1 \<le> e" unfolding e_def by (rule real_dim_tile_ge1[OF ok i(2)])
  show "1 < R" using j(2) by (simp add: R_def is_repl_dim_def)
  obtain q where "dim_size (sh_dims s ! i) = dim_sharding (sh_dims s ! i) * R * q"
    using m by auto
  moreover have "dim_sharding (sh_dims s ! i) \<noteq> 0" using dim_ok_ge1[OF ok] by simp
  ultimately have "e = R * q" by (simp add: e_def)
  then show "R dvd e" by simp
qed

lemma replica_slice_ok:
  assumes ok: "slicing_ok s j i" and r: "0 \<le> r" "r < dl_size (sh_devices s)"
  shows "SliceDim (tile_box r s) (tile_index r s ! j) (dim_sharding (sh_dims s ! j))
      (int (length (real_dims (take i (sh_dims s))))) = ret (replica_slice s j i r)"
proof -
  let ?ds = "sh_dims s" and ?idx = "tile_index r s"
  let ?xs = "tile_spans ?ds ?idx" and ?k = "length (real_dims (take i (sh_dims s)))"
  let ?e = "dim_size (?ds ! i) div dim_sharding (?ds ! i)"
  have s: "sharding_ok s" and j: "j < length ?ds" "is_repl_dim (?ds ! j)"
    and i: "i < length ?ds" "\<not> is_repl_dim (?ds ! i)"
    using ok by (simp_all add: slicing_ok_def)
  note e = slicing_okD[OF ok]
  have idx: "0 \<le> ?idx ! i" "?idx ! i < dim_sharding (?ds ! i)"
    "0 \<le> ?idx ! j" "?idx ! j < dim_sharding (?ds ! j)"
    using tile_index_in_range[OF s r] i(1) j(1) by (auto simp: index_in_range_nth)
  note nth = tile_spans_nth[of ?idx ?ds i, OF length_tile_index i]
  have dok: "dim_ok (?ds ! i)" using sharding_ok_dim[OF s] i(1) by simp
  have size: "dim_size (?ds ! i) \<le> int64_max" using dim_size_int64[OF s] i(1) by simp
  note ext = tile_extent_end[OF dok i(2) idx(1,2)]
  have ne: "?xs \<noteq> []" using nth by auto
  have "SliceDim (spans_rect (length ?xs) ?xs) (?idx ! j) (dim_sharding (?ds ! j)) (int ?k) =
    ret (spans_rect (length ?xs) (?xs[?k := (?e * ?idx ! i + ?e div dim_sharding (?ds ! j) * ?idx ! j,
      ?e * ?idx ! i + ?e div dim_sharding (?ds ! j) * ?idx ! j + ?e div dim_sharding (?ds ! j) - 1)]))"
    using nth e ext size idx
    by (intro SliceDim_spans) (auto simp: tile_span_def Let_def)
  moreover have "tile_box r s = spans_rect (length ?xs) ?xs"
    using ne by (simp add: tile_box_def box_of_def spans_rect_def)
  moreover have "fst (?xs ! ?k) = ?e * ?idx ! i" using nth by (simp add: tile_span_def Let_def)
  ultimately show ?thesis by (simp add: replica_slice_def Let_def)
qed

lemma in_replica_slice:
  assumes ok: "slicing_ok s j i" and r: "0 \<le> r" "r < dl_size (sh_devices s)"
    and p: "array_point s p"
  defines "e \<equiv> dim_size (sh_dims s ! i) div dim_sharding (sh_dims s ! i)"
  defines "a \<equiv> p ! length (real_dims (take i (sh_dims s))) mod e div (e div dim_sharding (sh_dims s ! j))"
  shows "in_rect (replica_slice s j i r) p \<longleftrightarrow> in_rect (tile_box r s) p \<and> tile_index r s ! j = a"
proof -
  let ?ds = "sh_dims s" and ?idx = "tile_index r s"
  let ?xs = "tile_spans ?ds ?idx" and ?k = "length (real_dims (take i (sh_dims s)))"
  let ?R = "dim_sharding (?ds ! j)" and ?x = "?idx ! j"
  have s: "sharding_ok s" and j: "j < length ?ds" "is_repl_dim (?ds ! j)"
    and i: "i < length ?ds" "\<not> is_repl_dim (?ds ! i)"
    using ok by (simp_all add: slicing_ok_def)
  note e = slicing_okD[OF ok, folded e_def]
  have idx: "0 \<le> ?x" "?x < ?R"
    using tile_index_in_range[OF s r] j(1) by (auto simp: index_in_range_nth)
  note nth = tile_spans_nth[of ?idx ?ds i, OF length_tile_index i]
  let ?lo = "e * ?idx ! i"
  have xk: "?xs ! ?k = (?lo, ?lo + e - 1)" using nth by (simp add: tile_span_def Let_def e_def)
  let ?s = "e div ?R"
  have Rs: "?R * ?s = e" using e(3) by simp
  then have "0 < ?R * ?s" using e(1) by simp
  then have s1: "0 < ?s" using e(2) by (simp only: zero_less_mult_iff) linarith
  have "?s * ?x + ?s \<le> ?s * ?R"
    using idx s1 mult_left_mono[of "?x + 1" ?R ?s] by (simp add: algebra_simps)
  then have le: "?s * ?x + ?s \<le> e" using Rs by (simp add: mult.commute)
  have sx: "0 \<le> ?s * ?x" using s1 idx by simp
  have ne: "?xs \<noteq> []" using nth by auto
  have box: "tile_box r s = spans_rect (length ?xs) ?xs"
    using ne by (simp add: tile_box_def box_of_def spans_rect_def)
  have "replica_slice s j i r = spans_rect (length ?xs)
      (?xs[?k := (?lo + ?s * ?x, ?lo + ?s * ?x + ?s - 1)])"
    using xk by (simp add: replica_slice_def Let_def e_def)
  then have "in_rect (replica_slice s j i r) p \<longleftrightarrow>
      in_spans (?xs[?k := (?lo + ?s * ?x, ?lo + ?s * ?x + ?s - 1)]) p"
    using in_rect_spans[of "?xs[?k := (?lo + ?s * ?x, ?lo + ?s * ?x + ?s - 1)]" p] by simp
  also have "\<dots> \<longleftrightarrow> in_spans ?xs p \<and> ?lo + ?s * ?x \<le> p ! ?k \<and> p ! ?k \<le> ?lo + ?s * ?x + ?s - 1"
    by (rule in_spans_update[OF conjunct1[OF nth] xk]) (use sx le in auto)
  also have "\<dots> \<longleftrightarrow> in_spans ?xs p \<and> ?x = a"
  proof (rule conj_cong[OF refl])
    assume "in_spans ?xs p"
    then have "?lo \<le> p ! ?k" "p ! ?k \<le> ?lo + e - 1"
      using in_spans_nth[OF _ conjunct1[OF nth] xk] by auto
    then have "p ! ?k mod e = p ! ?k - ?lo"
      using quot_small(2)[of "p ! ?k - ?lo" e "?idx ! i"] by (simp add: mult.commute)
    then have a: "a = (p ! ?k - ?lo) div ?s" by (simp add: a_def)
    show "?lo + ?s * ?x \<le> p ! ?k \<and> p ! ?k \<le> ?lo + ?s * ?x + ?s - 1 \<longleftrightarrow> ?x = a"
    proof
      assume b: "?lo + ?s * ?x \<le> p ! ?k \<and> p ! ?k \<le> ?lo + ?s * ?x + ?s - 1"
      then show "?x = a"
        using quot_small(1)[of "p ! ?k - ?lo - ?s * ?x" ?s ?x] by (simp add: a algebra_simps)
    next
      assume xa: "?x = a"
      have "?s * ((p ! ?k - ?lo) div ?s) + (p ! ?k - ?lo) mod ?s = p ! ?k - ?lo" by simp
      moreover have "0 \<le> (p ! ?k - ?lo) mod ?s" "(p ! ?k - ?lo) mod ?s < ?s" using s1 by simp_all
      ultimately show "?lo + ?s * ?x \<le> p ! ?k \<and> p ! ?k \<le> ?lo + ?s * ?x + ?s - 1"
        unfolding xa a by linarith
    qed
  qed
  finally show ?thesis by (simp add: box in_rect_spans)
qed

lemma owner_sets_card_one:
  assumes "sharding_ok s" and "j < length (sh_dims s)" and "is_repl_dim (sh_dims s ! j)"
  shows "card (listset ((owner_sets (sh_dims s) p)[j := {a}])) = 1"
proof -
  have "card ((owner_sets ds p)[j := {a}] ! i) = 1"
    if "length (filter is_repl_dim ds) \<le> 1" "j < length ds" "is_repl_dim (ds ! j)" "i < length ds"
    for ds p j i
    using that
  proof (induction ds p arbitrary: i j rule: owner_sets.induct)
    case (2 d ds p)
    show ?case
    proof (cases "is_repl_dim d")
      case True
      then have none: "filter is_repl_dim ds = []" using 2(3) by simp
      have j0: "j = 0"
      proof (rule ccontr)
        assume "j \<noteq> 0"
        then have "ds ! (j - 1) \<in> set ds" "is_repl_dim (ds ! (j - 1))" using 2(4,5) by (auto simp: nth_Cons')
        then show False using none by (auto simp: filter_empty_conv)
      qed
      have "card (owner_sets es q ! n) = 1" if "filter is_repl_dim es = []" "n < length es" for es q n
        using that by (induction es q arbitrary: n rule: owner_sets.induct) (auto simp: nth_Cons' split: if_splits)
      then show ?thesis using True none j0 2(6) by (cases i) auto
    next
      case False
      then obtain j' where "j = Suc j'" using 2(5) by (cases j) auto
      then show ?thesis using 2 False by (cases i) auto
    qed
  qed simp
  then have "map card ((owner_sets (sh_dims s) p)[j := {a}]) = replicate (length (sh_dims s)) 1"
    using assms sharding_ok_repl[OF assms(1)] by (intro nth_equalityI) auto
  then show ?thesis by (simp add: card_listset)
qed

lemma card_replica_slices:
  assumes ok: "slicing_ok s j i" and p: "array_point s p"
  shows "card {r. 0 \<le> r \<and> r < dl_size (sh_devices s) \<and> in_rect (replica_slice s j i r) p} = 1"
proof -
  have s: "sharding_ok s" and j: "j < length (sh_dims s)" "is_repl_dim (sh_dims s ! j)"
    and i: "i < length (sh_dims s)" "\<not> is_repl_dim (sh_dims s ! i)"
    using ok by (simp_all add: slicing_ok_def)
  let ?e = "dim_size (sh_dims s ! i) div dim_sharding (sh_dims s ! i)"
  let ?R = "dim_sharding (sh_dims s ! j)"
  define a where "a = p ! length (real_dims (take i (sh_dims s))) mod ?e div (?e div ?R)"
  have ne: "real_dims (sh_dims s) \<noteq> []"
    using i nth_mem[of i "sh_dims s"] by (auto simp: filter_empty_conv)
  let ?A = "listset ((owner_sets (sh_dims s) p)[j := {a}])"
  note e = slicing_okD[OF ok]
  have Rs: "?R * (?e div ?R) = ?e" using e(3) by simp
  then have "0 < ?R * (?e div ?R)" using e(1) by simp
  then have s1: "0 < ?e div ?R" using e(2) by (simp only: zero_less_mult_iff) linarith
  have lp: "length p = length (real_dims (sh_dims s))"
    using p ne in_radix_length[of _ p] by (auto simp: array_point_def)
  have "?e = ?e div ?R * ?R" using e(3) by simp
  then have "p ! length (real_dims (take i (sh_dims s))) mod ?e < ?R * (?e div ?R)"
    using e(1) by (simp only: Rs) simp
  then have a: "0 \<le> a" "a < ?R"
    using s1 e(1) unfolding a_def by (simp_all add: pos_imp_zdiv_nonneg_iff div_less_of_less_mult)
  have oj: "owner_sets (sh_dims s) p ! j = {0..<?R}" using owner_sets_nth[OF j(1) lp] j(2) by simp
  have A: "idx \<in> ?A \<longleftrightarrow> idx \<in> listset (owner_sets (sh_dims s) p) \<and> idx ! j = a" for idx
    using j(1) oj a by (auto simp: in_listset nth_list_update)
  have "in_rect (replica_slice s j i r) p \<longleftrightarrow> tile_index r s \<in> ?A"
    if "0 \<le> r" "r < dl_size (sh_devices s)" for r
    unfolding A using in_replica_slice[OF ok that p, folded a_def] in_tile_box_owner[OF s that p] ne
    by simp
  then have "{r. 0 \<le> r \<and> r < dl_size (sh_devices s) \<and> in_rect (replica_slice s j i r) p} =
      {r. 0 \<le> r \<and> r < dl_size (sh_devices s) \<and> tile_index r s \<in> ?A}" by auto
  also have "card \<dots> = card ?A"
    using A owner_in_range[OF s p] ne by (intro card_shards_with[OF s]) auto
  also have "\<dots> = 1" by (rule owner_sets_card_one[OF s j])
  finally show ?thesis .
qed

text \<open>The configuration: every shard's slice, in the order of the shards.\<close>

lemma partial_config_ok:
  assumes ok: "slicing_ok s j i" and rank: "rank_supported max_dim s"
    and first: "first_slice_dim (dim_sharding (sh_dims s ! j)) 0 (sh_dims s) =
      Some (length (real_dims (take i (sh_dims s))))"
  shows "DeterminePartialToReplicatedConfig max_dim p s dst = ret (GatherShardsC
    \<lparr>gs_src_shard = dl_shard_id (sh_devices s) (global_id p),
     gs_dst_shard = dl_shard_id (sh_devices dst) (global_id p),
     source_to_target_bounds =
       map_option (replica_slice s j i) (dl_shard_id (sh_devices s) (global_id p)),
     target_from_source_bounds =
       map (replica_slice s j i) (upto64 (dl_size (sh_devices s)))\<rparr>)"
proof -
  let ?ds = "sh_dims s" and ?k = "int (length (real_dims (take i (sh_dims s))))"
  let ?R = "dim_sharding (?ds ! j)"
  have s: "sharding_ok s" and j: "j < length ?ds" "is_repl_dim (?ds ! j)"
    using ok by (simp_all add: slicing_ok_def)
  have rd: "find_replicated 0 ?ds = int j"
    using find_replicated_ok[OF j sharding_ok_repl[OF s], of 0] by simp
  have at_j: "vec_at ?ds (int j) = ret (?ds ! j)" using j(1) by (simp add: vec_at_nth)
  have R1: "1 \<le> ?R" using j(2) by (simp add: is_repl_dim_def)
  have "?ds ! j \<in> set (filter is_repl_dim ?ds)" using j by simp
  then have "filter is_repl_dim ?ds = [?ds ! j]"
    using sharding_ok_repl[OF s] by (cases "filter is_repl_dim ?ds") auto
  then have repl: "replication s = ?R" by (simp add: replication_def)
  have "dim_sharding d * ?R \<le> int64_max" if "d \<in> set ?ds" "\<not> is_repl_dim d" for d
  proof -
    have "dim_sharding d \<le> tiles s"
      unfolding tiles_def using that sharding_ok_dim[OF s] dim_ok_ge1
      by (intro prod_list_member_le) auto
    then have "dim_sharding d * ?R \<le> tiles s * ?R" using R1 by (intro mult_right_mono) auto
    then show ?thesis using tiles_times_replication[OF s] repl devices_ok[OF s] by simp
  qed
  then have slice: "find_slice_dim ?R ?ds = ret (Some ?k)"
    using find_slice_dim_ok[of ?ds ?R] sharding_ok_dim[OF s] dim_size_int64[OF s] R1 first by simp
  have index: "vec_at (tile_index r s) (int j) = ret (tile_index r s ! j)" for r
    using j(1) by (simp add: vec_at_nth)
  note facts = ComputeTileIndex_ok[OF s] ComputeTileBounds_ok[OF s _ _ rank] replica_slice_ok[OF ok] index
  have src: "(case dl_shard_id (sh_devices s) (global_id p) of
               Some shard \<Rightarrow>
                 andThen (ComputeTileIndex shard s) (\<lambda>index.
                 andThen (vec_at index (int j)) (\<lambda>replica_number.
                 andThen (ComputeTileBounds max_dim shard s) (\<lambda>unsliced_bounds.
                 andThen (SliceDim unsliced_bounds replica_number ?R ?k) (\<lambda>b.
                 ret (Some b)))))
             | None \<Rightarrow> ret None) =
      ret (map_option (replica_slice s j i) (dl_shard_id (sh_devices s) (global_id p)))"
    using shard_range[of "sh_devices s" "global_id p"]
    by (cases "dl_shard_id (sh_devices s) (global_id p)") (simp_all add: facts)
  have loop: "mapR (\<lambda>shard.
                 andThen (ComputeTileBounds max_dim shard s) (\<lambda>unsliced_bounds.
                 andThen (ComputeTileIndex shard s) (\<lambda>index.
                 andThen (vec_at index (int j)) (\<lambda>replica_number.
                 SliceDim unsliced_bounds replica_number ?R ?k))))
               (upto64 (dl_size (sh_devices s))) =
      ret (map (replica_slice s j i) (upto64 (dl_size (sh_devices s))))"
    by (rule mapR_pure) (simp add: facts)
  show ?thesis
    unfolding DeterminePartialToReplicatedConfig_def Let_def rd
    by (simp add: at_j slice src loop reserve64_ok[OF dl_size_nonneg[OF s]])
qed

text \<open>
  C7. Gathering a partially replicated array. When no real dimension can be cut into as many
  further pieces as there are replicas, every device finds the resharding unsupported. Otherwise the
  replicas share the work: in the list of boxes each element of the array occurs in exactly one
  box, and the box a sender copies is the receivers' entry for its shard.
\<close>

theorem partial_to_replicated:
  assumes s: "sharding_ok src" and rank: "rank_supported max_dim src"
    and partial: "IsPartiallyReplicated src = ret True" and x: "array_point src x"
  shows "if list_ex (\<lambda>d. \<not> is_repl_dim d \<and>
            dim_size d mod (dim_sharding d * replication src) = 0) (sh_dims src)
    then \<exists>cp cq. DeterminePartialToReplicatedConfig max_dim p src dst = ret (GatherShardsC cp) \<and>
      DeterminePartialToReplicatedConfig max_dim q src dst = ret (GatherShardsC cq) \<and>
      length (target_from_source_bounds cq) = nat (dl_size (sh_devices src)) \<and>
      length (filter (\<lambda>b. in_rect b x) (target_from_source_bounds cq)) = 1 \<and>
      (\<forall>i. gs_src_shard cp = Some i \<longrightarrow>
         source_to_target_bounds cp = Some (target_from_source_bounds cq ! nat i))
    else DeterminePartialToReplicatedConfig max_dim p src dst = ret UnsupportedConfig"
proof -
  let ?ds = "sh_dims src" and ?D = "dl_size (sh_devices src)"
  have "tiles src < ?D" using partial by (simp add: IsPartiallyReplicated_ok[OF s])
  then have "replication src \<noteq> 1" using tiles_times_replication[OF s] by auto
  then have "filter is_repl_dim ?ds \<noteq> []" by (auto simp: replication_def)
  then obtain d where d: "filter is_repl_dim ?ds = [d]"
    using sharding_ok_repl[OF s] by (cases "filter is_repl_dim ?ds") auto
  have "d \<in> set ?ds" "is_repl_dim d" using filter_eq_ConsD[OF d] by auto
  then obtain j where j: "j < length ?ds" "?ds ! j = d" by (auto simp: in_set_conv_nth)
  have R: "replication src = dim_sharding (?ds ! j)" by (simp add: replication_def d j)
  have R1: "1 \<le> replication src" by (rule replication_ge1[OF s])
  have rd: "find_replicated 0 ?ds = int j"
    using find_replicated_ok[OF j(1) _ sharding_ok_repl[OF s], of 0] j(2) \<open>is_repl_dim d\<close> by simp
  show ?thesis
  proof (cases "first_slice_dim (replication src) 0 ?ds")
    case None
    have "dim_sharding d' * replication src \<le> int64_max" if "d' \<in> set ?ds" "\<not> is_repl_dim d'" for d'
    proof -
      have "dim_sharding d' \<le> tiles src"
        unfolding tiles_def using that sharding_ok_dim[OF s] dim_ok_ge1
        by (intro prod_list_member_le) auto
      then have "dim_sharding d' * replication src \<le> tiles src * replication src"
        using R1 by (intro mult_right_mono) auto
      then show ?thesis using tiles_times_replication[OF s] devices_ok[OF s] by simp
    qed
    then have "find_slice_dim (replication src) ?ds = ret None"
      using find_slice_dim_ok[of ?ds "replication src"] sharding_ok_dim[OF s] dim_size_int64[OF s] R1 None
      by simp
    then have "DeterminePartialToReplicatedConfig max_dim p src dst = ret UnsupportedConfig"
      using j(1) by (simp add: DeterminePartialToReplicatedConfig_def rd vec_at_nth Let_def R)
    then show ?thesis using None by (simp add: first_slice_dim_None)
  next
    case (Some m)
    obtain i where i: "i < length ?ds" "\<not> is_repl_dim (?ds ! i)" "m = length (real_dims (take i ?ds))"
      "dim_size (?ds ! i) mod (dim_sharding (?ds ! i) * replication src) = 0"
      using first_slice_dim_Some[OF Some] by auto
    have ok: "slicing_ok src j i"
      using s j \<open>is_repl_dim d\<close> i R by (simp add: slicing_ok_def)
    note cfg = partial_config_ok[OF ok rank Some[unfolded i(3) R]]
    have "length (filter (\<lambda>b. in_rect b x) (map (replica_slice src j i) (upto64 ?D))) = 1"
      using card_replica_slices[OF ok x] by (simp add: filter_map comp_def count_upto64)
    moreover have "map (replica_slice src j i) (upto64 ?D) ! nat n = replica_slice src j i n"
      if "dl_shard_id (sh_devices src) (global_id p) = Some n" for n
      using shard_range[OF that] by (simp add: nat_less_iff)
    ultimately show ?thesis
      using cfg Some first_slice_dim_None[of "replication src" 0 ?ds]
      by (simp add: dl_shard_id_def)
  qed
qed

theorem partial_to_replicated_witness:
  "\<exists>cp cq. DeterminePartialToReplicatedConfig 3 (test_processor 5) example_sharding sg_example_dst =
      ret (GatherShardsC cp) \<and>
    DeterminePartialToReplicatedConfig 3 (test_processor 30) example_sharding sg_example_dst =
      ret (GatherShardsC cq) \<and>
    length (filter (\<lambda>b. in_rect b [5, 7]) (target_from_source_bounds cq)) = 1"
proof -
  have "tiles example_sharding = 6"
    by (simp add: tiles_def example_sharding_def is_repl_dim_def)
  then have partial: "IsPartiallyReplicated example_sharding = ret True"
    by (simp add: IsPartiallyReplicated_ok[OF example_sharding_ok])
      (simp add: example_sharding_def)
  have facts: "rank_supported 3 example_sharding" "array_point example_sharding [5, 7]"
    "list_ex (\<lambda>d. \<not> is_repl_dim d \<and>
       dim_size d mod (dim_sharding d * replication example_sharding) = 0) (sh_dims example_sharding)"
    by (simp_all add: rank_supported_def array_point_def replication_def example_sharding_def
        is_repl_dim_def)
  from partial_to_replicated[OF example_sharding_ok facts(1) partial facts(2),
      of "test_processor 5" sg_example_dst "test_processor 30"]
  show ?thesis using facts(3) by (simp only: if_True) blast
qed

section \<open>Agreement on the protocol\<close>

text \<open>
  What the devices of a resharding have to agree on: a protocol, or that a device does nothing while
  the others run the point-to-point protocol.
\<close>

datatype protocol_family =
  Unsupported | Pairwise | Idle | Scatter_Gather_Dim | Broadcast_Trees | Gather_All | Scatter_All

fun protocol_of :: "reshard_config \<Rightarrow> protocol_family" where
  "protocol_of UnsupportedConfig = Unsupported"
| "protocol_of PointToPointConfig = Pairwise"
| "protocol_of NoOpConfig = Idle"
| "protocol_of (ScatterGatherC _) = Scatter_Gather_Dim"
| "protocol_of (BroadcastC _) = Broadcast_Trees"
| "protocol_of (GatherShardsC _) = Gather_All"
| "protocol_of (ScatterShardsC _) = Scatter_All"

definition protocols_fit :: "reshard_config \<Rightarrow> reshard_config \<Rightarrow> bool" where
  "protocols_fit c c' \<longleftrightarrow> protocol_of c = protocol_of c' \<or>
     {protocol_of c, protocol_of c'} = {Pairwise, Idle}"

text \<open>
  A device takes part in the exchange of pairs when it holds a shard of the target, or a shard of the
  source whose number is also the number of a shard of the target.
\<close>

definition has_pair_part :: "processor \<Rightarrow> sharding \<Rightarrow> sharding \<Rightarrow> bool" where
  "has_pair_part p src dst \<longleftrightarrow> dl_shard_id (sh_devices dst) (global_id p) \<noteq> None \<or>
     (\<exists>i. dl_shard_id (sh_devices src) (global_id p) = Some i \<and> i < dl_size (sh_devices dst))"

lemma partial_protocol_of:
  assumes "DeterminePartialToReplicatedConfig max_dim p src dst = ret c"
  shows "\<exists>rd slice_dim. vec_at (sh_dims src) (find_replicated 0 (sh_dims src)) = ret rd \<and>
    find_slice_dim (dim_sharding rd) (sh_dims src) = ret slice_dim \<and>
    protocol_of c = (if slice_dim = None then Unsupported else Gather_All)"
proof -
  obtain rd slice_dim where cut: "vec_at (sh_dims src) (find_replicated 0 (sh_dims src)) = ret rd"
    "find_slice_dim (dim_sharding rd) (sh_dims src) = ret slice_dim"
    using assms by (auto simp: DeterminePartialToReplicatedConfig_def Let_def andThen_eq_ret)
  have "protocol_of c = (if slice_dim = None then Unsupported else Gather_All)"
    using assms cut
    by (cases slice_dim) (auto simp: DeterminePartialToReplicatedConfig_def Let_def andThen_eq_ret)
  with cut show ?thesis by blast
qed

lemma partial_protocol:
  "DeterminePartialToReplicatedConfig max_dim p src dst = ret c \<Longrightarrow>
   DeterminePartialToReplicatedConfig max_dim q src dst = ret c' \<Longrightarrow> protocol_of c = protocol_of c'"
  using partial_protocol_of[of max_dim p src dst c] partial_protocol_of[of max_dim q src dst c']
  by auto

lemma scatter_gather_protocol:
  assumes "DetermineScatterGatherConfig max_dim p src dst = ret c"
    and "DetermineScatterGatherConfig max_dim q src dst = ret c'"
  shows "protocol_of c = protocol_of c' \<and> protocol_of c \<noteq> Pairwise \<and> protocol_of c \<noteq> Idle"
  using assms
  by (auto simp: DetermineScatterGatherConfig_def Let_def andThen_eq_ret split: if_splits)

lemma lift_option_ret:
  "lift_option f m = Some (ret c) \<Longrightarrow> \<exists>x. c = f x"
  by (auto simp: lift_option_def andThen_eq_ret)

lemma replicated_protocol:
  assumes "DetermineShardingConfigFullyReplicated p src dst = Some (ret c)"
    and "DetermineShardingConfigFullyReplicated q src dst = Some (ret c')"
  shows "protocols_fit c c'"
  using assms
  by (auto simp: DetermineShardingConfigFullyReplicated_def Let_def protocols_fit_def
      dest!: lift_option_ret split: if_splits)

lemma replicated_part:
  assumes "DetermineShardingConfigFullyReplicated p src dst = Some (ret c)"
    and "dl_contains (sh_devices src) (global_id p) \<or> dl_contains (sh_devices dst) (global_id p)"
  shows "protocol_of c = Pairwise \<longrightarrow> has_pair_part p src dst"
    and "protocol_of c = Idle \<longrightarrow> \<not> has_pair_part p src dst"
  using assms
  by (auto simp: DetermineShardingConfigFullyReplicated_def Let_def has_pair_part_def dl_shard_id_def
      dest!: lift_option_ret split: if_splits)

lemma if_config_agree:
  assumes "if_config b x y = Some (ret c)" and "if_config b x' y' = Some (ret c')"
    and "x = Some (ret c) \<Longrightarrow> x' = Some (ret c') \<Longrightarrow> P"
    and "y = Some (ret c) \<Longrightarrow> y' = Some (ret c') \<Longrightarrow> P"
  shows P
  using assms by (auto simp: if_config_def split: sum.splits if_splits)

lemma last_case_protocol:
  assumes "(if different then Some (ret (DetermineShardingConfigReplicationChange p src dst))
     else if same then Some (ret PointToPointConfig)
     else Some (DetermineScatterGatherConfig max_dim p src dst)) = Some (ret c)"
    and "(if different then Some (ret (DetermineShardingConfigReplicationChange q src dst))
     else if same then Some (ret PointToPointConfig)
     else Some (DetermineScatterGatherConfig max_dim q src dst)) = Some (ret c')"
  shows "protocol_of c = protocol_of c'"
  using assms scatter_gather_protocol[of max_dim p src dst c q c']
  by (auto simp: DetermineShardingConfigReplicationChange_def split: if_splits)

lemma config_protocols_fit:
  assumes "DetermineShardingConfig max_dim p src dst = Some (ret c)"
    and "DetermineShardingConfig max_dim q src dst = Some (ret c')"
  shows "protocols_fit c c'"
proof (rule if_config_agree[OF assms[unfolded DetermineShardingConfig_def]], goal_cases)
  case 1
  then show ?case by (auto simp: andThen_eq_ret protocols_fit_def)
next
  case 2
  then show ?case
  proof (rule if_config_agree, goal_cases)
    case 2
    then show ?case
    proof (rule if_config_agree, goal_cases)
      case 1
      then show ?case by (rule replicated_protocol)
    next
      case 2
      then show ?case
      proof (rule if_config_agree, goal_cases)
        case 1
        then show ?case using partial_protocol unfolding protocols_fit_def by blast
      next
        case 2
        then show ?case unfolding protocols_fit_def by (intro disjI1 last_case_protocol)
      qed
    qed
  qed (auto simp: protocols_fit_def)
qed

lemma same_devices_part:
  assumes "dl_contains (sh_devices src) (global_id p) \<or> dl_contains (sh_devices dst) (global_id p)"
    and "dl_size (sh_devices src) = dl_size (sh_devices dst)"
  shows "has_pair_part p src dst"
  using assms by (auto simp: has_pair_part_def dl_shard_id_def dl_defs)

lemma config_pair_part:
  assumes "DetermineShardingConfig max_dim p src dst = Some (ret c)"
    and member: "dl_contains (sh_devices src) (global_id p) \<or> dl_contains (sh_devices dst) (global_id p)"
  shows "(protocol_of c = Pairwise \<longrightarrow> has_pair_part p src dst) \<and>
    (protocol_of c = Idle \<longrightarrow> \<not> has_pair_part p src dst)"
proof (rule if_config_agree[OF assms(1)[unfolded DetermineShardingConfig_def]
      assms(1)[unfolded DetermineShardingConfig_def]], goal_cases)
  case 1
  then show ?case by (auto simp: andThen_eq_ret)
next
  case 2
  then show ?case
  proof (rule if_config_agree, goal_cases)
    case 2
    then show ?case
    proof (rule if_config_agree, goal_cases)
      case 1
      then show ?case using replicated_part member by blast
    next
      case 2
      then show ?case
      proof (rule if_config_agree, goal_cases)
        case 1
        then show ?case using partial_protocol_of[of max_dim p src dst c] by (auto split: if_splits)
      next
        case 2
        then show ?case
          using same_devices_part[OF member] scatter_gather_protocol[of max_dim p src dst c p c]
          by (auto simp: DetermineShardingConfigReplicationChange_def split: if_splits)
      qed
    qed
  qed auto
qed

text \<open>
  C8. The devices agree on the protocol: for any two shardings, any two devices whose decisions
  succeed run the same protocol, or one runs the point-to-point protocol and the other has nothing to
  do. A device of the two meshes that runs the point-to-point protocol has a part in it and one that
  does nothing has none: it holds no shard of the target, and no shard of the source with the number
  of a shard of the target. So no device waits for a partner that runs another protocol or none.
\<close>

theorem protocol_agreement:
  assumes "DetermineShardingConfig max_dim p src dst = Some (ret c)"
    and "DetermineShardingConfig max_dim q src dst = Some (ret c')"
  shows "(protocol_of c = protocol_of c' \<or> {protocol_of c, protocol_of c'} = {Pairwise, Idle}) \<and>
    (dl_contains (sh_devices src) (global_id p) \<or> dl_contains (sh_devices dst) (global_id p) \<longrightarrow>
      (protocol_of c = Pairwise \<longrightarrow> has_pair_part p src dst) \<and>
      (protocol_of c = Idle \<longrightarrow> \<not> has_pair_part p src dst))"
  using config_protocols_fit[OF assms] config_pair_part[OF assms(1)] unfolding protocols_fit_def by blast

text \<open>Eight replicas sent to a mesh of two devices: device 3 has a partner there, device 9 has none.\<close>

lemma smaller_mesh_config:
  "DetermineShardingConfig 3 p bcast_example_dst \<lparr>sh_dims = sh_dims bcast_example_src, sh_devices = dl_ctor 20 2\<rparr> =
     DetermineShardingConfigFullyReplicated p bcast_example_dst
       \<lparr>sh_dims = sh_dims bcast_example_src, sh_devices = dl_ctor 20 2\<rparr>"
proof -
  have "TotalSharding bcast_example_dst = ret 1"
    "TotalSharding \<lparr>sh_dims = sh_dims bcast_example_src, sh_devices = dl_ctor 20 2\<rparr> = ret 1"
    "dl_size (sh_devices bcast_example_dst) = 8"
    by (simp_all add: TotalSharding_def bcast_example_src_def bcast_example_dst_def mul64_def chk_def)
  then show ?thesis
    by (simp add: DetermineShardingConfig_def FullySharded_def IsReplicated_def both_hold_def if_config_def)
qed

theorem protocol_agreement_witness:
  "let dst = \<lparr>sh_dims = sh_dims bcast_example_src, sh_devices = dl_ctor 20 2\<rparr>;
       p = test_processor 3; q = test_processor 9 in
   \<exists>c c'. DetermineShardingConfig 3 p bcast_example_dst dst = Some (ret c) \<and>
     DetermineShardingConfig 3 q bcast_example_dst dst = Some (ret c') \<and>
     has_pair_part p bcast_example_dst dst \<and> \<not> has_pair_part q bcast_example_dst dst"
proof -
  let ?src = bcast_example_dst
  let ?dst = "\<lparr>sh_dims = sh_dims bcast_example_src, sh_devices = dl_ctor 20 2\<rparr>"
  have dev: "sh_devices ?src = dl_ctor 2 8" by (simp add: bcast_example_dst_def)
  have p: "DetermineShardingConfig 3 (test_processor 3) ?src ?dst = Some (ret PointToPointConfig)"
    and q: "DetermineShardingConfig 3 (test_processor 9) ?src ?dst = Some (ret NoOpConfig)"
    unfolding smaller_mesh_config
    by (simp_all add: DetermineShardingConfigFullyReplicated_def dev test_processor_def dl_defs)
  have "dl_contains (sh_devices ?src) (global_id (test_processor 3))"
    "dl_contains (sh_devices ?src) (global_id (test_processor 9))"
    by (simp_all add: dev test_processor_def dl_defs)
  then have "has_pair_part (test_processor 3) ?src ?dst" "\<not> has_pair_part (test_processor 9) ?src ?dst"
    using protocol_agreement[OF p q] protocol_agreement[OF q p] by simp_all
  then show ?thesis using p q by (simp add: Let_def)
qed

text \<open>
  On overlapping meshes the pairing breaks: with sources 0 to 3 and targets 2 and 3, device 2 sends
  its shard 2, which no target expects.
\<close>

lemma replicated_overlap:
  "dl_size (sh_devices dst) = 2 \<Longrightarrow> sh_devices dst = dl_ctor 2 2 \<Longrightarrow> sh_devices src = dl_ctor 0 4 \<Longrightarrow>
   DetermineShardingConfigFullyReplicated (test_processor 2) src dst = Some (ret PointToPointConfig) \<and>
   dl_shard_id (sh_devices src) 2 = Some 2"
  by (simp add: DetermineShardingConfigFullyReplicated_def test_processor_def dl_defs)

end
