(* ===== verification/Reshard_Exec.thy ===== *)
theory Reshard_Exec
  imports Reshard_Manager Reshard_Config
begin

text \<open>
  The protocols at work: \<open>src/zuku/reshard_point_to_point.cc\<close>, \<open>reshard_scatter_gather.cc\<close>,
  \<open>reshard_broadcast.cc\<close>, \<open>reshard_gather_shards.cc\<close>, \<open>reshard_scatter_shards.cc\<close>, and
  \<open>Reshard\<close> of \<open>reshard.cc\<close>, which chooses one. A device reads its source through a view that the
  protocol takes by value: the view is destroyed when the function that owns it returns, and that
  tells the source's store that the reads are done. The state is the process's manager and the trace.
\<close>

section \<open>Loops\<close>

text \<open>
  The state of a loop: the events so far (a \<open>std::set\<close>), the manager, the trace. One round sends or
  receives one slice.
\<close>

definition slice_key :: "sharded_array \<Rightarrow> sharded_array \<Rightarrow> int \<Rightarrow> int \<Rightarrow> reshard_key" where
  "slice_key src dst src_shard dst_shard = \<lparr>key_src_id = unique_id_of src, key_dst_id = unique_id_of dst,
     key_src_shard = src_shard, key_dst_shard = dst_shard\<rparr>"

definition send_slice ::
  "realm \<Rightarrow> machine \<Rightarrow> proc_tables \<Rightarrow> processor \<Rightarrow> rect \<Rightarrow> reshard_key \<Rightarrow> sharded_array view \<Rightarrow>
   sharded_array \<Rightarrow> event set \<times> reshard_manager \<times> 'z runtime_scheme \<Rightarrow>
   (event set \<times> reshard_manager \<times> 'z runtime_scheme) res" where
  "send_slice rl m t p bounds key src dst st =
     (case st of (events, mgr, w) \<Rightarrow>
        andThen (ReshardFromLocalSource rl m t p bounds key src dst mgr w) (\<lambda>(copy, mgr', w').
        ret (insert copy events, mgr', w')))"

definition receive_slice ::
  "realm \<Rightarrow> machine \<Rightarrow> proc_tables \<Rightarrow> processor \<Rightarrow> rect \<Rightarrow> reshard_key \<Rightarrow> sharded_array \<Rightarrow>
   sharded_array store \<Rightarrow> event set \<times> reshard_manager \<times> 'z runtime_scheme \<Rightarrow>
   (event set \<times> reshard_manager \<times> 'z runtime_scheme) res" where
  "receive_slice rl m t p bounds key src dst st =
     (case st of (events, mgr, w) \<Rightarrow>
        andThen (ReshardToLocalTarget rl m t p bounds key src dst mgr w) (\<lambda>(copy, mgr', w').
        ret (insert copy events, mgr', w')))"

definition done_after_all ::
  "realm \<Rightarrow> sharded_array view \<Rightarrow> event set \<times> reshard_manager \<times> 'z runtime_scheme \<Rightarrow>
   sharded_array view \<times> reshard_manager \<times> 'z runtime_scheme" where
  \<comment> \<open>\<open>src.DoneAfter(merge_events(all_events))\<close>\<close>
  "done_after_all rl src st =
     (case st of (events, mgr, w) \<Rightarrow>
        (let (done, w') = merge_set rl events w in (view_DoneAfter done src, mgr, w')))"

definition ready_after_all ::
  "realm \<Rightarrow> sharded_array store \<Rightarrow> event set \<times> reshard_manager \<times> 'z runtime_scheme \<Rightarrow>
   sharded_array store \<times> reshard_manager \<times> 'z runtime_scheme" where
  \<comment> \<open>\<open>dst.ReadyAfter(merge_events(all_events))\<close>\<close>
  "ready_after_all rl dst st =
     (case st of (events, mgr, w) \<Rightarrow>
        (let (ready, w1) = merge_set rl events w; (dst', w2) = store_ReadyAfter rl ready dst w1
         in (dst', mgr, w2)))"

section \<open>Point to point\<close>

definition p2p_FromLocalSource ::
  "realm \<Rightarrow> machine \<Rightarrow> proc_tables \<Rightarrow> processor \<Rightarrow> rect \<Rightarrow> sharded_array view \<Rightarrow> sharded_array \<Rightarrow>
   int \<Rightarrow> int \<Rightarrow> reshard_manager \<Rightarrow> 'z runtime_scheme \<Rightarrow>
   (event \<times> reshard_manager \<times> 'z runtime_scheme) res" where
  "p2p_FromLocalSource rl m t p shape src dst src_shard dst_shard mgr w =
     andThen (view_get src) (\<lambda>sa.
     andThen (ReshardFromLocalSource rl m t p shape (slice_key sa dst src_shard dst_shard) src dst mgr w)
       (\<lambda>(postcondition, mgr', w1).
     andThen (view_destroy rl t (view_DoneAfter postcondition src) w1) (\<lambda>w2.
     ret (postcondition, mgr', w2))))"

definition p2p_ToLocalTarget ::
  "realm \<Rightarrow> machine \<Rightarrow> proc_tables \<Rightarrow> processor \<Rightarrow> rect \<Rightarrow> sharded_array \<Rightarrow> sharded_array store \<Rightarrow>
   int \<Rightarrow> int \<Rightarrow> reshard_manager \<Rightarrow> 'z runtime_scheme \<Rightarrow>
   (event \<times> sharded_array store \<times> reshard_manager \<times> 'z runtime_scheme) res" where
  "p2p_ToLocalTarget rl m t p shape src dst src_shard dst_shard mgr w =
     andThen (store_get dst) (\<lambda>da.
     andThen (ReshardToLocalTarget rl m t p shape (slice_key src da src_shard dst_shard) src dst mgr w)
       (\<lambda>(postcondition, mgr', w1).
     let (dst', w2) = store_ReadyAfter rl postcondition dst w1
     in ret (postcondition, dst', mgr', w2)))"

definition ReshardToFrom :: "'a res" where
  "ReshardToFrom = fail (RuntimeError ''do not currently support non-disjoint shardings'')"

text \<open>The view is moved into the callee when there is a source tile; what is left is destroyed here.\<close>

definition ReshardPointToPoint ::
  "realm \<Rightarrow> machine \<Rightarrow> proc_tables \<Rightarrow> processor \<Rightarrow> sharded_array view \<Rightarrow> sharded_array store \<Rightarrow>
   reshard_manager \<Rightarrow> 'z runtime_scheme \<Rightarrow>
   (sharded_array store \<times> reshard_manager \<times> 'z runtime_scheme) res" where
  "ReshardPointToPoint rl m t p src dst mgr w =
     andThen (view_get src) (\<lambda>sa.
     andThen (store_get dst) (\<lambda>da.
     andThen
       (case sa_tile da of
          Some tile \<Rightarrow>
            andThen (p2p_ToLocalTarget rl m t p (tsh_bounds (at_shape tile)) sa dst (sa_shard_id da)
                       (sa_shard_id da) mgr w) (\<lambda>(e, dst', mgr1, w1). ret (dst', mgr1, w1))
        | None \<Rightarrow> ret (dst, mgr, w))
       (\<lambda>(dst', mgr1, w1).
     andThen
       (case sa_tile sa of
          Some tile \<Rightarrow>
            (let (arg, rest) = view_move src
             in andThen (p2p_FromLocalSource rl m t p (tsh_bounds (at_shape tile)) arg da (sa_shard_id sa)
                           (sa_shard_id sa) mgr1 w1) (\<lambda>(e, mgr2, w2). ret (rest, mgr2, w2)))
        | None \<Rightarrow> ret (src, mgr1, w1))
       (\<lambda>(src', mgr2, w2).
     andThen (view_destroy rl t src' w2) (\<lambda>w3. ret (dst', mgr2, w3))))))"

section \<open>Scatter and gather\<close>

definition ReshardScatterGatherFromLocalSource ::
  "realm \<Rightarrow> machine \<Rightarrow> proc_tables \<Rightarrow> processor \<Rightarrow> scatter_gather_config \<Rightarrow> sharded_array view \<Rightarrow>
   sharded_array \<Rightarrow> reshard_manager \<Rightarrow> 'z runtime_scheme \<Rightarrow>
   (reshard_manager \<times> 'z runtime_scheme) res" where
  "ReshardScatterGatherFromLocalSource rl m t p config src dst mgr w =
     andThen (foldR (\<lambda>st slice.
         andThen (view_get src) (\<lambda>sa.
         send_slice rl m t p (slc_bounds slice) (slice_key sa dst (slc_src slice) (slc_dst slice)) src dst st))
       ({}, mgr, w) (from_source config)) (\<lambda>st.
     let (src', mgr', w') = done_after_all rl src st
     in andThen (view_destroy rl t src' w') (\<lambda>w''. ret (mgr', w'')))"

definition ReshardScatterGatherToLocalTarget ::
  "realm \<Rightarrow> machine \<Rightarrow> proc_tables \<Rightarrow> processor \<Rightarrow> scatter_gather_config \<Rightarrow> sharded_array \<Rightarrow>
   sharded_array store \<Rightarrow> reshard_manager \<Rightarrow> 'z runtime_scheme \<Rightarrow>
   (sharded_array store \<times> reshard_manager \<times> 'z runtime_scheme) res" where
  "ReshardScatterGatherToLocalTarget rl m t p config src dst mgr w =
     andThen (foldR (\<lambda>st slice.
         andThen (store_get dst) (\<lambda>da.
         receive_slice rl m t p (slc_bounds slice) (slice_key src da (slc_src slice) (slc_dst slice)) src dst st))
       ({}, mgr, w) (to_target config)) (\<lambda>st. ret (ready_after_all rl dst st))"

definition ReshardScatterGather ::
  "realm \<Rightarrow> machine \<Rightarrow> proc_tables \<Rightarrow> processor \<Rightarrow> scatter_gather_config \<Rightarrow> sharded_array view \<Rightarrow>
   sharded_array store \<Rightarrow> reshard_manager \<Rightarrow> 'z runtime_scheme \<Rightarrow>
   (sharded_array store \<times> reshard_manager \<times> 'z runtime_scheme) res" where
  "ReshardScatterGather rl m t p config src dst mgr w =
     andThen (view_get src) (\<lambda>sa.
     andThen (store_get dst) (\<lambda>da.
     andThen
       (if HasTile sa
        then (let (sub, src', w1) = view_view rl src w
              in andThen (ReshardScatterGatherFromLocalSource rl m t p config sub da mgr w1)
                   (\<lambda>(mgr', w2). ret (src', mgr', w2)))
        else ret (src, mgr, w))
       (\<lambda>(src', mgr1, w1).
     andThen (if HasTile da then ReshardScatterGatherToLocalTarget rl m t p config sa dst mgr1 w1
              else ret (dst, mgr1, w1)) (\<lambda>(dst', mgr2, w2).
     andThen (view_destroy rl t src' w2) (\<lambda>w3. ret (dst', mgr2, w3))))))"

section \<open>Broadcast\<close>

definition ReshardBroadcastFromLocalSource ::
  "realm \<Rightarrow> machine \<Rightarrow> proc_tables \<Rightarrow> processor \<Rightarrow> broadcast_config \<Rightarrow> sharded_array view \<Rightarrow>
   sharded_array \<Rightarrow> reshard_manager \<Rightarrow> 'z runtime_scheme \<Rightarrow>
   (reshard_manager \<times> 'z runtime_scheme) res" where
  "ReshardBroadcastFromLocalSource rl m t p config src dst mgr w =
     andThen (opt_get (bc_source config)) (\<lambda>source.
     andThen (foldR (\<lambda>st dst_shard.
         andThen (view_get src) (\<lambda>sa.
         andThen (array_tile_of sa) (\<lambda>tile.
         send_slice rl m t p (tsh_bounds (at_shape tile)) (slice_key sa dst (sa_shard_id sa) dst_shard) src dst st)))
       ({}, mgr, w) (dst_root_shards source)) (\<lambda>st.
     let (src', mgr', w') = done_after_all rl src st
     in andThen (view_destroy rl t src' w') (\<lambda>w''. ret (mgr', w''))))"

definition broadcast_receive ::
  "realm \<Rightarrow> machine \<Rightarrow> proc_tables \<Rightarrow> processor \<Rightarrow> target_config \<Rightarrow> sharded_array \<Rightarrow>
   sharded_array store \<Rightarrow> reshard_manager \<Rightarrow> 'z runtime_scheme \<Rightarrow>
   (event \<times> reshard_manager \<times> 'z runtime_scheme) res" where
  \<comment> \<open>\<open>initial_precondition\<close>: from the source, or from another shard of the target\<close>
  "broadcast_receive rl m t p target src dst mgr w =
     andThen (store_get dst) (\<lambda>da.
     case tc_src_shard target of
       Some shard \<Rightarrow>
         andThen (array_tile_of da) (\<lambda>tile.
         ReshardToLocalTarget rl m t p (tsh_bounds (at_shape tile))
           (slice_key src da shard (sa_shard_id da)) src dst mgr w)
     | None \<Rightarrow>
         (case tc_dst_root_shard target of
            Some shard \<Rightarrow>
              andThen (array_tile_of da) (\<lambda>tile.
              ReshardToLocalTarget rl m t p (tsh_bounds (at_shape tile))
                (slice_key da da shard (sa_shard_id da)) da dst mgr w)
          | None \<Rightarrow> ret (NO_EVENT, mgr, w)))"

definition broadcast_leaf ::
  "realm \<Rightarrow> machine \<Rightarrow> proc_tables \<Rightarrow> processor \<Rightarrow> sharded_array \<Rightarrow>
   sharded_array view \<times> reshard_manager \<times> 'z runtime_scheme \<Rightarrow> int \<Rightarrow>
   (sharded_array view \<times> reshard_manager \<times> 'z runtime_scheme) res" where
  \<comment> \<open>one send down the tree\<close>
  "broadcast_leaf rl m t p da st shard =
     (case st of (bcast_view, mgr, w) \<Rightarrow>
        andThen (array_tile_of da) (\<lambda>tile.
        andThen (ReshardFromLocalSource rl m t p (tsh_bounds (at_shape tile))
                   (slice_key da da (sa_shard_id da) shard) bcast_view da mgr w) (\<lambda>(copy, mgr', w').
        ret (view_DoneAfter copy bcast_view, mgr', w'))))"

definition ReshardBroadcastToLocalTarget ::
  "realm \<Rightarrow> machine \<Rightarrow> proc_tables \<Rightarrow> processor \<Rightarrow> broadcast_config \<Rightarrow> sharded_array \<Rightarrow>
   sharded_array store \<Rightarrow> reshard_manager \<Rightarrow> 'z runtime_scheme \<Rightarrow>
   (sharded_array store \<times> reshard_manager \<times> 'z runtime_scheme) res" where
  "ReshardBroadcastToLocalTarget rl m t p config src dst mgr w =
     andThen (opt_get (bc_target config)) (\<lambda>target.
     andThen (broadcast_receive rl m t p target src dst mgr w) (\<lambda>(initial, mgr1, w1).
     let (dst1, w2) = store_ReadyAfter rl initial dst w1
     in if tc_dst_leaf_shards target = [] then ret (dst1, mgr1, w2)
        else
          andThen (store_get dst1) (\<lambda>da.
          let (bcast_view, dst2, w3) = store_view rl dst1 w2
          in andThen (foldR (broadcast_leaf rl m t p da) (bcast_view, mgr1, w3) (tc_dst_leaf_shards target))
               (\<lambda>(bcast_view', mgr2, w4).
             andThen (view_destroy rl t bcast_view' w4) (\<lambda>w5. ret (dst2, mgr2, w5))))))"

definition ReshardBroadcast ::
  "realm \<Rightarrow> machine \<Rightarrow> proc_tables \<Rightarrow> processor \<Rightarrow> broadcast_config \<Rightarrow> sharded_array view \<Rightarrow>
   sharded_array store \<Rightarrow> reshard_manager \<Rightarrow> 'z runtime_scheme \<Rightarrow>
   (sharded_array store \<times> reshard_manager \<times> 'z runtime_scheme) res" where
  "ReshardBroadcast rl m t p config src dst mgr w =
     andThen (view_get src) (\<lambda>sa.
     andThen (store_get dst) (\<lambda>da.
     andThen (if HasTile da then ReshardBroadcastToLocalTarget rl m t p config sa dst mgr w
              else ret (dst, mgr, w)) (\<lambda>(dst', mgr1, w1).
     andThen
       (if HasTile sa
        then (let (arg, rest) = view_move src
              in andThen (ReshardBroadcastFromLocalSource rl m t p config arg da mgr1 w1)
                   (\<lambda>(mgr2, w2). ret (rest, mgr2, w2)))
        else ret (src, mgr1, w1))
       (\<lambda>(src', mgr2, w2).
     andThen (view_destroy rl t src' w2) (\<lambda>w3. ret (dst', mgr2, w3))))))"

section \<open>Gathering shards\<close>

abbreviation devices_of :: "sharded_array \<Rightarrow> device_list" where
  "devices_of a \<equiv> sh_devices (shp_sharding (sa_shape a))"

definition GatherShardsToLocalTarget ::
  "realm \<Rightarrow> machine \<Rightarrow> proc_tables \<Rightarrow> processor \<Rightarrow> sharded_array \<Rightarrow> sharded_array store \<Rightarrow>
   gather_shards_config \<Rightarrow> reshard_manager \<Rightarrow> 'z runtime_scheme \<Rightarrow>
   (sharded_array store \<times> reshard_manager \<times> 'z runtime_scheme) res" where
  "GatherShardsToLocalTarget rl m t p src dst config mgr w =
     (let num_shards = dl_size (devices_of src)
      in andThen (opt_get (gs_dst_shard config)) (\<lambda>dst_shard_id.
         andThen (foldR (\<lambda>st shard.
             andThen (store_get dst) (\<lambda>da.
             andThen (vec_at (target_from_source_bounds config) shard) (\<lambda>bounds.
             receive_slice rl m t p bounds (slice_key src da shard dst_shard_id) src dst st)))
           ({}, mgr, w) (upto64 num_shards)) (\<lambda>st. ret (ready_after_all rl dst st))))"

definition GatherShardsFromLocalSource ::
  "realm \<Rightarrow> machine \<Rightarrow> proc_tables \<Rightarrow> processor \<Rightarrow> sharded_array view \<Rightarrow> sharded_array \<Rightarrow>
   gather_shards_config \<Rightarrow> reshard_manager \<Rightarrow> 'z runtime_scheme \<Rightarrow>
   (sharded_array view \<times> reshard_manager \<times> 'z runtime_scheme) res" where
  "GatherShardsFromLocalSource rl m t p src dst config mgr w =
     (let num_shards = dl_size (devices_of dst)
      in andThen (view_get src) (\<lambda>sa.
         andThen (opt_get (dl_shard_id (devices_of sa) (global_id p))) (\<lambda>src_shard_id.
         andThen (foldR (\<lambda>st shard.
             andThen (opt_get (source_to_target_bounds config)) (\<lambda>bounds.
             send_slice rl m t p bounds (slice_key sa dst src_shard_id shard) src dst st))
           ({}, mgr, w) (upto64 num_shards)) (\<lambda>st. ret (done_after_all rl src st)))))"

definition ReshardGatherShards ::
  "realm \<Rightarrow> machine \<Rightarrow> proc_tables \<Rightarrow> processor \<Rightarrow> gather_shards_config \<Rightarrow> sharded_array view \<Rightarrow>
   sharded_array store \<Rightarrow> reshard_manager \<Rightarrow> 'z runtime_scheme \<Rightarrow>
   (sharded_array store \<times> reshard_manager \<times> 'z runtime_scheme) res" where
  "ReshardGatherShards rl m t p config src dst mgr w =
     andThen (view_get src) (\<lambda>sa.
     andThen (store_get dst) (\<lambda>da.
     let shapes = show_processor p @ '' for '' @ show_sharded_shape (sa_shape sa) @ '' -> '' @
           show_sharded_shape (sa_shape da) in
     andThen
       (if HasTile sa
        then andThen (require (gs_src_shard config \<noteq> None) (RuntimeError
               (''ReshardGatherShards: unexpected mismatch between source tile and config on '' @
                shapes))) (\<lambda>_.
             GatherShardsFromLocalSource rl m t p src da config mgr w)
        else ret (src, mgr, w))
       (\<lambda>(src', mgr1, w1).
     andThen
       (if HasTile da
        then andThen (require (gs_dst_shard config \<noteq> None) (RuntimeError
               (''ReshardGatherShards: unexpected mismatch between destination tile and config on '' @
                shapes))) (\<lambda>_.
             GatherShardsToLocalTarget rl m t p sa dst config mgr1 w1)
        else ret (dst, mgr1, w1))
       (\<lambda>(dst', mgr2, w2).
     andThen (view_destroy rl t src' w2) (\<lambda>w3. ret (dst', mgr2, w3))))))"

section \<open>Scattering shards\<close>

definition ScatterShardsToLocalTarget ::
  "realm \<Rightarrow> machine \<Rightarrow> proc_tables \<Rightarrow> processor \<Rightarrow> sharded_array \<Rightarrow> sharded_array store \<Rightarrow>
   reshard_manager \<Rightarrow> 'z runtime_scheme \<Rightarrow>
   (sharded_array store \<times> reshard_manager \<times> 'z runtime_scheme) res" where
  "ScatterShardsToLocalTarget rl m t p src dst mgr w =
     andThen (store_get dst) (\<lambda>da.
     andThen (opt_get (dl_shard_id (devices_of da) (global_id p))) (\<lambda>dst_shard_id.
     andThen (div64 (dl_size (devices_of da)) (dl_size (devices_of src))) (\<lambda>shards_per_source.
     andThen (div64 dst_shard_id shards_per_source) (\<lambda>src_shard_id.
     andThen (array_tile_of da) (\<lambda>tile.
     andThen (ReshardToLocalTarget rl m t p (tsh_bounds (at_shape tile))
                (slice_key src da src_shard_id dst_shard_id) src dst mgr w) (\<lambda>(copy, mgr', w1).
     let (dst', w2) = store_ReadyAfter rl copy dst w1
     in ret (dst', mgr', w2)))))))"

definition ScatterShardsFromLocalSource ::
  "realm \<Rightarrow> machine \<Rightarrow> proc_tables \<Rightarrow> int \<Rightarrow> processor \<Rightarrow> sharded_array view \<Rightarrow> sharded_array \<Rightarrow>
   reshard_manager \<Rightarrow> 'z runtime_scheme \<Rightarrow>
   (sharded_array view \<times> reshard_manager \<times> 'z runtime_scheme) res" where
  "ScatterShardsFromLocalSource rl m t max_dim p src dst mgr w =
     andThen (view_get src) (\<lambda>sa.
     andThen (div64 (dl_size (devices_of dst)) (dl_size (devices_of sa))) (\<lambda>shards_per_source.
     andThen (opt_get (dl_shard_id (devices_of sa) (global_id p))) (\<lambda>src_shard_id.
     let shard_offset = shards_per_source * src_shard_id
     in andThen (foldR (\<lambda>st shard.
            let dst_shard_id = shard_offset + shard in
            andThen (ComputeTileBounds max_dim dst_shard_id (shp_sharding (sa_shape dst))) (\<lambda>bounds.
            send_slice rl m t p bounds (slice_key sa dst src_shard_id dst_shard_id) src dst st))
          ({}, mgr, w) (upto64 shards_per_source)) (\<lambda>st. ret (done_after_all rl src st)))))"

definition ReshardScatterShards ::
  "realm \<Rightarrow> machine \<Rightarrow> proc_tables \<Rightarrow> int \<Rightarrow> processor \<Rightarrow> scatter_shards_config \<Rightarrow>
   sharded_array view \<Rightarrow> sharded_array store \<Rightarrow> reshard_manager \<Rightarrow> 'z runtime_scheme \<Rightarrow>
   (sharded_array store \<times> reshard_manager \<times> 'z runtime_scheme) res" where
  \<comment> \<open>the configuration is not used\<close>
  "ReshardScatterShards rl m t max_dim p config src dst mgr w =
     andThen (view_get src) (\<lambda>sa.
     andThen (store_get dst) (\<lambda>da.
     andThen (if HasTile sa then ScatterShardsFromLocalSource rl m t max_dim p src da mgr w
              else ret (src, mgr, w)) (\<lambda>(src', mgr1, w1).
     andThen (if HasTile da then ScatterShardsToLocalTarget rl m t p sa dst mgr1 w1
              else ret (dst, mgr1, w1)) (\<lambda>(dst', mgr2, w2).
     andThen (view_destroy rl t src' w2) (\<lambda>w3. ret (dst', mgr2, w3))))))"

section \<open>Resharding\<close>

text \<open>
  The view is moved into the protocol that is chosen; what is left of it is destroyed here. \<open>None\<close>
  is a choice that does not end, as a loop of the broadcast configuration may not.
\<close>

definition run_protocol ::
  "realm \<Rightarrow> machine \<Rightarrow> proc_tables \<Rightarrow> int \<Rightarrow> processor \<Rightarrow> reshard_config \<Rightarrow> sharded_array view \<Rightarrow>
   sharded_array store \<Rightarrow> reshard_manager \<Rightarrow> 'z runtime_scheme \<Rightarrow>
   (sharded_array view \<times> sharded_array store \<times> reshard_manager \<times> 'z runtime_scheme) res" where
  \<comment> \<open>the visitor\<close>
  "run_protocol rl m t max_dim p config src dst mgr w =
     (let (arg, rest) = view_move src;
          keep = (\<lambda>r. andThen r (\<lambda>(dst', mgr', w'). ret (rest, dst', mgr', w')))
      in case config of
           PointToPointConfig \<Rightarrow> keep (ReshardPointToPoint rl m t p arg dst mgr w)
         | ScatterGatherC c \<Rightarrow> keep (ReshardScatterGather rl m t p c arg dst mgr w)
         | BroadcastC c \<Rightarrow> keep (ReshardBroadcast rl m t p c arg dst mgr w)
         | NoOpConfig \<Rightarrow> ret (src, dst, mgr, w)
         | ScatterShardsC c \<Rightarrow> keep (ReshardScatterShards rl m t max_dim p c arg dst mgr w)
         | GatherShardsC c \<Rightarrow> keep (ReshardGatherShards rl m t p c arg dst mgr w)
         | UnsupportedConfig \<Rightarrow> fail (RuntimeError ''unsupported resharding pattern requested''))"

definition Reshard ::
  "realm \<Rightarrow> machine \<Rightarrow> proc_tables \<Rightarrow> int \<Rightarrow> processor \<Rightarrow> sharded_array view \<Rightarrow>
   sharded_array store \<Rightarrow> reshard_manager \<Rightarrow> 'z runtime_scheme \<Rightarrow>
   (sharded_array store \<times> reshard_manager \<times> 'z runtime_scheme) res option" where
  "Reshard rl m t max_dim p src dst mgr w =
     (case andThen (view_get src) (\<lambda>sa. andThen (store_get dst) (\<lambda>da.
        ret (shp_sharding (sa_shape sa), shp_sharding (sa_shape da)))) of
        Inl e \<Rightarrow> Some (Inl e)
      | Inr (s, d) \<Rightarrow>
          (case DetermineShardingConfig max_dim p s d of
             None \<Rightarrow> None
           | Some choice \<Rightarrow> Some (
               andThen choice (\<lambda>config.
               andThen (run_protocol rl m t max_dim p config src dst mgr w) (\<lambda>(src', dst', mgr', w1).
               andThen (view_destroy rl t src' w1) (\<lambda>w2. ret (dst', mgr', w2)))))))"

definition Reshard_store ::
  "realm \<Rightarrow> machine \<Rightarrow> proc_tables \<Rightarrow> int \<Rightarrow> processor \<Rightarrow> sharded_array store \<Rightarrow>
   sharded_array store \<Rightarrow> reshard_manager \<Rightarrow> 'z runtime_scheme \<Rightarrow>
   (sharded_array store \<times> sharded_array store \<times> reshard_manager \<times> 'z runtime_scheme) res option" where
  \<comment> \<open>the overload for a source store\<close>
  "Reshard_store rl m t max_dim p src dst mgr w =
     (let (v, src', w1) = store_view rl src w
      in case Reshard rl m t max_dim p v dst mgr w1 of
           None \<Rightarrow> None
         | Some r \<Rightarrow> Some (andThen r (\<lambda>(dst', mgr', w2). ret (src', dst', mgr', w2))))"

end
