(* ===== verification/Reshard_Exchange.thy ===== *)
theory Reshard_Exchange
  imports Reshard_Manager "HOL-Library.Multiset"
begin

text \<open>
  The two ends of a reshard on two processes: the managers of \<open>src/zuku/reshard_manager.cc\<close> as a
  step relation with the messages between them, which arrive in any order, its invariant, and what it
  shows: every copy pairs the next source with the next target whose name has arrived, and no
  assertion fails.
\<close>

section \<open>The ends on two processes\<close>

text \<open>
  The state of an exchange: the managers of the two processes, the messages on their way, the
  trace, and, as history, what was offered on each end, the copies made, and the number of the target
  call that sent each message to the source, for those on their way (in \<open>ex_flight\<close>, beside
  \<open>to_src\<close>) and for those that have arrived, in the order of their arrival. Any message on its way
  can be the next to arrive.
\<close>

record exchange =
  src_mgr :: reshard_manager
  dst_mgr :: reshard_manager
  to_src :: "(event \<times> inst) list"
  to_dst :: "(event \<times> inst) list"
  ex_sources :: "offer list"
  ex_targets :: "offer list"
  ex_copies :: "(inst \<times> inst \<times> event) list"
  ex_flight :: "nat list"
  ex_arrived :: "nat list"
  ex_world :: runtime

definition calls_since :: "exchange \<Rightarrow> runtime \<Rightarrow> trace" where
  "calls_since s w = drop (length (trace_of (ex_world s))) (trace_of w)"

definition source_called ::
  "reshard_key \<Rightarrow> sharded_array view \<Rightarrow> event \<Rightarrow> reshard_manager \<Rightarrow> runtime \<Rightarrow> exchange \<Rightarrow> exchange" where
  "source_called key src e mgr w s = s\<lparr>src_mgr := mgr, ex_world := w,
     to_dst := to_dst s @ names_in key (calls_since s w),
     ex_sources := ex_sources s @ [source_offer src e],
     ex_copies := ex_copies s @ copies_in (calls_since s w)\<rparr>"

definition target_called ::
  "reshard_key \<Rightarrow> sharded_array store \<Rightarrow> event \<Rightarrow> reshard_manager \<Rightarrow> runtime \<Rightarrow> exchange \<Rightarrow> exchange" where
  "target_called key dst e mgr w s = s\<lparr>dst_mgr := mgr, ex_world := w,
     to_src := to_src s @ names_in key (calls_since s w),
     ex_flight := ex_flight s @
       replicate (length (names_in key (calls_since s w))) (length (ex_targets s)),
     ex_targets := ex_targets s @ [target_offer dst e],
     ex_copies := ex_copies s @ copies_in (calls_since s w)\<rparr>"

definition without :: "nat \<Rightarrow> 'a list \<Rightarrow> 'a list" where
  "without j xs = take j xs @ drop (Suc j) xs"

definition src_received :: "nat \<Rightarrow> reshard_manager \<Rightarrow> runtime \<Rightarrow> exchange \<Rightarrow> exchange" where
  "src_received j mgr w s = s\<lparr>src_mgr := mgr, ex_world := w, to_src := without j (to_src s),
     ex_flight := without j (ex_flight s), ex_arrived := ex_arrived s @ [ex_flight s ! j],
     ex_copies := ex_copies s @ copies_in (calls_since s w)\<rparr>"

definition dst_received :: "nat \<Rightarrow> reshard_manager \<Rightarrow> runtime \<Rightarrow> exchange \<Rightarrow> exchange" where
  "dst_received j mgr w s = s\<lparr>dst_mgr := mgr, ex_world := w, to_dst := without j (to_dst s),
     ex_copies := ex_copies s @ copies_in (calls_since s w)\<rparr>"

inductive exchange_step ::
  "realm \<Rightarrow> machine \<Rightarrow> proc_tables \<Rightarrow> proc_tables \<Rightarrow> reshard_key \<Rightarrow> exchange \<Rightarrow> exchange \<Rightarrow> bool"
  for rl m ts td key where
  step_source: "exchange_step rl m ts td key s (source_called key v e mgr w s)"
    if "source_ok m ts key True p v da"
      and "ReshardFromLocalSource rl m ts p shape key v da (src_mgr s) (ex_world s) = ret (e, mgr, w)"
| step_target: "exchange_step rl m ts td key s (target_called key st e mgr w s)"
    if "target_ok m td key True p sa st" and "tile_instance (store_get st) \<noteq> NO_INST"
      and "ReshardToLocalTarget rl m td p shape key sa st (dst_mgr s) (ex_world s) = ret (e, mgr, w)"
| step_to_src: "exchange_step rl m ts td key s (src_received j mgr w s)"
    if "j < length (to_src s)" and "to_src s ! j = (b, i)"
      and "PointToPointNameHandler rl (key, b, i) (src_mgr s) (ex_world s) = ret (mgr, w)"
| step_to_dst: "exchange_step rl m ts td key s (dst_received j mgr w s)"
    if "j < length (to_dst s)" and "to_dst s ! j = (b, i)"
      and "PointToPointNameHandler rl (key, b, i) (dst_mgr s) (ex_world s) = ret (mgr, w)"
| step_other: \<comment> \<open>anything the processes do for other keys\<close>
    "exchange_step rl m ts td key s (s\<lparr>src_mgr := mgr, dst_mgr := mgr', ex_world := w\<rparr>)"
    if "extends (trace_of w) (trace_of (ex_world s))" and "mgr key = src_mgr s key"
      and "mgr' key = dst_mgr s key"

definition exchange_start :: "reshard_key \<Rightarrow> exchange \<Rightarrow> bool" where
  "exchange_start key s \<longleftrightarrow> src_mgr s key = new_p2p \<and> dst_mgr s key = new_p2p \<and> to_src s = [] \<and>
     to_dst s = [] \<and> ex_sources s = [] \<and> ex_targets s = [] \<and> ex_copies s = [] \<and>
     ex_flight s = [] \<and> ex_arrived s = []"

lemma without_nth:
  assumes "j < length xs"
  shows "mset xs = add_mset (xs ! j) (mset (without j xs))" and "Suc (length (without j xs)) = length xs"
proof -
  have "xs = take j xs @ xs ! j # drop (Suc j) xs" using id_take_nth_drop[OF assms] .
  then have "mset xs = mset (take j xs @ xs ! j # drop (Suc j) xs)" by (rule arg_cong)
  then show m: "mset xs = add_mset (xs ! j) (mset (without j xs))" by (simp add: without_def)
  show "Suc (length (without j xs)) = length xs" using arg_cong[OF m, of size] by simp
qed

lemma map_without: "map f (without j xs) = without j (map f xs)"
  by (simp add: without_def take_map drop_map)

text \<open>
  What Realm documents of barriers: they exist, and advancing a handle gives the handle of the next
  generation, the same wherever it is done.
\<close>

definition barriers_advance :: "realm \<Rightarrow> (event \<Rightarrow> event) \<Rightarrow> bool" where
  "barriers_advance rl adv \<longleftrightarrow> (\<forall>tr b. rl tr (AdvanceBarrier b) = adv b) \<and>
     (\<forall>b. b \<noteq> NO_EVENT \<longrightarrow> adv b \<noteq> NO_EVENT) \<and> (\<forall>tr n. rl tr (CreateBarrier n) \<noteq> NO_EVENT)"

lemma barriers_advanceD:
  assumes "barriers_advance rl adv"
  shows "fst (invoke rl (AdvanceBarrier b) w) = adv b"
    and "b \<noteq> NO_EVENT \<Longrightarrow> (adv ^^ k) b \<noteq> NO_EVENT"
    and "fst (invoke rl (CreateBarrier n) w) \<noteq> NO_EVENT"
proof -
  show "b \<noteq> NO_EVENT \<Longrightarrow> (adv ^^ k) b \<noteq> NO_EVENT"
    using assms by (induction k) (auto simp: barriers_advance_def)
qed (use assms in \<open>auto simp: barriers_advance_def invoke_def\<close>)

definition arrived :: "offer \<Rightarrow> offer" where
  "arrived y = (offer_inst y, offer_waits y, None)"

context event_order
begin

definition src_inv :: "(event \<Rightarrow> event) \<Rightarrow> event \<Rightarrow> trace \<Rightarrow> p2p \<Rightarrow> offer list \<Rightarrow> offer list \<Rightarrow>
    (inst \<times> inst \<times> event) list \<Rightarrow> bool" where
  "src_inv adv ab tr r xs ys cs \<longleftrightarrow>
     matched tr (pending_source r) (pending_dest r) xs (map arrived ys) cs \<and>
     ack_done_barrier r = (if xs = [] then NO_EVENT else (adv ^^ length cs) ab) \<and>
     shape_known r \<and> (pending_source r \<noteq> [] \<longrightarrow> p2p_shape r \<noteq> None) \<and>
     (\<forall>k < length cs. after tr ((adv ^^ k) ab) (snd (snd (cs ! k))))"

definition channel_inv :: "(event \<Rightarrow> event) \<Rightarrow> event \<Rightarrow> trace \<Rightarrow> (event \<times> inst) list \<Rightarrow> nat list \<Rightarrow>
    nat list \<Rightarrow> offer list \<Rightarrow> bool" where
  "channel_inv adv rb tr msgs flight arr ys \<longleftrightarrow> mset (arr @ flight) = mset [0..<length ys] \<and>
     msgs = map (\<lambda>k. ((adv ^^ k) rb, offer_inst (ys ! k))) flight \<and>
     (\<forall>k < length ys. offer_inst (ys ! k) \<noteq> NO_INST \<and> waits_all tr ((adv ^^ k) rb) (offer_waits (ys ! k)))"

definition dst_inv :: "(event \<Rightarrow> event) \<Rightarrow> event \<Rightarrow> event \<Rightarrow> trace \<Rightarrow> p2p \<Rightarrow> (event \<times> inst) list \<Rightarrow> bool \<Rightarrow>
    offer list \<Rightarrow> bool" where
  "dst_inv adv rb ab tr r msgs sent ys \<longleftrightarrow>
     target_ready_barrier r = (if ys = [] then NO_EVENT else (adv ^^ length ys) rb) \<and>
     pending_source r = [] \<and> shape_known r \<and>
     (if sent \<and> msgs = []
      then ack_done_barrier r = (adv ^^ length ys) ab \<and> pending_dest r = [] \<and>
           (\<forall>k < length ys. \<exists>e. offer_event (ys ! k) = Some e \<and> after tr e ((adv ^^ k) ab))
      else msgs = (if sent then [(ab, NO_INST)] else []) \<and> ack_done_barrier r = NO_EVENT \<and>
           (\<forall>y \<in> set ys. offer_event y \<noteq> None) \<and> list_all2 (op_ok tr) (pending_dest r) ys)"

lemma src_inv_extends:
  "extends tr' tr \<Longrightarrow> src_inv adv ab tr r xs ys cs \<Longrightarrow> src_inv adv ab tr' r xs ys cs"
  using matched_extends after_extends unfolding src_inv_def by blast

lemma channel_inv_extends:
  "extends tr' tr \<Longrightarrow> channel_inv adv rb tr msgs flight arr ys \<Longrightarrow> channel_inv adv rb tr' msgs flight arr ys"
  using waits_all_extends unfolding channel_inv_def by blast

lemma dst_inv_extends:
  assumes "extends tr' tr" and "dst_inv adv rb ab tr r msgs sent ys"
  shows "dst_inv adv rb ab tr' r msgs sent ys"
proof -
  have "list_all2 (op_ok tr') p ys" if "list_all2 (op_ok tr) p ys" for p
    using that op_ok_extends[OF assms(1)] by (rule list_all2_mono)
  then show ?thesis using assms(2) after_extends[OF assms(1)]
    unfolding dst_inv_def by (auto split: if_splits; blast)
qed

text \<open>The source end.\<close>

lemma remote_copy:
  fixes w :: "'z runtime_scheme"
  assumes b: "barriers_advance rl adv" and shape: "p2p_shape r \<noteq> None" and ack: "ack_done_barrier r \<noteq> NO_EVENT"
  shows "\<exists>c (w2 :: 'z runtime_scheme). RemoteCopyNextPendingToTarget rl si di ready pre r w =
      ret (c, r\<lparr>ack_done_barrier := adv (ack_done_barrier r)\<rparr>, w2) \<and>
    after (trace_of w2) c ready \<and> after (trace_of w2) c pre \<and>
    after (trace_of w2) (ack_done_barrier r) c \<and> added key (trace_of w2) (trace_of w) [(si, di, c)] []"
proof -
  obtain s where s: "p2p_shape r = Some s" using shape by blast
  obtain m w1 where m: "merge2 rl ready pre w = (m, w1)" by fastforce
  obtain c w2 where c: "IssueCopy rl s (p2p_field_size r) si di m w1 = (c, w2)" by fastforce
  let ?w3 = "command rl (ArriveBarrier (ack_done_barrier r) 1 c) w2"
  let ?w4 = "snd (invoke rl (AdvanceBarrier (ack_done_barrier r)) ?w3)"
  have ext: "extends (trace_of ?w4) (trace_of w2)" by simp
  have "after (trace_of ?w4) (ack_done_barrier r) c" by (rule after_arrive[of _ 1]) auto
  moreover have "after (trace_of ?w4) c ready" "after (trace_of ?w4) c pre"
    using issue_after(1,2)[OF m c] after_extends[OF ext] by blast+
  moreover have "added key (trace_of ?w3) (trace_of w) [(si, di, c)] []"
    using issue_after(3)[OF m c] by (simp add: added_snoc_quiet)
  from added_snoc_quiet[OF _ _ this] have "added key (trace_of ?w4) (trace_of w) [(si, di, c)] []"
    unfolding trace_invoke by simp
  moreover have "RemoteCopyNextPendingToTarget rl si di ready pre r w =
      ret (c, r\<lparr>ack_done_barrier := adv (ack_done_barrier r)\<rparr>, ?w4)"
    using s m c ack barriers_advanceD(1)[OF b, of "ack_done_barrier r" ?w3]
    by (simp add: RemoteCopyNextPendingToTarget_def get_shape_def Let_def case_prod_unfold)
  ultimately show ?thesis by blast
qed

lemma remote_source_pair:
  fixes w :: "'z runtime_scheme"
  assumes b: "barriers_advance rl adv" and user: "user_events_exist rl" and ab: "ab \<noteq> NO_EVENT"
    and m: "matched (trace_of w) (pending_source r) (pending_dest r) xs (map arrived ys) cs"
    and ack: "ack_done_barrier r = (adv ^^ length cs) ab" and known: "shape_known r" "p2p_shape r \<noteq> None"
    and old: "\<forall>k < length cs. after (trace_of w) ((adv ^^ k) ab) (snd (snd (cs ! k)))"
  shows "\<exists>e r2 new (w2 :: 'z runtime_scheme). source_pair rl True i pre r w = ret (e, r2, w2) \<and>
    src_inv adv ab (trace_of w2) r2 (xs @ [(i, {pre}, Some e)]) ys (cs @ new) \<and>
    added key (trace_of w2) (trace_of w) new []"
proof (cases "pending_dest r")
  case Nil
  obtain u w1 where u: "invoke rl CreateUserEvent w = (u, w1)" by fastforce
  then have t1: "trace_of w1 = trace_of w @ [(CreateUserEvent, u)]" and u0: "u \<noteq> NO_EVENT"
    using user by (auto simp: invoke_def user_events_exist_def)
  let ?op = "\<lparr>op_precondition = pre, op_postcondition = u, op_instance = i\<rparr>"
  have ext: "extends (trace_of w1) (trace_of w)" using t1 by simp
  have "op_ok (trace_of w1) ?op (i, {pre}, Some u)"
    using after_refl u0 by (simp add: op_ok_def waits_all_def)
  then have "matched (trace_of w1) (pending_source r @ [?op]) [] (xs @ [(i, {pre}, Some u)]) (map arrived ys) cs"
    using m Nil ext by (intro matched_wait[of "trace_of w"]) auto
  moreover have "added key (trace_of w1) (trace_of w) [] []"
    using added_snoc[of key "trace_of w" "(CreateUserEvent, u)"] t1 by simp
  ultimately show ?thesis using Nil u ack known old after_extends[OF ext]
    by (intro exI[of _ u] exI[of _ "r\<lparr>pending_source := pending_source r @ [?op]\<rparr>"]
        exI[of _ "[]"] exI[of _ w1]) (auto simp: source_pair_def src_inv_def shape_known_def)
next
  case (Cons op ops)
  have "ack_done_barrier r \<noteq> NO_EVENT" using ack barriers_advanceD(2)[OF b ab] by simp
  from remote_copy[where w = w, OF b known(2) this, of i "op_instance op" "op_precondition op" pre key]
  obtain c and w2 :: "'z runtime_scheme"
    where c: "RemoteCopyNextPendingToTarget rl i (op_instance op) (op_precondition op) pre r w =
        ret (c, r\<lparr>ack_done_barrier := adv (ack_done_barrier r)\<rparr>, w2)"
      and af: "after (trace_of w2) c (op_precondition op)" "after (trace_of w2) c pre"
        "after (trace_of w2) (ack_done_barrier r) c"
      and add: "added key (trace_of w2) (trace_of w) [(i, op_instance op, c)] []" by blast
  note ext = added_extends[OF add]
  have "list_all2 (op_ok (trace_of w)) (op # ops) (drop (length cs) (map arrived ys))"
    using m Cons unfolding matched_def by metis
  then obtain y zs where "drop (length cs) (map arrived ys) = y # zs" "op_ok (trace_of w) op y"
    by (auto simp: list_all2_Cons1)
  moreover from this have "y \<in> set (map arrived ys)" by (metis in_set_dropD list.set_intros(1))
  ultimately have none: "op_postcondition op = NO_EVENT" by (auto simp: op_ok_def arrived_def)
  have "pending_source r = []"
    and "matched (trace_of w2) [] ops (xs @ [(i, {pre}, Some c)]) (map arrived ys) (cs @ [(i, op_instance op, c)])"
    using matched_pair[of "trace_of w" "pending_source r" op ops xs "map arrived ys" cs "trace_of w2"
        "(i, op_instance op, c)" "(i, {pre}, Some c)"] m Cons ext af none after_refl
    by (auto simp: waits_all_def)
  moreover have "\<forall>k < Suc (length cs). after (trace_of w2) ((adv ^^ k) ab)
      (snd (snd ((cs @ [(i, op_instance op, c)]) ! k)))"
    using old after_extends[OF ext] af(3) ack by (auto simp: nth_append less_Suc_eq)
  ultimately show ?thesis using Cons c add ack known
    by (intro exI[of _ c] exI[of _ "r\<lparr>ack_done_barrier := adv (ack_done_barrier r), pending_dest := ops\<rparr>"]
        exI[of _ "[(i, op_instance op, c)]"] exI[of _ w2])
      (auto simp: source_pair_def src_inv_def shape_known_def)
qed

lemma remote_receive:
  fixes w :: "'z runtime_scheme"
  assumes b: "barriers_advance rl adv" and ab: "ab \<noteq> NO_EVENT" and rb: "barrier \<noteq> NO_EVENT"
    and i: "src_inv adv ab (trace_of w) r xs ys cs"
    and y: "waits_all (trace_of w) barrier (offer_waits y)" "offer_inst y = inst"
  shows "\<exists>r2 new (w2 :: 'z runtime_scheme). receive_instance rl barrier inst r w = ret (r2, w2) \<and>
    src_inv adv ab (trace_of w2) r2 xs (ys @ [y]) (cs @ new) \<and> added key (trace_of w2) (trace_of w) new []"
proof (cases "pending_source r")
  case Nil
  let ?op = "\<lparr>op_precondition = barrier, op_postcondition = NO_EVENT, op_instance = inst\<rparr>"
  have "op_ok (trace_of w) ?op (arrived y)" using y by (simp add: op_ok_def arrived_def)
  then have "matched (trace_of w) [] (pending_dest r @ [?op]) xs (map arrived ys @ [arrived y]) cs"
    using i Nil by (intro matched_wait_right[of "trace_of w"]) (auto simp: src_inv_def)
  then show ?thesis using Nil i rb
    by (intro exI[of _ "r\<lparr>pending_dest := pending_dest r @ [?op]\<rparr>"] exI[of _ "[]"] exI[of _ w])
      (auto simp: receive_instance_def src_inv_def shape_known_def added_refl)
next
  case (Cons op ops)
  have m: "matched (trace_of w) (op # ops) (pending_dest r) xs (map arrived ys) cs"
    and ack: "ack_done_barrier r = (if xs = [] then NO_EVENT else (adv ^^ length cs) ab)"
    and shape: "p2p_shape r \<noteq> None" and known: "shape_known r"
    and old: "\<forall>k < length cs. after (trace_of w) ((adv ^^ k) ab) (snd (snd (cs ! k)))"
    using i Cons by (auto simp: src_inv_def)
  have ack': "ack_done_barrier r = (adv ^^ length cs) ab" and "xs \<noteq> []"
    using m ack by (auto simp: matched_def)
  have "ack_done_barrier r \<noteq> NO_EVENT" using ack' barriers_advanceD(2)[OF b ab] by simp
  from remote_copy[where w = w, OF b shape this, of "op_instance op" inst barrier "op_precondition op" key]
  obtain c and w2 :: "'z runtime_scheme"
    where c: "RemoteCopyNextPendingToTarget rl (op_instance op) inst barrier (op_precondition op) r w =
        ret (c, r\<lparr>ack_done_barrier := adv (ack_done_barrier r)\<rparr>, w2)"
      and af: "after (trace_of w2) c barrier" "after (trace_of w2) c (op_precondition op)"
        "after (trace_of w2) (ack_done_barrier r) c"
      and add2: "added key (trace_of w2) (trace_of w) [(op_instance op, inst, c)] []" by blast
  let ?w3 = "command rl (TriggerEvent (op_postcondition op) c) w2"
  have add: "added key (trace_of ?w3) (trace_of w) [(op_instance op, inst, c)] []"
    using add2 by (simp add: added_snoc_quiet)
  note ext = added_extends[OF add]
  have ext2: "extends (trace_of ?w3) (trace_of w2)" by simp
  have "after (trace_of ?w3) (op_postcondition op) c" by (rule after_trigger) auto
  moreover have "waits_all (trace_of ?w3) c (offer_waits y)"
    using waits_all_trans[OF after_extends[OF ext2 af(1)] waits_all_extends[OF ext y(1)]] .
  ultimately have "pending_dest r = []"
    and "matched (trace_of ?w3) ops [] xs (map arrived ys @ [arrived y]) (cs @ [(op_instance op, inst, c)])"
    using matched_pair_right[of "trace_of w" op ops "pending_dest r" xs "map arrived ys" cs "trace_of ?w3"
        "(op_instance op, inst, c)" "arrived y"] m ext after_extends[OF ext2] af y(2)
    by (auto simp: arrived_def)
  moreover have "\<forall>k < Suc (length cs). after (trace_of ?w3) ((adv ^^ k) ab)
      (snd (snd ((cs @ [(op_instance op, inst, c)]) ! k)))"
    using old after_extends[OF ext] after_extends[OF ext2 af(3)] ack' by (auto simp: nth_append less_Suc_eq)
  ultimately show ?thesis using Cons c add ack' known shape rb \<open>xs \<noteq> []\<close>
    by (intro exI[of _ "r\<lparr>ack_done_barrier := adv (ack_done_barrier r), pending_source := ops\<rparr>"]
        exI[of _ "[(op_instance op, inst, c)]"] exI[of _ ?w3])
      (auto simp: receive_instance_def src_inv_def shape_known_def)
qed

end

lemma added_calls:
  assumes "added key (trace_of w) (trace_of (ex_world s)) cs ns"
  shows "copies_in (calls_since s w) = cs" and "names_in key (calls_since s w) = ns"
  using assms by (auto simp: added_def calls_since_def)

context event_order
begin

text \<open>The target end.\<close>

lemma remote_send:
  fixes w :: "'z runtime_scheme"
  assumes b: "barriers_advance rl adv" and rb: "rb \<noteq> NO_EVENT"
    and ready: "target_ready_barrier r = (if n = 0 then NO_EVENT else (adv ^^ n) rb)"
  shows "\<exists>rb' (w2 :: 'z runtime_scheme). send_instance rl host key i st r w =
      (r\<lparr>target_ready_barrier := (adv ^^ Suc n) rb'\<rparr>, w2) \<and> rb' \<noteq> NO_EVENT \<and> (n \<noteq> 0 \<longrightarrow> rb' = rb) \<and>
    waits_all (trace_of w2) ((adv ^^ n) rb') (recorded st) \<and>
    added key (trace_of w2) (trace_of w) [] [((adv ^^ n) rb', i)]"
proof -
  let ?c = "invoke rl (CreateBarrier 1) w"
  define w1 where "w1 = (if n = 0 then snd ?c else w)"
  define rb' where "rb' = (if n = 0 then fst ?c else rb)"
  have rb': "rb' \<noteq> NO_EVENT" using rb barriers_advanceD(3)[OF b, of 1 w] by (simp add: rb'_def)
  let ?r = "(adv ^^ n) rb'"
  have ready': "(if target_ready_barrier r = NO_EVENT then ?c else (target_ready_barrier r, w)) = (?r, w1)"
    using ready barriers_advanceD(2)[OF b rb, of n] by (cases "n = 0") (simp_all add: w1_def rb'_def)
  obtain q w3 where q: "store_Precondition rl st (command rl (SpawnNames host key ?r i) w1) = (q, w3)"
    by fastforce
  let ?w4 = "command rl (ArriveBarrier ?r 1 q) w3"
  let ?w5 = "snd (invoke rl (AdvanceBarrier ?r) ?w4)"
  have eq: "send_instance rl host key i st r w =
      (r\<lparr>target_ready_barrier := (adv ^^ Suc n) rb'\<rparr>, ?w5)"
    using ready' q barriers_advanceD(1)[OF b, of ?r ?w4] by (simp add: send_instance_def Let_def case_prod_unfold)
  have "added key (trace_of w1) (trace_of w) [] []"
    using added_snoc[of key "trace_of w" "(CreateBarrier 1, fst ?c)"] by (simp add: w1_def added_refl)
  from added_trans[OF added_trans[OF added_store_Precondition[OF q, of key]
        added_snoc[of key "trace_of w1" "(SpawnNames host key ?r i, rl (trace_of w1) (SpawnNames host key ?r i))",
          folded trace_command]] this]
  have "added key (trace_of w3) (trace_of w) [] [(?r, i)]" by simp
  then have "added key (trace_of ?w4) (trace_of w) [] [(?r, i)]" by (simp add: added_snoc_quiet)
  from added_snoc_quiet[OF _ _ this] have add: "added key (trace_of ?w5) (trace_of w) [] [(?r, i)]"
    unfolding trace_invoke by simp
  have e: "extends (trace_of ?w5) (trace_of w3)" by simp
  have "after (trace_of ?w5) ?r q" by (rule after_arrive[of _ 1]) auto
  then have "waits_all (trace_of ?w5) ?r (recorded st)"
    using waits_all_trans waits_all_extends[OF e Precondition_waits[OF q]] by blast
  then show ?thesis using eq rb' add by (intro exI[of _ rb'] exI[of _ ?w5]) (simp add: rb'_def)
qed

lemma remote_wait:
  fixes w :: "'z runtime_scheme"
  assumes b: "barriers_advance rl adv" and user: "user_events_exist rl" and ab: "ab \<noteq> NO_EVENT"
    and d: "dst_inv adv rb ab (trace_of w) r0 msgs sent ys"
    and r: "r = r0\<lparr>target_ready_barrier := (adv ^^ Suc (length ys)) rb'\<rparr>"
  shows "\<exists>e r2 (w2 :: 'z runtime_scheme). target_wait rl i st r w = (e, r2, w2) \<and>
    dst_inv adv rb' ab (trace_of w2) r2 msgs sent (ys @ [(i, recorded st, Some e)]) \<and>
    added key (trace_of w2) (trace_of w) [] []"
proof (cases "sent \<and> msgs = []")
  case True
  let ?a = "(adv ^^ length ys) ab"
  let ?w1 = "snd (invoke rl (AdvanceBarrier ?a) w)"
  have ack: "ack_done_barrier r = ?a" "pending_dest r = []" "pending_source r = []" "shape_known r0"
    and old: "\<forall>k < length ys. \<exists>e. offer_event (ys ! k) = Some e \<and> after (trace_of w) e ((adv ^^ k) ab)"
    using True d r by (simp_all add: dst_inv_def)
  have a: "?a \<noteq> NO_EVENT" using barriers_advanceD(2)[OF b ab] .
  have ext: "extends (trace_of ?w1) (trace_of w)" by simp
  have old': "\<forall>k < length ys. \<exists>e. offer_event (ys ! k) = Some e \<and> after (trace_of ?w1) e ((adv ^^ k) ab)"
    using old after_extends[OF ext] by blast
  have "target_wait rl i st r w = (?a, r\<lparr>ack_done_barrier := adv ?a\<rparr>, ?w1)"
    using ack a barriers_advanceD(1)[OF b, of ?a w] by (simp add: target_wait_def case_prod_unfold)
  moreover have "dst_inv adv rb' ab (trace_of ?w1) (r\<lparr>ack_done_barrier := adv ?a\<rparr>) msgs sent
      (ys @ [(i, recorded st, Some ?a)])"
    using True ack r old' after_refl by (auto simp: dst_inv_def shape_known_def nth_append less_Suc_eq)
  moreover have "added key (trace_of ?w1) (trace_of w) [] []"
    using added_snoc[of key "trace_of w" "(AdvanceBarrier ?a, fst (invoke rl (AdvanceBarrier ?a) w))"] by simp
  ultimately show ?thesis by blast
next
  case False
  obtain u w1 where u: "invoke rl CreateUserEvent w = (u, w1)" by fastforce
  then have t1: "trace_of w1 = trace_of w @ [(CreateUserEvent, u)]" and u0: "u \<noteq> NO_EVENT"
    using user by (auto simp: invoke_def user_events_exist_def)
  obtain q w2 where q: "store_Precondition rl st w1 = (q, w2)" by fastforce
  let ?op = "\<lparr>op_precondition = q, op_postcondition = u, op_instance = i\<rparr>"
  have add: "added key (trace_of w2) (trace_of w) [] []"
    using added_trans[OF added_store_Precondition[OF q, of key]
        added_snoc[of key "trace_of w" "(CreateUserEvent, u)", folded t1]] by simp
  have x: "op_ok (trace_of w2) ?op (i, recorded st, Some u)"
    using Precondition_waits[OF q] u0 by (simp add: op_ok_def)
  have "msgs = (if sent then [(ab, NO_INST)] else []) \<and> ack_done_barrier r0 = NO_EVENT \<and>
      (\<forall>y \<in> set ys. offer_event y \<noteq> None) \<and> list_all2 (op_ok (trace_of w2)) (pending_dest r0) ys \<and>
      pending_source r0 = [] \<and> shape_known r0"
    using dst_inv_extends[OF added_extends[OF add] d] False by (auto simp: dst_inv_def)
  then show ?thesis using x r u q add
    by (intro exI[of _ u] exI[of _ "r\<lparr>pending_dest := pending_dest r @ [?op]\<rparr>"] exI[of _ w2])
      (auto simp: target_wait_def dst_inv_def shape_known_def list_all2_appendI)
qed

lemma clear_pending_ok:
  fixes w :: "'z runtime_scheme"
  assumes b: "barriers_advance rl adv"
  shows "list_all2 (op_ok (trace_of w)) ops ys \<Longrightarrow> \<forall>y \<in> set ys. offer_event y \<noteq> None \<Longrightarrow>
    \<exists>(w2 :: 'z runtime_scheme). clear_pending_dest rl a ops w = ret ((adv ^^ length ys) a, w2) \<and>
      added key (trace_of w2) (trace_of w) [] [] \<and>
      (\<forall>k < length ys. \<exists>e. offer_event (ys ! k) = Some e \<and> after (trace_of w2) e ((adv ^^ k) a))"
proof (induction ops arbitrary: ys a w)
  case Nil
  then show ?case by (auto simp: added_refl)
next
  case (Cons op ops)
  then obtain y zs e where ys: "ys = y # zs" "op_ok (trace_of w) op y" "list_all2 (op_ok (trace_of w)) ops zs"
    and y: "offer_event y = Some e" by (auto simp: list_all2_Cons1)
  let ?w1 = "snd (invoke rl (AdvanceBarrier a) w)"
  let ?w2 = "command rl (TriggerEvent e a) ?w1"
  have e: "op_postcondition op = e" "e \<noteq> NO_EVENT" using ys(2) y by (auto simp: op_ok_def)
  have "added key (trace_of ?w1) (trace_of w) [] []"
    using added_snoc[of key "trace_of w" "(AdvanceBarrier a, fst (invoke rl (AdvanceBarrier a) w))"] by simp
  then have add: "added key (trace_of ?w2) (trace_of w) [] []"
    unfolding trace_command by (intro added_snoc_quiet) simp_all
  have "list_all2 (op_ok (trace_of ?w2)) ops zs"
    using ys(3) op_ok_extends[OF added_extends[OF add]] by (rule list_all2_mono)
  from Cons.IH[OF this, of "adv a"] Cons.prems(2) ys(1) obtain w3 :: "'z runtime_scheme"
    where w3: "clear_pending_dest rl (adv a) ops ?w2 = ret ((adv ^^ length zs) (adv a), w3)"
      and add3: "added key (trace_of w3) (trace_of ?w2) [] []"
      and af: "\<forall>k < length zs. \<exists>e. offer_event (zs ! k) = Some e \<and> after (trace_of w3) e ((adv ^^ k) (adv a))"
    by auto
  have "after (trace_of ?w2) e a" by (rule after_trigger) auto
  then have "after (trace_of w3) e a" using after_extends[OF added_extends[OF add3]] by blast
  then have "\<forall>k < length ys. \<exists>e. offer_event (ys ! k) = Some e \<and> after (trace_of w3) e ((adv ^^ k) a)"
    using af y ys(1) by (auto simp: nth_Cons funpow_swap1 split: nat.splits)
  moreover have "clear_pending_dest rl a (op # ops) w = ret ((adv ^^ length ys) a, w3)"
    using w3 e barriers_advanceD(1)[OF b, of a w] ys(1)
    by (simp add: case_prod_unfold funpow_swap1)
  moreover have "added key (trace_of w3) (trace_of w) [] []" using added_trans[OF add3 add] by simp
  ultimately show ?case by blast
qed

lemma channel_arrived:
  assumes "channel_inv adv rb tr msgs flight arr ys"
  shows "distinct arr" and "set (arr @ flight) = {..<length ys}"
    and "length arr + length msgs = length ys" and "length flight = length msgs"
    and "map ((!) (ys @ zs)) arr = map ((!) ys) arr"
proof -
  have m: "mset (arr @ flight) = mset [0..<length ys]"
    and msgs: "msgs = map (\<lambda>k. ((adv ^^ k) rb, offer_inst (ys ! k))) flight"
    using assms by (simp_all add: channel_inv_def)
  have "distinct (arr @ flight)" using mset_eq_imp_distinct_iff[OF m] by simp
  then show "distinct arr" by simp
  show sets: "set (arr @ flight) = {..<length ys}"
    using mset_eq_setD[OF m] by (simp add: atLeast_upt)
  show len: "length flight = length msgs" using msgs by simp
  show "length arr + length msgs = length ys" using arg_cong[OF m, of size] len by simp
  have "k < length ys" if "k \<in> set arr" for k using that sets by auto
  then show "map ((!) (ys @ zs)) arr = map ((!) ys) arr" by (simp add: nth_append)
qed

lemma channel_send:
  assumes "channel_inv adv rb tr msgs flight arr ys" and "extends tr' tr" and "ys \<noteq> [] \<longrightarrow> rb' = rb"
    and "offer_inst y = i" and "i \<noteq> NO_INST" and "waits_all tr' ((adv ^^ length ys) rb') (offer_waits y)"
  shows "channel_inv adv rb' tr' (msgs @ [((adv ^^ length ys) rb', i)]) (flight @ [length ys]) arr (ys @ [y])"
proof -
  have c: "channel_inv adv rb' tr' msgs flight arr ys"
    using channel_inv_extends[OF assms(2,1)] assms(3) by (cases "ys = []") (auto simp: channel_inv_def)
  have m: "mset (arr @ flight) = mset [0..<length ys]"
    and msgs: "msgs = map (\<lambda>k. ((adv ^^ k) rb', offer_inst (ys ! k))) flight"
    and all: "\<forall>k < length ys. offer_inst (ys ! k) \<noteq> NO_INST \<and> waits_all tr' ((adv ^^ k) rb') (offer_waits (ys ! k))"
    using c by (simp_all add: channel_inv_def)
  have "k < length ys" if "k \<in> set flight" for k using that channel_arrived(2)[OF c] by auto
  then have "map (\<lambda>k. ((adv ^^ k) rb', offer_inst ((ys @ [y]) ! k))) flight = msgs"
    unfolding msgs by (simp add: nth_append)
  moreover have "mset (arr @ flight @ [length ys]) = mset [0..<length (ys @ [y])]" using m by simp
  ultimately show ?thesis using all assms(4-6) by (auto simp: channel_inv_def nth_append less_Suc_eq)
qed

lemma channel_receive:
  assumes c: "channel_inv adv rb tr msgs flight arr ys" and j: "j < length msgs" "msgs ! j = (b, i)"
  defines "d \<equiv> flight ! j"
  shows "d < length ys" and "b = (adv ^^ d) rb" and "i = offer_inst (ys ! d)" and "i \<noteq> NO_INST"
    and "waits_all tr b (offer_waits (ys ! d))"
    and "channel_inv adv rb tr (without j msgs) (without j flight) (arr @ [d]) ys"
proof -
  let ?f = "\<lambda>k. ((adv ^^ k) rb, offer_inst (ys ! k))"
  have m: "mset (arr @ flight) = mset [0..<length ys]" and msgs: "msgs = map ?f flight"
    and all: "\<forall>k < length ys. offer_inst (ys ! k) \<noteq> NO_INST \<and> waits_all tr ((adv ^^ k) rb) (offer_waits (ys ! k))"
    using c by (simp_all add: channel_inv_def)
  have jf: "j < length flight" using j(1) channel_arrived(4)[OF c] by simp
  then have f: "(b, i) = ?f d" using j(2) msgs by (simp add: d_def)
  then show "b = (adv ^^ d) rb" "i = offer_inst (ys ! d)" by simp_all
  have "d \<in> set (arr @ flight)" using nth_mem[OF jf] by (simp add: d_def)
  then show d: "d < length ys" unfolding channel_arrived(2)[OF c] by simp
  show "i \<noteq> NO_INST" "waits_all tr b (offer_waits (ys ! d))" using all d f by auto
  have "mset ((arr @ [d]) @ without j flight) = mset (arr @ flight)"
    using without_nth(1)[OF jf] by (simp add: d_def)
  then show "channel_inv adv rb tr (without j msgs) (without j flight) (arr @ [d]) ys"
    using m msgs all by (simp add: channel_inv_def map_without)
qed

text \<open>The invariant of the exchange, and that every step succeeds and keeps it.\<close>

definition remote_inv :: "(event \<Rightarrow> event) \<Rightarrow> reshard_key \<Rightarrow> exchange \<Rightarrow> bool" where
  "remote_inv adv key s \<longleftrightarrow> (\<exists>rb ab. rb \<noteq> NO_EVENT \<and> ab \<noteq> NO_EVENT \<and>
     src_inv adv ab (trace_of (ex_world s)) (src_mgr s key) (ex_sources s)
       (map ((!) (ex_targets s)) (ex_arrived s)) (ex_copies s) \<and>
     channel_inv adv rb (trace_of (ex_world s)) (to_src s) (ex_flight s) (ex_arrived s) (ex_targets s) \<and>
     dst_inv adv rb ab (trace_of (ex_world s)) (dst_mgr s key) (to_dst s) (ex_sources s \<noteq> [])
       (ex_targets s))"

lemma remote_inv_start: "exchange_start key s \<Longrightarrow> remote_inv adv key s"
  unfolding remote_inv_def exchange_start_def
  by (intro exI[of _ 1]) (simp add: src_inv_def channel_inv_def dst_inv_def matched_Nil new_p2p_def
      shape_known_def NO_EVENT_def)

lemma src_inv_same: "same_queues r r0 \<Longrightarrow> shape_known r \<Longrightarrow> p2p_shape r \<noteq> None \<Longrightarrow>
    src_inv adv ab tr r0 xs ys cs \<Longrightarrow> src_inv adv ab tr r xs ys cs"
  by (simp add: src_inv_def same_queues_def)

lemma dst_inv_same: "same_queues r r0 \<Longrightarrow> shape_known r \<Longrightarrow>
    dst_inv adv rb ab tr r0 msgs sent ys \<Longrightarrow> dst_inv adv rb ab tr r msgs sent ys"
  by (auto simp: dst_inv_def same_queues_def)

lemma source_call_keeps:
  assumes b: "barriers_advance rl adv" and user: "user_events_exist rl"
    and inv: "remote_inv adv key s" and ok: "source_ok m ts key True p v da"
  shows "\<exists>e mgr w. ReshardFromLocalSource rl m ts p shape key v da (src_mgr s) (ex_world s) =
      ret (e, mgr, w) \<and> remote_inv adv key (source_called key v e mgr w s)"
proof -
  let ?w = "ex_world s" and ?xs = "ex_sources s" and ?cs = "ex_copies s"
  let ?ys = "map ((!) (ex_targets s)) (ex_arrived s)"
  obtain rb ab where rb: "rb \<noteq> NO_EVENT" "ab \<noteq> NO_EVENT"
    and si: "src_inv adv ab (trace_of ?w) (src_mgr s key) ?xs ?ys ?cs"
    and ci: "channel_inv adv rb (trace_of ?w) (to_src s) (ex_flight s) (ex_arrived s) (ex_targets s)"
    and di: "dst_inv adv rb ab (trace_of ?w) (dst_mgr s key) (to_dst s) (?xs \<noteq> []) (ex_targets s)"
    using inv by (auto simp: remote_inv_def)
  have known: "shape_known (src_mgr s key)" using si by (simp add: src_inv_def)
  let ?i = "tile_instance (view_get v)" and ?pre = "view_Precondition v"
  obtain r host where r: "same_queues r (src_mgr s key)" "p2p_shape r \<noteq> None" "shape_known r"
    and eq: "ReshardFromLocalSource rl m ts p shape key v da (src_mgr s) ?w =
      (let (r1, w1) = send_ack_barrier rl True host key r ?w
       in andThen (source_pair rl True ?i ?pre r1 w1) (\<lambda>(e, r2, w2). ret (e, (src_mgr s)(key := r2), w2)))"
    using source_call_eq[where mgr = "src_mgr s" and rl = rl and w = ?w and shape = shape, OF ok known] by metis
  note si' = src_inv_same[OF r(1,3,2) si]
  have "\<exists>r1 w1 ab' ns. send_ack_barrier rl True host key r ?w = (r1, w1) \<and> ab' \<noteq> NO_EVENT \<and>
      matched (trace_of w1) (pending_source r1) (pending_dest r1) ?xs (map arrived ?ys) ?cs \<and>
      ack_done_barrier r1 = (adv ^^ length ?cs) ab' \<and> shape_known r1 \<and> p2p_shape r1 \<noteq> None \<and>
      (\<forall>k < length ?cs. after (trace_of w1) ((adv ^^ k) ab') (snd (snd (?cs ! k)))) \<and>
      dst_inv adv rb ab' (trace_of w1) (dst_mgr s key) (to_dst s @ ns) True (ex_targets s) \<and>
      added key (trace_of w1) (trace_of ?w) [] ns"
  proof (cases "?xs = []")
    case False
    then have "ack_done_barrier r \<noteq> NO_EVENT"
      using si' barriers_advanceD(2)[OF b rb(2)] by (simp add: src_inv_def)
    then show ?thesis using False si' di r rb(2)
      by (intro exI[of _ r] exI[of _ ?w] exI[of _ ab] exI[of _ "[]"])
        (auto simp: send_ack_barrier_def src_inv_def added_refl)
  next
    case True
    then have ack: "ack_done_barrier r = NO_EVENT" and cs: "?cs = []"
      using si' by (auto simp: src_inv_def matched_def)
    obtain ab' w0 where c: "invoke rl (CreateBarrier 1) ?w = (ab', w0)" by fastforce
    let ?w1 = "command rl (SpawnNames host key ab' NO_INST) w0"
    have ab': "ab' \<noteq> NO_EVENT" using barriers_advanceD(3)[OF b, of 1 ?w] c by simp
    have t0: "trace_of w0 = trace_of ?w @ [(CreateBarrier 1, ab')]" using c by (auto simp: invoke_def)
    have "added key (trace_of ?w1) (trace_of ?w) [] [(ab', NO_INST)]"
      unfolding trace_command
      using added_trans[OF
          added_snoc[of key "trace_of w0" "(SpawnNames host key ab' NO_INST, rl (trace_of w0) (SpawnNames host key ab' NO_INST))"]
          added_snoc[of key "trace_of ?w" "(CreateBarrier 1, ab')", folded t0]] by simp
    moreover note ext = added_extends[OF this]
    moreover have "dst_inv adv rb ab' (trace_of ?w1) (dst_mgr s key) (to_dst s @ [(ab', NO_INST)]) True (ex_targets s)"
      using dst_inv_extends[OF ext di] True by (auto simp: dst_inv_def)
    ultimately show ?thesis using True ack cs ab' c r si' matched_extends[OF ext]
      by (intro exI[of _ "r\<lparr>ack_done_barrier := ab'\<rparr>"] exI[of _ ?w1] exI[of _ ab'] exI[of _ "[(ab', NO_INST)]"])
        (auto simp: send_ack_barrier_def src_inv_def shape_known_def)
  qed
  then obtain r1 w1 ab' ns where s1: "send_ack_barrier rl True host key r ?w = (r1, w1)" "ab' \<noteq> NO_EVENT"
    "matched (trace_of w1) (pending_source r1) (pending_dest r1) ?xs (map arrived ?ys) ?cs"
    "ack_done_barrier r1 = (adv ^^ length ?cs) ab'" "shape_known r1" "p2p_shape r1 \<noteq> None"
    "\<forall>k < length ?cs. after (trace_of w1) ((adv ^^ k) ab') (snd (snd (?cs ! k)))"
    and d1: "dst_inv adv rb ab' (trace_of w1) (dst_mgr s key) (to_dst s @ ns) True (ex_targets s)"
    and a1: "added key (trace_of w1) (trace_of ?w) [] ns" by blast
  from remote_source_pair[where i = ?i and pre = ?pre and key = key, OF b user s1(2-7)]
  obtain e r2 new and w2 :: runtime where s2: "source_pair rl True ?i ?pre r1 w1 = ret (e, r2, w2)"
    and si2: "src_inv adv ab' (trace_of w2) r2 (?xs @ [(?i, {?pre}, Some e)]) ?ys (?cs @ new)"
    and a2: "added key (trace_of w2) (trace_of w1) new []" by blast
  have a: "added key (trace_of w2) (trace_of ?w) new ns" using added_trans[OF a2 a1] by simp
  have "remote_inv adv key (source_called key v e ((src_mgr s)(key := r2)) w2 s)"
    unfolding remote_inv_def
    using rb(1) s1(2) si2 channel_inv_extends[OF added_extends[OF a] ci]
      dst_inv_extends[OF added_extends[OF a2] d1] added_calls[OF a]
    by (intro exI[of _ rb] exI[of _ ab']) (simp add: source_called_def source_offer_def)
  then show ?thesis using eq s1(1) s2 by auto
qed

lemma target_call_keeps:
  assumes b: "barriers_advance rl adv" and user: "user_events_exist rl"
    and inv: "remote_inv adv key s" and ok: "target_ok m td key True p sa st"
    and inst: "tile_instance (store_get st) \<noteq> NO_INST"
  shows "\<exists>e mgr w. ReshardToLocalTarget rl m td p shape key sa st (dst_mgr s) (ex_world s) =
      ret (e, mgr, w) \<and> remote_inv adv key (target_called key st e mgr w s)"
proof -
  let ?w = "ex_world s" and ?xs = "ex_sources s" and ?cs = "ex_copies s" and ?ys = "ex_targets s"
  obtain rb ab where rb: "rb \<noteq> NO_EVENT" "ab \<noteq> NO_EVENT"
    and si: "src_inv adv ab (trace_of ?w) (src_mgr s key) ?xs (map ((!) ?ys) (ex_arrived s)) ?cs"
    and ci: "channel_inv adv rb (trace_of ?w) (to_src s) (ex_flight s) (ex_arrived s) ?ys"
    and di: "dst_inv adv rb ab (trace_of ?w) (dst_mgr s key) (to_dst s) (?xs \<noteq> []) ?ys"
    using inv by (auto simp: remote_inv_def)
  have known: "shape_known (dst_mgr s key)" using di by (simp add: dst_inv_def)
  let ?i = "tile_instance (store_get st)"
  obtain r host where r: "same_queues r (dst_mgr s key)" "p2p_shape r \<noteq> None" "shape_known r"
    and eq: "ReshardToLocalTarget rl m td p shape key sa st (dst_mgr s) ?w =
      (case pending_source r of
         op # ops \<Rightarrow> andThen (target_pair rl ?i st op ops r ?w) (\<lambda>(e, r1, w1). ret (e, (dst_mgr s)(key := r1), w1))
       | [] \<Rightarrow> (let (r1, w1) = (if True then send_instance rl host key ?i st r ?w else (r, ?w));
                (e, r2, w2) = target_wait rl ?i st r1 w1
            in ret (e, (dst_mgr s)(key := r2), w2)))"
    using target_call_eq[where mgr = "dst_mgr s" and rl = rl and w = ?w and shape = shape, OF ok known] by metis
  note di' = dst_inv_same[OF r(1,3) di]
  have none: "pending_source r = []"
    and ready: "target_ready_barrier r = (if length ?ys = 0 then NO_EVENT else (adv ^^ length ?ys) rb)"
    using di' by (simp_all add: dst_inv_def)
  from remote_send[where w = ?w and i = ?i and st = st and host = host and key = key, OF b rb(1) ready]
  obtain rb' and w1 :: runtime where s1: "send_instance rl host key ?i st r ?w =
      (r\<lparr>target_ready_barrier := (adv ^^ Suc (length ?ys)) rb'\<rparr>, w1)"
    and rb': "rb' \<noteq> NO_EVENT" "length ?ys \<noteq> 0 \<longrightarrow> rb' = rb"
    and wa: "waits_all (trace_of w1) ((adv ^^ length ?ys) rb') (recorded st)"
    and a1: "added key (trace_of w1) (trace_of ?w) [] [((adv ^^ length ?ys) rb', ?i)]" by blast
  from remote_wait[where i = ?i and st = st and key = key, OF b user rb(2)
      dst_inv_extends[OF added_extends[OF a1] di'] refl]
  obtain e r2 and w2 :: runtime where s2: "target_wait rl ?i st
      (r\<lparr>target_ready_barrier := (adv ^^ Suc (length ?ys)) rb'\<rparr>) w1 = (e, r2, w2)"
    and d2: "dst_inv adv rb' ab (trace_of w2) r2 (to_dst s) (?xs \<noteq> []) (?ys @ [(?i, recorded st, Some e)])"
    and a2: "added key (trace_of w2) (trace_of w1) [] []" by blast
  have a: "added key (trace_of w2) (trace_of ?w) [] [((adv ^^ length ?ys) rb', ?i)]"
    using added_trans[OF a2 a1] by simp
  let ?y = "(?i, recorded st, Some e)"
  have "channel_inv adv rb' (trace_of w2) (to_src s @ [((adv ^^ length ?ys) rb', ?i)])
      (ex_flight s @ [length ?ys]) (ex_arrived s) (?ys @ [?y])"
    using channel_send[OF ci added_extends[OF a], of rb' ?y ?i] rb'(2) inst
      waits_all_extends[OF added_extends[OF a2] wa] by auto
  moreover have "src_inv adv ab (trace_of w2) (src_mgr s key) ?xs (map ((!) (?ys @ [?y])) (ex_arrived s)) ?cs"
    unfolding channel_arrived(5)[OF ci] by (rule src_inv_extends[OF added_extends[OF a] si])
  ultimately have "remote_inv adv key (target_called key st e ((dst_mgr s)(key := r2)) w2 s)"
    unfolding remote_inv_def
    using rb(2) rb'(1) d2 added_calls[OF a]
    by (intro exI[of _ rb'] exI[of _ ab]) (simp add: target_called_def target_offer_def)
  then show ?thesis using eq none s1 s2 by auto
qed

lemma src_receive_keeps:
  assumes b: "barriers_advance rl adv" and inv: "remote_inv adv key s"
    and msg: "j < length (to_src s)" "to_src s ! j = (bar, i)"
  shows "\<exists>mgr w. PointToPointNameHandler rl (key, bar, i) (src_mgr s) (ex_world s) = ret (mgr, w) \<and>
    remote_inv adv key (src_received j mgr w s)"
proof -
  let ?w = "ex_world s" and ?xs = "ex_sources s" and ?cs = "ex_copies s" and ?ys = "ex_targets s"
  let ?d = "ex_flight s ! j"
  obtain rb ab where rb: "rb \<noteq> NO_EVENT" "ab \<noteq> NO_EVENT"
    and si: "src_inv adv ab (trace_of ?w) (src_mgr s key) ?xs (map ((!) ?ys) (ex_arrived s)) ?cs"
    and ci: "channel_inv adv rb (trace_of ?w) (to_src s) (ex_flight s) (ex_arrived s) ?ys"
    and di: "dst_inv adv rb ab (trace_of ?w) (dst_mgr s key) (to_dst s) (?xs \<noteq> []) ?ys"
    using inv by (auto simp: remote_inv_def)
  note c = channel_receive[OF ci msg]
  have "bar \<noteq> NO_EVENT" using c(2) barriers_advanceD(2)[OF b rb(1)] by simp
  from remote_receive[where key = key, OF b rb(2) this si c(5) c(3)[symmetric]]
  obtain r2 new and w2 :: runtime
    where s2: "receive_instance rl bar i (src_mgr s key) ?w = ret (r2, w2)"
      and i2: "src_inv adv ab (trace_of w2) r2 ?xs (map ((!) ?ys) (ex_arrived s) @ [?ys ! ?d]) (?cs @ new)"
      and a: "added key (trace_of w2) (trace_of ?w) new []" by blast
  have "remote_inv adv key (src_received j ((src_mgr s)(key := r2)) w2 s)"
    unfolding remote_inv_def
    using rb i2 channel_inv_extends[OF added_extends[OF a] c(6)] dst_inv_extends[OF added_extends[OF a] di]
      added_calls[OF a]
    by (intro exI[of _ rb] exI[of _ ab]) (simp add: src_received_def)
  then show ?thesis using s2 c(4)
    by (auto simp: PointToPointNameHandler_def ReceivePointToPointNames_def receive_names_def)
qed

lemma dst_receive_keeps:
  assumes b: "barriers_advance rl adv" and inv: "remote_inv adv key s"
    and msg: "j < length (to_dst s)" "to_dst s ! j = (bar, i)"
  shows "\<exists>mgr w. PointToPointNameHandler rl (key, bar, i) (dst_mgr s) (ex_world s) = ret (mgr, w) \<and>
    remote_inv adv key (dst_received j mgr w s)"
proof -
  let ?w = "ex_world s" and ?xs = "ex_sources s" and ?cs = "ex_copies s" and ?ys = "ex_targets s"
  obtain rb ab where rb: "rb \<noteq> NO_EVENT" "ab \<noteq> NO_EVENT"
    and si: "src_inv adv ab (trace_of ?w) (src_mgr s key) ?xs (map ((!) ?ys) (ex_arrived s)) ?cs"
    and ci: "channel_inv adv rb (trace_of ?w) (to_src s) (ex_flight s) (ex_arrived s) ?ys"
    and di: "dst_inv adv rb ab (trace_of ?w) (dst_mgr s key) (to_dst s) (?xs \<noteq> []) ?ys"
    using inv by (auto simp: remote_inv_def)
  have sent: "?xs \<noteq> []" and one: "to_dst s = [(ab, NO_INST)]"
    and ops: "list_all2 (op_ok (trace_of ?w)) (pending_dest (dst_mgr s key)) ?ys"
      "\<forall>y \<in> set ?ys. offer_event y \<noteq> None"
    using di msg(1) by (auto simp: dst_inv_def split: if_splits)
  have m: "bar = ab" "i = NO_INST" "without j (to_dst s) = []" using one msg by (auto simp: without_def)
  from clear_pending_ok[where a = ab and key = key, OF b ops] obtain w2 :: runtime
    where s2: "clear_pending_dest rl ab (pending_dest (dst_mgr s key)) ?w = ret ((adv ^^ length ?ys) ab, w2)"
      and a: "added key (trace_of w2) (trace_of ?w) [] []"
      and af: "\<forall>k < length ?ys. \<exists>e. offer_event (?ys ! k) = Some e \<and> after (trace_of w2) e ((adv ^^ k) ab)" by blast
  let ?r = "(dst_mgr s key)\<lparr>ack_done_barrier := (adv ^^ length ?ys) ab, pending_dest := []\<rparr>"
  have "dst_inv adv rb ab (trace_of w2) ?r [] (?xs \<noteq> []) ?ys"
    using di af sent by (auto simp: dst_inv_def shape_known_def)
  then have "remote_inv adv key (dst_received j ((dst_mgr s)(key := ?r)) w2 s)"
    unfolding remote_inv_def
    using rb m src_inv_extends[OF added_extends[OF a] si] channel_inv_extends[OF added_extends[OF a] ci]
      added_calls[OF a]
    by (intro exI[of _ rb] exI[of _ ab]) (simp add: dst_received_def)
  then show ?thesis using s2 m rb
    by (auto simp: PointToPointNameHandler_def ReceivePointToPointNames_def receive_names_def
        receive_barrier_def)
qed

lemma step_keeps:
  assumes "barriers_advance rl adv" and "user_events_exist rl"
    and "exchange_step rl m ts td key s s'" and "remote_inv adv key s"
  shows "remote_inv adv key s'"
  using assms(3)
proof cases
  case (step_source p v da shape e mgr w)
  then show ?thesis using source_call_keeps[OF assms(1,2,4) step_source(2), of shape] by auto
next
  case (step_target p sa st shape e mgr w)
  then show ?thesis using target_call_keeps[OF assms(1,2,4) step_target(2,3), of shape] by auto
next
  case (step_to_src j b i mgr w)
  then show ?thesis using src_receive_keeps[OF assms(1,4) step_to_src(2,3)] by auto
next
  case (step_to_dst j b i mgr w)
  then show ?thesis using dst_receive_keeps[OF assms(1,4) step_to_dst(2,3)] by auto
next
  case (step_other w mgr mgr')
  then show ?thesis using assms(4) src_inv_extends[OF step_other(2)] channel_inv_extends[OF step_other(2)]
      dst_inv_extends[OF step_other(2)]
    by (fastforce simp: remote_inv_def)
qed

lemma reachable_inv:
  assumes "barriers_advance rl adv" and "user_events_exist rl" and "exchange_start key s0"
    and "(exchange_step rl m ts td key)\<^sup>*\<^sup>* s0 s"
  shows "remote_inv adv key s"
  using assms(4) by (induction rule: rtranclp_induct)
    (use assms(3) remote_inv_start in blast, use step_keeps[OF assms(1,2)] in blast)

end

lemma exchange_events:
  assumes "exchange_start key s0" and "(exchange_step rl m ts td key)\<^sup>*\<^sup>* s0 s"
  shows "\<forall>x \<in> set (ex_sources s) \<union> set (ex_targets s). offer_event x \<noteq> None"
  using assms(2,1)
  by (induction rule: rtranclp_induct)
    (auto simp: exchange_start_def source_called_def target_called_def src_received_def
      dst_received_def source_offer_def target_offer_def elim!: exchange_step.cases)

text \<open>
  C18. The two ends on two processes, in every interleaving of calls and of the deliveries of their
  messages, which may arrive in any order: there is a copy for every source call that the name of a
  target has arrived for, and the copy number \<open>k\<close> is made between the source of the call number
  \<open>k\<close> and the target whose name was the \<open>k\<close>-th to arrive; no target gets two copies. A copy comes
  after what its source and its target were waiting for, and the source's event comes after it. Once
  the source's barrier has arrived, the event of the target call number \<open>k\<close> comes after the copy number
  \<open>k\<close>: that is the copy into its own tile when the names arrive in the order in which they were sent.
\<close>

theorem remote_pairing:
  assumes "barriers_advance rl adv" and "user_events_exist rl" and "exchange_start key s0"
    and "(exchange_step rl m ts td key)\<^sup>*\<^sup>* s0 s"
  shows "distinct (ex_arrived s) \<and>
    length (ex_arrived s) + length (to_src s) = length (ex_targets s) \<and>
    length (ex_copies s) = min (length (ex_sources s)) (length (ex_arrived s)) \<and>
    (\<forall>k < length (ex_copies s). \<exists>src src_waits src_event dst dst_waits dst_event ack copy.
       ex_sources s ! k = (src, src_waits, Some src_event) \<and>
       ex_arrived s ! k < length (ex_targets s) \<and>
       ex_targets s ! (ex_arrived s ! k) = (dst, dst_waits, Some dst_event) \<and>
       ex_copies s ! k = (src, dst, copy) \<and>
       (\<forall>d \<in> src_waits \<union> dst_waits. depends (trace_of (ex_world s)) copy d) \<and>
       depends (trace_of (ex_world s)) src_event copy \<and>
       offer_event (ex_targets s ! k) = Some ack \<and>
       (to_dst s = [] \<longrightarrow> depends (trace_of (ex_world s)) ack copy))"
proof -
  let ?tr = "trace_of (ex_world s)" and ?xs = "ex_sources s" and ?ys = "ex_targets s" and ?cs = "ex_copies s"
  let ?arr = "ex_arrived s"
  obtain rb ab where si: "deps.src_inv adv ab ?tr (src_mgr s key) ?xs (map ((!) ?ys) ?arr) ?cs"
    and ci: "deps.channel_inv adv rb ?tr (to_src s) (ex_flight s) ?arr ?ys"
    and di: "deps.dst_inv adv rb ab ?tr (dst_mgr s key) (to_dst s) (?xs \<noteq> []) ?ys"
    using deps.reachable_inv[OF assms] by (auto simp: deps.remote_inv_def)
  note arr = deps.channel_arrived(1-3)[OF ci]
  have m: "deps.matched ?tr (pending_source (src_mgr s key)) (pending_dest (src_mgr s key)) ?xs
      (map arrived (map ((!) ?ys) ?arr)) ?cs" using si by (simp add: deps.src_inv_def)
  then have len: "length ?cs = min (length ?xs) (length ?arr)" by (simp add: deps.matched_def)
  have some: "\<forall>x \<in> set ?xs \<union> set ?ys. offer_event x \<noteq> None"
    using exchange_events[OF assms(3,4)] .
  have "\<exists>src src_waits src_event dst dst_waits dst_event ack copy.
       ?xs ! k = (src, src_waits, Some src_event) \<and> ?arr ! k < length ?ys \<and>
       ?ys ! (?arr ! k) = (dst, dst_waits, Some dst_event) \<and> ?cs ! k = (src, dst, copy) \<and>
       (\<forall>d \<in> src_waits \<union> dst_waits. depends ?tr copy d) \<and>
       depends ?tr src_event copy \<and> offer_event (?ys ! k) = Some ack \<and>
       (to_dst s = [] \<longrightarrow> depends ?tr ack copy)"
    if k: "k < length ?cs" for k
  proof -
    have kl: "k < length ?xs" "k < length ?arr" "k < length ?ys" using k len arr(3) by auto
    have a: "?arr ! k < length ?ys" using nth_mem[OF kl(2)] arr(2) by auto
    obtain src sw se where x: "?xs ! k = (src, sw, Some se)"
      using some nth_mem[OF kl(1)] by (cases "?xs ! k") force
    obtain dst dw de where y: "?ys ! (?arr ! k) = (dst, dw, Some de)"
      using some nth_mem[OF a] by (cases "?ys ! (?arr ! k)") force
    obtain ack where ack: "offer_event (?ys ! k) = Some ack"
      using some nth_mem[OF kl(3)] by blast
    obtain c1 c2 copy where c: "?cs ! k = (c1, c2, copy)" by (cases "?cs ! k")
    have "deps.pair_ok ?tr (?xs ! k) (arrived (?ys ! (?arr ! k))) (?cs ! k)"
      using m k kl by (auto simp: deps.matched_def)
    moreover have "depends ?tr ack copy" if "to_dst s = []"
    proof -
      have "?xs \<noteq> []" using kl by auto
      then have "\<exists>e. offer_event (?ys ! k) = Some e \<and> depends ?tr e ((adv ^^ k) ab)"
        using di that kl(3) by (simp add: deps.dst_inv_def)
      then have "depends ?tr ack ((adv ^^ k) ab)" using ack by simp
      moreover have "depends ?tr ((adv ^^ k) ab) copy" using si k c by (auto simp: deps.src_inv_def)
      ultimately show ?thesis by (rule depends_trans)
    qed
    ultimately show ?thesis using x y c a ack
      by (simp add: deps.pair_ok_def deps.waits_all_def arrived_def)
  qed
  then show ?thesis using len arr(1,3) by blast
qed

definition barrier_realm :: realm where
  "barrier_realm tr c = (case c of AdvanceBarrier b \<Rightarrow> Suc b | _ \<Rightarrow> 100 * Suc (length tr))"

lemma barrier_realm_ok: "barriers_advance barrier_realm Suc" "user_events_exist barrier_realm"
  by (auto simp: barriers_advance_def user_events_exist_def barrier_realm_def NO_EVENT_def)

text \<open>Four devices, the first two on one process and the others on another.\<close>

definition two_spaces :: machine where
  "two_spaces = \<lparr>address_space_count = 2, procs_query = [10, 11, 12, 13], kind_of = \<lambda>_. LOC_PROC,
     space_of = (\<lambda>p. if p < 12 then 0 else 1), local_by_kind = \<lambda>_. []\<rparr>"

definition four_tables :: proc_tables where
  "four_tables = no_tables\<lparr>all_procs := \<lambda>_. [10, 11, 12, 13]\<rparr>"

definition example_key :: reshard_key where
  "example_key = \<lparr>key_src_id = unique_id_of (example_array 0 50), key_dst_id = unique_id_of (example_array 1 60),
     key_src_shard = 0, key_dst_shard = 2\<rparr>"

definition example_view :: "sharded_array view" where
  "example_view = \<lparr>view_pre = Some \<lparr>ep_stream = 7, ep_effects = 7\<rparr>, war_dependency = None, sub_views = [],
     view_content = SharedValue (Some (example_array 0 50))\<rparr>"

definition example_target :: "sharded_array store" where
  "example_target = Store_DeferredCreate 9 (example_array 1 60)"

definition exchange0 :: exchange where
  "exchange0 = \<lparr>src_mgr = GetManager, dst_mgr = GetManager, to_src = [], to_dst = [], ex_sources = [],
     ex_targets = [], ex_copies = [], ex_flight = [], ex_arrived = [], ex_world = \<lparr>trace_of = [], pending_ops = 0\<rparr>\<rparr>"

lemma example_host:
  "HostForShard two_spaces four_tables (example_array i inst) 0 = ret 10"
  "HostForShard two_spaces four_tables (example_array i inst) 2 = ret 12"
  by (simp_all add: HostForShard_def example_array_def example_shape_def cpu_def dl_defs add64_def chk_def
      GetAttachedHost_def RemoteProc_def four_tables_def two_spaces_def value_or_def vec_at_def int64_ok_def
      int64_min_def int64_max_def no_tables_def)

lemma example_facts:
  "view_get example_view = ret (example_array 0 50)" "view_Precondition example_view = 7"
  "store_get example_target = ret (example_array 1 60)"
  "child_rw example_target = Some \<lparr>ep_stream = 9, ep_effects = 9\<rparr>" "war_pre example_target = None"
  "\<not> HasName (example_array i x)" "HasTile (example_array i x)"
  "sa_tile (example_array i x) = Some \<lparr>at_instance = x, at_shape = \<lparr>tsh_type = F32, tsh_dims = [4],
     tsh_bounds = \<lparr>rect_rank = 1, rect_lo = [0], rect_hi = [3]\<rparr>\<rparr>, at_type = Int32\<rparr>"
  "space_of two_spaces 10 = 0" "space_of two_spaces 12 = 1"
  "pr_proc (cpu 0) = 10" "pr_proc (cpu 2) = 12"
  "key_src_shard example_key = 0" "key_dst_shard example_key = 2"
  by (simp_all add: example_view_def example_target_def example_array_def view_get_def view_Precondition_def
      store_get_def Store_DeferredCreate_def HasName_def HasTile_def two_spaces_def cpu_def example_key_def)

lemma example_calls_ok:
  "source_ok two_spaces four_tables example_key True (cpu 0) example_view (example_array 1 60)"
  "target_ok two_spaces four_tables example_key True (cpu 2) (example_array 0 50) example_target"
  by (simp_all add: source_ok_def target_ok_def example_host example_facts)

text \<open>A target call, the delivery of its message, and a source call.\<close>

definition example_box :: rect where
  "example_box = \<lparr>rect_rank = 1, rect_lo = [0], rect_hi = [3]\<rparr>"

lemma example_run:
  "\<exists>s copy. (exchange_step barrier_realm two_spaces four_tables four_tables example_key)\<^sup>*\<^sup>* exchange0 s \<and>
     ex_copies s = [(50, 60, copy)] \<and> ex_targets s ! 0 = (60, {9}, Some 500) \<and> ex_arrived s = [0]"
proof -
  let ?step = "exchange_step barrier_realm two_spaces four_tables four_tables example_key"
  obtain n where n: "ReshardName (example_array 0 50) (example_array 1 60) = ret n"
    using ReshardName_ok[of "example_array 0 50" "example_array 1 60"] example_facts by auto
  define w1 :: runtime where "w1 = \<lparr>trace_of = [(CreateBarrier 1, 100), (SpawnNames 10 example_key 100 60, 200),
    (ArriveBarrier 100 1 9, 300), (AdvanceBarrier 100, 101), (CreateUserEvent, 500)], pending_ops = 0\<rparr>"
  obtain mgr1 where t: "ReshardToLocalTarget barrier_realm two_spaces four_tables (cpu 2) example_box
      example_key (example_array 0 50) example_target GetManager \<lparr>trace_of = [], pending_ops = 0\<rparr> =
      ret (500, mgr1, w1)"
    using n by (simp add: ReshardToLocalTarget_def RendezvousReshardToLocalTarget_def example_facts
        array_tile_of_def first_use_def GetManager_def new_p2p_def example_host send_instance_def
        target_wait_def store_Precondition_def invoke_def command_def barrier_realm_def NO_EVENT_def w1_def)
  let ?s1 = "target_called example_key example_target 500 mgr1 w1 exchange0"
  have 1: "?step exchange0 ?s1"
    using step_target[OF example_calls_ok(2), of barrier_realm example_box exchange0 500 mgr1 w1 four_tables] t
    by (simp add: exchange0_def tile_instance_def example_facts NO_INST_def)
  have s1: "to_src ?s1 = [(100, 60)]" "src_mgr ?s1 = GetManager" "ex_world ?s1 = w1" "ex_copies ?s1 = []"
    "ex_targets ?s1 = [target_offer example_target 500]" "ex_flight ?s1 = [0]" "ex_arrived ?s1 = []"
    by (simp_all add: target_called_def exchange0_def calls_since_def w1_def names_in_def copies_in_def)
  define mgr2 where "mgr2 = GetManager(example_key := new_p2p\<lparr>pending_dest := [\<lparr>op_precondition = 100,
    op_postcondition = NO_EVENT, op_instance = 60\<rparr>]\<rparr>)"
  have h: "PointToPointNameHandler barrier_realm (example_key, 100, 60) GetManager w1 = ret (mgr2, w1)"
    by (simp add: PointToPointNameHandler_def ReceivePointToPointNames_def receive_names_def
        receive_instance_def GetManager_def new_p2p_def mgr2_def NO_EVENT_def NO_INST_def)
  let ?s2 = "src_received 0 mgr2 w1 ?s1"
  have 2: "?step ?s1 ?s2"
    using step_to_src[of 0 ?s1 100 60 barrier_realm example_key mgr2 w1] s1 h by simp
  have s2: "src_mgr ?s2 = mgr2" "ex_world ?s2 = w1" "ex_copies ?s2 = []" "ex_targets ?s2 = ex_targets ?s1"
    "ex_arrived ?s2 = [0]"
    using s1 by (simp_all add: src_received_def calls_since_def)
  obtain mgr3 w3 where c: "ReshardFromLocalSource barrier_realm two_spaces four_tables (cpu 0) example_box
      example_key example_view (example_array 1 60) mgr2 w1 = ret (900, mgr3, w3) \<and>
      copies_in (drop 5 (trace_of w3)) = [(50, 60, 900)]"
    using n by (simp add: ReshardFromLocalSource_def RendezvousReshardFromLocalSource_def example_facts
        array_tile_of_def first_use_def GetManager_def new_p2p_def example_host send_ack_barrier_def
        source_pair_def RemoteCopyNextPendingToTarget_def get_shape_def merge2_def IssueCopy_def
        invoke_def command_def barrier_realm_def NO_EVENT_def w1_def mgr2_def copies_in_def)
  let ?s3 = "source_called example_key example_view 900 mgr3 w3 ?s2"
  have 3: "?step ?s2 ?s3"
    using step_source[OF example_calls_ok(1), of barrier_realm example_box ?s2 900 mgr3 w3 four_tables] c s2 by simp
  have len: "length (trace_of w1) = 5" by (simp add: w1_def)
  have "ex_copies ?s3 = [(50, 60, 900)]"
    using conjunct2[OF c] s2(2,3) by (simp add: source_called_def calls_since_def len)
  moreover have "ex_targets ?s3 = [target_offer example_target 500]" "ex_arrived ?s3 = [0]"
    using s2 s1 by (simp_all add: source_called_def)
  moreover have "?step\<^sup>*\<^sup>* exchange0 ?s3" 
    using rtranclp.rtrancl_into_rtrancl[OF rtranclp.rtrancl_into_rtrancl[OF
        r_into_rtranclp[of ?step, OF 1] 2] 3] .
  ultimately show ?thesis
    by (intro exI[of _ ?s3] exI[of _ 900])
      (simp add: target_offer_def tile_instance_def example_facts recorded_def)
qed

theorem remote_pairing_witness:
  "\<exists>s copy. (exchange_step barrier_realm two_spaces four_tables four_tables example_key)\<^sup>*\<^sup>* exchange0 s \<and>
     ex_copies s = [(50, 60, copy)] \<and> depends (trace_of (ex_world s)) copy 9"
proof -
  obtain s copy where s: "(exchange_step barrier_realm two_spaces four_tables four_tables example_key)\<^sup>*\<^sup>* exchange0 s"
    "ex_copies s = [(50, 60, copy)]" "ex_targets s ! 0 = (60, {9}, Some 500)" "ex_arrived s = [0]"
    using example_run by blast
  have start: "exchange_start example_key exchange0"
    by (simp add: exchange_start_def exchange0_def GetManager_def)
  from remote_pairing[OF barrier_realm_ok start s(1)] s(2-4)
  have "depends (trace_of (ex_world s)) copy 9" by auto
  then show ?thesis using s by blast
qed

text \<open>And on one process: a target call and a source call.\<close>

definition local_key :: reshard_key where
  "local_key = example_key\<lparr>key_dst_shard := 0\<rparr>"

definition local_calls_example :: "end_call list" where
  "local_calls_example = [TargetCall (cpu 0) example_box (example_array 0 50) example_target,
     SourceCall (cpu 0) example_box example_view (example_array 1 60)]"

theorem local_pairing_witness:
  "\<exists>es mgr' src_event copy (w' :: runtime).
     do_calls barrier_realm two_spaces four_tables local_key local_calls_example GetManager
       \<lparr>trace_of = [], pending_ops = 0\<rparr> = ret (es, mgr', w') \<and>
     copies_in (trace_of w') = [(50, 60, copy)] \<and>
     source_offers local_calls_example es = [(50, {7}, Some src_event)] \<and>
     depends (trace_of w') copy 7 \<and> depends (trace_of w') copy 9 \<and> depends (trace_of w') src_event copy"
proof -
  have ok: "list_all (call_ok two_spaces four_tables local_key False) local_calls_example"
    by (simp add: local_calls_example_def local_key_def source_ok_def target_ok_def example_facts example_host)
  have new: "GetManager local_key = new_p2p" by (simp add: GetManager_def)
  let ?w = "\<lparr>trace_of = [], pending_ops = 0\<rparr> :: runtime"
  from local_pairing[where w = ?w and mgr = GetManager, OF ok new barrier_realm_ok(2)]
  obtain es mgr' copies and w' :: runtime
    where run: "do_calls barrier_realm two_spaces four_tables local_key local_calls_example GetManager ?w =
        ret (es, mgr', w')"
      and c: "copies_in (trace_of w') = copies"
        "length copies = min (length (source_offers local_calls_example es)) (length (target_offers local_calls_example es))"
      and p: "\<forall>k < length copies. \<exists>src src_waits src_event dst dst_waits dst_event copy.
       source_offers local_calls_example es ! k = (src, src_waits, Some src_event) \<and>
       target_offers local_calls_example es ! k = (dst, dst_waits, Some dst_event) \<and> copies ! k = (src, dst, copy) \<and>
       (\<forall>d \<in> src_waits \<union> dst_waits. depends (trace_of w') copy d) \<and>
       depends (trace_of w') src_event copy \<and> depends (trace_of w') dst_event copy"
    by auto
  from run obtain e1 e2 where es: "es = [e1, e2]"
    by (auto simp: local_calls_example_def andThen_eq_ret split: prod.splits)
  have offers: "source_offers local_calls_example es = [(50, {7}, Some e2)]"
    "target_offers local_calls_example es = [(60, {9}, Some e1)]"
    by (simp_all add: es local_calls_example_def source_offer_def target_offer_def tile_instance_def
        example_facts recorded_def)
  then obtain copy where "copies = [(50, 60, copy)]" "depends (trace_of w') copy 7"
    "depends (trace_of w') copy 9" "depends (trace_of w') e2 copy"
    using p c(2) by (cases copies) auto
  then show ?thesis using run c(1) offers by blast
qed

section \<open>The exchange never fails\<close>

text \<open>
  C19. In every reachable state of the exchange every call of either end and every delivery of a message,
  whichever of the messages on their way is the next to arrive, returns: no assertion of the manager
  fails, no queue is read past its end, and no copy is issued on a shape that was not set. A call is
  one for the key on arrays with their tiles, in which a named target has a named source
  (\<open>source_ok\<close>, \<open>target_ok\<close>).
\<close>

theorem exchange_never_fails:
  assumes "barriers_advance rl adv" and "user_events_exist rl" and "exchange_start key s0"
    and "(exchange_step rl m ts td key)\<^sup>*\<^sup>* s0 s"
  shows "(source_ok m ts key True p v da \<longrightarrow>
      (\<exists>r. ReshardFromLocalSource rl m ts p shape key v da (src_mgr s) (ex_world s) = ret r)) \<and>
    (target_ok m td key True p' sa st \<and> tile_instance (store_get st) \<noteq> NO_INST \<longrightarrow>
      (\<exists>r. ReshardToLocalTarget rl m td p' shape key sa st (dst_mgr s) (ex_world s) = ret r)) \<and>
    (\<forall>bar i. (bar, i) \<in> set (to_src s) \<longrightarrow>
      (\<exists>r. PointToPointNameHandler rl (key, bar, i) (src_mgr s) (ex_world s) = ret r)) \<and>
    (\<forall>bar i. (bar, i) \<in> set (to_dst s) \<longrightarrow>
      (\<exists>r. PointToPointNameHandler rl (key, bar, i) (dst_mgr s) (ex_world s) = ret r))"
proof -
  note inv = deps.reachable_inv[OF assms]
  show ?thesis
    using deps.source_call_keeps[OF assms(1,2) inv, of m ts p v da shape]
      deps.target_call_keeps[OF assms(1,2) inv, of m td p' sa st shape]
      deps.src_receive_keeps[OF assms(1) inv] deps.dst_receive_keeps[OF assms(1) inv]
    unfolding in_set_conv_nth by blast
qed

theorem exchange_never_fails_witness:
  "\<exists>r. ReshardFromLocalSource barrier_realm two_spaces four_tables (cpu 0) example_box example_key
     example_view (example_array 1 60) (src_mgr exchange0) (ex_world exchange0) = ret r"
proof -
  have "exchange_start example_key exchange0"
    by (simp add: exchange_start_def exchange0_def GetManager_def)
  from exchange_never_fails[OF barrier_realm_ok this rtranclp.rtrancl_refl] example_calls_ok(1)
  show ?thesis by blast
qed

section \<open>What the code leaves open\<close>

text \<open>
  The order of the messages matters: a source that learns of the second target before the first
  pairs its first copy with the second.
\<close>

lemma names_reordered:
  assumes "i0 \<noteq> NO_INST" and "i1 \<noteq> NO_INST" and "b0 \<noteq> NO_EVENT" and "b1 \<noteq> NO_EVENT"
  shows "\<exists>r1 r2. receive_names rl b1 i1 new_p2p w = ret (r1, w) \<and> receive_names rl b0 i0 r1 w = ret (r2, w) \<and>
    map op_instance (pending_dest r2) = [i1, i0]"
  using assms by (simp add: receive_names_def receive_instance_def new_p2p_def)

text \<open>
  Which array's name a reshard is logged and profiled under: the source's, whenever the target has a
  name. A source without one is read all the same.
\<close>

lemma ReshardName_unnamed_source:
  "HasName dst \<Longrightarrow> \<not> HasName src \<Longrightarrow> sa_tile src = Some tile \<Longrightarrow>
   ReshardName src dst = fail (Undefined EmptyOptional)"
  by (simp add: ReshardName_def HasTile_def HasName_def array_tile_of_def array_name_def)

text \<open>The destructor leaves the barriers of the targets alone.\<close>

lemma ready_barrier_leaks:
  assumes "ack_done_barrier (mgr key) = NO_EVENT" and "target_ready_barrier (mgr key) \<noteq> NO_EVENT"
  shows "ReshardManager_destroy rl [key] mgr w = w"
  using assms by (simp add: ReshardManager_destroy_def)

end
