(* ===== verification/Reshard_Safety.thy ===== *)
theory Reshard_Safety
  imports Reshard_Exec Reshard_Exchange
begin

text \<open>
  Reshards and their source. The events of a view and of a store follow the copies of every protocol of
  \<open>Reshard_Exec\<close>: what the calls of a process start is answered for by an event that its users wait for.
\<close>

section \<open>Who answers for a copy\<close>

text \<open>
  A process's copies that read one instance, or that write one, and the events of the ends of a copy
  that are still waiting for a partner. In between two states every access that was issued, and every
  end that waits, is answered for: it ends before one of some given events, or before the event of an
  end that was waiting before.
\<close>

locale access_log =
  fixes accesses :: "trace \<Rightarrow> event set" and waiting :: "reshard_manager \<Rightarrow> event set"
  assumes accesses_append: "accesses (tr @ tr') = accesses tr \<union> accesses tr'"
begin

definition kept ::
  "reshard_manager \<Rightarrow> trace \<Rightarrow> event set \<Rightarrow> reshard_manager \<Rightarrow> trace \<Rightarrow> bool" where
  "kept mgr tr E mgr' tr' \<longleftrightarrow> (\<exists>new. tr' = tr @ new \<and>
     (\<forall>c \<in> accesses new \<union> waiting mgr'. \<exists>x \<in> E \<union> waiting mgr. depends tr' x c))"

lemma kept_extends: "kept mgr tr E mgr' tr' \<Longrightarrow> extends tr' tr"
  by (auto simp: kept_def)

lemma kept_mono: "kept mgr tr E mgr' tr' \<Longrightarrow> E \<subseteq> E' \<Longrightarrow> kept mgr tr E' mgr' tr'"
  unfolding kept_def by blast

lemma kept_trans:
  assumes 1: "kept mgr tr E mgr1 tr1" and 2: "kept mgr1 tr1 E' mgr2 tr2"
  shows "kept mgr tr (E \<union> E') mgr2 tr2"
proof -
  obtain n1 where t1: "tr1 = tr @ n1"
    and a1: "\<And>c. c \<in> accesses n1 \<union> waiting mgr1 \<Longrightarrow> \<exists>x \<in> E \<union> waiting mgr. depends tr1 x c"
    using 1 unfolding kept_def by blast
  obtain n2 where t2: "tr2 = tr1 @ n2"
    and a2: "\<And>c. c \<in> accesses n2 \<union> waiting mgr2 \<Longrightarrow> \<exists>x \<in> E' \<union> waiting mgr1. depends tr2 x c"
    using 2 unfolding kept_def by blast
  have ext: "extends tr2 tr1" using t2 by simp
  have old: "\<exists>x \<in> E \<union> waiting mgr. depends tr2 x c" if "c \<in> accesses n1 \<union> waiting mgr1" for c
    using a1[OF that] depends_extends[OF ext] by blast
  have "\<exists>x \<in> E \<union> E' \<union> waiting mgr. depends tr2 x c"
    if "c \<in> accesses (n1 @ n2) \<union> waiting mgr2" for c
  proof -
    consider "c \<in> accesses n1" | "c \<in> accesses n2 \<union> waiting mgr2"
      using \<open>c \<in> _\<close> accesses_append by blast
    then show ?thesis
    proof cases
      case 1
      then show ?thesis using old by blast
    next
      case 2
      then obtain x where x: "x \<in> E' \<union> waiting mgr1" "depends tr2 x c" using a2 by blast
      show ?thesis
      proof (cases "x \<in> E'")
        case False
        then obtain y where "y \<in> E \<union> waiting mgr" "depends tr2 y x" using old x(1) by blast
        then show ?thesis using x(2) depends_trans by blast
      qed (use x in blast)
    qed
  qed
  then show ?thesis unfolding kept_def t2 t1 by (intro exI[of _ "n1 @ n2"]) simp
qed

lemma kept_covered:
  assumes "kept mgr tr E mgr' tr'" and "\<And>e. e \<in> E \<Longrightarrow> depends tr' u e"
  shows "kept mgr tr {u} mgr' tr'"
  using assms depends_trans unfolding kept_def by (metis (no_types, lifting) Un_iff singletonI)

lemma kept_quiet:
  assumes "accesses new = {}" and "waiting mgr' \<subseteq> waiting mgr"
  shows "kept mgr tr {} mgr' (tr @ new)"
  using assms unfolding kept_def by blast

lemma kept_later: "kept mgr tr E mgr1 tr1 \<Longrightarrow> kept mgr1 tr1 {} mgr2 tr2 \<Longrightarrow> kept mgr tr E mgr2 tr2"
  using kept_trans[of mgr tr E mgr1 tr1 "{}" mgr2 tr2] by simp

end

text \<open>The reads of an instance, answered for by the source's end, and the writes, by the target's.\<close>

definition reads_in :: "inst \<Rightarrow> trace \<Rightarrow> event set" where
  "reads_in i tr = {c. \<exists>d. (i, d, c) \<in> set (copies_in tr)}"

definition writes_in :: "inst \<Rightarrow> trace \<Rightarrow> event set" where
  "writes_in i tr = {c. \<exists>s. (s, i, c) \<in> set (copies_in tr)}"

definition waiting_reads :: "inst \<Rightarrow> reshard_manager \<Rightarrow> event set" where
  "waiting_reads i mgr =
     {op_postcondition op |key op. op \<in> set (pending_source (mgr key)) \<and> op_instance op = i}"

definition waiting_writes :: "inst \<Rightarrow> reshard_manager \<Rightarrow> event set" where
  "waiting_writes i mgr =
     {op_postcondition op |key op. op \<in> set (pending_dest (mgr key)) \<and> op_instance op = i}"

interpretation reads: access_log "reads_in i" "waiting_reads i" for i
  by unfold_locales (auto simp: reads_in_def)

interpretation writes: access_log "writes_in i" "waiting_writes i" for i
  by unfold_locales (auto simp: writes_in_def)

lemma copies_in_none [simp]: "copies_in [(DestroyBarrier b, e)] = []"
  by (simp add: copies_in_def)

lemma reads_in_append [simp]:
  "reads_in i [] = {}" "reads_in i (tr @ tr') = reads_in i tr \<union> reads_in i tr'"
  by (auto simp: reads_in_def)

lemma reads_in_simps [simp]:
  "reads_in i [(RectCopy b n s d pre, e)] = (if s = i then {e} else {})"
  "reads_in i [(MergeEvents es, e)] = {}" "reads_in i [(CreateUserEvent, e)] = {}"
  "reads_in i [(TriggerEvent u pre, e)] = {}" "reads_in i [(CreateBarrier j, e)] = {}"
  "reads_in i [(ArriveBarrier x j pre, e)] = {}" "reads_in i [(AdvanceBarrier x, e)] = {}"
  "reads_in i [(SpawnNames p k x y, e)] = {}" "reads_in i [(SpawnRelease p x, e)] = {}"
  by (auto simp: reads_in_def copies_in_def)

lemma reads_in_Cons:
  "NO_MATCH [] tr \<Longrightarrow> reads_in i (x # tr) = reads_in i [x] \<union> reads_in i tr"
  using reads_in_append(2)[of i "[x]" tr] by simp

lemma reads_step:
  assumes t: "tr' = tr @ new"
    and w: "\<And>op. op \<in> set (pending_source r) \<Longrightarrow> op_instance op = i \<Longrightarrow>
      op \<in> set (pending_source (mgr key)) \<or> op_postcondition op \<in> E"
    and c: "\<And>c. c \<in> reads_in i new \<Longrightarrow> c \<in> E \<or>
      (\<exists>op \<in> set (pending_source (mgr key)). op_instance op = i \<and> depends tr' (op_postcondition op) c)"
  shows "reads.kept i mgr tr E (mgr(key := r)) tr'"
proof -
  have "\<exists>x \<in> E \<union> waiting_reads i mgr. depends tr' x c" if "c \<in> reads_in i new" for c
    using c[OF that] depends_refl unfolding waiting_reads_def by blast
  moreover have "waiting_reads i (mgr(key := r)) \<subseteq> E \<union> waiting_reads i mgr"
    using w by (auto simp: waiting_reads_def split: if_splits)
  ultimately show ?thesis using t depends_refl unfolding reads.kept_def by blast
qed

lemma source_pair_log:
  assumes "source_pair rl remote inst pre r w = ret (e, r', w')"
  shows "\<exists>new. trace_of w' = trace_of w @ new \<and> reads_in i new \<subseteq> (if i = inst then {e} else {}) \<and>
    (\<forall>op \<in> set (pending_source r'). op \<in> set (pending_source r) \<or>
       op_instance op = inst \<and> op_postcondition op = e)"
  using assms
  by (cases "pending_dest r"; cases remote)
    (auto simp: source_pair_def RemoteCopyNextPendingToTarget_def IssueCopy_def merge2_def invoke_def
      command_def andThen_eq_ret Let_def reads_in_Cons require_def split: if_splits prod.splits)

lemma target_pair_log:
  assumes "target_pair rl inst dst op ops r w = ret (e, r', w')"
  shows "\<exists>new. trace_of w' = trace_of w @ new \<and> pending_source r' = ops \<and>
    (\<forall>c \<in> reads_in i new. op_instance op = i \<and> depends (trace_of w') (op_postcondition op) c)"
proof -
  obtain b where b: "p2p_shape r = Some b"
    using assms by (auto simp: target_pair_def get_shape_def andThen_eq_ret split: option.splits)
  obtain q w1 where q: "store_Precondition rl dst w = (q, w1)" by fastforce
  obtain a w2 where a: "merge2 rl (op_precondition op) q w1 = (a, w2)" by fastforce
  obtain c w3 where c: "IssueCopy rl b (p2p_field_size r) (op_instance op) inst a w2 = (c, w3)" by fastforce
  let ?w4 = "command rl (TriggerEvent (op_postcondition op) c) w3"
  have e: "w' = ?w4" "pending_source r' = ops"
    using assms b q a c by (auto simp: target_pair_def get_shape_def andThen_eq_ret require_def split: if_splits)
  have "added key (trace_of ?w4) (trace_of w) [(op_instance op, inst, c)] []"
    using added_trans[OF deps.issue_after(3)[OF a c] added_store_Precondition[OF q]]
    by (simp add: added_snoc_quiet)
  then obtain new where "trace_of ?w4 = trace_of w @ new" "copies_in new = [(op_instance op, inst, c)]"
    by (auto simp: added_def)
  moreover have "depends (trace_of ?w4) (op_postcondition op) c" by (rule deps.after_trigger) auto
  ultimately show ?thesis using e by (auto simp: reads_in_def)
qed

lemma receive_instance_log:
  assumes "receive_instance rl barrier inst r w = ret (r', w')"
  shows "\<exists>new. trace_of w' = trace_of w @ new \<and> set (pending_source r') \<subseteq> set (pending_source r) \<and>
    (\<forall>c \<in> reads_in i new. \<exists>op \<in> set (pending_source r). op_instance op = i \<and>
       depends (trace_of w') (op_postcondition op) c)"
proof (cases "pending_source r")
  case (Cons op ops)
  then obtain c r1 w1 where c: "RemoteCopyNextPendingToTarget rl (op_instance op) inst barrier
      (op_precondition op) r w = ret (c, r1, w1)"
    and r': "r' = r1\<lparr>pending_source := ops\<rparr>"
    and w': "w' = command rl (TriggerEvent (op_postcondition op) c) w1"
    using assms by (auto simp: receive_instance_def andThen_eq_ret)
  have "\<exists>new. trace_of w1 = trace_of w @ new \<and> reads_in i new \<subseteq> (if op_instance op = i then {c} else {})"
    using c by (auto simp: RemoteCopyNextPendingToTarget_def IssueCopy_def merge2_def invoke_def command_def
      andThen_eq_ret Let_def reads_in_Cons require_def split: if_splits prod.splits)
  moreover have "depends (trace_of w') (op_postcondition op) c"
    unfolding w' by (rule deps.after_trigger) auto
  ultimately show ?thesis using Cons r' w' by (auto split: if_splits)
qed (use assms in \<open>auto simp: receive_instance_def andThen_eq_ret\<close>)

lemma clear_pending_dest_log:
  "clear_pending_dest rl ack ops w = ret (ack', w') \<Longrightarrow>
   \<exists>new. trace_of w' = trace_of w @ new \<and> copies_in new = []"
proof (induction rl ack ops w rule: clear_pending_dest.induct)
  case (2 rl ack op ops w)
  obtain n w1 where n: "invoke rl (AdvanceBarrier ack) w = (n, w1)" by fastforce
  then have t1: "trace_of w1 = trace_of w @ [(AdvanceBarrier ack, n)]" by (auto simp: invoke_def)
  let ?w2 = "command rl (TriggerEvent (op_postcondition op) ack) w1"
  have "clear_pending_dest rl n ops ?w2 = ret (ack', w')" and "op_postcondition op \<noteq> NO_EVENT"
    using 2(2) n by (auto simp: andThen_eq_ret require_def split: if_splits)
  then obtain new where "trace_of w' = trace_of ?w2 @ new" "copies_in new = []"
    using 2(1)[OF n[symmetric]] by auto
  then show ?case using t1 by (auto simp: copies_in_def)
qed simp

lemma opt_get_eq_ret: "opt_get x = ret y \<longleftrightarrow> x = Some y"
  by (cases x) (auto simp: opt_get_def)

lemma copies_in_Cons: "NO_MATCH [] tr \<Longrightarrow> copies_in (x # tr) = copies_in [x] @ copies_in tr"
  using copies_in_simps(2)[of "[x]" tr] by simp

lemma copies_none_reads: "copies_in new = [] \<Longrightarrow> reads_in i new = {}"
  by (simp add: reads_in_def)

lemma first_use_sources: "first_use shape type name r = ret r' \<Longrightarrow>
  pending_source r' = pending_source r \<and> pending_dest r' = pending_dest r"
  by (auto simp: first_use_def andThen_eq_ret split: if_splits)

lemma send_ack_barrier_log:
  "send_ack_barrier rl remote target key r w = (r', w') \<Longrightarrow>
   pending_source r' = pending_source r \<and> (\<exists>new. trace_of w' = trace_of w @ new \<and> copies_in new = [])"
  by (auto simp: send_ack_barrier_def invoke_def command_def copies_in_def split: if_splits prod.splits)

text \<open>A source's call: its own read is answered for by the event it returns.\<close>

lemma source_call_kept:
  assumes "ReshardFromLocalSource rl m t p shape key src dst mgr w = ret (e, mgr', w')"
    and "view_get src = ret sa"
  shows "reads.kept i mgr (trace_of w)
    (if sa_tile sa \<noteq> None \<and> at_instance (the (sa_tile sa)) = i then {e} else {}) mgr' (trace_of w')"
proof -
  obtain tile r target r1 w1 r2 where tile: "sa_tile sa = Some tile"
    and r: "first_use shape (shp_type (sa_shape sa)) (ReshardName sa dst) (mgr key) = ret r"
    and r1: "send_ack_barrier rl (space_of m (pr_proc p) \<noteq> space_of m target) target key r w = (r1, w1)"
    and r2: "source_pair rl (space_of m (pr_proc p) \<noteq> space_of m target) (at_instance tile)
      (view_Precondition src) r1 w1 = ret (e, r2, w')" and mgr': "mgr' = mgr(key := r2)"
    using assms by (auto simp: ReshardFromLocalSource_def RendezvousReshardFromLocalSource_def
        array_tile_of_def opt_get_eq_ret andThen_eq_ret split_beta Let_def intro!: that[OF _ _ prod.collapse[symmetric]])
  obtain n1 where n1: "trace_of w1 = trace_of w @ n1" "copies_in n1 = []"
    and s1: "pending_source r1 = pending_source (mgr key)"
    using send_ack_barrier_log[OF r1] first_use_sources[OF r] by auto
  obtain n2 where n2: "trace_of w' = trace_of w1 @ n2"
    "reads_in i n2 \<subseteq> (if i = at_instance tile then {e} else {})"
    and s2: "\<forall>op \<in> set (pending_source r2). op \<in> set (pending_source r1) \<or>
      op_instance op = at_instance tile \<and> op_postcondition op = e"
    using source_pair_log[OF r2, of i] by auto
  show ?thesis unfolding mgr'
  proof (rule reads_step)
    show "trace_of w' = trace_of w @ n1 @ n2" using n1(1) n2(1) by simp
  qed (use s1 s2 n1(2) n2(2) tile copies_none_reads in \<open>auto split: if_splits\<close>)
qed

lemma store_Precondition_log:
  "store_Precondition rl st w = (e, w') \<Longrightarrow> \<exists>new. trace_of w' = trace_of w @ new \<and> copies_in new = []"
  using added_store_Precondition[of rl st w e w' undefined] by (auto simp: added_def)

lemma send_instance_log:
  assumes "send_instance rl target key inst dst r w = (r', w')"
  shows "pending_source r' = pending_source r \<and> pending_dest r' = pending_dest r \<and>
    (\<exists>new. trace_of w' = trace_of w @ new \<and> copies_in new = [])"
proof -
  obtain b w1 where b: "(if target_ready_barrier r = NO_EVENT then invoke rl (CreateBarrier 1) w
      else (target_ready_barrier r, w)) = (b, w1)" by fastforce
  obtain q w2 where q: "store_Precondition rl dst (command rl (SpawnNames target key b inst) w1) = (q, w2)"
    by fastforce
  have "\<exists>n. trace_of w1 = trace_of w @ n \<and> copies_in n = []"
    using b by (auto simp: invoke_def split: if_splits)
  moreover have "\<exists>n. trace_of w2 = trace_of w1 @ n \<and> copies_in n = []"
    using store_Precondition_log[OF q] by (auto simp: copies_in_def)
  ultimately show ?thesis using assms b q
    by (auto simp: send_instance_def invoke_def command_def Let_def copies_in_Cons)
qed

lemma target_wait_log:
  assumes "target_wait rl inst dst r w = (e, r', w')"
  shows "pending_source r' = pending_source r \<and>
    (\<exists>new. trace_of w' = trace_of w @ new \<and> copies_in new = []) \<and>
    (\<forall>op \<in> set (pending_dest r'). op \<in> set (pending_dest r) \<or>
       op_instance op = inst \<and> op_postcondition op = e)"
proof -
  obtain u w1 where u: "invoke rl CreateUserEvent w = (u, w1)" by fastforce
  obtain q w2 where q: "store_Precondition rl dst w1 = (q, w2)" by fastforce
  have "\<exists>n. trace_of w2 = trace_of w @ n \<and> copies_in n = []"
    using store_Precondition_log[OF q] u by (auto simp: invoke_def copies_in_Cons)
  then show ?thesis using assms u q
    by (auto simp: target_wait_def invoke_def split: if_splits)
qed

text \<open>A target's call: it reads only for sources that were waiting.\<close>

lemma target_call_kept:
  assumes "ReshardToLocalTarget rl m t p shape key src dst mgr w = ret (e, mgr', w')"
  shows "reads.kept i mgr (trace_of w) {} mgr' (trace_of w')"
proof -
  obtain da tile where da: "store_get dst = ret da" "sa_tile da = Some tile"
    using assms by (auto simp: ReshardToLocalTarget_def andThen_eq_ret array_tile_of_def opt_get_eq_ret)
  then obtain r where r: "first_use shape (shp_type (sa_shape src)) (ReshardName src da) (mgr key) = ret r"
    using assms by (auto simp: ReshardToLocalTarget_def RendezvousReshardToLocalTarget_def
        andThen_eq_ret array_tile_of_def)
  have run: "(case pending_source r of
       op # ops \<Rightarrow> andThen (target_pair rl (at_instance tile) dst op ops r w)
           (\<lambda>(postcondition, r1, w1). ret (postcondition, mgr(key := r1), w1))
     | [] \<Rightarrow> andThen (HostForShard m t src (key_src_shard key)) (\<lambda>target.
         let (r1, w1) =
               (if space_of m target \<noteq> space_of m (pr_proc p)
                then send_instance rl target key (at_instance tile) dst r w else (r, w));
             (postcondition, r2, w2) = target_wait rl (at_instance tile) dst r1 w1
         in ret (postcondition, mgr(key := r2), w2))) = ret (e, mgr', w')"
    using assms da r by (simp add: ReshardToLocalTarget_def RendezvousReshardToLocalTarget_def array_tile_of_def)
  note same = first_use_sources[OF r]
  show ?thesis
  proof (cases "pending_source r")
    case (Cons op ops)
    then obtain r1 where t: "target_pair rl (at_instance tile) dst op ops r w = ret (e, r1, w')"
      and mgr': "mgr' = mgr(key := r1)" using run by (auto simp: andThen_eq_ret)
    obtain new where "trace_of w' = trace_of w @ new" "pending_source r1 = ops"
      "\<forall>c \<in> reads_in i new. op_instance op = i \<and> depends (trace_of w') (op_postcondition op) c"
      using target_pair_log[OF t, of i] by auto
    then show ?thesis unfolding mgr' using Cons same by (intro reads_step[of _ _ new]) auto
  next
    case Nil
    obtain target where host: "HostForShard m t src (key_src_shard key) = ret target"
      using run Nil by (auto simp: andThen_eq_ret)
    obtain r1 w1 where 1: "(if space_of m target \<noteq> space_of m (pr_proc p)
        then send_instance rl target key (at_instance tile) dst r w else (r, w)) = (r1, w1)" by fastforce
    obtain e' r2 w2 where "target_wait rl (at_instance tile) dst r1 w1 = (e', r2, w2)"
      by (cases "target_wait rl (at_instance tile) dst r1 w1")
    then have 2: "target_wait rl (at_instance tile) dst r1 w1 = (e, r2, w')" and mgr': "mgr' = mgr(key := r2)"
      using run Nil host 1 by auto
    have "\<exists>n. trace_of w1 = trace_of w @ n \<and> copies_in n = []" and s: "pending_source r1 = pending_source r"
      using 1 send_instance_log[of rl target key "at_instance tile" dst r w r1 w1] by (auto split: if_splits)
    then obtain n where "trace_of w' = trace_of w @ n" "copies_in n = []" and "pending_source r2 = []"
      using target_wait_log[OF 2] Nil by auto
    then show ?thesis unfolding mgr' using copies_none_reads
      by (intro reads_step[of _ _ n]) auto
  qed
qed

text \<open>A message: the copy it starts is answered for by a source that was waiting.\<close>

lemma handler_kept:
  assumes "PointToPointNameHandler rl args mgr w = ret (mgr', w')"
  shows "reads.kept i mgr (trace_of w) {} mgr' (trace_of w')"
proof -
  obtain key barrier inst r where r: "receive_names rl barrier inst (mgr key) w = ret (r, w')"
    and mgr': "mgr' = mgr(key := r)"
    using assms by (cases args) (auto simp: PointToPointNameHandler_def ReceivePointToPointNames_def andThen_eq_ret)
  show ?thesis
  proof (cases "inst = NO_INST")
    case False
    then have "receive_instance rl barrier inst (mgr key) w = ret (r, w')" using r by (simp add: receive_names_def)
    from receive_instance_log[OF this, of i] obtain new where "trace_of w' = trace_of w @ new"
      "set (pending_source r) \<subseteq> set (pending_source (mgr key))"
      "\<forall>c \<in> reads_in i new. \<exists>op \<in> set (pending_source (mgr key)). op_instance op = i \<and>
         depends (trace_of w') (op_postcondition op) c" by blast
    then show ?thesis unfolding mgr' by (intro reads_step[of _ _ new]) auto
  next
    case True
    then obtain ack where "clear_pending_dest rl barrier (pending_dest (mgr key)) w = ret (ack, w')"
      and "pending_source r = pending_source (mgr key)"
      using r by (auto simp: receive_names_def receive_barrier_def andThen_eq_ret)
    with clear_pending_dest_log obtain new where "trace_of w' = trace_of w @ new" "copies_in new = []" by blast
    then show ?thesis unfolding mgr' using copies_none_reads \<open>pending_source r = _\<close>
      by (intro reads_step[of _ _ new]) auto
  qed
qed

section \<open>Through the protocols\<close>

definition quiet :: "trace \<Rightarrow> trace \<Rightarrow> bool" where
  "quiet tr tr' \<longleftrightarrow> (\<exists>new. tr' = tr @ new \<and> copies_in new = [])"

lemma quiet_refl [simp]: "quiet tr tr"
  by (simp add: quiet_def)

lemma quiet_trans [trans]: "quiet a b \<Longrightarrow> quiet b c \<Longrightarrow> quiet a c"
  by (auto simp: quiet_def)

lemma quiet_snoc: "copies_in [x] = [] \<Longrightarrow> quiet tr (tr @ [x])"
  by (auto simp: quiet_def)

lemma quiet_extends: "quiet tr tr' \<Longrightarrow> extends tr' tr"
  by (auto simp: quiet_def)

lemma kept_quiet_step:
  "reads.kept i mgr tr E mgr' tr1 \<Longrightarrow> quiet tr1 tr2 \<Longrightarrow> reads.kept i mgr tr E mgr' tr2"
  using reads.kept_later[OF _ reads.kept_quiet] copies_none_reads unfolding quiet_def by blast

lemma kept_refl: "reads.kept i mgr tr {} mgr tr"
  using reads.kept_quiet[of i "[]" mgr mgr tr] by simp

lemma merge_quiet:
  "merge2 rl a b w = (e, w') \<Longrightarrow> quiet (trace_of w) (trace_of w')"
  "merge_set rl es w = (e, w') \<Longrightarrow> quiet (trace_of w) (trace_of w')"
  "store_ReadyAfter rl ev st w = (st', w') \<Longrightarrow> quiet (trace_of w) (trace_of w')"
  by (auto simp: merge2_def merge_set_def store_ReadyAfter_def store_ReadyAfter2_def invoke_def quiet_def
      copies_in_Cons split: option.splits prod.splits)

lemma view_quiet:
  "view_view rl v w = (v1, v2, w') \<Longrightarrow> quiet (trace_of w) (trace_of w')"
  "store_view rl st w = (v1, st', w') \<Longrightarrow> quiet (trace_of w) (trace_of w')"
  by (auto simp: view_view_def store_view_def add_reader_def merge2_def invoke_def quiet_def
      copies_in_Cons split: option.splits prod.splits)

lemma copies_in_release [simp]: "copies_in [(SpawnRelease p e, c)] = []"
  by (simp add: copies_in_def)

lemma view_destroy_quiet:
  assumes "view_destroy rl t v w = ret w'"
  shows "quiet (trace_of w) (trace_of w')"
  using assms by (auto simp: view_destroy_def deferred_release_def invoke_def command_def quiet_def
      andThen_eq_ret copies_in_Cons IncPendingOp_def Let_def split: option.splits if_splits prod.splits)

lemma destroy_kept:
  assumes "reads.kept i mgr tr {d} mgr' (trace_of w)" and "view_destroy rl t v w = ret w'"
    and "war_dependency v = Some u" and "d \<in> set (sub_views v)"
  shows "reads.kept i mgr tr {u} mgr' (trace_of w')"
proof -
  let ?m = "invoke rl (MergeEvents (sub_views v)) w"
  let ?w2 = "command rl (TriggerEvent u (fst ?m)) (snd ?m)"
  have "deferred_release rl t (fst ?m) ?w2 = ret w'"
    using assms(2-4) by (auto simp: view_destroy_def Let_def split: prod.splits if_splits)
  then have ext: "extends (trace_of w') (trace_of ?w2)" by (rule deferred_release_ok)
  have "depends (trace_of ?w2) u (fst ?m)" by (intro deps.after_trigger) auto
  also have "depends (trace_of ?w2) (fst ?m) d"
    using assms(4) by (intro deps.after_merge[of "sub_views v"]) auto
  finally have "depends (trace_of w') u d" using ext depends_extends by blast
  moreover have "reads.kept i mgr tr {d} mgr' (trace_of w')"
    using assms(1) view_destroy_quiet[OF assms(2)] by (rule kept_quiet_step)
  ultimately show ?thesis by (intro reads.kept_covered) auto
qed

lemma done_kept:
  assumes "reads.kept i mgr tr E mgr1 (trace_of w1)" and "finite E"
    and "done_after_all rl v (E, mgr1, w1) = (v', mgr', w')"
  obtains d where "reads.kept i mgr tr {d} mgr' (trace_of w')" and "d \<in> set (sub_views v')"
    and "war_dependency v' = war_dependency v"
proof -
  obtain d where d: "merge_set rl E w1 = (d, w')" and v': "v' = view_DoneAfter d v" and "mgr' = mgr1"
    using assms(3) by (auto simp: done_after_all_def split: prod.splits)
  have "reads.kept i mgr tr E mgr1 (trace_of w')" using assms(1) merge_quiet(2)[OF d] by (rule kept_quiet_step)
  then have "reads.kept i mgr tr {d} mgr1 (trace_of w')"
    by (rule reads.kept_covered) (rule deps.merge_set_after[OF d assms(2)])
  then show thesis using that[of d] v' \<open>mgr' = mgr1\<close> by (simp add: view_DoneAfter_def)
qed

text \<open>The loops.\<close>

lemma foldR_invariant:
  assumes "\<And>s x s'. x \<in> set xs \<Longrightarrow> P s \<Longrightarrow> f s x = ret s' \<Longrightarrow> P s'" and "P s"
    and "foldR f s xs = ret s'"
  shows "P s'"
  using assms by (induction xs arbitrary: s) (auto simp: andThen_eq_ret)

definition sends_kept ::
  "inst \<Rightarrow> reshard_manager \<Rightarrow> trace \<Rightarrow> event set \<times> reshard_manager \<times> 'z runtime_scheme \<Rightarrow> bool" where
  "sends_kept i mgr tr st \<longleftrightarrow> (case st of (E, mgr', w') \<Rightarrow>
     finite E \<and> reads.kept i mgr tr E mgr' (trace_of w'))"

definition receives_kept ::
  "inst \<Rightarrow> reshard_manager \<Rightarrow> trace \<Rightarrow> event set \<Rightarrow> event set \<times> reshard_manager \<times> 'z runtime_scheme \<Rightarrow> bool" where
  "receives_kept i mgr tr F st \<longleftrightarrow> (case st of (E, mgr', w') \<Rightarrow> reads.kept i mgr tr F mgr' (trace_of w'))"

lemma send_slice_kept:
  assumes "sends_kept i mgr tr st" and "send_slice rl m t p b key src dst st = ret st'"
  shows "sends_kept i mgr tr st'"
proof -
  obtain E mgr1 w1 where st: "st = (E, mgr1, w1)" by (cases st)
  then obtain e mgr2 w2 where c: "ReshardFromLocalSource rl m t p b key src dst mgr1 w1 = ret (e, mgr2, w2)"
    and st': "st' = (insert e E, mgr2, w2)"
    using assms(2) by (auto simp: send_slice_def andThen_eq_ret)
  then obtain sa where sa: "view_get src = ret sa" by (auto simp: ReshardFromLocalSource_def andThen_eq_ret)
  have "reads.kept i mgr1 (trace_of w1) {e} mgr2 (trace_of w2)"
    by (rule reads.kept_mono[OF source_call_kept[OF c sa]]) simp
  then have "reads.kept i mgr tr (E \<union> {e}) mgr2 (trace_of w2)"
    using assms(1) st by (intro reads.kept_trans[of i mgr tr E mgr1 "trace_of w1"]) (simp_all add: sends_kept_def)
  then show ?thesis using assms(1) st st' by (simp add: sends_kept_def)
qed

lemma receive_slice_kept:
  assumes "receives_kept i mgr tr F st" and "receive_slice rl m t p b key src dst st = ret st'"
  shows "receives_kept i mgr tr F st'"
proof -
  obtain E mgr1 w1 where st: "st = (E, mgr1, w1)" by (cases st)
  then obtain e mgr2 w2 where c: "ReshardToLocalTarget rl m t p b key src dst mgr1 w1 = ret (e, mgr2, w2)"
    and st': "st' = (insert e E, mgr2, w2)"
    using assms(2) by (auto simp: receive_slice_def andThen_eq_ret)
  then show ?thesis using assms(1) st reads.kept_later[OF _ target_call_kept[OF c]]
    by (auto simp: receives_kept_def)
qed

lemma ready_kept:
  assumes "receives_kept i mgr tr F st" and "ready_after_all rl dst st = (dst', mgr', w')"
  shows "reads.kept i mgr tr F mgr' (trace_of w')"
proof -
  obtain E mgr1 w1 where st: "st = (E, mgr1, w1)" by (cases st)
  obtain d w2 where d: "merge_set rl E w1 = (d, w2)" by fastforce
  then have r: "store_ReadyAfter rl d dst w2 = (dst', w')" and "mgr' = mgr1"
    using assms(2) st by (auto simp: ready_after_all_def split: prod.splits)
  have "quiet (trace_of w1) (trace_of w')"
    using merge_quiet(2)[OF d] merge_quiet(3)[OF r] by (rule quiet_trans)
  then show ?thesis using assms(1) st \<open>mgr' = mgr1\<close> kept_quiet_step by (auto simp: receives_kept_def)
qed

text \<open>What a protocol's part with a source does: the source's reader event answers for it.\<close>

lemma owed_kept:
  assumes "reads.kept i mgr tr {d} mgr1 (trace_of w1)" and "d \<in> set (sub_views v)"
    and "reads.kept i mgr1 (trace_of w1) {} mgr2 (trace_of w2)"
    and "view_destroy rl t v w2 = ret w3" and "war_dependency v = Some u"
  shows "reads.kept i mgr tr {u} mgr2 (trace_of w3)"
  using destroy_kept[OF reads.kept_later[OF assms(1,3)] assms(4,5,2)] .

lemma unused_kept:
  assumes "reads.kept i mgr tr {} mgr1 (trace_of w1)" and "view_destroy rl t v w1 = ret w2"
  shows "reads.kept i mgr tr E mgr1 (trace_of w2)"
  using reads.kept_mono[OF kept_quiet_step[OF assms(1) view_destroy_quiet[OF assms(2)]]] by simp

lemma p2p_ToLocalTarget_kept:
  assumes "p2p_ToLocalTarget rl m t p shape src dst src_shard dst_shard mgr w = ret (e, dst', mgr', w')"
  shows "reads.kept i mgr (trace_of w) {} mgr' (trace_of w')"
proof -
  obtain key w1 where "ReshardToLocalTarget rl m t p shape key src dst mgr w = ret (e, mgr', w1)"
    and "(dst', w') = store_ReadyAfter rl e dst w1"
    using assms by (auto simp: p2p_ToLocalTarget_def andThen_eq_ret split_beta Let_def)
  then show ?thesis using kept_quiet_step[OF target_call_kept merge_quiet(3)] by metis
qed

lemma p2p_FromLocalSource_kept:
  assumes "p2p_FromLocalSource rl m t p shape src dst src_shard dst_shard mgr w = ret (e, mgr', w')"
    and "war_dependency src = Some u"
  shows "reads.kept i mgr (trace_of w) {u} mgr' (trace_of w')"
proof -
  obtain sa key w1 where sa: "view_get src = ret sa"
    and c: "ReshardFromLocalSource rl m t p shape key src dst mgr w = ret (e, mgr', w1)"
    and d: "view_destroy rl t (view_DoneAfter e src) w1 = ret w'"
    using assms(1) by (auto simp: p2p_FromLocalSource_def andThen_eq_ret split: prod.splits)
  have "reads.kept i mgr (trace_of w) {e} mgr' (trace_of w1)"
    by (rule reads.kept_mono[OF source_call_kept[OF c sa]]) simp
  from destroy_kept[OF this d] assms(2) show ?thesis by (simp add: view_DoneAfter_def)
qed

lemma ReshardPointToPoint_kept:
  assumes "ReshardPointToPoint rl m t p src dst mgr w = ret (dst', mgr', w')"
    and "war_dependency src = Some u"
  shows "reads.kept i mgr (trace_of w) {u} mgr' (trace_of w')"
proof -
  obtain sa da where v: "view_get src = ret sa" "store_get dst = ret da"
    using assms(1) by (auto simp: ReshardPointToPoint_def andThen_eq_ret)
  obtain mgr1 w1 src' w2 where
    t: "(case sa_tile da of
          Some tile \<Rightarrow>
            andThen (p2p_ToLocalTarget rl m t p (tsh_bounds (at_shape tile)) sa dst (sa_shard_id da)
                       (sa_shard_id da) mgr w) (\<lambda>(e, dst', mgr1, w1). ret (dst', mgr1, w1))
        | None \<Rightarrow> ret (dst, mgr, w)) = ret (dst', mgr1, w1)"
    and s: "(case sa_tile sa of
          Some tile \<Rightarrow>
            (let (arg, rest) = view_move src
             in andThen (p2p_FromLocalSource rl m t p (tsh_bounds (at_shape tile)) arg da (sa_shard_id sa)
                           (sa_shard_id sa) mgr1 w1) (\<lambda>(e, mgr2, w2). ret (rest, mgr2, w2)))
        | None \<Rightarrow> ret (src, mgr1, w1)) = ret (src', mgr', w2)"
    and d: "view_destroy rl t src' w2 = ret w'"
    using assms(1) v by (auto simp: ReshardPointToPoint_def andThen_eq_ret)
  have 1: "reads.kept i mgr (trace_of w) {} mgr1 (trace_of w1)"
    using t kept_refl p2p_ToLocalTarget_kept by (fastforce simp: andThen_eq_ret split: option.splits)
  show ?thesis
  proof (cases "sa_tile sa")
    case None
    then show ?thesis using s unused_kept[OF 1] d by auto
  next
    case (Some tile)
    then obtain e where "p2p_FromLocalSource rl m t p (tsh_bounds (at_shape tile)) (fst (view_move src)) da
        (sa_shard_id sa) (sa_shard_id sa) mgr1 w1 = ret (e, mgr', w2)"
      using s by (auto simp: andThen_eq_ret split_beta)
    from p2p_FromLocalSource_kept[OF this] have "reads.kept i mgr1 (trace_of w1) {u} mgr' (trace_of w2)"
      using assms(2) by (simp add: view_move_def)
    with 1 have "reads.kept i mgr (trace_of w) {u} mgr' (trace_of w2)"
      using reads.kept_trans[of i mgr "trace_of w" "{}" mgr1 "trace_of w1" "{u}"] by simp
    then show ?thesis using d view_destroy_quiet kept_quiet_step by blast
  qed
qed

lemma sends_start: "sends_kept i mgr (trace_of w) ({}, mgr, w)"
  by (simp add: sends_kept_def kept_refl)

definition each_sends ::
  "(event set \<times> reshard_manager \<times> 'z runtime_scheme \<Rightarrow> 'a \<Rightarrow>
    (event set \<times> reshard_manager \<times> 'z runtime_scheme) res) \<Rightarrow> bool" where
  "each_sends f \<longleftrightarrow> (\<forall>st x st'. f st x = ret st' \<longrightarrow>
     (\<exists>rl m t p b key src dst. send_slice rl m t p b key src dst st = ret st'))"

definition each_receives ::
  "(event set \<times> reshard_manager \<times> 'z runtime_scheme \<Rightarrow> 'a \<Rightarrow>
    (event set \<times> reshard_manager \<times> 'z runtime_scheme) res) \<Rightarrow> bool" where
  "each_receives f \<longleftrightarrow> (\<forall>st x st'. f st x = ret st' \<longrightarrow>
     (\<exists>rl m t p b key src dst. receive_slice rl m t p b key src dst st = ret st'))"

lemma sends_loop:
  assumes "each_sends f"
    and "foldR f ({}, mgr, w) xs = ret st" and "done_after_all rl v st = (v', mgr', w')"
  shows "\<exists>d. reads.kept i mgr (trace_of w) {d} mgr' (trace_of w') \<and> d \<in> set (sub_views v') \<and>
    war_dependency v' = war_dependency v"
proof -
  have "sends_kept i mgr (trace_of w) st"
    by (rule foldR_invariant[of xs "sends_kept i mgr (trace_of w)" f, OF _ sends_start assms(2)])
      (use assms(1) send_slice_kept in \<open>unfold each_sends_def, blast\<close>)
  then obtain E mgr1 w1 where st: "st = (E, mgr1, w1)" "finite E"
    and k: "reads.kept i mgr (trace_of w) E mgr1 (trace_of w1)"
    by (cases st) (auto simp: sends_kept_def)
  show ?thesis using done_kept[OF k st(2) assms(3)[unfolded st(1)]] by blast
qed

lemma sends_then_destroy:
  assumes "each_sends f" and "foldR f ({}, mgr, w) xs = ret st"
    and "(let (v', mgr', w') = done_after_all rl v st
      in andThen (view_destroy rl t v' w') (\<lambda>w''. ret (mgr', w''))) = ret (mgr', w')"
    and "war_dependency v = Some u"
  shows "reads.kept i mgr (trace_of w) {u} mgr' (trace_of w')"
proof -
  obtain v' mgr1 w1 where d: "done_after_all rl v st = (v', mgr1, w1)" by (cases "done_after_all rl v st")
  from sends_loop[where i = i, OF assms(1,2) d] assms(4) obtain x where
    "reads.kept i mgr (trace_of w) {x} mgr1 (trace_of w1)" "x \<in> set (sub_views v')" "war_dependency v' = Some u"
    by auto
  then show ?thesis using destroy_kept assms(3) d by (auto simp: andThen_eq_ret)
qed

lemma receives_loop:
  assumes "each_receives f"
    and "foldR f ({}, mgr, w) xs = ret st" and "ready_after_all rl dst st = (dst', mgr', w')"
  shows "reads.kept i mgr (trace_of w) {} mgr' (trace_of w')"
proof (rule ready_kept[OF _ assms(3)])
  show "receives_kept i mgr (trace_of w) {} st"
    by (rule foldR_invariant[of xs "receives_kept i mgr (trace_of w) {}" f, OF _ _ assms(2)])
      (use assms(1) receive_slice_kept in \<open>unfold each_receives_def, blast, simp add: receives_kept_def kept_refl\<close>)
qed

lemma ScatterGather_source_kept:
  assumes "ReshardScatterGatherFromLocalSource rl m t p config src dst mgr w = ret (mgr', w')"
    and "war_dependency src = Some u"
  shows "reads.kept i mgr (trace_of w) {u} mgr' (trace_of w')"
proof -
  let ?f = "\<lambda>st slice. andThen (view_get src) (\<lambda>sa.
    send_slice rl m t p (slc_bounds slice) (slice_key sa dst (slc_src slice) (slc_dst slice)) src dst st)"
  obtain st where loop: "foldR ?f ({}, mgr, w) (from_source config) = ret st"
    and run: "(let (src', mgr', w') = done_after_all rl src st
      in andThen (view_destroy rl t src' w') (\<lambda>w''. ret (mgr', w''))) = ret (mgr', w')"
    using assms(1) unfolding ReshardScatterGatherFromLocalSource_def andThen_eq_ret by blast
  show ?thesis by (rule sends_then_destroy[OF _ loop run assms(2)])
    (unfold each_sends_def andThen_eq_ret, blast)
qed

lemma ScatterGather_target_kept:
  assumes "ReshardScatterGatherToLocalTarget rl m t p config src dst mgr w = ret (dst', mgr', w')"
  shows "reads.kept i mgr (trace_of w) {} mgr' (trace_of w')"
proof -
  let ?f = "\<lambda>st slice. andThen (store_get dst) (\<lambda>da.
    receive_slice rl m t p (slc_bounds slice) (slice_key src da (slc_src slice) (slc_dst slice)) src dst st)"
  obtain st where loop: "foldR ?f ({}, mgr, w) (to_target config) = ret st"
    and r: "ready_after_all rl dst st = (dst', mgr', w')"
    using assms unfolding ReshardScatterGatherToLocalTarget_def andThen_eq_ret by blast
  show ?thesis by (rule receives_loop[OF _ loop r]) (unfold each_receives_def andThen_eq_ret, blast)
qed

lemma ReshardScatterGather_kept:
  assumes "ReshardScatterGather rl m t p config src dst mgr w = ret (dst', mgr', w')"
    and "war_dependency src = Some u"
  shows "reads.kept i mgr (trace_of w) {u} mgr' (trace_of w')"
proof -
  obtain sa da src' mgr1 w1 w2 where
    s: "(if HasTile sa then (let (sub, src', w1) = view_view rl src w
              in andThen (ReshardScatterGatherFromLocalSource rl m t p config sub da mgr w1)
                   (\<lambda>(mgr', w2). ret (src', mgr', w2)))
        else ret (src, mgr, w)) = ret (src', mgr1, w1)"
    and t: "(if HasTile da then ReshardScatterGatherToLocalTarget rl m t p config sa dst mgr1 w1
              else ret (dst, mgr1, w1)) = ret (dst', mgr', w2)"
    and d: "view_destroy rl t src' w2 = ret w'"
    using assms(1) by (auto simp: ReshardScatterGather_def andThen_eq_ret)
  have 2: "reads.kept i mgr1 (trace_of w1) {} mgr' (trace_of w2)"
    using t kept_refl ScatterGather_target_kept by (auto split: if_splits)
  show ?thesis
  proof (cases "HasTile sa")
    case False
    then show ?thesis using s 2 d unused_kept by auto
  next
    case True
    obtain sub v2 w0 where v: "view_view rl src w = (sub, v2, w0)" by (cases "view_view rl src w")
    have f: "ReshardScatterGatherFromLocalSource rl m t p config sub da mgr w0 = ret (mgr1, w1)" and src': "src' = v2"
      using s True v by (auto simp: andThen_eq_ret)
    obtain x where sub: "war_dependency sub = Some x" "x \<in> set (sub_views src')" "war_dependency src' = Some u"
      using v src' assms(2) by (auto simp: view_view_def split: prod.splits)
    have "reads.kept i mgr (trace_of w) {x} mgr1 (trace_of w1)"
      using reads.kept_trans[of i mgr "trace_of w" "{}" mgr "trace_of w0" "{x}"]
        kept_quiet_step[OF kept_refl view_quiet(1)[OF v]] ScatterGather_source_kept[OF f sub(1)] by simp
    then show ?thesis using owed_kept 2 d sub(2,3) by blast
  qed
qed

text \<open>In a broadcast the target is read too, so the instance in question must not be its own.\<close>

definition other_instance :: "inst \<Rightarrow> sharded_array store \<Rightarrow> bool" where
  "other_instance i dst \<longleftrightarrow>
     (\<forall>da tile. store_get dst = ret da \<longrightarrow> sa_tile da = Some tile \<longrightarrow> at_instance tile \<noteq> i)"

lemma broadcast_receive_kept:
  assumes "broadcast_receive rl m t p target src dst mgr w = ret (e, mgr', w')"
  shows "reads.kept i mgr (trace_of w) {} mgr' (trace_of w')"
proof -
  consider "mgr' = mgr" "w' = w"
    | b key s where "ReshardToLocalTarget rl m t p b key s dst mgr w = ret (e, mgr', w')"
    using assms by (auto simp: broadcast_receive_def andThen_eq_ret split: option.splits)
  then show ?thesis using kept_refl target_call_kept by cases auto
qed

lemma broadcast_leaf_kept:
  assumes "broadcast_leaf rl m t p da (v, mgr1, w1) shard = ret (v', mgr2, w2)"
    and "view_get v = ret da" and "\<forall>tile. sa_tile da = Some tile \<longrightarrow> at_instance tile \<noteq> i"
    and "reads.kept i mgr tr E mgr1 (trace_of w1)"
  shows "reads.kept i mgr tr E mgr2 (trace_of w2) \<and> view_get v' = ret da"
proof -
  obtain e b key where c: "ReshardFromLocalSource rl m t p b key v da mgr1 w1 = ret (e, mgr2, w2)"
    and v': "v' = view_DoneAfter e v"
    using assms(1) by (auto simp: broadcast_leaf_def andThen_eq_ret)
  have "reads.kept i mgr1 (trace_of w1) {} mgr2 (trace_of w2)"
    using source_call_kept[OF c assms(2), of i] assms(3) by (auto split: if_splits)
  then show ?thesis using reads.kept_later[OF assms(4)] assms(2) v'
    by (auto simp: view_get_def view_DoneAfter_def)
qed

lemma store_ReadyAfter_value: "store_ReadyAfter rl e st w = (st', w') \<Longrightarrow> store_value st' = store_value st"
  by (auto simp: store_ReadyAfter_def store_ReadyAfter2_def split: option.splits prod.splits)

lemma store_view_value: "store_view rl st w = (v, st', w') \<Longrightarrow> view_get v = store_get st"
  by (auto simp: store_view_def add_reader_def view_get_def store_get_def split: option.splits prod.splits)

lemma Broadcast_target_kept:
  assumes "ReshardBroadcastToLocalTarget rl m t p config src dst mgr w = ret (dst', mgr', w')"
    and "other_instance i dst"
  shows "reads.kept i mgr (trace_of w) {} mgr' (trace_of w')"
proof -
  obtain target e mgr1 w1 where r: "broadcast_receive rl m t p target src dst mgr w = ret (e, mgr1, w1)"
    and run: "(let (dst1, w2) = store_ReadyAfter rl e dst w1
     in if tc_dst_leaf_shards target = [] then ret (dst1, mgr1, w2)
        else
          andThen (store_get dst1) (\<lambda>da.
          let (bcast_view, dst2, w3) = store_view rl dst1 w2
          in andThen (foldR (broadcast_leaf rl m t p da) (bcast_view, mgr1, w3) (tc_dst_leaf_shards target))
               (\<lambda>(bcast_view', mgr2, w4).
             andThen (view_destroy rl t bcast_view' w4) (\<lambda>w5. ret (dst2, mgr2, w5))))) = ret (dst', mgr', w')"
    using assms(1) unfolding ReshardBroadcastToLocalTarget_def andThen_eq_ret by auto
  obtain dst1 w2 where d1: "store_ReadyAfter rl e dst w1 = (dst1, w2)" by fastforce
  have 2: "reads.kept i mgr (trace_of w) {} mgr1 (trace_of w2)"
    using kept_quiet_step[OF broadcast_receive_kept[OF r] merge_quiet(3)[OF d1]] .
  show ?thesis
  proof (cases "tc_dst_leaf_shards target = []")
    case True
    then show ?thesis using run d1 2 by simp
  next
    case False
    obtain v dst2 w3 where v: "store_view rl dst1 w2 = (v, dst2, w3)" by (cases "store_view rl dst1 w2")
    obtain da v' w4 where da: "store_get dst1 = ret da"
      and loop: "foldR (broadcast_leaf rl m t p da) (v, mgr1, w3) (tc_dst_leaf_shards target) = ret (v', mgr', w4)"
      and d: "view_destroy rl t v' w4 = ret w'"
      using run d1 v False by (auto simp: andThen_eq_ret)
    have val: "view_get v = ret da" using store_view_value[OF v] da by simp
    have other: "\<forall>tile. sa_tile da = Some tile \<longrightarrow> at_instance tile \<noteq> i"
      using assms(2) da store_ReadyAfter_value[OF d1] by (auto simp: other_instance_def store_get_def)
    have start: "reads.kept i mgr (trace_of w) {} mgr1 (trace_of w3)"
      using kept_quiet_step[OF 2 view_quiet(2)[OF v]] .
    have "(\<lambda>(v, mgr1, w1). reads.kept i mgr (trace_of w) {} mgr1 (trace_of w1) \<and> view_get v = ret da) (v', mgr', w4)"
      by (rule foldR_invariant[OF _ _ loop])
        (use start val other in \<open>auto simp del: andThen_eq_ret dest: broadcast_leaf_kept\<close>)
    then show ?thesis using kept_quiet_step view_destroy_quiet[OF d] by auto
  qed
qed

lemma Broadcast_source_kept:
  assumes "ReshardBroadcastFromLocalSource rl m t p config src dst mgr w = ret (mgr', w')"
    and "war_dependency src = Some u"
  shows "reads.kept i mgr (trace_of w) {u} mgr' (trace_of w')"
proof -
  let ?f = "\<lambda>st dst_shard. andThen (view_get src) (\<lambda>sa. andThen (array_tile_of sa) (\<lambda>tile.
     send_slice rl m t p (tsh_bounds (at_shape tile)) (slice_key sa dst (sa_shard_id sa) dst_shard) src dst st))"
  obtain xs st where loop: "foldR ?f ({}, mgr, w) xs = ret st"
    and run: "(let (src', mgr', w') = done_after_all rl src st
      in andThen (view_destroy rl t src' w') (\<lambda>w''. ret (mgr', w''))) = ret (mgr', w')"
    using assms(1) unfolding ReshardBroadcastFromLocalSource_def andThen_eq_ret by blast
  show ?thesis by (rule sends_then_destroy[OF _ loop run assms(2)])
    (unfold each_sends_def andThen_eq_ret, blast)
qed

lemma ReshardBroadcast_kept:
  assumes "ReshardBroadcast rl m t p config src dst mgr w = ret (dst', mgr', w')"
    and "war_dependency src = Some u" and "other_instance i dst"
  shows "reads.kept i mgr (trace_of w) {u} mgr' (trace_of w')"
proof -
  obtain sa da mgr1 w1 src' w2 where
    t: "(if HasTile da then ReshardBroadcastToLocalTarget rl m t p config sa dst mgr w
              else ret (dst, mgr, w)) = ret (dst', mgr1, w1)"
    and s: "(if HasTile sa
        then (let (arg, rest) = view_move src
              in andThen (ReshardBroadcastFromLocalSource rl m t p config arg da mgr1 w1)
                   (\<lambda>(mgr2, w2). ret (rest, mgr2, w2)))
        else ret (src, mgr1, w1)) = ret (src', mgr', w2)"
    and d: "view_destroy rl t src' w2 = ret w'"
    using assms(1) by (auto simp: ReshardBroadcast_def andThen_eq_ret)
  have 1: "reads.kept i mgr (trace_of w) {} mgr1 (trace_of w1)"
    using t kept_refl Broadcast_target_kept[OF _ assms(3)] by (auto split: if_splits)
  show ?thesis
  proof (cases "HasTile sa")
    case False
    then show ?thesis using s unused_kept[OF 1] d by auto
  next
    case True
    then have "ReshardBroadcastFromLocalSource rl m t p config (fst (view_move src)) da mgr1 w1 = ret (mgr', w2)"
      using s by (auto simp: andThen_eq_ret split_beta)
    from Broadcast_source_kept[OF this] have "reads.kept i mgr1 (trace_of w1) {u} mgr' (trace_of w2)"
      using assms(2) by (simp add: view_move_def)
    with 1 have "reads.kept i mgr (trace_of w) {u} mgr' (trace_of w2)"
      using reads.kept_trans[of i mgr "trace_of w" "{}" mgr1 "trace_of w1" "{u}"] by simp
    then show ?thesis using d view_destroy_quiet kept_quiet_step by blast
  qed
qed

lemma GatherShards_target_kept:
  assumes "GatherShardsToLocalTarget rl m t p src dst config mgr w = ret (dst', mgr', w')"
  shows "reads.kept i mgr (trace_of w) {} mgr' (trace_of w')"
proof -
  obtain dst_shard_id st where
    loop: "foldR (\<lambda>st shard.
             andThen (store_get dst) (\<lambda>da.
             andThen (vec_at (target_from_source_bounds config) shard) (\<lambda>bounds.
             receive_slice rl m t p bounds (slice_key src da shard dst_shard_id) src dst st)))
           ({}, mgr, w) (upto64 (dl_size (devices_of src))) = ret st"
    and r: "ready_after_all rl dst st = (dst', mgr', w')"
    using assms unfolding GatherShardsToLocalTarget_def Let_def andThen_eq_ret by blast
  show ?thesis by (rule receives_loop[OF _ loop r]) (unfold each_receives_def andThen_eq_ret, blast)
qed

lemma GatherShards_source_kept:
  assumes "GatherShardsFromLocalSource rl m t p src dst config mgr w = ret (v', mgr', w')"
  shows "\<exists>d. reads.kept i mgr (trace_of w) {d} mgr' (trace_of w') \<and> d \<in> set (sub_views v') \<and>
    war_dependency v' = war_dependency src"
proof -
  obtain sa src_shard_id st where
    loop: "foldR (\<lambda>st shard.
             andThen (opt_get (source_to_target_bounds config)) (\<lambda>bounds.
             send_slice rl m t p bounds (slice_key sa dst src_shard_id shard) src dst st))
           ({}, mgr, w) (upto64 (dl_size (devices_of dst))) = ret st"
    and d: "done_after_all rl src st = (v', mgr', w')"
    using assms unfolding GatherShardsFromLocalSource_def Let_def andThen_eq_ret by blast
  show ?thesis by (rule sends_loop[OF _ loop d]) (unfold each_sends_def andThen_eq_ret, blast)
qed

lemma ScatterShards_target_kept:
  assumes "ScatterShardsToLocalTarget rl m t p src dst mgr w = ret (dst', mgr', w')"
  shows "reads.kept i mgr (trace_of w) {} mgr' (trace_of w')"
proof -
  obtain b key e w1 where c: "ReshardToLocalTarget rl m t p b key src dst mgr w = ret (e, mgr', w1)"
    and r: "(dst', w') = store_ReadyAfter rl e dst w1"
    using assms unfolding ScatterShardsToLocalTarget_def andThen_eq_ret by (auto simp: split_beta Let_def)
  show ?thesis using kept_quiet_step[OF target_call_kept[OF c] merge_quiet(3)[OF r[symmetric]]] .
qed

lemma ScatterShards_source_kept:
  assumes "ScatterShardsFromLocalSource rl m t max_dim p src dst mgr w = ret (v', mgr', w')"
  shows "\<exists>d. reads.kept i mgr (trace_of w) {d} mgr' (trace_of w') \<and> d \<in> set (sub_views v') \<and>
    war_dependency v' = war_dependency src"
proof -
  obtain sa k src_shard_id st where
    loop: "foldR (\<lambda>st shard.
            andThen (ComputeTileBounds max_dim (k * src_shard_id + shard) (shp_sharding (sa_shape dst))) (\<lambda>bounds.
            send_slice rl m t p bounds (slice_key sa dst src_shard_id (k * src_shard_id + shard)) src dst st))
          ({}, mgr, w) (upto64 k) = ret st"
    and d: "done_after_all rl src st = (v', mgr', w')"
    using assms unfolding ScatterShardsFromLocalSource_def Let_def andThen_eq_ret by blast
  show ?thesis by (rule sends_loop[OF _ loop d]) (unfold each_sends_def andThen_eq_ret, blast)
qed

text \<open>The two shard protocols: the source's part, then the target's, then the view is destroyed.\<close>

lemma source_then_target:
  assumes s: "(if has then from else ret (src, mgr, w)) = ret (src', mgr1, w1)"
    and "from = ret (src', mgr1, w1) \<Longrightarrow>
      \<exists>d. reads.kept i mgr (trace_of w) {d} mgr1 (trace_of w1) \<and> d \<in> set (sub_views src') \<and>
        war_dependency src' = war_dependency src"
    and t: "reads.kept i mgr1 (trace_of w1) {} mgr2 (trace_of w2)"
    and d: "view_destroy rl t src' w2 = ret w'" and u: "war_dependency src = Some u"
  shows "reads.kept i mgr (trace_of w) {u} mgr2 (trace_of w')"
proof (cases has)
  case True
  then obtain x where "reads.kept i mgr (trace_of w) {x} mgr1 (trace_of w1)" "x \<in> set (sub_views src')"
    "war_dependency src' = Some u" using assms(1,2) u by auto
  then show ?thesis using owed_kept t d by blast
next
  case False
  then show ?thesis using s t d unused_kept by auto
qed

lemma ReshardGatherShards_kept:
  assumes "ReshardGatherShards rl m t p config src dst mgr w = ret (dst', mgr', w')"
    and "war_dependency src = Some u"
  shows "reads.kept i mgr (trace_of w) {u} mgr' (trace_of w')"
proof -
  obtain sa da src' mgr1 w1 w2 msg msg' where
    s: "(if HasTile sa
        then andThen (require (gs_src_shard config \<noteq> None) (RuntimeError msg)) (\<lambda>_.
             GatherShardsFromLocalSource rl m t p src da config mgr w)
        else ret (src, mgr, w)) = ret (src', mgr1, w1)"
    and t: "(if HasTile da
        then andThen (require (gs_dst_shard config \<noteq> None) (RuntimeError msg')) (\<lambda>_.
             GatherShardsToLocalTarget rl m t p sa dst config mgr1 w1)
        else ret (dst, mgr1, w1)) = ret (dst', mgr', w2)"
    and d: "view_destroy rl t src' w2 = ret w'"
    using assms(1) by (auto simp: ReshardGatherShards_def andThen_eq_ret Let_def)
  have "reads.kept i mgr1 (trace_of w1) {} mgr' (trace_of w2)"
    using t kept_refl GatherShards_target_kept by (auto simp: andThen_eq_ret split: if_splits)
  note target = this
  show ?thesis by (rule source_then_target[OF s _ target d assms(2)])
    (rule GatherShards_source_kept, auto simp: andThen_eq_ret)
qed

lemma ReshardScatterShards_kept:
  assumes "ReshardScatterShards rl m t max_dim p config src dst mgr w = ret (dst', mgr', w')"
    and "war_dependency src = Some u"
  shows "reads.kept i mgr (trace_of w) {u} mgr' (trace_of w')"
proof -
  obtain sa da src' mgr1 w1 w2 where
    s: "(if HasTile sa then ScatterShardsFromLocalSource rl m t max_dim p src da mgr w
              else ret (src, mgr, w)) = ret (src', mgr1, w1)"
    and t: "(if HasTile da then ScatterShardsToLocalTarget rl m t p sa dst mgr1 w1
              else ret (dst, mgr1, w1)) = ret (dst', mgr', w2)"
    and d: "view_destroy rl t src' w2 = ret w'"
    using assms(1) by (auto simp: ReshardScatterShards_def andThen_eq_ret)
  have "reads.kept i mgr1 (trace_of w1) {} mgr' (trace_of w2)"
    using t kept_refl ScatterShards_target_kept by (auto split: if_splits)
  note target = this
  show ?thesis by (rule source_then_target[OF s _ target d assms(2)]) (rule ScatterShards_source_kept)
qed

section \<open>The source is not written too early\<close>

lemma run_protocol_kept:
  assumes "run_protocol rl m t max_dim p config src dst mgr w = ret (src', dst', mgr', w1)"
    and "view_destroy rl t src' w1 = ret w'" and u: "war_dependency src = Some u" and "other_instance i dst"
  shows "reads.kept i mgr (trace_of w) {u} mgr' (trace_of w')"
proof -
  have arg: "war_dependency (fst (view_move src)) = Some u" using u by (simp add: view_move_def)
  consider "mgr' = mgr" "w1 = w" | "reads.kept i mgr (trace_of w) {u} mgr' (trace_of w1)"
    using assms(1) by (cases config) (auto simp: run_protocol_def andThen_eq_ret split_beta Let_def
        dest: ReshardPointToPoint_kept[OF _ arg, where i = i]
          ReshardScatterGather_kept[OF _ arg, where i = i] ReshardBroadcast_kept[OF _ arg assms(4)]
          ReshardScatterShards_kept[OF _ arg, where i = i] ReshardGatherShards_kept[OF _ arg, where i = i])
  then show ?thesis
  proof cases
    case 1
    then show ?thesis using unused_kept[OF kept_refl] assms(2) by blast
  next
    case 2
    then show ?thesis using kept_quiet_step view_destroy_quiet[OF assms(2)] by blast
  qed
qed

lemma Reshard_kept:
  assumes "Reshard rl m t max_dim p src dst mgr w = Some (ret (dst', mgr', w'))"
    and "war_dependency src = Some u" and "other_instance i dst"
  shows "reads.kept i mgr (trace_of w) {u} mgr' (trace_of w')"
proof -
  obtain config src' w1 where
    "run_protocol rl m t max_dim p config src dst mgr w = ret (src', dst', mgr', w1)"
    and "view_destroy rl t src' w1 = ret w'"
    using assms(1) by (auto simp: Reshard_def andThen_eq_ret split: sum.splits option.splits)
  then show ?thesis using assms(2,3) by (rule run_protocol_kept)
qed

text \<open>The messages that a process handles.\<close>

definition handle_messages ::
  "realm \<Rightarrow> (reshard_key \<times> event \<times> inst) list \<Rightarrow> reshard_manager \<times> 'z runtime_scheme \<Rightarrow>
   (reshard_manager \<times> 'z runtime_scheme) res" where
  "handle_messages rl msgs st = foldR (\<lambda>(mgr, w) msg. PointToPointNameHandler rl msg mgr w) st msgs"

lemma handle_messages_kept:
  assumes "handle_messages rl msgs (mgr1, w1) = ret (mgr', w')" and "reads.kept i mgr tr E mgr1 (trace_of w1)"
  shows "reads.kept i mgr tr E mgr' (trace_of w')"
proof -
  have "(\<lambda>(mgr1, w1). reads.kept i mgr tr E mgr1 (trace_of w1)) (mgr', w')"
    by (rule foldR_invariant[OF _ _ assms(1)[unfolded handle_messages_def]])
      (use assms(2) reads.kept_later[OF _ handler_kept] in auto)
  then show ?thesis by simp
qed

text \<open>
  C20. A reshard reads its source under the protection of the view it was given: every copy out of
  an instance that the call or a later message starts ends before the event with which the view lets
  the source's next writer go, except a copy for an end that was already waiting and has its own
  event. In every protocol, and for every order of the messages.
\<close>

theorem reshard_source_safe:
  fixes w :: "'z runtime_scheme"
  assumes "Reshard rl m t max_dim p src dst mgr w = Some (ret (dst', mgr1, w1))"
    and "war_dependency src = Some u" and "other_instance i dst"
    and "handle_messages rl msgs (mgr1, w1) = ret (mgr', w')"
  shows "\<exists>calls. trace_of w' = trace_of w @ calls \<and>
    (\<forall>d c. (i, d, c) \<in> set (copies_in calls) \<longrightarrow> depends (trace_of w') u c \<or>
       (\<exists>key op. op \<in> set (pending_source (mgr key)) \<and> op_instance op = i \<and>
          depends (trace_of w') (op_postcondition op) c))"
proof -
  have "reads.kept i mgr (trace_of w) {u} mgr' (trace_of w')"
    using handle_messages_kept[OF assms(4) Reshard_kept[OF assms(1-3)]] .
  then obtain calls where c: "trace_of w' = trace_of w @ calls"
    and k: "\<forall>c \<in> reads_in i calls. \<exists>x \<in> {u} \<union> waiting_reads i mgr. depends (trace_of w') x c"
    unfolding reads.kept_def by blast
  have "depends (trace_of w') u c \<or>
       (\<exists>key op. op \<in> set (pending_source (mgr key)) \<and> op_instance op = i \<and>
          depends (trace_of w') (op_postcondition op) c)"
    if "(i, d, c) \<in> set (copies_in calls)" for d c
  proof -
    have "c \<in> reads_in i calls" using that by (auto simp: reads_in_def)
    then obtain x where "x \<in> {u} \<union> waiting_reads i mgr" "depends (trace_of w') x c" using k by blast
    then show ?thesis unfolding waiting_reads_def by blast
  qed
  then show ?thesis using c by blast
qed

text \<open>One device that holds a tile of both arrays.\<close>

definition one_process :: proc_tables where
  "one_process = four_tables\<lparr>local_procs := local_procs util_tables\<rparr>"

definition example_reader :: "sharded_array view" where
  "example_reader = example_view\<lparr>war_dependency := Some 40\<rparr>"

lemma example_pairwise:
  "DetermineShardingConfig 3 p (shp_sharding example_shape) (shp_sharding example_shape) =
   Some (ret PointToPointConfig)"
  by (simp add: DetermineShardingConfig_def example_shape_def FullySharded_def IsReplicated_def
      IsPartiallyReplicated_def TotalSharding_def mul64_def chk_def int64_ok_def both_hold_def if_config_def
      dl_defs dim_eq_def int64_max_def int64_min_def)

lemma one_process_host:
  "HostForShard two_spaces one_process (example_array i x) 0 = ret 10"
  by (simp add: HostForShard_def example_array_def example_shape_def cpu_def dl_defs add64_def chk_def
      GetAttachedHost_def RemoteProc_def one_process_def four_tables_def two_spaces_def value_or_def vec_at_def
      int64_ok_def int64_min_def int64_max_def no_tables_def)

lemma one_process_util:
  "Util_proc one_process = ret \<lparr>pr_type = UTIL, pr_proc = 7, local_id = 0, global_id = 0\<rparr>"
  by (simp add: Util_proc_def Processor_Create_def GetProc_def one_process_def util_tables_def value_or_def
      size_of_def vec_at_def four_tables_def)

lemma example_reshard:
  "\<exists>dst' mgr' (w' :: runtime) copy. Reshard fresh_realm two_spaces one_process 3 (cpu 0) example_reader
      example_target GetManager \<lparr>trace_of = [], pending_ops = 0\<rparr> = Some (ret (dst', mgr', w')) \<and>
     copies_in (trace_of w') = [(50, 60, copy)]"
proof -
  obtain n where n: "ReshardName (example_array 0 50) (example_array 1 60) = ret n"
    using ReshardName_ok[of "example_array 0 50" "example_array 1 60"] example_facts by auto
  have v: "view_get example_reader = ret (example_array 0 50)" "view_Precondition example_reader = 7"
    using example_facts(1,2) by (simp_all add: example_reader_def view_get_def view_Precondition_def)
  have v': "view_get (view_DoneAfter e x) = view_get x" "view_get (fst (view_move x)) = view_get x"
    "view_Precondition (fst (view_move x)) = view_Precondition x" for e and x :: "sharded_array view"
    by (simp_all add: view_get_def view_DoneAfter_def view_move_def view_Precondition_def)
  have vd: "view_move example_reader = (example_reader, example_view\<lparr>view_content := SharedValue None\<rparr>)"
    "war_dependency (view_DoneAfter e example_reader) = Some 40" "war_dependency example_view = None"
    "sub_views (view_DoneAfter e example_reader) = [e]" for e
    by (simp_all add: view_move_def null_content_def example_reader_def example_view_def view_DoneAfter_def)
  have a: "sa_shape (example_array i x) = example_shape" "sa_shard_id (example_array i x) = 0" for i x
    by (simp_all add: example_array_def)
  show ?thesis
    using n by (simp add: Reshard_def v v' vd example_facts a example_pairwise run_protocol_def ReshardPointToPoint_def
        p2p_ToLocalTarget_def p2p_FromLocalSource_def ReshardToLocalTarget_def RendezvousReshardToLocalTarget_def
        ReshardFromLocalSource_def RendezvousReshardFromLocalSource_def array_tile_of_def first_use_def
        GetManager_def new_p2p_def slice_key_def one_process_host target_wait_def store_Precondition_def
        store_ReadyAfter_def store_ReadyAfter2_def merge2_def invoke_def command_def fresh_realm_def NO_EVENT_def
        send_ack_barrier_def source_pair_def get_shape_def IssueCopy_def view_destroy_def deferred_release_def
        one_process_util IncPendingOp_def copies_in_def)
qed

theorem reshard_source_safe_witness:
  "\<exists>dst' mgr' (w' :: runtime) copy. Reshard fresh_realm two_spaces one_process 3 (cpu 0) example_reader
      example_target GetManager \<lparr>trace_of = [], pending_ops = 0\<rparr> = Some (ret (dst', mgr', w')) \<and>
     copies_in (trace_of w') = [(50, 60, copy)] \<and> depends (trace_of w') 40 copy"
proof -
  let ?w = "\<lparr>trace_of = [], pending_ops = 0\<rparr> :: runtime"
  obtain dst' mgr' copy and w' :: runtime
    where run: "Reshard fresh_realm two_spaces one_process 3 (cpu 0) example_reader
      example_target GetManager ?w = Some (ret (dst', mgr', w'))"
      and c: "copies_in (trace_of w') = [(50, 60, copy)]"
    using example_reshard by blast
  have "war_dependency example_reader = Some 40" by (simp add: example_reader_def)
  moreover have "other_instance 50 example_target"
    using example_facts by (simp add: other_instance_def)
  moreover have "handle_messages fresh_realm [] (mgr', w') = ret (mgr', w')" by (simp add: handle_messages_def)
  ultimately have "depends (trace_of w') 40 copy"
    using reshard_source_safe[where i = 50 and u = 40 and msgs = "[]" and w' = w', OF run] c
    by (auto simp: GetManager_def new_p2p_def)
  then show ?thesis using run c by blast
qed

end
