(* ===== verification/Scatter_Shards.thy ===== *)
theory Scatter_Shards
  imports Reshard_Safety
begin

text \<open>
  The two ends of the scatter of a replicated array, \<open>src/zuku/reshard_scatter_shards.cc\<close>: there is no
  configuration that describes the slices, each end computes its part while it runs.
\<close>

section \<open>The targets of a source\<close>

text \<open>
  Each of \<open>n\<close> source shards serves \<open>q\<close> consecutive target shards, the ones whose number divided by
  \<open>q\<close> is its own.
\<close>

lemma filter_block:
  assumes "0 \<le> s" and "s < n" and "0 < q"
  shows "filter (\<lambda>d. d div q = s) (upto64 (n * q)) = map (\<lambda>i. q * s + i) (upto64 q)"
proof -
  obtain k m c where k: "s = int k" and m: "n = int m" and c: "q = int c"
    using assms by (metis nonneg_int_cases order_less_imp_le order.strict_trans1)
  have c0: "0 < c" and km: "k < m" using assms by (simp_all add: k m c)
  have le: "k * c + c \<le> m * c" using mult_le_mono1[of "Suc k" m c] km by simp
  have "[0..<m * c] = [0..<k * c + c] @ [k * c + c..<m * c]"
    using upt_add_eq_append[of 0 "k * c + c" "m * c - (k * c + c)"] le by simp
  also have "[0..<k * c + c] = [0..<k * c] @ [k * c..<k * c + c]"
    using upt_add_eq_append[of 0 "k * c" c] by simp
  finally have split: "[0..<m * c] = [0..<k * c] @ [k * c..<k * c + c] @ [k * c + c..<m * c]" by simp
  have block: "[k * c..<k * c + c] = map (\<lambda>i. i + k * c) [0..<c]"
    by (simp add: map_add_upt add.commute[of "k * c"])
  have div: "int d div int c = int k \<longleftrightarrow> k * c \<le> d \<and> d < k * c + c" for d
  proof -
    have "d div c = k \<longleftrightarrow> k * c \<le> d \<and> d < k * c + c"
      using c0 by (metis add.commute div_nat_eqI dividend_less_times_div mult.commute mult_Suc
          times_div_less_eq_dividend)
    then show ?thesis by (metis of_nat_eq_iff zdiv_int)
  qed
  have "filter (\<lambda>d. d div int c = int k) (map int [0..<m * c]) = map int [k * c..<k * c + c]"
    unfolding split by (auto simp: filter_map comp_def div filter_empty_conv filter_id_conv)
  also have "\<dots> = map (\<lambda>i. int c * int k + i) (map int [0..<c])"
    unfolding block by (simp add: comp_def mult.commute add.commute)
  finally show ?thesis by (simp add: upto64_def k m c nat_mult_distrib)
qed

text \<open>
  C31. Scattering a replicated array over a mesh that is a multiple of its own: each target asks one source
  for its tile, under a key, and the list of slices that a source sends, in the order of its loop, is the
  list of exactly those targets that ask for it, under the same keys.
\<close>

theorem scatter_shards_pair:
  assumes "view_get src = ret sa" and "store_get dst = ret da" and "sa_tile da = Some tile"
    and "dl_shard_id (devices_of sa) (global_id p) = Some s"
    and "dl_shard_id (devices_of da) (global_id p') = Some d"
    and "dl_size (devices_of da) = dl_size (devices_of sa) * q" and "0 < q"
    and "int64_ok (dl_size (devices_of da))"
  shows "ScatterShardsToLocalTarget rl m t p' sa dst mgr w =
     andThen (ReshardToLocalTarget rl m t p' (tsh_bounds (at_shape tile)) (slice_key sa da (d div q) d) sa dst mgr w)
       (\<lambda>(copy, mgr', w1). let (dst', w2) = store_ReadyAfter rl copy dst w1 in ret (dst', mgr', w2)) \<and>
   ScatterShardsFromLocalSource rl m t max_dim p src da mgr w =
     andThen (foldR (\<lambda>st d. andThen (ComputeTileBounds max_dim d (shp_sharding (sa_shape da))) (\<lambda>bounds.
         send_slice rl m t p bounds (slice_key sa da s d) src da st))
       ({}, mgr, w) (filter (\<lambda>d. d div q = s) (upto64 (dl_size (devices_of da)))))
     (\<lambda>st. ret (done_after_all rl src st))"
proof -
  have s: "0 \<le> s" "s < dl_size (devices_of sa)" and d: "0 \<le> d" "d < dl_size (devices_of da)"
    using assms(4,5) by (auto simp: dl_shard_id_iff)
  have ok: "int64_ok d" using d assms(8) int64_ok_le[of d "dl_size (devices_of da)"] by simp
  have q: "div64 (dl_size (devices_of da)) (dl_size (devices_of sa)) = ret q"
    using assms(6,8) s d by (simp add: div64_ok)
  have "div64 d q = ret (d div q)" using d(1) ok assms(7) by (rule div64_ok)
  then show ?thesis
    using assms(1-5) q filter_block[OF s assms(7)]
    by (simp add: ScatterShardsToLocalTarget_def ScatterShardsFromLocalSource_def array_tile_of_def foldR_map
        assms(6) Let_def split_beta)
qed

text \<open>Two devices hold the whole array, four get a piece each; the example looks at source 1 and target 2.\<close>

definition on_devices :: "device_list \<Rightarrow> sharded_array \<Rightarrow> sharded_array" where
  "on_devices ds a = a\<lparr>sa_shape := example_shape\<lparr>shp_sharding := (shp_sharding example_shape)\<lparr>sh_devices := ds\<rparr>\<rparr>\<rparr>"

theorem scatter_shards_pair_witness:
  "let sa = on_devices (dl_ctor 0 2) (example_array 0 50); da = on_devices (dl_ctor 0 4) (example_array 1 60);
       src = example_view\<lparr>view_content := SharedValue (Some sa)\<rparr>; dst = Store_DeferredCreate 9 da;
       w = \<lparr>trace_of = [], pending_ops = 0\<rparr> :: runtime
   in ScatterShardsToLocalTarget fresh_realm two_spaces one_process (cpu 2) sa dst GetManager w =
       andThen (ReshardToLocalTarget fresh_realm two_spaces one_process (cpu 2) \<lparr>rect_rank = 1, rect_lo = [0], rect_hi = [3]\<rparr>
           (slice_key sa da 1 2) sa dst GetManager w)
         (\<lambda>(copy, mgr', w1). let (dst', w2) = store_ReadyAfter fresh_realm copy dst w1 in ret (dst', mgr', w2)) \<and>
     ScatterShardsFromLocalSource fresh_realm two_spaces one_process 3 (cpu 1) src da GetManager w =
       andThen (foldR (\<lambda>st d. andThen (ComputeTileBounds 3 d (shp_sharding (sa_shape da))) (\<lambda>bounds.
           send_slice fresh_realm two_spaces one_process (cpu 1) bounds (slice_key sa da 1 d) src da st)) ({}, GetManager, w) [2, 3])
         (\<lambda>st. ret (done_after_all fresh_realm src st))"
proof -
  let ?sa = "on_devices (dl_ctor 0 2) (example_array 0 50)" and ?da = "on_devices (dl_ctor 0 4) (example_array 1 60)"
  let ?src = "example_view\<lparr>view_content := SharedValue (Some ?sa)\<rparr>" and ?dst = "Store_DeferredCreate 9 ?da"
  have f: "filter (\<lambda>d. d div 2 = 1) (upto64 4) = [2, 3 :: int]" by (simp add: upto64_def upt_rec)
  have h: "view_get ?src = ret ?sa" "store_get ?dst = ret ?da"
    "dl_shard_id (devices_of ?sa) (global_id (cpu 1)) = Some 1"
    "dl_shard_id (devices_of ?da) (global_id (cpu 2)) = Some 2"
    "dl_size (devices_of ?da) = dl_size (devices_of ?sa) * 2" "int64_ok (dl_size (devices_of ?da))"
    "sa_tile ?da = Some \<lparr>at_instance = 60, at_shape = \<lparr>tsh_type = F32, tsh_dims = [4],
     tsh_bounds = \<lparr>rect_rank = 1, rect_lo = [0], rect_hi = [3]\<rparr>\<rparr>, at_type = Int32\<rparr>"
    by (simp_all add: view_get_def store_get_def Store_DeferredCreate_def on_devices_def cpu_def dl_defs
        example_shape_def example_facts int64_ok_def int64_min_def int64_max_def)
  have "dl_size (devices_of ?da) = 4" by (simp add: on_devices_def dl_defs)
  then show ?thesis
    using scatter_shards_pair[OF h(1,2,7,3,4,5) _ h(6), of fresh_realm two_spaces one_process GetManager _ 3] f by (simp add: Let_def)
qed

text \<open>
  The choice of the protocol does not ask whether the meshes fit. With fewer targets than sources every
  target divides by zero, after its source may have started.
\<close>

lemma scatter_shards_smaller_target:
  assumes "store_get dst = ret da" and "dl_shard_id (devices_of da) (global_id p) = Some d"
    and "dl_size (devices_of da) < dl_size (devices_of sa)" and "int64_ok (dl_size (devices_of da))"
  shows "ScatterShardsToLocalTarget rl m t p sa dst mgr w = fail (Undefined DivideByZero)"
proof -
  have "0 \<le> dl_size (devices_of da)" using assms(2) by (auto simp: dl_shard_id_iff)
  then have "div64 (dl_size (devices_of da)) (dl_size (devices_of sa)) = ret 0"
    using assms(3,4) by (simp add: div64_ok div_pos_pos_trivial)
  then show ?thesis using assms(1,2) by (simp add: ScatterShardsToLocalTarget_def div64_zero)
qed

end
