(* ===== verification/Reshard_Target.thy ===== *)
theory Reshard_Target
  imports Reshard_Safety
begin

text \<open>
  Reshards and their target, the other side of \<open>Reshard_Safety\<close>: what a reshard writes into the tile of
  a target is answered for by the events of the target's store.
\<close>

section \<open>Writes of an instance\<close>

context access_log
begin

lemma kept_covers:
  assumes "kept mgr tr E mgr' tr'" and "\<And>e. e \<in> E \<Longrightarrow> \<exists>x \<in> F. depends tr' x e"
  shows "kept mgr tr F mgr' tr'"
proof -
  obtain new where new: "tr' = tr @ new"
    and k: "\<And>c. c \<in> accesses new \<union> waiting mgr' \<Longrightarrow> \<exists>x \<in> E \<union> waiting mgr. depends tr' x c"
    using assms(1) unfolding kept_def by blast
  have "\<exists>x \<in> F \<union> waiting mgr. depends tr' x c" if c: "c \<in> accesses new \<union> waiting mgr'" for c
  proof -
    obtain x where x: "x \<in> E \<union> waiting mgr" "depends tr' x c" using k[OF c] by blast
    show ?thesis
    proof (cases "x \<in> E")
      case True
      then obtain y where "y \<in> F" "depends tr' y x" using assms(2) by blast
      then show ?thesis using x(2) depends_trans by blast
    qed (use x in blast)
  qed
  then show ?thesis unfolding kept_def using new by blast
qed

end

lemma writes_in_append [simp]:
  "writes_in i [] = {}" "writes_in i (tr @ tr') = writes_in i tr \<union> writes_in i tr'"
  by (auto simp: writes_in_def)

lemma writes_in_simps [simp]:
  "writes_in i [(RectCopy b n s d pre, e)] = (if d = i then {e} else {})"
  "writes_in i [(MergeEvents es, e)] = {}" "writes_in i [(CreateUserEvent, e)] = {}"
  "writes_in i [(TriggerEvent u pre, e)] = {}" "writes_in i [(CreateBarrier j, e)] = {}"
  "writes_in i [(ArriveBarrier x j pre, e)] = {}" "writes_in i [(AdvanceBarrier x, e)] = {}"
  by (auto simp: writes_in_def copies_in_def)

lemma writes_in_Cons: "NO_MATCH [] tr \<Longrightarrow> writes_in i (x # tr) = writes_in i [x] \<union> writes_in i tr"
  using writes_in_append(2)[of i "[x]" tr] by simp

lemma copies_none_writes: "copies_in new = [] \<Longrightarrow> writes_in i new = {}"
  by (simp add: writes_in_def)

lemma writes_step:
  assumes t: "tr' = tr @ new"
    and w: "\<And>op. op \<in> set (pending_dest r) \<Longrightarrow> op_instance op = i \<Longrightarrow>
      op \<in> set (pending_dest (mgr key)) \<or> op_postcondition op \<in> E"
    and c: "\<And>c. c \<in> writes_in i new \<Longrightarrow> c \<in> E \<or>
      (\<exists>op \<in> set (pending_dest (mgr key)). op_instance op = i \<and> depends tr' (op_postcondition op) c)"
  shows "writes.kept i mgr tr E (mgr(key := r)) tr'"
proof -
  have "\<exists>x \<in> E \<union> waiting_writes i mgr. depends tr' x c" if "c \<in> writes_in i new" for c
    using c[OF that] depends_refl unfolding waiting_writes_def by blast
  moreover have "waiting_writes i (mgr(key := r)) \<subseteq> E \<union> waiting_writes i mgr"
    using w by (auto simp: waiting_writes_def split: if_splits)
  ultimately show ?thesis using t depends_refl unfolding writes.kept_def by blast
qed

lemma writes_quiet_step:
  "writes.kept i mgr tr E mgr' tr1 \<Longrightarrow> quiet tr1 tr2 \<Longrightarrow> writes.kept i mgr tr E mgr' tr2"
  using writes.kept_later[OF _ writes.kept_quiet] copies_none_writes unfolding quiet_def by blast

lemma writes_refl: "writes.kept i mgr tr {} mgr tr"
  using writes.kept_quiet[of i "[]" mgr mgr tr] by simp

text \<open>
  The ends that wait with the instance belong to keys of the target's own shard, so a source of this
  process that pairs with one of them copies within the process.
\<close>

definition at_home :: "inst \<Rightarrow> int \<Rightarrow> reshard_manager \<Rightarrow> bool" where
  "at_home i d mgr \<longleftrightarrow>
     (\<forall>key. \<forall>op \<in> set (pending_dest (mgr key)). op_instance op = i \<longrightarrow> key_dst_shard key = d)"

definition local_shard :: "machine \<Rightarrow> proc_tables \<Rightarrow> processor \<Rightarrow> sharded_array \<Rightarrow> int \<Rightarrow> bool" where
  "local_shard m t p a d \<longleftrightarrow> (\<exists>q. HostForShard m t a d = ret q \<and> space_of m q = space_of m (pr_proc p))"

definition filled ::
  "inst \<Rightarrow> int \<Rightarrow> reshard_manager \<Rightarrow> trace \<Rightarrow> event set \<Rightarrow> reshard_manager \<Rightarrow> trace \<Rightarrow> bool" where
  "filled i d mgr tr E mgr' tr' \<longleftrightarrow> writes.kept i mgr tr E mgr' tr' \<and> at_home i d mgr'"

lemma filled_refl: "at_home i d mgr \<Longrightarrow> filled i d mgr tr {} mgr tr"
  by (simp add: filled_def writes_refl)

lemma filled_quiet: "filled i d mgr tr E mgr' tr1 \<Longrightarrow> quiet tr1 tr2 \<Longrightarrow> filled i d mgr tr E mgr' tr2"
  using writes_quiet_step unfolding filled_def by blast

lemma filled_later: "filled i d mgr tr E mgr1 tr1 \<Longrightarrow> filled i d mgr1 tr1 {} mgr2 tr2 \<Longrightarrow> filled i d mgr tr E mgr2 tr2"
  using writes.kept_later unfolding filled_def by blast

lemma filled_trans:
  "filled i d mgr tr E mgr1 tr1 \<Longrightarrow> filled i d mgr1 tr1 E' mgr2 tr2 \<Longrightarrow> filled i d mgr tr (E \<union> E') mgr2 tr2"
  using writes.kept_trans unfolding filled_def by blast

lemma filled_mono: "filled i d mgr tr E mgr' tr' \<Longrightarrow> E \<subseteq> E' \<Longrightarrow> filled i d mgr tr E' mgr' tr'"
  using writes.kept_mono unfolding filled_def by blast

lemma filled_covers:
  "filled i d mgr tr E mgr' tr' \<Longrightarrow> (\<And>e. e \<in> E \<Longrightarrow> \<exists>x \<in> F. depends tr' x e) \<Longrightarrow> filled i d mgr tr F mgr' tr'"
  using writes.kept_covers unfolding filled_def by blast

lemma filled_home: "filled i d mgr tr E mgr' tr' \<Longrightarrow> at_home i d mgr'"
  by (simp add: filled_def)

section \<open>The calls of the two ends\<close>

lemma send_ack_barrier_dest:
  "send_ack_barrier rl remote target key r w = (r', w') \<Longrightarrow> pending_dest r' = pending_dest r"
  by (auto simp: send_ack_barrier_def split: if_splits prod.splits)

lemma source_pair_writes:
  assumes run: "source_pair rl remote inst pre r w = ret (e, r', w')"
    and "\<And>op. op \<in> set (pending_dest r) \<Longrightarrow> op_instance op = i \<Longrightarrow> \<not> remote"
  shows "\<exists>new. trace_of w' = trace_of w @ new \<and> set (pending_dest r') \<subseteq> set (pending_dest r) \<and>
    (\<forall>c \<in> writes_in i new. \<exists>op \<in> set (pending_dest r). op_instance op = i \<and>
       depends (trace_of w') (op_postcondition op) c)"
proof (cases "pending_dest r")
  case Nil
  then show ?thesis using run by (auto simp: source_pair_def invoke_def)
next
  case (Cons op ops)
  show ?thesis
  proof (cases remote)
    case True
    then have "op_instance op \<noteq> i" using assms(2)[of op] Cons by auto
    then have "\<exists>new. trace_of w' = trace_of w @ new \<and> writes_in i new = {} \<and> pending_dest r' = ops"
      using run Cons True by (auto simp: source_pair_def RemoteCopyNextPendingToTarget_def IssueCopy_def merge2_def
          invoke_def command_def andThen_eq_ret Let_def writes_in_Cons require_def split: if_splits prod.splits)
    then show ?thesis using Cons by auto
  next
    case False
    obtain b where b: "p2p_shape r = Some b"
      using run Cons False by (auto simp: source_pair_def get_shape_def andThen_eq_ret split: option.splits)
    obtain a w1 where a: "merge2 rl (op_precondition op) pre w = (a, w1)" by fastforce
    obtain c w2 where c: "IssueCopy rl b (p2p_field_size r) inst (op_instance op) a w1 = (c, w2)" by fastforce
    have w': "w' = command rl (TriggerEvent (op_postcondition op) e) w2" and "e = c" and "pending_dest r' = ops"
      using run Cons False b a c by (auto simp: source_pair_def get_shape_def andThen_eq_ret require_def split: if_splits)
    moreover have "\<exists>new. trace_of w2 = trace_of w @ new \<and> writes_in i new \<subseteq> (if op_instance op = i then {c} else {})"
      using a c by (auto simp: IssueCopy_def merge2_def invoke_def writes_in_Cons)
    moreover have "depends (trace_of w') (op_postcondition op) e" unfolding w' by (rule deps.after_trigger) auto
    ultimately show ?thesis using Cons by (auto split: if_splits)
  qed
qed

lemma source_call_filled:
  assumes "ReshardFromLocalSource rl m t p shape key src da mgr w = ret (e, mgr', w')"
    and home: "at_home i d mgr" and here: "local_shard m t p da d"
  shows "filled i d mgr (trace_of w) {} mgr' (trace_of w')"
proof -
  obtain sa where sa: "view_get src = ret sa" using assms(1) by (auto simp: ReshardFromLocalSource_def andThen_eq_ret)
  then obtain tile r target r1 w1 r2 where tile: "sa_tile sa = Some tile" and
    r: "first_use shape (shp_type (sa_shape sa)) (ReshardName sa da) (mgr key) = ret r"
    and target: "HostForShard m t da (key_dst_shard key) = ret target"
    and r1: "send_ack_barrier rl (space_of m (pr_proc p) \<noteq> space_of m target) target key r w = (r1, w1)"
    and r2: "source_pair rl (space_of m (pr_proc p) \<noteq> space_of m target) (at_instance tile)
      (view_Precondition src) r1 w1 = ret (e, r2, w')" and mgr': "mgr' = mgr(key := r2)"
    using assms(1) by (auto simp: ReshardFromLocalSource_def RendezvousReshardFromLocalSource_def
        array_tile_of_def opt_get_eq_ret andThen_eq_ret split_beta Let_def intro!: that[OF _ _ _ prod.collapse[symmetric]])
  obtain n1 where n1: "trace_of w1 = trace_of w @ n1" "copies_in n1 = []"
    using send_ack_barrier_log[OF r1] by auto
  have d1: "pending_dest r1 = pending_dest (mgr key)"
    using send_ack_barrier_dest[OF r1] first_use_sources[OF r] by simp
  have "\<not> (space_of m (pr_proc p) \<noteq> space_of m target)" if "op \<in> set (pending_dest r1)" "op_instance op = i" for op
    using that home here target d1 by (auto simp: at_home_def local_shard_def)
  note in_process = this
  have "\<exists>new. trace_of w' = trace_of w1 @ new \<and> set (pending_dest r2) \<subseteq> set (pending_dest r1) \<and>
    (\<forall>c \<in> writes_in i new. \<exists>op \<in> set (pending_dest r1). op_instance op = i \<and>
       depends (trace_of w') (op_postcondition op) c)"
    by (rule source_pair_writes[OF r2]) (rule in_process)
  then obtain n2 where n2: "trace_of w' = trace_of w1 @ n2"
    and s2: "set (pending_dest r2) \<subseteq> set (pending_dest r1)"
    and c2: "\<forall>c \<in> writes_in i n2. \<exists>op \<in> set (pending_dest r1). op_instance op = i \<and>
       depends (trace_of w') (op_postcondition op) c" by blast
  have "writes.kept i mgr (trace_of w) {} mgr' (trace_of w')" unfolding mgr'
  proof (rule writes_step)
    show "trace_of w' = trace_of w @ n1 @ n2" using n1(1) n2 by simp
  qed (use s2 c2 d1 n1(2) copies_none_writes in auto)
  moreover have "at_home i d mgr'" using home s2 d1 by (auto simp: at_home_def mgr' split: if_splits)
  ultimately show ?thesis by (simp add: filled_def)
qed

lemma target_pair_writes:
  assumes "target_pair rl inst dst op ops r w = ret (e, r', w')"
  shows "\<exists>new. trace_of w' = trace_of w @ new \<and> writes_in i new \<subseteq> {e} \<and> pending_dest r' = pending_dest r"
proof -
  obtain b where b: "p2p_shape r = Some b"
    using assms by (auto simp: target_pair_def get_shape_def andThen_eq_ret split: option.splits)
  obtain q w1 where q: "store_Precondition rl dst w = (q, w1)" by fastforce
  obtain a w2 where a: "merge2 rl (op_precondition op) q w1 = (a, w2)" by fastforce
  obtain c w3 where c: "IssueCopy rl b (p2p_field_size r) (op_instance op) inst a w2 = (c, w3)" by fastforce
  have e: "w' = command rl (TriggerEvent (op_postcondition op) c) w3" "e = c" "pending_dest r' = pending_dest r"
    using assms b q a c by (auto simp: target_pair_def get_shape_def andThen_eq_ret require_def split: if_splits)
  have "added undefined (trace_of w') (trace_of w) [(op_instance op, inst, c)] []"
    using added_trans[OF deps.issue_after(3)[OF a c] added_store_Precondition[OF q]]
    by (simp add: added_snoc_quiet e)
  then obtain new where "trace_of w' = trace_of w @ new" "copies_in new = [(op_instance op, inst, c)]"
    by (auto simp: added_def)
  then show ?thesis using e by (auto simp: writes_in_def)
qed

lemma target_wait_dest:
  "target_wait rl inst dst r w = (e, r', w') \<Longrightarrow>
   \<forall>op \<in> set (pending_dest r'). op \<in> set (pending_dest r) \<or> op_postcondition op = e"
  by (auto simp: target_wait_def split: if_splits prod.splits)

lemma target_call_filled:
  assumes "ReshardToLocalTarget rl m t p shape key src dst mgr w = ret (e, mgr', w')"
    and home: "at_home i d mgr" and key: "key_dst_shard key = d"
  shows "filled i d mgr (trace_of w) {e} mgr' (trace_of w')"
proof -
  obtain da tile where da: "store_get dst = ret da" "sa_tile da = Some tile"
    using assms by (auto simp: ReshardToLocalTarget_def andThen_eq_ret array_tile_of_def opt_get_eq_ret)
  then obtain r where r: "first_use shape (shp_type (sa_shape src)) (ReshardName src da) (mgr key) = ret r"
    using assms by (auto simp: ReshardToLocalTarget_def RendezvousReshardToLocalTarget_def
        andThen_eq_ret array_tile_of_def)
  have run: "(case pending_source r of
       op # ops \<Rightarrow> andThen (target_pair rl (at_instance tile) dst op ops r w)
           (\<lambda>(postcondition, r1, w1). ret (postcondition, mgr(key := r1), w1))
     | [] \<Rightarrow> andThen (HostForShard m t src (key_src_shard key)) (\<lambda>target.
         let (r1, w1) =
               (if space_of m target \<noteq> space_of m (pr_proc p)
                then send_instance rl target key (at_instance tile) dst r w else (r, w));
             (postcondition, r2, w2) = target_wait rl (at_instance tile) dst r1 w1
         in ret (postcondition, mgr(key := r2), w2))) = ret (e, mgr', w')"
    using assms da r by (simp add: ReshardToLocalTarget_def RendezvousReshardToLocalTarget_def array_tile_of_def)
  note same = first_use_sources[OF r]
  have "\<exists>r' new. mgr' = mgr(key := r') \<and> trace_of w' = trace_of w @ new \<and> writes_in i new \<subseteq> {e} \<and>
    (\<forall>op \<in> set (pending_dest r'). op \<in> set (pending_dest (mgr key)) \<or> op_postcondition op = e)"
  proof (cases "pending_source r")
    case (Cons op ops)
    then obtain r1 where t: "target_pair rl (at_instance tile) dst op ops r w = ret (e, r1, w')"
      and mgr': "mgr' = mgr(key := r1)" using run by (auto simp: andThen_eq_ret)
    show ?thesis using target_pair_writes[OF t, of i] same mgr' by auto
  next
    case Nil
    obtain target where host: "HostForShard m t src (key_src_shard key) = ret target"
      using run Nil by (auto simp: andThen_eq_ret)
    obtain r1 w1 where 1: "(if space_of m target \<noteq> space_of m (pr_proc p)
        then send_instance rl target key (at_instance tile) dst r w else (r, w)) = (r1, w1)" by fastforce
    obtain e' r2 w2 where "target_wait rl (at_instance tile) dst r1 w1 = (e', r2, w2)"
      by (cases "target_wait rl (at_instance tile) dst r1 w1")
    then have 2: "target_wait rl (at_instance tile) dst r1 w1 = (e, r2, w')" and mgr': "mgr' = mgr(key := r2)"
      using run Nil host 1 by auto
    have "\<exists>n. trace_of w1 = trace_of w @ n \<and> copies_in n = []" and d1: "pending_dest r1 = pending_dest r"
      using 1 send_instance_log[of rl target key "at_instance tile" dst r w r1 w1] by (auto split: if_splits)
    then obtain n where n: "trace_of w' = trace_of w @ n" "copies_in n = []" using target_wait_log[OF 2] by auto
    have "op \<in> set (pending_dest (mgr key)) \<or> op_postcondition op = e" if "op \<in> set (pending_dest r2)" for op
      using target_wait_dest[OF 2] that d1 same by auto
    then show ?thesis using mgr' n(1) copies_none_writes[OF n(2)] by (intro exI[of _ r2] exI[of _ n]) simp
  qed
  then obtain r' new where mgr': "mgr' = mgr(key := r')" and n: "trace_of w' = trace_of w @ new" "writes_in i new \<subseteq> {e}"
    and o: "\<forall>op \<in> set (pending_dest r'). op \<in> set (pending_dest (mgr key)) \<or> op_postcondition op = e" by blast
  have "writes.kept i mgr (trace_of w) {e} mgr' (trace_of w')"
    unfolding mgr' using n o by (intro writes_step[of _ _ new]) auto
  moreover have "at_home i d mgr'" using home key by (auto simp: at_home_def mgr' split: if_splits)
  ultimately show ?thesis by (simp add: filled_def)
qed

text \<open>A message that brings another instance.\<close>

lemma handler_filled:
  assumes "PointToPointNameHandler rl (key, barrier, inst) mgr w = ret (mgr', w')" and "inst \<noteq> i"
    and home: "at_home i d mgr"
  shows "filled i d mgr (trace_of w) {} mgr' (trace_of w')"
proof -
  obtain r where r: "receive_names rl barrier inst (mgr key) w = ret (r, w')" and mgr': "mgr' = mgr(key := r)"
    using assms(1) by (auto simp: PointToPointNameHandler_def ReceivePointToPointNames_def andThen_eq_ret)
  have "\<exists>new. trace_of w' = trace_of w @ new \<and> writes_in i new = {} \<and>
    (\<forall>op \<in> set (pending_dest r). op_instance op = i \<longrightarrow> op \<in> set (pending_dest (mgr key)))"
  proof (cases "inst = NO_INST")
    case False
    then have run: "receive_instance rl barrier inst (mgr key) w = ret (r, w')" using r by (simp add: receive_names_def)
    show ?thesis
    proof (cases "pending_source (mgr key)")
      case Nil
      then show ?thesis using run assms(2) by (auto simp: receive_instance_def andThen_eq_ret)
    next
      case (Cons op ops)
      then show ?thesis using run assms(2)
        by (auto simp: receive_instance_def RemoteCopyNextPendingToTarget_def IssueCopy_def merge2_def invoke_def
            command_def andThen_eq_ret Let_def writes_in_Cons require_def split: if_splits prod.splits)
    qed
  next
    case True
    then obtain ack where "clear_pending_dest rl barrier (pending_dest (mgr key)) w = ret (ack, w')"
      and "pending_dest r = []"
      using r by (auto simp: receive_names_def receive_barrier_def andThen_eq_ret)
    then show ?thesis using clear_pending_dest_log[of rl barrier "pending_dest (mgr key)" w ack w'] copies_none_writes by auto
  qed
  then obtain new where n: "trace_of w' = trace_of w @ new" "writes_in i new = {}"
    and o: "\<forall>op \<in> set (pending_dest r). op_instance op = i \<longrightarrow> op \<in> set (pending_dest (mgr key))" by blast
  have "writes.kept i mgr (trace_of w) {} mgr' (trace_of w')"
    unfolding mgr' using n o by (intro writes_step[of _ _ new]) auto
  moreover have "at_home i d mgr'" using home o by (auto simp: at_home_def mgr' split: if_splits)
  ultimately show ?thesis by (simp add: filled_def)
qed

section \<open>Through the protocols\<close>

text \<open>What a store has recorded covers what it was told to be ready after.\<close>

lemma ReadyAfter_records:
  assumes "store_ReadyAfter rl e st w = (st', w')"
  shows "\<exists>x \<in> recorded st'. depends (trace_of w') x e" and "war_pre st' = None"
proof -
  show "war_pre st' = None"
    using assms by (auto simp: store_ReadyAfter_def store_ReadyAfter2_def split: option.splits prod.splits)
  show "\<exists>x \<in> recorded st'. depends (trace_of w') x e"
  proof (cases "child_rw st")
    case None
    then show ?thesis using assms
      by (auto simp: store_ReadyAfter_def store_ReadyAfter2_def recorded_def depends_refl)
  next
    case (Some rw)
    obtain x w1 where x: "merge2 rl e (ep_effects rw) w = (x, w1)" by fastforce
    obtain s w2 where s: "merge2 rl e (ep_stream rw) w1 = (s, w2)" by fastforce
    have "x \<in> recorded st'" "w' = w2"
      using assms Some x s by (auto simp: store_ReadyAfter_def store_ReadyAfter2_def recorded_def)
    moreover have "depends (trace_of w2) x e"
      using deps.merge2_after(1)[OF x] depends_extends quiet_extends[OF merge_quiet(1)[OF s]] by blast
    ultimately show ?thesis by blast
  qed
qed

lemma filled_ready:
  assumes "filled i d mgr tr {e} mgr' (trace_of w1)" and "store_ReadyAfter rl e dst w1 = (dst', w')"
  shows "filled i d mgr tr (recorded dst') mgr' (trace_of w')"
  using filled_covers[OF filled_quiet[OF assms(1) merge_quiet(3)[OF assms(2)]]] ReadyAfter_records(1)[OF assms(2)] by blast

lemma filled_ready_all:
  assumes "filled i d mgr tr E mgr1 (trace_of w1)" and "finite E"
    and "ready_after_all rl dst (E, mgr1, w1) = (dst', mgr', w')"
  shows "filled i d mgr tr (recorded dst') mgr' (trace_of w')"
proof -
  obtain r w2 where r: "merge_set rl E w1 = (r, w2)" by fastforce
  then have s: "store_ReadyAfter rl r dst w2 = (dst', w')" and "mgr' = mgr1"
    using assms(3) by (auto simp: ready_after_all_def split: prod.splits)
  have "filled i d mgr tr E mgr1 (trace_of w2)" using assms(1) merge_quiet(2)[OF r] by (rule filled_quiet)
  then have "filled i d mgr tr {r} mgr1 (trace_of w2)"
    by (rule filled_covers) (use deps.merge_set_after[OF r assms(2)] in blast)
  then show ?thesis using filled_ready s \<open>mgr' = mgr1\<close> by blast
qed

lemma slice_key_dst [simp]: "key_dst_shard (slice_key a b s d) = d"
  by (simp add: slice_key_def)

definition sends_to ::
  "realm \<Rightarrow> machine \<Rightarrow> proc_tables \<Rightarrow> processor \<Rightarrow> sharded_array \<Rightarrow>
   (event set \<times> reshard_manager \<times> 'z runtime_scheme \<Rightarrow> 'a \<Rightarrow>
    (event set \<times> reshard_manager \<times> 'z runtime_scheme) res) \<Rightarrow> bool" where
  "sends_to rl m t p da f \<longleftrightarrow> (\<forall>st x st'. f st x = ret st' \<longrightarrow>
     (\<exists>b key src. send_slice rl m t p b key src da st = ret st'))"

definition receives_in ::
  "realm \<Rightarrow> machine \<Rightarrow> proc_tables \<Rightarrow> processor \<Rightarrow> sharded_array store \<Rightarrow> int \<Rightarrow> 'a list \<Rightarrow>
   (event set \<times> reshard_manager \<times> 'z runtime_scheme \<Rightarrow> 'a \<Rightarrow>
    (event set \<times> reshard_manager \<times> 'z runtime_scheme) res) \<Rightarrow> bool" where
  "receives_in rl m t p dst d xs f \<longleftrightarrow> (\<forall>st x st'. x \<in> set xs \<longrightarrow> f st x = ret st' \<longrightarrow>
     (\<exists>b key src. key_dst_shard key = d \<and> receive_slice rl m t p b key src dst st = ret st'))"

lemma sends_filled:
  assumes f: "sends_to rl m t p da f" and home: "at_home i d mgr" and here: "local_shard m t p da d"
    and loop: "foldR f (E, mgr, w) xs = ret (E', mgr', w')"
  shows "filled i d mgr (trace_of w) {} mgr' (trace_of w')"
proof -
  have "(\<lambda>(E, mgr', w'). filled i d mgr (trace_of w) {} mgr' (trace_of w')) (E', mgr', w')"
  proof (rule foldR_invariant[OF _ _ loop])
    fix st x st'
    assume "(\<lambda>(E, mgr', w'). filled i d mgr (trace_of w) {} mgr' (trace_of w')) st" and run: "f st x = ret st'"
    moreover obtain E1 mgr1 w1 where st: "st = (E1, mgr1, w1)" by (cases st)
    ultimately have k: "filled i d mgr (trace_of w) {} mgr1 (trace_of w1)" by simp
    obtain b key src where "send_slice rl m t p b key src da st = ret st'" using f run unfolding sends_to_def by blast
    then obtain e mgr2 w2 where c: "ReshardFromLocalSource rl m t p b key src da mgr1 w1 = ret (e, mgr2, w2)"
      and st': "st' = (insert e E1, mgr2, w2)" by (auto simp: send_slice_def st andThen_eq_ret)
    show "(\<lambda>(E, mgr', w'). filled i d mgr (trace_of w) {} mgr' (trace_of w')) st'"
      using filled_later[OF k source_call_filled[OF c filled_home[OF k] here]] by (simp add: st')
  qed (simp add: filled_refl[OF home])
  then show ?thesis by simp
qed

lemma receives_filled:
  assumes f: "receives_in rl m t p dst d xs f" and home: "at_home i d mgr"
    and loop: "foldR f ({}, mgr, w) xs = ret st" and ready: "ready_after_all rl dst st = (dst', mgr', w')"
  shows "filled i d mgr (trace_of w) (recorded dst') mgr' (trace_of w')"
proof -
  let ?P = "\<lambda>(E, mgr', w'). finite E \<and> filled i d mgr (trace_of w) E mgr' (trace_of w')"
  have "?P st"
  proof (rule foldR_invariant[OF _ _ loop])
    fix st x st'
    assume x: "x \<in> set xs" and "?P st" and run: "f st x = ret st'"
    moreover obtain E1 mgr1 w1 where st: "st = (E1, mgr1, w1)" by (cases st)
    ultimately have k: "finite E1" "filled i d mgr (trace_of w) E1 mgr1 (trace_of w1)" by auto
    obtain b key src where key: "key_dst_shard key = d" and "receive_slice rl m t p b key src dst st = ret st'"
      using f run x unfolding receives_in_def by blast
    then obtain e mgr2 w2 where c: "ReshardToLocalTarget rl m t p b key src dst mgr1 w1 = ret (e, mgr2, w2)"
      and st': "st' = (insert e E1, mgr2, w2)" by (auto simp: receive_slice_def st andThen_eq_ret)
    show "?P st'"
      using filled_trans[OF k(2) target_call_filled[OF c filled_home[OF k(2)] key]] k(1) by (simp add: st')
  qed (simp add: filled_refl[OF home])
  then show ?thesis using filled_ready_all ready by (cases st) auto
qed

lemma p2p_ToLocalTarget_filled:
  assumes "p2p_ToLocalTarget rl m t p shape src dst s d mgr w = ret (e, dst', mgr', w')" and "at_home i d mgr"
  shows "filled i d mgr (trace_of w) (recorded dst') mgr' (trace_of w')"
proof -
  obtain key w1 where c: "ReshardToLocalTarget rl m t p shape key src dst mgr w = ret (e, mgr', w1)"
    and key: "key_dst_shard key = d" and r: "(dst', w') = store_ReadyAfter rl e dst w1"
    using assms(1) by (auto simp: p2p_ToLocalTarget_def slice_key_def andThen_eq_ret split_beta Let_def)
  show ?thesis using filled_ready[OF target_call_filled[OF c assms(2) key] r[symmetric]] .
qed

lemma p2p_FromLocalSource_filled:
  assumes "p2p_FromLocalSource rl m t p shape src da s s' mgr w = ret (e, mgr', w')"
    and "at_home i d mgr" and "local_shard m t p da d"
  shows "filled i d mgr (trace_of w) {} mgr' (trace_of w')"
proof -
  obtain key w1 where c: "ReshardFromLocalSource rl m t p shape key src da mgr w = ret (e, mgr', w1)"
    and v: "view_destroy rl t (view_DoneAfter e src) w1 = ret w'"
    using assms(1) by (auto simp: p2p_FromLocalSource_def andThen_eq_ret split: prod.splits)
  show ?thesis using filled_quiet[OF source_call_filled[OF c assms(2,3)] view_destroy_quiet[OF v]] .
qed

lemma done_quiet:
  "done_after_all rl v (E, mgr, w) = (v', mgr', w') \<Longrightarrow> mgr' = mgr \<and> quiet (trace_of w) (trace_of w')"
  using merge_quiet(2) by (auto simp: done_after_all_def split: prod.splits)

lemma sends_then_done:
  assumes "sends_to rl m t p da f" and "at_home i d mgr" and "local_shard m t p da d"
    and "foldR f ({}, mgr, w) xs = ret st" and "done_after_all rl v st = (v', mgr', w')"
  shows "filled i d mgr (trace_of w) {} mgr' (trace_of w')"
proof (cases st)
  case (fields E mgr1 w1)
  then show ?thesis using filled_quiet[OF sends_filled[OF assms(1-3)]] assms(4,5) done_quiet by metis
qed

lemma ScatterGather_source_filled:
  assumes "ReshardScatterGatherFromLocalSource rl m t p config src da mgr w = ret (mgr', w')"
    and "at_home i d mgr" and "local_shard m t p da d"
  shows "filled i d mgr (trace_of w) {} mgr' (trace_of w')"
proof -
  let ?f = "\<lambda>st slice. andThen (view_get src) (\<lambda>sa.
    send_slice rl m t p (slc_bounds slice) (slice_key sa da (slc_src slice) (slc_dst slice)) src da st)"
  obtain st where loop: "foldR ?f ({}, mgr, w) (from_source config) = ret st"
    and run: "(let (src', mgr', w') = done_after_all rl src st
      in andThen (view_destroy rl t src' w') (\<lambda>w''. ret (mgr', w''))) = ret (mgr', w')"
    using assms(1) unfolding ReshardScatterGatherFromLocalSource_def andThen_eq_ret by blast
  obtain v' mgr1 w1 where dn: "done_after_all rl src st = (v', mgr1, w1)" by (cases "done_after_all rl src st")
  have "sends_to rl m t p da ?f" unfolding sends_to_def andThen_eq_ret by blast
  note sent = sends_then_done[OF this assms(2,3) loop dn]
  obtain "view_destroy rl t v' w1 = ret w'" "mgr1 = mgr'" using run dn by (auto simp: andThen_eq_ret)
  then show ?thesis using filled_quiet[OF sent view_destroy_quiet] by blast
qed

lemma Broadcast_source_filled:
  assumes "ReshardBroadcastFromLocalSource rl m t p config src da mgr w = ret (mgr', w')"
    and "at_home i d mgr" and "local_shard m t p da d"
  shows "filled i d mgr (trace_of w) {} mgr' (trace_of w')"
proof -
  let ?f = "\<lambda>st dst_shard. andThen (view_get src) (\<lambda>sa. andThen (array_tile_of sa) (\<lambda>tile.
     send_slice rl m t p (tsh_bounds (at_shape tile)) (slice_key sa da (sa_shard_id sa) dst_shard) src da st))"
  obtain xs st where loop: "foldR ?f ({}, mgr, w) xs = ret st"
    and run: "(let (src', mgr', w') = done_after_all rl src st
      in andThen (view_destroy rl t src' w') (\<lambda>w''. ret (mgr', w''))) = ret (mgr', w')"
    using assms(1) unfolding ReshardBroadcastFromLocalSource_def andThen_eq_ret by blast
  obtain v' mgr1 w1 where dn: "done_after_all rl src st = (v', mgr1, w1)" by (cases "done_after_all rl src st")
  have "sends_to rl m t p da ?f" unfolding sends_to_def andThen_eq_ret by blast
  note sent = sends_then_done[OF this assms(2,3) loop dn]
  obtain "view_destroy rl t v' w1 = ret w'" "mgr1 = mgr'" using run dn by (auto simp: andThen_eq_ret)
  then show ?thesis using filled_quiet[OF sent view_destroy_quiet] by blast
qed

lemma GatherShards_source_filled:
  assumes "GatherShardsFromLocalSource rl m t p src da config mgr w = ret (v', mgr', w')"
    and "at_home i d mgr" and "local_shard m t p da d"
  shows "filled i d mgr (trace_of w) {} mgr' (trace_of w')"
proof -
  obtain sa s st where
    loop: "foldR (\<lambda>st shard.
             andThen (opt_get (source_to_target_bounds config)) (\<lambda>bounds.
             send_slice rl m t p bounds (slice_key sa da s shard) src da st))
           ({}, mgr, w) (upto64 (dl_size (devices_of da))) = ret st"
    and dn: "done_after_all rl src st = (v', mgr', w')"
    using assms(1) unfolding GatherShardsFromLocalSource_def Let_def andThen_eq_ret by blast
  show ?thesis by (rule sends_then_done[OF _ assms(2,3) loop dn]) (unfold sends_to_def andThen_eq_ret, blast)
qed

lemma ScatterShards_source_filled:
  assumes "ScatterShardsFromLocalSource rl m t max_dim p src da mgr w = ret (v', mgr', w')"
    and "at_home i d mgr" and "local_shard m t p da d"
  shows "filled i d mgr (trace_of w) {} mgr' (trace_of w')"
proof -
  obtain sa k s st where
    loop: "foldR (\<lambda>st shard.
            andThen (ComputeTileBounds max_dim (k * s + shard) (shp_sharding (sa_shape da))) (\<lambda>bounds.
            send_slice rl m t p bounds (slice_key sa da s (k * s + shard)) src da st))
          ({}, mgr, w) (upto64 k) = ret st"
    and dn: "done_after_all rl src st = (v', mgr', w')"
    using assms(1) unfolding ScatterShardsFromLocalSource_def Let_def andThen_eq_ret by blast
  show ?thesis by (rule sends_then_done[OF _ assms(2,3) loop dn]) (unfold sends_to_def andThen_eq_ret, blast)
qed

text \<open>The targets' parts.\<close>

lemma ScatterGather_target_filled:
  assumes "ReshardScatterGatherToLocalTarget rl m t p config src dst mgr w = ret (dst', mgr', w')"
    and "at_home i d mgr" and "\<forall>slice \<in> set (to_target config). slc_dst slice = d"
  shows "filled i d mgr (trace_of w) (recorded dst') mgr' (trace_of w')"
proof -
  let ?f = "\<lambda>st slice. andThen (store_get dst) (\<lambda>da.
    receive_slice rl m t p (slc_bounds slice) (slice_key src da (slc_src slice) (slc_dst slice)) src dst st)"
  obtain st where loop: "foldR ?f ({}, mgr, w) (to_target config) = ret st"
    and r: "ready_after_all rl dst st = (dst', mgr', w')"
    using assms(1) unfolding ReshardScatterGatherToLocalTarget_def andThen_eq_ret by blast
  show ?thesis
  proof (rule receives_filled[OF _ assms(2) loop r])
    show "receives_in rl m t p dst d (to_target config) ?f"
      using assms(3) unfolding receives_in_def andThen_eq_ret by (metis slice_key_dst)
  qed
qed

lemma GatherShards_target_filled:
  assumes "GatherShardsToLocalTarget rl m t p src dst config mgr w = ret (dst', mgr', w')"
    and "at_home i d mgr" and "gs_dst_shard config = Some d"
  shows "filled i d mgr (trace_of w) (recorded dst') mgr' (trace_of w')"
proof -
  let ?f = "\<lambda>st shard. andThen (store_get dst) (\<lambda>da. andThen (vec_at (target_from_source_bounds config) shard) (\<lambda>bounds.
             receive_slice rl m t p bounds (slice_key src da shard d) src dst st))"
  obtain st where loop: "foldR ?f ({}, mgr, w) (upto64 (dl_size (devices_of src))) = ret st"
    and r: "ready_after_all rl dst st = (dst', mgr', w')"
    using assms(1,3) unfolding GatherShardsToLocalTarget_def Let_def andThen_eq_ret opt_get_eq_ret by auto
  show ?thesis
  proof (rule receives_filled[OF _ assms(2) loop r])
    show "receives_in rl m t p dst d (upto64 (dl_size (devices_of src))) ?f"
      unfolding receives_in_def andThen_eq_ret by (metis slice_key_dst)
  qed
qed

lemma ScatterShards_target_filled:
  assumes "ScatterShardsToLocalTarget rl m t p src dst mgr w = ret (dst', mgr', w')"
    and "at_home i d mgr" and "store_get dst = ret da" and "dl_shard_id (devices_of da) (global_id p) = Some d"
  shows "filled i d mgr (trace_of w) (recorded dst') mgr' (trace_of w')"
proof -
  obtain b key e w1 where c: "ReshardToLocalTarget rl m t p b key src dst mgr w = ret (e, mgr', w1)"
    and key: "key_dst_shard key = d" and r: "(dst', w') = store_ReadyAfter rl e dst w1"
    using assms by (auto simp: ScatterShardsToLocalTarget_def slice_key_def andThen_eq_ret opt_get_eq_ret split_beta Let_def)
  show ?thesis using filled_ready[OF target_call_filled[OF c assms(2) key] r[symmetric]] .
qed

lemma broadcast_receive_filled:
  assumes "broadcast_receive rl m t p target src dst mgr w = ret (e, mgr', w')" and "at_home i d mgr"
    and "store_get dst = ret da" and "sa_shard_id da = d"
  shows "filled i d mgr (trace_of w) {e} mgr' (trace_of w')"
proof -
  consider "mgr' = mgr" "w' = w"
    | b s x a where "ReshardToLocalTarget rl m t p b (slice_key s da x d) a dst mgr w = ret (e, mgr', w')"
    using assms by (auto simp: broadcast_receive_def andThen_eq_ret split: option.splits)
  then show ?thesis
  proof cases
    case 1
    then show ?thesis using filled_mono[OF filled_refl[OF assms(2)]] by blast
  next
    case (2 b s x a)
    show ?thesis using target_call_filled[OF 2 assms(2) slice_key_dst] .
  qed
qed

lemma store_view_keeps:
  "store_view rl st w = (v, st', w') \<Longrightarrow> war_pre st = None \<Longrightarrow> recorded st \<subseteq> recorded st'"
  by (auto simp: store_view_def add_reader_def recorded_def split: prod.splits)

lemma Broadcast_target_filled:
  assumes "ReshardBroadcastToLocalTarget rl m t p config src dst mgr w = ret (dst', mgr', w')"
    and home: "at_home i d mgr" and here: "local_shard m t p da d"
    and da: "store_get dst = ret da" "sa_shard_id da = d"
  shows "filled i d mgr (trace_of w) (recorded dst') mgr' (trace_of w')"
proof -
  obtain target e mgr1 w1 where r: "broadcast_receive rl m t p target src dst mgr w = ret (e, mgr1, w1)"
    and run: "(let (dst1, w2) = store_ReadyAfter rl e dst w1
     in if tc_dst_leaf_shards target = [] then ret (dst1, mgr1, w2)
        else
          andThen (store_get dst1) (\<lambda>da.
          let (bcast_view, dst2, w3) = store_view rl dst1 w2
          in andThen (foldR (broadcast_leaf rl m t p da) (bcast_view, mgr1, w3) (tc_dst_leaf_shards target))
               (\<lambda>(bcast_view', mgr2, w4).
             andThen (view_destroy rl t bcast_view' w4) (\<lambda>w5. ret (dst2, mgr2, w5))))) = ret (dst', mgr', w')"
    using assms(1) unfolding ReshardBroadcastToLocalTarget_def andThen_eq_ret by auto
  obtain dst1 w2 where d1: "store_ReadyAfter rl e dst w1 = (dst1, w2)" by fastforce
  have 2: "filled i d mgr (trace_of w) (recorded dst1) mgr1 (trace_of w2)"
    using filled_ready[OF broadcast_receive_filled[OF r home da] d1] .
  show ?thesis
  proof (cases "tc_dst_leaf_shards target = []")
    case True
    then show ?thesis using run d1 2 by simp
  next
    case False
    obtain v dst2 w3 where v: "store_view rl dst1 w2 = (v, dst2, w3)" by (cases "store_view rl dst1 w2")
    have "store_get dst1 = ret da" using store_ReadyAfter_value[OF d1] da by (simp add: store_get_def)
    then obtain v' w4 where
      loop: "foldR (broadcast_leaf rl m t p da) (v, mgr1, w3) (tc_dst_leaf_shards target) = ret (v', mgr', w4)"
      and vd: "view_destroy rl t v' w4 = ret w'" and dst': "dst' = dst2"
      using run d1 v False by (auto simp: andThen_eq_ret)
    have start: "filled i d mgr (trace_of w) (recorded dst2) mgr1 (trace_of w3)"
      using filled_mono[OF filled_quiet[OF 2 view_quiet(2)[OF v]] store_view_keeps[OF v ReadyAfter_records(2)[OF d1]]] .
    let ?P = "\<lambda>(v :: sharded_array view, mgr', w'). filled i d mgr (trace_of w) (recorded dst2) mgr' (trace_of w')"
    have "?P (v', mgr', w4)"
    proof (rule foldR_invariant[OF _ _ loop])
      fix st x st'
      assume k: "?P st" and leaf: "broadcast_leaf rl m t p da st x = ret st'"
      obtain v1 mgr1 w1 where st: "st = (v1, mgr1, w1)" by (cases st)
      obtain b key e v2 mgr2 w2 where c: "ReshardFromLocalSource rl m t p b key v1 da mgr1 w1 = ret (e, mgr2, w2)"
        and st': "st' = (v2, mgr2, w2)"
        using leaf by (auto simp: broadcast_leaf_def st andThen_eq_ret)
      show "?P st'" using k filled_later source_call_filled[OF c _ here] filled_home by (fastforce simp: st st')
    qed (use start in simp)
    then show ?thesis using filled_quiet view_destroy_quiet[OF vd] dst' by auto
  qed
qed

text \<open>The five protocols, for a target whose tile is on this process.\<close>

lemma HasTile_iff: "HasTile a \<longleftrightarrow> (\<exists>tile. sa_tile a = Some tile)"
  by (auto simp: HasTile_def)

lemma ReshardPointToPoint_filled:
  assumes "ReshardPointToPoint rl m t p src dst mgr w = ret (dst', mgr', w')" and "at_home i d mgr"
    and "local_shard m t p da d" and "store_get dst = ret da" "HasTile da" "sa_shard_id da = d"
  shows "filled i d mgr (trace_of w) (recorded dst') mgr' (trace_of w')"
proof -
  obtain tile where tile: "sa_tile da = Some tile" using assms(5) by (auto simp: HasTile_iff)
  obtain sa e mgr1 w1 src' w2 where
    t: "p2p_ToLocalTarget rl m t p (tsh_bounds (at_shape tile)) sa dst d d mgr w = ret (e, dst', mgr1, w1)"
    and s: "(case sa_tile sa of
          Some tile \<Rightarrow>
            (let (arg, rest) = view_move src
             in andThen (p2p_FromLocalSource rl m t p (tsh_bounds (at_shape tile)) arg da (sa_shard_id sa)
                           (sa_shard_id sa) mgr1 w1) (\<lambda>(e, mgr2, w2). ret (rest, mgr2, w2)))
        | None \<Rightarrow> ret (src, mgr1, w1)) = ret (src', mgr', w2)"
    and v: "view_destroy rl t src' w2 = ret w'"
    using assms(1,4,6) tile by (auto simp: ReshardPointToPoint_def andThen_eq_ret)
  note 1 = p2p_ToLocalTarget_filled[OF t assms(2)]
  have "filled i d mgr1 (trace_of w1) {} mgr' (trace_of w2)"
    using s filled_refl[OF filled_home[OF 1]] p2p_FromLocalSource_filled[OF _ filled_home[OF 1] assms(3)]
    by (auto simp: andThen_eq_ret split_beta split: option.splits)
  then show ?thesis using filled_quiet[OF filled_later[OF 1] view_destroy_quiet[OF v]] by blast
qed

lemma source_first:
  assumes s: "filled i d mgr (trace_of w) {} mgr1 (trace_of w1)"
    and t: "at_home i d mgr1 \<Longrightarrow> filled i d mgr1 (trace_of w1) F mgr2 (trace_of w2)"
    and v: "view_destroy rl t src' w2 = ret w'"
  shows "filled i d mgr (trace_of w) F mgr2 (trace_of w')"
  using filled_quiet[OF filled_trans[OF s t] view_destroy_quiet[OF v]] filled_home[OF s] by simp

lemma ReshardScatterGather_filled:
  assumes "ReshardScatterGather rl m t p config src dst mgr w = ret (dst', mgr', w')" and "at_home i d mgr"
    and "local_shard m t p da d" and "store_get dst = ret da" "HasTile da"
    and "\<forall>slice \<in> set (to_target config). slc_dst slice = d"
  shows "filled i d mgr (trace_of w) (recorded dst') mgr' (trace_of w')"
proof -
  obtain sa src' mgr1 w1 w2 where
    s: "(if HasTile sa then (let (sub, src', w1) = view_view rl src w
              in andThen (ReshardScatterGatherFromLocalSource rl m t p config sub da mgr w1)
                   (\<lambda>(mgr', w2). ret (src', mgr', w2)))
        else ret (src, mgr, w)) = ret (src', mgr1, w1)"
    and tg: "ReshardScatterGatherToLocalTarget rl m t p config sa dst mgr1 w1 = ret (dst', mgr', w2)"
    and v: "view_destroy rl t src' w2 = ret w'"
    using assms(1,4,5) by (auto simp: ReshardScatterGather_def andThen_eq_ret)
  have "filled i d mgr (trace_of w) {} mgr1 (trace_of w1)"
  proof (cases "HasTile sa")
    case False
    then show ?thesis using s filled_refl[OF assms(2)] by auto
  next
    case True
    obtain sub v2 w0 where vv: "view_view rl src w = (sub, v2, w0)" by (cases "view_view rl src w")
    then have f: "ReshardScatterGatherFromLocalSource rl m t p config sub da mgr w0 = ret (mgr1, w1)"
      using s True by (auto simp: andThen_eq_ret)
    show ?thesis
      using filled_later[OF filled_quiet[OF filled_refl[OF assms(2)] view_quiet(1)[OF vv]]
          ScatterGather_source_filled[OF f assms(2,3)]] .
  qed
  then show ?thesis using ScatterGather_target_filled[OF tg _ assms(6)] v by (rule source_first)
qed

lemma ReshardBroadcast_filled:
  assumes "ReshardBroadcast rl m t p config src dst mgr w = ret (dst', mgr', w')" and "at_home i d mgr"
    and "local_shard m t p da d" and "store_get dst = ret da" "HasTile da" "sa_shard_id da = d"
  shows "filled i d mgr (trace_of w) (recorded dst') mgr' (trace_of w')"
proof -
  obtain sa mgr1 w1 src' w2 where
    tg: "ReshardBroadcastToLocalTarget rl m t p config sa dst mgr w = ret (dst', mgr1, w1)"
    and s: "(if HasTile sa
        then (let (arg, rest) = view_move src
              in andThen (ReshardBroadcastFromLocalSource rl m t p config arg da mgr1 w1)
                   (\<lambda>(mgr2, w2). ret (rest, mgr2, w2)))
        else ret (src, mgr1, w1)) = ret (src', mgr', w2)"
    and v: "view_destroy rl t src' w2 = ret w'"
    using assms(1,4,5) by (auto simp: ReshardBroadcast_def andThen_eq_ret)
  note 1 = Broadcast_target_filled[OF tg assms(2,3,4,6)]
  have "filled i d mgr1 (trace_of w1) {} mgr' (trace_of w2)"
    using s filled_refl[OF filled_home[OF 1]] Broadcast_source_filled[OF _ filled_home[OF 1] assms(3)]
    by (auto simp: andThen_eq_ret split_beta split: if_splits)
  then show ?thesis using filled_quiet[OF filled_later[OF 1] view_destroy_quiet[OF v]] by blast
qed

lemma ReshardGatherShards_filled:
  assumes "ReshardGatherShards rl m t p config src dst mgr w = ret (dst', mgr', w')" and "at_home i d mgr"
    and "local_shard m t p da d" and "store_get dst = ret da" "HasTile da"
    and "gs_dst_shard config = Some d"
  shows "filled i d mgr (trace_of w) (recorded dst') mgr' (trace_of w')"
proof -
  obtain sa src' mgr1 w1 w2 msg where
    s: "(if HasTile sa
        then andThen (require (gs_src_shard config \<noteq> None) (RuntimeError msg)) (\<lambda>_.
             GatherShardsFromLocalSource rl m t p src da config mgr w)
        else ret (src, mgr, w)) = ret (src', mgr1, w1)"
    and tg: "GatherShardsToLocalTarget rl m t p sa dst config mgr1 w1 = ret (dst', mgr', w2)"
    and v: "view_destroy rl t src' w2 = ret w'"
    using assms(1,4,5,6) by (auto simp: ReshardGatherShards_def andThen_eq_ret Let_def)
  have "filled i d mgr (trace_of w) {} mgr1 (trace_of w1)"
    using s filled_refl[OF assms(2)] GatherShards_source_filled[OF _ assms(2,3)]
    by (auto simp: andThen_eq_ret split: if_splits)
  then show ?thesis using GatherShards_target_filled[OF tg _ assms(6)] v by (rule source_first)
qed

lemma ReshardScatterShards_filled:
  assumes "ReshardScatterShards rl m t max_dim p config src dst mgr w = ret (dst', mgr', w')" and "at_home i d mgr"
    and "local_shard m t p da d" and "store_get dst = ret da" "HasTile da"
    and "dl_shard_id (devices_of da) (global_id p) = Some d"
  shows "filled i d mgr (trace_of w) (recorded dst') mgr' (trace_of w')"
proof -
  obtain sa src' mgr1 w1 w2 where
    s: "(if HasTile sa then ScatterShardsFromLocalSource rl m t max_dim p src da mgr w
              else ret (src, mgr, w)) = ret (src', mgr1, w1)"
    and tg: "ScatterShardsToLocalTarget rl m t p sa dst mgr1 w1 = ret (dst', mgr', w2)"
    and v: "view_destroy rl t src' w2 = ret w'"
    using assms(1,4,5) by (auto simp: ReshardScatterShards_def andThen_eq_ret)
  have "filled i d mgr (trace_of w) {} mgr1 (trace_of w1)"
    using s filled_refl[OF assms(2)] ScatterShards_source_filled[OF _ assms(2,3)] by (auto split: if_splits)
  then show ?thesis using ScatterShards_target_filled[OF tg _ assms(4,6)] v by (rule source_first)
qed

text \<open>The configurations name the shard of the device.\<close>

lemma mapR_origin:
  assumes "mapR f xs = ret ys" and "y \<in> set ys"
  shows "\<exists>x \<in> set xs. f x = ret y"
  using mapR_nth[OF assms(1)] mapR_length[OF assms(1)] assms(2) by (metis in_set_conv_nth)

lemma GetScatterGatherConfig_target:
  assumes "GetScatterGatherConfig max_dim dim s d src dst = ret c" and "sl \<in> set (to_target c)"
  shows "d = Some (slc_dst sl)"
proof -
  have "slc_dst sl = x" if "mapR f xs = ret ys" "sl \<in> set ys" "\<And>y z. f y = ret z \<Longrightarrow> slc_dst z = x"
    for f xs ys x
    using mapR_origin[OF that(1,2)] that(3) by auto
  note through = this
  show ?thesis using assms
    by (cases d) (auto simp: GetScatterGatherConfig_def Let_def andThen_eq_ret split: if_splits dest!: through)
qed

lemma GetScatterGatherConfig_no_target: "GetScatterGatherConfig max_dim dim s None src dst = ret c \<Longrightarrow> to_target c = []"
  using GetScatterGatherConfig_target by (metis list.set_intros(1) neq_Nil_conv option.distinct(1))

lemma if_config_cases: "if_config c a b = Some (ret x) \<Longrightarrow> a = Some (ret x) \<or> b = Some (ret x)"
  by (auto simp: if_config_def split: sum.splits if_splits)

lemma decision_cases:
  "if_config c1 a1 (if_config c2 a2 (if_config c3 a3 (if_config c4 a4 b))) = Some (ret x) \<Longrightarrow>
   a1 = Some (ret x) \<or> a2 = Some (ret x) \<or> a3 = Some (ret x) \<or> a4 = Some (ret x) \<or> b = Some (ret x)"
  by (auto dest!: if_config_cases)

definition for_shard :: "int option \<Rightarrow> reshard_config \<Rightarrow> bool" where
  "for_shard d config \<longleftrightarrow> (case config of
     ScatterGatherC c \<Rightarrow> \<forall>slice \<in> set (to_target c). d = Some (slc_dst slice)
   | GatherShardsC c \<Rightarrow> gs_dst_shard c = d
   | _ \<Rightarrow> True)"

lemma DetermineShardingConfig_shard:
  assumes "DetermineShardingConfig max_dim p src dst = Some (ret config)"
  shows "for_shard (dl_shard_id (sh_devices dst) (global_id p)) config"
proof -
  show ?thesis using decision_cases[OF assms[unfolded DetermineShardingConfig_def]]
  proof (elim disjE)
    assume "Some (andThen (GetGatherShardsConfig max_dim p src dst) (\<lambda>c. ret (GatherShardsC c))) = Some (ret config)"
    then show ?thesis by (auto simp: GetGatherShardsConfig_def Let_def andThen_eq_ret for_shard_def)
  next
    assume "Some (ret (ScatterShardsC (GetScatterShardsConfig p src dst))) = Some (ret config)"
    then show ?thesis by (auto simp: for_shard_def)
  next
    assume "DetermineShardingConfigFullyReplicated p src dst = Some (ret config)"
    then show ?thesis
      by (auto simp: DetermineShardingConfigFullyReplicated_def lift_option_def Let_def andThen_eq_ret for_shard_def
          split: if_splits)
  next
    assume "Some (DeterminePartialToReplicatedConfig max_dim p src dst) = Some (ret config)"
    then show ?thesis
      by (cases "dl_shard_id (sh_devices src) (global_id p)")
        (auto simp: DeterminePartialToReplicatedConfig_def Let_def andThen_eq_ret for_shard_def split: option.split_asm)
  next
    assume "(if length (sh_dims src) \<noteq> length (sh_dims dst)
      then Some (ret (DetermineShardingConfigReplicationChange p src dst))
      else if dl_size (sh_devices src) = dl_size (sh_devices dst) \<and> list_all2 dim_eq (sh_dims src) (sh_dims dst)
      then Some (ret PointToPointConfig)
      else Some (DetermineScatterGatherConfig max_dim p src dst)) = Some (ret config)"
    then consider "config = UnsupportedConfig" | "config = PointToPointConfig"
      | "DetermineScatterGatherConfig max_dim p src dst = ret config"
      by (auto simp: DetermineShardingConfigReplicationChange_def split: if_splits)
    then show ?thesis
    proof cases
      case 3
      then show ?thesis
        by (auto simp: DetermineScatterGatherConfig_def dl_shard_id_def Let_def andThen_eq_ret for_shard_def
            dest: GetScatterGatherConfig_target GetScatterGatherConfig_no_target split: if_splits)
    qed (simp_all add: for_shard_def)
  qed
qed

lemma run_protocol_filled:
  assumes "run_protocol rl m t max_dim p config src dst mgr w = ret (src', dst', mgr', w1)"
    and "view_destroy rl t src' w1 = ret w'" and "at_home i d mgr" and "local_shard m t p da d"
    and "store_get dst = ret da" "HasTile da" "sa_shard_id da = d"
    and "dl_shard_id (devices_of da) (global_id p) = Some d" and "for_shard (Some d) config"
  shows "filled i d mgr (trace_of w) (recorded dst') mgr' (trace_of w')"
proof -
  have "filled i d mgr (trace_of w) (recorded dst') mgr' (trace_of w1)"
    using assms(1,9) filled_mono[OF filled_refl[OF assms(3)]]
    by (cases config) (auto simp: run_protocol_def for_shard_def andThen_eq_ret split_beta Let_def
        intro: ReshardPointToPoint_filled[OF _ assms(3-7)] ReshardScatterGather_filled[OF _ assms(3-6)]
          ReshardBroadcast_filled[OF _ assms(3-7)] ReshardGatherShards_filled[OF _ assms(3-6)]
          ReshardScatterShards_filled[OF _ assms(3-6,8)])
  then show ?thesis using filled_quiet view_destroy_quiet[OF assms(2)] by blast
qed

lemma Reshard_filled:
  assumes "Reshard rl m t max_dim p src dst mgr w = Some (ret (dst', mgr', w'))" and "at_home i d mgr"
    and "local_shard m t p da d" and "store_get dst = ret da" "HasTile da" "sa_shard_id da = d"
    and "dl_shard_id (devices_of da) (global_id p) = Some d"
  shows "filled i d mgr (trace_of w) (recorded dst') mgr' (trace_of w')"
proof -
  obtain s config src' w1 where c: "DetermineShardingConfig max_dim p s (shp_sharding (sa_shape da)) = Some (ret config)"
    and run: "run_protocol rl m t max_dim p config src dst mgr w = ret (src', dst', mgr', w1)"
    and v: "view_destroy rl t src' w1 = ret w'"
    using assms(1,4) by (auto simp: Reshard_def andThen_eq_ret split: sum.splits option.splits)
  have "for_shard (Some d) config" using DetermineShardingConfig_shard[OF c] assms(7) by simp
  then show ?thesis using run_protocol_filled[OF run v assms(2-7)] by simp
qed

lemma handle_messages_filled:
  assumes "handle_messages rl msgs (mgr1, w1) = ret (mgr', w')" and "filled i d mgr tr E mgr1 (trace_of w1)"
    and "\<forall>(key, barrier, inst) \<in> set msgs. inst \<noteq> i"
  shows "filled i d mgr tr E mgr' (trace_of w')"
proof -
  let ?P = "\<lambda>(mgr1, w1). filled i d mgr tr E mgr1 (trace_of w1)"
  have "?P (mgr', w')"
  proof (rule foldR_invariant[OF _ _ assms(1)[unfolded handle_messages_def]])
    fix s x s'
    assume x: "x \<in> set msgs" and k: "?P s" and run: "(\<lambda>(mgr, w) msg. PointToPointNameHandler rl msg mgr w) s x = ret s'"
    obtain key barrier inst mgr1 w1 mgr2 w2 where e: "x = (key, barrier, inst)" "s = (mgr1, w1)" "s' = (mgr2, w2)"
      by (cases x; cases s; cases s') auto
    then have h: "PointToPointNameHandler rl (key, barrier, inst) mgr1 w1 = ret (mgr2, w2)" and "inst \<noteq> i"
      using run x assms(3) by auto
    then show "?P s'" using filled_later[OF _ handler_filled[OF h]] filled_home k by (simp add: e)
  qed (use assms(2) in simp)
  then show ?thesis by simp
qed

section \<open>The target is not used too early\<close>

text \<open>
  C21. A reshard fills its target under the protection of the store: whoever waits for the precondition of the
  store that a reshard returns, after any messages, waits for every copy into the target's tile that was
  started since, and for every end of the target that has not met its source yet, except those of ends
  that were waiting before the call and have their own event. In every protocol.
\<close>

theorem reshard_target_safe:
  fixes w :: "'z runtime_scheme"
  assumes "Reshard rl m t max_dim p src dst mgr w = Some (ret (dst', mgr1, w1))"
    and "store_get dst = ret da" and "sa_tile da = Some tile" and "at_instance tile = i"
    and "dl_shard_id (devices_of da) (global_id p) = Some (sa_shard_id da)"
    and "HostForShard m t da (sa_shard_id da) = ret host" and "space_of m host = space_of m (pr_proc p)"
    and "\<forall>key. \<forall>op \<in> set (pending_dest (mgr key)). op_instance op = i \<longrightarrow> key_dst_shard key = sa_shard_id da"
    and "handle_messages rl msgs (mgr1, w1) = ret (mgr', w')" and "\<forall>(key, barrier, inst) \<in> set msgs. inst \<noteq> i"
    and "store_Precondition rl dst' w' = (ready, w'')"
  shows "\<exists>calls. trace_of w'' = trace_of w @ calls \<and>
    (\<forall>s c. (s, i, c) \<in> set (copies_in calls) \<longrightarrow> depends (trace_of w'') ready c \<or>
       (\<exists>key op. op \<in> set (pending_dest (mgr key)) \<and> op_instance op = i \<and>
          depends (trace_of w'') (op_postcondition op) c)) \<and>
    (\<forall>key op. op \<in> set (pending_dest (mgr' key)) \<longrightarrow> op_instance op = i \<longrightarrow>
       depends (trace_of w'') ready (op_postcondition op) \<or>
       (\<exists>key op'. op' \<in> set (pending_dest (mgr key)) \<and> op_instance op' = i \<and>
          depends (trace_of w'') (op_postcondition op') (op_postcondition op)))"
proof -
  let ?d = "sa_shard_id da"
  have home: "at_home i ?d mgr" using assms(8) by (simp add: at_home_def)
  have here: "local_shard m t p da ?d" using assms(6,7) by (auto simp: local_shard_def)
  have tile: "HasTile da" using assms(3) by (simp add: HasTile_iff)
  have "filled i ?d mgr (trace_of w) (recorded dst') mgr' (trace_of w')"
    using handle_messages_filled[OF assms(9) Reshard_filled[OF assms(1) home here assms(2) tile refl assms(5)] assms(10)] .
  moreover have "quiet (trace_of w') (trace_of w'')"
    using store_Precondition_log[OF assms(11)] by (simp add: quiet_def)
  ultimately have "filled i ?d mgr (trace_of w) (recorded dst') mgr' (trace_of w'')" by (rule filled_quiet)
  then have "filled i ?d mgr (trace_of w) {ready} mgr' (trace_of w'')"
  proof (rule filled_covers)
    fix e assume "e \<in> recorded dst'"
    then show "\<exists>x \<in> {ready}. depends (trace_of w'') x e"
      using deps.Precondition_waits[OF assms(11)] by (simp add: deps.waits_all_def)
  qed
  then obtain calls where c: "trace_of w'' = trace_of w @ calls"
    and k: "\<forall>c \<in> writes_in i calls \<union> waiting_writes i mgr'. \<exists>x \<in> {ready} \<union> waiting_writes i mgr. depends (trace_of w'') x c"
    unfolding filled_def writes.kept_def by blast
  have cover: "depends (trace_of w'') ready c \<or>
      (\<exists>key op. op \<in> set (pending_dest (mgr key)) \<and> op_instance op = i \<and> depends (trace_of w'') (op_postcondition op) c)"
    if "c \<in> writes_in i calls \<union> waiting_writes i mgr'" for c
    using k that unfolding waiting_writes_def by blast
  have "c \<in> writes_in i calls" if "(s, i, c) \<in> set (copies_in calls)" for s c
    using that by (auto simp: writes_in_def)
  moreover have "op_postcondition op \<in> waiting_writes i mgr'"
    if "op \<in> set (pending_dest (mgr' key))" "op_instance op = i" for key op
    using that by (auto simp: waiting_writes_def)
  ultimately show ?thesis using c cover by blast
qed

theorem reshard_target_safe_witness:
  "\<exists>dst' mgr' (w' :: runtime) copy. Reshard fresh_realm two_spaces one_process 3 (cpu 0) example_reader
      example_target GetManager \<lparr>trace_of = [], pending_ops = 0\<rparr> = Some (ret (dst', mgr', w')) \<and>
     copies_in (trace_of w') = [(50, 60, copy)] \<and>
     depends (trace_of (snd (store_Precondition fresh_realm dst' w'))) (fst (store_Precondition fresh_realm dst' w')) copy"
proof -
  let ?w = "\<lparr>trace_of = [], pending_ops = 0\<rparr> :: runtime"
  obtain dst' mgr' copy and w' :: runtime
    where run: "Reshard fresh_realm two_spaces one_process 3 (cpu 0) example_reader
      example_target GetManager ?w = Some (ret (dst', mgr', w'))"
      and c: "copies_in (trace_of w') = [(50, 60, copy)]"
    using example_reshard by blast
  obtain tile where tile: "store_get example_target = ret (example_array 1 60)" "sa_tile (example_array 1 60) = Some tile"
    "at_instance tile = 60"
    using example_facts by auto
  have shard: "dl_shard_id (devices_of (example_array 1 60)) (global_id (cpu 0)) = Some (sa_shard_id (example_array 1 60))"
    "sa_shard_id (example_array 1 60) = 0" "space_of two_spaces 10 = space_of two_spaces (pr_proc (cpu 0))"
    by (simp_all add: example_array_def example_shape_def cpu_def dl_defs two_spaces_def)
  have none: "\<forall>key. \<forall>op \<in> set (pending_dest (GetManager key)). op_instance op = 60 \<longrightarrow> key_dst_shard key = 0"
    by (simp add: GetManager_def new_p2p_def)
  obtain ready w'' where q: "store_Precondition fresh_realm dst' w' = (ready, w'')" by fastforce
  have "handle_messages fresh_realm [] (mgr', w') = ret (mgr', w')" by (simp add: handle_messages_def)
  from reshard_target_safe[where msgs = "[]", OF run tile shard(1) _ shard(3) _ this _ q] none shard(2) one_process_host
  obtain calls where calls: "trace_of w'' = calls"
    and safe: "\<forall>s c. (s, 60, c) \<in> set (copies_in calls) \<longrightarrow> depends (trace_of w'') ready c \<or>
       (\<exists>key op. op \<in> set (pending_dest (GetManager key)) \<and> op_instance op = 60 \<and>
          depends (trace_of w'') (op_postcondition op) c)"
    by auto
  obtain new where "trace_of w'' = trace_of w' @ new" using store_Precondition_log[OF q] by auto
  then have "(50, 60, copy) \<in> set (copies_in calls)" using c calls by (auto simp: copies_in_simps(2))
  then have "depends (trace_of w'') ready copy" using safe by (auto simp: GetManager_def new_p2p_def)
  then show ?thesis using run c q by (intro exI[of _ dst'] exI[of _ mgr'] exI[of _ w'] exI[of _ copy]) simp
qed

end
