(* ===== verification/Program.thy ===== *)
theory Program
  imports Futures Start_Up
begin

text \<open>
  A whole program: \<open>program\<close> and \<open>stop\<close> of \<open>src/zuku/defer.h\<close>, which start the process, launch the
  program's task and stop the process after it. This is where \<open>Start_Up\<close> and \<open>Tasks\<close> meet.
\<close>

section \<open>What to stop after\<close>

text \<open>
  The conditions of \<open>stop\<close>, by the overload of \<open>AddRealmEventPrecondition\<close> that the compiler picks; a
  value of any other type has no events.
\<close>

datatype 'v condition =
    OnFuture future | OnStore "'v store" | OnView "'v view" | OnToken token | OnEvent event | OnOther

definition AddRealmEventPrecondition ::
  "realm \<Rightarrow> 'v condition \<Rightarrow> event set \<Rightarrow> 'z runtime_scheme \<Rightarrow> event set \<times> 'z runtime_scheme" where
  "AddRealmEventPrecondition rl c events w = (case c of
     OnFuture f \<Rightarrow> (if Future_HasPrecondition f then insert (Future_Precondition f) events else events, w)
   | OnStore st \<Rightarrow>
       (if store_HasPrecondition st
        then (let (e, w') = store_Precondition rl st w in (insert e events, w')) else (events, w))
   | OnView v \<Rightarrow> (if view_HasPrecondition v then insert (view_Precondition v) events else events, w)
   | OnToken tok \<Rightarrow> (insert (token_event tok) events, w)
   | OnEvent e \<Rightarrow> (insert e events, w)
   | OnOther \<Rightarrow> (events, w))"

fun AddRealmEventPreconditions ::
  "realm \<Rightarrow> 'v condition list \<Rightarrow> event set \<Rightarrow> 'z runtime_scheme \<Rightarrow> event set \<times> 'z runtime_scheme" where
  \<comment> \<open>the fold over the parameter pack\<close>
  "AddRealmEventPreconditions rl [] events w = (events, w)"
| "AddRealmEventPreconditions rl (c # cs) events w =
     (let (events', w') = AddRealmEventPrecondition rl c events w
      in AddRealmEventPreconditions rl cs events' w')"

definition last_event :: "realm \<Rightarrow> 'v condition list \<Rightarrow> 'z runtime_scheme \<Rightarrow> event \<times> 'z runtime_scheme" where
  "last_event rl cs w =
     (let (events, w1) = AddRealmEventPreconditions rl cs {} w
      in if card events = 1 then (the_elem events, w1) else merge_set rl events w1)"

definition stop :: "realm \<Rightarrow> 'v condition list \<Rightarrow> process \<Rightarrow> (nat \<Rightarrow> process) \<Rightarrow> process option" where
  \<comment> \<open>\<open>ws\<close> are the states at the loads of \<open>WaitForPendingOps\<close>, after the events were collected\<close>
  "stop rl cs w ws = Stop rl ws (fst (last_event rl cs w))"

text \<open>The event to stop after comes after every condition that has an event.\<close>

definition condition_waits :: "'v condition \<Rightarrow> event set" where
  "condition_waits c = (case c of
     OnFuture f \<Rightarrow> (if Future_HasPrecondition f then {Future_Precondition f} else {})
   | OnStore st \<Rightarrow> ep_effects ` (set_option (war_pre st) \<union> set_option (child_rw st))
   | OnView v \<Rightarrow> (if view_HasPrecondition v then {view_Precondition v} else {})
   | OnToken tok \<Rightarrow> {token_event tok}
   | OnEvent e \<Rightarrow> {e}
   | OnOther \<Rightarrow> {})"

lemma store_Precondition_covers:
  assumes "store_Precondition rl st w = (e, w')" and "x \<in> set_option (war_pre st) \<union> set_option (child_rw st)"
  shows "depends (trace_of w') e (ep_effects x)"
proof -
  have "deps.covered_read (trace_of w) st (ep_effects x)"
    using assms(2) by (auto simp: deps.covered_read_def deps.covered_write_def)
  then show ?thesis by (rule deps.Precondition_after[OF assms(1)])
qed

lemma store_has_recorded: "\<not> store_HasPrecondition st \<Longrightarrow> war_pre st = None \<and> child_rw st = None"
  by (auto simp: store_HasPrecondition_def store_HasWarPrecondition_def)

lemma AddRealmEventPrecondition_waits:
  assumes "AddRealmEventPrecondition rl c es w = (es', w')"
  shows "extends (trace_of w') (trace_of w)" and "es \<subseteq> es'" and "finite es \<Longrightarrow> finite es'"
    and "d \<in> condition_waits c \<Longrightarrow> \<exists>e \<in> es'. depends (trace_of w') e d"
proof -
  have "extends (trace_of w') (trace_of w) \<and> es \<subseteq> es' \<and> (finite es \<longrightarrow> finite es') \<and>
    (\<forall>d \<in> condition_waits c. \<exists>e \<in> es'. depends (trace_of w') e d)"
  proof (cases c)
    case (OnStore st)
    show ?thesis
    proof (cases "store_HasPrecondition st")
      case True
      obtain e w1 where e: "store_Precondition rl st w = (e, w1)" by fastforce
      then have "es' = insert e es" "w' = w1" using assms OnStore True by (auto simp: AddRealmEventPrecondition_def)
      then show ?thesis using OnStore store_Precondition_extends[OF e] store_Precondition_covers[OF e]
        by (auto simp: condition_waits_def)
    next
      case False
      then have "condition_waits c = {}" using store_has_recorded[of st] OnStore by (auto simp: condition_waits_def)
      then show ?thesis using assms OnStore False by (simp add: AddRealmEventPrecondition_def)
    qed
  qed (use assms in \<open>auto simp: AddRealmEventPrecondition_def condition_waits_def split: if_splits\<close>)
  then show "extends (trace_of w') (trace_of w)" "es \<subseteq> es'" "finite es \<Longrightarrow> finite es'"
    "d \<in> condition_waits c \<Longrightarrow> \<exists>e \<in> es'. depends (trace_of w') e d" by blast+
qed

lemma AddRealmEventPreconditions_waits:
  assumes "AddRealmEventPreconditions rl cs es w = (es', w')" and "finite es"
  shows "extends (trace_of w') (trace_of w) \<and> es \<subseteq> es' \<and> finite es' \<and>
    (\<forall>c \<in> set cs. \<forall>d \<in> condition_waits c. \<exists>e \<in> es'. depends (trace_of w') e d)"
  using assms
proof (induction cs arbitrary: es w)
  case Nil
  then show ?case by simp
next
  case (Cons c cs)
  obtain es1 w1 where 1: "AddRealmEventPrecondition rl c es w = (es1, w1)" by fastforce
  note step = AddRealmEventPrecondition_waits[OF 1]
  have rest: "extends (trace_of w') (trace_of w1) \<and> es1 \<subseteq> es' \<and> finite es' \<and>
    (\<forall>c \<in> set cs. \<forall>d \<in> condition_waits c. \<exists>e \<in> es'. depends (trace_of w') e d)"
    using Cons.IH Cons.prems 1 step(3) by simp
  have "\<exists>e \<in> es'. depends (trace_of w') e d" if "d \<in> condition_waits c" for d
    using step(4)[OF that] rest depends_extends by blast
  then show ?case using rest step(1,2) extends_trans by auto
qed

lemma last_event_waits:
  assumes "last_event rl cs w = (e, w')"
  shows "extends (trace_of w') (trace_of w)"
    and "c \<in> set cs \<Longrightarrow> d \<in> condition_waits c \<Longrightarrow> depends (trace_of w') e d"
proof -
  obtain es w1 where es: "AddRealmEventPreconditions rl cs {} w = (es, w1)" by fastforce
  have 1: "extends (trace_of w1) (trace_of w) \<and> finite es \<and>
    (\<forall>c \<in> set cs. \<forall>d \<in> condition_waits c. \<exists>x \<in> es. depends (trace_of w1) x d)"
    using AddRealmEventPreconditions_waits[OF es] by simp
  have run: "(if card es = 1 then (the_elem es, w1) else merge_set rl es w1) = (e, w')"
    using assms es by (simp add: last_event_def)
  have 2: "extends (trace_of w') (trace_of w1) \<and> (\<forall>x \<in> es. depends (trace_of w') e x)"
  proof (cases "card es = 1")
    case True
    then show ?thesis using run by (auto simp: card_1_singleton_iff)
  next
    case False
    then have m: "merge_set rl es w1 = (e, w')" using run by simp
    show ?thesis using merge_set_extends[OF m] deps.merge_set_after[OF m] 1 by blast
  qed
  show "extends (trace_of w') (trace_of w)" using 1 2 extends_trans by blast
  assume "c \<in> set cs" "d \<in> condition_waits c"
  then obtain x where "x \<in> es" "depends (trace_of w1) x d" using 1 by blast
  then show "depends (trace_of w') e d" using 2 depends_extends depends_trans by blast
qed

section \<open>A program\<close>

definition program_launch ::
  "boot_world \<Rightarrow> realm \<Rightarrow> machine \<Rightarrow> int \<Rightarrow> realm_config \<Rightarrow> string list \<Rightarrow> return_kind list \<Rightarrow> process \<Rightarrow>
   (token \<times> unit task option \<times> process) res" where
  \<comment> \<open>\<open>Init\<close> and \<open>defer\<close> of the program's function, which has no arguments\<close>
  "program_launch b rl m first cfg argv rets w =
     andThen (Init b rl m first cfg argv w) (\<lambda>(calls, t, w1).
     andThen (Context_defer rl t [] rets [] \<lparr>fr_stores = [], fr_views = [], fr_futures = [], fr_barriers = []\<rparr> w1)
       (\<lambda>(token, task, fr, w2). ret (token, task, w2)))"

definition program ::
  "boot_world \<Rightarrow> realm \<Rightarrow> machine \<Rightarrow> int \<Rightarrow> realm_config \<Rightarrow> string list \<Rightarrow> return_kind list \<Rightarrow> process \<Rightarrow>
   (nat \<Rightarrow> process) \<Rightarrow> process res option" where
  "program b rl m first cfg argv rets w ws =
     (case program_launch b rl m first cfg argv rets w of
        Inl e \<Rightarrow> Some (Inl e)
      | Inr (token, task, w1) \<Rightarrow> map_option ret (stop rl [OnToken token :: unit condition] w1 ws))"

text \<open>Starting and launching make calls and nothing else: no release is counted or run.\<close>

definition calls_only :: "process \<Rightarrow> process \<Rightarrow> bool" where
  "calls_only w w' \<longleftrightarrow> extends (trace_of w') (trace_of w) \<and> releases_spawned w' = releases_spawned w \<and>
     pending_ops w' = pending_ops w \<and> held_releases w' = held_releases w \<and> releases_run w' = releases_run w"

lemma calls_only_refl [simp]: "calls_only w w"
  by (simp add: calls_only_def)

lemma calls_only_trans [trans]: "calls_only a b \<Longrightarrow> calls_only b c \<Longrightarrow> calls_only a c"
  by (auto simp: calls_only_def intro: extends_trans)

lemma calls_only_invoke: "\<forall>r. \<not> is_release (c, r) \<Longrightarrow> invoke rl c w = (e, w') \<Longrightarrow> calls_only w w'"
  by (auto simp: calls_only_def invoke_def releases_spawned_def)

lemma calls_only_command: "\<forall>r. \<not> is_release (c, r) \<Longrightarrow> calls_only w (command rl c w)"
  unfolding command_def by (rule calls_only_invoke[OF _ prod.collapse[symmetric]])

lemma calls_only_ok: "calls_only w w' \<Longrightarrow> process_ok w \<Longrightarrow> process_ok w'"
  by (simp add: calls_only_def process_ok_def outstanding_def)

lemma Init_calls_only:
  assumes "Init b rl m first cfg argv w = ret (calls, t, w')"
  shows "calls_only w w'"
proof -
  have "w' = snd (Init_tasks rl first w)" using assms by (auto simp: Init_def andThen_eq_ret)
  then show ?thesis
    by (simp add: Init_tasks_def register_tasks_def split_beta Let_def calls_only_def invoke_def command_def
        releases_spawned_def)
qed

lemma make_promises_calls_only: "make_promises rl rets w = (ps, w') \<Longrightarrow> calls_only w w'"
proof (induction rets arbitrary: w ps)
  case (Cons r rets)
  show ?case
  proof (cases r)
    case ReturnsValue
    then show ?thesis using Cons by (auto split: prod.splits)
  next
    case ReturnsFuture
    obtain u w1 where u: "invoke rl CreateUserEvent w = (u, w1)" by fastforce
    then obtain ps1 where "make_promises rl rets w1 = (ps1, w')" using Cons.prems ReturnsFuture by (auto split: prod.splits)
    then show ?thesis using calls_only_trans[OF calls_only_invoke[OF _ u] Cons.IH] by simp
  qed
qed simp

text \<open>The program's task: one without arguments on a utility processor.\<close>

lemma program_task_launched:
  assumes "Context_defer rl t [] rets [] fr w = ret (tok, task, fr', w')"
  shows "calls_only w w' \<and> (\<exists>tsk p pre. task = Some tsk \<and>
    (SpawnTask p pre 0, completion_event tsk) \<in> set (trace_of w') \<and>
    depends (trace_of w') (token_event tok) (completion_event tsk))"
proof -
  obtain p where "defer_task rl t [] rets [] fr w = ret (tok, task, fr', w')" and p: "Util_proc t = ret p"
    using assms by (auto simp: Context_defer_def defer_task_def andThen_eq_ret)
  then have l: "launch_on rl t [] rets [] p fr w = ret (tok, task, fr', w')" by (simp add: defer_task_def)
  obtain i w1 where i: "invoke rl CreateUserEvent w = (i, w1)" by fastforce
  obtain ev w2 where ev: "invoke rl (SpawnTask (pr_proc p) i 0) w1 = (ev, w2)" by fastforce
  obtain ps w3 where ps: "make_promises rl rets w2 = (ps, w3)" by fastforce
  let ?task = "\<lparr>task_arguments = [], task_base_of = new_task_base, task_promises = ps, completion_event = ev\<rparr> :: 'a task"
  have c: "Task_construct rl [] ev rets [] fr w2 = ret (?task, fr, w3)"
    using ps by (simp add: Task_construct_def GetStreamOrderedEvent_def MergePreconditions_def new_task_base_def)
  have f: "launch_finish rl t [] rets [] p i ?task fr w3 = ret (tok, task, fr', w')"
    using l i ev c by (simp add: launch_on_def)
  define w4 where "w4 = (if pr_type p = GPU then command rl (SpawnDelete (pr_proc p) ev) w3 else w3)"
  have w4: "calls_only w3 w4" by (simp add: w4_def calls_only_command)
  obtain e w5 where e: "all_effects rl rets [] ?task (make_futures ps ev) w4 = (e, w5)" by fastforce
  then have tok: "token_event tok = e" and w': "w' = command rl (TriggerEvent i NO_EVENT) w5" and task: "task = Some ?task"
    using f p by (auto simp: launch_finish_def launch_precondition_def new_task_base_def sync_barrier_def
        andThen_eq_ret Let_def w4_def split: if_splits)
  then have a: "all_effects rl rets [] ?task (make_futures ps ev) w4 = (token_event tok, w5)" using e by simp
  have 45: "calls_only w4 w5 \<and> depends (trace_of w5) (token_event tok) ev"
  proof (cases "rets = []")
    case True
    then show ?thesis using a by (simp add: all_effects_def)
  next
    case False
    then have m: "merge_set rl (insert ev (set (make_futures ps ev))) w4 = (token_event tok, w5)"
      using a by (simp add: all_effects_def)
    then show ?thesis using deps.merge_set_after[OF m, of ev] calls_only_invoke[of "MergeEvents _" rl w4]
      by (simp add: merge_set_def)
  qed
  have "calls_only w2 w3" using make_promises_calls_only[OF ps] .
  moreover have "calls_only w w1" using calls_only_invoke[OF _ i] by simp
  moreover have "calls_only w1 w2" using calls_only_invoke[OF _ ev] by simp
  moreover have "calls_only w5 w'" unfolding w' by (rule calls_only_command) simp
  ultimately have all: "calls_only w w'" "calls_only w2 w'" "calls_only w5 w'"
    using 45 w4 calls_only_trans by metis+
  have "(SpawnTask (pr_proc p) i 0, ev) \<in> set (trace_of w2)" using ev by (auto simp: invoke_def)
  then have "(SpawnTask (pr_proc p) i 0, ev) \<in> set (trace_of w')" using all(2) by (auto simp: calls_only_def dest: extends_set)
  moreover have "depends (trace_of w') (token_event tok) ev"
    using 45 all(3) depends_extends by (auto simp: calls_only_def)
  ultimately show ?thesis using all(1) task by auto
qed

text \<open>
  C33. A program ends after its task: when \<open>program\<close> starts and returns, its task was spawned, no counted
  release was outstanding at the last load, and Realm is shut down after an event that all processes agree
  on and that comes after the task. It returns whenever a load finds no release outstanding.
\<close>

theorem program_ends_after_task:
  assumes "program_launch b rl m first cfg argv rets new_process = ret (tok, task, w)"
    and "(process_step rl)\<^sup>*\<^sup>* w (ws 0)" and "\<forall>i. (process_step rl)\<^sup>*\<^sup>* (ws i) (ws (Suc i))"
    and "\<forall>i. outstanding (ws i) < 2 ^ 63"
  shows "(program b rl m first cfg argv rets new_process ws = None \<longleftrightarrow> (\<forall>i. 0 < outstanding (ws i))) \<and>
    (\<forall>r. program b rl m first cfg argv rets new_process ws = Some r \<longrightarrow>
       (\<exists>w' tsk p pre agree x. r = ret w' \<and> task = Some tsk \<and>
          (SpawnTask p pre 0, completion_event tsk) \<in> set (trace_of w') \<and>
          last (trace_of w') = (ShutdownRealm agree, x) \<and> depends (trace_of w') agree (completion_event tsk)))"
proof -
  obtain calls t w1 fr where init: "Init b rl m first cfg argv new_process = ret (calls, t, w1)"
    and launch: "Context_defer rl t [] rets [] \<lparr>fr_stores = [], fr_views = [], fr_futures = [], fr_barriers = []\<rparr> w1 = ret (tok, task, fr, w)"
    using assms(1) by (auto simp: program_launch_def andThen_eq_ret)
  have "process_ok new_process" using process_reachable_ok[OF rtranclp.rtrancl_refl] .
  then have "process_ok w"
    using calls_only_ok[OF Init_calls_only[OF init]] calls_only_ok program_task_launched[OF launch] by blast
  note ok = loads_ok[OF this assms(2,3)]
  have last: "fst (last_event rl [OnToken tok :: unit condition] w) = token_event tok"
    by (simp add: last_event_def AddRealmEventPrecondition_def)
  have run: "program b rl m first cfg argv rets new_process ws = map_option ret (Stop rl ws (token_event tok))"
    using assms(1) by (simp add: program_def stop_def last)
  have "\<exists>tsk p pre agree x. task = Some tsk \<and> (SpawnTask p pre 0, completion_event tsk) \<in> set (trace_of w') \<and>
      last (trace_of w') = (ShutdownRealm agree, x) \<and> depends (trace_of w') agree (completion_event tsk)"
    if stopped: "Stop rl ws (token_event tok) = Some w'" for w'
  proof -
    obtain n agree x where n: "extends (trace_of w') (trace_of (ws n))" "last (trace_of w') = (ShutdownRealm agree, x)"
      "depends (trace_of w') agree (token_event tok)"
      using Stop_runs(2)[OF ok assms(4) stopped] by blast
    have "extends (trace_of (ws n)) (trace_of w)" by (rule loads_extend[OF assms(2,3)])
    then have ext: "extends (trace_of w') (trace_of w)" using n(1) extends_trans by blast
    obtain tsk p pre where t: "task = Some tsk" "(SpawnTask p pre 0, completion_event tsk) \<in> set (trace_of w)"
      "depends (trace_of w) (token_event tok) (completion_event tsk)"
      using program_task_launched[OF launch] by blast
    have "depends (trace_of w') agree (completion_event tsk)"
      using n(3) depends_extends[OF ext t(3)] depends_trans by blast
    moreover have "(SpawnTask p pre 0, completion_event tsk) \<in> set (trace_of w')" using t(2) ext extends_set by blast
    ultimately show ?thesis using t(1) n(2) by blast
  qed
  then show ?thesis using run Stop_runs(1)[OF ok assms(4)] by auto
qed

text \<open>A program that starts, launches and ends on a machine with a CPU and a utility processor.\<close>

definition example_boot :: boot_world where
  "example_boot = \<lparr>boot_answer = (\<lambda>_ _. True), boot_module = (\<lambda>s. s = ''core''), boot_argv = (\<lambda>argv. argv)\<rparr>"

definition small_machine :: machine where
  "small_machine = \<lparr>address_space_count = 1, procs_query = [1, 2],
     kind_of = (\<lambda>p. if p = 1 then LOC_PROC else UTIL_PROC), space_of = (\<lambda>_. 0), local_by_kind = (\<lambda>_. [])\<rparr>"

lemma example_program_starts:
  "\<exists>tok tsk w. program_launch example_boot fresh_realm (at_space small_machine 0) 8 default_config [''zuku''] []
     new_process = ret (tok, Some tsk, w) \<and> outstanding w = 0"
proof -
  have m: "machine_ok small_machine" "0 < address_space_count small_machine"
    by (simp_all add: machine_ok_def small_machine_def)
  obtain t where t: "proc_Init (at_space small_machine 0) no_tables = ret t"
    "local_procs t UTIL = typed_procs small_machine 0 UTIL"
    using proc_Init_ok[OF m] by (metis real_type_def)
  have "typed_procs small_machine 0 UTIL = [\<lparr>pr_type = UTIL, pr_proc = 2, local_id = 0, global_id = 0\<rparr>]"
    by (simp add: typed_procs_def small_machine_def procs_in_def space_start_def)
  then have u: "Util_proc t = ret \<lparr>pr_type = UTIL, pr_proc = 2, local_id = 0, global_id = 0\<rparr>"
    using t(2) by (simp add: Util_proc_def Processor_Create_def GetProc_def value_or_def size_of_def vec_at_def)
  have c: "\<exists>calls. Init_configure example_boot default_config [''zuku''] = ret calls"
    by (simp add: Init_configure_def boot_try_def init_network_def configure_core_def configure_cuda_def command_line_def
        set_optional_def example_boot_def default_config_def network_of_def value_or_def)
  then obtain calls where "Init_configure example_boot default_config [''zuku''] = ret calls" by blast
  then have init: "Init example_boot fresh_realm (at_space small_machine 0) 8 default_config [''zuku''] new_process =
      ret (calls, t, snd (Init_tasks fresh_realm 8 new_process))"
    using t(1) by (simp add: Init_def)
  obtain tok tsk w where run: "Context_defer fresh_realm t [] [] [] \<lparr>fr_stores = [], fr_views = [], fr_futures = [], fr_barriers = []\<rparr>
      (snd (Init_tasks fresh_realm 8 new_process)) = ret (tok, Some (tsk :: unit task), \<lparr>fr_stores = [], fr_views = [], fr_futures = [], fr_barriers = []\<rparr>, w)"
    by (simp add: launch_defs u Task_construct_def GetStreamOrderedEvent_def MergePreconditions_def new_task_base_def
        launch_precondition_def all_effects_def sync_barrier_def invoke_def command_def)
  have "calls_only new_process w"
    using calls_only_trans[OF Init_calls_only[OF init]] program_task_launched[OF run] by blast
  then have "outstanding w = 0" by (simp add: calls_only_def outstanding_def new_process_def releases_spawned_def)
  then show ?thesis using init run by (simp add: program_launch_def)
qed

theorem program_ends_after_task_witness:
  "\<exists>tok tsk w w' agree x. program_launch example_boot fresh_realm (at_space small_machine 0) 8 default_config [''zuku''] []
      new_process = ret (tok, Some tsk, w) \<and>
     program example_boot fresh_realm (at_space small_machine 0) 8 default_config [''zuku''] [] new_process (\<lambda>_. w) =
       Some (ret w') \<and> last (trace_of w') = (ShutdownRealm agree, x) \<and> depends (trace_of w') agree (completion_event tsk)"
proof -
  obtain tok tsk w where start: "program_launch example_boot fresh_realm (at_space small_machine 0) 8 default_config
      [''zuku''] [] new_process = ret (tok, Some tsk, w)" and idle: "outstanding w = 0"
    using example_program_starts by blast
  have "(process_step fresh_realm)\<^sup>*\<^sup>* w w" and "\<forall>i :: nat. outstanding w < 2 ^ 63" using idle by simp_all
  from program_ends_after_task[OF start, of "\<lambda>_. w", OF this(1) _ this(2)] show ?thesis using start idle by fastforce
qed

end
