(* ===== verification/Array_Plan.thy ===== *)
theory Array_Plan
  imports Reshard_Config
begin

text \<open>
  What a reshard sends where, protocol by protocol: for every shard of the source the targets it sends to
  and the boxes it sends, for every shard of the target the sources it waits for and the boxes it expects.
  Each protocol's lists satisfy one contract, the locale \<open>transfer_plan\<close>; a client of the contract may
  conclude that the boxes carry the whole array.
\<close>

section \<open>The contract\<close>

definition is_shard :: "sharding \<Rightarrow> int \<Rightarrow> bool" where
  "is_shard s i \<longleftrightarrow> 0 \<le> i \<and> i < dl_size (sh_devices s)"

type_synonym part = "int \<times> rect"

locale transfer_plan =
  fixes able :: "int \<Rightarrow> sharding \<Rightarrow> sharding \<Rightarrow> bool"
    and sends receives :: "int \<Rightarrow> sharding \<Rightarrow> sharding \<Rightarrow> int \<Rightarrow> part list"
  assumes well_formed: "able max_dim src dst \<Longrightarrow> sharding_ok src \<and> sharding_ok dst \<and>
      rank_supported max_dim src \<and> rank_supported max_dim dst \<and> (array_point src p \<longleftrightarrow> array_point dst p)"
    and agree: "able max_dim src dst \<Longrightarrow> is_shard src s \<Longrightarrow> is_shard dst d \<Longrightarrow>
      (d, b) \<in> set (sends max_dim src dst s) \<longleftrightarrow> (s, b) \<in> set (receives max_dim src dst d)"
    and send_target: "able max_dim src dst \<Longrightarrow> is_shard src s \<Longrightarrow> (d, b) \<in> set (sends max_dim src dst s) \<Longrightarrow>
      is_shard dst d"
    and receive_source: "able max_dim src dst \<Longrightarrow> is_shard dst d \<Longrightarrow> (s, b) \<in> set (receives max_dim src dst d) \<Longrightarrow>
      is_shard src s"
    and send_once: "able max_dim src dst \<Longrightarrow> is_shard src s \<Longrightarrow> distinct (map fst (sends max_dim src dst s))"
    and receive_once: "able max_dim src dst \<Longrightarrow> is_shard dst d \<Longrightarrow>
      distinct (map fst (receives max_dim src dst d))"
    and available: "able max_dim src dst \<Longrightarrow> is_shard dst d \<Longrightarrow> (s, b) \<in> set (receives max_dim src dst d) \<Longrightarrow>
      array_point src p \<Longrightarrow> in_rect b p \<Longrightarrow> in_rect (tile_box s src) p"
    and covered: "able max_dim src dst \<Longrightarrow> is_shard dst d \<Longrightarrow> array_point dst p \<Longrightarrow>
      in_rect (tile_box d dst) p \<Longrightarrow> \<exists>(s, b) \<in> set (receives max_dim src dst d). in_rect b p"

section \<open>Replicated arrays\<close>

lemma replicated_spans:
  "in_radix (map dim_sharding ds) idx \<Longrightarrow> \<forall>d \<in> set ds. \<not> is_repl_dim d \<longrightarrow> dim_sharding d = 1 \<Longrightarrow>
   tile_spans ds idx = map (\<lambda>d. (0, dim_size d - 1)) (real_dims ds)"
proof (induction ds arbitrary: idx)
  case (Cons d ds)
  then obtain i js where idx: "idx = i # js" by (cases idx) auto
  have "tile_spans ds js = map (\<lambda>d. (0, dim_size d - 1)) (real_dims ds)"
    using Cons by (simp add: idx)
  moreover have "i = 0 \<and> dim_sharding d = 1" if "\<not> is_repl_dim d" using Cons.prems that by (auto simp: idx)
  ultimately show ?case by (simp add: idx tile_span_def Let_def)
qed (simp add: tile_spans_def)

lemma replicated_box:
  assumes s: "sharding_ok s" and one: "tiles s = 1" and i: "is_shard s i"
  shows "tile_box i s = box_of (map (\<lambda>n. (0, n - 1)) (map dim_size (real_dims (sh_dims s))))"
proof -
  have "dim_sharding d = 1" if "d \<in> set (sh_dims s)" "\<not> is_repl_dim d" for d
  proof -
    have "dim_sharding d \<le> tiles s" unfolding tiles_def
      using that sharding_ok_dim[OF s] dim_ok_ge1 by (intro prod_list_member_le) auto
    then show ?thesis using one dim_ok_ge1[OF sharding_ok_dim[OF s that(1)]] by simp
  qed
  moreover have "in_radix (map dim_sharding (sh_dims s)) (tile_index i s)"
    using tile_index_in_range[OF s] i by (simp add: index_in_range_def is_shard_def)
  ultimately show ?thesis by (simp add: tile_box_def replicated_spans comp_def)
qed

lemma replicated_holds_all:
  assumes s: "sharding_ok s" and one: "tiles s = 1" and i: "is_shard s i" and p: "array_point s p"
  shows "in_rect (tile_box i s) p"
proof -
  let ?D = "dl_size (sh_devices s)"
  let ?R = "{r. 0 \<le> r \<and> r < ?D \<and> in_rect (tile_box r s) p}"
  have "replication s = ?D" using tiles_times_replication[OF s] one by simp
  then have "int (card ?R) = ?D" using card_tile_boxes[OF s p] by (simp only:)
  then have "card ?R = card {0..<?D}" by (metis card_atLeastLessThan_int diff_zero nat_int)
  moreover have "?R \<subseteq> {0..<?D}" by auto
  ultimately have all: "?R = {0..<?D}" by (intro card_subset_eq) auto
  have "i \<in> {0..<?D}" using i by (simp add: is_shard_def)
  then show ?thesis unfolding all[symmetric] by simp
qed

definition same_extent :: "int \<Rightarrow> sharding \<Rightarrow> sharding \<Rightarrow> bool" where
  "same_extent max_dim src dst \<longleftrightarrow> sharding_ok src \<and> sharding_ok dst \<and> rank_supported max_dim src \<and>
     map dim_size (real_dims (sh_dims src)) = map dim_size (real_dims (sh_dims dst))"

lemma same_extentD:
  assumes "same_extent max_dim src dst"
  shows "sharding_ok src" and "sharding_ok dst" and "rank_supported max_dim src"
    and "rank_supported max_dim dst" and "array_point src p \<longleftrightarrow> array_point dst p"
proof -
  have eq: "map dim_size (real_dims (sh_dims src)) = map dim_size (real_dims (sh_dims dst))"
    using assms by (simp add: same_extent_def)
  then have len: "length (real_dims (sh_dims src)) = length (real_dims (sh_dims dst))" by (metis length_map)
  then have nil: "real_dims (sh_dims src) = [] \<longleftrightarrow> real_dims (sh_dims dst) = []" by (metis length_0_conv)
  show "sharding_ok src" "sharding_ok dst" "rank_supported max_dim src"
    using assms by (simp_all add: same_extent_def)
  then show "rank_supported max_dim dst" by (simp add: rank_supported_def len)
  show "array_point src p \<longleftrightarrow> array_point dst p" by (simp only: array_point_def nil eq)
qed

section \<open>Shard to shard\<close>

text \<open>
  The same cut on both sides, or two replicated arrays with enough sources, where a source without a partner
  is not a target itself.
\<close>

definition pairs_able :: "int \<Rightarrow> sharding \<Rightarrow> sharding \<Rightarrow> bool" where
  "pairs_able max_dim src dst \<longleftrightarrow> same_extent max_dim src dst \<and>
     (if tiles src = 1 \<and> tiles dst = 1
      then dl_size (sh_devices dst) \<le> dl_size (sh_devices src) \<and>
        list_all (\<lambda>i. i < dl_size (sh_devices dst) \<or> \<not> dl_contains (sh_devices dst) (dl_index (sh_devices src) i))
          (upto64 (dl_size (sh_devices src)))
      else sh_dims src = sh_dims dst \<and> dl_size (sh_devices src) = dl_size (sh_devices dst))"

definition pairs_send :: "int \<Rightarrow> sharding \<Rightarrow> sharding \<Rightarrow> int \<Rightarrow> part list" where
  "pairs_send max_dim src dst s = (if s < dl_size (sh_devices dst) then [(s, tile_box s src)] else [])"

definition pairs_receive :: "int \<Rightarrow> sharding \<Rightarrow> sharding \<Rightarrow> int \<Rightarrow> part list" where
  "pairs_receive max_dim src dst d = [(d, tile_box d dst)]"

lemma pairs_same_box:
  assumes "pairs_able max_dim src dst" and "is_shard src i" and "is_shard dst i"
  shows "tile_box i src = tile_box i dst"
proof (cases "tiles src = 1 \<and> tiles dst = 1")
  case True
  then show ?thesis
    using assms replicated_box[of src i] replicated_box[of dst i]
    by (auto simp: pairs_able_def same_extent_def)
next
  case False
  then have "sh_dims src = sh_dims dst" using assms(1) by (simp add: pairs_able_def)
  then show ?thesis by (simp add: tile_box_def tile_index_def)
qed

interpretation pairs: transfer_plan pairs_able pairs_send pairs_receive
proof unfold_locales
  fix max_dim src dst s d b p
  assume able: "pairs_able max_dim src dst"
  then have ext: "same_extent max_dim src dst" and size: "dl_size (sh_devices dst) \<le> dl_size (sh_devices src)"
    by (auto simp: pairs_able_def split: if_splits)
  show "sharding_ok src \<and> sharding_ok dst \<and> rank_supported max_dim src \<and> rank_supported max_dim dst \<and>
      (array_point src p \<longleftrightarrow> array_point dst p)" using same_extentD[OF ext] by auto
  show "distinct (map fst (pairs_send max_dim src dst s))" if "is_shard src s"
    by (simp add: pairs_send_def)
  show "distinct (map fst (pairs_receive max_dim src dst d))" if "is_shard dst d"
    by (simp add: pairs_receive_def)
  show "is_shard dst d" if "is_shard src s" "(d, b) \<in> set (pairs_send max_dim src dst s)"
    using that by (auto simp: pairs_send_def is_shard_def split: if_splits)
  show src: "is_shard src s" if "is_shard dst d" "(s, b) \<in> set (pairs_receive max_dim src dst d)"
    using that size by (auto simp: pairs_receive_def is_shard_def)
  show "(d, b) \<in> set (pairs_send max_dim src dst s) \<longleftrightarrow> (s, b) \<in> set (pairs_receive max_dim src dst d)"
    if "is_shard src s" "is_shard dst d"
    using that pairs_same_box[OF able, of s] by (auto simp: pairs_send_def pairs_receive_def is_shard_def)
  show "in_rect (tile_box s src) p"
    if "is_shard dst d" "(s, b) \<in> set (pairs_receive max_dim src dst d)" "array_point src p" "in_rect b p"
    using that src[OF that(1,2)] pairs_same_box[OF able, of d] by (auto simp: pairs_receive_def)
  show "\<exists>(s, b) \<in> set (pairs_receive max_dim src dst d). in_rect b p"
    if "is_shard dst d" "array_point dst p" "in_rect (tile_box d dst) p"
    using that by (simp add: pairs_receive_def)
qed

section \<open>Gathering shards\<close>

text \<open>
  Every target gets everything, and a piece from each source: its tile, or, when tiles are replicated, its
  slice of the tile.
\<close>

definition repl_index :: "sharding_dim list \<Rightarrow> nat" where
  "repl_index ds = length (takeWhile (\<lambda>d. \<not> is_repl_dim d) ds)"

definition cut_index :: "int \<Rightarrow> sharding_dim list \<Rightarrow> nat" where
  "cut_index repl ds =
     length (takeWhile (\<lambda>d. is_repl_dim d \<or> dim_size d mod (dim_sharding d * repl) \<noteq> 0) ds)"

definition can_cut :: "sharding \<Rightarrow> bool" where
  "can_cut s \<longleftrightarrow>
     list_ex (\<lambda>d. \<not> is_repl_dim d \<and> dim_size d mod (dim_sharding d * replication s) = 0) (sh_dims s)"

lemma first_slice_dim_cut:
  "list_ex (\<lambda>d. \<not> is_repl_dim d \<and> dim_size d mod (dim_sharding d * repl) = 0) ds \<Longrightarrow>
   first_slice_dim repl k ds = Some (k + length (real_dims (take (cut_index repl ds) ds)))"
  by (induction repl k ds rule: first_slice_dim.induct) (auto simp: cut_index_def)

lemma takeWhile_stops:
  assumes "list_ex (\<lambda>x. \<not> P x) xs"
  shows "length (takeWhile P xs) < length xs" and "\<not> P (xs ! length (takeWhile P xs))"
proof -
  show "length (takeWhile P xs) < length xs"
    using assms by (induction xs) auto
  then show "\<not> P (xs ! length (takeWhile P xs))" by (rule nth_length_takeWhile)
qed

lemma partially_replicated:
  assumes s: "sharding_ok s" and few: "tiles s < dl_size (sh_devices s)"
  shows "repl_index (sh_dims s) < length (sh_dims s)" and "is_repl_dim (sh_dims s ! repl_index (sh_dims s))"
    and "replication s = dim_sharding (sh_dims s ! repl_index (sh_dims s))"
proof -
  have "replication s \<noteq> 1" using tiles_times_replication[OF s] few by auto
  then have ne: "filter is_repl_dim (sh_dims s) \<noteq> []" by (auto simp: replication_def)
  then have ex: "list_ex (\<lambda>d. \<not> \<not> is_repl_dim d) (sh_dims s)" by (auto simp: list_ex_iff filter_empty_conv)
  note at = takeWhile_stops[OF ex, folded repl_index_def]
  show "repl_index (sh_dims s) < length (sh_dims s)" by (rule at)
  show j: "is_repl_dim (sh_dims s ! repl_index (sh_dims s))" using at(2) by simp
  have "sh_dims s ! repl_index (sh_dims s) \<in> set (filter is_repl_dim (sh_dims s))" using at(1) j by simp
  then have "filter is_repl_dim (sh_dims s) = [sh_dims s ! repl_index (sh_dims s)]"
    using sharding_ok_repl[OF s] by (cases "filter is_repl_dim (sh_dims s)") auto
  then show "replication s = dim_sharding (sh_dims s ! repl_index (sh_dims s))" by (simp add: replication_def)
qed

lemma cut_ok:
  assumes s: "sharding_ok s" and few: "tiles s < dl_size (sh_devices s)" and cut: "can_cut s"
  shows "slicing_ok s (repl_index (sh_dims s)) (cut_index (replication s) (sh_dims s))"
proof -
  have ex: "list_ex (\<lambda>d. \<not> (is_repl_dim d \<or> dim_size d mod (dim_sharding d * replication s) \<noteq> 0)) (sh_dims s)"
    using cut by (simp add: can_cut_def)
  note at = takeWhile_stops[OF ex, folded cut_index_def]
  show ?thesis using s at partially_replicated[OF s few] by (simp add: slicing_ok_def)
qed

definition gather_piece :: "sharding \<Rightarrow> int \<Rightarrow> rect" where
  "gather_piece src s =
     (if tiles src = dl_size (sh_devices src) then tile_box s src
      else replica_slice src (repl_index (sh_dims src)) (cut_index (replication src) (sh_dims src)) s)"

definition gather_able :: "int \<Rightarrow> sharding \<Rightarrow> sharding \<Rightarrow> bool" where
  "gather_able max_dim src dst \<longleftrightarrow> same_extent max_dim src dst \<and> tiles dst = 1 \<and>
     (tiles src = dl_size (sh_devices src) \<or> 1 < tiles src \<and> can_cut src)"

definition gather_send :: "int \<Rightarrow> sharding \<Rightarrow> sharding \<Rightarrow> int \<Rightarrow> part list" where
  "gather_send max_dim src dst s = map (\<lambda>d. (d, gather_piece src s)) (upto64 (dl_size (sh_devices dst)))"

definition gather_receive :: "int \<Rightarrow> sharding \<Rightarrow> sharding \<Rightarrow> int \<Rightarrow> part list" where
  "gather_receive max_dim src dst d = map (\<lambda>s. (s, gather_piece src s)) (upto64 (dl_size (sh_devices src)))"

lemma gather_piece:
  assumes s: "sharding_ok src" and ok: "tiles src = dl_size (sh_devices src) \<or> can_cut src" and p: "array_point src p"
  shows "is_shard src i \<Longrightarrow> in_rect (gather_piece src i) p \<Longrightarrow> in_rect (tile_box i src) p"
    and "\<exists>i. is_shard src i \<and> in_rect (gather_piece src i) p"
proof -
  let ?D = "dl_size (sh_devices src)"
  let ?slice = "replica_slice src (repl_index (sh_dims src)) (cut_index (replication src) (sh_dims src))"
  have "(is_shard src i \<longrightarrow> in_rect (gather_piece src i) p \<longrightarrow> in_rect (tile_box i src) p) \<and>
      (\<exists>i. is_shard src i \<and> in_rect (gather_piece src i) p)" for i
  proof (cases "tiles src = ?D")
    case True
    then have "replication src = 1" using tiles_times_replication[OF s] tiles_ge1[OF s] by auto
    then have "card {r. 0 \<le> r \<and> r < ?D \<and> in_rect (tile_box r src) p} \<noteq> 0"
      using card_tile_boxes[OF s p] by linarith
    then have "{r. 0 \<le> r \<and> r < ?D \<and> in_rect (tile_box r src) p} \<noteq> {}" by (metis card.empty)
    then show ?thesis using True by (auto simp: gather_piece_def is_shard_def)
  next
    case False
    then have few: "tiles src < ?D" using tiles_le_devices[OF s] by simp
    note cut = cut_ok[OF s few]
    have "card {r. 0 \<le> r \<and> r < ?D \<and> in_rect (?slice r) p} \<noteq> 0"
      using card_replica_slices[OF cut p] False ok by auto
    then have "{r. 0 \<le> r \<and> r < ?D \<and> in_rect (?slice r) p} \<noteq> {}" by (metis card.empty)
    then show ?thesis
      using in_replica_slice[OF cut _ _ p] False ok by (auto simp: gather_piece_def is_shard_def)
  qed
  then show "is_shard src i \<Longrightarrow> in_rect (gather_piece src i) p \<Longrightarrow> in_rect (tile_box i src) p"
    and "\<exists>i. is_shard src i \<and> in_rect (gather_piece src i) p" by blast+
qed

interpretation gather: transfer_plan gather_able gather_send gather_receive
proof unfold_locales
  fix max_dim src dst s d b p
  assume able: "gather_able max_dim src dst"
  then have ext: "same_extent max_dim src dst" and ok: "tiles src = dl_size (sh_devices src) \<or> can_cut src"
    by (auto simp: gather_able_def)
  note e = same_extentD[OF ext]
  show "sharding_ok src \<and> sharding_ok dst \<and> rank_supported max_dim src \<and> rank_supported max_dim dst \<and>
      (array_point src p \<longleftrightarrow> array_point dst p)" using e by auto
  show "distinct (map fst (gather_send max_dim src dst s))" if "is_shard src s"
    by (simp add: gather_send_def comp_def)
  show "distinct (map fst (gather_receive max_dim src dst d))" if "is_shard dst d"
    by (simp add: gather_receive_def comp_def)
  show "is_shard dst d" if "is_shard src s" "(d, b) \<in> set (gather_send max_dim src dst s)"
    using that by (auto simp: gather_send_def is_shard_def)
  show src: "is_shard src s" if "is_shard dst d" "(s, b) \<in> set (gather_receive max_dim src dst d)"
    using that by (auto simp: gather_receive_def is_shard_def)
  show "(d, b) \<in> set (gather_send max_dim src dst s) \<longleftrightarrow> (s, b) \<in> set (gather_receive max_dim src dst d)"
    if "is_shard src s" "is_shard dst d"
    using that by (auto simp: gather_send_def gather_receive_def is_shard_def)
  show "in_rect (tile_box s src) p"
    if "is_shard dst d" "(s, b) \<in> set (gather_receive max_dim src dst d)" "array_point src p" "in_rect b p"
    using that src[OF that(1,2)] gather_piece(1)[OF e(1) ok] by (auto simp: gather_receive_def)
  show "\<exists>(s, b) \<in> set (gather_receive max_dim src dst d). in_rect b p"
    if "is_shard dst d" "array_point dst p" "in_rect (tile_box d dst) p"
  proof -
    have "array_point src p" using e(5) that(2) by simp
    from gather_piece(2)[OF e(1) ok this] show ?thesis by (auto simp: gather_receive_def is_shard_def)
  qed
qed

section \<open>Scattering shards\<close>

text \<open>Each source has everything and serves the same number of consecutive targets.\<close>

definition spread_able :: "int \<Rightarrow> sharding \<Rightarrow> sharding \<Rightarrow> bool" where
  "spread_able max_dim src dst \<longleftrightarrow> same_extent max_dim src dst \<and> tiles src = 1 \<and>
     tiles dst = dl_size (sh_devices dst) \<and> dl_size (sh_devices src) dvd dl_size (sh_devices dst)"

definition per_source :: "sharding \<Rightarrow> sharding \<Rightarrow> int" where
  "per_source src dst = dl_size (sh_devices dst) div dl_size (sh_devices src)"

definition spread_send :: "int \<Rightarrow> sharding \<Rightarrow> sharding \<Rightarrow> int \<Rightarrow> part list" where
  "spread_send max_dim src dst s =
     map (\<lambda>i. (per_source src dst * s + i, tile_box (per_source src dst * s + i) dst)) (upto64 (per_source src dst))"

definition spread_receive :: "int \<Rightarrow> sharding \<Rightarrow> sharding \<Rightarrow> int \<Rightarrow> part list" where
  "spread_receive max_dim src dst d = [(d div per_source src dst, tile_box d dst)]"

lemma per_source:
  assumes "spread_able max_dim src dst"
  shows "0 < per_source src dst" and "dl_size (sh_devices dst) = per_source src dst * dl_size (sh_devices src)"
proof -
  have ext: "same_extent max_dim src dst" and dvd: "dl_size (sh_devices src) dvd dl_size (sh_devices dst)"
    using assms by (simp_all add: spread_able_def)
  note e = same_extentD[OF ext]
  show eq: "dl_size (sh_devices dst) = per_source src dst * dl_size (sh_devices src)"
    using dvd by (simp add: per_source_def)
  have "1 \<le> dl_size (sh_devices src)" "1 \<le> dl_size (sh_devices dst)"
    using tiles_le_devices[OF e(1)] tiles_ge1[OF e(1)] tiles_le_devices[OF e(2)] tiles_ge1[OF e(2)] by auto
  then have "0 < per_source src dst * dl_size (sh_devices src)" "0 < dl_size (sh_devices src)" using eq by linarith+
  then show "0 < per_source src dst" by (simp add: zero_less_mult_iff)
qed

lemma in_spread_send:
  assumes "0 < per_source src dst"
  shows "(d, b) \<in> set (spread_send max_dim src dst s) \<longleftrightarrow> d div per_source src dst = s \<and> b = tile_box d dst"
proof -
  let ?q = "per_source src dst"
  have "(d, b) \<in> set (spread_send max_dim src dst s)" if "d div ?q = s" "b = tile_box d dst"
  proof -
    have "d = ?q * s + d mod ?q" using that(1) by auto
    moreover have "d mod ?q \<in> set (upto64 ?q)" using assms by simp
    ultimately show ?thesis using that(2) unfolding spread_send_def set_map by (intro image_eqI) auto
  qed
  moreover have "d div ?q = s \<and> b = tile_box d dst" if "(d, b) \<in> set (spread_send max_dim src dst s)"
    using that by (auto simp: spread_send_def)
  ultimately show ?thesis by blast
qed

interpretation spread: transfer_plan spread_able spread_send spread_receive
proof unfold_locales
  fix max_dim src dst s d b p
  assume able: "spread_able max_dim src dst"
  then have ext: "same_extent max_dim src dst" and one: "tiles src = 1" by (simp_all add: spread_able_def)
  note e = same_extentD[OF ext] and q = per_source[OF able]
  show "sharding_ok src \<and> sharding_ok dst \<and> rank_supported max_dim src \<and> rank_supported max_dim dst \<and>
      (array_point src p \<longleftrightarrow> array_point dst p)" using e by auto
  show "distinct (map fst (spread_send max_dim src dst s))" if "is_shard src s"
    by (auto simp: spread_send_def comp_def distinct_map inj_on_def)
  show "distinct (map fst (spread_receive max_dim src dst d))" if "is_shard dst d"
    by (simp add: spread_receive_def)
  show "is_shard dst d" if "is_shard src s" "(d, b) \<in> set (spread_send max_dim src dst s)"
  proof -
    have d: "d div per_source src dst = s" using that(2) in_spread_send[OF q(1)] by simp
    then have "0 \<le> d" using that(1) pos_imp_zdiv_nonneg_iff[OF q(1), of d] by (simp add: is_shard_def)
    moreover have "per_source src dst * (s + 1) \<le> per_source src dst * dl_size (sh_devices src)"
      using that(1) q(1) by (intro mult_left_mono) (auto simp: is_shard_def)
    moreover have "d < per_source src dst * (s + 1)"
      using d mult_div_mod_eq[of "per_source src dst" d] pos_mod_bound[OF q(1), of d]
      by (simp add: distrib_left)
    ultimately show ?thesis using q(2) by (simp add: is_shard_def)
  qed
  show src: "is_shard src s" if "is_shard dst d" "(s, b) \<in> set (spread_receive max_dim src dst d)"
    using that q by (auto simp: spread_receive_def is_shard_def pos_imp_zdiv_nonneg_iff mult.commute
        intro: div_less_of_less_mult)
  show "(d, b) \<in> set (spread_send max_dim src dst s) \<longleftrightarrow> (s, b) \<in> set (spread_receive max_dim src dst d)"
    if "is_shard src s" "is_shard dst d"
    using in_spread_send[OF q(1)] by (auto simp: spread_receive_def)
  show "in_rect (tile_box s src) p"
    if "is_shard dst d" "(s, b) \<in> set (spread_receive max_dim src dst d)" "array_point src p" "in_rect b p"
    using replicated_holds_all[OF e(1) one src[OF that(1,2)] that(3)] .
  show "\<exists>(s, b) \<in> set (spread_receive max_dim src dst d). in_rect b p"
    if "is_shard dst d" "array_point dst p" "in_rect (tile_box d dst) p"
    using that by (simp add: spread_receive_def)
qed

section \<open>Scatter and gather along one dimension\<close>

definition sg_dim :: "sharding \<Rightarrow> sharding \<Rightarrow> nat" where
  "sg_dim src dst = length (takeWhile (\<lambda>(a, b). dim_eq a b) (zip (sh_dims src) (sh_dims dst)))"

definition finer :: "sharding \<Rightarrow> sharding \<Rightarrow> nat \<Rightarrow> bool" where
  "finer a b dim \<longleftrightarrow> dim_sharding (sh_dims a ! dim) > dim_sharding (sh_dims b ! dim)"

definition sg_factor :: "sharding \<Rightarrow> sharding \<Rightarrow> nat \<Rightarrow> int" where
  "sg_factor fine coarse dim = dim_sharding (sh_dims fine ! dim) div dim_sharding (sh_dims coarse ! dim)"

definition fine_parts :: "sharding \<Rightarrow> sharding \<Rightarrow> nat \<Rightarrow> int \<Rightarrow> part list" where
  "fine_parts f c dim r = map snd (fine_slices f c dim (sg_factor f c dim) r)"

definition coarse_parts :: "sharding \<Rightarrow> sharding \<Rightarrow> nat \<Rightarrow> int \<Rightarrow> part list" where
  "coarse_parts f c dim q = map (\<lambda>(r, q, b). (r, b)) (coarse_slices f c dim (sg_factor f c dim) q)"

definition along_able :: "int \<Rightarrow> sharding \<Rightarrow> sharding \<Rightarrow> bool" where
  "along_able max_dim src dst \<longleftrightarrow> same_extent max_dim src dst \<and> sg_pair max_dim src dst (sg_dim src dst)"

definition along_send :: "int \<Rightarrow> sharding \<Rightarrow> sharding \<Rightarrow> int \<Rightarrow> part list" where
  "along_send max_dim src dst s =
     (let dim = sg_dim src dst in if finer src dst dim then fine_parts src dst dim s else coarse_parts dst src dim s)"

definition along_receive :: "int \<Rightarrow> sharding \<Rightarrow> sharding \<Rightarrow> int \<Rightarrow> part list" where
  "along_receive max_dim src dst d =
     (let dim = sg_dim src dst in if finer src dst dim then coarse_parts src dst dim d else fine_parts dst src dim d)"

lemma fine_part:
  assumes ok: "sg_ok max_dim f c dim (sg_factor f c dim)" and r: "is_shard f r"
    and "(q, b) \<in> set (fine_parts f c dim r)"
  shows "is_shard c q" and "b = tile_box r f"
    and "array_point f p \<Longrightarrow> in_rect b p \<Longrightarrow> in_rect (tile_box q c) p"
proof -
  note o = sg_okD[OF ok]
  let ?k = "sg_factor f c dim"
  have r': "0 \<le> r" "r < dl_size (sh_devices f)" using r by (simp_all add: is_shard_def)
  have q: "q = shard_of c (parent dim ?k (tile_index r f))" and b: "b = index_box f (tile_index r f)"
    using assms(3) by (simp_all add: fine_parts_def fine_slices_def)
  show "is_shard c q"
    using row_major_shard_of(1)[OF o(3,5) parent_in_range[OF o(6) tile_index_in_range[OF o(2) r']]]
    by (simp add: q is_shard_def)
  show b': "b = tile_box r f" by (simp add: b tile_box_index_box)
  show "in_rect (tile_box q c) p" if "array_point f p" "in_rect b p"
    using fine_slice_inside[OF ok r' that(1)] that(2) by (simp add: q b')
qed

lemma coarse_part:
  assumes ok: "sg_ok max_dim f c dim (sg_factor f c dim)" and q: "is_shard c q"
  shows "(r, b) \<in> set (coarse_parts f c dim q) \<Longrightarrow> is_shard f r \<and> b = tile_box r f"
    and "distinct (map fst (coarse_parts f c dim q))"
    and "array_point c p \<Longrightarrow> in_rect (tile_box q c) p \<Longrightarrow> \<exists>(r, b) \<in> set (coarse_parts f c dim q). in_rect b p"
proof -
  note o = sg_okD[OF ok]
  let ?k = "sg_factor f c dim" and ?idx = "tile_index q c"
  have q': "0 \<le> q" "q < dl_size (sh_devices c)" using q by (simp_all add: is_shard_def)
  note child = child_in_range[OF o(6) tile_index_in_range[OF o(3) q']]
  have index: "tile_index (shard_of f (child dim ?k ?idx x)) f = child dim ?k ?idx x" if "0 \<le> x" "x < ?k" for x
    by (rule row_major_shard_of(2)[OF o(2,4) child[OF that]])
  have parts: "coarse_parts f c dim q =
      map (\<lambda>x. (shard_of f (child dim ?k ?idx x), index_box f (child dim ?k ?idx x))) (upto64 ?k)"
    by (simp add: coarse_parts_def coarse_slices_def)
  show "is_shard f r \<and> b = tile_box r f" if part: "(r, b) \<in> set (coarse_parts f c dim q)"
  proof -
    obtain x where x: "0 \<le> x" "x < ?k" and rb: "r = shard_of f (child dim ?k ?idx x)"
      "b = index_box f (child dim ?k ?idx x)"
      using part unfolding parts by auto
    show ?thesis
      using row_major_shard_of(1)[OF o(2,4) child[OF x]] index[OF x] by (simp add: rb is_shard_def tile_box_index_box)
  qed
  have dim: "dim < length ?idx" using refines_dimD(1,2)[OF o(6)] by simp
  have inj: "inj_on (\<lambda>x. shard_of f (child dim ?k ?idx x)) (set (upto64 ?k))"
  proof (rule inj_onI)
    fix x y assume xy: "x \<in> set (upto64 ?k)" "y \<in> set (upto64 ?k)"
      "shard_of f (child dim ?k ?idx x) = shard_of f (child dim ?k ?idx y)"
    then have range: "0 \<le> x" "x < ?k" "0 \<le> y" "y < ?k" by auto
    note same = arg_cong[where f = "\<lambda>r. tile_index r f", OF xy(3)]
    have "child dim ?k ?idx x = child dim ?k ?idx y"
      by (rule trans[OF index[OF range(1,2), symmetric] trans[OF same index[OF range(3,4)]]])
    then have "child dim ?k ?idx x ! dim = child dim ?k ?idx y ! dim" by simp
    then show "x = y" using dim by (simp add: child_def)
  qed
  then show "distinct (map fst (coarse_parts f c dim q))" by (simp add: parts comp_def distinct_map)
  show "\<exists>(r, b) \<in> set (coarse_parts f c dim q). in_rect b p" if "array_point c p" "in_rect (tile_box q c) p"
  proof -
    have "filter (\<lambda>sl. in_rect (snd (snd sl)) p) (coarse_slices f c dim ?k q) \<noteq> []"
      using coarse_slices_cover[OF ok q' that(1)] that(2) by auto
    then show ?thesis by (fastforce simp: coarse_parts_def filter_empty_conv split_beta)
  qed
qed

lemma parts_agree:
  assumes ok: "sg_ok max_dim f c dim (sg_factor f c dim)" and "is_shard f r" and "is_shard c q"
  shows "(q, b) \<in> set (fine_parts f c dim r) \<longleftrightarrow> (r, b) \<in> set (coarse_parts f c dim q)"
proof -
  have "(r, q, b) \<in> set (fine_slices f c dim (sg_factor f c dim) r) \<longleftrightarrow>
      (r, q, b) \<in> set (coarse_slices f c dim (sg_factor f c dim) q)"
    using slices_agree[OF ok, of r q "(r, q, b)"] assms(2,3) by (simp add: is_shard_def)
  moreover have "(q, b) \<in> set (fine_parts f c dim r) \<longleftrightarrow> (r, q, b) \<in> set (fine_slices f c dim (sg_factor f c dim) r)"
    by (auto simp: fine_parts_def fine_slices_def)
  moreover have "(r, b) \<in> set (coarse_parts f c dim q) \<longleftrightarrow>
      (r, q, b) \<in> set (coarse_slices f c dim (sg_factor f c dim) q)"
    by (force simp: coarse_parts_def coarse_slices_def)
  ultimately show ?thesis by blast
qed

text \<open>Which of the two is the finer one.\<close>

lemma along_cases:
  assumes "along_able max_dim src dst"
  defines "dim \<equiv> sg_dim src dst"
  obtains (gather) "finer src dst dim" and "sg_ok max_dim src dst dim (sg_factor src dst dim)"
  | (scatter) "\<not> finer src dst dim" and "sg_ok max_dim dst src dim (sg_factor dst src dim)"
proof -
  have "sg_pair max_dim src dst dim" using assms by (simp add: along_able_def)
  then show thesis
    using that sg_counts(2)[of max_dim src dst dim] sg_counts(2)[of max_dim dst src dim]
    unfolding sg_pair_def finer_def sg_factor_def by force
qed

interpretation along: transfer_plan along_able along_send along_receive
proof unfold_locales
  fix max_dim src dst s d b p
  assume able: "along_able max_dim src dst"
  then have ext: "same_extent max_dim src dst" by (simp add: along_able_def)
  note e = same_extentD[OF ext] and parts = along_send_def along_receive_def Let_def
  show "sharding_ok src \<and> sharding_ok dst \<and> rank_supported max_dim src \<and> rank_supported max_dim dst \<and>
      (array_point src p \<longleftrightarrow> array_point dst p)" using e by auto
  have single: "distinct (map fst (fine_parts f c dim r))" for f c dim r
    by (simp add: fine_parts_def fine_slices_def)
  show "distinct (map fst (along_send max_dim src dst s))" if "is_shard src s"
    using able by (cases rule: along_cases) (simp_all add: parts single coarse_part(2) that)
  show "distinct (map fst (along_receive max_dim src dst d))" if "is_shard dst d"
    using able by (cases rule: along_cases) (simp_all add: parts single coarse_part(2) that)
  show "is_shard dst d" if "is_shard src s" "(d, b) \<in> set (along_send max_dim src dst s)"
    using able
  proof (cases rule: along_cases)
    case gather
    then show ?thesis using fine_part(1)[OF gather(2) that(1)] that(2) by (simp add: parts)
  next
    case scatter
    then show ?thesis using coarse_part(1)[OF scatter(2) that(1)] that(2) by (simp add: parts)
  qed
  show "is_shard src s" if "is_shard dst d" "(s, b) \<in> set (along_receive max_dim src dst d)"
    using able
  proof (cases rule: along_cases)
    case gather
    then show ?thesis using coarse_part(1)[OF gather(2) that(1)] that(2) by (simp add: parts)
  next
    case scatter
    then show ?thesis using fine_part(1)[OF scatter(2) that(1)] that(2) by (simp add: parts)
  qed
  show "(d, b) \<in> set (along_send max_dim src dst s) \<longleftrightarrow> (s, b) \<in> set (along_receive max_dim src dst d)"
    if "is_shard src s" "is_shard dst d"
    using able by (cases rule: along_cases) (simp_all add: parts parts_agree that)
  show "in_rect (tile_box s src) p"
    if "is_shard dst d" "(s, b) \<in> set (along_receive max_dim src dst d)" "array_point src p" "in_rect b p"
    using able
  proof (cases rule: along_cases)
    case gather
    then show ?thesis using coarse_part(1)[OF gather(2) that(1)] that(2,4) by (simp add: parts)
  next
    case scatter
    then show ?thesis using fine_part(3)[OF scatter(2) that(1)] that(2-4) e(5) by (simp add: parts)
  qed
  show "\<exists>(s, b) \<in> set (along_receive max_dim src dst d). in_rect b p"
    if "is_shard dst d" "array_point dst p" "in_rect (tile_box d dst) p"
    using able
  proof (cases rule: along_cases)
    case gather
    then show ?thesis using coarse_part(3)[OF gather(2) that] by (simp add: parts)
  next
    case scatter
    then show ?thesis using that(3) by (simp add: parts fine_parts_def fine_slices_def tile_box_index_box)
  qed
qed

section \<open>The plan of a reshard\<close>

text \<open>The choice of \<open>DetermineShardingConfig\<close>, in terms of the specification.\<close>

definition plan_family :: "sharding \<Rightarrow> sharding \<Rightarrow> protocol_family" where
  "plan_family src dst =
     (if tiles src = dl_size (sh_devices src) \<and> tiles dst = 1 then Gather_All
      else if tiles dst = dl_size (sh_devices dst) \<and> tiles src = 1 then Scatter_All
      else if tiles src = 1 \<and> tiles dst = 1
      then (if dl_size (sh_devices dst) \<le> dl_size (sh_devices src) then Pairwise else Broadcast_Trees)
      else if 1 < tiles src \<and> tiles dst = 1 then Gather_All
      else if length (sh_dims src) \<noteq> length (sh_dims dst) then Unsupported
      else if sh_dims src = sh_dims dst \<and> dl_size (sh_devices src) = dl_size (sh_devices dst) then Pairwise
      else Scatter_Gather_Dim)"

definition plan_able :: "int \<Rightarrow> sharding \<Rightarrow> sharding \<Rightarrow> bool" where
  "plan_able max_dim src dst = (case plan_family src dst of
     Pairwise \<Rightarrow> pairs_able max_dim src dst | Gather_All \<Rightarrow> gather_able max_dim src dst
   | Scatter_All \<Rightarrow> spread_able max_dim src dst | Scatter_Gather_Dim \<Rightarrow> along_able max_dim src dst
   | _ \<Rightarrow> False)"

definition plan_send :: "int \<Rightarrow> sharding \<Rightarrow> sharding \<Rightarrow> int \<Rightarrow> part list" where
  "plan_send max_dim src dst = (case plan_family src dst of
     Pairwise \<Rightarrow> pairs_send max_dim src dst | Gather_All \<Rightarrow> gather_send max_dim src dst
   | Scatter_All \<Rightarrow> spread_send max_dim src dst | Scatter_Gather_Dim \<Rightarrow> along_send max_dim src dst
   | _ \<Rightarrow> (\<lambda>_. []))"

definition plan_receive :: "int \<Rightarrow> sharding \<Rightarrow> sharding \<Rightarrow> int \<Rightarrow> part list" where
  "plan_receive max_dim src dst = (case plan_family src dst of
     Pairwise \<Rightarrow> pairs_receive max_dim src dst | Gather_All \<Rightarrow> gather_receive max_dim src dst
   | Scatter_All \<Rightarrow> spread_receive max_dim src dst | Scatter_Gather_Dim \<Rightarrow> along_receive max_dim src dst
   | _ \<Rightarrow> (\<lambda>_. []))"

lemmas plan_defs = plan_able_def plan_send_def plan_receive_def

lemma plan_cases:
  assumes "plan_able max_dim src dst"
  obtains "pairs_able max_dim src dst" "plan_send max_dim src dst = pairs_send max_dim src dst"
      "plan_receive max_dim src dst = pairs_receive max_dim src dst"
    | "gather_able max_dim src dst" "plan_send max_dim src dst = gather_send max_dim src dst"
      "plan_receive max_dim src dst = gather_receive max_dim src dst"
    | "spread_able max_dim src dst" "plan_send max_dim src dst = spread_send max_dim src dst"
      "plan_receive max_dim src dst = spread_receive max_dim src dst"
    | "along_able max_dim src dst" "plan_send max_dim src dst = along_send max_dim src dst"
      "plan_receive max_dim src dst = along_receive max_dim src dst"
  using assms by (cases "plan_family src dst") (simp_all add: plan_defs)

interpretation plan: transfer_plan plan_able plan_send plan_receive
proof unfold_locales
  fix max_dim src dst s d b p
  assume able: "plan_able max_dim src dst"
  show "sharding_ok src \<and> sharding_ok dst \<and> rank_supported max_dim src \<and> rank_supported max_dim dst \<and>
      (array_point src p \<longleftrightarrow> array_point dst p)"
    using able by (cases rule: plan_cases)
      (use pairs.well_formed gather.well_formed spread.well_formed along.well_formed in blast)+
  show "distinct (map fst (plan_send max_dim src dst s))" if "is_shard src s"
    using able by (cases rule: plan_cases)
      (simp_all add: that pairs.send_once gather.send_once spread.send_once along.send_once)
  show "distinct (map fst (plan_receive max_dim src dst d))" if "is_shard dst d"
    using able by (cases rule: plan_cases)
      (simp_all add: that pairs.receive_once gather.receive_once spread.receive_once along.receive_once)
  show "is_shard dst d" if "is_shard src s" "(d, b) \<in> set (plan_send max_dim src dst s)"
    using able by (cases rule: plan_cases)
      (use that pairs.send_target gather.send_target spread.send_target along.send_target in metis)+
  show "is_shard src s" if "is_shard dst d" "(s, b) \<in> set (plan_receive max_dim src dst d)"
    using able by (cases rule: plan_cases)
      (use that pairs.receive_source gather.receive_source spread.receive_source along.receive_source in metis)+
  show "(d, b) \<in> set (plan_send max_dim src dst s) \<longleftrightarrow> (s, b) \<in> set (plan_receive max_dim src dst d)"
    if "is_shard src s" "is_shard dst d"
    using able by (cases rule: plan_cases) (simp_all add: that pairs.agree gather.agree spread.agree along.agree)
  show "in_rect (tile_box s src) p"
    if "is_shard dst d" "(s, b) \<in> set (plan_receive max_dim src dst d)" "array_point src p" "in_rect b p"
    using able by (cases rule: plan_cases)
      (use that pairs.available gather.available spread.available along.available in metis)+
  show "\<exists>(s, b) \<in> set (plan_receive max_dim src dst d). in_rect b p"
    if "is_shard dst d" "array_point dst p" "in_rect (tile_box d dst) p"
    using able by (cases rule: plan_cases)
      (use that pairs.covered gather.covered spread.covered along.covered in metis)+
qed

section \<open>Contents\<close>

text \<open>
  What a memory holds: a value for every point of every instance. A copy of a box replaces the values
  in the box and keeps the others.
\<close>

type_synonym ('i, 'v) memory = "'i \<Rightarrow> int list \<Rightarrow> 'v"
type_synonym 'i copy = "rect \<times> 'i \<times> 'i"

fun perform :: "'i copy \<Rightarrow> ('i, 'v) memory \<Rightarrow> ('i, 'v) memory" where
  "perform (b, s, d) mem = mem(d := \<lambda>p. if in_rect b p then mem s p else mem d p)"

definition after_copies :: "'i copy list \<Rightarrow> ('i, 'v) memory \<Rightarrow> ('i, 'v) memory" where
  "after_copies cs mem = fold perform cs mem"

definition tile_held :: "int \<Rightarrow> sharding \<Rightarrow> int \<Rightarrow> (int list \<Rightarrow> 'v) \<Rightarrow> (int list \<Rightarrow> 'v) \<Rightarrow> bool" where
  "tile_held max_dim s i content A \<longleftrightarrow>
     (\<exists>box. ComputeTileBounds max_dim i s = ret box \<and>
        (\<forall>p. array_point s p \<longrightarrow> in_rect box p \<longrightarrow> content p = A p))"

lemma after_copies_simps [simp]:
  "after_copies [] mem = mem" "after_copies (c # cs) mem = after_copies cs (perform c mem)"
  by (simp_all add: after_copies_def)

lemma after_copies_other: "(\<And>b s d. (b, s, d) \<in> set cs \<Longrightarrow> d \<noteq> i) \<Longrightarrow> after_copies cs mem i = mem i"
proof (induction cs arbitrary: mem)
  case (Cons c cs)
  obtain b s d where c: "c = (b, s, d)" by (cases c)
  have "after_copies cs (perform c mem) i = perform c mem i" using Cons.prems by (intro Cons.IH) auto
  then show ?case using Cons.prems[of b s d] by (simp add: c)
qed simp

lemma after_copies_value:
  assumes "\<And>b s d. (b, s, d) \<in> set cs \<Longrightarrow> s \<notin> D \<and> d \<in> D"
    and "\<And>b s. (b, s, i) \<in> set cs \<Longrightarrow> in_rect b p \<Longrightarrow> mem s p = x"
    and "mem i p = x \<or> (\<exists>b s. (b, s, i) \<in> set cs \<and> in_rect b p)"
  shows "after_copies cs mem i p = x"
  using assms
proof (induction cs arbitrary: mem)
  case (Cons c cs)
  obtain b s d where c: "c = (b, s, d)" by (cases c)
  have sd: "s \<notin> D" "d \<in> D" using Cons.prems(1)[of b s d] by (simp_all add: c)
  have "perform c mem s' = mem s'" if "s' \<notin> D" for s' using that sd(2) by (auto simp: c)
  then have old: "perform c mem s' p = mem s' p" if "(b', s', i) \<in> set cs" for b' s'
    using Cons.prems(1)[of b' s' i] that by simp
  have "after_copies cs (perform c mem) i p = x"
  proof (rule Cons.IH)
    show "s' \<notin> D \<and> d' \<in> D" if "(b', s', d') \<in> set cs" for b' s' d'
      using Cons.prems(1)[of b' s' d'] that by simp
    show "perform c mem s' p = x" if "(b', s', i) \<in> set cs" "in_rect b' p" for b' s'
      using Cons.prems(2)[of b' s'] old that by simp
    show "perform c mem i p = x \<or> (\<exists>b s. (b, s, i) \<in> set cs \<and> in_rect b p)"
      using Cons.prems(2)[of b s] Cons.prems(3) by (auto simp: c)
  qed
  then show ?case by simp
qed simp

text \<open>
  The boxes of a plan, copied in any order, carry the array: the target tiles hold what the source tiles hold.
\<close>

context transfer_plan
begin

lemma carries_array:
  fixes S D :: "int \<Rightarrow> 'i"
  assumes able: "able max_dim src dst"
    and cs: "set cs = {(b, S s, D d) | b s d. is_shard src s \<and> (d, b) \<in> set (sends max_dim src dst s)}"
    and apart: "\<And>s d. is_shard src s \<Longrightarrow> is_shard dst d \<Longrightarrow> S s \<noteq> D d"
    and held: "\<And>s. is_shard src s \<Longrightarrow> tile_held max_dim src s (mem (S s)) A"
    and d: "is_shard dst d"
  shows "tile_held max_dim dst d (after_copies cs mem (D d)) A"
proof -
  note w = well_formed[OF able]
  have box: "ComputeTileBounds max_dim d dst = ret (tile_box d dst)"
    using ComputeTileBounds_ok[of dst d max_dim] w d by (auto simp: is_shard_def)
  have source: "mem (S s) p = A p" if "is_shard src s" "array_point src p" "in_rect (tile_box s src) p" for s p
    using held[OF that(1)] that w ComputeTileBounds_ok[of src s max_dim] by (auto simp: is_shard_def tile_held_def)
  have "after_copies cs mem (D d) p = A p" if p: "array_point dst p" "in_rect (tile_box d dst) p" for p
  proof (rule after_copies_value[where D = "D ` Collect (is_shard dst)"])
    have ps: "array_point src p" using w p(1) by blast
    show "s' \<notin> D ` Collect (is_shard dst) \<and> d' \<in> D ` Collect (is_shard dst)"
      if copy: "(b, s', d') \<in> set cs" for b s' d'
    proof -
      obtain s e where e: "s' = S s" "d' = D e" "is_shard src s" "(e, b) \<in> set (sends max_dim src dst s)"
        using copy unfolding cs by blast
      have "is_shard dst e" by (rule send_target[OF able e(3,4)])
      then show ?thesis using e apart[OF e(3)] by auto
    qed
    show "mem s' p = A p" if c: "(b, s', D d) \<in> set cs" and b: "in_rect b p" for b s'
    proof -
      obtain s e where e: "s' = S s" "is_shard src s" "(e, b) \<in> set (sends max_dim src dst s)"
        using c unfolding cs by blast
      have t: "is_shard dst e" by (rule send_target[OF able e(2,3)])
      have "(s, b) \<in> set (receives max_dim src dst e)" using agree[OF able e(2) t] e(3) by blast
      from available[OF able t this ps b] show ?thesis using source[OF e(2) ps] e(1) by simp
    qed
    obtain s b where sb: "(s, b) \<in> set (receives max_dim src dst d)" "in_rect b p"
      using covered[OF able d p] by blast
    have s: "is_shard src s" by (rule receive_source[OF able d sb(1)])
    have "(d, b) \<in> set (sends max_dim src dst s)" using agree[OF able s d] sb(1) by blast
    then have "(b, S s, D d) \<in> set cs" unfolding cs using s by blast
    then show "mem (D d) p = A p \<or> (\<exists>b s. (b, s, D d) \<in> set cs \<and> in_rect b p)" using sb(2) by blast
  qed
  then show ?thesis using box by (auto simp: tile_held_def)
qed

end

end
