(* ===== verification/Plan_Config.thy ===== *)
theory Plan_Config
  imports Array_Plan
begin

text \<open>
  The configurations that \<open>DetermineShardingConfig\<close> computes on a device are the device's part of the plan
  of \<open>Array_Plan\<close>.
\<close>

section \<open>The decision\<close>

lemma dim_eq_iff [simp]: "dim_eq a b \<longleftrightarrow> a = b"
  by (cases a, cases b) (auto simp: dim_eq_def)

lemma list_all2_dim_eq [simp]: "list_all2 dim_eq xs ys \<longleftrightarrow> xs = ys"
  by (simp add: list_all2_conv_all_nth list_eq_iff_nth_eq)

text \<open>What is left of the decision when the classes of the two shardings are known.\<close>

lemma decision:
  assumes "sharding_ok src" and "sharding_ok dst"
  shows "DetermineShardingConfig max_dim p src dst =
    (if tiles src = dl_size (sh_devices src) \<and> tiles dst = 1
     then Some (andThen (GetGatherShardsConfig max_dim p src dst) (\<lambda>c. ret (GatherShardsC c)))
     else if tiles dst = dl_size (sh_devices dst) \<and> tiles src = 1
     then Some (ret (ScatterShardsC (GetScatterShardsConfig p src dst)))
     else if tiles src = 1 \<and> tiles dst = 1 then DetermineShardingConfigFullyReplicated p src dst
     else if 1 < tiles src \<and> tiles dst = 1 then Some (DeterminePartialToReplicatedConfig max_dim p src dst)
     else if length (sh_dims src) \<noteq> length (sh_dims dst) then Some (ret UnsupportedConfig)
     else if dl_size (sh_devices src) = dl_size (sh_devices dst) \<and> sh_dims src = sh_dims dst
     then Some (ret PointToPointConfig)
     else Some (DetermineScatterGatherConfig max_dim p src dst))"
  using tiles_le_devices[OF assms(1)]
  by (simp add: DetermineShardingConfig_def sharding_class_ok[OF assms(1)] sharding_class_ok[OF assms(2)]
      both_hold_def if_config_def DetermineShardingConfigReplicationChange_def)

section \<open>Gathering shards\<close>

lemma gather_config:
  assumes able: "plan_able max_dim src dst" and family: "plan_family src dst = Gather_All"
  shows "DetermineShardingConfig max_dim p src dst = Some (ret (GatherShardsC
    \<lparr>gs_src_shard = dl_shard_id (sh_devices src) (global_id p),
     gs_dst_shard = dl_shard_id (sh_devices dst) (global_id p),
     source_to_target_bounds = map_option (gather_piece src) (dl_shard_id (sh_devices src) (global_id p)),
     target_from_source_bounds = map (gather_piece src) (upto64 (dl_size (sh_devices src)))\<rparr>))"
proof -
  have g: "gather_able max_dim src dst" using able family by (simp add: plan_able_def)
  then have ext: "same_extent max_dim src dst" by (simp add: gather_able_def)
  note e = same_extentD[OF ext]
  show ?thesis
  proof (cases "tiles src = dl_size (sh_devices src)")
    case True
    then have "gather_piece src = (\<lambda>i. tile_box i src)" by (auto simp: gather_piece_def)
    then show ?thesis using True g
      by (simp add: decision[OF e(1,2)] GetGatherShardsConfig_ok[OF e(1,3)] gather_able_def)
  next
    case False
    then have cut: "can_cut src" "1 < tiles src" "tiles dst = 1" using g by (auto simp: gather_able_def)
    have few: "tiles src < dl_size (sh_devices src)" using False tiles_le_devices[OF e(1)] by simp
    note repl = partially_replicated[OF e(1) few]
    have first: "first_slice_dim (dim_sharding (sh_dims src ! repl_index (sh_dims src))) 0 (sh_dims src) =
        Some (length (real_dims (take (cut_index (replication src) (sh_dims src)) (sh_dims src))))"
      using first_slice_dim_cut[of "replication src" "sh_dims src" 0] cut(1) by (simp add: can_cut_def repl(3))
    have "gather_piece src =
        replica_slice src (repl_index (sh_dims src)) (cut_index (replication src) (sh_dims src))"
      using False by (auto simp: gather_piece_def)
    then show ?thesis using False cut few
      by (simp add: decision[OF e(1,2)] partial_config_ok[OF cut_ok[OF e(1) few cut(1)] e(3) first])
  qed
qed

section \<open>Scattering shards, and shard to shard\<close>

lemma spread_config:
  assumes able: "plan_able max_dim src dst" and family: "plan_family src dst = Scatter_All"
  shows "DetermineShardingConfig max_dim p src dst = Some (ret (ScatterShardsC (GetScatterShardsConfig p src dst)))"
proof -
  have "spread_able max_dim src dst" using able family by (simp add: plan_able_def)
  then have "same_extent max_dim src dst" by (simp add: spread_able_def)
  note e = same_extentD[OF this]
  show ?thesis using family by (auto simp: decision[OF e(1,2)] plan_family_def split: if_splits)
qed

lemma pairs_config:
  assumes able: "plan_able max_dim src dst" and family: "plan_family src dst = Pairwise"
  shows "DetermineShardingConfig max_dim p src dst = Some (ret PointToPointConfig) \<and>
      (\<forall>s. dl_shard_id (sh_devices src) (global_id p) = Some s \<longrightarrow> s < dl_size (sh_devices dst)) \<or>
    DetermineShardingConfig max_dim p src dst = Some (ret NoOpConfig) \<and>
      dl_shard_id (sh_devices dst) (global_id p) = None \<and>
      (\<forall>s. dl_shard_id (sh_devices src) (global_id p) = Some s \<longrightarrow> \<not> s < dl_size (sh_devices dst))"
proof -
  have pairs: "pairs_able max_dim src dst" using able family by (simp add: plan_able_def)
  then have "same_extent max_dim src dst" by (simp add: pairs_able_def)
  note e = same_extentD[OF this]
  show ?thesis
  proof (cases "tiles src = 1 \<and> tiles dst = 1")
    case True
    then have choice: "DetermineShardingConfig max_dim p src dst = DetermineShardingConfigFullyReplicated p src dst"
      using family by (auto simp: decision[OF e(1,2)] plan_family_def split: if_splits)
    have "s < dl_size (sh_devices dst)"
      if s: "dl_shard_id (sh_devices src) (global_id p) = Some s" and d: "dl_contains (sh_devices dst) (global_id p)" for s
    proof -
      have "s \<in> set (upto64 (dl_size (sh_devices src)))" and g: "global_id p = dl_index (sh_devices src) s"
        using s by (auto simp: dl_shard_id_iff)
      then have "s < dl_size (sh_devices dst) \<or> \<not> dl_contains (sh_devices dst) (dl_index (sh_devices src) s)"
        using pairs True by (simp add: pairs_able_def list_all_iff)
      then show ?thesis using d g by simp
    qed
    moreover have "dl_size (sh_devices dst) \<le> dl_size (sh_devices src)" using pairs True by (simp add: pairs_able_def)
    ultimately show ?thesis using family
      by (auto simp: choice DetermineShardingConfigFullyReplicated_def Let_def dl_shard_id_def)
  next
    case False
    then have "DetermineShardingConfig max_dim p src dst = Some (ret PointToPointConfig)"
      using family by (auto simp: decision[OF e(1,2)] plan_family_def split: if_splits)
    then show ?thesis using False pairs by (auto simp: pairs_able_def dl_shard_id_iff)
  qed
qed

section \<open>Scatter and gather along a dimension\<close>

definition slices_from :: "int \<Rightarrow> part list \<Rightarrow> slice_config list" where
  "slices_from s = map (\<lambda>(d, b). \<lparr>slc_src = s, slc_dst = d, slc_bounds = b\<rparr>)"

definition slices_to :: "int \<Rightarrow> part list \<Rightarrow> slice_config list" where
  "slices_to d = map (\<lambda>(s, b). \<lparr>slc_src = s, slc_dst = d, slc_bounds = b\<rparr>)"

lemma slices_of_parts:
  "map gather_slice (fine_slices f c dim (sg_factor f c dim) r) = slices_from r (fine_parts f c dim r)"
  "map gather_slice (coarse_slices f c dim (sg_factor f c dim) q) = slices_to q (coarse_parts f c dim q)"
  "map scatter_slice (coarse_slices f c dim (sg_factor f c dim) q) = slices_from q (coarse_parts f c dim q)"
  "map scatter_slice (fine_slices f c dim (sg_factor f c dim) r) = slices_to r (fine_parts f c dim r)"
  by (simp_all add: fine_slices_def coarse_slices_def fine_parts_def coarse_parts_def slices_from_def slices_to_def
      gather_slice_def scatter_slice_def)

lemma along_differ:
  assumes "along_able max_dim src dst"
  shows "sg_dim src dst < length (sh_dims src)" and "length (sh_dims dst) = length (sh_dims src)"
    and "i < length (sh_dims src) \<Longrightarrow> sh_dims src ! i = sh_dims dst ! i \<longleftrightarrow> i \<noteq> sg_dim src dst"
proof -
  let ?dim = "sg_dim src dst"
  have "?dim < length (sh_dims src) \<and> length (sh_dims dst) = length (sh_dims src) \<and>
      (i < length (sh_dims src) \<longrightarrow> (sh_dims src ! i = sh_dims dst ! i \<longleftrightarrow> i \<noteq> ?dim))" for i
    using assms
  proof (cases rule: along_cases)
    case gather
    note r = refines_dimD[OF sg_okD(6)[OF gather(2)]] and n = sg_counts(2)[OF gather(2)]
    then show ?thesis by (cases "i = ?dim") auto
  next
    case scatter
    note r = refines_dimD[OF sg_okD(6)[OF scatter(2)]] and n = sg_counts(2)[OF scatter(2)]
    then show ?thesis by (cases "i = ?dim") auto
  qed
  then show "?dim < length (sh_dims src)" "length (sh_dims dst) = length (sh_dims src)"
    "i < length (sh_dims src) \<Longrightarrow> sh_dims src ! i = sh_dims dst ! i \<longleftrightarrow> i \<noteq> ?dim" by blast+
qed

lemma differing_dim:
  assumes "along_able max_dim src dst"
  shows "foldR (\<lambda>(num_dims_different, last_dim_different) dim.
            andThen (vec_at (sh_dims src) dim) (\<lambda>sd.
            andThen (vec_at (sh_dims dst) dim) (\<lambda>dd.
            if \<not> dim_eq sd dd then ret (num_dims_different + 1, dim)
            else ret (num_dims_different, last_dim_different))))
          (0 :: int, - 1) (upto64 (size_of (sh_dims src))) = ret (1, int (sg_dim src dst))"
proof -
  note d = along_differ[OF assms]
  let ?I = "\<lambda>k (st :: int \<times> int). st = (if sg_dim src dst < k then (1, int (sg_dim src dst)) else (0, - 1))"
  have "\<exists>st. foldR (\<lambda>(num_dims_different, last_dim_different) dim.
            andThen (vec_at (sh_dims src) dim) (\<lambda>sd.
            andThen (vec_at (sh_dims dst) dim) (\<lambda>dd.
            if \<not> dim_eq sd dd then ret (num_dims_different + 1, dim)
            else ret (num_dims_different, last_dim_different))))
          (0 :: int, - 1) (upto64 (int (length (sh_dims src)))) = ret st \<and> ?I (length (sh_dims src)) st"
    by (rule foldR_upto64[where I = ?I]) (use d in \<open>auto simp: vec_at_nth less_Suc_eq\<close>)
  then show ?thesis using d(1) by (auto simp: size_of_def)
qed

lemma along_config:
  assumes able: "plan_able max_dim src dst" and family: "plan_family src dst = Scatter_Gather_Dim"
  shows "DetermineShardingConfig max_dim p src dst = Some (ret (ScatterGatherC
    \<lparr>from_source = (case dl_shard_id (sh_devices src) (global_id p) of None \<Rightarrow> []
        | Some s \<Rightarrow> slices_from s (plan_send max_dim src dst s)),
     to_target = (case dl_shard_id (sh_devices dst) (global_id p) of None \<Rightarrow> []
        | Some d \<Rightarrow> slices_to d (plan_receive max_dim src dst d))\<rparr>))"
proof -
  have along: "along_able max_dim src dst" using able family by (simp add: plan_able_def)
  then have "same_extent max_dim src dst" by (simp add: along_able_def)
  note e = same_extentD[OF this] and d = along_differ[OF along]
  let ?s = "dl_shard_id (sh_devices src) (global_id p)" and ?d = "dl_shard_id (sh_devices dst) (global_id p)"
  have roles: "role_ok (sh_devices src) ?s" "role_ok (sh_devices dst) ?d"
    by (auto simp: role_ok_def dest: shard_range split: option.splits)
  have choice: "DetermineShardingConfig max_dim p src dst = Some (DetermineScatterGatherConfig max_dim p src dst)"
    using family by (auto simp: decision[OF e(1,2)] plan_family_def split: if_splits)
  have "DetermineScatterGatherConfig max_dim p src dst =
      andThen (GetScatterGatherConfig max_dim (int (sg_dim src dst)) ?s ?d src dst) (\<lambda>c. ret (ScatterGatherC c))"
    unfolding DetermineScatterGatherConfig_def differing_dim[OF along] by (simp add: dl_shard_id_def)
  moreover have "GetScatterGatherConfig max_dim (int (sg_dim src dst)) ?s ?d src dst = ret
    \<lparr>from_source = (case ?s of None \<Rightarrow> [] | Some s \<Rightarrow> slices_from s (along_send max_dim src dst s)),
     to_target = (case ?d of None \<Rightarrow> [] | Some d \<Rightarrow> slices_to d (along_receive max_dim src dst d))\<rparr>"
    using along
  proof (cases rule: along_cases)
    case gather
    then show ?thesis using GetScatterGatherConfig_gather[OF gather(2) roles]
      by (simp add: role_slices_def along_send_def along_receive_def Let_def slices_of_parts split: option.splits)
  next
    case scatter
    then show ?thesis using GetScatterGatherConfig_scatter[OF scatter(2) roles]
      by (simp add: role_slices_def along_send_def along_receive_def Let_def slices_of_parts split: option.splits)
  qed
  moreover have "plan_send max_dim src dst = along_send max_dim src dst"
    "plan_receive max_dim src dst = along_receive max_dim src dst"
    using family by (simp_all add: plan_defs)
  ultimately show ?thesis using choice by (simp cong: option.case_cong)
qed

end
