(* ===== verification/Array_Ledger.thy ===== *)
theory Array_Ledger
  imports Plan_Config Reshard_Safety
begin

text \<open>
  The book-keeping of a reshard on one process: which ends have called \<open>ReshardFromLocalSource\<close> and
  \<open>ReshardToLocalTarget\<close> of \<open>src/zuku/reshard_manager.cc\<close> for which key, and that the manager's queues and the
  copies issued follow from that. A device's loops over its part of a plan (\<open>Array_Plan\<close>) add its shard.
\<close>

section \<open>Copies with their boxes\<close>

definition rect_copies :: "trace \<Rightarrow> inst copy list" where
  "rect_copies tr = concat (map (\<lambda>(c, e). case c of RectCopy b n s d pre \<Rightarrow> [(b, s, d)] | _ \<Rightarrow> []) tr)"

lemma rect_copies_simps [simp]:
  "rect_copies [] = []" "rect_copies (tr @ tr') = rect_copies tr @ rect_copies tr'"
  "rect_copies ((c, e) # tr) = (case c of RectCopy b n s d pre \<Rightarrow> [(b, s, d)] | _ \<Rightarrow> []) @ rect_copies tr"
  by (simp_all add: rect_copies_def)

lemma rect_copies_none: "rect_copies tr = [] \<longleftrightarrow> copies_in tr = []"
proof -
  have "map snd (rect_copies tr) = map (\<lambda>(s, d, c). (s, d)) (copies_in tr)"
    unfolding rect_copies_def copies_in_def
    by (induction tr) (auto split: realm_call.split)
  then show ?thesis by (metis map_is_Nil_conv)
qed

section \<open>The ledger of a reshard\<close>

text \<open>
  While a reshard is under way: for each key the box, the two instances, and whether the source's call and the
  target's call have been made. The manager's queues and the copies so far are a function of that.
\<close>

record ledger =
  lg_keys :: "reshard_key set"
  lg_box :: "reshard_key \<Rightarrow> rect"
  lg_src :: "reshard_key \<Rightarrow> inst"
  lg_dst :: "reshard_key \<Rightarrow> inst"

definition queues_ok ::
  "ledger \<Rightarrow> (reshard_key \<Rightarrow> event) \<Rightarrow> (reshard_key \<Rightarrow> event) \<Rightarrow> reshard_key set \<Rightarrow> reshard_key set \<Rightarrow>
   reshard_key \<Rightarrow> p2p \<Rightarrow> bool" where
  "queues_ok l pre post S R k r \<longleftrightarrow> ack_done_barrier r = NO_EVENT \<and>
     (p2p_exists r \<longrightarrow> p2p_shape r = Some (lg_box l k)) \<and>
     map op_instance (pending_source r) = (if k \<in> S \<and> k \<notin> R then [lg_src l k] else []) \<and>
     map op_instance (pending_dest r) = (if k \<in> R \<and> k \<notin> S then [lg_dst l k] else []) \<and>
     (\<forall>op \<in> set (pending_source r) \<union> set (pending_dest r). op_postcondition op \<noteq> NO_EVENT) \<and>
     (\<forall>op \<in> set (pending_source r). op_precondition op = pre k) \<and>
     (\<forall>op \<in> set (pending_dest r). op_postcondition op = post k)"

definition entry :: "ledger \<Rightarrow> reshard_key \<Rightarrow> inst copy" where
  "entry l k = (lg_box l k, lg_src l k, lg_dst l k)"

text \<open>
  The order: \<open>pre\<close> is what each source's call waits for and \<open>post\<close> the event each target's call got; a copy
  comes after the one and is followed by the other.
\<close>

definition timed ::
  "ledger \<Rightarrow> (reshard_key \<Rightarrow> event) \<Rightarrow> (reshard_key \<Rightarrow> event) \<Rightarrow> reshard_key set \<Rightarrow> trace \<Rightarrow> trace \<Rightarrow> bool" where
  "timed l pre post K calls tr \<longleftrightarrow> (\<forall>b n s d p c. (RectCopy b n s d p, c) \<in> set calls \<longrightarrow>
     (\<exists>k \<in> K. entry l k = (b, s, d) \<and> depends tr p (pre k) \<and> depends tr (post k) c))"

definition ordered ::
  "ledger \<Rightarrow> (reshard_key \<Rightarrow> event) \<Rightarrow> (reshard_key \<Rightarrow> event) \<Rightarrow> trace \<Rightarrow> reshard_key set \<Rightarrow> reshard_key set \<Rightarrow>
   reshard_manager \<Rightarrow> trace \<Rightarrow> bool" where
  "ordered l pre post tr0 S R mgr tr \<longleftrightarrow> (\<forall>k \<in> lg_keys l. queues_ok l pre post S R k (mgr k)) \<and>
     (\<exists>calls. tr = tr0 @ calls \<and> set (rect_copies calls) = entry l ` (S \<inter> R) \<and>
       timed l pre post (S \<inter> R) calls tr)"

definition booked ::
  "ledger \<Rightarrow> trace \<Rightarrow> reshard_key set \<Rightarrow> reshard_key set \<Rightarrow> reshard_manager \<Rightarrow> trace \<Rightarrow> bool" where
  "booked l tr0 S R mgr tr \<longleftrightarrow> (\<exists>pre post. ordered l pre post tr0 S R mgr tr)"

lemma in_rect_copies: "(RectCopy b n s d p, c) \<in> set calls \<Longrightarrow> (b, s, d) \<in> set (rect_copies calls)"
  by (force simp: rect_copies_def)

lemma timed_more:
  assumes "timed l pre post K calls tr" and "extends tr' tr" and "K \<subseteq> K'"
    and "\<forall>k \<in> K. pre' k = pre k \<and> post' k = post k" and "timed l pre' post' K' extra tr'"
  shows "timed l pre' post' K' (calls @ extra) tr'"
proof -
  have "\<exists>k \<in> K'. entry l k = (b, s, d) \<and> depends tr' p (pre' k) \<and> depends tr' (post' k) c"
    if new: "(RectCopy b n s d p, c) \<in> set calls" for b n s d p c
  proof -
    obtain k where "k \<in> K" "entry l k = (b, s, d)" "depends tr p (pre k)" "depends tr (post k) c"
      using assms(1) new unfolding timed_def by blast
    then show ?thesis using assms(3,4) depends_extends[OF assms(2)] by (intro bexI[of _ k]) auto
  qed
  then show ?thesis using assms(5) unfolding timed_def set_append by blast
qed

lemma timed_none: "rect_copies calls = [] \<Longrightarrow> timed l pre post K calls tr"
  using in_rect_copies unfolding timed_def by (metis empty_iff list.set(1))

lemma timed_one:
  assumes "k \<in> K" and "\<forall>b n s d p c'. (RectCopy b n s d p, c') \<in> set calls \<longrightarrow>
      (b, s, d) = entry l k \<and> p = at \<and> c' = c"
    and "depends tr at (pre k)" and "depends tr (post k) c"
  shows "timed l pre post K calls tr"
  using assms unfolding timed_def by metis

lemma ordered_quiet: "ordered l pre post tr0 S R mgr tr \<Longrightarrow> quiet tr tr' \<Longrightarrow> ordered l pre post tr0 S R mgr tr'"
proof -
  assume o: "ordered l pre post tr0 S R mgr tr" and q: "quiet tr tr'"
  then obtain calls more where c: "tr = tr0 @ calls" "set (rect_copies calls) = entry l ` (S \<inter> R)"
      "timed l pre post (S \<inter> R) calls tr" and m: "tr' = tr @ more" "rect_copies more = []"
    using rect_copies_none by (auto simp: ordered_def quiet_def)
  have "timed l pre post (S \<inter> R) (calls @ more) tr'"
    using timed_more[OF c(3) _ subset_refl _ timed_none[OF m(2)]] m(1) by simp
  then show ?thesis using o c m by (auto simp: ordered_def)
qed

lemma booked_quiet: "booked l tr0 S R mgr tr \<Longrightarrow> quiet tr tr' \<Longrightarrow> booked l tr0 S R mgr tr'"
  unfolding booked_def using ordered_quiet by blast

text \<open>A manager with nothing waiting on the keys of a ledger; boxes it remembers are the ledger's.\<close>

definition idle_on :: "ledger \<Rightarrow> reshard_manager \<Rightarrow> bool" where
  "idle_on l mgr \<longleftrightarrow> (\<forall>k \<in> lg_keys l. ack_done_barrier (mgr k) = NO_EVENT \<and>
     pending_source (mgr k) = [] \<and> pending_dest (mgr k) = [] \<and>
     (p2p_exists (mgr k) \<longrightarrow> p2p_shape (mgr k) = Some (lg_box l k)))"

lemma idle_start: "idle_on l mgr \<Longrightarrow> ordered l pre post tr {} {} mgr tr"
  by (simp add: idle_on_def ordered_def timed_def queues_ok_def)

lemma idle_end:
  assumes "ordered l pre post tr0 S R mgr tr" and "lg_keys l \<subseteq> S \<inter> R"
  shows "idle_on l mgr"
proof -
  have "ack_done_barrier (mgr k) = NO_EVENT \<and> pending_source (mgr k) = [] \<and> pending_dest (mgr k) = [] \<and>
      (p2p_exists (mgr k) \<longrightarrow> p2p_shape (mgr k) = Some (lg_box l k))" if k: "k \<in> lg_keys l" for k
  proof -
    have "queues_ok l pre post S R k (mgr k)" "k \<in> S" "k \<in> R" using assms k by (auto simp: ordered_def)
    then show ?thesis by (simp add: queues_ok_def)
  qed
  then show ?thesis by (simp add: idle_on_def)
qed

lemma first_use_box:
  assumes "\<exists>n. name = ret n" and "p2p_exists r0 \<longrightarrow> p2p_shape r0 = Some shape"
  obtains r where "first_use shape type name r0 = ret r" and "same_queues r r0" and "p2p_shape r = Some shape"
  using assms by (cases "p2p_exists r0") (auto simp: first_use_def same_queues_def)

text \<open>The copy that either end issues, and the event it triggers.\<close>

lemma issue_logged:
  assumes "merge2 rl a b w = (pre, w1)" and "IssueCopy rl box n s d pre w1 = (c, w2)"
  shows "\<exists>more. trace_of (command rl (TriggerEvent u c) w2) = trace_of w @ more \<and> rect_copies more = [(box, s, d)] \<and>
    (\<forall>b' n' s' d' p c'. (RectCopy b' n' s' d' p, c') \<in> set more \<longrightarrow> (b', s', d') = (box, s, d) \<and> p = pre \<and> c' = c) \<and>
    depends (trace_of (command rl (TriggerEvent u c) w2)) pre a \<and>
    depends (trace_of (command rl (TriggerEvent u c) w2)) pre b \<and>
    depends (trace_of (command rl (TriggerEvent u c) w2)) u c"
proof -
  let ?more = "[(MergeEvents [a, b], pre), (RectCopy box n s d pre, c), (TriggerEvent u c, rl (trace_of w2) (TriggerEvent u c))]"
  have "trace_of (command rl (TriggerEvent u c) w2) = trace_of w @ ?more"
    using assms by (auto simp: merge2_def IssueCopy_def invoke_def command_def)
  moreover have "depends (trace_of w @ ?more) pre a" "depends (trace_of w @ ?more) pre b"
    "depends (trace_of w @ ?more) u c"
    by (intro depends_edge, simp add: waits_def)+
  ultimately show ?thesis by (intro exI[of _ ?more]) simp
qed

lemma source_ordered:
  fixes w :: "'z runtime_scheme"
  assumes b: "ordered l pre post tr0 S R mgr (trace_of w)" and key: "key \<in> lg_keys l" "key \<notin> S"
    and ok: "source_ok m t key False p src dst" and inst: "tile_instance (view_get src) = lg_src l key"
    and user: "user_events_exist rl"
  shows "\<exists>e mgr' (w' :: 'z runtime_scheme).
    ReshardFromLocalSource rl m t p (lg_box l key) key src dst mgr w = ret (e, mgr', w') \<and>
    ordered l (pre(key := view_Precondition src)) post tr0 (insert key S) R mgr' (trace_of w') \<and>
    extends (trace_of w') (trace_of w)"
proof -
  let ?pre = "pre(key := view_Precondition src)"
  obtain sa tile host where s: "view_get src = ret sa" "sa_tile sa = Some tile" "HasName dst \<longrightarrow> HasName sa"
    "HostForShard m t dst (key_dst_shard key) = ret host" "space_of m (pr_proc p) = space_of m host"
    using ok by (auto simp: source_ok_def)
  have q: "queues_ok l pre post S R key (mgr key)" using b key by (simp add: ordered_def)
  obtain calls where calls: "trace_of w = tr0 @ calls" "set (rect_copies calls) = entry l ` (S \<inter> R)"
      "timed l pre post (S \<inter> R) calls (trace_of w)"
    using b by (auto simp: ordered_def)
  have others: "queues_ok l ?pre post (insert key S) R k (mgr k)" if "k \<in> lg_keys l" "k \<noteq> key" for k
    using b that by (simp add: ordered_def queues_ok_def)
  have same: "\<forall>k \<in> S \<inter> R. ?pre k = pre k \<and> post k = post k" using key(2) by auto
  have "\<exists>n. ReshardName sa dst = ret n" using s(2,3) by (intro ReshardName_ok) (auto simp: HasTile_def)
  then obtain r where r: "first_use (lg_box l key) (shp_type (sa_shape sa)) (ReshardName sa dst) (mgr key) = ret r"
    "same_queues r (mgr key)" "p2p_shape r = Some (lg_box l key)"
    using first_use_box[where ?r0.0 = "mgr key"] q unfolding queues_ok_def by metis
  have tile: "array_tile_of sa = ret tile" "at_instance tile = lg_src l key"
    using s(1,2) inst by (simp_all add: array_tile_of_def tile_instance_def)
  have eq: "ReshardFromLocalSource rl m t p (lg_box l key) key src dst mgr w =
      andThen (source_pair rl False (lg_src l key) (view_Precondition src) r w)
        (\<lambda>(e, r2, w2). ret (e, mgr(key := r2), w2))"
    using s r(1) tile
    by (simp add: ReshardFromLocalSource_def RendezvousReshardFromLocalSource_def send_ack_barrier_def)
  show ?thesis
  proof (cases "key \<in> R")
    case False
    then have none: "pending_dest r = []" "pending_source r = []"
      using q r(2) key(2) by (auto simp: queues_ok_def same_queues_def)
    obtain u w1 where u: "invoke rl CreateUserEvent w = (u, w1)" by fastforce
    then have t1: "trace_of w1 = trace_of w @ [(CreateUserEvent, u)]" "u \<noteq> NO_EVENT"
      using user by (auto simp: invoke_def user_events_exist_def)
    let ?r = "r\<lparr>pending_source := [\<lparr>op_precondition = view_Precondition src, op_postcondition = u,
      op_instance = lg_src l key\<rparr>]\<rparr>"
    have "queues_ok l ?pre post (insert key S) R key ?r"
      using q r(2,3) none False t1(2) by (auto simp: queues_ok_def same_queues_def)
    moreover have K: "insert key S \<inter> R = S \<inter> R" using False by auto
    moreover have "timed l ?pre post (S \<inter> R) (calls @ [(CreateUserEvent, u)]) (trace_of w1)"
      by (rule timed_more[OF calls(3) _ subset_refl same timed_none]) (simp_all add: t1(1))
    ultimately have "ordered l ?pre post tr0 (insert key S) R (mgr(key := ?r)) (trace_of w1)"
      using others calls(1,2) t1(1) by (simp add: ordered_def)
    moreover have "ReshardFromLocalSource rl m t p (lg_box l key) key src dst mgr w = ret (u, mgr(key := ?r), w1)"
      using eq none u by (simp add: source_pair_def)
    ultimately show ?thesis using t1(1) by auto
  next
    case True
    then obtain op where op: "pending_dest r = [op]" "op_instance op = lg_dst l key" "op_postcondition op = post key"
      using q r(2) key(2) by (auto simp: queues_ok_def same_queues_def)
    have none: "pending_source r = []" using q r(2) key(2) by (auto simp: queues_ok_def same_queues_def)
    obtain c1 w1 where m1: "merge2 rl (op_precondition op) (view_Precondition src) w = (c1, w1)" by fastforce
    obtain c w2 where m2: "IssueCopy rl (lg_box l key) (p2p_field_size r) (lg_src l key) (lg_dst l key) c1 w1 = (c, w2)"
      by fastforce
    let ?w3 = "command rl (TriggerEvent (op_postcondition op) c) w2" and ?r = "r\<lparr>pending_dest := []\<rparr>"
    obtain more where more: "trace_of ?w3 = trace_of w @ more" "rect_copies more = [entry l key]"
      "\<forall>b n s d p c'. (RectCopy b n s d p, c') \<in> set more \<longrightarrow> (b, s, d) = entry l key \<and> p = c1 \<and> c' = c"
      "depends (trace_of ?w3) c1 (view_Precondition src)" "depends (trace_of ?w3) (post key) c"
      using issue_logged[OF m1 m2, of "op_postcondition op", folded entry_def] op(3) by auto
    have "queues_ok l ?pre post (insert key S) R key ?r"
      using q r(2,3) none True op(1) by (auto simp: queues_ok_def same_queues_def)
    moreover have "entry l ` (insert key S \<inter> R) = insert (entry l key) (entry l ` (S \<inter> R))" using True by auto
    moreover have "timed l ?pre post (insert key S \<inter> R) more (trace_of ?w3)"
      by (rule timed_one[OF _ more(3)]) (simp_all add: True more(4,5) del: trace_command)
    then have "timed l ?pre post (insert key S \<inter> R) (calls @ more) (trace_of ?w3)"
      by (intro timed_more[OF calls(3) _ _ same]) (auto simp: fun_upd_def more(1) simp del: trace_command)
    ultimately have "ordered l ?pre post tr0 (insert key S) R (mgr(key := ?r)) (trace_of ?w3)"
      using others calls(1,2) more(1,2) by (simp add: ordered_def)
    moreover have "ack_done_barrier r = NO_EVENT" using q r(2) by (simp add: queues_ok_def same_queues_def)
    then have "ReshardFromLocalSource rl m t p (lg_box l key) key src dst mgr w = ret (c, mgr(key := ?r), ?w3)"
      using eq op r(3) m1 m2 by (simp add: source_pair_def get_shape_def)
    ultimately show ?thesis using more(1) by auto
  qed
qed

lemma target_ordered:
  fixes w :: "'z runtime_scheme"
  assumes b: "ordered l pre post tr0 S R mgr (trace_of w)" and key: "key \<in> lg_keys l" "key \<notin> R"
    and ok: "target_ok m t key False p src dst" and inst: "tile_instance (store_get dst) = lg_dst l key"
    and user: "user_events_exist rl"
  shows "\<exists>e mgr' (w' :: 'z runtime_scheme).
    ReshardToLocalTarget rl m t p (lg_box l key) key src dst mgr w = ret (e, mgr', w') \<and>
    ordered l pre (post(key := e)) tr0 S (insert key R) mgr' (trace_of w') \<and>
    extends (trace_of w') (trace_of w)"
proof -
  obtain da tile host where s: "store_get dst = ret da" "sa_tile da = Some tile" "HasName da \<longrightarrow> HasName src"
    "HostForShard m t src (key_src_shard key) = ret host" "space_of m host = space_of m (pr_proc p)"
    using ok by (auto simp: target_ok_def)
  have q: "queues_ok l pre post S R key (mgr key)" using b key by (simp add: ordered_def)
  obtain calls where calls: "trace_of w = tr0 @ calls" "set (rect_copies calls) = entry l ` (S \<inter> R)"
      "timed l pre post (S \<inter> R) calls (trace_of w)"
    using b by (auto simp: ordered_def)
  have others: "queues_ok l pre (post(key := e)) S (insert key R) k (mgr k)" if "k \<in> lg_keys l" "k \<noteq> key" for k e
    using b that by (simp add: ordered_def queues_ok_def)
  have same: "\<forall>k \<in> S \<inter> R. pre k = pre k \<and> (post(key := e)) k = post k" for e using key(2) by auto
  have "\<exists>n. ReshardName src da = ret n" using s(2,3) by (intro ReshardName_ok) (auto simp: HasTile_def)
  then obtain r where r: "first_use (lg_box l key) (shp_type (sa_shape src)) (ReshardName src da) (mgr key) = ret r"
    "same_queues r (mgr key)" "p2p_shape r = Some (lg_box l key)"
    using first_use_box[where ?r0.0 = "mgr key"] q unfolding queues_ok_def by metis
  have tile: "array_tile_of da = ret tile" "at_instance tile = lg_dst l key"
    using s(1,2) inst by (simp_all add: array_tile_of_def tile_instance_def)
  have ack: "ack_done_barrier r = NO_EVENT" using q r(2) by (simp add: queues_ok_def same_queues_def)
  have none: "pending_dest r = []" using q r(2) key(2) by (auto simp: queues_ok_def same_queues_def)
  show ?thesis
  proof (cases "key \<in> S")
    case False
    then have empty: "pending_source r = []" using q r(2) by (auto simp: queues_ok_def same_queues_def)
    obtain u w1 where u: "invoke rl CreateUserEvent w = (u, w1)" by fastforce
    then have t1: "trace_of w1 = trace_of w @ [(CreateUserEvent, u)]" "u \<noteq> NO_EVENT"
      using user by (auto simp: invoke_def user_events_exist_def)
    obtain ready w2 where ready: "store_Precondition rl dst w1 = (ready, w2)" by fastforce
    then obtain new where new: "trace_of w2 = trace_of w1 @ new" "rect_copies new = []"
      using added_store_Precondition[OF ready] rect_copies_none by (auto simp: added_def)
    let ?r = "r\<lparr>pending_dest := [\<lparr>op_precondition = ready, op_postcondition = u, op_instance = lg_dst l key\<rparr>]\<rparr>"
    have "queues_ok l pre (post(key := u)) S (insert key R) key ?r"
      using q r(2,3) empty False t1(2) by (auto simp: queues_ok_def same_queues_def)
    moreover have "S \<inter> insert key R = S \<inter> R" using False by auto
    moreover have "rect_copies ((CreateUserEvent, u) # new) = []" using new(2) by simp
    then have "timed l pre (post(key := u)) (S \<inter> R) (calls @ (CreateUserEvent, u) # new) (trace_of w2)"
      by (intro timed_more[OF calls(3) _ subset_refl same timed_none]) (simp_all add: t1(1) new(1))
    ultimately have "ordered l pre (post(key := u)) tr0 S (insert key R) (mgr(key := ?r)) (trace_of w2)"
      using others calls(1,2) t1(1) new by (simp add: ordered_def)
    moreover have "ReshardToLocalTarget rl m t p (lg_box l key) key src dst mgr w = ret (u, mgr(key := ?r), w2)"
      using s r(1) tile empty ack none u ready
      by (simp add: ReshardToLocalTarget_def RendezvousReshardToLocalTarget_def target_wait_def)
    ultimately show ?thesis using t1(1) new(1) by auto
  next
    case True
    then obtain op where op: "pending_source r = [op]" "op_instance op = lg_src l key" "op_postcondition op \<noteq> NO_EVENT"
        "op_precondition op = pre key"
      using q r(2) key(2) by (auto simp: queues_ok_def same_queues_def)
    obtain ready w1 where ready: "store_Precondition rl dst w = (ready, w1)" by fastforce
    then obtain new where new: "trace_of w1 = trace_of w @ new" "rect_copies new = []"
      using added_store_Precondition[OF ready] rect_copies_none by (auto simp: added_def)
    obtain c1 w2 where m1: "merge2 rl (op_precondition op) ready w1 = (c1, w2)" by fastforce
    obtain c w3 where m2: "IssueCopy rl (lg_box l key) (p2p_field_size r) (lg_src l key) (lg_dst l key) c1 w2 = (c, w3)"
      by fastforce
    let ?w4 = "command rl (TriggerEvent (op_postcondition op) c) w3" and ?r = "r\<lparr>pending_source := []\<rparr>"
    obtain more where more: "trace_of ?w4 = trace_of w1 @ more" "rect_copies more = [entry l key]"
      "\<forall>b n s d p c'. (RectCopy b n s d p, c') \<in> set more \<longrightarrow> (b, s, d) = entry l key \<and> p = c1 \<and> c' = c"
      "depends (trace_of ?w4) c1 (pre key)"
      using issue_logged[OF m1 m2, of "op_postcondition op", folded entry_def] op(4) by auto
    have "queues_ok l pre (post(key := c)) S (insert key R) key ?r"
      using q r(2,3) none True by (auto simp: queues_ok_def same_queues_def)
    moreover have "entry l ` (S \<inter> insert key R) = insert (entry l key) (entry l ` (S \<inter> R))" using True by auto
    moreover have "timed l pre (post(key := c)) (S \<inter> insert key R) more (trace_of ?w4)"
      by (rule timed_one[OF _ more(3)]) (simp_all add: True more(4) del: trace_command)
    then have "timed l pre (post(key := c)) (S \<inter> insert key R) (new @ more) (trace_of ?w4)"
      using timed_none[OF new(2)] unfolding timed_def set_append by blast
    then have "timed l pre (post(key := c)) (S \<inter> insert key R) (calls @ new @ more) (trace_of ?w4)"
      by (intro timed_more[OF calls(3) _ _ same]) (auto simp: fun_upd_def new(1) more(1) simp del: trace_command)
    ultimately have "ordered l pre (post(key := c)) tr0 S (insert key R) (mgr(key := ?r)) (trace_of ?w4)"
      using others calls(1,2) new more(1,2) by (simp add: ordered_def)
    moreover have "ReshardToLocalTarget rl m t p (lg_box l key) key src dst mgr w = ret (c, mgr(key := ?r), ?w4)"
      using s r(1,3) tile op ready m1 m2
      by (simp add: ReshardToLocalTarget_def RendezvousReshardToLocalTarget_def target_pair_def get_shape_def)
    ultimately show ?thesis using new(1) more(1) by auto
  qed
qed

lemma source_books:
  fixes w :: "'z runtime_scheme"
  assumes "booked l tr0 S R mgr (trace_of w)" and "key \<in> lg_keys l" "key \<notin> S"
    and "source_ok m t key False p src dst" and "tile_instance (view_get src) = lg_src l key"
    and "user_events_exist rl"
  shows "\<exists>e mgr' (w' :: 'z runtime_scheme).
    ReshardFromLocalSource rl m t p (lg_box l key) key src dst mgr w = ret (e, mgr', w') \<and>
    booked l tr0 (insert key S) R mgr' (trace_of w')"
  using assms(1) source_ordered[OF _ assms(2-6)] unfolding booked_def by blast

lemma target_books:
  fixes w :: "'z runtime_scheme"
  assumes "booked l tr0 S R mgr (trace_of w)" and "key \<in> lg_keys l" "key \<notin> R"
    and "target_ok m t key False p src dst" and "tile_instance (store_get dst) = lg_dst l key"
    and "user_events_exist rl"
  shows "\<exists>e mgr' (w' :: 'z runtime_scheme).
    ReshardToLocalTarget rl m t p (lg_box l key) key src dst mgr w = ret (e, mgr', w') \<and>
    booked l tr0 S (insert key R) mgr' (trace_of w')"
  using assms(1) target_ordered[OF _ assms(2-6)] unfolding booked_def by blast

section \<open>Loops over a plan\<close>

lemma send_loop:
  fixes w :: "'z runtime_scheme"
  assumes "booked l tr0 S R mgr (trace_of w)" and "distinct (map fst parts)" and "inj key"
    and "\<And>d b. (d, b) \<in> set parts \<Longrightarrow> key d \<in> lg_keys l \<and> key d \<notin> S \<and> lg_box l (key d) = b \<and>
      source_ok m t (key d) False p v da \<and> tile_instance (view_get v) = lg_src l (key d)"
    and "user_events_exist rl"
  shows "\<exists>E' mgr' (w' :: 'z runtime_scheme).
    foldR (\<lambda>st x. send_slice rl m t p (snd x) (key (fst x)) v da st) (E, mgr, w) parts = ret (E', mgr', w') \<and>
    booked l tr0 (S \<union> key ` fst ` set parts) R mgr' (trace_of w')"
  using assms(1,2,4)
proof (induction parts arbitrary: S E mgr w)
  case (Cons x parts)
  obtain d b where x: "x = (d, b)" by (cases x)
  have k: "key d \<in> lg_keys l" "key d \<notin> S" "lg_box l (key d) = b" "source_ok m t (key d) False p v da"
    "tile_instance (view_get v) = lg_src l (key d)"
    using Cons.prems(3)[of d b] by (simp_all add: x)
  from source_books[OF Cons.prems(1) k(1,2,4,5) assms(5)] obtain e mgr1 and w1 :: "'z runtime_scheme"
    where c: "ReshardFromLocalSource rl m t p b (key d) v da mgr w = ret (e, mgr1, w1)"
      and b1: "booked l tr0 (insert (key d) S) R mgr1 (trace_of w1)"
    unfolding k(3) by blast
  have fresh: "key d' \<noteq> key d" if "(d', b') \<in> set parts" for d' b'
    using Cons.prems(2) that assms(3) by (auto simp: x inj_eq image_iff)
  from Cons.IH[OF b1, of "insert e E"] obtain E' mgr' and w' :: "'z runtime_scheme"
    where r: "foldR (\<lambda>st x. send_slice rl m t p (snd x) (key (fst x)) v da st) (insert e E, mgr1, w1) parts =
        ret (E', mgr', w')"
      and b2: "booked l tr0 (insert (key d) S \<union> key ` fst ` set parts) R mgr' (trace_of w')"
    using Cons.prems fresh by fastforce
  have "insert (key d) S \<union> key ` fst ` set parts = S \<union> key ` fst ` set (x # parts)" by (auto simp: x)
  then show ?case using c r b2 by (simp add: x send_slice_def)
qed simp

lemma receive_loop:
  fixes w :: "'z runtime_scheme"
  assumes "booked l tr0 S R mgr (trace_of w)" and "distinct (map fst parts)" and "inj key"
    and "\<And>s b. (s, b) \<in> set parts \<Longrightarrow> key s \<in> lg_keys l \<and> key s \<notin> R \<and> lg_box l (key s) = b \<and>
      target_ok m t (key s) False p sa st \<and> tile_instance (store_get st) = lg_dst l (key s)"
    and "user_events_exist rl"
  shows "\<exists>E' mgr' (w' :: 'z runtime_scheme).
    foldR (\<lambda>r x. receive_slice rl m t p (snd x) (key (fst x)) sa st r) (E, mgr, w) parts = ret (E', mgr', w') \<and>
    booked l tr0 S (R \<union> key ` fst ` set parts) mgr' (trace_of w')"
  using assms(1,2,4)
proof (induction parts arbitrary: R E mgr w)
  case (Cons x parts)
  obtain d b where x: "x = (d, b)" by (cases x)
  have k: "key d \<in> lg_keys l" "key d \<notin> R" "lg_box l (key d) = b" "target_ok m t (key d) False p sa st"
    "tile_instance (store_get st) = lg_dst l (key d)"
    using Cons.prems(3)[of d b] by (simp_all add: x)
  from target_books[OF Cons.prems(1) k(1,2,4,5) assms(5)] obtain e mgr1 and w1 :: "'z runtime_scheme"
    where c: "ReshardToLocalTarget rl m t p b (key d) sa st mgr w = ret (e, mgr1, w1)"
      and b1: "booked l tr0 S (insert (key d) R) mgr1 (trace_of w1)"
    unfolding k(3) by blast
  have fresh: "key d' \<noteq> key d" if "(d', b') \<in> set parts" for d' b'
    using Cons.prems(2) that assms(3) by (auto simp: x inj_eq image_iff)
  from Cons.IH[OF b1, of "insert e E"] obtain E' mgr' and w' :: "'z runtime_scheme"
    where r: "foldR (\<lambda>r x. receive_slice rl m t p (snd x) (key (fst x)) sa st r) (insert e E, mgr1, w1) parts =
        ret (E', mgr', w')"
      and b2: "booked l tr0 S (insert (key d) R \<union> key ` fst ` set parts) mgr' (trace_of w')"
    using Cons.prems fresh by fastforce
  have "insert (key d) R \<union> key ` fst ` set parts = R \<union> key ` fst ` set (x # parts)" by (auto simp: x)
  then show ?case using c r b2 by (simp add: x receive_slice_def)
qed simp

section \<open>The ledger of a plan\<close>

text \<open>Two shardings, the names of the two arrays, and the instance of every shard.\<close>

record transfer =
  tf_dim :: int
  tf_src :: sharding
  tf_dst :: sharding
  tf_src_id :: unique_id
  tf_dst_id :: unique_id
  tf_src_inst :: "int \<Rightarrow> inst"
  tf_dst_inst :: "int \<Rightarrow> inst"

abbreviation transfer_able :: "transfer \<Rightarrow> bool" where
  "transfer_able x \<equiv> plan_able (tf_dim x) (tf_src x) (tf_dst x)"

abbreviation sends_of :: "transfer \<Rightarrow> int \<Rightarrow> part list" where
  "sends_of x \<equiv> plan_send (tf_dim x) (tf_src x) (tf_dst x)"

abbreviation receives_of :: "transfer \<Rightarrow> int \<Rightarrow> part list" where
  "receives_of x \<equiv> plan_receive (tf_dim x) (tf_src x) (tf_dst x)"

definition part_key :: "transfer \<Rightarrow> int \<Rightarrow> int \<Rightarrow> reshard_key" where
  "part_key x s d = \<lparr>key_src_id = tf_src_id x, key_dst_id = tf_dst_id x, key_src_shard = s, key_dst_shard = d\<rparr>"

definition ledger_of :: "transfer \<Rightarrow> ledger" where
  "ledger_of x = \<lparr>lg_keys = {part_key x s d | s d b. is_shard (tf_src x) s \<and> (d, b) \<in> set (sends_of x s)},
     lg_box = \<lambda>k. the (map_of (sends_of x (key_src_shard k)) (key_dst_shard k)),
     lg_src = \<lambda>k. tf_src_inst x (key_src_shard k), lg_dst = \<lambda>k. tf_dst_inst x (key_dst_shard k)\<rparr>"

definition sent :: "transfer \<Rightarrow> int set \<Rightarrow> reshard_key set" where
  "sent x Ss = {k \<in> lg_keys (ledger_of x). key_src_shard k \<in> Ss}"

definition received :: "transfer \<Rightarrow> int set \<Rightarrow> reshard_key set" where
  "received x Ds = {k \<in> lg_keys (ledger_of x). key_dst_shard k \<in> Ds}"

lemma part_key_simps [simp]:
  "key_src_shard (part_key x s d) = s" "key_dst_shard (part_key x s d) = d"
  "part_key x s d = part_key x s' d' \<longleftrightarrow> s = s' \<and> d = d'"
  by (auto simp: part_key_def)

lemma inj_part_key: "inj (part_key x s)" "inj (\<lambda>s. part_key x s d)"
  by (auto intro: injI)

lemma sender_part:
  assumes "transfer_able x" and "is_shard (tf_src x) s" and "(d, b) \<in> set (sends_of x s)"
  shows "part_key x s d \<in> lg_keys (ledger_of x)" and "lg_box (ledger_of x) (part_key x s d) = b"
    and "lg_src (ledger_of x) (part_key x s d) = tf_src_inst x s"
    and "lg_dst (ledger_of x) (part_key x s d) = tf_dst_inst x d"
  using assms map_of_is_SomeI[OF plan.send_once[OF assms(1,2)] assms(3)] by (auto simp: ledger_of_def)

lemma receiver_part:
  assumes "transfer_able x" and "is_shard (tf_dst x) d" and "(s, b) \<in> set (receives_of x d)"
  shows "is_shard (tf_src x) s" and "(d, b) \<in> set (sends_of x s)"
  using plan.receive_source[OF assms] plan.agree[OF assms(1) _ assms(2)] assms(3) by blast+

lemma sent_insert:
  assumes "transfer_able x" and "is_shard (tf_src x) s"
  shows "sent x (insert s Ss) = sent x Ss \<union> part_key x s ` fst ` set (sends_of x s)"
  using assms(2) by (fastforce simp: sent_def ledger_of_def image_iff)

lemma received_insert:
  assumes "transfer_able x" and "is_shard (tf_dst x) d"
  shows "received x (insert d Ds) = received x Ds \<union> (\<lambda>s. part_key x s d) ` fst ` set (receives_of x d)"
proof -
  have "k \<in> (\<lambda>s. part_key x s d) ` fst ` set (receives_of x d)"
    if k: "k \<in> lg_keys (ledger_of x)" "key_dst_shard k = d" for k
  proof -
    obtain s b where e: "k = part_key x s d" "is_shard (tf_src x) s" "(d, b) \<in> set (sends_of x s)"
      using k by (auto simp: ledger_of_def)
    then have "(s, b) \<in> set (receives_of x d)" using plan.agree[OF assms(1) e(2) assms(2)] by simp
    then show ?thesis unfolding e(1) by force
  qed
  moreover have "k \<in> lg_keys (ledger_of x) \<and> key_dst_shard k = d"
    if k: "k \<in> (\<lambda>s. part_key x s d) ` fst ` set (receives_of x d)" for k
  proof -
    obtain s b where e: "k = part_key x s d" "(s, b) \<in> set (receives_of x d)" using k by auto
    show ?thesis using sender_part(1)[OF assms(1) receiver_part[OF assms e(2)]] e(1) by simp
  qed
  ultimately have "k \<in> lg_keys (ledger_of x) \<and> key_dst_shard k = d \<longleftrightarrow>
      k \<in> (\<lambda>s. part_key x s d) ` fst ` set (receives_of x d)" for k by blast
  then show ?thesis by (auto simp: received_def)
qed

lemma fresh_parts: "s \<notin> Ss \<Longrightarrow> part_key x s d \<notin> sent x Ss" "d \<notin> Ds \<Longrightarrow> part_key x s d \<notin> received x Ds"
  by (simp_all add: sent_def received_def)

section \<open>The two halves of a device's work\<close>

text \<open>
  An array as a processor sees it: the shape and the name that all processors agree on, the tile of the
  processor's shard if it has one, and hosts for all shards in the address space of the processor.
\<close>

definition array_at ::
  "machine \<Rightarrow> proc_tables \<Rightarrow> processor \<Rightarrow> sharding \<Rightarrow> unique_id \<Rightarrow> (int \<Rightarrow> inst) \<Rightarrow> sharded_array \<Rightarrow> bool" where
  "array_at m t p s uid inst a \<longleftrightarrow> shp_sharding (sa_shape a) = s \<and> unique_id_of a = uid \<and>
     (case dl_shard_id (sh_devices s) (global_id p) of
        None \<Rightarrow> sa_tile a = None
      | Some i \<Rightarrow> sa_shard_id a = i \<and> (\<exists>tile. sa_tile a = Some tile \<and> at_instance tile = inst i \<and>
          tsh_bounds (at_shape tile) = tile_box i s)) \<and>
     (\<forall>i. is_shard s i \<longrightarrow> (\<exists>host. HostForShard m t a i = ret host \<and> space_of m host = space_of m (pr_proc p)))"

definition sees ::
  "machine \<Rightarrow> proc_tables \<Rightarrow> transfer \<Rightarrow> processor \<Rightarrow> sharded_array view \<Rightarrow> sharded_array store \<Rightarrow>
   sharded_array \<Rightarrow> sharded_array \<Rightarrow> bool" where
  "sees m t x p v st sa da \<longleftrightarrow> view_get v = ret sa \<and> store_get st = ret da \<and>
     array_at m t p (tf_src x) (tf_src_id x) (tf_src_inst x) sa \<and>
     array_at m t p (tf_dst x) (tf_dst_id x) (tf_dst_inst x) da \<and> (HasName da \<longrightarrow> HasName sa)"

abbreviation src_role :: "transfer \<Rightarrow> processor \<Rightarrow> int option" where
  "src_role x p \<equiv> dl_shard_id (sh_devices (tf_src x)) (global_id p)"

abbreviation dst_role :: "transfer \<Rightarrow> processor \<Rightarrow> int option" where
  "dst_role x p \<equiv> dl_shard_id (sh_devices (tf_dst x)) (global_id p)"

lemma seesD:
  assumes "sees m t x p v st sa da"
  shows "view_get v = ret sa" and "store_get st = ret da" and "shp_sharding (sa_shape sa) = tf_src x"
    and "shp_sharding (sa_shape da) = tf_dst x" and "HasTile sa \<longleftrightarrow> src_role x p \<noteq> None"
    and "HasTile da \<longleftrightarrow> dst_role x p \<noteq> None" and "slice_key sa da i j = part_key x i j"
  using assms
  by (auto simp: sees_def array_at_def HasTile_def slice_key_def part_key_def split: option.splits)

lemma sees_source:
  assumes "sees m t x p v st sa da" and "src_role x p = Some s"
  shows "is_shard (tf_src x) s" and "sa_shard_id sa = s"
    and "\<exists>tile. sa_tile sa = Some tile \<and> tsh_bounds (at_shape tile) = tile_box s (tf_src x)"
    and "tile_instance (view_get v) = tf_src_inst x s"
    and "is_shard (tf_dst x) d \<Longrightarrow> source_ok m t (part_key x s d) False p v da"
  using assms
  by (auto simp: sees_def array_at_def is_shard_def tile_instance_def source_ok_def dest: shard_range)

lemma sees_target:
  assumes "sees m t x p v st sa da" and "dst_role x p = Some d"
  shows "is_shard (tf_dst x) d" and "sa_shard_id da = d"
    and "\<exists>tile. sa_tile da = Some tile \<and> tsh_bounds (at_shape tile) = tile_box d (tf_dst x)"
    and "tile_instance (store_get st) = tf_dst_inst x d"
    and "is_shard (tf_src x) s \<Longrightarrow> target_ok m t (part_key x s d) False p sa st"
  using assms
  by (auto simp: sees_def array_at_def is_shard_def tile_instance_def target_ok_def dest: shard_range)

definition underway ::
  "transfer \<Rightarrow> trace \<Rightarrow> int set \<Rightarrow> int set \<Rightarrow> reshard_manager \<Rightarrow> trace \<Rightarrow> bool" where
  "underway x tr0 Ss Ds mgr tr \<longleftrightarrow> booked (ledger_of x) tr0 (sent x Ss) (received x Ds) mgr tr"

lemma underway_quiet: "underway x tr0 Ss Ds mgr tr \<Longrightarrow> quiet tr tr' \<Longrightarrow> underway x tr0 Ss Ds mgr tr'"
  unfolding underway_def by (rule booked_quiet)

text \<open>
  The view may be a sub-view of the one the processor was given: only its value counts.
\<close>

lemma source_half:
  fixes w :: "'z runtime_scheme"
  assumes sees: "sees m t x p v st sa da" and able: "transfer_able x" and role: "src_role x p = Some s"
    and new: "s \<notin> Ss" and u: "underway x tr0 Ss Ds mgr (trace_of w)" and user: "user_events_exist rl"
  shows "\<exists>E' mgr' (w' :: 'z runtime_scheme).
    foldR (\<lambda>r part. send_slice rl m t p (snd part) (part_key x s (fst part)) v da r) (E, mgr, w) (sends_of x s) =
      ret (E', mgr', w') \<and> underway x tr0 (insert s Ss) Ds mgr' (trace_of w')"
proof -
  note s = sees_source[OF sees role]
  have "part_key x s d \<in> lg_keys (ledger_of x) \<and> part_key x s d \<notin> sent x Ss \<and>
      lg_box (ledger_of x) (part_key x s d) = b \<and> source_ok m t (part_key x s d) False p v da \<and>
      tile_instance (view_get v) = lg_src (ledger_of x) (part_key x s d)"
    if part: "(d, b) \<in> set (sends_of x s)" for d b
    using sender_part[OF able s(1) part] s(4) s(5)[OF plan.send_target[OF able s(1) part]] fresh_parts(1)[OF new]
    by simp
  from send_loop[OF u[unfolded underway_def] plan.send_once[OF able s(1)] inj_part_key(1) this user]
  show ?thesis unfolding underway_def sent_insert[OF able s(1)] by blast
qed

lemma target_half:
  fixes w :: "'z runtime_scheme"
  assumes sees: "sees m t x p v st sa da" and able: "transfer_able x" and role: "dst_role x p = Some d"
    and new: "d \<notin> Ds" and u: "underway x tr0 Ss Ds mgr (trace_of w)" and user: "user_events_exist rl"
  shows "\<exists>E' mgr' (w' :: 'z runtime_scheme).
    foldR (\<lambda>r part. receive_slice rl m t p (snd part) (part_key x (fst part) d) sa st r) (E, mgr, w) (receives_of x d) =
      ret (E', mgr', w') \<and> underway x tr0 Ss (insert d Ds) mgr' (trace_of w')"
proof -
  note d = sees_target[OF sees role]
  have "part_key x s d \<in> lg_keys (ledger_of x) \<and> part_key x s d \<notin> received x Ds \<and>
      lg_box (ledger_of x) (part_key x s d) = b \<and> target_ok m t (part_key x s d) False p sa st \<and>
      tile_instance (store_get st) = lg_dst (ledger_of x) (part_key x s d)"
    if part: "(s, b) \<in> set (receives_of x d)" for s b
    using receiver_part[OF able d(1) part] sender_part[OF able receiver_part[OF able d(1) part]]
      d(4) d(5)[OF receiver_part(1)[OF able d(1) part]] fresh_parts(2)[OF new]
    by simp
  from receive_loop[OF u[unfolded underway_def] plan.receive_once[OF able d(1)] inj_part_key(2) this user]
  show ?thesis unfolding underway_def received_insert[OF able d(1)] by blast
qed

end
