(* ===== verification/Array_Moves.thy ===== *)
theory Array_Moves
  imports Array_Ledger
begin

text \<open>
  Reshards move arrays: when every processor of a process runs \<open>Reshard\<close> on its view of the source and its store
  of the target, the copies issued are the boxes of the plan, and whatever order they happen in, the
  tiles of the target hold the array afterwards.
\<close>

section \<open>The protocols\<close>

lemma view_destroy_ok:
  fixes w :: "'z runtime_scheme"
  assumes "Util_proc t = ret u"
  shows "\<exists>w' :: 'z runtime_scheme. view_destroy rl t v w = ret w' \<and> quiet (trace_of w) (trace_of w')"
proof -
  have "\<exists>w'. view_destroy rl t v w = ret w'"
    using assms by (auto simp: view_destroy_def deferred_release_def Let_def split: option.splits prod.splits)
  then show ?thesis using view_destroy_quiet by blast
qed

lemma done_after_all_ok:
  fixes w :: "'z runtime_scheme"
  shows "\<exists>v' (w' :: 'z runtime_scheme). done_after_all rl v (E, mgr, w) = (v', mgr, w') \<and> quiet (trace_of w) (trace_of w')"
  using merge_quiet(2)[of rl E w] by (cases "merge_set rl E w") (auto simp: done_after_all_def)

lemma ready_after_all_ok:
  fixes w :: "'z runtime_scheme"
  shows "\<exists>st' (w' :: 'z runtime_scheme). ready_after_all rl st (E, mgr, w) = (st', mgr, w') \<and>
    quiet (trace_of w) (trace_of w')"
proof -
  obtain e w1 where m: "merge_set rl E w = (e, w1)" by fastforce
  obtain st' w2 where r: "store_ReadyAfter rl e st w1 = (st', w2)" by fastforce
  show ?thesis using quiet_trans[OF merge_quiet(2)[OF m] merge_quiet(3)[OF r]] m r by (simp add: ready_after_all_def)
qed

text \<open>What a processor's work adds to the ledger: its roles, if it has any.\<close>

abbreviation with_role :: "int option \<Rightarrow> int set \<Rightarrow> int set" where
  "with_role role Ss \<equiv> set_option role \<union> Ss"

definition fresh_role :: "int option \<Rightarrow> int set \<Rightarrow> bool" where
  "fresh_role role Ss \<longleftrightarrow> (\<forall>s. role = Some s \<longrightarrow> s \<notin> Ss)"

definition at_work ::
  "realm \<Rightarrow> machine \<Rightarrow> proc_tables \<Rightarrow> transfer \<Rightarrow> int set \<Rightarrow> int set \<Rightarrow> processor \<Rightarrow>
   sharded_array view \<Rightarrow> sharded_array store \<Rightarrow> sharded_array \<Rightarrow> sharded_array \<Rightarrow> bool" where
  "at_work rl m t x Ss Ds p v st sa da \<longleftrightarrow> sees m t x p v st sa da \<and> transfer_able x \<and>
     fresh_role (src_role x p) Ss \<and> fresh_role (dst_role x p) Ds \<and> user_events_exist rl \<and>
     (\<exists>u. Util_proc t = ret u)"

text \<open>A computation that succeeds and leaves the reshard under way, with so much done.\<close>

definition leads ::
  "transfer \<Rightarrow> trace \<Rightarrow> int set \<Rightarrow> int set \<Rightarrow> ('a \<times> reshard_manager \<times> 'z runtime_scheme) res \<Rightarrow> bool" where
  "leads x tr0 Ss Ds r \<longleftrightarrow> (\<exists>a mgr w. r = ret (a, mgr, w) \<and> underway x tr0 Ss Ds mgr (trace_of w))"

lemma leads_ret: "underway x tr0 Ss Ds mgr (trace_of w) \<Longrightarrow> leads x tr0 Ss Ds (ret (a, mgr, w))"
  by (auto simp: leads_def)

lemma leads_bind:
  assumes "leads x tr0 Ss Ds r"
    and "\<And>a mgr w. r = ret (a, mgr, w) \<Longrightarrow> underway x tr0 Ss Ds mgr (trace_of w) \<Longrightarrow>
      leads x tr0 Ss' Ds' (f (a, mgr, w))"
  shows "leads x tr0 Ss' Ds' (andThen r f)"
  using assms by (auto simp: leads_def)

lemma leads_destroy:
  assumes "at_work rl m t x Ss0 Ds0 p v st sa da" and "underway x tr0 Ss Ds mgr (trace_of w)"
  shows "leads x tr0 Ss Ds (andThen (view_destroy rl t v' w) (\<lambda>w'. ret (a, mgr, w')))"
proof -
  obtain u where "Util_proc t = ret u" using assms(1) by (auto simp: at_work_def)
  from view_destroy_ok[OF this, of rl v' w] show ?thesis
    using underway_quiet[OF assms(2)] by (auto simp: leads_def)
qed

lemma leads_done:
  assumes "underway x tr0 Ss Ds mgr (trace_of w)"
  shows "leads x tr0 Ss Ds (ret (done_after_all rl v (E, mgr, w)))"
  using done_after_all_ok[of rl v E mgr w] underway_quiet[OF assms] by (auto simp: leads_def)

lemma leads_ready:
  assumes "underway x tr0 Ss Ds mgr (trace_of w)"
  shows "leads x tr0 Ss Ds (ret (ready_after_all rl st (E, mgr, w)))"
  using ready_after_all_ok[of rl st E mgr w] underway_quiet[OF assms] by (auto simp: leads_def)

lemma sends_lead:
  assumes "at_work rl m t x Ss Ds p v st sa da" and "src_role x p = Some s"
    and "underway x tr0 Ss Ds' mgr (trace_of w)" and "view_get v' = view_get v"
  shows "leads x tr0 (with_role (src_role x p) Ss) Ds'
    (foldR (\<lambda>r part. send_slice rl m t p (snd part) (part_key x s (fst part)) v' da r) (E, mgr, w) (sends_of x s))"
proof -
  have "sees m t x p v' st sa da" "transfer_able x" "s \<notin> Ss" "user_events_exist rl"
    using assms by (simp_all add: at_work_def sees_def fresh_role_def)
  from source_half[OF this(1,2) assms(2) this(3) assms(3) this(4)] show ?thesis
    using assms(2) by (simp add: leads_def)
qed

lemma receives_lead:
  assumes "at_work rl m t x Ss Ds p v st sa da" and "dst_role x p = Some d"
    and "underway x tr0 Ss' Ds mgr (trace_of w)"
  shows "leads x tr0 Ss' (with_role (dst_role x p) Ds)
    (foldR (\<lambda>r part. receive_slice rl m t p (snd part) (part_key x (fst part) d) sa st r) (E, mgr, w) (receives_of x d))"
proof -
  have "sees m t x p v st sa da" "transfer_able x" "d \<notin> Ds" "user_events_exist rl"
    using assms by (simp_all add: at_work_def fresh_role_def)
  from target_half[OF this(1,2) assms(2) this(3) assms(3) this(4)] show ?thesis
    using assms(2) by (simp add: leads_def)
qed

lemma at_workD:
  assumes "at_work rl m t x Ss Ds p v st sa da"
  shows "view_get v = ret sa" and "store_get st = ret da" and "shp_sharding (sa_shape sa) = tf_src x"
    and "shp_sharding (sa_shape da) = tf_dst x" and "HasTile sa \<longleftrightarrow> src_role x p \<noteq> None"
    and "HasTile da \<longleftrightarrow> dst_role x p \<noteq> None" and "slice_key sa da i j = part_key x i j"
    and "sees m t x p v st sa da" and "transfer_able x"
  using assms seesD[of m t x p v st sa da] by (simp_all add: at_work_def)

lemma no_role: "with_role None Ss = Ss"
  by simp

subsection \<open>Scatter and gather along a dimension\<close>

lemma ScatterGather_leads:
  assumes a: "at_work rl m t x Ss Ds p v st sa da" and u: "underway x tr0 Ss Ds mgr (trace_of w)"
    and c: "from_source c = (case src_role x p of None \<Rightarrow> [] | Some s \<Rightarrow> slices_from s (sends_of x s))"
      "to_target c = (case dst_role x p of None \<Rightarrow> [] | Some d \<Rightarrow> slices_to d (receives_of x d))"
  shows "leads x tr0 (with_role (src_role x p) Ss) (with_role (dst_role x p) Ds)
    (ReshardScatterGather rl m t p c v st mgr w)"
proof -
  note d = at_workD[OF a]
  let ?Ss = "with_role (src_role x p) Ss" and ?Ds = "with_role (dst_role x p) Ds"
  have source: "leads x tr0 ?Ss Ds
      (if HasTile sa
        then (let (sub, src', w1) = view_view rl v w
              in andThen (ReshardScatterGatherFromLocalSource rl m t p c sub da mgr w1)
                   (\<lambda>(mgr', w2). ret (src', mgr', w2)))
        else ret (v, mgr, w))"
  proof (cases "src_role x p")
    case None
    then show ?thesis using d(5) u by (simp add: leads_ret)
  next
    case (Some s)
    obtain sub src' w1 where vv: "view_view rl v w = (sub, src', w1)" by (cases "view_view rl v w")
    have sub: "view_get sub = view_get v"
      using vv by (auto simp: view_view_def view_get_def split: prod.splits)
    have u1: "underway x tr0 Ss Ds mgr (trace_of w1)" by (rule underway_quiet[OF u view_quiet(1)[OF vv]])
    have "leads x tr0 ?Ss Ds (andThen (foldR (\<lambda>r part. send_slice rl m t p (snd part)
          (part_key x s (fst part)) sub da r) ({}, mgr, w1) (sends_of x s)) (\<lambda>st.
        let (v', mgr', w') = done_after_all rl sub st
        in andThen (view_destroy rl t v' w') (\<lambda>w''. ret (src', mgr', w''))))"
    proof (rule leads_bind[OF sends_lead[OF a Some u1 sub]])
      fix E mgr2 w2 assume u2: "underway x tr0 ?Ss Ds mgr2 (trace_of w2)"
      obtain v' w3 where dn: "done_after_all rl sub (E, mgr2, w2) = (v', mgr2, w3)"
        and q: "quiet (trace_of w2) (trace_of w3)" using done_after_all_ok by blast
      show "leads x tr0 ?Ss Ds (let (v', mgr', w') = done_after_all rl sub (E, mgr2, w2)
          in andThen (view_destroy rl t v' w') (\<lambda>w''. ret (src', mgr', w'')))"
        using leads_destroy[OF a underway_quiet[OF u2 q]] by (simp add: dn)
    qed
    then show ?thesis
      using d(5) Some sub d(1)
      by (simp add: vv ReshardScatterGatherFromLocalSource_def c slices_from_def foldR_map split_beta d(7)
          andThen_assoc Let_def)
  qed
  have target: "leads x tr0 Ss' ?Ds (if HasTile da then ReshardScatterGatherToLocalTarget rl m t p c sa st mgr1 w1
              else ret (st, mgr1, w1))" if u1: "underway x tr0 Ss' Ds mgr1 (trace_of w1)" for Ss' mgr1 and w1
  proof (cases "dst_role x p")
    case None
    then show ?thesis using d(6) u1 by (simp add: leads_ret)
  next
    case (Some i)
    have "leads x tr0 Ss' ?Ds (andThen (foldR (\<lambda>r part. receive_slice rl m t p (snd part)
          (part_key x (fst part) i) sa st r) ({}, mgr1, w1) (receives_of x i)) (\<lambda>r. ret (ready_after_all rl st r)))"
      using receives_lead[OF a Some u1] by (rule leads_bind) (rule leads_ready)
    then show ?thesis using d(6) Some d(2)
      by (simp add: ReshardScatterGatherToLocalTarget_def c slices_to_def foldR_map split_beta d(7))
  qed
  show ?thesis
    unfolding ReshardScatterGather_def d(1,2) andThen.simps
    by (intro leads_bind[OF source] leads_bind[OF target] leads_destroy[OF a] | assumption | unfold prod.case)+
qed

subsection \<open>Gathering shards\<close>

lemma foldR_cong: "(\<And>s y. y \<in> set xs \<Longrightarrow> f s y = g s y) \<Longrightarrow> foldR f s xs = foldR g s xs"
  by (induction xs arbitrary: s) (auto intro!: arg_cong2[where f = andThen])

lemma GatherShards_leads:
  assumes a: "at_work rl m t x Ss Ds p v st sa da" and u: "underway x tr0 Ss Ds mgr (trace_of w)"
    and family: "plan_family (tf_src x) (tf_dst x) = Gather_All"
    and c: "gs_src_shard c = src_role x p" "gs_dst_shard c = dst_role x p"
      "source_to_target_bounds c = map_option (gather_piece (tf_src x)) (src_role x p)"
      "target_from_source_bounds c = map (gather_piece (tf_src x)) (upto64 (dl_size (sh_devices (tf_src x))))"
  shows "leads x tr0 (with_role (src_role x p) Ss) (with_role (dst_role x p) Ds)
    (ReshardGatherShards rl m t p c v st mgr w)"
proof -
  note d = at_workD[OF a]
  let ?Ss = "with_role (src_role x p) Ss" and ?Ds = "with_role (dst_role x p) Ds"
  let ?D = "upto64 (dl_size (sh_devices (tf_dst x)))" and ?S = "upto64 (dl_size (sh_devices (tf_src x)))"
  let ?err = "\<lambda>msg. RuntimeError (msg @ show_processor p @ '' for '' @ show_sharded_shape (sa_shape sa) @ '' -> '' @
           show_sharded_shape (sa_shape da))"
  have sends: "sends_of x s = map (\<lambda>i. (i, gather_piece (tf_src x) s)) ?D"
    and receives: "receives_of x i = map (\<lambda>s. (s, gather_piece (tf_src x) s)) ?S" for s i
    using family by (simp_all add: plan_defs gather_send_def gather_receive_def)
  have source: "leads x tr0 ?Ss Ds
      (if HasTile sa
       then andThen (require (gs_src_shard c \<noteq> None) e) (\<lambda>_. GatherShardsFromLocalSource rl m t p v da c mgr w)
       else ret (v, mgr, w))" for e
  proof (cases "src_role x p")
    case None
    then show ?thesis using d(5) u by (simp add: leads_ret)
  next
    case (Some s)
    have "leads x tr0 ?Ss Ds (andThen (foldR (\<lambda>r part. send_slice rl m t p (snd part)
          (part_key x s (fst part)) v da r) ({}, mgr, w) (sends_of x s)) (\<lambda>r. ret (done_after_all rl v r)))"
      using sends_lead[OF a Some u refl] by (rule leads_bind) (rule leads_done)
    then show ?thesis
      using d(5) Some by (simp add: GatherShardsFromLocalSource_def d(1,3,4,7) c sends foldR_map)
  qed
  have target: "leads x tr0 Ss' ?Ds
      (if HasTile da
       then andThen (require (gs_dst_shard c \<noteq> None) e) (\<lambda>_. GatherShardsToLocalTarget rl m t p sa st c mgr1 w1)
       else ret (st, mgr1, w1))" if u1: "underway x tr0 Ss' Ds mgr1 (trace_of w1)" for Ss' e mgr1 and w1
  proof (cases "dst_role x p")
    case None
    then show ?thesis using d(6) u1 by (simp add: leads_ret)
  next
    case (Some i)
    have "leads x tr0 Ss' ?Ds (andThen (foldR (\<lambda>r part. receive_slice rl m t p (snd part)
          (part_key x (fst part) i) sa st r) ({}, mgr1, w1) (receives_of x i)) (\<lambda>r. ret (ready_after_all rl st r)))"
      using receives_lead[OF a Some u1] by (rule leads_bind) (rule leads_ready)
    moreover have "foldR (\<lambda>r shard. andThen (store_get st) (\<lambda>da. andThen (vec_at (target_from_source_bounds c) shard)
          (\<lambda>bounds. receive_slice rl m t p bounds (slice_key sa da shard i) sa st r))) ({}, mgr1, w1) ?S =
        foldR (\<lambda>r part. receive_slice rl m t p (snd part) (part_key x (fst part) i) sa st r) ({}, mgr1, w1) (receives_of x i)"
      unfolding receives foldR_map
      by (rule foldR_cong) (auto simp: d(2,7) c vec_at_def)
    ultimately show ?thesis using d(6) Some by (simp add: GatherShardsToLocalTarget_def d(3) c)
  qed
  show ?thesis
    unfolding ReshardGatherShards_def d(1,2) andThen.simps Let_def
    by (intro leads_bind[OF source] leads_bind[OF target] leads_destroy[OF a] | assumption | unfold prod.case)+
qed

subsection \<open>One part at a time\<close>

lemma source_one:
  assumes "at_work rl m t x Ss Ds p v st sa da" and "src_role x p = Some s"
    and "underway x tr0 Ss Ds' mgr (trace_of w)" and "view_get v' = view_get v" and "sends_of x s = [(d, b)]"
  shows "leads x tr0 (with_role (src_role x p) Ss) Ds' (ReshardFromLocalSource rl m t p b (part_key x s d) v' da mgr w)"
  using sends_lead[OF assms(1-4), of "{}"] assms(5)
  by (auto simp: leads_def send_slice_def andThen_eq_ret)

lemma target_one:
  assumes "at_work rl m t x Ss Ds p v st sa da" and "dst_role x p = Some d"
    and "underway x tr0 Ss' Ds mgr (trace_of w)" and "receives_of x d = [(s, b)]"
  shows "leads x tr0 Ss' (with_role (dst_role x p) Ds) (ReshardToLocalTarget rl m t p b (part_key x s d) sa st mgr w)"
  using receives_lead[OF assms(1-3), of "{}"] assms(4)
  by (auto simp: leads_def receive_slice_def andThen_eq_ret)

lemma ready_after_ok:
  assumes "underway x tr0 Ss Ds mgr (trace_of w)"
  obtains st' w' where "store_ReadyAfter rl e st w = (st', w')" and "underway x tr0 Ss Ds mgr (trace_of w')"
proof -
  obtain st' w' where "store_ReadyAfter rl e st w = (st', w')" by fastforce
  then show thesis using that underway_quiet[OF assms merge_quiet(3)] by blast
qed

subsection \<open>Scattering shards\<close>

lemma ScatterShards_leads:
  assumes a: "at_work rl m t x Ss Ds p v st sa da" and u: "underway x tr0 Ss Ds mgr (trace_of w)"
    and family: "plan_family (tf_src x) (tf_dst x) = Scatter_All"
  shows "leads x tr0 (with_role (src_role x p) Ss) (with_role (dst_role x p) Ds)
    (ReshardScatterShards rl m t (tf_dim x) p c v st mgr w)"
proof -
  note d = at_workD[OF a]
  let ?Ss = "with_role (src_role x p) Ss" and ?Ds = "with_role (dst_role x p) Ds"
  let ?q = "per_source (tf_src x) (tf_dst x)"
  have able: "spread_able (tf_dim x) (tf_src x) (tf_dst x)" using d(9) family by (simp add: plan_able_def)
  then have ext: "same_extent (tf_dim x) (tf_src x) (tf_dst x)" by (simp add: spread_able_def)
  note e = same_extentD[OF ext] and q = per_source[OF able]
  have sends: "sends_of x s = map (\<lambda>i. (?q * s + i, tile_box (?q * s + i) (tf_dst x))) (upto64 ?q)"
    and receives: "receives_of x i = [(i div ?q, tile_box i (tf_dst x))]" for s i
    using family by (simp_all add: plan_defs spread_send_def spread_receive_def)
  have S: "1 \<le> dl_size (sh_devices (tf_src x))"
    using tiles_le_devices[OF e(1)] tiles_ge1[OF e(1)] by linarith
  have D: "dl_size (sh_devices (tf_dst x)) \<le> int64_max" by (rule devices_ok[OF e(2)])
  have div: "div64 (dl_size (sh_devices (tf_dst x))) (dl_size (sh_devices (tf_src x))) = ret ?q"
    using S D dl_size_nonneg[OF e(2)] by (simp add: per_source_def div64_ok int64_okI)
  have source: "leads x tr0 ?Ss Ds
      (if HasTile sa then ScatterShardsFromLocalSource rl m t (tf_dim x) p v da mgr w else ret (v, mgr, w))"
  proof (cases "src_role x p")
    case None
    then show ?thesis using d(5) u by (simp add: leads_ret)
  next
    case (Some s)
    note s = sees_source(1)[OF d(8) Some]
    have "leads x tr0 ?Ss Ds (andThen (foldR (\<lambda>r part. send_slice rl m t p (snd part)
          (part_key x s (fst part)) v da r) ({}, mgr, w) (sends_of x s)) (\<lambda>r. ret (done_after_all rl v r)))"
      using sends_lead[OF a Some u refl] by (rule leads_bind) (rule leads_done)
    moreover have "foldR (\<lambda>st shard. andThen (ComputeTileBounds (tf_dim x) (?q * s + shard) (tf_dst x)) (\<lambda>bounds.
            send_slice rl m t p bounds (slice_key sa da s (?q * s + shard)) v da st)) ({}, mgr, w) (upto64 ?q) =
        foldR (\<lambda>r part. send_slice rl m t p (snd part) (part_key x s (fst part)) v da r) ({}, mgr, w) (sends_of x s)"
      unfolding sends foldR_map
    proof (rule foldR_cong)
      fix r i assume i: "i \<in> set (upto64 ?q)"
      have "(?q * s + i, tile_box (?q * s + i) (tf_dst x)) \<in> set (sends_of x s)" using i unfolding sends by auto
      from plan.send_target[OF d(9) s this]
      have "ComputeTileBounds (tf_dim x) (?q * s + i) (tf_dst x) = ret (tile_box (?q * s + i) (tf_dst x))"
        using ComputeTileBounds_ok[OF e(2) _ _ e(4)] by (simp add: is_shard_def)
      then show "andThen (ComputeTileBounds (tf_dim x) (?q * s + i) (tf_dst x)) (\<lambda>bounds.
            send_slice rl m t p bounds (slice_key sa da s (?q * s + i)) v da r) =
          send_slice rl m t p (snd (?q * s + i, tile_box (?q * s + i) (tf_dst x)))
            (part_key x s (fst (?q * s + i, tile_box (?q * s + i) (tf_dst x)))) v da r"
        by (simp add: d(7))
    qed
    ultimately show ?thesis
      using d(5) Some by (simp add: ScatterShardsFromLocalSource_def d(1,3,4) div Let_def)
  qed
  have target: "leads x tr0 Ss' ?Ds
      (if HasTile da then ScatterShardsToLocalTarget rl m t p sa st mgr1 w1 else ret (st, mgr1, w1))"
    if u1: "underway x tr0 Ss' Ds mgr1 (trace_of w1)" for Ss' mgr1 and w1
  proof (cases "dst_role x p")
    case None
    then show ?thesis using d(6) u1 by (simp add: leads_ret)
  next
    case (Some i)
    note i = sees_target[OF d(8) Some]
    obtain tile where tile: "sa_tile da = Some tile" "tsh_bounds (at_shape tile) = tile_box i (tf_dst x)"
      using i(3) by blast
    have "div64 i ?q = ret (i div ?q)"
      using i(1) q(1) D by (intro div64_ok int64_okI) (auto simp: is_shard_def)
    moreover have "leads x tr0 Ss' ?Ds (andThen (ReshardToLocalTarget rl m t p (tile_box i (tf_dst x))
        (part_key x (i div ?q) i) sa st mgr1 w1) (\<lambda>(copy, mgr', w1).
        let (dst', w2) = store_ReadyAfter rl copy st w1 in ret (dst', mgr', w2)))"
    proof (rule leads_bind[OF target_one[OF a Some u1 receives]])
      fix copy mgr2 w2 assume "underway x tr0 Ss' ?Ds mgr2 (trace_of w2)"
      then obtain st' w3 where "store_ReadyAfter rl copy st w2 = (st', w3)"
        "underway x tr0 Ss' ?Ds mgr2 (trace_of w3)" by (rule ready_after_ok)
      then show "leads x tr0 Ss' ?Ds (case (copy, mgr2, w2) of (copy, mgr', w1) \<Rightarrow>
          let (dst', w2) = store_ReadyAfter rl copy st w1 in ret (dst', mgr', w2))" by (simp add: leads_ret)
    qed
    ultimately show ?thesis
      using d(6) Some tile by (simp add: ScatterShardsToLocalTarget_def d(2,3,4,7) div array_tile_of_def)
  qed
  show ?thesis
    unfolding ReshardScatterShards_def d(1,2) andThen.simps
    by (intro leads_bind[OF source] leads_bind[OF target] leads_destroy[OF a] | assumption | unfold prod.case)+
qed

subsection \<open>Shard to shard\<close>

lemma PointToPoint_leads:
  assumes a: "at_work rl m t x Ss Ds p v st sa da" and u: "underway x tr0 Ss Ds mgr (trace_of w)"
    and family: "plan_family (tf_src x) (tf_dst x) = Pairwise"
    and partner: "\<And>s. src_role x p = Some s \<Longrightarrow> s < dl_size (sh_devices (tf_dst x))"
  shows "leads x tr0 (with_role (src_role x p) Ss) (with_role (dst_role x p) Ds)
    (ReshardPointToPoint rl m t p v st mgr w)"
proof -
  note d = at_workD[OF a]
  let ?Ss = "with_role (src_role x p) Ss" and ?Ds = "with_role (dst_role x p) Ds"
  have receives: "receives_of x i = [(i, tile_box i (tf_dst x))]" for i
    using family by (simp add: plan_defs pairs_receive_def)
  have target: "leads x tr0 Ss ?Ds
      (case sa_tile da of
          Some tile \<Rightarrow>
            andThen (p2p_ToLocalTarget rl m t p (tsh_bounds (at_shape tile)) sa st (sa_shard_id da)
                       (sa_shard_id da) mgr w) (\<lambda>(e, dst', mgr1, w1). ret (dst', mgr1, w1))
        | None \<Rightarrow> ret (st, mgr, w))"
  proof (cases "dst_role x p")
    case None
    then show ?thesis using d(6) u by (simp add: leads_ret HasTile_def)
  next
    case (Some i)
    note i = sees_target[OF d(8) Some]
    obtain tile where tile: "sa_tile da = Some tile" "tsh_bounds (at_shape tile) = tile_box i (tf_dst x)"
      using i(3) by blast
    have "leads x tr0 Ss ?Ds (andThen (ReshardToLocalTarget rl m t p (tile_box i (tf_dst x))
        (part_key x i i) sa st mgr w) (\<lambda>(e, mgr', w1).
        let (dst', w2) = store_ReadyAfter rl e st w1 in ret (dst', mgr', w2)))"
    proof (rule leads_bind[OF target_one[OF a Some u receives]])
      fix e mgr2 w2 assume "underway x tr0 Ss ?Ds mgr2 (trace_of w2)"
      then obtain st' w3 where "store_ReadyAfter rl e st w2 = (st', w3)"
        "underway x tr0 Ss ?Ds mgr2 (trace_of w3)" by (rule ready_after_ok)
      then show "leads x tr0 Ss ?Ds (case (e, mgr2, w2) of (e, mgr', w1) \<Rightarrow>
          let (dst', w2) = store_ReadyAfter rl e st w1 in ret (dst', mgr', w2))" by (simp add: leads_ret)
    qed
    then show ?thesis
      by (simp add: p2p_ToLocalTarget_def d(2,7) tile i(2) andThen_assoc case_prod_unfold Let_def)
  qed
  have source: "leads x tr0 ?Ss Ds'
       (case sa_tile sa of
          Some tile \<Rightarrow>
            (let (arg, rest) = view_move v
             in andThen (p2p_FromLocalSource rl m t p (tsh_bounds (at_shape tile)) arg da (sa_shard_id sa)
                           (sa_shard_id sa) mgr1 w1) (\<lambda>(e, mgr2, w2). ret (rest, mgr2, w2)))
        | None \<Rightarrow> ret (v, mgr1, w1))" if u1: "underway x tr0 Ss Ds' mgr1 (trace_of w1)" for Ds' mgr1 and w1
  proof (cases "src_role x p")
    case None
    then show ?thesis using d(5) u1 by (simp add: leads_ret HasTile_def)
  next
    case (Some s)
    note s = sees_source[OF d(8) Some]
    obtain tile where tile: "sa_tile sa = Some tile" "tsh_bounds (at_shape tile) = tile_box s (tf_src x)"
      using s(3) by blast
    obtain arg rest where vm: "view_move v = (arg, rest)" by fastforce
    then have arg: "view_get arg = view_get v" by (auto simp: view_move_def view_get_def)
    have sends: "sends_of x s = [(s, tile_box s (tf_src x))]"
      using family partner[OF Some] by (simp add: plan_defs pairs_send_def)
    have "leads x tr0 ?Ss Ds' (andThen (ReshardFromLocalSource rl m t p (tile_box s (tf_src x)) (part_key x s s) arg da mgr1 w1)
        (\<lambda>(e, mgr', w1). andThen (view_destroy rl t (view_DoneAfter e arg) w1) (\<lambda>w2. ret (rest, mgr', w2))))"
      using source_one[OF a Some u1 arg sends]
      by (rule leads_bind) (unfold prod.case, rule leads_destroy[OF a])
    then show ?thesis
      by (simp add: p2p_FromLocalSource_def vm arg d(1,7) tile s(2) andThen_assoc case_prod_unfold)
  qed
  show ?thesis
    unfolding ReshardPointToPoint_def d(1,2) andThen.simps
    by (intro leads_bind[OF target] leads_bind[OF source] leads_destroy[OF a] | assumption | unfold prod.case)+
qed

section \<open>A device's reshard\<close>

lemma underway_nothing:
  assumes "transfer_able x" and "is_shard (tf_src x) s" and "sends_of x s = []"
  shows "underway x tr0 (insert s Ss) Ds mgr tr \<longleftrightarrow> underway x tr0 Ss Ds mgr tr"
  by (simp add: underway_def sent_insert[OF assms(1,2)] assms(3))

lemma Reshard_leads:
  assumes a: "at_work rl m t x Ss Ds p v st sa da" and u: "underway x tr0 Ss Ds mgr (trace_of w)"
  shows "\<exists>r. Reshard rl m t (tf_dim x) p v st mgr w = Some r \<and>
    leads x tr0 (with_role (src_role x p) Ss) (with_role (dst_role x p) Ds) r"
proof -
  note d = at_workD[OF a]
  let ?Ss = "with_role (src_role x p) Ss" and ?Ds = "with_role (dst_role x p) Ds"
  obtain arg rest where vm: "view_move v = (arg, rest)" by fastforce
  then have arg: "view_get arg = view_get v" by (auto simp: view_move_def view_get_def)
  have a': "at_work rl m t x Ss Ds p arg st sa da" using a arg by (simp add: at_work_def sees_def)
  have keep: "leads x tr0 ?Ss ?Ds (andThen (andThen r (\<lambda>(dst', mgr', w'). ret (rest, dst', mgr', w')))
      (\<lambda>(src', dst', mgr', w1). andThen (view_destroy rl t src' w1) (\<lambda>w2. ret (dst', mgr', w2))))"
    if "leads x tr0 ?Ss ?Ds r" for r :: "(sharded_array store \<times> reshard_manager \<times> 'a runtime_scheme) res"
    unfolding andThen_assoc
    by (rule leads_bind[OF that]) (simp add: leads_destroy[OF a])
  have choice: "\<exists>config. DetermineShardingConfig (tf_dim x) p (tf_src x) (tf_dst x) = Some (ret config) \<and>
      leads x tr0 ?Ss ?Ds (andThen (run_protocol rl m t (tf_dim x) p config v st mgr w)
        (\<lambda>(src', dst', mgr', w1). andThen (view_destroy rl t src' w1) (\<lambda>w2. ret (dst', mgr', w2))))"
  proof (cases "plan_family (tf_src x) (tf_dst x)")
    case Pairwise
    from pairs_config[OF d(9) this, of p] show ?thesis
    proof (elim disjE conjE)
      assume c: "DetermineShardingConfig (tf_dim x) p (tf_src x) (tf_dst x) = Some (ret PointToPointConfig)"
        and s: "\<forall>s. src_role x p = Some s \<longrightarrow> s < dl_size (sh_devices (tf_dst x))"
      have "leads x tr0 ?Ss ?Ds (ReshardPointToPoint rl m t p arg st mgr w)"
        using PointToPoint_leads[OF a' u Pairwise] s by blast
      from keep[OF this] show ?thesis by (intro exI[of _ PointToPointConfig]) (simp add: c run_protocol_def vm)
    next
      assume c: "DetermineShardingConfig (tf_dim x) p (tf_src x) (tf_dst x) = Some (ret NoOpConfig)"
        and none: "dst_role x p = None" "\<forall>s. src_role x p = Some s \<longrightarrow> \<not> s < dl_size (sh_devices (tf_dst x))"
      have "underway x tr0 ?Ss ?Ds mgr (trace_of w)"
      proof (cases "src_role x p")
        case (Some s)
        then have "sends_of x s = []" using none(2) Pairwise by (simp add: plan_defs pairs_send_def)
        then show ?thesis using u none(1) Some underway_nothing[OF d(9) sees_source(1)[OF d(8) Some]] by simp
      qed (use u none in simp)
      from leads_destroy[OF a this] show ?thesis
        by (intro exI[of _ NoOpConfig]) (simp add: c run_protocol_def vm)
    qed
  next
    case Gather_All
    have "leads x tr0 ?Ss ?Ds (ReshardGatherShards rl m t p c arg st mgr w)"
      if "c = \<lparr>gs_src_shard = src_role x p, gs_dst_shard = dst_role x p,
     source_to_target_bounds = map_option (gather_piece (tf_src x)) (src_role x p),
     target_from_source_bounds = map (gather_piece (tf_src x)) (upto64 (dl_size (sh_devices (tf_src x))))\<rparr>" for c
      using GatherShards_leads[OF a' u Gather_All] that by simp
    from keep[OF this[OF refl]] gather_config[OF d(9) Gather_All, of p] show ?thesis
      by (simp add: run_protocol_def vm)
  next
    case Scatter_All
    from keep[OF ScatterShards_leads[OF a' u Scatter_All]] spread_config[OF d(9) Scatter_All, of p]
    show ?thesis by (simp add: run_protocol_def vm)
  next
    case Scatter_Gather_Dim
    have "leads x tr0 ?Ss ?Ds (ReshardScatterGather rl m t p c arg st mgr w)"
      if "c = \<lparr>from_source = (case src_role x p of None \<Rightarrow> [] | Some s \<Rightarrow> slices_from s (sends_of x s)),
          to_target = (case dst_role x p of None \<Rightarrow> [] | Some d \<Rightarrow> slices_to d (receives_of x d))\<rparr>" for c
      using ScatterGather_leads[OF a' u] that by simp
    from keep[OF this[OF refl]] along_config[OF d(9) Scatter_Gather_Dim, of p] show ?thesis
      by (simp add: run_protocol_def vm)
  qed (use d(9) in \<open>simp_all add: plan_able_def\<close>)
  then show ?thesis unfolding Reshard_def d(1,2) by (auto simp: d(3,4))
qed

section \<open>All processors of a process\<close>

text \<open>
  Every processor reshards the same two arrays, each with its own view and its own store, in the order of the
  list.
\<close>

type_synonym part_taker = "processor \<times> sharded_array view \<times> sharded_array store"

fun reshard_each ::
  "realm \<Rightarrow> machine \<Rightarrow> proc_tables \<Rightarrow> int \<Rightarrow> part_taker list \<Rightarrow> reshard_manager \<Rightarrow> 'z runtime_scheme \<Rightarrow>
   (sharded_array store list \<times> reshard_manager \<times> 'z runtime_scheme) res option" where
  "reshard_each rl m t max_dim [] mgr w = Some (ret ([], mgr, w))"
| "reshard_each rl m t max_dim ((p, v, st) # rest) mgr w =
     (case Reshard rl m t max_dim p v st mgr w of
        None \<Rightarrow> None
      | Some (Inl e) \<Rightarrow> Some (Inl e)
      | Some (Inr (st', mgr1, w1)) \<Rightarrow>
          map_option (\<lambda>r. andThen r (\<lambda>(sts, mgr', w'). ret (st' # sts, mgr', w')))
            (reshard_each rl m t max_dim rest mgr1 w1))"

definition roles :: "(processor \<Rightarrow> int option) \<Rightarrow> part_taker list \<Rightarrow> int set" where
  "roles role parts = (\<Union>(p, v, st) \<in> set parts. set_option (role p))"

lemma roles_simps [simp]:
  "roles role [] = {}" "roles role ((p, v, st) # parts) = set_option (role p) \<union> roles role parts"
  by (simp_all add: roles_def)

lemma other_role:
  assumes "dl_shard_id ds (global_id p) = Some s" and "global_id q \<noteq> global_id p"
  shows "dl_shard_id ds (global_id q) \<noteq> Some s"
  using assms by (auto simp: dl_shard_id_iff)

lemma reshard_each_keeps:
  fixes w :: "'z runtime_scheme"
  assumes step: "\<And>p v st Ss Ds mgr w. (p, v, st) \<in> set parts \<Longrightarrow> fresh_role (src_role x p) Ss \<Longrightarrow>
      fresh_role (dst_role x p) Ds \<Longrightarrow> I Ss Ds mgr (trace_of w) \<Longrightarrow>
      \<exists>st' mgr' (w' :: 'z runtime_scheme). Reshard rl m t (tf_dim x) p v st mgr w = Some (ret (st', mgr', w')) \<and>
        I (with_role (src_role x p) Ss) (with_role (dst_role x p) Ds) mgr' (trace_of w')"
    and "distinct (map (\<lambda>(p, v, st). global_id p) parts)" and "I {} {} mgr (trace_of w)"
  shows "\<exists>sts mgr' (w' :: 'z runtime_scheme). reshard_each rl m t (tf_dim x) parts mgr w = Some (ret (sts, mgr', w')) \<and>
    I (roles (src_role x) parts) (roles (dst_role x) parts) mgr' (trace_of w')"
proof -
  have "\<exists>sts mgr' (w' :: 'z runtime_scheme). reshard_each rl m t (tf_dim x) rest mgr w = Some (ret (sts, mgr', w')) \<and>
      I (roles (src_role x) rest \<union> Ss) (roles (dst_role x) rest \<union> Ds) mgr' (trace_of w')"
    if "set rest \<subseteq> set parts" "distinct (map (\<lambda>(p, v, st). global_id p) rest)"
      "\<forall>(p, v, st) \<in> set rest. fresh_role (src_role x p) Ss \<and> fresh_role (dst_role x p) Ds"
      "I Ss Ds mgr (trace_of w)" for rest Ss Ds mgr and w :: "'z runtime_scheme"
    using that
  proof (induction rest arbitrary: Ss Ds mgr w)
    case (Cons part rest)
    obtain p v st where part: "part = (p, v, st)" by (cases part)
    have "(p, v, st) \<in> set parts" "fresh_role (src_role x p) Ss" "fresh_role (dst_role x p) Ds"
      using Cons.prems(1,3) by (auto simp: part)
    from step[OF this Cons.prems(4)] obtain st' mgr1 and w1 :: "'z runtime_scheme"
      where r: "Reshard rl m t (tf_dim x) p v st mgr w = Some (ret (st', mgr1, w1))"
        and u1: "I (with_role (src_role x p) Ss) (with_role (dst_role x p) Ds) mgr1 (trace_of w1)"
      by blast
    have "fresh_role (src_role x q) (with_role (src_role x p) Ss) \<and> fresh_role (dst_role x q) (with_role (dst_role x p) Ds)"
      if q: "(q, v', st'') \<in> set rest" for q v' st''
    proof -
      have "global_id q \<noteq> global_id p" using Cons.prems(2) q by (force simp: part)
      moreover have "fresh_role (src_role x q) Ss" "fresh_role (dst_role x q) Ds"
        using Cons.prems(3) q by auto
      ultimately show ?thesis using other_role by (fastforce simp: fresh_role_def)
    qed
    then have "\<forall>(p', v, st) \<in> set rest. fresh_role (src_role x p') (with_role (src_role x p) Ss) \<and>
        fresh_role (dst_role x p') (with_role (dst_role x p) Ds)" by blast
    from Cons.IH[OF _ _ this u1] Cons.prems(1,2) obtain sts mgr' and w' :: "'z runtime_scheme"
      where "reshard_each rl m t (tf_dim x) rest mgr1 w1 = Some (ret (sts, mgr', w'))"
        and "I (roles (src_role x) rest \<union> with_role (src_role x p) Ss)
          (roles (dst_role x) rest \<union> with_role (dst_role x p) Ds) mgr' (trace_of w')"
      by (auto simp: part)
    then show ?case by (simp add: part r ac_simps)
  qed simp
  from this[of parts "{}" "{}" mgr w] show ?thesis using assms(2,3) by (simp add: fresh_role_def case_prod_unfold)
qed

lemma all_shards:
  assumes "\<forall>i. dl_contains (sh_devices s) i \<longrightarrow> i \<in> (\<lambda>(p, v, st). global_id p) ` set parts" and "is_shard s i"
  shows "i \<in> roles (\<lambda>p. dl_shard_id (sh_devices s) (global_id p)) parts"
proof -
  have i: "dl_shard_id (sh_devices s) (dl_index (sh_devices s) i) = Some i"
    using assms(2) by (simp add: dl_shard_id_iff is_shard_def)
  then have "dl_contains (sh_devices s) (dl_index (sh_devices s) i)" by (simp add: dl_shard_id_def split: if_splits)
  then obtain p v st where "(p, v, st) \<in> set parts" "global_id p = dl_index (sh_devices s) i"
    using assms(1) by fastforce
  then show ?thesis using i by (force simp: roles_def)
qed

abbreviation idle_for :: "transfer \<Rightarrow> reshard_manager \<Rightarrow> bool" where
  "idle_for x \<equiv> idle_on (ledger_of x)"

lemma underway_start: "idle_for x mgr \<Longrightarrow> underway x tr {} {} mgr tr"
proof -
  assume "idle_for x mgr"
  moreover have "sent x {} = {}" "received x {} = {}" by (simp_all add: sent_def received_def)
  ultimately show ?thesis using idle_start unfolding underway_def booked_def by fastforce
qed

lemma underway_end:
  assumes "underway x tr0 Ss Ds mgr tr" and "Collect (is_shard (tf_src x)) \<subseteq> Ss"
    and "Collect (is_shard (tf_dst x)) \<subseteq> Ds" and "transfer_able x"
  shows "idle_for x mgr" and "\<exists>calls. tr = tr0 @ calls \<and> set (rect_copies calls) =
    {(b, tf_src_inst x s, tf_dst_inst x d) | b s d. is_shard (tf_src x) s \<and> (d, b) \<in> set (sends_of x s)}"
proof -
  have all: "k \<in> sent x Ss" "k \<in> received x Ds" if "k \<in> lg_keys (ledger_of x)" for k
    using that assms(2,3) plan.send_target[OF assms(4)]
    by (auto simp: sent_def received_def ledger_of_def)
  show "idle_for x mgr"
    using assms(1) all idle_end[where l = "ledger_of x"] unfolding underway_def booked_def by blast
  have "sent x Ss \<inter> received x Ds = lg_keys (ledger_of x)" using all by (auto simp: sent_def)
  moreover have "entry (ledger_of x) ` lg_keys (ledger_of x) =
      {(b, tf_src_inst x s, tf_dst_inst x d) | b s d. is_shard (tf_src x) s \<and> (d, b) \<in> set (sends_of x s)}" (is "?L = ?R")
  proof -
    have entry: "entry (ledger_of x) (part_key x s d) = (b, tf_src_inst x s, tf_dst_inst x d)"
      if "is_shard (tf_src x) s" "(d, b) \<in> set (sends_of x s)" for s d b
      using sender_part[OF assms(4) that] by (simp add: entry_def)
    show ?thesis
    proof
      show "?L \<subseteq> ?R"
      proof
        fix c assume "c \<in> ?L"
        then obtain k where k: "k \<in> lg_keys (ledger_of x)" and c: "c = entry (ledger_of x) k" by blast
        obtain s d b where "k = part_key x s d" "is_shard (tf_src x) s" "(d, b) \<in> set (sends_of x s)"
          using k by (auto simp: ledger_of_def)
        then show "c \<in> ?R" using entry c by blast
      qed
      show "?R \<subseteq> ?L"
      proof
        fix c assume "c \<in> ?R"
        then obtain b s d where c: "c = (b, tf_src_inst x s, tf_dst_inst x d)" and p: "is_shard (tf_src x) s"
          "(d, b) \<in> set (sends_of x s)" by blast
        show "c \<in> ?L" using entry[OF p] sender_part(1)[OF assms(4) p] c by (metis imageI)
      qed
    qed
  qed
  ultimately show "\<exists>calls. tr = tr0 @ calls \<and> set (rect_copies calls) =
      {(b, tf_src_inst x s, tf_dst_inst x d) | b s d. is_shard (tf_src x) s \<and> (d, b) \<in> set (sends_of x s)}"
    using assms(1) by (auto simp: underway_def booked_def ordered_def)
qed

text \<open>
  C1. A reshard moves the array. The processors of a process each run \<open>Reshard\<close> on the same two
  arrays, in any order: every run succeeds, the manager has nothing left to pair, and if the tiles of the
  source hold an array, then after the copies that were issued, performed in whatever order, the tile of
  every shard of the target holds its part of that array. For every pair of shardings that has a plan:
  shard to shard, gathers of full or sliced shards, scatters, and scatters and gathers along a dimension.
\<close>

theorem reshard_moves_array:
  fixes w :: "'z runtime_scheme"
  assumes "plan_able (tf_dim x) (tf_src x) (tf_dst x)"
    and "\<forall>(p, v, st) \<in> set parts. \<exists>sa da. sees m t x p v st sa da"
    and "distinct (map (\<lambda>(p, v, st). global_id p) parts)"
    and "\<forall>i. dl_contains (sh_devices (tf_src x)) i \<or> dl_contains (sh_devices (tf_dst x)) i \<longrightarrow>
      i \<in> (\<lambda>(p, v, st). global_id p) ` set parts"
    and "\<forall>s d. is_shard (tf_src x) s \<longrightarrow> is_shard (tf_dst x) d \<longrightarrow> tf_src_inst x s \<noteq> tf_dst_inst x d"
    and "idle_for x mgr" and "user_events_exist rl" and "Util_proc t = ret u"
  shows "\<exists>sts mgr' calls (w' :: 'z runtime_scheme).
    reshard_each rl m t (tf_dim x) parts mgr w = Some (ret (sts, mgr', w')) \<and> idle_for x mgr' \<and>
    trace_of w' = trace_of w @ calls \<and>
    (\<forall>mem (A :: int list \<Rightarrow> 'v) copies.
       (\<forall>s. is_shard (tf_src x) s \<longrightarrow> tile_held (tf_dim x) (tf_src x) s (mem (tf_src_inst x s)) A) \<longrightarrow>
       set copies = set (rect_copies calls) \<longrightarrow>
       (\<forall>d. is_shard (tf_dst x) d \<longrightarrow>
          tile_held (tf_dim x) (tf_dst x) d (after_copies copies mem (tf_dst_inst x d)) A))"
proof -
  have "\<exists>sts mgr' (w' :: 'z runtime_scheme). reshard_each rl m t (tf_dim x) parts mgr w = Some (ret (sts, mgr', w')) \<and>
    underway x (trace_of w) (roles (src_role x) parts) (roles (dst_role x) parts) mgr' (trace_of w')"
  proof (rule reshard_each_keeps[where I = "underway x (trace_of w)", OF _ assms(3) underway_start[OF assms(6)]])
    fix p v st Ss Ds mgr1 and w1 :: "'z runtime_scheme"
    assume "(p, v, st) \<in> set parts" and new: "fresh_role (src_role x p) Ss" "fresh_role (dst_role x p) Ds"
      and u: "underway x (trace_of w) Ss Ds mgr1 (trace_of w1)"
    then obtain sa da where "sees m t x p v st sa da" using assms(2) by blast
    then have "at_work rl m t x Ss Ds p v st sa da" using assms(1,7,8) new by (auto simp: at_work_def)
    from Reshard_leads[OF this u]
    show "\<exists>st' mgr' (w' :: 'z runtime_scheme). Reshard rl m t (tf_dim x) p v st mgr1 w1 = Some (ret (st', mgr', w')) \<and>
      underway x (trace_of w) (with_role (src_role x p) Ss) (with_role (dst_role x p) Ds) mgr' (trace_of w')"
      by (auto simp: leads_def)
  qed
  then obtain sts mgr' and w' :: "'z runtime_scheme"
    where run: "reshard_each rl m t (tf_dim x) parts mgr w = Some (ret (sts, mgr', w'))"
      and u: "underway x (trace_of w) (roles (src_role x) parts) (roles (dst_role x) parts) mgr' (trace_of w')"
    by blast
  have "Collect (is_shard (tf_src x)) \<subseteq> roles (src_role x) parts" "Collect (is_shard (tf_dst x)) \<subseteq> roles (dst_role x) parts"
    using all_shards[where parts = parts] assms(4) by blast+
  from underway_end[OF u this assms(1)] obtain calls
    where idle: "idle_for x mgr'" and calls: "trace_of w' = trace_of w @ calls" and c: "set (rect_copies calls) =
      {(b, tf_src_inst x s, tf_dst_inst x d) | b s d. is_shard (tf_src x) s \<and> (d, b) \<in> set (sends_of x s)}"
    by blast
  have "tile_held (tf_dim x) (tf_dst x) d (after_copies copies mem (tf_dst_inst x d)) A"
    if "\<forall>s. is_shard (tf_src x) s \<longrightarrow> tile_held (tf_dim x) (tf_src x) s (mem (tf_src_inst x s)) A"
      "set copies = set (rect_copies calls)" "is_shard (tf_dst x) d" for mem d copies and A :: "int list \<Rightarrow> 'v"
    using plan.carries_array[OF assms(1) trans[OF that(2) c], of mem A d] that(1,3) assms(5) by blast
  then show ?thesis using run idle calls by blast
qed

text \<open>
  Two devices of one process gather an array of eight elements, cut in two, into a copy on each of them.
\<close>

definition halves :: sharding where
  "halves = \<lparr>sh_dims = [\<lparr>dim_size = 8, dim_sharding = 2, dim_permutation = 0\<rparr>], sh_devices = dl_ctor 0 2\<rparr>"

definition copies_of_all :: sharding where
  "copies_of_all = \<lparr>sh_dims = [\<lparr>dim_size = 8, dim_sharding = 1, dim_permutation = 0\<rparr>,
     \<lparr>dim_size = 1, dim_sharding = 2, dim_permutation = 1\<rparr>], sh_devices = dl_ctor 0 2\<rparr>"

definition placed_array :: "sharding \<Rightarrow> 64 word \<Rightarrow> (int \<Rightarrow> inst) \<Rightarrow> int \<Rightarrow> sharded_array" where
  "placed_array s mesh inst i = \<lparr>sa_mesh_id = mesh, sa_shape = \<lparr>shp_type = F32, shp_sharding = s\<rparr>, sa_shard_id = i,
     sa_proc = cpu i, sa_name = None, sa_tile = Some \<lparr>at_instance = inst i,
       at_shape = \<lparr>tsh_type = F32, tsh_dims = [4], tsh_bounds = tile_box i s\<rparr>, at_type = Int32\<rparr>\<rparr>"

definition gather_example :: transfer where
  "gather_example = \<lparr>tf_dim = 3, tf_src = halves, tf_dst = copies_of_all,
     tf_src_id = unique_id_of (placed_array halves 0 (\<lambda>i. 50 + nat i) 0),
     tf_dst_id = unique_id_of (placed_array copies_of_all 1 (\<lambda>i. 60 + nat i) 0),
     tf_src_inst = (\<lambda>i. 50 + nat i), tf_dst_inst = (\<lambda>i. 60 + nat i)\<rparr>"

definition gather_takers :: "part_taker list" where
  "gather_takers = map (\<lambda>i. (cpu i,
     example_view\<lparr>view_content := SharedValue (Some (placed_array halves 0 (\<lambda>i. 50 + nat i) i))\<rparr>,
     Store_DeferredCreate 9 (placed_array copies_of_all 1 (\<lambda>i. 60 + nat i) i))) [1, 0]"

lemma gather_example_able: "plan_able 3 halves copies_of_all"
proof -
  have "sharding_ok halves" "sharding_ok copies_of_all"
    by (simp_all add: sharding_ok_def halves_def copies_of_all_def dim_ok_def is_repl_dim_def size_of_def
        elements_def device_list_ok_def dl_defs int64_max_def)
  then have "same_extent 3 halves copies_of_all"
    by (simp add: same_extent_def halves_def copies_of_all_def is_repl_dim_def rank_supported_def)
  then show ?thesis
    by (simp add: plan_able_def plan_family_def gather_able_def tiles_def halves_def copies_of_all_def
        is_repl_dim_def dl_defs)
qed

lemma placed_array_at:
  assumes "s \<in> {halves, copies_of_all}" and "i \<in> {0, 1}"
  shows "array_at two_spaces one_process (cpu i) s (unique_id_of (placed_array s mesh inst 0)) inst
    (placed_array s mesh inst i)"
proof -
  have dev: "sh_devices s = dl_ctor 0 2" using assms(1) by (auto simp: halves_def copies_of_all_def)
  have "\<exists>host. HostForShard two_spaces one_process (placed_array s mesh inst i) j = ret host \<and>
      space_of two_spaces host = space_of two_spaces (pr_proc (cpu i))" if "is_shard s j" for j
  proof -
    have "j \<in> {0, 1}" using that by (auto simp: is_shard_def dev)
    then show ?thesis using assms(2) dev
      by (auto simp: HostForShard_def placed_array_def cpu_def dl_defs add64_def chk_def GetAttachedHost_def
          RemoteProc_def one_process_def four_tables_def two_spaces_def value_or_def vec_at_def int64_ok_def
          int64_min_def int64_max_def no_tables_def)
  qed
  then show ?thesis using assms(2) dev
    by (auto simp: array_at_def placed_array_def unique_id_of_def cpu_def dl_defs)
qed

lemma gather_example_sees:
  "\<forall>(p, v, st) \<in> set gather_takers. \<exists>sa da. sees two_spaces one_process gather_example p v st sa da"
proof -
  have "sees two_spaces one_process gather_example (cpu i)
      (example_view\<lparr>view_content := SharedValue (Some (placed_array halves 0 (\<lambda>i. 50 + nat i) i))\<rparr>)
      (Store_DeferredCreate 9 (placed_array copies_of_all 1 (\<lambda>i. 60 + nat i) i))
      (placed_array halves 0 (\<lambda>i. 50 + nat i) i) (placed_array copies_of_all 1 (\<lambda>i. 60 + nat i) i)"
    if "i \<in> {0, 1}" for i
    using placed_array_at[OF _ that, of halves] placed_array_at[OF _ that, of copies_of_all]
    by (simp add: sees_def gather_example_def view_get_def store_get_def Store_DeferredCreate_def HasName_def)
      (simp add: placed_array_def)
  then show ?thesis by (auto simp: gather_takers_def)
qed

definition split_memory :: "(inst, int) memory" where
  \<comment> \<open>element \<open>n\<close> of the array is \<open>n\<close>; each half is in one instance\<close>
  "split_memory = (\<lambda>i p. if i = 50 \<and> hd p < 4 \<or> i = 51 \<and> 4 \<le> hd p then hd p else - 1)"

lemma split_memory_held:
  assumes "is_shard halves s"
  shows "tile_held 3 halves s (split_memory (50 + nat s)) hd"
proof -
  have s: "s = 0 \<or> s = 1" using assms by (auto simp: is_shard_def halves_def)
  have "sharding_ok halves" "rank_supported 3 halves"
    by (simp_all add: sharding_ok_def halves_def dim_ok_def is_repl_dim_def size_of_def
        elements_def device_list_ok_def dl_defs int64_max_def rank_supported_def)
  then have "ComputeTileBounds 3 s halves = ret (tile_box s halves)"
    using assms by (intro ComputeTileBounds_ok) (auto simp: is_shard_def)
  moreover have "split_memory (50 + nat s) p = hd p" if "in_rect (tile_box s halves) p" for p
    using that s
    by (cases p) (auto simp: split_memory_def tile_box_def tile_index_def halves_def device_order_def tile_spans_def
        is_repl_dim_def tile_span_def box_of_def in_rect_def)
  ultimately show ?thesis by (auto simp: tile_held_def)
qed

theorem reshard_moves_array_witness:
  "\<exists>sts mgr' (w' :: runtime). reshard_each fresh_realm two_spaces one_process 3 gather_takers GetManager
      \<lparr>trace_of = [], pending_ops = 0\<rparr> = Some (ret (sts, mgr', w')) \<and>
    tile_held 3 copies_of_all 0 (after_copies (rect_copies (trace_of w')) split_memory 60) hd \<and>
    tile_held 3 copies_of_all 1 (after_copies (rev (rect_copies (trace_of w'))) split_memory 61) hd"
proof -
  let ?x = gather_example
  have x: "tf_dim ?x = 3" "tf_src ?x = halves" "tf_dst ?x = copies_of_all"
    "tf_src_inst ?x = (\<lambda>i. 50 + nat i)" "tf_dst_inst ?x = (\<lambda>i. 60 + nat i)"
    by (simp_all add: gather_example_def)
  have able: "plan_able (tf_dim ?x) (tf_src ?x) (tf_dst ?x)" using gather_example_able by (simp add: x)
  have ids: "distinct (map (\<lambda>(p, v, st). global_id p) gather_takers)"
    "\<forall>i. dl_contains (sh_devices (tf_src ?x)) i \<or> dl_contains (sh_devices (tf_dst ?x)) i \<longrightarrow>
      i \<in> (\<lambda>(p, v, st). global_id p) ` set gather_takers"
    by (auto simp: gather_takers_def cpu_def x halves_def copies_of_all_def dl_defs)
  have apart: "\<forall>s d. is_shard (tf_src ?x) s \<longrightarrow> is_shard (tf_dst ?x) d \<longrightarrow> tf_src_inst ?x s \<noteq> tf_dst_inst ?x d"
    by (auto simp: x is_shard_def halves_def)
  have idle: "idle_for ?x GetManager" by (simp add: idle_on_def GetManager_def new_p2p_def)
  have user: "user_events_exist fresh_realm" by (simp add: user_events_exist_def fresh_realm_def NO_EVENT_def)
  have held: "\<forall>s. is_shard (tf_src ?x) s \<longrightarrow>
      tile_held (tf_dim ?x) (tf_src ?x) s (split_memory (tf_src_inst ?x s)) hd"
    using split_memory_held by (simp add: x)
  have shards: "is_shard (tf_dst ?x) 0" "is_shard (tf_dst ?x) 1"
    by (simp_all add: x is_shard_def copies_of_all_def)
  let ?w = "\<lparr>trace_of = [], pending_ops = 0\<rparr> :: runtime"
  from reshard_moves_array[OF able gather_example_sees ids apart idle user one_process_util, of ?w]
  obtain sts mgr' calls and w' :: runtime
    where run: "reshard_each fresh_realm two_spaces one_process (tf_dim ?x) gather_takers GetManager ?w =
        Some (ret (sts, mgr', w'))"
      and calls: "trace_of w' = trace_of ?w @ calls"
      and moved: "\<forall>mem (A :: int list \<Rightarrow> int) copies.
       (\<forall>s. is_shard (tf_src ?x) s \<longrightarrow> tile_held (tf_dim ?x) (tf_src ?x) s (mem (tf_src_inst ?x s)) A) \<longrightarrow>
       set copies = set (rect_copies calls) \<longrightarrow>
       (\<forall>d. is_shard (tf_dst ?x) d \<longrightarrow>
          tile_held (tf_dim ?x) (tf_dst ?x) d (after_copies copies mem (tf_dst_inst ?x d)) A)"
    by blast
  note effect = moved[rule_format, OF held[rule_format]]
  show ?thesis
    using run calls effect[of "rect_copies calls" 0, OF _ _ shards(1)]
      effect[of "rev (rect_copies calls)" 1, OF _ _ shards(2)]
    by (simp add: x)
qed

end
