(* ===== verification/Broadcast_Ledger.thy ===== *)
theory Broadcast_Ledger
  imports Array_Moves
begin

text \<open>
  Full broadcast trees: every source shard serves the same power of two of target shards. Where each target shard
  gets the array from, as one function of the shard, whoever computes it (\<open>my_target\<close>); the copies this asks for,
  as a ledger; and what is the case while a broadcast is under way (\<open>spreading\<close>).
\<close>

section \<open>Full trees\<close>

definition full_trees :: "nat \<Rightarrow> sharding \<Rightarrow> sharding \<Rightarrow> bool" where
  "full_trees k src dst \<longleftrightarrow> bcast_ok src dst \<and> dl_size (sh_devices dst) = dl_size (sh_devices src) * 2 ^ k"

definition my_target :: "sharding \<Rightarrow> sharding \<Rightarrow> int \<Rightarrow> target_config" where
  "my_target src dst d = (case GetBroadcastConfig None (Some d) src dst of
     Some (Inr c) \<Rightarrow> (case bc_target c of Some t \<Rightarrow> t
       | None \<Rightarrow> \<lparr>tc_src_shard = None, tc_dst_root_shard = None, tc_dst_leaf_shards = []\<rparr>)
   | _ \<Rightarrow> \<lparr>tc_src_shard = None, tc_dst_root_shard = None, tc_dst_leaf_shards = []\<rparr>)"

abbreviation leaves_of :: "sharding \<Rightarrow> sharding \<Rightarrow> int \<Rightarrow> int list" where
  "leaves_of src dst d \<equiv> tc_dst_leaf_shards (my_target src dst d)"

lemma full_treesD:
  assumes "full_trees k src dst"
  shows "bcast_ok src dst" and "dl_size (sh_devices dst) = dl_size (sh_devices src) * 2 ^ k"
    and "1 \<le> dl_size (sh_devices src)" and "tree_width src dst = 2 ^ k"
proof -
  show ok: "bcast_ok src dst" and D: "dl_size (sh_devices dst) = dl_size (sh_devices src) * 2 ^ k"
    using assms by (simp_all add: full_trees_def)
  show S: "1 \<le> dl_size (sh_devices src)" using ok by (simp add: bcast_ok_def)
  show "tree_width src dst = 2 ^ k" using width_power[OF S] D by simp
qed

lemma source_sends_root:
  assumes "full_trees k src dst" and "is_shard src s"
  shows "sends_root src dst (Some s)" and "is_shard dst (s * 2 ^ k)"
proof -
  note f = full_treesD[OF assms(1)]
  have "s * 2 ^ k < dl_size (sh_devices src) * 2 ^ k" "0 \<le> s * 2 ^ k"
    using assms(2) by (simp_all add: is_shard_def)
  then show "sends_root src dst (Some s)" "is_shard dst (s * 2 ^ k)"
    using assms(2) width_power[OF f(3), of k] by (simp_all add: sends_root_def is_shard_def f(2))
qed

lemma tree_target_unique:
  assumes "tree_target (2 ^ k) (S * 2 ^ k) d t" and "tree_target (2 ^ k) (S * 2 ^ k) d u"
    and "0 \<le> d" and "d < S * 2 ^ k"
  shows "t = u"
proof -
  obtain i where i: "rank_exp k (d mod 2 ^ k) i" "t = rank_target (d div 2 ^ k) (d div 2 ^ k * 2 ^ k) (2 ^ k) (d mod 2 ^ k) i"
    by (rule full_tree_target[OF assms(1,3,4)])
  obtain j where j: "rank_exp k (d mod 2 ^ k) j" "u = rank_target (d div 2 ^ k) (d div 2 ^ k * 2 ^ k) (2 ^ k) (d mod 2 ^ k) j"
    by (rule full_tree_target[OF assms(2,3,4)])
  show ?thesis using i j rank_exp_unique[OF i(1) j(1)] by simp
qed

lemma my_target:
  assumes f: "full_trees k src dst" and d: "is_shard dst d"
  shows "tree_target (2 ^ k) (dl_size (sh_devices src) * 2 ^ k) d (my_target src dst d)"
    and "sends_root src dst role \<Longrightarrow> GetBroadcastConfig role (Some d) src dst = Some (ret
      \<lparr>bc_source = map_option (\<lambda>s. \<lparr>dst_root_shards = [s * 2 ^ k]\<rparr>) role, bc_target = Some (my_target src dst d)\<rparr>)"
proof -
  note f = full_treesD[OF f]
  have d': "0 \<le> d" "d < dl_size (sh_devices dst)" using d by (simp_all add: is_shard_def)
  have none: "sends_root src dst None" by (simp add: sends_root_def)
  obtain t where t: "tree_target (2 ^ k) (dl_size (sh_devices src) * 2 ^ k) d t"
      "GetBroadcastConfig None (Some d) src dst = Some (ret \<lparr>bc_source = None, bc_target = Some t\<rparr>)"
    using GetBroadcastConfig_ok[OF f(1) none d', unfolded f(4), unfolded f(2) option.map] by metis
  have mine: "my_target src dst d = t" by (simp add: my_target_def t(2))
  show "tree_target (2 ^ k) (dl_size (sh_devices src) * 2 ^ k) d (my_target src dst d)" using t(1) by (simp add: mine)
  show "GetBroadcastConfig role (Some d) src dst = Some (ret
      \<lparr>bc_source = map_option (\<lambda>s. \<lparr>dst_root_shards = [s * 2 ^ k]\<rparr>) role, bc_target = Some (my_target src dst d)\<rparr>)"
    if role: "sends_root src dst role"
  proof -
    obtain u where u: "tree_target (2 ^ k) (dl_size (sh_devices src) * 2 ^ k) d u"
        "GetBroadcastConfig role (Some d) src dst = Some (ret
          \<lparr>bc_source = map_option (\<lambda>s. \<lparr>dst_root_shards = [s * 2 ^ k]\<rparr>) role, bc_target = Some u\<rparr>)"
      using GetBroadcastConfig_ok[OF f(1) role d', unfolded f(4), unfolded f(2)] by metis
    have "u = t" using tree_target_unique[OF u(1) t(1)] d' f(2) by simp
    then show ?thesis using u(2) mine by simp
  qed
qed

lemma my_target_rank:
  assumes "full_trees k src dst" and "is_shard dst d"
  obtains j where "rank_exp k (d mod 2 ^ k) j"
    and "my_target src dst d = rank_target (d div 2 ^ k) (d div 2 ^ k * 2 ^ k) (2 ^ k) (d mod 2 ^ k) j"
proof -
  have d: "0 \<le> d" "d < dl_size (sh_devices src) * 2 ^ k"
    using assms(2) unfolding is_shard_def full_treesD(2)[OF assms(1)] by auto
  obtain j where "rank_exp k (d mod 2 ^ k) j"
      "my_target src dst d = rank_target (d div 2 ^ k) (d div 2 ^ k * 2 ^ k) (2 ^ k) (d mod 2 ^ k) j"
    by (rule full_tree_target[OF my_target(1)[OF assms] d])
  then show thesis by (rule that)
qed

text \<open>A root waits for its source, every other shard for its parent.\<close>

lemma root_target:
  assumes "full_trees k src dst" and "is_shard src s"
  shows "tc_src_shard (my_target src dst (s * 2 ^ k)) = Some s"
    and "tc_dst_root_shard (my_target src dst (s * 2 ^ k)) = None"
proof -
  have "s * 2 ^ k mod 2 ^ k = 0" "s * 2 ^ k div 2 ^ k = s" by simp_all
  then obtain j where "my_target src dst (s * 2 ^ k) = rank_target s (s * 2 ^ k) (2 ^ k) 0 j"
    using my_target_rank[OF assms(1) source_sends_root(2)[OF assms]] by metis
  then show "tc_src_shard (my_target src dst (s * 2 ^ k)) = Some s"
    "tc_dst_root_shard (my_target src dst (s * 2 ^ k)) = None" by (simp_all add: rank_target_def)
qed

lemma leaf_target:
  assumes f: "full_trees k src dst" and d: "is_shard dst d" and e: "e \<in> set (leaves_of src dst d)"
  shows "is_shard dst e" and "tc_src_shard (my_target src dst e) = None"
    and "tc_dst_root_shard (my_target src dst e) = Some d" and "d mod 2 ^ k < e mod 2 ^ k"
proof -
  have d': "0 \<le> d" "d < dl_size (sh_devices src) * 2 ^ k" using d full_treesD(2)[OF f] by (simp_all add: is_shard_def)
  obtain i where i: "e = d + 2 ^ i" "e < dl_size (sh_devices src) * 2 ^ k" "e div 2 ^ k = d div 2 ^ k"
      "e mod 2 ^ k = d mod 2 ^ k + 2 ^ i" "\<And>m. rank_exp m (e mod 2 ^ k) i"
    using tree_leaf[OF my_target(1)[OF f d] e _ d'] by (metis one_le_numeral one_le_power)
  have pos: "(0 :: int) < 2 ^ i" by simp
  show "is_shard dst e" using d' i(1,2) pos full_treesD(2)[OF f] by (simp add: is_shard_def)
  then obtain j where j: "rank_exp k (e mod 2 ^ k) j"
      "my_target src dst e = rank_target (e div 2 ^ k) (e div 2 ^ k * 2 ^ k) (2 ^ k) (e mod 2 ^ k) j"
    by (rule my_target_rank[OF f])
  have "0 \<le> d mod 2 ^ k" by simp
  then have r: "0 < e mod 2 ^ k" using i(4) pos by linarith
  have "j = i" by (rule rank_exp_unique[OF j(1) i(5)])
  moreover have "d div 2 ^ k * 2 ^ k + d mod 2 ^ k = d" by (rule div_mult_mod_eq)
  ultimately show "tc_src_shard (my_target src dst e) = None" "tc_dst_root_shard (my_target src dst e) = Some d"
    using j(2) r i(3,4) by (simp_all add: rank_target_def)
  show "d mod 2 ^ k < e mod 2 ^ k" using i(4) pos by simp
qed

lemma distinct_leaves:
  assumes "full_trees k src dst" and "is_shard dst d"
  shows "distinct (leaves_of src dst d)"
proof -
  obtain j where "my_target src dst d = rank_target (d div 2 ^ k) (d div 2 ^ k * 2 ^ k) (2 ^ k) (d mod 2 ^ k) j"
    by (rule my_target_rank[OF assms])
  moreover have "inj_on (\<lambda>i. root + (r + 2 ^ i)) A" for root r :: int and A by (auto simp: inj_on_def)
  ultimately show ?thesis by (auto simp: rank_target_def rank_leaves_def distinct_map)
qed

lemma target_cases:
  assumes f: "full_trees k src dst" and d: "is_shard dst d"
  obtains (root) s where "is_shard src s" and "d = s * 2 ^ k" and "tc_src_shard (my_target src dst d) = Some s"
      and "tc_dst_root_shard (my_target src dst d) = None"
    | (inner) p where "is_shard dst p" and "d \<in> set (leaves_of src dst p)"
      and "tc_dst_root_shard (my_target src dst d) = Some p" and "tc_src_shard (my_target src dst d) = None"
proof (cases "d mod 2 ^ k = 0")
  case True
  let ?s = "d div 2 ^ k"
  have "?s * 2 ^ k = d" using True by (metis add.right_neutral div_mult_mod_eq)
  moreover have "is_shard src ?s"
    using d full_treesD(2)[OF f] by (simp add: is_shard_def pos_imp_zdiv_nonneg_iff div_less_of_less_mult)
  ultimately show thesis using root[of ?s] root_target[OF f, of ?s] by simp
next
  case False
  have d': "0 \<le> d" "d < dl_size (sh_devices dst)" using d by (simp_all add: is_shard_def)
  note fd = full_treesD[OF f]
  obtain p u where p: "0 \<le> p" "p < dl_size (sh_devices dst)"
      "GetBroadcastConfig None (Some p) src dst = Some (ret \<lparr>bc_source = None, bc_target = Some u\<rparr>)"
      "d \<in> set (tc_dst_leaf_shards u)" "tc_dst_root_shard (my_target src dst d) = Some p"
      "tc_src_shard (my_target src dst d) = None"
    using tree_parent[OF fd(1,2) d' False my_target(1)[OF f d]] by metis
  have "my_target src dst p = u" by (simp add: my_target_def p(3))
  then show thesis using inner[of p] p by (simp add: is_shard_def)
qed

section \<open>The copies of a broadcast\<close>

text \<open>
  One copy into each shard of the target. Its key is named after the target shard: from the source for a root,
  from the parent, which is a shard of the same array, for the others.
\<close>

abbreviation target_of :: "transfer \<Rightarrow> int \<Rightarrow> target_config" where
  "target_of x d \<equiv> my_target (tf_src x) (tf_dst x) d"

abbreviation leaves_in :: "transfer \<Rightarrow> int \<Rightarrow> int list" where
  "leaves_in x d \<equiv> leaves_of (tf_src x) (tf_dst x) d"

definition hop_key :: "transfer \<Rightarrow> int \<Rightarrow> int \<Rightarrow> reshard_key" where
  "hop_key x p d = \<lparr>key_src_id = tf_dst_id x, key_dst_id = tf_dst_id x, key_src_shard = p, key_dst_shard = d\<rparr>"

definition key_to :: "transfer \<Rightarrow> int \<Rightarrow> reshard_key" where
  "key_to x d = (case tc_src_shard (target_of x d) of Some s \<Rightarrow> part_key x s d
     | None \<Rightarrow> hop_key x (the (tc_dst_root_shard (target_of x d))) d)"

definition origin :: "transfer \<Rightarrow> int \<Rightarrow> inst" where
  "origin x d = (case tc_src_shard (target_of x d) of Some s \<Rightarrow> tf_src_inst x s
     | None \<Rightarrow> tf_dst_inst x (the (tc_dst_root_shard (target_of x d))))"

definition tree_ledger :: "transfer \<Rightarrow> ledger" where
  "tree_ledger x = \<lparr>lg_keys = key_to x ` Collect (is_shard (tf_dst x)),
     lg_box = \<lambda>k. tile_box (key_dst_shard k) (tf_dst x),
     lg_src = \<lambda>k. origin x (key_dst_shard k), lg_dst = \<lambda>k. tf_dst_inst x (key_dst_shard k)\<rparr>"

text \<open>The keys whose source has called, and whose target has, once these roles are done.\<close>

definition sender_in :: "transfer \<Rightarrow> int set \<Rightarrow> int set \<Rightarrow> int \<Rightarrow> bool" where
  "sender_in x Ss Ds d \<longleftrightarrow> (case tc_src_shard (target_of x d) of Some s \<Rightarrow> s \<in> Ss
     | None \<Rightarrow> the (tc_dst_root_shard (target_of x d)) \<in> Ds)"

definition fed :: "transfer \<Rightarrow> int set \<Rightarrow> int set \<Rightarrow> reshard_key set" where
  "fed x Ss Ds = key_to x ` {d. is_shard (tf_dst x) d \<and> sender_in x Ss Ds d}"

definition took :: "transfer \<Rightarrow> int set \<Rightarrow> reshard_key set" where
  "took x Ds = key_to x ` {d. is_shard (tf_dst x) d \<and> d \<in> Ds}"

lemma key_to_dst [simp]: "key_dst_shard (key_to x d) = d"
  by (simp add: key_to_def hop_key_def split: option.split)

lemma key_to_inj [simp]: "key_to x d = key_to x e \<longleftrightarrow> d = e"
  by (metis key_to_dst)

lemma in_fed [simp]: "key_to x d \<in> fed x Ss Ds \<longleftrightarrow> is_shard (tf_dst x) d \<and> sender_in x Ss Ds d"
  by (auto simp: fed_def)

lemma in_took [simp]: "key_to x d \<in> took x Ds \<longleftrightarrow> is_shard (tf_dst x) d \<and> d \<in> Ds"
  by (auto simp: took_def)

lemma tree_ledger_simps [simp]:
  "key_to x d \<in> lg_keys (tree_ledger x) \<longleftrightarrow> is_shard (tf_dst x) d"
  "lg_box (tree_ledger x) (key_to x d) = tile_box d (tf_dst x)"
  "lg_src (tree_ledger x) (key_to x d) = origin x d" "lg_dst (tree_ledger x) (key_to x d) = tf_dst_inst x d"
  by (auto simp: tree_ledger_def)

abbreviation full :: "nat \<Rightarrow> transfer \<Rightarrow> bool" where
  "full k x \<equiv> full_trees k (tf_src x) (tf_dst x)"

lemma root_key:
  assumes "full k x" and "is_shard (tf_src x) s"
  shows "key_to x (s * 2 ^ k) = part_key x s (s * 2 ^ k)" and "origin x (s * 2 ^ k) = tf_src_inst x s"
    and "is_shard (tf_dst x) (s * 2 ^ k)" and "sender_in x Ss Ds (s * 2 ^ k) \<longleftrightarrow> s \<in> Ss"
  using root_target[OF assms] source_sends_root(2)[OF assms]
  by (simp_all add: key_to_def origin_def sender_in_def)

lemma leaf_key:
  assumes "full k x" and "is_shard (tf_dst x) p" and "d \<in> set (leaves_in x p)"
  shows "key_to x d = hop_key x p d" and "origin x d = tf_dst_inst x p"
    and "is_shard (tf_dst x) d" and "sender_in x Ss Ds d \<longleftrightarrow> p \<in> Ds" and "d \<noteq> p"
  using leaf_target[OF assms] by (auto simp: key_to_def origin_def sender_in_def)

lemma fed_source:
  assumes "full k x" and "is_shard (tf_src x) s"
  shows "fed x (insert s Ss) Ds = insert (key_to x (s * 2 ^ k)) (fed x Ss Ds)"
proof -
  have "sender_in x (insert s Ss) Ds d \<longleftrightarrow> sender_in x Ss Ds d \<or> d = s * 2 ^ k" if "is_shard (tf_dst x) d" for d
    using assms(1) that
  proof (cases rule: target_cases)
    case (root s')
    then show ?thesis by (auto simp: sender_in_def)
  next
    case (inner p)
    have "d \<noteq> s * 2 ^ k" using inner(4) root_target(1)[OF assms] by auto
    then show ?thesis using inner by (simp add: sender_in_def)
  qed
  then show ?thesis using root_key(3)[OF assms] unfolding fed_def by auto
qed

lemma fed_target:
  assumes "full k x" and "is_shard (tf_dst x) p"
  shows "fed x Ss (insert p Ds) = fed x Ss Ds \<union> key_to x ` set (leaves_in x p)"
proof -
  have "sender_in x Ss (insert p Ds) d \<longleftrightarrow> sender_in x Ss Ds d \<or> d \<in> set (leaves_in x p)"
    if "is_shard (tf_dst x) d" for d
    using assms(1) that
  proof (cases rule: target_cases)
    case (root s)
    have "d \<notin> set (leaves_in x p)" using root(3) leaf_target(2)[OF assms, of d] by auto
    then show ?thesis using root by (simp add: sender_in_def)
  next
    case (inner q)
    have "d \<in> set (leaves_in x p) \<longleftrightarrow> q = p" using inner leaf_target(3)[OF assms, of d] by auto
    then show ?thesis using inner by (auto simp: sender_in_def)
  qed
  then show ?thesis using leaf_key(3)[OF assms] unfolding fed_def by auto
qed

lemma took_insert: "is_shard (tf_dst x) d \<Longrightarrow> took x (insert d Ds) = insert (key_to x d) (took x Ds)"
  by (auto simp: took_def)

text \<open>
  A broadcast under way: a shard's sends down the tree wait for what its own copy triggers.
\<close>

definition spreading ::
  "transfer \<Rightarrow> trace \<Rightarrow> int set \<Rightarrow> int set \<Rightarrow> reshard_manager \<Rightarrow> trace \<Rightarrow> bool" where
  "spreading x tr0 Ss Ds mgr tr \<longleftrightarrow> (\<exists>pre post. ordered (tree_ledger x) pre post tr0 (fed x Ss Ds) (took x Ds) mgr tr \<and>
     (\<forall>p d. p \<in> Ds \<longrightarrow> is_shard (tf_dst x) p \<longrightarrow> d \<in> set (leaves_in x p) \<longrightarrow>
        depends tr (pre (key_to x d)) (post (key_to x p))))"

lemma spread_quiet_extends: "quiet tr tr' \<Longrightarrow> extends tr' tr"
  by (auto simp: quiet_def)

lemma spreading_quiet:
  assumes "spreading x tr0 Ss Ds mgr tr" and "quiet tr tr'"
  shows "spreading x tr0 Ss Ds mgr tr'"
  using assms(1) ordered_quiet[OF _ assms(2)] depends_extends[OF spread_quiet_extends[OF assms(2)]]
  unfolding spreading_def by metis

end
