(* ===== verification/Broadcast_Moves.thy ===== *)
theory Broadcast_Moves
  imports Broadcast_Ledger
begin

text \<open>
  Broadcasts move arrays: when every source shard serves the same power of two of target shards and every
  processor of a process runs \<open>Reshard\<close>, the tiles of the target hold the array once the copies that were
  issued have happened, in any order that respects what each copy waits for. Copies further down a tree read
  what others wrote, so, unlike in \<open>Array_Moves\<close>, the order matters, and only events enforce it.
\<close>

section \<open>A device's part of a broadcast\<close>

text \<open>
  Both arrays are replicated, of one extent, and each of at least two source shards has a full tree.
\<close>

definition tree_able :: "nat \<Rightarrow> int \<Rightarrow> sharding \<Rightarrow> sharding \<Rightarrow> bool" where
  "tree_able k max_dim src dst \<longleftrightarrow> same_extent max_dim src dst \<and> tiles src = 1 \<and> tiles dst = 1 \<and>
     2 \<le> dl_size (sh_devices src) \<and> 0 < k \<and> full_trees k src dst"

abbreviation broadcast_able :: "nat \<Rightarrow> transfer \<Rightarrow> bool" where
  "broadcast_able k x \<equiv> tree_able k (tf_dim x) (tf_src x) (tf_dst x)"

lemma tree_ableD:
  assumes "tree_able k max_dim src dst"
  shows "full_trees k src dst" and "same_extent max_dim src dst"
    and "is_shard src i \<Longrightarrow> is_shard dst j \<Longrightarrow> tile_box i src = tile_box j dst"
proof -
  show f: "full_trees k src dst" "same_extent max_dim src dst" using assms by (simp_all add: tree_able_def)
  show "tile_box i src = tile_box j dst" if "is_shard src i" "is_shard dst j"
    using assms replicated_box[OF same_extentD(1)[OF f(2)] _ that(1)] replicated_box[OF same_extentD(2)[OF f(2)] _ that(2)]
    by (simp add: tree_able_def same_extent_def)
qed

lemma one_box:
  assumes "tree_able k max_dim src dst" and "is_shard dst i" and "is_shard dst j"
  shows "tile_box i dst = tile_box j dst"
proof -
  have "is_shard src 0" using assms(1) by (simp add: tree_able_def is_shard_def)
  then show ?thesis using tree_ableD(3)[OF assms(1)] assms(2,3) by metis
qed

lemma broadcast_source:
  fixes w :: "'z runtime_scheme"
  assumes sees: "sees m t x p v st sa da" and able: "broadcast_able k x" and role: "src_role x p = Some s"
    and new: "s \<notin> Ss" and u: "spreading x tr0 Ss Ds mgr (trace_of w)" and same: "view_get v' = view_get v"
    and user: "user_events_exist rl" and util: "Util_proc t = ret up"
    and c: "bc_source c = Some \<lparr>dst_root_shards = [s * 2 ^ k]\<rparr>"
  shows "\<exists>mgr' (w' :: 'z runtime_scheme). ReshardBroadcastFromLocalSource rl m t p c v' da mgr w = ret (mgr', w') \<and>
    spreading x tr0 (insert s Ss) Ds mgr' (trace_of w')"
proof -
  note f = tree_ableD(1)[OF able] and s = sees_source[OF sees role] and d = seesD[OF sees]
  note key = root_key[OF f s(1)]
  let ?d = "s * 2 ^ k" and ?l = "tree_ledger x"
  obtain tile where tile: "sa_tile sa = Some tile" "tsh_bounds (at_shape tile) = tile_box s (tf_src x)"
    using s(3) by blast
  have box: "tile_box s (tf_src x) = lg_box ?l (key_to x ?d)" using tree_ableD(3)[OF able s(1) key(3)] key(3) by simp
  obtain pre post where o: "ordered ?l pre post tr0 (fed x Ss Ds) (took x Ds) mgr (trace_of w)"
    and down: "\<And>q e. q \<in> Ds \<Longrightarrow> is_shard (tf_dst x) q \<Longrightarrow> e \<in> set (leaves_in x q) \<Longrightarrow>
        depends (trace_of w) (pre (key_to x e)) (post (key_to x q))"
    using u unfolding spreading_def by blast
  have ok: "source_ok m t (key_to x ?d) False p v' da"
    using s(5)[OF key(3)] same by (simp add: key(1) source_ok_def)
  have "tile_instance (view_get v') = lg_src ?l (key_to x ?d)" using s(4) same key(2) by simp
  from source_ordered[OF o _ _ ok this user] obtain e mgr1 and w1 :: "'z runtime_scheme"
    where call: "ReshardFromLocalSource rl m t p (tile_box s (tf_src x)) (key_to x ?d) v' da mgr w = ret (e, mgr1, w1)"
      and o1: "ordered ?l (pre(key_to x ?d := view_Precondition v')) post tr0 (fed x (insert s Ss) Ds) (took x Ds)
        mgr1 (trace_of w1)"
      and ext: "extends (trace_of w1) (trace_of w)"
    using new key(3,4) unfolding fed_source[OF f s(1)] box by auto
  have "e \<noteq> ?d" if "is_shard (tf_dst x) q" "e \<in> set (leaves_in x q)" for e q
    using leaf_target(2)[OF f that] root_target(1)[OF f s(1)] by auto
  then have "depends (trace_of w1) ((pre(key_to x ?d := view_Precondition v')) (key_to x e)) (post (key_to x q))"
    if "q \<in> Ds" "is_shard (tf_dst x) q" "e \<in> set (leaves_in x q)" for e q
    using depends_extends[OF ext down[OF that]] that by simp
  with o1 have u1: "spreading x tr0 (insert s Ss) Ds mgr1 (trace_of w1)" unfolding spreading_def by blast
  obtain v2 and w2 :: "'z runtime_scheme" where dn: "done_after_all rl v' (insert e {}, mgr1, w1) = (v2, mgr1, w2)"
    and q: "quiet (trace_of w1) (trace_of w2)" using done_after_all_ok by blast
  obtain w3 :: "'z runtime_scheme" where vd: "view_destroy rl t v2 w2 = ret w3" "quiet (trace_of w2) (trace_of w3)"
    using view_destroy_ok[OF util] by blast
  have "ReshardBroadcastFromLocalSource rl m t p c v' da mgr w = ret (mgr1, w3)"
    using call dn vd(1) tile d(1,7) same s(2) key(1)
    by (simp add: ReshardBroadcastFromLocalSource_def c send_slice_def array_tile_of_def opt_get_def)
  then show ?thesis using spreading_quiet[OF u1 quiet_trans[OF q vd(2)]] by blast
qed

text \<open>The sends down the tree all wait for the same event, the precondition of the view they share.\<close>

lemma leaves_ordered:
  fixes w :: "'z runtime_scheme"
  assumes "ordered l pre post tr0 S R mgr (trace_of w)" and "distinct es" and "inj key"
    and "\<And>e. e \<in> set es \<Longrightarrow> key e \<in> lg_keys l \<and> key e \<notin> S \<and> lg_box l (key e) = b \<and>
      key e = slice_key da da (sa_shard_id da) e \<and> (\<forall>v'. view_get v' = view_get v \<longrightarrow>
        source_ok m t (key e) False p v' da \<and> tile_instance (view_get v') = lg_src l (key e))"
    and "sa_tile da = Some tile" and "tsh_bounds (at_shape tile) = b" and "user_events_exist rl"
  shows "\<exists>pre' v' mgr' (w' :: 'z runtime_scheme).
    foldR (broadcast_leaf rl m t p da) (v, mgr, w) es = ret (v', mgr', w') \<and>
    ordered l pre' post tr0 (S \<union> key ` set es) R mgr' (trace_of w') \<and> extends (trace_of w') (trace_of w) \<and>
    (\<forall>k. pre' k = (if k \<in> key ` set es then view_Precondition v else pre k))"
  using assms(1,2,4)
proof (induction es arbitrary: S pre v mgr w)
  case (Cons e es)
  have k: "key e \<in> lg_keys l" "key e \<notin> S" "lg_box l (key e) = b" "key e = slice_key da da (sa_shard_id da) e"
    "source_ok m t (key e) False p v da" "tile_instance (view_get v) = lg_src l (key e)"
    using Cons.prems(3)[of e] by auto
  from source_ordered[OF Cons.prems(1) k(1,2,5,6) assms(7)] obtain c mgr1 and w1 :: "'z runtime_scheme"
    where call: "ReshardFromLocalSource rl m t p b (key e) v da mgr w = ret (c, mgr1, w1)"
      and o1: "ordered l (pre(key e := view_Precondition v)) post tr0 (insert (key e) S) R mgr1 (trace_of w1)"
      and ext: "extends (trace_of w1) (trace_of w)"
    unfolding k(3) by blast
  have leaf: "broadcast_leaf rl m t p da (v, mgr, w) e = ret (view_DoneAfter c v, mgr1, w1)"
    using call assms(5,6) k(4) by (simp add: broadcast_leaf_def array_tile_of_def opt_get_def)
  have same: "view_get (view_DoneAfter c v) = view_get v" "view_Precondition (view_DoneAfter c v) = view_Precondition v"
    by (simp_all add: view_DoneAfter_def view_get_def view_Precondition_def)
  have rest: "key e' \<in> lg_keys l \<and> key e' \<notin> insert (key e) S \<and> lg_box l (key e') = b \<and>
      key e' = slice_key da da (sa_shard_id da) e' \<and> (\<forall>v'. view_get v' = view_get (view_DoneAfter c v) \<longrightarrow>
        source_ok m t (key e') False p v' da \<and> tile_instance (view_get v') = lg_src l (key e'))"
    if e': "e' \<in> set es" for e'
  proof -
    have "key e' \<noteq> key e" using Cons.prems(2) e' assms(3) by (auto simp: inj_eq)
    then show ?thesis using Cons.prems(3)[of e'] e' unfolding same insert_iff list.set by blast
  qed
  have "distinct es" using Cons.prems(2) by simp
  from Cons.IH[OF o1 this rest]
  obtain pre' v' mgr' and w' :: "'z runtime_scheme"
    where loop: "foldR (broadcast_leaf rl m t p da) (view_DoneAfter c v, mgr1, w1) es = ret (v', mgr', w')"
      and o2: "ordered l pre' post tr0 (insert (key e) S \<union> key ` set es) R mgr' (trace_of w')"
      and ext2: "extends (trace_of w') (trace_of w1)"
      and pre': "\<forall>k. pre' k = (if k \<in> key ` set es then view_Precondition v
        else (pre(key e := view_Precondition v)) k)"
    unfolding same by blast
  have "insert (key e) S \<union> key ` set es = S \<union> key ` set (e # es)" by auto
  moreover have "pre' k = (if k \<in> key ` set (e # es) then view_Precondition v else pre k)" for k
    using pre' by auto
  ultimately show ?case using leaf loop o2 extends_trans[OF ext2 ext] by auto
qed auto

lemma ReadyAfter_view:
  assumes "store_ReadyAfter rl e st w = (st1, w1)" and "store_view rl st1 w1 = (v, st2, w2)"
  shows "depends (trace_of w2) (view_Precondition v) e"
proof -
  obtain rw where rw: "child_rw st1 = Some rw" "depends (trace_of w1) (ep_effects rw) e"
    using deps.ReadyAfter2_covers(1)[OF assms(1)[unfolded store_ReadyAfter_def]] by (auto simp: deps.covered_write_def)
  have "view_Precondition v = ep_effects rw"
    using assms(2) rw(1) by (auto simp: store_view_def add_reader_def view_Precondition_def split: prod.splits option.splits)
  then show ?thesis using depends_extends[OF spread_quiet_extends[OF view_quiet(2)[OF assms(2)]] rw(2)] by simp
qed

lemma broadcast_receive_spreads:
  fixes w :: "'z runtime_scheme"
  assumes sees: "sees m t x p v st sa da" and able: "broadcast_able k x" and role: "dst_role x p = Some d"
    and new: "d \<notin> Ds" and o: "ordered (tree_ledger x) pre post tr0 (fed x Ss Ds) (took x Ds) mgr (trace_of w)"
    and user: "user_events_exist rl"
  shows "\<exists>e mgr' (w' :: 'z runtime_scheme).
    broadcast_receive rl m t p (target_of x d) sa st mgr w = ret (e, mgr', w') \<and>
    ordered (tree_ledger x) pre (post(key_to x d := e)) tr0 (fed x Ss Ds) (insert (key_to x d) (took x Ds)) mgr' (trace_of w') \<and>
    extends (trace_of w') (trace_of w)"
proof -
  note f = tree_ableD(1)[OF able] and d = sees_target[OF sees role] and g = seesD[OF sees]
  obtain tile where tile: "sa_tile da = Some tile" "tsh_bounds (at_shape tile) = tile_box d (tf_dst x)"
    using d(3) by blast
  have box: "tile_box d (tf_dst x) = lg_box (tree_ledger x) (key_to x d)" by simp
  have inst: "tile_instance (store_get st) = lg_dst (tree_ledger x) (key_to x d)" using d(4) by simp
  have keys: "key_to x d \<in> lg_keys (tree_ledger x)" "key_to x d \<notin> took x Ds" using d(1) new by auto
  from f d(1) show ?thesis
  proof (cases rule: target_cases)
    case (root s)
    have key: "key_to x d = part_key x s d" using root(3) by (simp add: key_to_def)
    have ok: "target_ok m t (key_to x d) False p sa st" using d(5)[OF root(1)] by (simp add: key)
    from target_ordered[OF o keys ok inst user, unfolded box[symmetric]]
    show ?thesis using root(3) tile d(2) g(2,7) key
      by (simp add: broadcast_receive_def array_tile_of_def opt_get_def d(1))
  next
    case (inner q)
    have key: "key_to x d = hop_key x q d" using inner(3,4) by (simp add: key_to_def)
    have same: "slice_key da da i j = hop_key x i j" for i j
      using sees by (simp add: sees_def array_at_def slice_key_def hop_key_def)
    have "target_ok m t (key_to x d) False p da st"
      using sees inner(1) tile(1) by (auto simp: target_ok_def key hop_key_def sees_def array_at_def)
    from target_ordered[OF o keys this inst user, unfolded box[symmetric]]
    show ?thesis using inner(3,4) tile d(2) g(2) key same
      by (simp add: broadcast_receive_def array_tile_of_def opt_get_def d(1))
  qed
qed

lemma broadcast_target:
  fixes w :: "'z runtime_scheme"
  assumes sees: "sees m t x p v st sa da" and able: "broadcast_able k x" and role: "dst_role x p = Some d"
    and new: "d \<notin> Ds" and u: "spreading x tr0 Ss Ds mgr (trace_of w)"
    and user: "user_events_exist rl" and util: "Util_proc t = ret up" and c: "bc_target c = Some (target_of x d)"
  shows "\<exists>st' mgr' (w' :: 'z runtime_scheme). ReshardBroadcastToLocalTarget rl m t p c sa st mgr w = ret (st', mgr', w') \<and>
    spreading x tr0 Ss (insert d Ds) mgr' (trace_of w')"
proof -
  note f = tree_ableD(1)[OF able] and d = sees_target[OF sees role] and g = seesD[OF sees]
  let ?l = "tree_ledger x"
  obtain tile where tile: "sa_tile da = Some tile" "tsh_bounds (at_shape tile) = tile_box d (tf_dst x)"
    using d(3) by blast
  obtain pre post where o: "ordered ?l pre post tr0 (fed x Ss Ds) (took x Ds) mgr (trace_of w)"
    and down: "\<And>q e. q \<in> Ds \<Longrightarrow> is_shard (tf_dst x) q \<Longrightarrow> e \<in> set (leaves_in x q) \<Longrightarrow>
        depends (trace_of w) (pre (key_to x e)) (post (key_to x q))"
    using u unfolding spreading_def by blast
  from broadcast_receive_spreads[OF sees able role new o user] obtain e0 mgr1 and w1 :: "'z runtime_scheme"
    where receive: "broadcast_receive rl m t p (target_of x d) sa st mgr w = ret (e0, mgr1, w1)"
      and o1: "ordered ?l pre (post(key_to x d := e0)) tr0 (fed x Ss Ds) (took x (insert d Ds)) mgr1 (trace_of w1)"
      and ext1: "extends (trace_of w1) (trace_of w)"
    unfolding took_insert[OF d(1)] by blast
  let ?post = "post(key_to x d := e0)"
  obtain st1 and w2 :: "'z runtime_scheme" where ra: "store_ReadyAfter rl e0 st w1 = (st1, w2)" by fastforce
  note q2 = merge_quiet(3)[OF ra]
  have get1: "store_get st1 = ret da" using g(2) store_ReadyAfter_value[OF ra] by (simp add: store_get_def)
  have old: "depends tr (pre' (key_to x e)) (?post (key_to x q))"
    if "extends tr (trace_of w)" "pre' (key_to x e) = pre (key_to x e)" "q \<in> Ds" "is_shard (tf_dst x) q"
      "e \<in> set (leaves_in x q)" for tr pre' e q
    using depends_extends[OF that(1) down[OF that(3-5)]] that(2,3) new by auto
  show ?thesis
  proof (cases "leaves_in x d = []")
    case True
    have "extends (trace_of w2) (trace_of w)" using spread_quiet_extends[OF q2] ext1 extends_trans by blast
    then have "spreading x tr0 Ss (insert d Ds) mgr1 (trace_of w2)"
      using ordered_quiet[OF o1 q2] old[of "trace_of w2" pre] fed_target[OF f d(1), of Ss Ds] True
      unfolding spreading_def by (intro exI[of _ pre] exI[of _ ?post]) auto
    then show ?thesis using receive ra c True by (simp add: ReshardBroadcastToLocalTarget_def opt_get_def)
  next
    case False
    obtain bv st2 and w3 :: "'z runtime_scheme" where view: "store_view rl st1 w2 = (bv, st2, w3)"
      by (cases "store_view rl st1 w2")
    note q3 = view_quiet(2)[OF view] and o3 = ordered_quiet[OF ordered_quiet[OF o1 q2] view_quiet(2)[OF view]]
    have bv: "view_get bv = ret da" using store_view_value[OF view] get1 by simp
    have wait: "depends (trace_of w3) (view_Precondition bv) e0" by (rule ReadyAfter_view[OF ra view])
    have same: "slice_key da da i j = hop_key x i j" for i j
      using sees by (simp add: sees_def array_at_def slice_key_def hop_key_def)
    have leaf: "key_to x e \<in> lg_keys ?l \<and> key_to x e \<notin> fed x Ss Ds \<and> lg_box ?l (key_to x e) = tile_box d (tf_dst x) \<and>
        key_to x e = slice_key da da (sa_shard_id da) e \<and> (\<forall>v'. view_get v' = view_get bv \<longrightarrow>
          source_ok m t (key_to x e) False p v' da \<and> tile_instance (view_get v') = lg_src ?l (key_to x e))"
      if e: "e \<in> set (leaves_in x d)" for e
    proof -
      note key = leaf_key[OF f d(1) e]
      have "source_ok m t (key_to x e) False p v' da" if "view_get v' = view_get bv" for v'
        using sees key(3) tile(1) that bv by (auto simp: source_ok_def sees_def array_at_def key(1) hop_key_def)
      moreover have "tile_instance (view_get bv) = lg_src ?l (key_to x e)"
        using d(4) g(2) bv by (simp add: key(2))
      moreover have "key_to x e \<in> lg_keys ?l \<and> key_to x e \<notin> fed x Ss Ds \<and>
          lg_box ?l (key_to x e) = tile_box d (tf_dst x)"
        using key(3,4) new one_box[OF able key(3) d(1)] by simp
      moreover have "key_to x e = slice_key da da (sa_shard_id da) e" by (simp add: key(1) same d(2))
      ultimately show ?thesis by metis
    qed
    have inj: "inj (key_to x)" by (rule injI) simp
    from leaves_ordered[OF o3 distinct_leaves[OF f d(1)] inj leaf tile user]
    obtain pre' bv' mgr2 and w4 :: "'z runtime_scheme"
      where loop: "foldR (broadcast_leaf rl m t p da) (bv, mgr1, w3) (leaves_in x d) = ret (bv', mgr2, w4)"
        and o4: "ordered ?l pre' ?post tr0 (fed x Ss Ds \<union> key_to x ` set (leaves_in x d)) (took x (insert d Ds))
          mgr2 (trace_of w4)"
        and ext4: "extends (trace_of w4) (trace_of w3)"
        and pre': "\<forall>k. pre' k = (if k \<in> key_to x ` set (leaves_in x d) then view_Precondition bv else pre k)"
      by blast
    obtain w5 :: "'z runtime_scheme" where vd: "view_destroy rl t bv' w4 = ret w5" "quiet (trace_of w4) (trace_of w5)"
      using view_destroy_ok[OF util] by blast
    have ext: "extends (trace_of w4) (trace_of w)"
      using ext4 spread_quiet_extends[OF q3] spread_quiet_extends[OF q2] ext1 extends_trans by blast
    have "depends (trace_of w4) (pre' (key_to x e)) (?post (key_to x q))"
      if q: "q \<in> insert d Ds" "is_shard (tf_dst x) q" and e: "e \<in> set (leaves_in x q)" for e q
    proof (cases "q = d")
      case True
      then have "pre' (key_to x e) = view_Precondition bv" using pre' e by simp
      then show ?thesis using depends_extends[OF ext4 wait] True by simp
    next
      case False
      then have "e \<notin> set (leaves_in x d)" using leaf_target(3)[OF f q(2) e] leaf_target(3)[OF f d(1), of e] by auto
      then have "key_to x e \<notin> key_to x ` set (leaves_in x d)" by auto
      then have "pre' (key_to x e) = pre (key_to x e)" using pre' by simp
      from old[of "trace_of w4" pre', OF ext this _ q(2) e] show ?thesis using q(1) False by blast
    qed
    then have "spreading x tr0 Ss (insert d Ds) mgr2 (trace_of w4)"
      using o4 fed_target[OF f d(1), of Ss Ds] unfolding spreading_def by metis
    then have "spreading x tr0 Ss (insert d Ds) mgr2 (trace_of w5)" using spreading_quiet vd(2) by blast
    then show ?thesis using receive ra c False get1 view loop vd(1)
      by (simp add: ReshardBroadcastToLocalTarget_def opt_get_def)
  qed
qed

section \<open>A device's reshard\<close>

lemma ReshardBroadcast_spreads:
  fixes w :: "'z runtime_scheme"
  assumes sees: "sees m t x p v st sa da" and able: "broadcast_able k x"
    and new: "fresh_role (src_role x p) Ss" "fresh_role (dst_role x p) Ds"
    and u: "spreading x tr0 Ss Ds mgr (trace_of w)" and user: "user_events_exist rl" and util: "Util_proc t = ret up"
    and c: "\<forall>s. src_role x p = Some s \<longrightarrow> bc_source c = Some \<lparr>dst_root_shards = [s * 2 ^ k]\<rparr>"
      "\<forall>d. dst_role x p = Some d \<longrightarrow> bc_target c = Some (target_of x d)"
  shows "\<exists>st' mgr' (w' :: 'z runtime_scheme). ReshardBroadcast rl m t p c v st mgr w = ret (st', mgr', w') \<and>
    spreading x tr0 (with_role (src_role x p) Ss) (with_role (dst_role x p) Ds) mgr' (trace_of w')"
proof -
  note g = seesD[OF sees]
  let ?Ss = "with_role (src_role x p) Ss" and ?Ds = "with_role (dst_role x p) Ds"
  obtain st1 mgr1 and w1 :: "'z runtime_scheme" where target: "(if HasTile da
      then ReshardBroadcastToLocalTarget rl m t p c sa st mgr w else ret (st, mgr, w)) = ret (st1, mgr1, w1)"
    and u1: "spreading x tr0 Ss ?Ds mgr1 (trace_of w1)"
  proof (cases "dst_role x p")
    case None
    then show thesis using g(6) u that by simp
  next
    case (Some d)
    have "d \<notin> Ds" using new(2) Some by (simp add: fresh_role_def)
    from broadcast_target[OF sees able Some this u user util] c(2) Some
    show thesis using g(6) that by auto
  qed
  obtain arg rest where vm: "view_move v = (arg, rest)" by fastforce
  then have arg: "view_get arg = view_get v" by (auto simp: view_move_def view_get_def)
  obtain v2 mgr2 and w2 :: "'z runtime_scheme" where source: "(if HasTile sa
        then (let (arg, rest) = view_move v
              in andThen (ReshardBroadcastFromLocalSource rl m t p c arg da mgr1 w1)
                   (\<lambda>(mgr2, w2). ret (rest, mgr2, w2)))
        else ret (v, mgr1, w1)) = ret (v2, mgr2, w2)"
    and u2: "spreading x tr0 ?Ss ?Ds mgr2 (trace_of w2)"
  proof (cases "src_role x p")
    case None
    then show thesis using g(5) u1 that by simp
  next
    case (Some s)
    have "s \<notin> Ss" using new(1) Some by (simp add: fresh_role_def)
    from broadcast_source[OF sees able Some this u1 arg user util c(1)[rule_format, OF Some]]
    obtain mgr2 and w2 :: "'z runtime_scheme"
      where "ReshardBroadcastFromLocalSource rl m t p c arg da mgr1 w1 = ret (mgr2, w2)"
        and "spreading x tr0 (insert s Ss) ?Ds mgr2 (trace_of w2)" by blast
    then show thesis using g(5) that[of rest mgr2 w2] by (simp add: vm Some)
  qed
  obtain w3 :: "'z runtime_scheme" where vd: "view_destroy rl t v2 w2 = ret w3" "quiet (trace_of w2) (trace_of w3)"
    using view_destroy_ok[OF util] by blast
  have "ReshardBroadcast rl m t p c v st mgr w = ret (st1, mgr2, w3)"
    using target source vd(1) g(1,2) by (simp add: ReshardBroadcast_def)
  then show ?thesis using spreading_quiet[OF u2 vd(2)] by blast
qed

lemma broadcast_config_ok:
  assumes able: "tree_able k max_dim src dst"
  obtains c where "DetermineShardingConfig max_dim p src dst = Some (ret (BroadcastC c))"
    and "\<forall>s. dl_shard_id (sh_devices src) (global_id p) = Some s \<longrightarrow> bc_source c = Some \<lparr>dst_root_shards = [s * 2 ^ k]\<rparr>"
    and "\<forall>d. dl_shard_id (sh_devices dst) (global_id p) = Some d \<longrightarrow> bc_target c = Some (my_target src dst d)"
proof -
  note f = tree_ableD(1)[OF able] and e = same_extentD[OF tree_ableD(2)[OF able]]
  note fd = full_treesD[OF f]
  let ?s = "dl_shard_id (sh_devices src) (global_id p)" and ?d = "dl_shard_id (sh_devices dst) (global_id p)"
  have S: "2 \<le> dl_size (sh_devices src)" "tiles src = 1" "tiles dst = 1" "0 < k" using able by (simp_all add: tree_able_def)
  have "(2 :: int) ^ 1 \<le> 2 ^ k" using S(4) by (intro power_increasing) auto
  then have "dl_size (sh_devices src) * 2 \<le> dl_size (sh_devices dst)" using S(1) unfolding fd(2) by (intro mult_left_mono) auto
  then have D: "dl_size (sh_devices src) < dl_size (sh_devices dst)" "1 < dl_size (sh_devices dst)" using S(1) by linarith+
  have choice: "DetermineShardingConfig max_dim p src dst = lift_option BroadcastC (GetBroadcastConfig ?s ?d src dst)"
    using S D by (simp add: decision[OF e(1,2)] DetermineShardingConfigFullyReplicated_def)
  have shards: "is_shard src s" if "?s = Some s" for s using that by (auto simp: is_shard_def dest: shard_range)
  have role: "sends_root src dst ?s"
  proof (cases ?s)
    case (Some s)
    then show ?thesis using source_sends_root(1)[OF f shards] by simp
  qed (simp add: sends_root_def)
  obtain c where c: "GetBroadcastConfig ?s ?d src dst = Some (ret c)"
    "\<forall>s. ?s = Some s \<longrightarrow> bc_source c = Some \<lparr>dst_root_shards = [s * 2 ^ k]\<rparr>"
    "\<forall>d. ?d = Some d \<longrightarrow> bc_target c = Some (my_target src dst d)"
  proof (cases ?d)
    case None
    have "GetBroadcastConfig ?s None src dst = Some (ret
        \<lparr>bc_source = map_option (\<lambda>s. \<lparr>dst_root_shards = [s * 2 ^ k]\<rparr>) ?s, bc_target = None\<rparr>)"
      using bcast_source_ok[OF fd(1) role, unfolded fd(4)] bcast_width_ok(1)[OF fd(1)] fd(4)
      by (simp add: GetBroadcastConfig_def Let_def)
    from that[OF this[folded None]] show thesis using None by simp
  next
    case (Some d)
    have "is_shard dst d" using Some by (auto simp: is_shard_def dest: shard_range)
    from my_target(2)[OF f this role] that show thesis using Some by simp
  qed
  from that[OF _ c(2,3)] show thesis using choice c(1) by (simp add: lift_option_def)
qed

lemma Reshard_spreads:
  fixes w :: "'z runtime_scheme"
  assumes sees: "sees m t x p v st sa da" and able: "broadcast_able k x"
    and new: "fresh_role (src_role x p) Ss" "fresh_role (dst_role x p) Ds"
    and u: "spreading x tr0 Ss Ds mgr (trace_of w)" and user: "user_events_exist rl" and util: "Util_proc t = ret up"
  shows "\<exists>st' mgr' (w' :: 'z runtime_scheme). Reshard rl m t (tf_dim x) p v st mgr w = Some (ret (st', mgr', w')) \<and>
    spreading x tr0 (with_role (src_role x p) Ss) (with_role (dst_role x p) Ds) mgr' (trace_of w')"
proof -
  note g = seesD[OF sees]
  obtain arg rest where vm: "view_move v = (arg, rest)" by fastforce
  then have "view_get arg = view_get v" by (auto simp: view_move_def view_get_def)
  then have sees': "sees m t x p arg st sa da" using sees by (simp add: sees_def)
  obtain c where c: "DetermineShardingConfig (tf_dim x) p (tf_src x) (tf_dst x) = Some (ret (BroadcastC c))"
    "\<forall>s. src_role x p = Some s \<longrightarrow> bc_source c = Some \<lparr>dst_root_shards = [s * 2 ^ k]\<rparr>"
    "\<forall>d. dst_role x p = Some d \<longrightarrow> bc_target c = Some (target_of x d)"
    by (rule broadcast_config_ok[OF able])
  from ReshardBroadcast_spreads[OF sees' able new u user util c(2,3)] obtain st' mgr' and w1 :: "'z runtime_scheme"
    where run: "ReshardBroadcast rl m t p c arg st mgr w = ret (st', mgr', w1)"
      and u1: "spreading x tr0 (with_role (src_role x p) Ss) (with_role (dst_role x p) Ds) mgr' (trace_of w1)" by blast
  obtain w2 :: "'z runtime_scheme" where vd: "view_destroy rl t rest w1 = ret w2" "quiet (trace_of w1) (trace_of w2)"
    using view_destroy_ok[OF util] by blast
  have "Reshard rl m t (tf_dim x) p v st mgr w = Some (ret (st', mgr', w2))"
    using run vd(1) by (simp add: Reshard_def g(1-4) c(1) run_protocol_def vm)
  then show ?thesis using spreading_quiet[OF u1 vd(2)] by blast
qed


section \<open>Relays\<close>

text \<open>
  Copies of one box, each from a place that holds the array from the start or from one that an earlier copy filled.
\<close>

lemma after_copies_snoc: "after_copies (cs @ [c]) mem = perform c (after_copies cs mem)"
  by (simp add: after_copies_def)

lemma relay:
  assumes "\<And>xs d ys. ds = xs @ d # ys \<Longrightarrow> from d \<in> G \<or> from d \<in> into ` set xs"
    and "\<And>d. d \<in> set ds \<Longrightarrow> into d \<notin> G" and "\<And>i. i \<in> G \<Longrightarrow> mem i p = y" and "in_rect b p"
  shows "i \<in> G \<union> into ` set ds \<Longrightarrow> after_copies (map (\<lambda>d. (b, from d, into d)) ds) mem i p = y"
  using assms(1,2)
proof (induction ds arbitrary: i rule: rev_induct)
  case Nil
  then show ?case using assms(3) by simp
next
  case (snoc d ds)
  let ?mem = "after_copies (map (\<lambda>d. (b, from d, into d)) ds) mem"
  have before: "?mem j p = y" if "j \<in> G \<union> into ` set ds" for j
    by (rule snoc.IH[OF that]) (use snoc.prems(2)[of _ _ "_ @ [d]"] snoc.prems(3) in auto)
  have "from d \<in> G \<or> from d \<in> into ` set ds" using snoc.prems(2)[of ds d "[]"] by simp
  then have "?mem (from d) p = y" using before by blast
  then show ?case using snoc.prems(1) before[of i] assms(4) by (auto simp: after_copies_snoc)
qed

section \<open>Schedules\<close>

text \<open>
  The copies among the calls, in an order in which they may happen: none before one that it waits for.
\<close>

definition is_copy :: "realm_call \<times> event \<Rightarrow> bool" where
  "is_copy ce = (case fst ce of RectCopy b n s d pre \<Rightarrow> True | _ \<Rightarrow> False)"

definition copy_waits_on :: "realm_call \<times> event \<Rightarrow> event" where
  "copy_waits_on ce = (case fst ce of RectCopy b n s d pre \<Rightarrow> pre | _ \<Rightarrow> NO_EVENT)"

definition schedule :: "trace \<Rightarrow> trace \<Rightarrow> trace \<Rightarrow> bool" where
  "schedule tr calls sch \<longleftrightarrow> set sch = {ce \<in> set calls. is_copy ce} \<and>
     sorted_wrt (\<lambda>first later. \<not> depends tr (copy_waits_on first) (snd later)) sch"

lemma rect_copies_map:
  assumes "list_all2 (\<lambda>ce c. \<exists>n p. fst ce = (case c of (b, s, d) \<Rightarrow> RectCopy b n s d p)) sch cs"
  shows "rect_copies sch = cs"
  using assms by (induction rule: list_all2_induct) (auto simp: rect_copies_def split: prod.splits)

lemma in_rect_copies_iff: "(b, s, d) \<in> set (rect_copies tr) \<longleftrightarrow> (\<exists>n p c. (RectCopy b n s d p, c) \<in> set tr)"
proof (induction tr)
  case (Cons ce tr)
  obtain call c where "ce = (call, c)" by (cases ce)
  with Cons show ?case by (cases call) auto
qed simp

lemma schedule_copies: "schedule tr calls sch \<Longrightarrow> set (rect_copies sch) = set (rect_copies calls)"
proof -
  assume "schedule tr calls sch"
  then have "(RectCopy b n s d p, c) \<in> set sch \<longleftrightarrow> (RectCopy b n s d p, c) \<in> set calls" for b n s d p c
    by (simp add: schedule_def is_copy_def)
  then show ?thesis by (auto simp: in_rect_copies_iff)
qed

lemma schedule_shards:
  assumes sch: "schedule tr calls sch" and t: "timed l pre post (key ` D) calls tr"
  obtains ds where "set ds \<subseteq> D" and "rect_copies sch = map (entry l \<circ> key) ds" and "length ds = length sch"
    and "\<forall>i < length ds. depends tr (copy_waits_on (sch ! i)) (pre (key (ds ! i))) \<and>
      depends tr (post (key (ds ! i))) (snd (sch ! i))"
proof -
  let ?R = "\<lambda>ce d. d \<in> D \<and> (\<exists>n p. fst ce = (case entry l (key d) of (b, s, e) \<Rightarrow> RectCopy b n s e p)) \<and>
    depends tr (copy_waits_on ce) (pre (key d)) \<and> depends tr (post (key d)) (snd ce)"
  have "\<exists>d. ?R ce d" if "ce \<in> set sch" for ce
  proof -
    have "ce \<in> set calls" "is_copy ce" using sch that by (auto simp: schedule_def)
    moreover from this(2) obtain b n s d p c where ce: "ce = (RectCopy b n s d p, c)"
      unfolding is_copy_def by (cases ce; cases "fst ce") auto
    ultimately have "(RectCopy b n s d p, c) \<in> set calls" by simp
    then obtain e where "e \<in> D" "entry l (key e) = (b, s, d)" "depends tr p (pre (key e))" "depends tr (post (key e)) c"
      using t unfolding timed_def by blast
    then show ?thesis by (intro exI[of _ e]) (simp add: ce copy_waits_on_def)
  qed
  then obtain f where f: "\<And>ce. ce \<in> set sch \<Longrightarrow> ?R ce (f ce)" by metis
  have "rect_copies sch = map (entry l \<circ> key) (map f sch)"
    by (rule rect_copies_map) (use f in \<open>auto simp: list_all2_conv_all_nth\<close>)
  then show thesis by (intro that[of "map f sch"]) (use f in auto)
qed

section \<open>Broadcasts move arrays\<close>

lemma spreading_start: "idle_on (tree_ledger x) mgr \<Longrightarrow> spreading x tr {} {} mgr tr"
proof -
  assume "idle_on (tree_ledger x) mgr"
  moreover have "fed x {} {} = {}" "took x {} = {}" by (auto simp: fed_def took_def sender_in_def split: option.splits)
  ultimately show ?thesis using idle_start unfolding spreading_def by fastforce
qed

lemma tree_order:
  assumes able: "broadcast_able k x" and inj: "inj_on (tf_dst_inst x) (Collect (is_shard (tf_dst x)))"
    and o: "ordered (tree_ledger x) pre post tr0 S R mgr tr" and all: "S \<inter> R = lg_keys (tree_ledger x)"
    and down: "\<And>p d. is_shard (tf_dst x) p \<Longrightarrow> d \<in> set (leaves_in x p) \<Longrightarrow> depends tr (pre (key_to x d)) (post (key_to x p))"
    and calls: "tr = tr0 @ calls" and sch: "schedule tr calls sch"
  obtains ds where "set ds = Collect (is_shard (tf_dst x))" and "rect_copies sch = map (entry (tree_ledger x) \<circ> key_to x) ds"
    and "\<And>xs d ys. ds = xs @ d # ys \<Longrightarrow> (\<exists>s. is_shard (tf_src x) s \<and> origin x d = tf_src_inst x s) \<or>
      origin x d \<in> tf_dst_inst x ` set xs"
proof -
  note f = tree_ableD(1)[OF able]
  let ?D = "Collect (is_shard (tf_dst x))" and ?l = "tree_ledger x"
  have K: "S \<inter> R = key_to x ` ?D" using all by (simp add: tree_ledger_def)
  have c: "set (rect_copies calls) = entry ?l ` key_to x ` ?D" "timed ?l pre post (key_to x ` ?D) calls tr"
    using o calls by (auto simp: ordered_def K)
  obtain ds where ds: "set ds \<subseteq> ?D" "rect_copies sch = map (entry ?l \<circ> key_to x) ds" "length ds = length sch"
    and timing: "\<forall>i < length ds. depends tr (copy_waits_on (sch ! i)) (pre (key_to x (ds ! i))) \<and>
      depends tr (post (key_to x (ds ! i))) (snd (sch ! i))"
    by (rule schedule_shards[OF sch c(2)])
  have "set (rect_copies sch) = set (rect_copies calls)" by (rule schedule_copies[OF sch])
  then have same: "(entry ?l \<circ> key_to x) ` set ds = entry ?l ` key_to x ` ?D" unfolding ds(2) c(1) set_map .
  have "d \<in> set ds" if d: "d \<in> ?D" for d
  proof -
    have "entry ?l (key_to x d) \<in> (entry ?l \<circ> key_to x) ` set ds" unfolding same by (intro imageI d)
    then obtain e where e: "e \<in> set ds" and "entry ?l (key_to x d) = (entry ?l \<circ> key_to x) e" by blast
    then have "tf_dst_inst x e = tf_dst_inst x d" by (simp add: entry_def)
    then show ?thesis using inj_onD[OF inj] e ds(1) d by blast
  qed
  then have everyone: "set ds = ?D" using ds(1) by blast
  have "(\<exists>s. is_shard (tf_src x) s \<and> origin x d = tf_src_inst x s) \<or> origin x d \<in> tf_dst_inst x ` set xs"
    if split: "ds = xs @ d # ys" for xs d ys
  proof -
    have "is_shard (tf_dst x) d" using everyone split by auto
    from f this show ?thesis
    proof (cases rule: target_cases)
      case (root s)
      then show ?thesis by (auto simp: origin_def)
    next
      case (inner p)
      note key = leaf_key[OF f inner(1,2)]
      have "p \<in> set xs"
      proof (rule ccontr)
        assume "p \<notin> set xs"
        then have "p \<in> set ys" using everyone inner(1) key(5) split by auto
        then obtain j where j: "j < length ys" "ys ! j = p" by (auto simp: in_set_conv_nth)
        let ?i = "length xs" and ?j = "Suc (length xs + j)"
        have at: "ds ! ?i = d" "ds ! ?j = p" "?i < ?j" "?j < length ds" using split j by (auto simp: nth_append)
        have "depends tr (copy_waits_on (sch ! ?i)) (snd (sch ! ?j))"
          using timing[rule_format, of ?i] timing[rule_format, of ?j] down[OF inner(1,2)] at by (auto intro: depends_trans)
        moreover have "\<not> depends tr (copy_waits_on (sch ! ?i)) (snd (sch ! ?j))"
          using sch at(3,4) ds(3) unfolding schedule_def sorted_wrt_iff_nth_less by auto
        ultimately show False by blast
      qed
      then show ?thesis using key(2) by blast
    qed
  qed
  from that[OF everyone ds(2) this] show thesis .
qed

lemma spread_out:
  assumes able: "broadcast_able k x" and src: "\<And>i. is_shard (tf_src x) i \<Longrightarrow> i \<in> Ss"
    and dst: "\<And>i. is_shard (tf_dst x) i \<Longrightarrow> i \<in> Ds" and u: "spreading x tr0 Ss Ds mgr tr"
  shows "\<exists>pre post. ordered (tree_ledger x) pre post tr0 (lg_keys (tree_ledger x)) (lg_keys (tree_ledger x)) mgr tr \<and>
    (\<forall>p d. is_shard (tf_dst x) p \<longrightarrow> d \<in> set (leaves_in x p) \<longrightarrow> depends tr (pre (key_to x d)) (post (key_to x p)))"
proof -
  have "sender_in x Ss Ds d" if "is_shard (tf_dst x) d" for d
    using tree_ableD(1)[OF able] that by (cases rule: target_cases) (simp_all add: sender_in_def src dst)
  then have "fed x Ss Ds = lg_keys (tree_ledger x)" "took x Ds = lg_keys (tree_ledger x)"
    using dst by (auto simp: fed_def took_def tree_ledger_def)
  then show ?thesis using u dst unfolding spreading_def by metis
qed

lemma tree_carries:
  assumes able: "broadcast_able k x" and inj: "inj_on (tf_dst_inst x) (Collect (is_shard (tf_dst x)))"
    and apart: "\<forall>s d. is_shard (tf_src x) s \<longrightarrow> is_shard (tf_dst x) d \<longrightarrow> tf_src_inst x s \<noteq> tf_dst_inst x d"
    and o: "ordered (tree_ledger x) pre post tr0 (lg_keys (tree_ledger x)) (lg_keys (tree_ledger x)) mgr tr"
    and down: "\<forall>p d. is_shard (tf_dst x) p \<longrightarrow> d \<in> set (leaves_in x p) \<longrightarrow>
      depends tr (pre (key_to x d)) (post (key_to x p))"
    and calls: "tr = tr0 @ calls"
    and held: "\<forall>s. is_shard (tf_src x) s \<longrightarrow> tile_held (tf_dim x) (tf_src x) s (mem (tf_src_inst x s)) A"
    and sch: "schedule tr calls sch" and d: "is_shard (tf_dst x) d"
  shows "tile_held (tf_dim x) (tf_dst x) d (after_copies (rect_copies sch) mem (tf_dst_inst x d)) A"
proof -
  note e = same_extentD[OF tree_ableD(2)[OF able]]
  let ?G = "tf_src_inst x ` Collect (is_shard (tf_src x))" and ?b = "tile_box d (tf_dst x)"
  obtain ds where ds: "set ds = Collect (is_shard (tf_dst x))" "rect_copies sch = map (entry (tree_ledger x) \<circ> key_to x) ds"
    and order: "\<And>xs d ys. ds = xs @ d # ys \<Longrightarrow> (\<exists>s. is_shard (tf_src x) s \<and> origin x d = tf_src_inst x s) \<or>
      origin x d \<in> tf_dst_inst x ` set xs"
    using tree_order[OF able inj o Int_absorb _ calls sch] down by metis
  have "entry (tree_ledger x) (key_to x i) = (?b, origin x i, tf_dst_inst x i)" if "i \<in> set ds" for i
    using one_box[OF able _ d, of i] that ds(1) by (simp add: entry_def)
  then have cs: "rect_copies sch = map (\<lambda>d. (?b, origin x d, tf_dst_inst x d)) ds" unfolding ds(2) by simp
  have "after_copies (rect_copies sch) mem (tf_dst_inst x d) q = A q"
    if q: "array_point (tf_dst x) q" "in_rect ?b q" for q
    unfolding cs
  proof (rule relay[where G = ?G])
    show "origin x i \<in> ?G \<or> origin x i \<in> tf_dst_inst x ` set xs" if "ds = xs @ i # ys" for xs i ys
      using order[OF that] by auto
    show "tf_dst_inst x i \<notin> ?G" if "i \<in> set ds" for i using apart that ds(1) by force
    show "mem i q = A q" if i: "i \<in> ?G" for i
    proof -
      obtain s where s: "is_shard (tf_src x) s" "i = tf_src_inst x s" using i by blast
      have "ComputeTileBounds (tf_dim x) s (tf_src x) = ret ?b"
        using ComputeTileBounds_ok[of "tf_src x" s "tf_dim x"] s(1) e tree_ableD(3)[OF able s(1) d] by (simp add: is_shard_def)
      then show ?thesis using held s q e(5) by (auto simp: tile_held_def)
    qed
    show "tf_dst_inst x d \<in> ?G \<union> tf_dst_inst x ` set ds" using ds(1) d by simp
  qed (rule q(2))
  moreover have "ComputeTileBounds (tf_dim x) d (tf_dst x) = ret ?b"
    using ComputeTileBounds_ok[of "tf_dst x" d "tf_dim x"] d e by (simp add: is_shard_def)
  ultimately show ?thesis by (auto simp: tile_held_def)
qed

text \<open>
  C2. A broadcast moves the array. Both arrays are replicated and every source shard feeds the same power of
  two of target shards. The processors of a process each run \<open>Reshard\<close> on the two arrays, in any order:
  every run succeeds, the manager has nothing left to pair, and if the tiles of the source hold an array,
  then the tile of every shard of the target holds it too once the copies that were issued have happened, in
  any order in which no copy happens before one that it waits for. So the order of the sends down the trees is
  enforced by events alone.
\<close>

theorem broadcast_moves_array:
  fixes w :: "'z runtime_scheme"
  assumes "tree_able k (tf_dim x) (tf_src x) (tf_dst x)"
    and "\<forall>(p, v, st) \<in> set parts. \<exists>sa da. sees m t x p v st sa da"
    and "distinct (map (\<lambda>(p, v, st). global_id p) parts)"
    and "\<forall>i. dl_contains (sh_devices (tf_src x)) i \<or> dl_contains (sh_devices (tf_dst x)) i \<longrightarrow>
      i \<in> (\<lambda>(p, v, st). global_id p) ` set parts"
    and "\<forall>s d. is_shard (tf_src x) s \<longrightarrow> is_shard (tf_dst x) d \<longrightarrow> tf_src_inst x s \<noteq> tf_dst_inst x d"
    and "inj_on (tf_dst_inst x) (Collect (is_shard (tf_dst x)))"
    and "idle_on (tree_ledger x) mgr" and "user_events_exist rl" and "Util_proc t = ret u"
  shows "\<exists>sts mgr' calls (w' :: 'z runtime_scheme).
    reshard_each rl m t (tf_dim x) parts mgr w = Some (ret (sts, mgr', w')) \<and> idle_on (tree_ledger x) mgr' \<and>
    trace_of w' = trace_of w @ calls \<and>
    (\<forall>mem (A :: int list \<Rightarrow> 'v) copies.
       (\<forall>s. is_shard (tf_src x) s \<longrightarrow> tile_held (tf_dim x) (tf_src x) s (mem (tf_src_inst x s)) A) \<longrightarrow>
       schedule (trace_of w') calls copies \<longrightarrow>
       (\<forall>d. is_shard (tf_dst x) d \<longrightarrow>
          tile_held (tf_dim x) (tf_dst x) d (after_copies (rect_copies copies) mem (tf_dst_inst x d)) A))"
proof -
  have "\<exists>sts mgr' (w' :: 'z runtime_scheme). reshard_each rl m t (tf_dim x) parts mgr w = Some (ret (sts, mgr', w')) \<and>
    spreading x (trace_of w) (roles (src_role x) parts) (roles (dst_role x) parts) mgr' (trace_of w')"
  proof (rule reshard_each_keeps[where I = "spreading x (trace_of w)", OF _ assms(3) spreading_start[OF assms(7)]])
    fix p v st Ss Ds mgr1 and w1 :: "'z runtime_scheme"
    assume "(p, v, st) \<in> set parts" and new: "fresh_role (src_role x p) Ss" "fresh_role (dst_role x p) Ds"
      and u: "spreading x (trace_of w) Ss Ds mgr1 (trace_of w1)"
    then obtain sa da where "sees m t x p v st sa da" using assms(2) by blast
    from Reshard_spreads[OF this assms(1) new u assms(8,9)]
    show "\<exists>st' mgr' (w' :: 'z runtime_scheme). Reshard rl m t (tf_dim x) p v st mgr1 w1 = Some (ret (st', mgr', w')) \<and>
      spreading x (trace_of w) (with_role (src_role x p) Ss) (with_role (dst_role x p) Ds) mgr' (trace_of w')" .
  qed
  then obtain sts mgr' and w' :: "'z runtime_scheme"
    where run: "reshard_each rl m t (tf_dim x) parts mgr w = Some (ret (sts, mgr', w'))"
      and u: "spreading x (trace_of w) (roles (src_role x) parts) (roles (dst_role x) parts) mgr' (trace_of w')"
    by blast
  have all: "is_shard (tf_src x) i \<Longrightarrow> i \<in> roles (src_role x) parts" "is_shard (tf_dst x) i \<Longrightarrow> i \<in> roles (dst_role x) parts" for i
    using all_shards[of "tf_src x" parts i] all_shards[of "tf_dst x" parts i] assms(4) by simp_all
  from spread_out[OF assms(1) all u] obtain pre post
    where o: "ordered (tree_ledger x) pre post (trace_of w) (lg_keys (tree_ledger x)) (lg_keys (tree_ledger x))
        mgr' (trace_of w')"
      and down: "\<forall>p d. is_shard (tf_dst x) p \<longrightarrow> d \<in> set (leaves_in x p) \<longrightarrow>
        depends (trace_of w') (pre (key_to x d)) (post (key_to x p))" by blast
  then obtain calls where calls: "trace_of w' = trace_of w @ calls" by (auto simp: ordered_def)
  have "tile_held (tf_dim x) (tf_dst x) d (after_copies (rect_copies copies) mem (tf_dst_inst x d)) A"
    if "\<forall>s. is_shard (tf_src x) s \<longrightarrow> tile_held (tf_dim x) (tf_src x) s (mem (tf_src_inst x s)) A"
      "schedule (trace_of w') calls copies" "is_shard (tf_dst x) d" for mem d copies and A :: "int list \<Rightarrow> 'v"
    using tree_carries[OF assms(1,6,5) o down calls that] .
  then show ?thesis using run idle_end[OF o] calls by blast
qed

section \<open>An example\<close>

text \<open>
  An array of eight elements, a copy on each of two devices, becomes one with a copy on each of four. The third
  shard of the target waits for the second, whose copy is issued after the one that reads it.
\<close>

definition replicas :: "int \<Rightarrow> sharding" where
  "replicas n = \<lparr>sh_dims = [\<lparr>dim_size = 8, dim_sharding = 1, dim_permutation = 0\<rparr>,
     \<lparr>dim_size = 1, dim_sharding = n, dim_permutation = 1\<rparr>], sh_devices = dl_ctor 0 n\<rparr>"

definition one_space :: machine where
  "one_space = two_spaces\<lparr>space_of := \<lambda>_. 0\<rparr>"

definition old_replica :: "int \<Rightarrow> sharded_array" where
  "old_replica i = (placed_array (replicas 2) 0 (\<lambda>i. 50 + nat i) i)\<lparr>sa_tile :=
     if i < 2 then sa_tile (placed_array (replicas 2) 0 (\<lambda>i. 50 + nat i) i) else None\<rparr>"

definition new_replica :: "int \<Rightarrow> sharded_array" where
  "new_replica = placed_array (replicas 4) 1 (\<lambda>i. 60 + nat i)"

definition replica_view :: "int \<Rightarrow> sharded_array view" where
  "replica_view i = \<lparr>view_pre = None, war_dependency = None, sub_views = [],
     view_content = SharedValue (Some (old_replica i))\<rparr>"

definition replica_takers :: "part_taker list" where
  "replica_takers = map (\<lambda>i. (cpu i, replica_view i, Store_Create (new_replica i))) [3, 0, 2, 1]"

definition replica_transfer :: transfer where
  "replica_transfer = \<lparr>tf_dim = 3, tf_src = replicas 2, tf_dst = replicas 4,
     tf_src_id = unique_id_of (old_replica 0), tf_dst_id = unique_id_of (new_replica 0),
     tf_src_inst = (\<lambda>i. 50 + nat i), tf_dst_inst = (\<lambda>i. 60 + nat i)\<rparr>"

lemma replica_config:
  "DetermineShardingConfig 3 (cpu 0) (replicas 2) (replicas 4) = Some (ret (BroadcastC
     \<lparr>bc_source = Some \<lparr>dst_root_shards = [0]\<rparr>, bc_target = Some
        \<lparr>tc_src_shard = Some 0, tc_dst_root_shard = None, tc_dst_leaf_shards = [1]\<rparr>\<rparr>))"
  "DetermineShardingConfig 3 (cpu 1) (replicas 2) (replicas 4) = Some (ret (BroadcastC
     \<lparr>bc_source = Some \<lparr>dst_root_shards = [2]\<rparr>, bc_target = Some
        \<lparr>tc_src_shard = None, tc_dst_root_shard = Some 0, tc_dst_leaf_shards = []\<rparr>\<rparr>))"
  "DetermineShardingConfig 3 (cpu 2) (replicas 2) (replicas 4) = Some (ret (BroadcastC
     \<lparr>bc_source = None, bc_target = Some
        \<lparr>tc_src_shard = Some 1, tc_dst_root_shard = None, tc_dst_leaf_shards = [3]\<rparr>\<rparr>))"
  "DetermineShardingConfig 3 (cpu 3) (replicas 2) (replicas 4) = Some (ret (BroadcastC
     \<lparr>bc_source = None, bc_target = Some
        \<lparr>tc_src_shard = None, tc_dst_root_shard = Some 2, tc_dst_leaf_shards = []\<rparr>\<rparr>))"
  by code_simp+

definition replica_box :: rect where
  "replica_box = \<lparr>rect_rank = 1, rect_lo = [0], rect_hi = [7]\<rparr>"

lemma replica_boxes:
  "tile_box 0 (replicas 2) = replica_box" "tile_box 1 (replicas 2) = replica_box"
  "tile_box 0 (replicas 4) = replica_box" "tile_box 1 (replicas 4) = replica_box"
  "tile_box 2 (replicas 4) = replica_box" "tile_box 3 (replicas 4) = replica_box"
  by code_simp+

lemmas host_defs = HostForShard_def placed_array_def replicas_def cpu_def dl_defs add64_def chk_def
  GetAttachedHost_def RemoteProc_def one_process_def four_tables_def one_space_def two_spaces_def value_or_def
  vec_at_def int64_ok_def int64_min_def int64_max_def no_tables_def

lemma replica_host:
  "j \<in> {0, 1, 2, 3} \<Longrightarrow> HostForShard one_space one_process (new_replica i) j = ret (10 + nat j)"
  "j \<in> {0, 1} \<Longrightarrow> HostForShard one_space one_process (old_replica i) j = ret (10 + nat j)"
  by (auto simp: new_replica_def old_replica_def host_defs)

lemma replica_arrays:
  "shp_sharding (sa_shape (old_replica i)) = replicas 2" "shp_sharding (sa_shape (new_replica i)) = replicas 4"
  "shp_type (sa_shape (old_replica i)) = F32" "shp_type (sa_shape (new_replica i)) = F32"
  "sa_shard_id (old_replica i) = i" "sa_shard_id (new_replica i) = i"
  "HasTile (new_replica i)" "HasTile (old_replica i) \<longleftrightarrow> i < 2" "\<not> HasName (new_replica i)"
  "array_tile_of (new_replica i) = ret \<lparr>at_instance = 60 + nat i, at_shape = \<lparr>tsh_type = F32, tsh_dims = [4],
     tsh_bounds = tile_box i (replicas 4)\<rparr>, at_type = Int32\<rparr>"
  "i < 2 \<Longrightarrow> array_tile_of (old_replica i) = ret \<lparr>at_instance = 50 + nat i, at_shape = \<lparr>tsh_type = F32, tsh_dims = [4],
     tsh_bounds = tile_box i (replicas 2)\<rparr>, at_type = Int32\<rparr>"
  "space_of one_space pr = 0"
  "slice_key (old_replica i) (new_replica j) a b = part_key replica_transfer a b"
  "slice_key (new_replica i) (new_replica j) a b = hop_key replica_transfer a b"
  by (simp_all add: old_replica_def new_replica_def placed_array_def HasTile_def HasName_def array_tile_of_def one_space_def
      slice_key_def part_key_def hop_key_def replica_transfer_def unique_id_of_def)

lemma replica_keys:
  "key_src_shard (hop_key x a b) = a" "key_dst_shard (hop_key x a b) = b"
  "part_key replica_transfer a b \<noteq> hop_key replica_transfer c d" "hop_key replica_transfer a b \<noteq> part_key replica_transfer c d"
  "hop_key x a b = hop_key x c d \<longleftrightarrow> a = c \<and> b = d"
  by (auto simp: part_key_def hop_key_def replica_transfer_def unique_id_of_def old_replica_def new_replica_def
      placed_array_def)

lemma replica_views:
  "view_move (replica_view i) = (replica_view i, (replica_view i)\<lparr>view_content := SharedValue None\<rparr>)" "view_pre (replica_view i) = None"
  "view_content (replica_view i) = SharedValue (Some (old_replica i))" "sub_views (replica_view i) = []"
  "war_dependency (replica_view i) = None"
  by (simp_all add: view_move_def null_content_def replica_view_def)

text \<open>A record of the manager in use, by what waits in it.\<close>

definition queued :: "string \<Rightarrow> pending_op list \<Rightarrow> pending_op list \<Rightarrow> p2p" where
  "queued n ss ds = new_p2p\<lparr>p2p_shape := Some replica_box, p2p_field_size := 4, p2p_exists := True,
     p2p_name := Some n, pending_source := ss, pending_dest := ds\<rparr>"

lemma queued_fields:
  "ack_done_barrier new_p2p = NO_EVENT" "target_ready_barrier new_p2p = NO_EVENT" "pending_source new_p2p = []"
  "pending_dest new_p2p = []" "ack_done_barrier (queued n ss ds) = NO_EVENT" "target_ready_barrier (queued n ss ds) = NO_EVENT"
  "pending_source (queued n ss ds) = ss" "pending_dest (queued n ss ds) = ds"
  "p2p_shape (queued n ss ds) = Some replica_box" "p2p_field_size (queued n ss ds) = 4"
  "first_use b ty n' (queued n ss ds) = ret (queued n ss ds)"
  "first_use replica_box F32 (ret n) new_p2p = ret (queued n [] [])"
  "queued n ss ds \<lparr>pending_source := ss'\<rparr> = queued n ss' ds" "queued n ss ds \<lparr>pending_dest := ds'\<rparr> = queued n ss ds'"
  by (simp_all add: queued_def new_p2p_def first_use_def)

lemmas replica_simps = replica_config replica_boxes replica_host replica_arrays replica_keys replica_views queued_fields
  GetManager_def Store_Create_def store_get_def view_get_def

lemmas broadcast_simps = Reshard_def run_protocol_def ReshardBroadcast_def ReshardBroadcastToLocalTarget_def
  ReshardBroadcastFromLocalSource_def broadcast_receive_def broadcast_leaf_def opt_get_def send_slice_def
  done_after_all_def store_ReadyAfter_def store_ReadyAfter2_def store_view_def add_reader_def
  ReshardFromLocalSource_def RendezvousReshardFromLocalSource_def ReshardToLocalTarget_def
  RendezvousReshardToLocalTarget_def send_ack_barrier_def source_pair_def target_wait_def target_pair_def
  store_Precondition_def get_shape_def merge2_def merge_set_def IssueCopy_def invoke_def command_def fresh_realm_def
  view_Precondition_def view_destroy_def view_DoneAfter_def deferred_release_def IncPendingOp_def

lemma replica_names:
  obtains n n' where "\<forall>i j. ReshardName (new_replica i) (new_replica j) = ret (n i j)"
    and "\<forall>i j. ReshardName (old_replica i) (new_replica j) = ret (n' i j)"
proof -
  have "\<forall>i j. \<exists>n. ReshardName (new_replica i) (new_replica j) = ret n"
    "\<forall>i j. \<exists>n. ReshardName (old_replica i) (new_replica j) = ret n"
    using ReshardName_ok replica_arrays(7,9) by blast+
  then show thesis using that by metis
qed

text \<open>What can be reached from an event along the waiting order lies in every set that is closed under it.\<close>

lemma depends_within: "depends tr e x \<Longrightarrow> e \<in> E \<Longrightarrow> \<forall>(a, b) \<in> waits tr. a \<in> E \<longrightarrow> b \<in> E \<Longrightarrow> x \<in> E"
  unfolding depends_def by (induction rule: rtrancl_induct) auto

text \<open>The calls made; handle 15 is the copy from the third shard to the fourth, handle 24 the one into the third.\<close>

definition replica_calls :: "realm_proc \<Rightarrow> trace" where
  "replica_calls u = [(CreateUserEvent, 1), (CreateUserEvent, 2), (CreateUserEvent, 3), (CreateUserEvent, 4),
     (MergeEvents [4], 5), (TriggerEvent 3 5, 6), (SpawnRelease u 5, 7), (MergeEvents [0, 0], 8),
     (RectCopy replica_box 4 50 60 8, 9), (TriggerEvent 2 9, 10), (MergeEvents [9], 11),
     (CreateUserEvent, 12), (CreateUserEvent, 13), (MergeEvents [0, 12], 14),
     (RectCopy replica_box 4 62 63 14, 15), (TriggerEvent 1 15, 16), (MergeEvents [15], 17),
     (TriggerEvent 13 17, 18), (SpawnRelease u 17, 19), (MergeEvents [2, 0], 20),
     (RectCopy replica_box 4 60 61 20, 21), (TriggerEvent 4 21, 22), (MergeEvents [0, 0], 23),
     (RectCopy replica_box 4 51 62 23, 24), (TriggerEvent 12 24, 25), (MergeEvents [24], 26)]"

lemma replica_trace:
  "\<exists>u sts mgr (w :: runtime). reshard_each fresh_realm one_space one_process 3 replica_takers GetManager
      \<lparr>trace_of = [], pending_ops = 0\<rparr> = Some (ret (sts, mgr, w)) \<and> trace_of w = replica_calls u"
proof -
  obtain n n' where names: "\<forall>i j. ReshardName (new_replica i) (new_replica j) = ret (n i j)"
    "\<forall>i j. ReshardName (old_replica i) (new_replica j) = ret (n' i j)" by (rule replica_names)
  obtain u where u: "Util_proc one_process = ret u" using one_process_util by blast
  show ?thesis
    by (rule exI[of _ "pr_proc u"])
      (simp add: replica_takers_def broadcast_simps replica_simps names u NO_EVENT_def Suc_eq_plus1
        replica_calls_def del: One_nat_def)
qed

lemma replica_waits:
  "depends (replica_calls u) 8 e \<Longrightarrow> e \<in> {8, 0}" "depends (replica_calls u) 23 e \<Longrightarrow> e \<in> {23, 0}"
  "depends (replica_calls u) 14 e \<Longrightarrow> e \<in> {14, 0, 12, 24, 23}"
  by (erule depends_within; simp add: replica_calls_def waits_Cons)+

lemma replica_able: "tree_able 1 3 (replicas 2) (replicas 4)"
proof -
  have "sharding_ok (replicas 2)" "sharding_ok (replicas 4)"
    by (simp_all add: sharding_ok_def replicas_def dim_ok_def is_repl_dim_def size_of_def
        elements_def device_list_ok_def dl_defs int64_max_def)
  then have "same_extent 3 (replicas 2) (replicas 4)"
    by (simp add: same_extent_def replicas_def is_repl_dim_def rank_supported_def)
  then show ?thesis
    by (simp add: tree_able_def full_trees_def bcast_ok_def tiles_def replicas_def is_repl_dim_def dl_defs)
qed

lemma replica_cases:
  "is_shard (replicas 2) i \<Longrightarrow> i \<in> {0, 1}" "is_shard (replicas 4) i \<Longrightarrow> i \<in> {0, 1, 2, 3}"
  by (auto simp: is_shard_def replicas_def)

lemma replica_at:
  "array_at one_space one_process (cpu i) (replicas 2) (unique_id_of (old_replica 0)) (\<lambda>i. 50 + nat i) (old_replica i)"
  "array_at one_space one_process (cpu i) (replicas 4) (unique_id_of (new_replica 0)) (\<lambda>i. 60 + nat i) (new_replica i)"
  if "i \<in> {0, 1, 2, 3}"
proof -
  have devices: "sh_devices (replicas n) = dl_ctor 0 n" for n by (simp add: replicas_def)
  have "\<exists>host. HostForShard one_space one_process (old_replica i) j = ret host" if "is_shard (replicas 2) j" for j
    using replica_host(2) replica_cases(1)[OF that] by blast
  moreover have "\<exists>host. HostForShard one_space one_process (new_replica i) j = ret host" if "is_shard (replicas 4) j" for j
    using replica_host(1) replica_cases(2)[OF that] by blast
  ultimately show
    "array_at one_space one_process (cpu i) (replicas 2) (unique_id_of (old_replica 0)) (\<lambda>i. 50 + nat i) (old_replica i)"
    "array_at one_space one_process (cpu i) (replicas 4) (unique_id_of (new_replica 0)) (\<lambda>i. 60 + nat i) (new_replica i)"
    using that replica_arrays(12)
    by (auto simp: array_at_def devices dl_defs cpu_def old_replica_def new_replica_def placed_array_def unique_id_of_def)
qed

lemma replica_sees:
  "\<forall>(p, v, st) \<in> set replica_takers. \<exists>sa da. sees one_space one_process replica_transfer p v st sa da"
proof -
  have "sees one_space one_process replica_transfer (cpu i) (replica_view i) (Store_Create (new_replica i))
      (old_replica i) (new_replica i)" if "i \<in> {0, 1, 2, 3}" for i
    using replica_at[OF that] replica_arrays(9)
    by (simp add: sees_def replica_transfer_def view_get_def replica_views store_get_def Store_Create_def)
  then show ?thesis by (auto simp: replica_takers_def)
qed

definition replica_memory :: "(inst, int) memory" where
  \<comment> \<open>element \<open>n\<close> of the array is \<open>n\<close>; the two instances of the source hold all of it\<close>
  "replica_memory = (\<lambda>i p. if i = 50 \<or> i = 51 then hd p else - 1)"

lemma replica_memory_held:
  assumes "is_shard (replicas 2) s"
  shows "tile_held 3 (replicas 2) s (replica_memory (50 + nat s)) hd"
proof -
  have "same_extent 3 (replicas 2) (replicas 4)" using replica_able by (simp add: tree_able_def)
  note e = same_extentD[OF this]
  have "ComputeTileBounds 3 s (replicas 2) = ret (tile_box s (replicas 2))"
    using assms by (intro ComputeTileBounds_ok e) (auto simp: is_shard_def)
  then show ?thesis using replica_cases(1)[OF assms] by (auto simp: tile_held_def replica_memory_def)
qed

definition replica_schedule :: trace where
  "replica_schedule = [(RectCopy replica_box 4 50 60 8, 9), (RectCopy replica_box 4 51 62 23, 24),
     (RectCopy replica_box 4 62 63 14, 15), (RectCopy replica_box 4 60 61 20, 21)]"

theorem broadcast_moves_array_witness:
  "\<exists>sts mgr' (w' :: runtime). reshard_each fresh_realm one_space one_process 3 replica_takers GetManager
      \<lparr>trace_of = [], pending_ops = 0\<rparr> = Some (ret (sts, mgr', w')) \<and>
    schedule (trace_of w') (trace_of w') replica_schedule \<and>
    tile_held 3 (replicas 4) 1 (after_copies (rect_copies replica_schedule) replica_memory 61) hd \<and>
    tile_held 3 (replicas 4) 3 (after_copies (rect_copies replica_schedule) replica_memory 63) hd"
proof -
  let ?x = replica_transfer and ?w = "\<lparr>trace_of = [], pending_ops = 0\<rparr> :: runtime"
  have x: "tf_dim ?x = 3" "tf_src ?x = replicas 2" "tf_dst ?x = replicas 4"
    "tf_src_inst ?x = (\<lambda>i. 50 + nat i)" "tf_dst_inst ?x = (\<lambda>i. 60 + nat i)"
    by (simp_all add: replica_transfer_def)
  have able: "tree_able 1 (tf_dim ?x) (tf_src ?x) (tf_dst ?x)" using replica_able by (simp add: x)
  have ids: "distinct (map (\<lambda>(p, v, st). global_id p) replica_takers)"
    "\<forall>i. dl_contains (sh_devices (tf_src ?x)) i \<or> dl_contains (sh_devices (tf_dst ?x)) i \<longrightarrow>
      i \<in> (\<lambda>(p, v, st). global_id p) ` set replica_takers"
    by (auto simp: replica_takers_def cpu_def x replicas_def dl_defs)
  have apart: "\<forall>s d. is_shard (tf_src ?x) s \<longrightarrow> is_shard (tf_dst ?x) d \<longrightarrow> tf_src_inst ?x s \<noteq> tf_dst_inst ?x d"
    using replica_cases by (fastforce simp: x)
  have inj: "inj_on (tf_dst_inst ?x) (Collect (is_shard (tf_dst ?x)))"
    by (auto simp: x inj_on_def is_shard_def)
  have idle: "idle_on (tree_ledger ?x) GetManager" by (simp add: idle_on_def GetManager_def new_p2p_def)
  have user: "user_events_exist fresh_realm" by (simp add: user_events_exist_def fresh_realm_def NO_EVENT_def)
  from broadcast_moves_array[OF able replica_sees ids apart inj idle user one_process_util, of ?w]
  obtain sts mgr' calls and w' :: runtime
    where run: "reshard_each fresh_realm one_space one_process 3 replica_takers GetManager ?w = Some (ret (sts, mgr', w'))"
      and calls: "trace_of w' = calls"
      and moved: "\<forall>mem (A :: int list \<Rightarrow> int) copies.
       (\<forall>s. is_shard (replicas 2) s \<longrightarrow> tile_held 3 (replicas 2) s (mem (50 + nat s)) A) \<longrightarrow>
       schedule (trace_of w') calls copies \<longrightarrow>
       (\<forall>d. is_shard (replicas 4) d \<longrightarrow>
          tile_held 3 (replicas 4) d (after_copies (rect_copies copies) mem (60 + nat d)) A)"
    by (auto simp: x)
  obtain u where trace: "trace_of w' = replica_calls u" using replica_trace run by auto
  have "\<not> depends (replica_calls u) 8 24" "\<not> depends (replica_calls u) 8 15" "\<not> depends (replica_calls u) 8 21"
    "\<not> depends (replica_calls u) 23 15" "\<not> depends (replica_calls u) 23 21" "\<not> depends (replica_calls u) 14 21"
    using replica_waits by fastforce+
  then have "sorted_wrt (\<lambda>first later. \<not> depends (replica_calls u) (copy_waits_on first) (snd later)) replica_schedule"
    by (simp add: replica_schedule_def copy_waits_on_def)
  moreover have "set replica_schedule = {ce \<in> set (replica_calls u). is_copy ce}"
    by (auto simp: replica_schedule_def replica_calls_def is_copy_def)
  ultimately have sch: "schedule (trace_of w') (trace_of w') replica_schedule" by (simp add: schedule_def trace)
  have shards: "is_shard (replicas 4) 1" "is_shard (replicas 4) 3" by (simp_all add: is_shard_def replicas_def)
  have held: "\<forall>s. is_shard (replicas 2) s \<longrightarrow> tile_held 3 (replicas 2) s (replica_memory (50 + nat s)) hd"
    using replica_memory_held by blast
  have effect: "tile_held 3 (replicas 4) d (after_copies (rect_copies replica_schedule) replica_memory (60 + nat d)) hd"
    if "is_shard (replicas 4) d" for d
    using moved held sch that unfolding calls by blast
  show ?thesis using run sch effect[OF shards(1)] effect[OF shards(2)] by auto
qed

end
