(* ===== verification/Hashing.thy ===== *)
theory Hashing
  imports Sharded_Array
begin

text \<open>
  \<open>src/zuku/hash.h\<close> and the hash functions of the key types in \<open>mesh.h\<close>, \<open>shape.h\<close>,
  \<open>processor.h\<close>, \<open>tiled_array.h\<close> and \<open>tiled_array.cc\<close>. The hash of a basic type is the standard library's
  choice, a parameter; sums and shifts of \<open>size_t\<close> wrap. The tables of the standard library require of a key
  type that its equality is an equivalence and that keys that compare equal hash equally: that is the interface of
  the locale \<open>hash_key\<close>, which every key type of the program satisfies. The other theories model the tables
  themselves as functions.
\<close>

unbundle bit_operations_syntax

section \<open>Combining hashes\<close>

record std_hash =
  hash_int64 :: "int \<Rightarrow> 64 word"
  hash_int :: "int \<Rightarrow> 64 word"
  hash_size :: "64 word \<Rightarrow> 64 word"
  hash_type :: "supported_type \<Rightarrow> 64 word"

definition hash_mix :: "64 word \<Rightarrow> 64 word \<Rightarrow> 64 word" where
  "hash_mix target v = target XOR (v + 0x9e3779b9 + push_bit 6 target + drop_bit 2 target)"

text \<open>
  The parameter pack of values is the list of their hashes; \<open>hash\<close> starts with the hash of its first argument.
\<close>

fun hash_combine :: "64 word \<Rightarrow> 64 word list \<Rightarrow> 64 word" where
  "hash_combine target [] = target"
| "hash_combine target (v # vs) = hash_combine (hash_mix target v) vs"

definition hash_of :: "64 word \<Rightarrow> 64 word list \<Rightarrow> 64 word" where
  "hash_of v vs = (let initial = v in hash_combine initial vs)"

definition hash_vector :: "std_hash \<Rightarrow> ('a \<Rightarrow> 64 word) \<Rightarrow> 'a list \<Rightarrow> 64 word" where
  "hash_vector h f v = foldl (\<lambda>hash t. hash_combine hash [f t]) (hash_size h (word_of_nat (length v))) v"

section \<open>The hash functions of the keys\<close>

definition hash_device_list :: "std_hash \<Rightarrow> device_list \<Rightarrow> 64 word" where
  "hash_device_list h devices = hash_of (hash_int64 h (dl_start devices)) [hash_int64 h (dl_size devices)]"

definition hash_dim :: "std_hash \<Rightarrow> sharding_dim \<Rightarrow> 64 word" where
  "hash_dim h dim = hash_of (hash_int64 h (dim_sharding dim))
     [hash_int64 h (dim_size dim), hash_int64 h (dim_permutation dim)]"

definition hash_sharding :: "std_hash \<Rightarrow> sharding \<Rightarrow> 64 word" where
  "hash_sharding h sharding = hash_of (hash_vector h (hash_dim h) (sh_dims sharding))
     [hash_device_list h (sh_devices sharding)]"

definition hash_sharded_shape :: "std_hash \<Rightarrow> sharded_shape \<Rightarrow> 64 word" where
  "hash_sharded_shape h shape = hash_of (hash_sharding h (shp_sharding shape)) [hash_type h (shp_type shape)]"

definition hash_processor :: "std_hash \<Rightarrow> processor \<Rightarrow> 64 word" where
  "hash_processor h p = hash_of (hash_int h (proc_type_int (pr_type p))) [hash_int64 h (global_id p)]"

definition hash_unique_id :: "std_hash \<Rightarrow> unique_id \<Rightarrow> 64 word" where
  "hash_unique_id h key = hash_of (hash_device_list h (uid_devices key)) [hash_size h (uid_id key)]"

definition hash_reshard_key :: "std_hash \<Rightarrow> reshard_key \<Rightarrow> 64 word" where
  "hash_reshard_key h key = hash_of (hash_unique_id h (key_src_id key))
     [hash_unique_id h (key_dst_id key), hash_int64 h (key_src_shard key), hash_int64 h (key_dst_shard key)]"

definition hash_scatter_gather_key :: "std_hash \<Rightarrow> scatter_gather_key \<Rightarrow> 64 word" where
  "hash_scatter_gather_key h key = hash_of (hash_unique_id h (sgk_src_id key)) [hash_unique_id h (sgk_dst_id key)]"

definition hash_tile_shape :: "std_hash \<Rightarrow> tile_shape \<Rightarrow> 64 word" where
  "hash_tile_shape h shape = hash_of (hash_vector h (hash_int64 h) (tsh_dims shape)) [hash_type h (tsh_type shape)]"

definition id_key_eq :: "id_key \<Rightarrow> id_key \<Rightarrow> bool" where
  "id_key_eq k key = (case (k, key) of ((devices, local_proc_id, type), (devices', local_proc_id', type')) \<Rightarrow>
     dl_eq devices' devices \<and> local_proc_id = local_proc_id' \<and> type' = type)"

definition hash_id_key :: "std_hash \<Rightarrow> id_key \<Rightarrow> 64 word" where
  "hash_id_key h key = (case key of (devices, local_proc_id, type) \<Rightarrow>
     hash_of (hash_device_list h devices) [hash_int64 h local_proc_id, hash_int h (proc_type_int type)])"

text \<open>
  A mixing step loses nothing of the value it adds, so a hash distinguishes keys that differ in their last field
  only, as far as the standard library's hash does.
\<close>

lemma hash_mix_cancel [simp]: "hash_mix t v = hash_mix t v' \<longleftrightarrow> v = v'"
proof
  assume "hash_mix t v = hash_mix t v'"
  then have "t XOR (t XOR (v + 0x9e3779b9 + push_bit 6 t + drop_bit 2 t)) =
      t XOR (t XOR (v' + 0x9e3779b9 + push_bit 6 t + drop_bit 2 t))"
    unfolding hash_mix_def by (rule arg_cong)
  then have "v + (0x9e3779b9 + push_bit 6 t + drop_bit 2 t) = v' + (0x9e3779b9 + push_bit 6 t + drop_bit 2 t)"
    by (simp add: xor.assoc [symmetric] add.assoc)
  then show "v = v'" by (rule add_right_imp_eq)
qed simp

lemma hash_combine_append: "hash_combine t (vs @ ws) = hash_combine (hash_combine t vs) ws"
  by (induction vs arbitrary: t) auto

lemma hash_last_field: "hash_of v (vs @ [a]) = hash_of v (vs @ [b]) \<longleftrightarrow> a = b"
  by (simp add: hash_of_def hash_combine_append)

section \<open>What a hash table requires of its keys\<close>

locale hash_key =
  fixes same :: "'k \<Rightarrow> 'k \<Rightarrow> bool"
    and hash :: "'k \<Rightarrow> 64 word"
  assumes same_refl: "same k k"
    and same_sym: "same k l \<Longrightarrow> same l k"
    and same_trans: "same k l \<Longrightarrow> same l m \<Longrightarrow> same k m"
    and same_hash: "same k l \<Longrightarrow> hash k = hash l"
begin

lemma keys_equivp: "equivp same"
  using same_refl same_sym same_trans by (intro equivpI reflpI sympI transpI) blast+

lemma other_key: "hash k \<noteq> hash l \<Longrightarrow> \<not> same k l"
  using same_hash by blast

lemma same_hash_of_same: "same k l \<Longrightarrow> same l m \<Longrightarrow> hash k = hash m"
  using same_trans same_hash by blast

end

section \<open>The keys of the program\<close>

interpretation reshard_table: hash_key reshard_key_eq "hash_reshard_key h" for h
  by unfold_locales (auto simp: reshard_key_eq_iff)

interpretation scatter_gather_table: hash_key scatter_gather_key_eq "hash_scatter_gather_key h" for h
  by unfold_locales (auto simp: scatter_gather_key_eq_iff)

interpretation unique_id_table: hash_key unique_id_eq "hash_unique_id h" for h
  by unfold_locales (auto simp: unique_id_eq_iff)

interpretation device_table: hash_key dl_eq "hash_device_list h" for h
  by unfold_locales auto

interpretation processor_table: hash_key processor_eq "hash_processor h" for h
  by unfold_locales (auto simp: processor_eq_def hash_processor_def)

interpretation tile_table: hash_key tile_shape_eq "hash_tile_shape h" for h
  by unfold_locales (auto simp: tile_shape_eq_def hash_tile_shape_def)

interpretation id_table: hash_key id_key_eq "hash_id_key h" for h
  by unfold_locales (auto simp: id_key_eq_def)

lemma sharded_shape_eq_iff: "sharded_shape_eq a b \<longleftrightarrow> a = b"
proof -
  have "dim_eq = (=)" by (intro ext) (auto simp: dim_eq_def)
  then show ?thesis by (auto simp: sharded_shape_eq_def sharding_eq_def list.rel_eq)
qed

interpretation shape_table: hash_key sharded_shape_eq "hash_sharded_shape h" for h
  by unfold_locales (auto simp: sharded_shape_eq_iff)

text \<open>
  The hash of a tile shape reads what its equality reads: a tile may be reused for another shape of the same type
  and extents, whatever its bounds.
\<close>

lemma tile_hash_ignores_bounds: "hash_tile_shape h (shape\<lparr>tsh_bounds := b\<rparr>) = hash_tile_shape h shape"
  by (rule tile_table.same_hash) (simp add: tile_shape_eq_def)

text \<open>
  Keys of one reshard that differ in the shard of the target only never share a hash, and neither do arrays on one
  mesh that differ in their number, as long as the standard library keeps integers apart.
\<close>

lemma reshard_keys_spread:
  assumes "inj (hash_size h)" and "\<And>a b. hash_int64 h a = hash_int64 h b \<Longrightarrow> int64_ok a \<Longrightarrow> int64_ok b \<Longrightarrow> a = b"
  shows "hash_unique_id h \<lparr>uid_id = i, uid_devices = d\<rparr> = hash_unique_id h \<lparr>uid_id = j, uid_devices = d\<rparr> \<longleftrightarrow> i = j"
    and "int64_ok (key_dst_shard k) \<Longrightarrow> int64_ok s \<Longrightarrow>
      hash_reshard_key h k = hash_reshard_key h (k\<lparr>key_dst_shard := s\<rparr>) \<longleftrightarrow> key_dst_shard k = s"
proof -
  show "hash_unique_id h \<lparr>uid_id = i, uid_devices = d\<rparr> = hash_unique_id h \<lparr>uid_id = j, uid_devices = d\<rparr> \<longleftrightarrow> i = j"
    using assms(1) hash_last_field[of _ "[]"] by (simp add: hash_unique_id_def inj_eq)
  show "hash_reshard_key h k = hash_reshard_key h (k\<lparr>key_dst_shard := s\<rparr>) \<longleftrightarrow> key_dst_shard k = s"
    if "int64_ok (key_dst_shard k)" "int64_ok s"
    using hash_last_field[of "hash_unique_id h (key_src_id k)"
        "[hash_unique_id h (key_dst_id k), hash_int64 h (key_src_shard k)]"] assms(2)[OF _ that]
    by (auto simp: hash_reshard_key_def)
qed

end
