(* ===== verification/Type_Traits.thy ===== *)
theory Type_Traits
  imports Task_Run
begin

text \<open>
  Computing with types: \<open>src/zuku/type_traits.h\<close> and the choices the compiler makes for the result of a task, by
  the specialisations of \<open>CreatePromise\<close>, \<open>CreateFuture\<close> and \<open>FulfillPromise\<close> in \<open>promise.h\<close>, \<open>future.h\<close>
  and \<open>token.h\<close>. A type is a value here, a trait a function, and an instance that does not compile is \<open>None\<close>:
  a primary template without a definition, or a \<open>static_assert\<close> that fails. The other theories start from the
  kinds of promises and results; the lemmas say which result types have them.
\<close>

section \<open>Types\<close>

datatype cpp_type =
    Void | Scalar string | PairOf cpp_type cpp_type | TupleOf "cpp_type list" | VectorOf cpp_type
  | FutureOf cpp_type | ViewOf cpp_type | StoreOf cpp_type | RoVectorOf cpp_type | RwVectorOf cpp_type
  | TokenOf "cpp_type list" \<comment> \<open>\<open>ReturnToken\<close> of a tuple\<close>

datatype param_type = ByVal cpp_type | ByRef cpp_type | ByConstRef cpp_type | ByRvalue cpp_type

fun decay :: "param_type \<Rightarrow> cpp_type" where
  "decay (ByVal t) = t" | "decay (ByRef t) = t" | "decay (ByConstRef t) = t" | "decay (ByRvalue t) = t"

text \<open>A member function \<open>operator()\<close>; a lambda that is not \<open>mutable\<close> has a \<open>const\<close> one.\<close>

record call_operator =
  call_const :: bool
  call_args :: "param_type list"
  call_ret :: cpp_type

definition LambdaTraits :: "call_operator \<Rightarrow> (param_type list \<times> cpp_type) option" where
  "LambdaTraits c = (if call_const c then Some (call_args c, call_ret c) else None)"

fun Tupleify :: "cpp_type \<Rightarrow> cpp_type" where
  "Tupleify Void = Void"
| "Tupleify (PairOf t u) = TupleOf [t, u]"
| "Tupleify (TupleOf ts) = TupleOf ts"
| "Tupleify t = TupleOf [t]"

fun is_tuple :: "cpp_type \<Rightarrow> bool" where
  "is_tuple (TupleOf ts) = True" | "is_tuple _ = False"

fun is_vector :: "cpp_type \<Rightarrow> bool" where
  "is_vector (VectorOf t) = True" | "is_vector _ = False"

fun is_deferred :: "cpp_type \<Rightarrow> bool" where
  "is_deferred (FutureOf t) = True" | "is_deferred (ViewOf t) = True" | "is_deferred (StoreOf t) = True"
| "is_deferred _ = False"

fun has_deferred_element :: "nat \<Rightarrow> param_type list \<Rightarrow> bool option" where
  "has_deferred_element 0 [] = Some False"
| "has_deferred_element (Suc n) (t # ts) =
     (case has_deferred_element n ts of Some v \<Rightarrow> Some (is_deferred (decay t) \<or> v) | None \<Rightarrow> None)"
| "has_deferred_element _ _ = None"

definition tuple_has_deferred_element :: "param_type list \<Rightarrow> bool option" where
  "tuple_has_deferred_element ts = has_deferred_element (length ts) ts"

lemma tuple_has_deferred_element_eq:
  "tuple_has_deferred_element ts = Some (list_ex (\<lambda>t. is_deferred (decay t)) ts)"
  unfolding tuple_has_deferred_element_def by (induction ts) auto

fun DecayNestedFuture :: "cpp_type \<Rightarrow> cpp_type" where
  "DecayNestedFuture (FutureOf (FutureOf t)) = FutureOf t"
| "DecayNestedFuture (FutureOf t) = FutureOf t"
| "DecayNestedFuture t = FutureOf t"

section \<open>Parameters\<close>

text \<open>The parameter an access of \<open>Tasks\<close> is for, over some type \<open>t\<close> of the value.\<close>

fun access_param :: "cpp_type \<Rightarrow> bool \<times> access \<Rightarrow> param_type" where
  "access_param t (True, Write k) = ByVal (RwVectorOf t)"
| "access_param t (True, _) = ByVal (RoVectorOf t)"
| "access_param t (False, Write k) = ByRef t"
| "access_param t (False, Read k) = ByConstRef t"
| "access_param t (False, Child k) = ByVal (StoreOf t)"
| "access_param t (False, Reader k) = ByVal (ViewOf t)"
| "access_param t (False, SubReader k) = ByVal (ViewOf t)"
| "access_param t (False, ReadFuture k) = ByVal t"
| "access_param t (False, GiveStore k whole) = (if whole then ByVal (StoreOf t) else ByRef t)"
| "access_param t (False, GiveView k whole) = (if whole then ByVal (ViewOf t) else ByConstRef t)"
| "access_param t (False, GiveFuture k whole) = ByVal (if whole then FutureOf t else t)"
| "access_param t (False, Plain) = ByVal t"

lemma effects_by_type:
  assumes "\<not> is_deferred t"
  shows "tuple_has_deferred_element (map (access_param t) args) =
    Some (list_ex (\<lambda>(in_vector, a). \<not> in_vector \<and> deferred_access a) args)"
proof -
  have "is_deferred (decay (access_param t x)) = (case x of (in_vector, a) \<Rightarrow> \<not> in_vector \<and> deferred_access a)" for x
    using assms by (cases "(t, x)" rule: access_param.cases) (auto simp: deferred_access_def)
  then show ?thesis by (simp add: tuple_has_deferred_element_eq list_ex_iff)
qed

section \<open>Results\<close>

text \<open>
  Whether a value of a type can be assigned to another, which \<open>Promise::emplace\<close> does with
  \<open>*ptr = std::move(t)\<close>. A class that declares a move constructor has no implicit assignment:
  \<open>Future\<close> (but not \<open>Future<void>\<close>), \<open>View\<close> and \<open>rw_vector\<close>, which declare no operator; \<open>Store\<close> has its own. A
  tuple, a pair and a token are assigned element by element, a \<open>std::vector\<close> by its buffer. \<open>Scalar\<close> stands
  for the types of the program that can be copied and assigned.
\<close>

fun assignable :: "cpp_type \<Rightarrow> bool" where
  "assignable Void = False"
| "assignable (Scalar n) = True"
| "assignable (PairOf t u) = (assignable t \<and> assignable u)"
| "assignable (TupleOf ts) = list_all assignable ts"
| "assignable (VectorOf t) = True"
| "assignable (FutureOf t) = (t = Void)"
| "assignable (ViewOf t) = False"
| "assignable (StoreOf t) = True"
| "assignable (RoVectorOf t) = True"
| "assignable (RwVectorOf t) = False"
| "assignable (TokenOf ts) = list_all assignable ts"

text \<open>The specialisation the compiler picks, and the \<open>T\<close> of the \<open>Promise<T>\<close> it makes.\<close>

definition CreatePromise_for :: "cpp_type \<Rightarrow> cpp_type \<Rightarrow> (promise_kind \<times> cpp_type) option" where
  "CreatePromise_for future_type return_type = (case return_type of
     TokenOf ts \<Rightarrow> if future_type = FutureOf (TokenOf ts) then Some (TokenPromise, Void) else None
   | VectorOf t \<Rightarrow> None
   | FutureOf t \<Rightarrow>
       if future_type = FutureOf t then Some (if t = Void then TokenPromise else FuturePromise, t)
       else if future_type = FutureOf (FutureOf t) then Some (ValuePromise, FutureOf t) else None
   | t \<Rightarrow> if future_type = FutureOf t then Some (ValuePromise, t) else None)"

definition CreateFuture_for :: "cpp_type \<Rightarrow> cpp_type \<Rightarrow> (promise_kind \<times> cpp_type) option" where
  \<comment> \<open>with the \<open>T\<close> of the \<open>Future<T>\<close> the launch returns\<close>
  "CreateFuture_for future_type return_type = (case return_type of
     TokenOf ts \<Rightarrow> if future_type = FutureOf (TokenOf ts) then Some (TokenPromise, Void) else None
   | VectorOf t \<Rightarrow> None
   | FutureOf t \<Rightarrow>
       if future_type = FutureOf t then Some (if t = Void then TokenPromise else FuturePromise, t)
       else if future_type = FutureOf (FutureOf t) then Some (ValuePromise, FutureOf t) else None
   | t \<Rightarrow> if future_type = FutureOf t then Some (ValuePromise, t) else None)"

fun all_some :: "'a option list \<Rightarrow> 'a list option" where
  "all_some [] = Some []"
| "all_some (x # xs) = (case (x, all_some xs) of (Some y, Some ys) \<Rightarrow> Some (y # ys) | _ \<Rightarrow> None)"

text \<open>A \<open>std::tuple\<close> has no element of type \<open>void\<close>.\<close>

definition promise_element :: "cpp_type \<Rightarrow> (promise_kind \<times> cpp_type) option" where
  "promise_element return_type = (let future_type = DecayNestedFuture return_type
     in if return_type = Void then None else CreatePromise_for future_type return_type)"

definition future_element :: "cpp_type \<Rightarrow> (promise_kind \<times> cpp_type) option" where
  "future_element return_type = (let future_type = DecayNestedFuture return_type
     in if return_type = Void then None else CreateFuture_for future_type return_type)"

fun PromiseWrappedReturn :: "cpp_type \<Rightarrow> (promise_kind \<times> cpp_type) list option" where
  \<comment> \<open>without a value there is no tuple of promises\<close>
  "PromiseWrappedReturn Void = Some []"
| "PromiseWrappedReturn (TupleOf ts) = (if ts = [Void] then Some [] else all_some (map promise_element ts))"
| "PromiseWrappedReturn t = all_some (map promise_element [t])"

fun FutureWrappedReturn :: "cpp_type \<Rightarrow> (promise_kind \<times> cpp_type) list option" where
  \<comment> \<open>for any other type the general template has no call operator for the arguments of \<open>_defer\<close>\<close>
  "FutureWrappedReturn Void = Some []"
| "FutureWrappedReturn (TupleOf ts) = (if ts = [Void] then Some [] else all_some (map future_element ts))"
| "FutureWrappedReturn t = None"

datatype fulfilment = FulfilValue | FulfilFuture | FulfilVoid | FulfilToken

definition FulfillPromise_for :: "cpp_type \<Rightarrow> cpp_type \<Rightarrow> fulfilment option" where
  "FulfillPromise_for t promise =
     (if promise = Void \<and> (t = TokenOf [] \<or> t = TokenOf [FutureOf Void]) then Some FulfilToken
      else if promise = Void \<and> t = FutureOf Void then Some FulfilVoid
      else if t = FutureOf promise then Some FulfilFuture
      else if t = promise \<and> assignable t then Some FulfilValue else None)"

fun fulfil_from :: "cpp_type list \<Rightarrow> cpp_type list \<Rightarrow> nat \<Rightarrow> nat \<Rightarrow> fulfilment list option" where
  "fulfil_from ts promises index 0 = Some []"
| "fulfil_from ts promises index (Suc remaining) =
     (if index < length ts \<and> index < length promises
      then case (FulfillPromise_for (ts ! index) (promises ! index), fulfil_from ts promises (Suc index) remaining) of
             (Some f, Some fs) \<Rightarrow> Some (f # fs) | _ \<Rightarrow> None
      else None)"

fun FulfillPromises_for :: "cpp_type \<Rightarrow> cpp_type list \<Rightarrow> nat \<Rightarrow> fulfilment list option" where
  "FulfillPromises_for (TupleOf ts) promises n = fulfil_from ts promises 0 n"
| "FulfillPromises_for t promises n = fulfil_from [t] promises 0 n"

text \<open>
  Everything a launch instantiates for a function that returns \<open>r\<close>: the promises, the futures of the token, and,
  in \<open>dispatch\<close> with the result type of the function itself, the fulfilling of the promises.
\<close>

definition task_result :: "cpp_type \<Rightarrow> (promise_kind list \<times> fulfilment list) option" where
  "task_result r = (let tuple_ret_type = Tupleify r in
     case (PromiseWrappedReturn tuple_ret_type, FutureWrappedReturn tuple_ret_type) of
       (Some promises, Some futures) \<Rightarrow>
         (case tuple_ret_type of
            TupleOf ts \<Rightarrow>
              (case FulfillPromises_for r (map snd promises) (length ts) of
                 Some fs \<Rightarrow> Some (map fst promises, fs) | None \<Rightarrow> None)
          | _ \<Rightarrow> Some ([], []))
     | _ \<Rightarrow> None)"

fun part_supported :: "cpp_type \<Rightarrow> bool" where
  "part_supported Void = False"
| "part_supported (VectorOf t) = False"
| "part_supported (FutureOf (FutureOf t)) = False"
| "part_supported (TokenOf ts) = (ts = [] \<or> ts = [FutureOf Void])"
| "part_supported (FutureOf t) = True"
| "part_supported t = assignable t"

fun result_supported :: "cpp_type \<Rightarrow> bool" where
  "result_supported Void = True"
| "result_supported (PairOf t u) = False"
| "result_supported (TupleOf ts) = list_all part_supported ts"
| "result_supported t = part_supported t"

definition fulfilment_fits :: "promise_kind \<Rightarrow> fulfilment \<Rightarrow> bool" where
  "fulfilment_fits k f = (case k of ValuePromise \<Rightarrow> f = FulfilValue | FuturePromise \<Rightarrow> f = FulfilFuture
     | TokenPromise \<Rightarrow> f = FulfilVoid \<or> f = FulfilToken)"

lemma CreateFuture_for_eq: "CreateFuture_for = CreatePromise_for"
  by (intro ext) (simp add: CreateFuture_for_def CreatePromise_for_def)

lemma element_eq: "future_element = promise_element"
  by (simp add: fun_eq_iff future_element_def promise_element_def CreateFuture_for_eq)

lemma promise_element_supported:
  "part_supported t \<longleftrightarrow> (\<exists>k c f. promise_element t = Some (k, c) \<and> FulfillPromise_for t c = Some f)"
  by (cases t rule: part_supported.cases)
    (auto simp: promise_element_def CreatePromise_for_def FulfillPromise_for_def)

lemma promise_element_fits:
  "promise_element t = Some (k, c) \<Longrightarrow> FulfillPromise_for t c = Some f \<Longrightarrow> fulfilment_fits k f"
  by (cases t rule: part_supported.cases)
    (auto simp: promise_element_def CreatePromise_for_def FulfillPromise_for_def fulfilment_fits_def split: if_splits)

lemma all_some_eq: "all_some xs = Some ys \<longleftrightarrow> xs = map Some ys"
proof (induction xs arbitrary: ys)
  case (Cons x xs)
  then show ?case by (cases ys; cases x; cases "all_some xs") auto
qed auto

lemma all_some_map: "all_some (map f xs) = Some ys \<longleftrightarrow> list_all2 (\<lambda>x y. f x = Some y) xs ys"
  by (auto simp: all_some_eq list_all2_conv_all_nth list_eq_iff_nth_eq)

lemma fulfil_from_eq:
  "fulfil_from ts ps i n = all_some (map (\<lambda>j. if j < length ts \<and> j < length ps
     then FulfillPromise_for (ts ! j) (ps ! j) else None) [i..<i + n])"
proof (induction n arbitrary: i)
  case (Suc n)
  have "[i..<i + Suc n] = i # [Suc i..<Suc i + n]" by (simp add: upt_conv_Cons)
  then show ?case using Suc.IH[of "Suc i"] by (simp split: option.splits)
qed simp

lemma fulfil_all:
  assumes "length ps = length ts"
  shows "fulfil_from ts ps 0 (length ts) = Some fs \<longleftrightarrow>
    length fs = length ts \<and> (\<forall>j < length ts. FulfillPromise_for (ts ! j) (ps ! j) = Some (fs ! j))"
  using assms unfolding fulfil_from_eq all_some_map by (auto simp: list_all2_conv_all_nth)

text \<open>The parts of a result: each must be supported, and then each promise is fulfilled the way it was made.\<close>

lemma parts_supported:
  "(\<exists>ps fs. all_some (map promise_element ts) = Some ps \<and>
      fulfil_from ts (map snd ps) 0 (length ts) = Some fs) \<longleftrightarrow> list_all part_supported ts"
  (is "?L \<longleftrightarrow> ?R")
proof
  assume ?L
  then obtain ps fs where "length ps = length ts" "\<forall>j < length ts. promise_element (ts ! j) = Some (ps ! j)"
    "fulfil_from ts (map snd ps) 0 (length ts) = Some fs"
    by (auto simp: all_some_map list_all2_conv_all_nth)
  moreover from this have "\<forall>j < length ts. FulfillPromise_for (ts ! j) (snd (ps ! j)) = Some (fs ! j)"
    using fulfil_all[of "map snd ps" ts fs] by simp
  ultimately show ?R unfolding list_all_length promise_element_supported by (metis prod.collapse)
next
  assume ?R
  then have "\<forall>t \<in> set ts. \<exists>e f. promise_element t = Some e \<and> FulfillPromise_for t (snd e) = Some f"
    by (fastforce simp: list_all_iff promise_element_supported)
  then obtain e f where ef: "\<And>t. t \<in> set ts \<Longrightarrow> promise_element t = Some (e t) \<and> FulfillPromise_for t (snd (e t)) = Some (f t)"
    by metis
  have "all_some (map promise_element ts) = Some (map e ts)" using ef by (simp add: all_some_eq)
  moreover have "fulfil_from ts (map snd (map e ts)) 0 (length ts) = Some (map f ts)"
    using ef by (subst fulfil_all) simp_all
  ultimately show ?L by blast
qed

lemma parts_fit:
  assumes "all_some (map promise_element ts) = Some ps" and "fulfil_from ts (map snd ps) 0 (length ts) = Some fs"
  shows "list_all2 fulfilment_fits (map fst ps) fs"
proof -
  have ps: "length ps = length ts" "\<forall>j < length ts. promise_element (ts ! j) = Some (ps ! j)"
    using assms(1) by (auto simp: all_some_map list_all2_conv_all_nth)
  then have fs: "length fs = length ts" "\<forall>j < length ts. FulfillPromise_for (ts ! j) (snd (ps ! j)) = Some (fs ! j)"
    using assms(2) fulfil_all[of "map snd ps" ts fs] by auto
  show ?thesis using ps fs promise_element_fits
    by (auto simp: list_all2_conv_all_nth) (metis prod.collapse)
qed

definition parts_result :: "cpp_type list \<Rightarrow> (promise_kind list \<times> fulfilment list) option" where
  "parts_result ts = (case all_some (map promise_element ts) of
     Some ps \<Rightarrow> (case fulfil_from ts (map snd ps) 0 (length ts) of Some fs \<Rightarrow> Some (map fst ps, fs) | None \<Rightarrow> None)
   | None \<Rightarrow> None)"

lemma parts_result_supported: "parts_result ts \<noteq> None \<longleftrightarrow> list_all part_supported ts"
  unfolding parts_supported [symmetric] parts_result_def by (auto split: option.splits)

lemma parts_result_fits: "parts_result ts = Some (ks, fs) \<Longrightarrow> list_all2 fulfilment_fits ks fs"
  unfolding parts_result_def using parts_fit by (auto split: option.splits)

lemma single_part:
  assumes "Tupleify r = TupleOf [r]" and "\<And>ps n. FulfillPromises_for r ps n = fulfil_from [r] ps 0 n"
    and "r \<noteq> Void"
  shows "task_result r = parts_result [r]"
  using assms by (auto simp: task_result_def parts_result_def Let_def element_eq split: option.splits)

lemma tuple_result: "ts \<noteq> [Void] \<Longrightarrow> task_result (TupleOf ts) = parts_result ts"
  by (auto simp: task_result_def parts_result_def Let_def element_eq split: option.splits)

lemma void_tuple: "task_result (TupleOf [Void]) = None"
  by (simp add: task_result_def)

lemma pair_result: "task_result (PairOf t u) = None"
proof -
  have "FulfillPromise_for (PairOf t u) (snd e) = None" if "promise_element t = Some e" for e
    using that by (cases t rule: part_supported.cases)
      (auto simp: promise_element_def CreatePromise_for_def FulfillPromise_for_def split: if_splits)
  then show ?thesis by (auto simp: task_result_def Let_def split: option.splits)
qed

lemma task_result_cases:
  "task_result r = (case r of Void \<Rightarrow> Some ([], []) | PairOf t u \<Rightarrow> None
     | TupleOf ts \<Rightarrow> if ts = [Void] then None else parts_result ts | _ \<Rightarrow> parts_result [r])"
  by (cases r) (simp_all add: task_result_def [of Void] pair_result void_tuple tuple_result single_part)

lemma task_result_supported: "task_result r \<noteq> None \<longleftrightarrow> result_supported r"
  using parts_result_supported[of "[r]"] parts_result_supported
  by (cases r) (auto simp: task_result_cases simp del: not_None_eq)

lemma task_result_fits: "task_result r = Some (ks, fs) \<Longrightarrow> list_all2 fulfilment_fits ks fs"
  using parts_result_fits by (cases r) (auto simp: task_result_cases split: if_splits)

section \<open>Results of these types can be fulfilled\<close>

fun returned_as :: "fulfilment \<Rightarrow> 'v result \<Rightarrow> bool" where
  \<comment> \<open>a value of the type; a future that is returned must have been launched\<close>
  "returned_as FulfilValue (ResultValue v) = True"
| "returned_as FulfilFuture (ResultFuture f) = Future_HasPrecondition f"
| "returned_as FulfilVoid (ResultVoidFuture pre) = (pre \<noteq> None)"
| "returned_as FulfilToken (ResultToken ev) = True"
| "returned_as _ _ = False"

lemma returned_fits:
  assumes "promise_fits k p" and "fulfilment_fits k f" and "returned_as f r"
  shows "result_fits r p"
  using assms by (cases "(f, r)" rule: returned_as.cases)
    (auto simp: promise_fits_def fulfilment_fits_def result_fits_def split: promise_kind.splits)

text \<open>
  C36. The result types of tasks. The templates for a result can be instantiated for exactly these types: nothing, a
  value that can be assigned, a future, a token of a launch without results, or a tuple of these, but not a pair, a
  vector, a view, a future of a future or a token with results. Whatever a function of such a type returns, fulfilling the promises that
  were made for the type succeeds: each promise is fulfilled in the way it was made for.
\<close>

theorem result_types_sound:
  "(task_result r \<noteq> None \<longleftrightarrow> result_supported r) \<and>
   (\<forall>ks fs ps rs rl (h :: ('v, 'z) memory_scheme) h' (h1 :: ('v, 'z) memory_scheme).
      task_result r = Some (ks, fs) \<longrightarrow> make_promise_tuple rl ks h = (ps, h') \<longrightarrow> list_all2 returned_as fs rs \<longrightarrow>
      (\<exists>ps' h2. FulfillPromises rl rs ps h1 = ret (ps', h2)))"
proof (intro conjI allI impI)
  fix ks fs ps rl and rs :: "'v result list" and h h' h1 :: "('v, 'z) memory_scheme"
  assume r: "task_result r = Some (ks, fs)" and ps: "make_promise_tuple rl ks h = (ps, h')"
    and rs: "list_all2 returned_as fs rs"
  have "list_all2 result_fits rs ps"
    using make_promise_tuple_fits[OF ps] task_result_fits[OF r] rs returned_fits
    by (auto simp: list_all2_conv_all_nth) blast
  then show "\<exists>ps' h2. FulfillPromises rl rs ps h1 = ret (ps', h2)"
    using FulfillPromises_run[of rs ps rl h1] by blast
qed (rule task_result_supported)

theorem result_types_sound_witness:
  "task_result (TupleOf [Scalar ''int'', FutureOf Void]) = Some ([ValuePromise, TokenPromise], [FulfilValue, FulfilVoid]) \<and>
   (\<exists>ps' h2. FulfillPromises fresh_realm [ResultValue (7 :: int), ResultVoidFuture (Some 3)]
      (fst (make_promise_tuple fresh_realm [ValuePromise, TokenPromise] (mem (empty_program :: int future_program))))
      (snd (make_promise_tuple fresh_realm [ValuePromise, TokenPromise] (mem empty_program))) = ret (ps', h2))"
proof -
  have r: "task_result (TupleOf [Scalar ''int'', FutureOf Void]) =
      Some ([ValuePromise, TokenPromise], [FulfilValue, FulfilVoid])"
    by (simp add: task_result_def promise_element_def future_element_def CreatePromise_for_def CreateFuture_for_def
        FulfillPromise_for_def)
  obtain ps h' where ps: "make_promise_tuple fresh_realm [ValuePromise, TokenPromise] (mem (empty_program :: int future_program)) = (ps, h')"
    by (cases "make_promise_tuple fresh_realm [ValuePromise, TokenPromise] (mem (empty_program :: int future_program))")
  have "list_all2 returned_as [FulfilValue, FulfilVoid] [ResultValue (7 :: int), ResultVoidFuture (Some 3)]" by simp
  then have "\<exists>ps' h2. FulfillPromises fresh_realm [ResultValue (7 :: int), ResultVoidFuture (Some 3)] ps h' = ret (ps', h2)"
    using result_types_sound[THEN conjunct2, rule_format, OF r ps] by blast
  then show ?thesis using r by (simp only: ps fst_conv snd_conv simp_thms)
qed

lemma unsupported_results:
  "task_result (PairOf t u) = None" "task_result (FutureOf (FutureOf t)) = None"
  "task_result (TokenOf [FutureOf (Scalar n)]) = None" "task_result (VectorOf t) = None"
  "task_result (ViewOf t) = None" "task_result (RwVectorOf t) = None"
  using task_result_supported[of "PairOf t u"] task_result_supported[of "FutureOf (FutureOf t)"]
    task_result_supported[of "ViewOf t"] task_result_supported[of "RwVectorOf t"]
    task_result_supported[of "TokenOf [FutureOf (Scalar n)]"] task_result_supported[of "VectorOf t"]
  by (simp_all del: not_None_eq)

end
