(* ===== verification/Ref_Vectors.thy ===== *)
theory Ref_Vectors
  imports Task_Run
begin

text \<open>
  \<open>src/zuku/vector.h\<close>: vectors of references, which a task gets for a vector of stores (\<open>rw_vector\<close>) or of views
  (\<open>ro_vector\<close>). A vector is the list of the addresses it refers to; what is read and written through it are
  the cells of the memory, so two elements may be one object. What a range-for loop does to the memory is
  stated for vectors with repetitions too.
\<close>

section \<open>Vectors and iterators\<close>

type_synonym refs = "nat list"

definition ro_push_back :: "nat \<Rightarrow> refs \<Rightarrow> refs" where
  "ro_push_back t v = v @ [t]"

definition ro_emplace_back :: "nat \<Rightarrow> refs \<Rightarrow> refs" where
  "ro_emplace_back t v = v @ [t]"

definition ro_index :: "('v, 'z) task_memory_scheme \<Rightarrow> refs \<Rightarrow> int \<Rightarrow> 'v res" where
  "ro_index h v idx = andThen (vec_at v idx) (\<lambda>t. ret (value_cells h t))"

definition ro_size :: "refs \<Rightarrow> nat" where
  "ro_size v = length v"

definition rw_vector_of :: "nat list \<Rightarrow> refs" where
  \<comment> \<open>the constructor from its elements\<close>
  "rw_vector_of args = foldl (\<lambda>v t. v @ [t]) [] args"

definition rw_push_back :: "nat \<Rightarrow> refs \<Rightarrow> refs" where
  "rw_push_back t v = v @ [t]"

definition rw_emplace_back :: "nat \<Rightarrow> refs \<Rightarrow> refs" where
  "rw_emplace_back t v = v @ [t]"

definition rw_index :: "refs \<Rightarrow> int \<Rightarrow> nat res" where
  \<comment> \<open>the reference, through which the caller may write\<close>
  "rw_index v idx = vec_at v idx"

definition rw_size :: "refs \<Rightarrow> nat" where
  "rw_size v = length v"

text \<open>An iterator is a position; \<open>begin() const\<close> of an \<open>rw_vector\<close> does not compile when it is used.\<close>

definition ro_begin :: "refs \<Rightarrow> nat" where "ro_begin v = 0"
definition ro_end :: "refs \<Rightarrow> nat" where "ro_end v = length v"
definition rw_begin :: "refs \<Rightarrow> nat" where "rw_begin v = 0"
definition rw_end :: "refs \<Rightarrow> nat" where "rw_end v = length v"

definition iter_next :: "nat \<Rightarrow> nat" where
  "iter_next it = it + 1"

definition iter_post_next :: "nat \<Rightarrow> nat \<times> nat" where
  \<comment> \<open>the value before, and the iterator after\<close>
  "iter_post_next it = (it, it + 1)"

definition iter_deref :: "refs \<Rightarrow> nat \<Rightarrow> nat res" where
  "iter_deref v it = vec_at v (int it)"

definition iter_eq :: "nat \<Rightarrow> nat \<Rightarrow> bool" where "iter_eq a b \<longleftrightarrow> a = b"
definition iter_neq :: "nat \<Rightarrow> nat \<Rightarrow> bool" where "iter_neq a b \<longleftrightarrow> a \<noteq> b"

text \<open>A range-for loop, whose body gets the reference; \<open>None\<close> would be a loop that does not end.\<close>

partial_function (option) range_for ::
  "refs \<Rightarrow> nat \<Rightarrow> nat \<Rightarrow> (nat \<Rightarrow> 's \<Rightarrow> 's res) \<Rightarrow> 's \<Rightarrow> 's res option" where
  "range_for v it stop body s =
     (if iter_neq it stop
      then (case andThen (iter_deref v it) (\<lambda>t. body t s) of
              Inl e \<Rightarrow> Some (Inl e)
            | Inr s' \<Rightarrow> range_for v (iter_next it) stop body s')
      else Some (Inr s))"

lemma range_for_suffix:
  "range_for (us @ vs) (length us) (length (us @ vs)) body s = Some (foldR (\<lambda>s t. body t s) s vs)"
proof (induction vs arbitrary: us s)
  case Nil
  then show ?case by (subst range_for.simps) (simp add: iter_neq_def)
next
  case (Cons t vs)
  have "vec_at (us @ t # vs) (int (length us)) = ret t" by (simp add: vec_at_def)
  then show ?case
    using Cons.IH[of "us @ [t]"]
    by (subst range_for.simps) (simp add: iter_neq_def iter_deref_def iter_next_def split: sum.splits)
qed

lemma range_for_all:
  "range_for v (rw_begin v) (rw_end v) body s = Some (foldR (\<lambda>s t. body t s) s v)"
  "range_for v (ro_begin v) (ro_end v) body s = Some (foldR (\<lambda>s t. body t s) s v)"
  using range_for_suffix[of "[]" v body s]
  by (simp_all add: rw_begin_def rw_end_def ro_begin_def ro_end_def)

section \<open>What loops do\<close>

definition write_cell :: "('v \<Rightarrow> 'v) \<Rightarrow> nat \<Rightarrow> ('v, 'z) task_memory_scheme \<Rightarrow> ('v, 'z) task_memory_scheme res" where
  "write_cell f t h = ret (h\<lparr>value_cells := (value_cells h)(t := f (value_cells h t))\<rparr>)"

definition read_cell ::
  "('v, 'z) task_memory_scheme \<Rightarrow> nat \<Rightarrow> 'v list \<Rightarrow> 'v list res" where
  "read_cell h t xs = ret (xs @ [value_cells h t])"

lemma write_all:
  "foldR (\<lambda>h t. write_cell f t h) h v =
     ret (h\<lparr>value_cells := \<lambda>a. (f ^^ count_list v a) (value_cells h a)\<rparr>)"
proof (induction v arbitrary: h)
  case (Cons t v)
  then show ?case by (auto simp: write_cell_def funpow_swap1 fun_eq_iff intro!: arg_cong[where f = "\<lambda>c. value_cells_update (\<lambda>_. c) h"])
qed simp

lemma read_all: "foldR (\<lambda>xs t. read_cell h t xs) xs v = ret (xs @ map (value_cells h) v)"
  by (induction v arbitrary: xs) (auto simp: read_cell_def)

text \<open>
  Vectors of references reach what they refer to. A loop over an \<open>rw_vector\<close> that applies \<open>f\<close> to each element ends
  and changes the objects of the vector only, each as often as it is in the vector; a loop over an \<open>ro_vector\<close>
  reads the objects in order, and indexing it gives the same values. The vector a task gets for its
  stores refers to the objects of the stores, in order.
\<close>

lemma vector_loops:
  "range_for v (rw_begin v) (rw_end v) (write_cell f) h =
     Some (ret (h\<lparr>value_cells := \<lambda>a. (f ^^ count_list v a) (value_cells h a)\<rparr>))"
  "range_for v (ro_begin v) (ro_end v) (read_cell h) [] = Some (ret (map (value_cells h) v))"
  "mapR (ro_index h v) (map int [0..<ro_size v]) = ret (map (value_cells h) v)"
proof -
  show "range_for v (rw_begin v) (rw_end v) (write_cell f) h =
     Some (ret (h\<lparr>value_cells := \<lambda>a. (f ^^ count_list v a) (value_cells h a)\<rparr>))"
    by (simp add: range_for_all write_all)
  show "range_for v (ro_begin v) (ro_end v) (read_cell h) [] = Some (ret (map (value_cells h) v))"
    by (simp add: range_for_all read_all)
  have "mapR (ro_index h v) (map int [0..<ro_size v]) = ret (map (\<lambda>i. value_cells h (v ! nat i)) (map int [0..<ro_size v]))"
    by (rule mapR_pure) (auto simp: ro_index_def vec_at_def ro_size_def)
  also have "map (\<lambda>i. value_cells h (v ! nat i)) (map int [0..<ro_size v]) = map (value_cells h) v"
    by (rule nth_equalityI) (simp_all add: ro_size_def)
  finally show "mapR (ro_index h v) (map int [0..<ro_size v]) = ret (map (value_cells h) v)" .
qed

lemma task_vector:
  assumes "list_all2 (\<lambda>st a. store_value st = Some a) sts v"
  shows "ResolveDependency gone ToRwVector (ArgStores sts) h = Some (ret (Refs v, ArgStores sts, h))"
proof -
  have "mapR store_get sts = ret v" using assms
    by (induction sts v rule: list_all2_induct) (auto simp: store_get_def)
  then show ?thesis by (simp add: ResolveDependency_def)
qed

lemma vectors_built: "rw_vector_of args = args"
proof -
  have "foldl (\<lambda>v t. v @ [t]) us args = us @ args" for us by (induction args arbitrary: us) auto
  then show ?thesis by (simp add: rw_vector_of_def)
qed

text \<open>A task that updates each element of its vector of stores changes the values of these stores and nothing else.\<close>

lemma task_updates_its_stores:
  assumes "list_all2 (\<lambda>st a. store_value st = Some a) sts v" and "distinct v"
  shows "\<exists>h'. ResolveDependency gone ToRwVector (ArgStores sts) h = Some (ret (Refs v, ArgStores sts, h)) \<and>
    range_for v (rw_begin v) (rw_end v) (write_cell f) h = Some (ret h') \<and>
    map (value_cells h') v = map f (map (value_cells h) v) \<and>
    (\<forall>a. a \<notin> set v \<longrightarrow> value_cells h' a = value_cells h a)"
proof -
  have "count_list v a = (if a \<in> set v then 1 else 0)" for a
    using assms(2) by (induction v) auto
  then show ?thesis using task_vector[OF assms(1)] by (simp add: vector_loops(1))
qed

end
