(* ===== verification/Spec2Isabelle.thy ===== *)
theory Spec2Isabelle
  imports Task_Run Task_Vectors Scatter_Shards Reshard_Target Program Broadcast_Moves Hashing Type_Traits Ref_Vectors
begin

text \<open>
  Zuku: deferred tasks and sharded arrays on the Realm runtime.

  The program under \<open>src/src/zuku\<close> is a C++ library. A user program launches tasks; a launch
  returns at once and the task runs when the events it depends on have triggered. Data is held in
  stores, which know the events of their accesses, is lent through views, and comes back through futures.
  On top of that there are arrays cut into tiles, one tile per device, and resharding: copying an
  array into one that is cut in another way or lives on other devices. Many processes run the same
  program; each computes its own part of a reshard and the parts have to agree.

  \<^bold>\<open>Parts, and the theories that model them\<close>

  \<^item> \<open>Prelude\<close>: results (a thrown exception, a failed assertion and undefined behaviour are
    values), checked 64-bit arithmetic, vectors by index, loops that may fail. \<open>Pool\<close>: the
    interface of a pool of reusable values, a locale. \<open>Mixed_Radix\<close>: mixed-radix numbers.
  \<^item> \<open>Mesh\<close>: \<open>mesh.h\<close>, ranges of devices and their iteration. \<open>Shape\<close>: \<open>shape.h\<close>, types,
    shardings and their sizes. \<open>Tiles\<close> and \<open>Tile_Bounds\<close>: \<open>ComputeTileIndex\<close>,
    \<open>ComputeTileShard\<close> and \<open>ComputeTileBounds\<close> of \<open>tiled_array.cc\<close> and the rectangles of
    \<open>realm_variants.h\<close>. \<open>Processor\<close>: \<open>processor.cc\<close>, how processes number the
    processors of the machine. \<open>Hashing\<close>: \<open>hash.h\<close> and the hash functions of all keys.
  \<^item> \<open>Scatter_Gather\<close>, \<open>Broadcast\<close>, \<open>Reshard_Config\<close>: what each device decides to do in a
    reshard (\<open>reshard.cc\<close>, \<open>GetScatterGatherConfig\<close>, \<open>GetBroadcastConfig\<close>,
    \<open>GetGatherShardsConfig\<close>, \<open>GetScatterShardsConfig\<close>).
  \<^item> \<open>Realm_World\<close>: the runtime as the code sees it, the names of arrays, pending operations
    (\<open>init.cc\<close>). \<open>Store\<close>: \<open>store.h\<close> and the views of \<open>future.h\<close>. \<open>Future_Views\<close> and \<open>Futures\<close>:
    \<open>future.h\<close>, \<open>promise.h\<close>, \<open>token.h\<close>. \<open>Tasks\<close>: \<open>defer.h\<close>, the
    construction of tasks (\<open>task.h\<close>, \<open>task_base.h\<close>), argument conversions, barriers;
    \<open>Task_Vectors\<close>: the conversions of vectors. \<open>Task_Ids\<close>: the ids of task functions.
    \<open>Task_Run\<close>: \<open>Invoke\<close> and both dispatches (\<open>task.h\<close>, \<open>task.cc\<close>), \<open>resolve_dependency.h\<close>,
    \<open>stream.cc\<close>. \<open>Type_Traits\<close>: \<open>type_traits.h\<close> and the templates chosen for the result of a task.
    \<open>Ref_Vectors\<close>: \<open>vector.h\<close>, the vectors of references a task is given.
  \<^item> \<open>Start_Up\<close>: \<open>init.cc\<close>, the start of a process, the wait for what it still owes, and its end.
    \<open>Program\<close>: \<open>program\<close> and \<open>stop\<close> of \<open>defer.h\<close>, a process from start to end. \<open>Profiling\<close>:
    \<open>profile.cc\<close>, marks, ranges and regions.
  \<^item> \<open>Sharded_Array\<close>: \<open>tiled_array.h\<close>, \<open>tiled_array.cc\<close>, \<open>instance_cache.h\<close> and the
    allocation of \<open>init.h\<close>: tiles, their cache, creation, destruction and moves of arrays.
  \<^item> \<open>Reshard_Manager\<close>: \<open>reshard_manager.cc\<close>, the pairing of the two ends of a copy.
    \<open>Reshard_Exchange\<close>: two managers and the messages between them. \<open>Reshard_Exec\<close>: the
    loops of the five protocols and \<open>Reshard\<close>. \<open>Scatter_Shards\<close>: the two ends of that protocol agree.
    \<open>Reshard_Safety\<close> and \<open>Reshard_Target\<close>: sources and targets under all protocols.
  \<^item> \<open>Array_Plan\<close>: what a reshard has to copy, as a plan of boxes between shards, and what copies do
    to the contents of tiles. \<open>Plan_Config\<close>: the configurations of \<open>reshard.cc\<close> are the plan.
    \<open>Array_Ledger\<close> and \<open>Array_Moves\<close>: running \<open>Reshard\<close> on all processors of a process carries out the plan.
    \<open>Broadcast_Ledger\<close> and \<open>Broadcast_Moves\<close>: the same for broadcasts, where copies read what others wrote.

  \<^bold>\<open>State and operations\<close>

  A class is a record, a function or member function a definition of the same name that takes the
  state it uses and returns it changed (a prefix where names clash, as in \<open>store_view\<close> and
  \<open>view_view\<close>). A static table is a field of the state: the tables of processors
  (\<open>proc_tables\<close>), the tile cache and allocation counts (\<open>array_runtime\<close>), the reshard records
  (\<open>reshard_manager\<close>), the ids of tasks, the open profile ranges. Objects that are shared by pointer, the
  values of futures and what stores hold, are cells of a memory (\<open>memory\<close>, \<open>task_memory\<close>). Realm is not part of the repository: the state carries the trace of the
  calls made so far, and what a call returns is given by an oracle \<open>realm\<close>, an argument of every
  definition that calls it. \<open>depends\<close> reads off a trace which events come after which; it is the
  only meaning of events that is used (a merged event comes after its parts, a user event after what
  triggers it, a copy, a spawned task and a barrier's generation after what they wait for). Where a
  theorem needs more of Realm, that user events exist or that barriers advance, it is a named hypothesis.
  Templates are modelled at the level where their instances differ: the fields of a context, the
  arguments of a task and its results are lists over datatypes that have a constructor for each
  overload. Integers of type \<open>int64_t\<close> are \<open>int\<close> with every operation checked, but for the single additions
  in the accessors of a \<open>DeviceList\<close>, which are exact on lists in range (\<open>Mesh\<close>); ids are
  64-bit words. There is always memory: \<open>std::bad_alloc\<close> is not modelled, \<open>std::length_error\<close> is.

  \<^bold>\<open>What is shown\<close>

  \<^item> Tiling: the tiles of a sharding cover each element exactly as often as the sharding
    replicates; tile numbers and indices correspond; sizes agree and do not overflow within
    stated bounds; iterating over devices ends.
  \<^item> Choice and configuration of a reshard: all devices choose the same protocol, and those that do
    nothing have no part in it; what a source
    intends to send is what a target expects, in the scatter and gather protocols exactly; broadcast
    trees deliver to every target when the targets per source are a power of two; slices hold
    each element once.
  \<^item> Execution of a reshard: on one process, copies pair the calls of both ends by number, follow both
    ends and are followed by the events both callers got; on two, whatever the order of calls and
    of the messages between them, every copy pairs the next source with the next target whose name
    arrived, and what the target's caller waits for is right when names arrive in the order sent; nothing fails; no
    protocol lets a source be overwritten before its last copy, and whoever waits for the store of the target
    waits for every copy into it.
  \<^item> A reshard moves the array: on one process, whatever the order of the processors and of the copies,
    the tiles of the target hold the array that the tiles of the source held: \<open>reshard_moves_array\<close> for
    every pair of shardings with a plan, in all protocols but broadcast, and \<open>broadcast_moves_array\<close> for
    broadcasts whose trees are full, in any order of the copies that respects what each waits for.
  \<^item> Stores, views and tasks: tasks that conflict on a store run in launch order (a writer waits for the release of an earlier task's
    view), and after the tasks whose results they read; a view releases its store after all of its uses; a task that ran has triggered
    everything it owed, and its results are in the futures of its launch. Futures: well formed,
    assigned once, forwarded values arrive, and the promises of a task refine what its launch uses of them;
    exactly the supported result types can be instantiated and then fulfilling succeeds.
  \<^item> Arrays: the caches hand out each freed value once and in order; ids count up per mesh and
    processor; creation gives the device's tile; moves between memories are ordered; keys that compare equal hash equally.
  \<^item> Processes: \<open>Stop\<close> returns when nothing is owed; a program that starts ends after its task; a
    profile region ends the range it started, after its events; task ids are distinct.

  The interfaces are locales: \<open>keyed_pool\<close> (the tile cache and the instance cache), \<open>event_order\<close>
  (the order of events, which the lemmas on stores, tasks and reshards use), \<open>access_log\<close> (reads and
  writes of an instance), \<open>transfer_plan\<close> (what the two sides of a reshard agree on; carried out, it moves the
  array) and \<open>hash_key\<close> (what a hash table requires of its keys). Each is interpreted on the model in the theory that
  provides it.

  \<^bold>\<open>Bounds and fuel\<close>

  Loops of the source are structural recursions or index loops over lists; \<open>leaf_loop\<close> needs a
  measure and has its termination proof. A loop that need not end for every argument
  returns an option, \<open>None\<close> when it does not end: the doubling and the halving loop of \<open>GetTargetConfig\<close>
  (\<open>while_option\<close>; \<open>Broadcast\<close> shows that they return for every number of leaves and every rank), the wait of
  \<open>Stop\<close> (\<open>while_option\<close> over what other threads do meanwhile), the range-for loops over devices and over vectors
  of references, and \<open>follow\<close>, which goes from future to future (\<open>partial_function\<close>; shown to return in every
  state a program reaches). No definition takes fuel. \<open>max_dim\<close> is \<open>REALM_MAX_DIM\<close>, the largest rank Realm
  is built for, a parameter.

  \<^bold>\<open>Not modelled\<close>

  Log lines and printing that nothing reads; the regions that the reshard manager and \<open>MoveToMemory\<close> open for
  profiling; hooks for other hash frameworks. Of the templates: those without run-time meaning or choice
  (\<open>overloaded\<close>, \<open>rect_info\<close>), those that nothing calls (\<open>link_promise.h\<close>) and those that do not compile
  when they are instantiated (the vector forms of promises and futures). Locks: an operation of the
  code that holds its lock throughout is one step, and an exception thrown inside it, which would leave a
  \<open>wrlock\<close> held, ends the model's run. What tiles hold after a reshard is shown for one process; between two
  processes, the pairing of the copies and their order.
\<close>

end
